(* ===== verification/Sim_Prelude.thy ===== *)
theory Sim_Prelude
  imports Main "HOL-Library.Monad_Syntax" "HOL-Library.AList"
begin

section \<open>Prelude: machine arithmetic, panics, hash maps\<close>

text \<open>
  Shared vocabulary of the development.

  \<^item> A Rust panic (a failed \<open>assert!\<close>, \<open>expect\<close>, an index out of range, a subtraction
    below zero) and a loop that never returns are both the value \<open>None\<close> of the option
    monad; a function that can do neither is a plain function. So \<open>f x = Some y\<close> says
    that the code returns \<open>y\<close>, and a theorem \<open>\<exists>y. f x = Some y\<close> that it returns.
  \<^item> The unsigned integers \<open>u16\<close>, \<open>u32\<close> and \<open>u64\<close> are \<open>nat\<close>. Sums and products of
    token and unit counts are exact; every operation whose width the code itself
    relies on (checked, saturating, a cast, \<open>u64::MAX - x\<close>) is written out with the
    definitions below.
  \<^item> A \<open>HashMap\<close> is an association list with one pair per key: \<open>map_of\<close> reads it,
    \<open>AList.update\<close> and \<open>AList.delete\<close> write it. The order of its pairs stands for the
    hash order, on which no result may depend.
  \<^item> A \<open>Vec\<close> is a list; indexing is \<open>nth_opt\<close>, which is \<open>None\<close> out of range.
\<close>

named_theorems arith_defs \<open>definitions of the machine operations\<close>

subsection \<open>Machine integers\<close>

definition u16_max :: nat where "u16_max = 65535"
definition u32_max :: nat where "u32_max = 4294967295"
definition u64_max :: nat where "u64_max = 18446744073709551615"

text \<open>The cast \<open>x as u32\<close>.\<close>

definition as_u32 :: "nat \<Rightarrow> nat" where
  "as_u32 n = n mod 4294967296"

text \<open>\<open>a - b\<close> on an unsigned type: it panics (and would wrap in a release build) below zero.\<close>

definition checked_sub :: "nat \<Rightarrow> nat \<Rightarrow> nat option" where
  "checked_sub a b = (if b \<le> a then Some (a - b) else None)"

definition checked_add_u32 :: "nat \<Rightarrow> nat \<Rightarrow> nat option" where
  "checked_add_u32 a b = (if a + b \<le> u32_max then Some (a + b) else None)"

definition checked_add_u64 :: "nat \<Rightarrow> nat \<Rightarrow> nat option" where
  "checked_add_u64 a b = (if a + b \<le> u64_max then Some (a + b) else None)"

definition saturating_add_u64 :: "nat \<Rightarrow> nat \<Rightarrow> nat" where
  "saturating_add_u64 a b = min (a + b) u64_max"

definition saturating_mul_u64 :: "nat \<Rightarrow> nat \<Rightarrow> nat" where
  "saturating_mul_u64 a b = min (a * b) u64_max"

definition saturating_mul_u32 :: "nat \<Rightarrow> nat \<Rightarrow> nat" where
  "saturating_mul_u32 a b = min (a * b) u32_max"

text \<open>\<open>u32::try_from(x).expect(..)\<close> and its \<open>u16\<close> form.\<close>

definition try_u32 :: "nat \<Rightarrow> nat option" where
  "try_u32 n = (if n \<le> u32_max then Some n else None)"

definition try_u16 :: "nat \<Rightarrow> nat option" where
  "try_u16 n = (if n \<le> u16_max then Some n else None)"

definition div_ceil :: "nat \<Rightarrow> nat \<Rightarrow> nat" where
  "div_ceil a b = (if a mod b = 0 then a div b else a div b + 1)"

declare checked_sub_def [arith_defs] checked_add_u32_def [arith_defs]
  checked_add_u64_def [arith_defs] saturating_add_u64_def [arith_defs]
  saturating_mul_u64_def [arith_defs] saturating_mul_u32_def [arith_defs]
  try_u32_def [arith_defs] try_u16_def [arith_defs]

lemma checked_sub_ok [simp]: "b \<le> a \<Longrightarrow> checked_sub a b = Some (a - b)"
  by (simp add: checked_sub_def)

lemma checked_sub_Some_iff: "checked_sub a b = Some c \<longleftrightarrow> b \<le> a \<and> c = a - b"
  by (auto simp: checked_sub_def)

lemma as_u32_id [simp]: "n \<le> u32_max \<Longrightarrow> as_u32 n = n"
  by (simp add: as_u32_def u32_max_def)

lemma div_ceil_0 [simp]: "div_ceil 0 b = 0"
  by (simp add: div_ceil_def)

lemma div_ceil_1 [simp]: "div_ceil a (Suc 0) = a"
  by (simp add: div_ceil_def)

lemma div_ceil_add_form: "0 < b \<Longrightarrow> div_ceil a b = (a + (b - 1)) div b"
proof -
  assume b: "0 < b"
  define q r where "q = a div b" and "r = a mod b"
  have a: "a = q * b + r" and r: "r < b" using b by (simp_all add: q_def r_def)
  show ?thesis
  proof (cases "r = 0")
    case True
    have "(a + (b - 1)) div b = q + (b - 1) div b"
      using b a True by (simp only: add_0_right div_mult_self3 not_gr_zero)
    with b a True show ?thesis by (simp add: div_ceil_def)
  next
    case False
    have "a + (b - 1) = (q + 1) * b + (r - 1)" using a b False by (simp add: algebra_simps)
    then have "(a + (b - 1)) div b = q + 1 + (r - 1) div b"
      using b by (simp only: div_mult_self3 not_gr_zero)
    moreover have "(r - 1) div b = 0" using r by simp
    ultimately show ?thesis using False by (simp add: div_ceil_def q_def r_def)
  qed
qed

lemma div_ceil_mono: "0 < b \<Longrightarrow> a \<le> a' \<Longrightarrow> div_ceil a b \<le> div_ceil a' b"
  by (simp add: div_ceil_add_form div_le_mono)

lemma le_mult_div_ceil: "0 < b \<Longrightarrow> a \<le> div_ceil a b * b"
proof -
  assume b: "0 < b"
  have "a = a div b * b + a mod b" by simp
  also have "a mod b < b" using b by simp
  finally show ?thesis by (auto simp: div_ceil_def)
qed

lemma div_ceil_least: "0 < b \<Longrightarrow> a \<le> n * b \<Longrightarrow> div_ceil a b \<le> n"
proof -
  assume b: "0 < b" and a: "a \<le> n * b"
  have "(a + b - 1) div b \<le> (n * b + (b - 1)) div b"
    using a b by (intro div_le_mono) simp
  also have "\<dots> = n + (b - 1) div b" using b by (simp only: div_mult_self3 not_gr_zero)
  finally show ?thesis using b by (simp add: div_ceil_add_form)
qed

lemma div_ceil_pos: "0 < b \<Longrightarrow> 0 < a \<Longrightarrow> 0 < div_ceil a b"
  by (metis div_ceil_def add_gr_0 div_greater_zero_iff less_one linorder_not_less mod_less
      neq0_conv)

subsection \<open>Panics\<close>

text \<open>\<open>assert!(p)\<close> and \<open>debug_assert!(p)\<close>.\<close>

definition assert_that :: "bool \<Rightarrow> unit option" where
  "assert_that p = (if p then Some () else None)"

definition nth_opt :: "'a list \<Rightarrow> nat \<Rightarrow> 'a option" where
  "nth_opt xs i = (if i < length xs then Some (xs ! i) else None)"

lemma assert_that_True [simp]: "assert_that True = Some ()"
  and assert_that_False [simp]: "assert_that False = None"
  by (simp_all add: assert_that_def)

lemma assert_that_Some_iff [simp]: "assert_that p = Some u \<longleftrightarrow> p"
  by (simp add: assert_that_def)

lemma nth_opt_ok [simp]: "i < length xs \<Longrightarrow> nth_opt xs i = Some (xs ! i)"
  by (simp add: nth_opt_def)

lemma nth_opt_Cons [simp]: "nth_opt (x # xs) 0 = Some x" "nth_opt (x # xs) (Suc i) = nth_opt xs i"
  by (simp_all add: nth_opt_def)

lemma nth_opt_Some_iff: "nth_opt xs i = Some x \<longleftrightarrow> i < length xs \<and> x = xs ! i"
  by (auto simp: nth_opt_def)

lemma bind_Some_iff: "Option.bind m f = Some y \<longleftrightarrow> (\<exists>x. m = Some x \<and> f x = Some y)"
  by (cases m) auto

text \<open>Running a state transformer over a list, stopping at the first panic.\<close>

fun fold_opt :: "('a \<Rightarrow> 's \<Rightarrow> 's option) \<Rightarrow> 'a list \<Rightarrow> 's \<Rightarrow> 's option" where
  "fold_opt f [] s = Some s"
| "fold_opt f (x # xs) s = Option.bind (f x s) (fold_opt f xs)"

lemma fold_opt_append:
  "fold_opt f (xs @ ys) s = Option.bind (fold_opt f xs s) (fold_opt f ys)"
proof (induction xs arbitrary: s)
  case Nil
  then show ?case by simp
next
  case (Cons x xs)
  then show ?case by (cases "f x s") auto
qed

lemma fold_opt_snoc: "fold_opt f (xs @ [x]) s = Option.bind (fold_opt f xs s) (f x)"
  by (cases "fold_opt f xs s"; cases "f x (the (fold_opt f xs s))") (simp_all add: fold_opt_append)

lemma fold_opt_invariant:
  assumes "\<And>x s s'. x \<in> set xs \<Longrightarrow> P s \<Longrightarrow> f x s = Some s' \<Longrightarrow> P s'"
    and "fold_opt f xs s = Some s'" and "P s"
  shows "P s'"
  using assms
proof (induction xs arbitrary: s)
  case Nil
  then show ?case by simp
next
  case (Cons x xs)
  from Cons.prems(2) obtain s1 where s1: "f x s = Some s1" "fold_opt f xs s1 = Some s'"
    by (auto simp: bind_Some_iff)
  have "P s1" using Cons.prems(1)[of x s s1] Cons.prems(3) s1(1) by simp
  then show ?case
    by (intro Cons.IH[OF _ s1(2)]) (auto intro: Cons.prems(1))
qed

lemma fold_opt_total:
  assumes "\<And>x s. x \<in> set xs \<Longrightarrow> P s \<Longrightarrow> \<exists>s'. f x s = Some s' \<and> P s'" and "P s"
  shows "\<exists>s'. fold_opt f xs s = Some s' \<and> P s'"
  using assms
proof (induction xs arbitrary: s)
  case Nil
  then show ?case by simp
next
  case (Cons x xs)
  obtain s1 where s1: "f x s = Some s1" "P s1" using Cons.prems by auto
  then obtain s2 where "fold_opt f xs s1 = Some s2 \<and> P s2"
    using Cons.IH[of s1] Cons.prems(1) by auto
  then show ?case using s1 by auto
qed

subsection \<open>Floating point\<close>

text \<open>
  The source computes costs and ratios in \<open>f32\<close> and \<open>f64\<close>. No theorem here depends on
  how these round, so a definition that uses them takes the operations as an argument:
  its result is the one the code gets with IEEE arithmetic put in.
\<close>

record 'f float_ops =
  f_of_nat :: "nat \<Rightarrow> 'f"
  f_add :: "'f \<Rightarrow> 'f \<Rightarrow> 'f"
  f_sub :: "'f \<Rightarrow> 'f \<Rightarrow> 'f"
  f_mul :: "'f \<Rightarrow> 'f \<Rightarrow> 'f"
  f_div :: "'f \<Rightarrow> 'f \<Rightarrow> 'f"
  f_max :: "'f \<Rightarrow> 'f \<Rightarrow> 'f"
  f_min :: "'f \<Rightarrow> 'f \<Rightarrow> 'f"
  f_lt :: "'f \<Rightarrow> 'f \<Rightarrow> bool"

subsection \<open>Lists\<close>

lemma sum_list_mono_pointwise:
  "(\<And>x. x \<in> set xs \<Longrightarrow> f x \<le> (g x :: nat)) \<Longrightarrow> sum_list (map f xs) \<le> sum_list (map g xs)"
  by (rule sum_list_mono)

lemma sum_list_update_nat:
  fixes f :: "'a \<Rightarrow> nat"
  shows "i < length xs \<Longrightarrow>
    sum_list (map f (xs[i := y])) + f (xs ! i) = sum_list (map f xs) + f y"
proof (induction xs arbitrary: i)
  case Nil
  then show ?case by simp
next
  case (Cons x xs)
  show ?case
  proof (cases i)
    case 0
    then show ?thesis by simp
  next
    case (Suc j)
    with Cons.prems have "j < length xs" by simp
    from Cons.IH[OF this] Suc show ?thesis by simp
  qed
qed

lemma sum_list_remove_nth:
  fixes f :: "'a \<Rightarrow> nat"
  assumes "i < length xs"
  shows "sum_list (map f (take i xs @ drop (Suc i) xs)) + f (xs ! i) = sum_list (map f xs)"
proof -
  have "xs = take i xs @ xs ! i # drop (Suc i) xs" using assms by (rule id_take_nth_drop)
  then have "sum_list (map f xs) = sum_list (map f (take i xs @ xs ! i # drop (Suc i) xs))"
    by (rule arg_cong)
  then show ?thesis by simp
qed

subsection \<open>Sums over a hash map\<close>

definition alist_sum :: "('k \<Rightarrow> 'v \<Rightarrow> nat) \<Rightarrow> ('k \<times> 'v) list \<Rightarrow> nat" where
  "alist_sum f al = sum_list (map (\<lambda>(k, v). f k v) al)"

lemma alist_sum_Nil [simp]: "alist_sum f [] = 0"
  and alist_sum_Cons [simp]: "alist_sum f ((k, v) # al) = f k v + alist_sum f al"
  by (simp_all add: alist_sum_def)

lemma alist_sum_update_new:
  "map_of al k = None \<Longrightarrow> alist_sum f (AList.update k v al) = alist_sum f al + f k v"
  by (induction al) (auto split: if_splits)

lemma alist_sum_update_old:
  "map_of al k = Some u \<Longrightarrow> distinct (map fst al) \<Longrightarrow>
    alist_sum f (AList.update k v al) + f k u = alist_sum f al + f k v"
  by (induction al) (auto split: if_splits)

lemma update_absent: "map_of al k = None \<Longrightarrow> AList.update k v al = al @ [(k, v)]"
  by (induction al) (auto split: if_splits)

lemma alist_delete_absent: "map_of al k = None \<Longrightarrow> AList.delete k al = al"
  by (induction al) (auto simp: AList.delete_eq split: if_splits)

lemma alist_sum_delete:
  "map_of al k = Some u \<Longrightarrow> distinct (map fst al) \<Longrightarrow>
    alist_sum f (AList.delete k al) + f k u = alist_sum f al"
proof (induction al)
  case Nil
  then show ?case by simp
next
  case (Cons p al)
  obtain a b where p: "p = (a, b)" by (cases p)
  show ?case
  proof (cases "a = k")
    case True
    with Cons.prems p have "map_of al k = None" by (auto simp: map_of_eq_None_iff)
    then have "AList.delete k al = al" by (rule alist_delete_absent)
    with True Cons.prems p show ?thesis by (simp add: AList.delete_eq)
  next
    case False
    with Cons p show ?thesis by (simp add: AList.delete_eq)
  qed
qed

lemma alist_sum_mem:
  "map_of al k = Some u \<Longrightarrow> f k u \<le> alist_sum f al"
  by (induction al) (auto split: if_splits simp: trans_le_add2)

lemma distinct_fst_update [simp]:
  "distinct (map fst al) \<Longrightarrow> distinct (map fst (AList.update k v al))"
  by (rule AList.distinct_update)

lemma distinct_fst_delete [simp]:
  "distinct (map fst al) \<Longrightarrow> distinct (map fst (AList.delete k al))"
  by (rule AList.distinct_delete)

lemma map_of_update [simp]: "map_of (AList.update k v al) = (map_of al)(k \<mapsto> v)"
  by (rule AList.update_conv')

lemma map_of_delete [simp]: "map_of (AList.delete k al) = (map_of al)(k := None)"
  by (rule AList.delete_conv')

lemma length_delete_less:
  "map_of al k = Some u \<Longrightarrow> length (AList.delete k al) < length al"
proof -
  assume "map_of al k = Some u"
  then have "(k, u) \<in> set al" by (rule map_of_SomeD)
  then show ?thesis
    by (auto simp: AList.delete_eq intro!: length_filter_less)
qed

end
