(* ===== verification/Kv_Layout.thy ===== *)
theory Kv_Layout
  imports Sim_Prelude
begin

section \<open>The KV cache layout of one request (\<open>arch/kv_layout.rs\<close>)\<close>

text \<open>
  What one request keeps in the KV cache, part by part: the data types, the builders
  the model architectures use, the placement of a part on the ranks of a KV partition,
  and the checks that make a layout accountable. \<open>Kv_Accounting\<close> turns a layout into
  charges. \<open>u16::try_from\<close> and \<open>u32::try_from(..).expect(..)\<close> are \<open>None\<close> out of range;
  an \<open>anyhow\<close> error is the left side of a sum.
\<close>

subsection \<open>Data\<close>

datatype KvGrowth = PerToken nat | SlidingWindow nat | PerRequest

record PartOverhead =
  padded_bytes_per_entry :: "nat option"
  copies :: "nat option"

record RankPlacement =
  shards :: nat
  replicas :: nat

record KvCachePart =
  part_name :: string
  growth :: KvGrowth
  bytes_per_entry :: nat
  prefix_reusable :: bool
  part_overhead :: PartOverhead
  placement :: RankPlacement

record EngineOverhead =
  engine_block_tokens :: "nat option"
  fixed_device_bytes :: nat

record KvCacheLayout =
  parts :: "KvCachePart list"
  engine :: EngineOverhead

datatype LayoutError =
    NoParts | ZeroBytes string | PadsDown string | ZeroCopies string
  | ZeroTokensPerEntry string | ZeroWindow string | ZeroEngineBlock
  | WrongRanks string nat nat nat

definition no_part_overhead :: PartOverhead where
  "no_part_overhead = \<lparr>padded_bytes_per_entry = None, copies = None\<rparr>"

definition no_engine_overhead :: EngineOverhead where
  "no_engine_overhead = \<lparr>engine_block_tokens = None, fixed_device_bytes = 0\<rparr>"

definition default_placement :: RankPlacement where
  "default_placement = \<lparr>shards = 1, replicas = 1\<rparr>"

definition ranks :: "RankPlacement \<Rightarrow> nat" where
  "ranks pl = shards pl * replicas pl"

subsection \<open>Building a layout\<close>

definition new_layout :: KvCacheLayout where
  "new_layout = \<lparr>parts = [], engine = no_engine_overhead\<rparr>"

definition with_part :: "KvCacheLayout \<Rightarrow> KvCachePart \<Rightarrow> KvCacheLayout" where
  "with_part l p = l\<lparr>parts := parts l @ [p]\<rparr>"

definition with_engine :: "KvCacheLayout \<Rightarrow> EngineOverhead \<Rightarrow> KvCacheLayout" where
  "with_engine l e = l\<lparr>engine := e\<rparr>"

definition part_of :: "string \<Rightarrow> KvGrowth \<Rightarrow> nat \<Rightarrow> KvCachePart" where
  "part_of n g b = \<lparr>part_name = n, growth = g, bytes_per_entry = b, prefix_reusable = True,
     part_overhead = no_part_overhead, placement = default_placement\<rparr>"

definition compressed :: "string \<Rightarrow> nat \<Rightarrow> nat \<Rightarrow> KvCachePart" where
  "compressed n tokens_per_entry bytes = part_of n (PerToken tokens_per_entry) bytes"

definition per_token_part :: "string \<Rightarrow> nat \<Rightarrow> KvCachePart" where
  "per_token_part n bytes_per_token = compressed n 1 bytes_per_token"

definition sliding_window :: "string \<Rightarrow> nat \<Rightarrow> nat \<Rightarrow> KvCachePart" where
  "sliding_window n window_tokens bytes_per_token =
     part_of n (SlidingWindow window_tokens) bytes_per_token"

definition per_request :: "string \<Rightarrow> nat \<Rightarrow> KvCachePart" where
  "per_request n bytes_per_request = part_of n PerRequest bytes_per_request"

definition padded_to :: "KvCachePart \<Rightarrow> nat \<Rightarrow> KvCachePart" where
  "padded_to p padded =
     p\<lparr>part_overhead := (part_overhead p)\<lparr>padded_bytes_per_entry := Some padded\<rparr>\<rparr>"

definition with_copies :: "KvCachePart \<Rightarrow> nat \<Rightarrow> KvCachePart" where
  "with_copies p n = p\<lparr>part_overhead := (part_overhead p)\<lparr>copies := Some n\<rparr>\<rparr>"

definition not_prefix_reusable :: "KvCachePart \<Rightarrow> KvCachePart" where
  "not_prefix_reusable p = p\<lparr>prefix_reusable := False\<rparr>"

definition part_sharded :: "KvCachePart \<Rightarrow> nat \<Rightarrow> KvCachePart" where
  "part_sharded p n = p\<lparr>placement := (placement p)\<lparr>shards := shards (placement p) * n\<rparr>\<rparr>"

definition replicated :: "KvCachePart \<Rightarrow> nat \<Rightarrow> KvCachePart" where
  "replicated p n =
     p\<lparr>placement := (placement p)\<lparr>replicas := replicas (placement p) * n\<rparr>,
       bytes_per_entry := bytes_per_entry p * n,
       part_overhead := (part_overhead p)\<lparr>padded_bytes_per_entry :=
         map_option (\<lambda>b. b * n) (padded_bytes_per_entry (part_overhead p))\<rparr>\<rparr>"

definition placed :: "KvCachePart \<Rightarrow> RankPlacement \<Rightarrow> KvCachePart" where
  "placed p pl = replicated (part_sharded p (shards pl)) (replicas pl)"

definition layout_sharded :: "KvCacheLayout \<Rightarrow> nat \<Rightarrow> KvCacheLayout" where
  "layout_sharded l n = l\<lparr>parts := map (\<lambda>p. part_sharded p n) (parts l)\<rparr>"

subsection \<open>Sizes\<close>

definition per_token_bytes :: "KvCacheLayout \<Rightarrow> nat" where
  "per_token_bytes l = sum_list (List.map_filter (\<lambda>p. case growth p of
     PerToken tokens_per_entry \<Rightarrow> Some (bytes_per_entry p div max tokens_per_entry 1)
   | _ \<Rightarrow> None) (parts l))"

definition one_copy_bytes_per_entry :: "KvCachePart \<Rightarrow> nat" where
  "one_copy_bytes_per_entry p = bytes_per_entry p div max (replicas (placement p)) 1"

definition one_copy_bytes_at :: "KvCachePart \<Rightarrow> nat \<Rightarrow> nat" where
  "one_copy_bytes_at p context_tokens =
     (let entries = (case growth p of
        PerToken tokens_per_entry \<Rightarrow> div_ceil context_tokens (max tokens_per_entry 1)
      | SlidingWindow window_tokens \<Rightarrow> min context_tokens window_tokens
      | PerRequest \<Rightarrow> 1)
      in entries * one_copy_bytes_per_entry p)"

definition gqa_kv_bytes_per_token :: "nat \<Rightarrow> nat \<Rightarrow> nat \<Rightarrow> nat \<Rightarrow> nat \<Rightarrow> nat" where
  "gqa_kv_bytes_per_token layers num_kv_heads k_head_dim v_head_dim dtype_bytes =
     layers * num_kv_heads * (k_head_dim + v_head_dim) * dtype_bytes"

definition gqa_placement :: "nat \<Rightarrow> nat \<Rightarrow> RankPlacement option" where
  "gqa_placement num_kv_heads attn_tp =
     (let tp = max attn_tp 1; sh = min (max num_kv_heads 1) tp
      in do { s \<leftarrow> try_u32 sh; r \<leftarrow> try_u32 (tp div sh);
              Some \<lparr>shards = s, replicas = r\<rparr> })"

definition hybrid_attention_block_tokens :: "nat \<Rightarrow> nat \<Rightarrow> nat \<Rightarrow> nat option" where
  "hybrid_attention_block_tokens kernel_block_tokens state_page_bytes attn_page_bytes_per_token =
     (let aligned_page = kernel_block_tokens * max attn_page_bytes_per_token 1;
          blocks = max (div_ceil state_page_bytes aligned_page) 1
      in try_u32 (kernel_block_tokens * blocks))"

definition hybrid_attention_state_layout ::
  "nat \<Rightarrow> nat \<Rightarrow> nat \<Rightarrow> nat \<Rightarrow> nat \<Rightarrow> KvCacheLayout option" where
  "hybrid_attention_state_layout kernel_block_tokens attn_page_bytes_per_token attn_layers
      state_page_bytes state_layers =
     (let kv_bytes_per_token = attn_page_bytes_per_token * attn_layers;
          layout = (if 0 < kv_bytes_per_token
            then with_part new_layout (per_token_part ''gqa'' kv_bytes_per_token) else new_layout)
      in if state_layers = 0 then Some layout
         else do {
           block_tokens \<leftarrow> hybrid_attention_block_tokens kernel_block_tokens state_page_bytes
             attn_page_bytes_per_token;
           let padded_state_page = block_tokens * attn_page_bytes_per_token;
           Some (with_engine
             (with_part layout
               (padded_to (per_request ''gdn'' (state_page_bytes * state_layers))
                 (padded_state_page * state_layers)))
             \<lparr>engine_block_tokens = Some block_tokens,
              fixed_device_bytes = block_tokens * kv_bytes_per_token\<rparr>)
         })"

subsection \<open>Checks\<close>

fun check_parts_placement :: "nat \<Rightarrow> KvCachePart list \<Rightarrow> LayoutError + unit" where
  "check_parts_placement n [] = Inr ()"
| "check_parts_placement n (p # ps) =
     (if ranks (placement p) = n then check_parts_placement n ps
      else Inl (WrongRanks (part_name p) (shards (placement p)) (replicas (placement p)) n))"

definition check_placement :: "KvCacheLayout \<Rightarrow> nat \<Rightarrow> LayoutError + unit" where
  "check_placement l attention_shards = check_parts_placement (max attention_shards 1) (parts l)"

definition validate_part :: "KvCachePart \<Rightarrow> LayoutError + unit" where
  "validate_part p =
     (if \<not> bytes_per_entry p > 0 then Inl (ZeroBytes (part_name p))
      else if (case padded_bytes_per_entry (part_overhead p) of
                 Some padded \<Rightarrow> \<not> padded \<ge> bytes_per_entry p | None \<Rightarrow> False)
        then Inl (PadsDown (part_name p))
      else if copies (part_overhead p) = Some 0 then Inl (ZeroCopies (part_name p))
      else (case growth p of
        PerToken tokens_per_entry \<Rightarrow>
          (if tokens_per_entry > 0 then Inr () else Inl (ZeroTokensPerEntry (part_name p)))
      | SlidingWindow window_tokens \<Rightarrow>
          (if window_tokens > 0 then Inr () else Inl (ZeroWindow (part_name p)))
      | PerRequest \<Rightarrow> Inr ()))"

fun validate_parts :: "KvCachePart list \<Rightarrow> LayoutError + unit" where
  "validate_parts [] = Inr ()"
| "validate_parts (p # ps) =
     (case validate_part p of Inl e \<Rightarrow> Inl e | Inr _ \<Rightarrow> validate_parts ps)"

definition validate :: "KvCacheLayout \<Rightarrow> LayoutError + unit" where
  "validate l =
     (if parts l = [] then Inl NoParts
      else (case validate_parts (parts l) of
        Inl e \<Rightarrow> Inl e
      | Inr _ \<Rightarrow> (if engine_block_tokens (engine l) = Some 0 then Inl ZeroEngineBlock
                  else Inr ())))"

lemmas layout_defs = new_layout_def with_part_def with_engine_def part_of_def compressed_def
  per_token_part_def sliding_window_def per_request_def padded_to_def with_copies_def
  not_prefix_reusable_def part_sharded_def replicated_def placed_def no_part_overhead_def
  no_engine_overhead_def default_placement_def ranks_def

subsection \<open>What the checks accept\<close>

definition part_ok :: "KvCachePart \<Rightarrow> bool" where
  "part_ok p \<longleftrightarrow> 0 < bytes_per_entry p
     \<and> (case padded_bytes_per_entry (part_overhead p) of None \<Rightarrow> True
        | Some b \<Rightarrow> bytes_per_entry p \<le> b)
     \<and> copies (part_overhead p) \<noteq> Some 0
     \<and> (case growth p of PerToken t \<Rightarrow> 0 < t | SlidingWindow w \<Rightarrow> 0 < w | PerRequest \<Rightarrow> True)"

lemma validate_part_iff: "validate_part p = Inr () \<longleftrightarrow> part_ok p"
  by (auto simp: validate_part_def part_ok_def not_le split: KvGrowth.splits option.splits)

lemma validate_parts_iff: "validate_parts ps = Inr () \<longleftrightarrow> list_all part_ok ps"
proof (induction ps)
  case Nil
  then show ?case by simp
next
  case (Cons p ps)
  have "validate_part p = Inr () \<or> (\<exists>e. validate_part p = Inl e)"
    by (cases "validate_part p") auto
  with Cons show ?case by (auto simp: validate_part_iff [symmetric])
qed

lemma validate_Inr:
  "validate l = Inr () \<longleftrightarrow>
     parts l \<noteq> [] \<and> list_all part_ok (parts l) \<and> engine_block_tokens (engine l) \<noteq> Some 0"
proof (cases "validate_parts (parts l)")
  case (Inl e)
  then show ?thesis using validate_parts_iff [of "parts l"] by (simp add: validate_def)
next
  case (Inr u)
  then show ?thesis using validate_parts_iff [of "parts l"] by (simp add: validate_def)
qed

subsection \<open>Placement\<close>

lemma ranks_placed: "ranks (placement (placed p pl)) = ranks (placement p) * ranks pl"
  by (simp add: layout_defs)

text \<open>Replication scales the stored bytes and the replica count together, so the bytes of
  one copy, against which a report measures amplification, do not move.\<close>

lemma one_copy_bytes_placed:
  assumes "0 < replicas (placement p)" and "0 < replicas pl"
  shows "one_copy_bytes_per_entry (placed p pl) = one_copy_bytes_per_entry p"
proof -
  have m: "max n (Suc 0) = n" if "0 < n" for n :: nat using that by simp
  show ?thesis using assms
    by (simp add: one_copy_bytes_per_entry_def layout_defs m del: One_nat_def)
      (simp add: m)
qed

lemma part_ok_placed: "part_ok p \<Longrightarrow> 0 < replicas pl \<Longrightarrow> part_ok (placed p pl)"
  by (auto simp: part_ok_def layout_defs split: option.splits KvGrowth.splits)

lemma gqa_placement_SomeD:
  assumes "gqa_placement h tp = Some pl"
  shows "shards pl = min (max h 1) (max tp 1)" and "replicas pl = max tp 1 div shards pl"
    and "0 < shards pl" and "0 < replicas pl"
proof -
  define sh where "sh = min (max h 1) (max tp 1)"
  have pos: "0 < sh" "sh \<le> max tp 1" by (simp_all add: sh_def less_max_iff_disj)
  have pl: "pl = \<lparr>shards = sh, replicas = max tp 1 div sh\<rparr>"
    using assms unfolding gqa_placement_def Let_def sh_def [symmetric] bind_Some_iff try_u32_def
    by (simp split: if_splits)
  then show "shards pl = min (max h 1) (max tp 1)" "replicas pl = max tp 1 div shards pl"
    by (simp_all add: sh_def)
  show "0 < shards pl" "0 < replicas pl"
    using pl pos by (simp_all add: div_greater_zero_iff)
qed

lemma gqa_placement_ranks:
  assumes "gqa_placement h tp = Some pl" and "max h 1 dvd max tp 1 \<or> max tp 1 \<le> max h 1"
  shows "ranks pl = max tp 1"
proof -
  have "shards pl dvd max tp 1"
  proof (cases "max tp 1 \<le> max h 1")
    case True
    then show ?thesis using gqa_placement_SomeD(1) [OF assms(1)] by (simp add: min_absorb2)
  next
    case False
    then have "min (max h 1) (max tp 1) = max h 1" by linarith
    with False show ?thesis using assms(2) gqa_placement_SomeD(1) [OF assms(1)] by metis
  qed
  then show ?thesis
    using gqa_placement_SomeD(2) [OF assms(1)] by (simp add: ranks_def)
qed

lemma check_parts_placement_iff:
  "check_parts_placement n ps = Inr () \<longleftrightarrow> list_all (\<lambda>p. ranks (placement p) = n) ps"
  by (induction ps) auto

text \<open>a GQA part built from one copy of its bytes and placed with \<open>gqa_placement\<close> on an
  attention TP group whose size is a multiple of the KV head count, or no larger than it, sits on
  exactly the group's ranks, so \<open>check_placement\<close> accepts the layout, and the bytes of one copy
  are what the builder was given.\<close>

theorem gqa_part_placement:
  assumes "gqa_placement num_kv_heads attn_tp = Some pl"
    and "max num_kv_heads 1 dvd max attn_tp 1 \<or> max attn_tp 1 \<le> max num_kv_heads 1"
  shows "check_placement (with_part new_layout (placed (per_token_part n b) pl)) attn_tp = Inr ()
    \<and> one_copy_bytes_per_entry (placed (per_token_part n b) pl) = b"
proof
  have r: "ranks pl = max attn_tp 1" using assms by (rule gqa_placement_ranks)
  have "ranks (placement (placed (per_token_part n b) pl)) = ranks pl"
    by (simp add: ranks_placed) (simp add: layout_defs)
  with r show "check_placement (with_part new_layout (placed (per_token_part n b) pl)) attn_tp = Inr ()"
    by (simp add: check_placement_def check_parts_placement_iff with_part_def new_layout_def)
  have "one_copy_bytes_per_entry (placed (per_token_part n b) pl)
      = one_copy_bytes_per_entry (per_token_part n b)"
    using gqa_placement_SomeD(4) [OF assms(1)]
    by (intro one_copy_bytes_placed) (simp_all add: layout_defs)
  then show "one_copy_bytes_per_entry (placed (per_token_part n b) pl) = b"
    by (simp add: one_copy_bytes_per_entry_def layout_defs)
qed

theorem gqa_part_placement_witness:
  "check_placement (with_part new_layout (placed (per_token_part ''kv'' 4096)
      \<lparr>shards = 4, replicas = 2\<rparr>)) 8 = Inr ()"
proof -
  have "gqa_placement 4 8 = Some \<lparr>shards = 4, replicas = 2\<rparr>"
    by (simp add: gqa_placement_def try_u32_def u32_max_def)
  from gqa_part_placement [OF this] show ?thesis by simp
qed

subsection \<open>The hybrid allocator's block\<close>

lemma hybrid_attention_block_tokens_SomeD:
  assumes "hybrid_attention_block_tokens k s a = Some b" and "0 < k" and "0 < a"
  shows "k dvd b" and "0 < b" and "s \<le> b * a"
    and "\<And>b'. k dvd b' \<Longrightarrow> 0 < b' \<Longrightarrow> s \<le> b' * a \<Longrightarrow> b \<le> b'"
proof -
  let ?n = "max (div_ceil s (k * a)) 1"
  have b: "b = k * ?n"
    using assms by (auto simp: hybrid_attention_block_tokens_def Let_def try_u32_def max_absorb1
        Suc_leI split: if_splits)
  show "k dvd b" using b by simp
  show "0 < b" using b assms(2) by simp
  have "s \<le> div_ceil s (k * a) * (k * a)" using assms by (intro le_mult_div_ceil) simp
  also have "\<dots> \<le> ?n * (k * a)" by (intro mult_le_mono1) simp
  finally show "s \<le> b * a" using b by (simp add: ac_simps)
  fix b' assume "k dvd b'" "0 < b'" "s \<le> b' * a"
  then obtain m where m: "b' = k * m" by auto
  with \<open>0 < b'\<close> have "1 \<le> m" by (cases m) auto
  have "s \<le> m * (k * a)" using \<open>s \<le> b' * a\<close> m by (simp add: ac_simps)
  then have "div_ceil s (k * a) \<le> m" using assms by (intro div_ceil_least) simp_all
  with \<open>1 \<le> m\<close> have "?n \<le> m" by simp
  then show "b \<le> b'" using b m by (simp add: mult_le_mono2)
qed

text \<open>vLLM's hybrid attention block is the smallest positive multiple of the kernel block
  whose attention page holds one layer's recurrent-state page.\<close>

theorem hybrid_block_is_least:
  assumes "hybrid_attention_block_tokens k state_page attn_page = Some b" and "0 < k"
    and "0 < attn_page"
  shows "Least (\<lambda>b'. k dvd b' \<and> 0 < b' \<and> state_page \<le> b' * attn_page) = b"
  using hybrid_attention_block_tokens_SomeD [OF assms] by (intro Least_equality) auto

theorem hybrid_block_is_least_witness:
  "Least (\<lambda>b'. 16 dvd b' \<and> 0 < b' \<and> 2146304 \<le> b' * 2048) = (1056::nat)"
proof -
  have "hybrid_attention_block_tokens 16 2146304 2048 = Some 1056"
    by (simp add: hybrid_attention_block_tokens_def try_u32_def u32_max_def div_ceil_def)
  from hybrid_block_is_least [OF this] show ?thesis by simp
qed

text \<open>The hybrid layout the builder returns is one \<open>validate\<close> accepts: the padded state page
  is never smaller than the state.\<close>

lemma hybrid_layout_valid:
  assumes "hybrid_attention_state_layout k a al sp sl = Some l"
    and "0 < k" and "0 < a" and "0 < sp" and "0 < al \<or> 0 < sl"
  shows "validate l = Inr ()"
proof (cases "sl = 0")
  case True
  with assms show ?thesis
    by (auto simp: hybrid_attention_state_layout_def validate_Inr part_ok_def layout_defs)
next
  case False
  with assms(1) obtain b where b: "hybrid_attention_block_tokens k sp a = Some b"
    and l: "l = with_engine (with_part (if 0 < a * al
        then with_part new_layout (per_token_part ''gqa'' (a * al)) else new_layout)
        (padded_to (per_request ''gdn'' (sp * sl)) (b * a * sl)))
      \<lparr>engine_block_tokens = Some b, fixed_device_bytes = b * (a * al)\<rparr>"
    by (auto simp: hybrid_attention_state_layout_def Let_def bind_Some_iff)
  note facts = hybrid_attention_block_tokens_SomeD [OF b assms(2,3)]
  have "sp * sl \<le> b * a * sl" using facts(3) by simp
  with facts(2) False assms show ?thesis
    by (auto simp: l validate_Inr part_ok_def layout_defs)
qed

end
