(* ===== verification/Resume_Points.thy ===== *)
theory Resume_Points
  imports Sim_Prelude
begin

section \<open>Resume positions of a retained prefix (\<open>worker/kv/shared/kv_accounting.rs\<close>)\<close>

text \<open>
  \<open>ResumePositions\<close> stores the set of context lengths a later request can resume at in
  constant space: at most two explicit points and every multiple of a spacing, all at or
  below \<open>end\<close>. \<open>positions\<close> is the set it stands for. The lemmas show that each operation
  computes on the compact form what it means on the set: the floor, the number of
  positions, the cut, and the number of tokens covered by the windows before each
  position.

  The code divides by the spacing; \<open>wf_positions\<close> requires it positive, which
  \<open>KvAccounting::resolve\<close> ensures. The subtractions of the window count are checked, \<open>None\<close>
  standing for the panic; on well-formed positions there is none (\<open>window_tail_union_eq_card\<close>).
\<close>

record ResumePositions =
  rp_end :: nat
  rp_explicit :: "nat option \<times> nat option"
  rp_every :: "nat option"

definition flatten2 :: "nat option \<times> nat option \<Rightarrow> nat list" where
  "flatten2 e = List.map_filter id [fst e, snd e]"

definition rp_series :: "nat \<Rightarrow> nat \<Rightarrow> ResumePositions" where
  "rp_series spacing e = \<lparr>rp_end = e, rp_explicit = (None, None), rp_every = Some spacing\<rparr>"

definition rp_new :: "nat option \<times> nat option \<Rightarrow> nat option \<Rightarrow> nat \<Rightarrow> ResumePositions" where
  "rp_new explicit every context_tokens =
     (let points = remdups_adj (sort (filter (\<lambda>pt. 0 < pt \<and> pt \<le> context_tokens)
            (flatten2 explicit)));
          series_end = (case every of None \<Rightarrow> 0
            | Some spacing \<Rightarrow> context_tokens div spacing * spacing);
          e = max (if points = [] then 0 else last points) series_end
      in \<lparr>rp_end = e,
          rp_explicit = (if 0 < length points then Some (points ! 0) else None,
                         if 1 < length points then Some (points ! 1) else None),
          rp_every = every\<rparr>)"

definition rp_floor :: "ResumePositions \<Rightarrow> nat \<Rightarrow> nat" where
  "rp_floor p tokens =
     (let limit = min tokens (rp_end p);
          series = (case rp_every p of None \<Rightarrow> 0 | Some spacing \<Rightarrow> limit div spacing * spacing)
      in fold max (filter (\<lambda>pt. pt \<le> limit) (flatten2 (rp_explicit p))) series)"

definition rp_truncated :: "ResumePositions \<Rightarrow> nat \<Rightarrow> ResumePositions" where
  "rp_truncated p lst =
     (let keep = (\<lambda>pt. case pt of Some q \<Rightarrow> if q \<le> lst then Some q else None | None \<Rightarrow> None)
      in \<lparr>rp_end = min lst (rp_end p),
          rp_explicit = (keep (fst (rp_explicit p)), keep (snd (rp_explicit p))),
          rp_every = rp_every p\<rparr>)"

definition series_count :: "ResumePositions \<Rightarrow> nat" where
  "series_count p = (case rp_every p of None \<Rightarrow> 0 | Some spacing \<Rightarrow> rp_end p div spacing)"

definition on_series :: "ResumePositions \<Rightarrow> nat \<Rightarrow> bool" where
  "on_series p pt = (case rp_every p of None \<Rightarrow> False | Some spacing \<Rightarrow> pt mod spacing = 0)"

definition off_series :: "ResumePositions \<Rightarrow> nat list" where
  "off_series p = filter (\<lambda>pt. \<not> on_series p pt) (flatten2 (rp_explicit p))"

definition rp_count :: "ResumePositions \<Rightarrow> nat" where
  "rp_count p = series_count p + length (off_series p)"

definition gap_cover :: "nat \<Rightarrow> nat \<Rightarrow> nat \<Rightarrow> nat option" where
  "gap_cover tail from to = map_option (\<lambda>d. min d tail) (checked_sub to from)"

text \<open>The loop of the case without a series.\<close>

fun explicit_cover :: "nat \<Rightarrow> nat \<Rightarrow> nat \<Rightarrow> nat list \<Rightarrow> nat option" where
  "explicit_cover tail previous covered [] = Some covered"
| "explicit_cover tail previous covered (pt # pts) = do {
     g \<leftarrow> gap_cover tail previous pt;
     explicit_cover tail pt (covered + g) pts
   }"

text \<open>The inner loop over the explicit points of one series gap: it returns \<open>previous\<close>,
  \<open>split\<close> and the points left.\<close>

fun split_gap :: "nat \<Rightarrow> nat \<Rightarrow> nat \<Rightarrow> nat \<Rightarrow> nat list \<Rightarrow> (nat \<times> nat \<times> nat list) option" where
  "split_gap tail gap_end previous spl [] = Some (previous, spl, [])"
| "split_gap tail gap_end previous spl (pt # pts) =
     (if pt < gap_end
      then do { g \<leftarrow> gap_cover tail previous pt; split_gap tail gap_end pt (spl + g) pts }
      else Some (previous, spl, pt # pts))"

lemma split_gap_length: "split_gap tail ge prev s pts = Some (pr, sp, rest) \<Longrightarrow>
    length rest \<le> length pts"
  by (induction pts arbitrary: prev s) (force simp: bind_Some_iff split: if_splits)+

lemma split_gap_progress:
  assumes "0 < spacing"
    and "split_gap tail (pt div spacing * spacing + spacing) prev s (pt # pts) = Some (pr, sp, rest)"
  shows "length rest \<le> length pts"
proof -
  have "pt div spacing * spacing + pt mod spacing = pt" by simp
  moreover have "pt mod spacing < spacing" using assms(1) by simp
  ultimately have "pt < pt div spacing * spacing + spacing" by linarith
  with assms(2) show ?thesis by (auto simp: bind_Some_iff dest: split_gap_length)
qed

text \<open>The outer loop over the explicit points off the series. A zero spacing is a division by
  zero.\<close>

function series_cover :: "nat \<Rightarrow> nat \<Rightarrow> nat \<Rightarrow> nat \<Rightarrow> nat list \<Rightarrow> nat option" where
  "series_cover spacing tail e covered [] = Some covered"
| "series_cover spacing tail e covered (pt # pts) =
     (if spacing = 0 then None else do {
        let gap_start = pt div spacing * spacing;
        let gap_end = gap_start + spacing;
        let closes = gap_end \<le> e;
        (previous, spl, rest) \<leftarrow> split_gap tail gap_end gap_start 0 (pt # pts);
        last_gap \<leftarrow> (if closes then gap_cover tail previous gap_end else Some 0);
        covered' \<leftarrow> (if closes then checked_sub covered (min spacing tail) else Some covered);
        series_cover spacing tail e (covered' + (spl + last_gap)) rest
      })"
  by pat_completeness auto
termination
proof (relation "measure (\<lambda>(_, _, _, _, pts). length pts)", goal_cases)
  case 1
  then show ?case by simp
next
  case 2
  then show ?case
    by (auto simp del: split_gap.simps intro!: le_imp_less_Suc split_gap_progress)
qed

definition window_tail_union :: "ResumePositions \<Rightarrow> nat \<Rightarrow> nat option" where
  "window_tail_union p tail =
     (case rp_every p of
        None \<Rightarrow> explicit_cover tail 0 0 (off_series p)
      | Some spacing \<Rightarrow> if spacing = 0 then None
          else series_cover spacing tail (rp_end p) (series_count p * min spacing tail) (off_series p))"

lemmas rp_defs = rp_series_def rp_new_def rp_truncated_def series_count_def on_series_def
  off_series_def rp_count_def

subsection \<open>The set of positions\<close>

definition positions :: "ResumePositions \<Rightarrow> nat set" where
  "positions p = {t. 0 < t \<and> t \<le> rp_end p \<and>
     (t \<in> set (flatten2 (rp_explicit p)) \<or> (\<exists>s. rp_every p = Some s \<and> s dvd t))}"

definition wf_positions :: "ResumePositions \<Rightarrow> bool" where
  "wf_positions p \<longleftrightarrow> sorted_wrt (<) (flatten2 (rp_explicit p))
     \<and> (\<forall>t \<in> set (flatten2 (rp_explicit p)). 0 < t \<and> t \<le> rp_end p)
     \<and> rp_every p \<noteq> Some 0"

text \<open>The tokens the \<open>tail\<close>-token windows before each position cover.\<close>

definition covered_tokens :: "nat \<Rightarrow> nat set \<Rightarrow> nat set" where
  "covered_tokens tail P = {x. \<exists>q \<in> P. x < q \<and> q \<le> x + tail}"

lemma flatten2_simps [simp]:
  "flatten2 (None, None) = []" "flatten2 (Some a, None) = [a]"
  "flatten2 (None, Some b) = [b]" "flatten2 (Some a, Some b) = [a, b]"
  by (simp_all add: flatten2_def List.map_filter_def)

lemma positions_le_end: "t \<in> positions p \<Longrightarrow> 0 < t \<and> t \<le> rp_end p"
  by (simp add: positions_def)

lemma finite_positions [simp]: "finite (positions p)"
  by (rule finite_subset [of _ "{..rp_end p}"]) (auto simp: positions_def)

lemma remdups_adj_sorted_strict:
  "sorted (xs :: nat list) \<Longrightarrow> sorted_wrt (<) (remdups_adj xs)"
proof (induction xs rule: remdups_adj.induct)
  case (3 x y xs)
  have "\<forall>z \<in> set (remdups_adj (y # xs)). x \<le> z" using 3(3) by auto
  moreover have "x < z" if "x \<noteq> y" "z \<in> set (remdups_adj (y # xs))" for z
    using 3(3) that by (auto simp: order.strict_iff_order)
  ultimately show ?case using 3 by auto
qed simp_all

lemma flatten2_of_short_list:
  "length xs \<le> 2 \<Longrightarrow> flatten2 (if 0 < length xs then Some (xs ! 0) else None,
     if 1 < length xs then Some (xs ! 1) else None) = xs"
  by (cases xs rule: remdups_adj.cases) auto

lemma length_flatten2: "length (flatten2 e) \<le> 2"
  by (cases e; cases "fst e"; cases "snd e") auto

lemma rp_new_explicit:
  "flatten2 (rp_explicit (rp_new explicit every c)) =
     remdups_adj (sort (filter (\<lambda>pt. 0 < pt \<and> pt \<le> c) (flatten2 explicit)))"
proof -
  have "length (remdups_adj (sort (filter (\<lambda>pt. 0 < pt \<and> pt \<le> c) (flatten2 explicit)))) \<le> 2"
    by (rule order.trans [OF remdups_adj_length])
      (simp add: order.trans [OF length_filter_le length_flatten2])
  then show ?thesis unfolding rp_new_def Let_def
    by (simp only: ResumePositions.simps flatten2_of_short_list)
qed

lemma sorted_le_last: "sorted xs \<Longrightarrow> x \<in> set xs \<Longrightarrow> x \<le> last (xs :: nat list)"
  by (induction xs) auto

lemma positions_rp_new:
  assumes "every \<noteq> Some 0"
  shows "positions (rp_new explicit every c) = {t. 0 < t \<and> t \<le> c \<and>
     (t \<in> set (flatten2 explicit) \<or> (\<exists>s. every = Some s \<and> s dvd t))}"
    and "wf_positions (rp_new explicit every c)"
    and "rp_end (rp_new explicit every c) \<le> c"
proof -
  let ?pts = "remdups_adj (sort (filter (\<lambda>pt. 0 < pt \<and> pt \<le> c) (flatten2 explicit)))"
  let ?se = "case every of None \<Rightarrow> 0 | Some spacing \<Rightarrow> c div spacing * spacing"
  let ?n = "rp_new explicit every c"
  have e: "rp_end ?n = max (if ?pts = [] then 0 else last ?pts) ?se" "rp_every ?n = every"
    by (simp_all add: rp_new_def Let_def)
  have srt: "sorted ?pts" by (simp add: sorted_remdups_adj)
  have set: "set ?pts = {pt \<in> set (flatten2 explicit). 0 < pt \<and> pt \<le> c}" by auto
  have le: "t \<le> rp_end ?n" if "t \<in> set ?pts" for t
  proof -
    have "?pts \<noteq> []" using that by (metis empty_iff empty_set)
    then show ?thesis using sorted_le_last [OF srt that] by (simp add: e(1) le_max_iff_disj)
  qed
  have ser: "t \<le> rp_end ?n" if "every = Some s" "s dvd t" "t \<le> c" for s t
  proof -
    have "t \<le> c div s * s" using that by (metis div_le_mono dvd_div_mult_self mult_le_mono1)
    moreover have "c div s * s \<le> ?se" using that(1) by simp
    moreover have "?se \<le> rp_end ?n" by (simp only: e(1) max.cobounded2)
    ultimately show ?thesis by simp
  qed
  have "last ?pts \<le> c" if "?pts \<noteq> []"
    using last_in_set [OF that] unfolding set by simp
  moreover have "?se \<le> c" by (simp split: option.split)
  ultimately show c: "rp_end ?n \<le> c" by (simp add: e(1))
  show "wf_positions ?n"
    using le assms remdups_adj_sorted_strict [OF sorted_sort]
    unfolding wf_positions_def rp_new_explicit e(2) by (auto simp: set)
  show "positions ?n = {t. 0 < t \<and> t \<le> c \<and>
     (t \<in> set (flatten2 explicit) \<or> (\<exists>s. every = Some s \<and> s dvd t))}"
    unfolding positions_def rp_new_explicit e(2) set using le ser c
    by (auto simp: set)
qed

lemma wf_positions_series: "0 < s \<Longrightarrow> wf_positions (rp_series s e)"
  by (simp add: wf_positions_def rp_series_def)

lemma positions_series: "positions (rp_series s e) = {t. 0 < t \<and> t \<le> e \<and> s dvd t}"
  by (auto simp: positions_def rp_series_def)

lemma rp_truncated_explicit:
  "set (flatten2 (rp_explicit (rp_truncated p l))) = {t \<in> set (flatten2 (rp_explicit p)). t \<le> l}"
  by (cases "rp_explicit p"; cases "fst (rp_explicit p)"; cases "snd (rp_explicit p)")
    (auto simp: rp_truncated_def)

lemma rp_truncated_simps [simp]:
  "rp_end (rp_truncated p l) = min l (rp_end p)" "rp_every (rp_truncated p l) = rp_every p"
  by (simp_all add: rp_truncated_def Let_def)

lemma positions_truncated: "positions (rp_truncated p l) = {t \<in> positions p. t \<le> l}"
  by (auto simp: positions_def rp_truncated_explicit)

lemma wf_truncated: "wf_positions p \<Longrightarrow> wf_positions (rp_truncated p l)"
  by (cases "rp_explicit p"; cases "fst (rp_explicit p)"; cases "snd (rp_explicit p)")
    (auto simp: rp_truncated_def wf_positions_def)

lemma truncated_truncated:
  "rp_truncated (rp_truncated p a) b = rp_truncated p (min a b)"
  by (cases "rp_explicit p"; cases "fst (rp_explicit p)"; cases "snd (rp_explicit p)")
    (auto simp: rp_truncated_def)

subsection \<open>Floor and count\<close>

lemma fold_max_Max: "fold max xs (a :: nat) = Max (insert a (set xs))"
proof (induction xs arbitrary: a)
  case (Cons x xs)
  have "Max (insert (max x a) (set xs)) = Max (insert a (insert x (set xs)))"
    by (cases "xs = []") (simp_all add: max.assoc max.commute max.left_commute)
  with Cons show ?case by simp
qed simp

lemma rp_floor_Max:
  assumes "wf_positions p"
  shows "rp_floor p tokens = Max (insert 0 {q \<in> positions p. q \<le> tokens})"
proof -
  let ?limit = "min tokens (rp_end p)"
  let ?se = "case rp_every p of None \<Rightarrow> 0 | Some s \<Rightarrow> ?limit div s * s"
  let ?A = "insert ?se {q \<in> set (flatten2 (rp_explicit p)). q \<le> ?limit}"
  let ?B = "insert 0 {q \<in> positions p. q \<le> tokens}"
  have fl: "rp_floor p tokens = Max ?A"
    by (simp add: rp_floor_def Let_def fold_max_Max)
  have fin: "finite ?A" "finite ?B" by simp_all
  have in_B: "Max ?A \<in> ?B"
  proof -
    have "Max ?A \<in> ?A" using fin(1) by (intro Max_in) auto
    moreover have "?se \<in> ?B"
      by (cases "rp_every p") (auto simp: positions_def, (meson div_times_less_eq_dividend min.cobounded1 order_trans min.cobounded2)+)
    ultimately show ?thesis using assms by (auto simp: positions_def wf_positions_def)
  qed
  have BA: "Max ?B \<le> Max ?A"
  proof -
    have "q \<le> Max ?A" if "q \<in> positions p" "q \<le> tokens" for q
    proof (cases "q \<in> set (flatten2 (rp_explicit p))")
      case True
      with that show ?thesis using fin(1) positions_le_end [OF that(1)] by (intro Max_ge) auto
    next
      case False
      with that obtain s where s: "rp_every p = Some s" "s dvd q" by (auto simp: positions_def)
      have "q \<le> ?limit" using that positions_le_end [OF that(1)] by simp
      then have "q \<le> ?limit div s * s" using s(2)
        by (metis div_le_mono dvd_div_mult_self mult_le_mono1)
      also have "\<dots> \<le> Max ?A" using fin(1) s(1) by (intro Max_ge) auto
      finally show ?thesis .
    qed
    then show ?thesis using fin by (intro Max.boundedI) auto
  qed
  have AB: "Max ?A \<le> Max ?B" using fin(2) in_B by (rule Max_ge)
  from AB BA fl show ?thesis by linarith
qed

text \<open>\<open>ResumePositions::floor\<close> is the largest position at or below its argument, or 0 when
  there is none.\<close>

theorem floor_is_largest_position:
  assumes "wf_positions p"
  shows "rp_floor p tokens = Max (insert 0 {q \<in> positions p. q \<le> tokens})"
  using assms by (rule rp_floor_Max)

theorem floor_is_largest_position_witness:
  "rp_floor (rp_new (Some 50, Some 70) (Some 16) 75) 69
     = Max (insert 0 {q \<in> positions (rp_new (Some 50, Some 70) (Some 16) 75). q \<le> 69})"
proof -
  have "wf_positions (rp_new (Some 50, Some 70) (Some 16) 75)" by (rule positions_rp_new) simp
  then show ?thesis by (rule floor_is_largest_position)
qed

lemma off_series_iff:
  "t \<in> set (off_series p) \<longleftrightarrow> t \<in> set (flatten2 (rp_explicit p)) \<and>
     (\<forall>s. rp_every p = Some s \<longrightarrow> \<not> s dvd t)"
  by (auto simp: off_series_def on_series_def dvd_eq_mod_eq_0 split: option.splits)

lemma off_series_strict: "wf_positions p \<Longrightarrow> sorted_wrt (<) (off_series p)"
  by (simp add: off_series_def wf_positions_def sorted_wrt_filter)

definition series_positions :: "nat \<Rightarrow> nat \<Rightarrow> nat set" where
  "series_positions s e = {t. 0 < t \<and> t \<le> e \<and> s dvd t}"

lemma finite_series_positions [simp]: "finite (series_positions s e)"
  by (rule finite_subset [of _ "{..e}"]) (auto simp: series_positions_def)

lemma series_positions_image:
  assumes "0 < s"
  shows "series_positions s e = (\<lambda>k. k * s) ` {1..e div s}"
proof (intro set_eqI iffI)
  fix t assume "t \<in> series_positions s e"
  then obtain k where "t = k * s" "0 < t" "t \<le> e"
    by (auto simp: series_positions_def dvd_def mult.commute)
  then show "t \<in> (\<lambda>k. k * s) ` {1..e div s}"
    using assms by (auto simp: less_eq_div_iff_mult_less_eq Suc_le_eq)
next
  fix t assume "t \<in> (\<lambda>k. k * s) ` {1..e div s}"
  then show "t \<in> series_positions s e"
    using assms by (auto simp: series_positions_def less_eq_div_iff_mult_less_eq)
qed

lemma card_series_positions: "0 < s \<Longrightarrow> card (series_positions s e) = e div s"
  by (simp add: series_positions_image card_image inj_on_def)

lemma positions_split:
  assumes "wf_positions p"
  shows "positions p = (case rp_every p of None \<Rightarrow> {} | Some s \<Rightarrow> series_positions s (rp_end p))
     \<union> set (off_series p)"
  using assms by (auto simp: positions_def series_positions_def off_series_iff wf_positions_def
      split: option.splits)

lemma rp_count_card:
  assumes "wf_positions p"
  shows "rp_count p = card (positions p)"
proof -
  have d: "card (set (off_series p)) = length (off_series p)"
    using off_series_strict [OF assms] by (simp add: distinct_card strict_sorted_iff)
  show ?thesis
  proof (cases "rp_every p")
    case None
    with d show ?thesis
      by (simp add: positions_split [OF assms] rp_count_def series_count_def)
  next
    case (Some s)
    with assms have "0 < s" by (auto simp: wf_positions_def intro: gr0I)
    moreover have "series_positions s (rp_end p) \<inter> set (off_series p) = {}"
      using Some by (auto simp: series_positions_def off_series_iff)
    ultimately show ?thesis using Some d
      by (simp add: positions_split [OF assms] rp_count_def series_count_def card_Un_disjoint
          card_series_positions)
  qed
qed

text \<open>\<open>ResumePositions::count\<close> is the number of distinct positions, an explicit position on
  the series counted once.\<close>

theorem count_is_card:
  assumes "wf_positions p"
  shows "rp_count p = card (positions p)"
  using assms by (rule rp_count_card)

theorem count_is_card_witness:
  "rp_count (rp_new (Some 48, Some 70) (Some 16) 75)
     = card (positions (rp_new (Some 48, Some 70) (Some 16) 75))"
proof -
  have "wf_positions (rp_new (Some 48, Some 70) (Some 16) 75)" by (rule positions_rp_new) simp
  then show ?thesis by (rule count_is_card)
qed

subsection \<open>Tokens under the windows\<close>

lemma covered_tokens_Un: "covered_tokens tail (P \<union> Q) = covered_tokens tail P \<union> covered_tokens tail Q"
  by (auto simp: covered_tokens_def)

lemma covered_tokens_mono: "P \<subseteq> Q \<Longrightarrow> covered_tokens tail P \<subseteq> covered_tokens tail Q"
  by (auto simp: covered_tokens_def)

lemma finite_covered_tokens [simp]: "finite P \<Longrightarrow> finite (covered_tokens tail P)"
  by (rule finite_subset [of _ "\<Union>q \<in> P. {..<q}"]) (auto simp: covered_tokens_def)

text \<open>The sum the loops accumulate over increasing points, and its meaning: the tokens from
  \<open>a\<close> on that the points' windows cover.\<close>

fun gaps :: "nat \<Rightarrow> nat \<Rightarrow> nat list \<Rightarrow> nat" where
  "gaps tail a [] = 0"
| "gaps tail a (pt # pts) = min (pt - a) tail + gaps tail pt pts"

lemma card_window: "card {x. a \<le> x \<and> x < q \<and> q \<le> x + tail} = min (q - a) tail" for q :: nat
proof -
  have "{x. a \<le> x \<and> x < q \<and> q \<le> x + tail} = {max a (q - tail)..<q}" by auto
  then show ?thesis by simp
qed

lemma gap_cover_ok: "a \<le> q \<Longrightarrow> gap_cover tail a q = Some (min (q - a) tail)"
  by (simp add: gap_cover_def)

lemma gaps_eq_card:
  "sorted_wrt (<) pts \<Longrightarrow> \<forall>t \<in> set pts. a \<le> t \<Longrightarrow>
     gaps tail a pts = card {x \<in> covered_tokens tail (set pts). a \<le> x}"
proof (induction pts arbitrary: a)
  case Nil
  then show ?case by (simp add: covered_tokens_def)
next
  case (Cons q pts)
  let ?A = "{x. a \<le> x \<and> x < q \<and> q \<le> x + tail}"
  let ?B = "{x \<in> covered_tokens tail (set pts). q \<le> x}"
  have "{x \<in> covered_tokens tail (set (q # pts)). a \<le> x} = ?A \<union> ?B"
    using Cons.prems by (fastforce simp: covered_tokens_def)
  moreover have "finite ?A" by (rule finite_subset [of _ "{..<q}"]) auto
  moreover have "?A \<inter> ?B = {}" by auto
  moreover have "gaps tail q pts = card ?B" using Cons by (intro Cons.IH) auto
  ultimately show ?case by (simp add: card_Un_disjoint card_window)
qed

lemma explicit_cover_eq:
  "sorted_wrt (<) (a # pts) \<or> sorted_wrt (<) pts \<and> a = 0 \<Longrightarrow> explicit_cover tail a c pts = Some (c + gaps tail a pts)"
  by (induction pts arbitrary: a c) (auto simp: gap_cover_ok less_imp_le add.assoc)

lemma gaps_append_last:
  "gaps tail a (pts @ [q]) = gaps tail a pts + min (q - (if pts = [] then a else last pts)) tail"
  by (induction pts arbitrary: a) auto

lemma split_gap_eq:
  assumes "sorted_wrt (<) pts" and "\<forall>t \<in> set pts. a \<le> t"
  shows "split_gap tail ge a c pts =
     (let grp = filter (\<lambda>t. t < ge) pts
      in Some (if grp = [] then a else last grp, c + gaps tail a grp, filter (\<lambda>t. ge \<le> t) pts))"
  using assms
proof (induction pts arbitrary: a c)
  case Nil
  then show ?case by simp
next
  case (Cons t pts)
  show ?case
  proof (cases "t < ge")
    case True
    with Cons show ?thesis by (simp add: Let_def gap_cover_ok less_imp_le)
  next
    case False
    then have "filter (\<lambda>t. t < ge) pts = []" "filter (\<lambda>t. ge \<le> t) pts = pts"
      using Cons.prems by (auto simp: filter_empty_conv filter_id_conv)
    with False show ?thesis by simp
  qed
qed

text \<open>One gap of the series: \<open>t\<close> lies inside the gap \<open>gs\<close> to \<open>gs + s\<close>, \<open>grp\<close> are the points
  inside it and \<open>rest\<close> the points beyond it.\<close>

lemma series_next:
  assumes "s dvd q" and "k * s < q"
  shows "k * s + s \<le> (q :: nat)"
proof -
  from assms(1) obtain m where q: "q = m * s" by (auto simp: dvd_def mult.commute)
  with assms(2) have "Suc k \<le> m" by simp
  then have "Suc k * s \<le> m * s" by (rule mult_le_mono1)
  with q show ?thesis by simp
qed

lemma series_gap_cover:
  assumes "0 < s" and gs: "gs = k * s"
  shows "{x \<in> covered_tokens tail (series_positions s e). gs \<le> x \<and> x < gs + s} =
     (if gs + s \<le> e then {x. gs \<le> x \<and> x < gs + s \<and> gs + s \<le> x + tail} else {})"
proof -
  let ?S = "series_positions s e"
  have nxt: "gs + s \<le> q \<and> q \<le> e" if "q \<in> ?S" "gs \<le> x" "x < q" for q x
    using that gs by (auto simp: series_positions_def intro!: series_next)
  have ge: "gs + s \<in> ?S" if "gs + s \<le> e"
    using that assms by (simp add: series_positions_def)
  have "(\<exists>q \<in> ?S. x < q \<and> q \<le> x + tail) \<longleftrightarrow> gs + s \<le> e \<and> gs + s \<le> x + tail"
    if x: "gs \<le> x" "x < gs + s" for x
  proof
    assume "\<exists>q \<in> ?S. x < q \<and> q \<le> x + tail"
    then obtain q where "q \<in> ?S" "x < q" "q \<le> x + tail" by blast
    with nxt [of q x] x show "gs + s \<le> e \<and> gs + s \<le> x + tail" by linarith
  next
    assume "gs + s \<le> e \<and> gs + s \<le> x + tail"
    with ge x show "\<exists>q \<in> ?S. x < q \<and> q \<le> x + tail" by blast
  qed
  then show ?thesis unfolding covered_tokens_def by auto
qed

lemma group_cover:
  assumes "0 < s" and gs: "gs = k * s" and e: "\<forall>q \<in> grp. gs < q \<and> q < gs + s \<and> q \<le> e"
    and rest: "\<forall>q \<in> rest. gs + s \<le> q \<and> q \<le> e" and "grp \<noteq> {}"
  defines "S \<equiv> series_positions s e"
  shows "{x \<in> covered_tokens tail (S \<union> grp \<union> rest). gs \<le> x \<and> x < gs + s}
      = {x \<in> covered_tokens tail (if gs + s \<le> e then insert (gs + s) grp else grp). gs \<le> x}"
    and "{x \<in> covered_tokens tail (S \<union> grp \<union> rest). \<not> (gs \<le> x \<and> x < gs + s)}
      = {x \<in> covered_tokens tail (S \<union> rest). \<not> (gs \<le> x \<and> x < gs + s)}"
    and "{x \<in> covered_tokens tail (S \<union> rest). gs \<le> x \<and> x < gs + s}
      = {x \<in> covered_tokens tail S. gs \<le> x \<and> x < gs + s}"
proof -
  have nxt: "gs + s \<le> q" if "q \<in> S" "gs \<le> x" "x < q" for q x
    using that gs by (auto simp: S_def series_positions_def intro!: series_next)
  have in_e: "q \<le> e" if "q \<in> S" for q using that by (simp add: S_def series_positions_def)
  have geS: "gs + s \<in> S" if "gs + s \<le> e"
    using that assms(1) gs by (simp add: S_def series_positions_def)
  have in_rest: "gs + s \<le> q \<and> gs + s \<le> e" if "q \<in> rest" for q
    using bspec [OF rest that] by simp
  have cov: "x \<in> covered_tokens tail P \<longleftrightarrow> (\<exists>q \<in> P. x < q \<and> q \<le> x + tail)" for x P
    by (simp add: covered_tokens_def)
  show "{x \<in> covered_tokens tail (S \<union> rest). gs \<le> x \<and> x < gs + s}
      = {x \<in> covered_tokens tail S. gs \<le> x \<and> x < gs + s}"
  proof -
    have "x \<in> covered_tokens tail S" if "q \<in> rest" "x < gs + s" "q \<le> x + tail" for q x
      unfolding cov using in_rest [OF that(1)] that geS by (intro bexI [of _ "gs + s"]) auto
    then show ?thesis by (auto simp: covered_tokens_Un) (auto simp: cov)
  qed
  show "{x \<in> covered_tokens tail (S \<union> grp \<union> rest). gs \<le> x \<and> x < gs + s}
      = {x \<in> covered_tokens tail (if gs + s \<le> e then insert (gs + s) grp else grp). gs \<le> x}"
    (is "?L = ?R")
  proof (cases "gs + s \<le> e")
    case True
    have near: "\<exists>q' \<in> insert (gs + s) grp. x < q' \<and> q' \<le> x + tail"
      if "q \<in> S \<union> grp \<union> rest" "gs \<le> x" "x < gs + s" "x < q" "q \<le> x + tail" for q x
    proof (cases "q \<in> grp")
      case True
      with that show ?thesis by blast
    next
      case False
      with that have "gs + s \<le> q" using nxt [of q x] in_rest [of q] by blast
      with that show ?thesis by (intro bexI [of _ "gs + s"]) auto
    qed
    have far: "x < gs + s" if "q \<in> insert (gs + s) grp" "x < q" for q x
      using that e by auto
    show ?thesis
    proof (intro set_eqI iffI)
      fix x assume "x \<in> ?L"
      with near [of _ x] True show "x \<in> ?R" by (auto simp: cov)
    next
      fix x assume "x \<in> ?R"
      with True obtain q where q: "q \<in> insert (gs + s) grp" "x < q" "q \<le> x + tail" "gs \<le> x"
        by (auto simp: cov)
      with True geS have "q \<in> S \<union> grp \<union> rest" by auto
      with q far [OF q(1,2)] show "x \<in> ?L" unfolding mem_Collect_eq cov by blast
    qed
  next
    case False
    then have "rest = {}" using in_rest by blast
    moreover have "q \<in> grp" if "q \<in> S \<union> grp" "gs \<le> x" "x < q" for q x
      using that nxt [of q x] in_e [of q] False by auto
    moreover have "x < gs + s" if "q \<in> grp" "x < q" for q x
      using bspec [OF e that(1)] that(2) by simp
    ultimately show ?thesis using False by (auto simp: cov)
  qed
  have "\<exists>q' \<in> S. x < q' \<and> q' \<le> x + tail"
    if "q \<in> grp" "x < q" "q \<le> x + tail" "\<not> (gs \<le> x \<and> x < gs + s)" for q x
  proof -
    have "x < gs" using that e by force
    moreover have "gs \<le> e" using that e by force
    ultimately have "gs \<in> S" using gs by (auto simp: S_def series_positions_def intro: gr0I)
    moreover have "gs \<le> x + tail" using that e by force
    ultimately show ?thesis using \<open>x < gs\<close> by auto
  qed
  then show "{x \<in> covered_tokens tail (S \<union> grp \<union> rest). \<not> (gs \<le> x \<and> x < gs + s)}
      = {x \<in> covered_tokens tail (S \<union> rest). \<not> (gs \<le> x \<and> x < gs + s)}"
    unfolding covered_tokens_def by blast
qed

lemma card_split: "finite A \<Longrightarrow> card A = card {x \<in> A. P x} + card {x \<in> A. \<not> P x}"
  by (subst card_Un_disjoint [symmetric]) (auto intro: arg_cong [of _ _ card])


lemma series_cover_card:
  assumes "0 < s" and "sorted_wrt (<) pts" and "\<forall>t \<in> set pts. 0 < t \<and> t \<le> e \<and> \<not> s dvd t"
    and "card {x \<in> covered_tokens tail (series_positions s e). lo \<le> x} \<le> c"
    and "\<forall>t \<in> set pts. lo \<le> t div s * s"
  shows "\<exists>k. series_cover s tail e c pts = Some k
    \<and> k + card (covered_tokens tail (series_positions s e))
       = c + card (covered_tokens tail (series_positions s e \<union> set pts))"
  using assms(2-)
proof (induction "length pts" arbitrary: pts c lo rule: less_induct)
  case less
  show ?case
  proof (cases pts)
    case Nil
    then show ?thesis by simp
  next
    case (Cons t ts)
    define S where "S = series_positions s e"
    define U where "U = covered_tokens tail"
    define gs where "gs = t div s * s"
    define grp where "grp = filter (\<lambda>q. q < gs + s) pts"
    define rest where "rest = filter (\<lambda>q. gs + s \<le> q) pts"
    define own where "own = (if gs + s \<le> e then min s tail else 0)"
    define spl where "spl = gaps tail gs (if gs + s \<le> e then grp @ [gs + s] else grp)"
    have "t mod s \<noteq> 0" using less.prems(2) Cons by (simp add: dvd_eq_mod_eq_0)
    moreover have "gs + t mod s = t" by (simp add: gs_def)
    moreover have "t mod s < s" using assms(1) by simp
    ultimately have t: "gs < t" "t < gs + s" by linarith+
    have t_min: "t \<le> q" if "q \<in> set pts" for q using that less.prems(1) Cons by auto
    have pts_set: "set pts = set grp \<union> set rest" by (auto simp: grp_def rest_def)
    have grp_in: "\<forall>q \<in> set grp. gs < q \<and> q < gs + s \<and> q \<le> e"
      using t t_min less.prems(2) by (force simp: grp_def)
    have rest_in: "\<forall>q \<in> set rest. gs + s \<le> q \<and> q \<le> e"
      using less.prems(2) by (auto simp: rest_def)
    have grp_ne: "grp \<noteq> []" using t Cons by (auto simp: grp_def)
    have shorter: "length rest < length pts"
      unfolding rest_def using t Cons by (intro length_filter_less [of t]) auto
    \<comment> \<open>what it means\<close>
    have "set grp \<noteq> {}" using grp_ne by simp
    note local = group_cover [OF assms(1) gs_def grp_in rest_in this, where tail = tail,
        folded S_def U_def]
    have fin: "finite (U (S \<union> set xs))" for xs by (simp add: U_def S_def)
    have own: "card {x \<in> U S. gs \<le> x \<and> x < gs + s} = own"
      by (simp add: U_def S_def series_gap_cover [OF assms(1) gs_def] card_window own_def)
    have "sorted_wrt (<) grp" using less.prems(1) by (simp add: grp_def sorted_wrt_filter)
    then have "spl = card {x \<in> U (if gs + s \<le> e then insert (gs + s) (set grp) else set grp). gs \<le> x}"
      using grp_in by (auto simp: spl_def U_def gaps_eq_card sorted_wrt_append less_imp_le)
    then have new: "card (U (S \<union> set pts)) + own = card (U (S \<union> set rest)) + spl"
      using own
        card_split [OF fin [of pts], of "\<lambda>x. gs \<le> x \<and> x < gs + s"]
        card_split [OF fin [of rest], of "\<lambda>x. gs \<le> x \<and> x < gs + s"]
      unfolding pts_set Un_assoc [symmetric] local by linarith
    \<comment> \<open>the subtraction does not go below zero\<close>
    have lo: "lo \<le> gs" using less.prems(4) Cons by (simp add: gs_def)
    have fS: "finite {x \<in> U S. lo \<le> x}" using fin [of "[]"] by simp
    have "own + card {x \<in> U S. gs + s \<le> x} =
        card ({x \<in> U S. gs \<le> x \<and> x < gs + s} \<union> {x \<in> U S. gs + s \<le> x})"
      unfolding own [symmetric] using fin [of "[]"] by (intro card_Un_disjoint [symmetric]) auto
    also have "\<dots> \<le> card {x \<in> U S. lo \<le> x}" using lo fS by (intro card_mono) auto
    finally have le: "own + card {x \<in> U S. gs + s \<le> x} \<le> c"
      using less.prems(3) by (simp add: U_def S_def)
    then have own_le: "own \<le> c" by simp
    \<comment> \<open>what one round of the loop computes\<close>
    have "\<forall>q \<in> set pts. gs \<le> q" using t_min t(1) by fastforce
    then have "split_gap tail (gs + s) gs 0 pts = Some (last grp, gaps tail gs grp, rest)"
      using grp_ne by (simp add: split_gap_eq [OF less.prems(1)] grp_def rest_def Let_def del: split_gap.simps)
    moreover have "last grp \<le> gs + s" using grp_in grp_ne by (simp add: less_imp_le)
    moreover have "checked_sub c (min s tail) = Some (c - min s tail)" if "gs + s \<le> e"
      using own_le that by (intro checked_sub_ok) (simp only: own_def if_True)
    ultimately have "series_cover s tail e c pts = (if gs + s \<le> e
        then series_cover s tail e (c - min s tail + (gaps tail gs grp + min (gs + s - last grp) tail)) rest
        else series_cover s tail e (c + gaps tail gs grp) rest)"
      using assms(1) unfolding Cons series_cover.simps own_def gs_def [symmetric]
      by (simp add: gap_cover_ok Let_def del: split_gap.simps)
    then have round: "series_cover s tail e c pts = series_cover s tail e (c - own + spl) rest"
      using grp_ne by (simp add: own_def spl_def gaps_append_last)
    have "\<exists>k. series_cover s tail e (c - own + spl) rest = Some k \<and> k + card (U S)
        = c - own + spl + card (U (S \<union> set rest))"
      unfolding U_def S_def
    proof (rule less.hyps [OF shorter])
      show "sorted_wrt (<) rest" using less.prems(1) by (simp add: rest_def sorted_wrt_filter)
      show "\<forall>q \<in> set rest. 0 < q \<and> q \<le> e \<and> \<not> s dvd q" using less.prems(2) by (simp add: rest_def)
      show "card {x \<in> covered_tokens tail (series_positions s e). gs + s \<le> x} \<le> c - own + spl"
        using le by (simp add: U_def S_def)
      have "gs + s = (t div s + 1) * s" by (simp add: gs_def)
      then have "t div s + 1 \<le> q div s" if "q \<in> set rest" for q
        using bspec [OF rest_in that] assms(1)
        by (simp add: less_eq_div_iff_mult_less_eq gs_def add.commute)
      then show "\<forall>q \<in> set rest. gs + s \<le> q div s * s"
        using \<open>gs + s = (t div s + 1) * s\<close> by (metis mult_le_mono1)
    qed
    then obtain k where "series_cover s tail e (c - own + spl) rest = Some k"
      "k + card (U S) = c - own + spl + card (U (S \<union> set rest))" by blast
    then show ?thesis using round new le by (simp add: U_def S_def)
  qed
qed

lemma window_tail_union_card:
  assumes "wf_positions p"
  shows "window_tail_union p tail = Some (card (covered_tokens tail (positions p)))"
proof (cases "rp_every p")
  case None
  have "0 \<le> t" if "t \<in> set (off_series p)" for t by simp
  then show ?thesis using None
    by (simp add: window_tail_union_def explicit_cover_eq positions_split [OF assms]
        off_series_strict [OF assms] gaps_eq_card [OF off_series_strict [OF assms]])
next
  case (Some s)
  with assms have s: "0 < s" by (auto simp: wf_positions_def intro: gr0I)
  let ?S = "series_positions s (rp_end p)"
  have series: "card (covered_tokens tail ?S) = (rp_end p div s) * min s tail"
  proof -
    define ks where "ks = map (\<lambda>k. k * s) [1..<rp_end p div s + 1]"
    have "set ks = ?S"
      unfolding ks_def series_positions_image [OF s] Suc_eq_plus1 [symmetric] set_map set_upt
        atLeastLessThanSuc_atLeastAtMost ..
    moreover have "sorted_wrt (<) ks"
      using s by (simp add: ks_def sorted_wrt_map del: upt_Suc)
    moreover have "gaps tail (a * s) (map (\<lambda>k. k * s) [a + 1..<a + 1 + n]) = n * min s tail" for a n
    proof (induction n arbitrary: a)
      case 0
      then show ?case by simp
    next
      case (Suc n)
      have "[a + 1..<a + 1 + Suc n] = (a + 1) # [a + 1 + 1..<a + 1 + 1 + n]"
        by (simp add: upt_rec)
      with Suc [of "a + 1"] show ?case by simp
    qed
    from this [of 0 "rp_end p div s"] have "gaps tail 0 ks = rp_end p div s * min s tail"
      by (simp add: ks_def)
    ultimately show ?thesis using gaps_eq_card [of ks 0 tail] by simp
  qed
  have "series_cover s tail (rp_end p) (card (covered_tokens tail ?S)) (off_series p)
      = Some (card (covered_tokens tail (?S \<union> set (off_series p))))"
    using series_cover_card [OF s off_series_strict [OF assms], of "rp_end p" tail 0
        "card (covered_tokens tail ?S)"] assms Some
    by (auto simp: off_series_iff wf_positions_def)
  then show ?thesis using Some
    using s by (simp add: window_tail_union_def positions_split [OF assms] series series_count_def)
qed

text \<open>C38: On well-formed positions (strictly increasing explicit points between 1 and the end, a
  positive spacing, as \<open>ResumePositions::new\<close> builds them), \<open>ResumePositions::window_tail_union\<close>
  returns, none of its subtractions below zero, the number of distinct context tokens that the
  \<open>tail\<close>-token windows ending at the positions cover: its walk over the series gaps that explicit
  points split counts every overlap once.\<close>

theorem window_tail_union_eq_card:
  assumes "wf_positions p"
  shows "window_tail_union p tail = Some (card (covered_tokens tail (positions p)))"
  using assms by (rule window_tail_union_card)

theorem window_tail_union_eq_card_witness:
  "window_tail_union (rp_new (Some 45, Some 70) (Some 16) 75) 9
     = Some (card (covered_tokens 9 (positions (rp_new (Some 45, Some 70) (Some 16) 75))))"
proof -
  have "wf_positions (rp_new (Some 45, Some 70) (Some 16) 75)" by (rule positions_rp_new) simp
  then show ?thesis by (rule window_tail_union_eq_card)
qed

end
