(* ===== verification/Kv_Accounting.thy ===== *)
theory Kv_Accounting
  imports Kv_Layout Resume_Points
begin

section \<open>KV charges of one request (\<open>worker/kv/shared/kv_accounting.rs\<close>)\<close>

text \<open>
  \<open>resolve\<close> turns a layout and the worker's options into a \<open>KvAccounting\<close>, which answers in
  units of \<open>bytes_per_unit\<close> what a request holds while it runs, needs to be admitted, adds
  when it grows, and leaves behind as a retained prefix. The Rust subtractions
  \<open>growth_over\<close>, \<open>checkpoint_units\<close> and \<open>window - 1\<close> are the truncating \<open>-\<close> of \<open>nat\<close>:
  \<open>growth_over_exact\<close> and \<open>checkpoint_units_exact\<close> show that the first two never go below
  zero, and \<open>accounting_ok\<close> that a window is never empty. The source's \<open>KvOverhead::None\<close>
  is \<open>ModelOnly\<close> here.
\<close>

subsection \<open>Options and resolved charges\<close>

datatype KvOverhead = Vllm | ModelOnly

datatype PrefixResumePoints = PromptEnd | ResponseEnd | PromptAndResponseEnd | EveryBlock

record KvAccountingOptions =
  opt_overhead :: KvOverhead
  opt_resume_points :: "PrefixResumePoints option"
  opt_resume_interval :: "nat option"
  opt_max_in_flight_tokens :: "nat option"
  opt_prefix_caching :: bool

record PartInEstimate =
  tokens_held :: "nat option"
  pe_entries :: nat
  pe_units :: nat

record PerTokenCharge =
  units_per_entry :: nat
  tokens_per_entry :: nat

record WindowCharge =
  units_per_token :: nat
  window_tokens :: nat
  window_reusable :: bool

record KvAccounting =
  ka_layout :: KvCacheLayout
  ka_options :: KvAccountingOptions
  budget_bytes :: nat
  attention_shards :: nat
  reserved_units :: nat
  overhead :: KvOverhead
  bytes_per_unit :: nat
  capacity_units :: nat
  per_token :: "PerTokenCharge list"
  windows :: "WindowCharge list"
  state_units :: nat
  align_estimate_units :: nat
  reusable_state_units :: nat
  block_tokens :: nat
  checkpoint_block :: "nat option"
  max_in_flight_tokens :: "nat option"
  linear_units_per_token :: "nat option"
  resume_points :: PrefixResumePoints
  resume_interval :: "nat option"

datatype ResolveError = InvalidLayout LayoutError | BadResumeInterval nat nat

definition other_overhead :: "KvOverhead \<Rightarrow> KvOverhead" where
  "other_overhead m = (case m of Vllm \<Rightarrow> ModelOnly | ModelOnly \<Rightarrow> Vllm)"

definition charged_bytes_per_entry :: "KvCachePart \<Rightarrow> KvOverhead \<Rightarrow> nat" where
  "charged_bytes_per_entry p m = (case m of
     Vllm \<Rightarrow> (case padded_bytes_per_entry (part_overhead p) of
       Some b \<Rightarrow> b | None \<Rightarrow> bytes_per_entry p)
   | ModelOnly \<Rightarrow> bytes_per_entry p)"

definition state_copies :: "KvCachePart \<Rightarrow> KvCacheLayout \<Rightarrow> KvAccountingOptions \<Rightarrow> nat \<times> bool" where
  "state_copies p l opts =
     (if opt_overhead opts = ModelOnly then (1, False)
      else (case copies (part_overhead p) of Some n \<Rightarrow> n | None \<Rightarrow> 1,
            opt_prefix_caching opts \<and> prefix_reusable p
              \<and> engine_block_tokens (engine l) \<noteq> None))"

fun gcd_loop :: "nat \<Rightarrow> nat \<Rightarrow> nat" where
  "gcd_loop a b = (if b = 0 then a else gcd_loop b (a mod b))"

declare gcd_loop.simps [simp del]

subsection \<open>Resolving a layout\<close>

text \<open>The five accumulators of the loop over the parts.\<close>

record PartCharges =
  pc_per_token :: "PerTokenCharge list"
  pc_windows :: "WindowCharge list"
  pc_state :: nat
  pc_align :: nat
  pc_reusable :: nat

definition charge_part ::
  "KvCacheLayout \<Rightarrow> KvAccountingOptions \<Rightarrow> nat \<Rightarrow> KvCachePart \<Rightarrow> PartCharges \<Rightarrow> PartCharges" where
  "charge_part l opts unit_bytes p acc =
     (let units = charged_bytes_per_entry p (opt_overhead opts) div unit_bytes
      in case growth p of
        PerToken t \<Rightarrow> acc\<lparr>pc_per_token := pc_per_token acc @
          [\<lparr>units_per_entry = units, tokens_per_entry = t\<rparr>]\<rparr>
      | SlidingWindow w \<Rightarrow> acc\<lparr>pc_windows := pc_windows acc @
          [\<lparr>units_per_token = units, window_tokens = w, window_reusable = prefix_reusable p\<rparr>]\<rparr>
      | PerRequest \<Rightarrow>
          (let (n, aligns) = state_copies p l opts
           in acc\<lparr>pc_state := pc_state acc + units * n,
                  pc_align := pc_align acc + units * (if aligns then 1 else 0),
                  pc_reusable := pc_reusable acc + (if prefix_reusable p then units else 0)\<rparr>))"

definition charge_parts :: "KvCacheLayout \<Rightarrow> KvAccountingOptions \<Rightarrow> nat \<Rightarrow> PartCharges" where
  "charge_parts l opts unit_bytes = fold (charge_part l opts unit_bytes) (parts l)
     \<lparr>pc_per_token = [], pc_windows = [], pc_state = 0, pc_align = 0, pc_reusable = 0\<rparr>"

definition layout_unit :: "KvCacheLayout \<Rightarrow> KvOverhead \<Rightarrow> nat" where
  "layout_unit l m = fold (\<lambda>b a. gcd_loop a b) (map (\<lambda>p. charged_bytes_per_entry p m) (parts l)) 0"

definition layout_block_tokens :: "KvCacheLayout \<Rightarrow> KvAccountingOptions \<Rightarrow> nat" where
  "layout_block_tokens l opts = (if opt_overhead opts = Vllm
     then (case engine_block_tokens (engine l) of Some b \<Rightarrow> b | None \<Rightarrow> 1) else 1)"

definition resolved :: "KvCacheLayout \<Rightarrow> KvAccountingOptions \<Rightarrow> nat \<Rightarrow> KvAccounting" where
  "resolved l opts budget =
     (let unit_bytes = layout_unit l (opt_overhead opts);
          c = charge_parts l opts unit_bytes;
          block = layout_block_tokens l opts;
          fixed_bytes = (if opt_overhead opts = Vllm then fixed_device_bytes (engine l) else 0);
          cap = max ((budget - fixed_bytes) div unit_bytes) 1;
          linear = (if pc_windows c = [] \<and> block = 1
              \<and> list_all (\<lambda>p. tokens_per_entry p = 1) (pc_per_token c)
            then Some (sum_list (map units_per_entry (pc_per_token c))) else None);
          points = (case opt_resume_points opts of Some r \<Rightarrow> r
            | None \<Rightarrow> (case opt_overhead opts of Vllm \<Rightarrow> PromptEnd | ModelOnly \<Rightarrow> ResponseEnd))
      in \<lparr>ka_layout = l, ka_options = opts, budget_bytes = budget, attention_shards = 1,
          reserved_units = 0, overhead = opt_overhead opts, bytes_per_unit = unit_bytes,
          capacity_units = cap, per_token = pc_per_token c, windows = pc_windows c,
          state_units = pc_state c, align_estimate_units = pc_align c,
          reusable_state_units = pc_reusable c, block_tokens = block,
          checkpoint_block = engine_block_tokens (engine l),
          max_in_flight_tokens = opt_max_in_flight_tokens opts,
          linear_units_per_token = linear, resume_points = points,
          resume_interval = opt_resume_interval opts\<rparr>)"

definition resolve ::
  "KvCacheLayout \<Rightarrow> KvAccountingOptions \<Rightarrow> nat \<Rightarrow> ResolveError + KvAccounting" where
  "resolve l opts budget = (case validate l of Inl e \<Rightarrow> Inl (InvalidLayout e) | Inr _ \<Rightarrow>
     (case opt_resume_interval opts of
        Some interval \<Rightarrow>
          (if \<not> (0 < interval \<and> interval mod layout_block_tokens l opts = 0)
           then Inl (BadResumeInterval interval (layout_block_tokens l opts))
           else Inr (resolved l opts budget))
      | None \<Rightarrow> Inr (resolved l opts budget)))"

subsection \<open>Charges\<close>

definition per_token_units :: "KvAccounting \<Rightarrow> nat \<Rightarrow> nat" where
  "per_token_units a len =
     (if len = 0 then 0 else
      let allocated = div_ceil len (block_tokens a) * block_tokens a
      in sum_list (map (\<lambda>p. units_per_entry p * div_ceil allocated (tokens_per_entry p))
           (per_token a)))"

definition window_units :: "KvAccounting \<Rightarrow> nat \<Rightarrow> (nat \<Rightarrow> nat) \<Rightarrow> nat" where
  "window_units a len kept =
     sum_list (map (\<lambda>p. units_per_token p * min len (kept (window_tokens p))) (windows a))"

definition held_while_running :: "KvAccounting \<Rightarrow> nat \<Rightarrow> nat \<Rightarrow> nat" where
  "held_while_running a len step_tokens = (case linear_units_per_token a of
     Some u \<Rightarrow> len * u + state_units a
   | None \<Rightarrow>
      (let window = (case overhead a of
             Vllm \<Rightarrow> window_units a len (\<lambda>w. w - 1 + max step_tokens 1)
           | ModelOnly \<Rightarrow> window_units a len (\<lambda>w. w))
       in per_token_units a len + window + state_units a))"

definition needed_to_admit :: "KvAccounting \<Rightarrow> nat \<Rightarrow> nat" where
  "needed_to_admit a prompt_tokens = (case linear_units_per_token a of
     Some u \<Rightarrow> prompt_tokens * u + state_units a
   | None \<Rightarrow>
      (let window = (case overhead a of
             Vllm \<Rightarrow> (let in_flight = (case max_in_flight_tokens a of
                        Some m \<Rightarrow> m | None \<Rightarrow> prompt_tokens)
                      in window_units a prompt_tokens (\<lambda>w. w - 1 + in_flight))
           | ModelOnly \<Rightarrow> window_units a prompt_tokens (\<lambda>w. w))
       in per_token_units a prompt_tokens + window + state_units a))"

definition estimated_request_units :: "KvAccounting \<Rightarrow> nat \<Rightarrow> nat" where
  "estimated_request_units a prompt_tokens =
     needed_to_admit a prompt_tokens + align_estimate_units a"

definition concurrency_at :: "'f float_ops \<Rightarrow> KvAccounting \<Rightarrow> nat \<Rightarrow> 'f" where
  "concurrency_at f a max_model_len =
     f_div f (f_of_nat f (capacity_units a)) (f_of_nat f (estimated_request_units a max_model_len))"

definition part_in_estimate :: "KvAccounting \<Rightarrow> nat \<Rightarrow> KvCachePart \<Rightarrow> PartInEstimate" where
  "part_in_estimate a prompt_tokens p =
     (let in_flight = (case max_in_flight_tokens a of Some m \<Rightarrow> m | None \<Rightarrow> prompt_tokens);
          allocated = div_ceil prompt_tokens (block_tokens a) * block_tokens a;
          units = charged_bytes_per_entry p (overhead a) div bytes_per_unit a;
          (held, entries) = (case growth p of
             PerToken t \<Rightarrow>
               (let tokens = (if prompt_tokens = 0 then 0 else allocated)
                in (Some tokens, div_ceil tokens t))
           | SlidingWindow w \<Rightarrow>
               (let kept = (case overhead a of Vllm \<Rightarrow> w - 1 + in_flight | ModelOnly \<Rightarrow> w);
                    tokens = min prompt_tokens kept
                in (Some tokens, tokens))
           | PerRequest \<Rightarrow>
               (let (n, aligns) = state_copies p (ka_layout a) (ka_options a)
                in (None, n + (if aligns then 1 else 0))))
      in \<lparr>tokens_held = held, pe_entries = entries, pe_units = units * entries\<rparr>)"

definition estimated_request_by_part :: "KvAccounting \<Rightarrow> nat \<Rightarrow> PartInEstimate list" where
  "estimated_request_by_part a prompt_tokens =
     map (part_in_estimate a prompt_tokens) (parts (ka_layout a))"

definition reserving :: "KvAccounting \<Rightarrow> nat \<Rightarrow> KvAccounting" where
  "reserving a units = a\<lparr>capacity_units := max (capacity_units a - units) 1,
     reserved_units := reserved_units a + units\<rparr>"

definition over_attention_shards :: "KvAccounting \<Rightarrow> nat \<Rightarrow> KvAccounting" where
  "over_attention_shards a n = a\<lparr>attention_shards := max n 1\<rparr>"

definition footprint :: "KvAccounting \<Rightarrow> nat \<Rightarrow> nat \<Rightarrow> nat" where
  "footprint a context_tokens future_tokens =
     max (held_while_running a (context_tokens + future_tokens) 1)
       (needed_to_admit a context_tokens)"

definition growth_over :: "KvAccounting \<Rightarrow> nat \<Rightarrow> nat \<Rightarrow> nat" where
  "growth_over a len tokens = (case linear_units_per_token a of
     Some u \<Rightarrow> tokens * u
   | None \<Rightarrow> held_while_running a (len + tokens) 1 - held_while_running a len 1)"

definition transfer_bytes :: "KvAccounting \<Rightarrow> nat \<Rightarrow> nat" where
  "transfer_bytes a len = held_while_running a len 1 * bytes_per_unit a"

definition units_of_bytes :: "KvAccounting \<Rightarrow> nat \<Rightarrow> nat" where
  "units_of_bytes a bytes = bytes div bytes_per_unit a"

definition checkpoint_block_tokens :: "KvAccounting \<Rightarrow> nat option" where
  "checkpoint_block_tokens a = (if 0 < reusable_state_units a then checkpoint_block a else None)"

definition aligns_chunks_by_default :: "KvAccounting \<Rightarrow> bool" where
  "aligns_chunks_by_default a \<longleftrightarrow> overhead a = Vllm"

text \<open>The binary search of \<open>tokens_fitting\<close> and \<open>largest_fitting\<close>: the code's \<open>low\<close> and
  \<open>high\<close>, and the test of a midpoint.\<close>

function search_up :: "(nat \<Rightarrow> bool) \<Rightarrow> nat \<Rightarrow> nat \<Rightarrow> nat" where
  "search_up fits low high =
     (if low < high
      then (let mid = low + div_ceil (high - low) 2
            in if fits mid then search_up fits mid high else search_up fits low (mid - 1))
      else low)"
  by pat_completeness auto
termination
  by (relation "measure (\<lambda>(_, low, high). high - low)") (auto simp: div_ceil_def split: if_splits)

declare search_up.simps [simp del]

definition tokens_fitting :: "KvAccounting \<Rightarrow> nat \<Rightarrow> nat" where
  "tokens_fitting a units =
     search_up (\<lambda>mid. held_while_running a mid 1 \<le> units) 0
       (max (saturating_mul_u64 units (block_tokens a)) 1)"

subsection \<open>Retained prefixes\<close>

definition sparse :: "KvAccounting \<Rightarrow> bool" where
  "sparse a \<longleftrightarrow> 0 < reusable_state_units a \<or> list_ex window_reusable (windows a)"

definition resume_positions :: "KvAccounting \<Rightarrow> nat \<Rightarrow> nat \<Rightarrow> ResumePositions" where
  "resume_positions a prompt_tokens context_tokens =
     (let block = block_tokens a; flr = (\<lambda>tokens. tokens div block * block)
      in if \<not> sparse a then rp_series block (flr context_tokens)
         else
          (let prompt_end = flr (case overhead a of
                 Vllm \<Rightarrow> prompt_tokens - 1 | ModelOnly \<Rightarrow> prompt_tokens);
               response_end = flr context_tokens;
               (explicit, every) = (case resume_points a of
                   PromptEnd \<Rightarrow> ((Some prompt_end, None), resume_interval a)
                 | ResponseEnd \<Rightarrow> ((Some response_end, None), resume_interval a)
                 | PromptAndResponseEnd \<Rightarrow>
                     ((Some prompt_end, Some response_end), resume_interval a)
                 | EveryBlock \<Rightarrow> ((None, None), Some block))
           in rp_new explicit every context_tokens))"

text \<open>Resume positions are well-formed wherever the code charges them (\<open>resume_positions_wf\<close>, kept by the
  prefix cache), so that \<open>window_tail_union\<close> returns; \<open>the\<close> gives no value to its panic.\<close>

definition entry_charge :: "KvAccounting \<Rightarrow> ResumePositions \<Rightarrow> nat" where
  "entry_charge a p =
     (let units = per_token_units a (rp_end p)
      in if \<not> sparse a then units
         else units + sum_list (map (\<lambda>w. units_per_token w * the (window_tail_union p (window_tokens w - 1)))
                (filter window_reusable (windows a)))
              + reusable_state_units a * rp_count p)"

definition checkpoint_units :: "KvAccounting \<Rightarrow> nat \<Rightarrow> nat \<Rightarrow> nat" where
  "checkpoint_units a prompt_tokens len =
     (if \<not> sparse a \<or> len = 0 then 0
      else (let passed = rp_truncated (resume_positions a prompt_tokens len) (len - 1)
            in entry_charge a passed - per_token_units a (rp_end passed)))"

definition largest_fitting :: "KvAccounting \<Rightarrow> ResumePositions \<Rightarrow> nat \<Rightarrow> ResumePositions" where
  "largest_fitting a p cap =
     (if entry_charge a p \<le> cap then p
      else rp_truncated p (rp_floor p
        (search_up (\<lambda>mid. entry_charge a (rp_truncated p (rp_floor p mid)) \<le> cap) 0 (rp_end p))))"

subsection \<open>What \<open>resolve\<close> establishes\<close>

lemma gcd_loop_eq: "gcd_loop a b = gcd a b"
proof (induction a b rule: gcd_loop.induct)
  case (1 a b)
  then show ?case by (subst gcd_loop.simps) (auto simp: gcd_red_nat [of a b] gcd.commute)
qed

lemma fold_gcd_dvd:
  "fold (\<lambda>b a. gcd_loop a b) bs a dvd a \<and>
     (\<forall>b \<in> set bs. fold (\<lambda>b a. gcd_loop a b) bs a dvd b)"
proof (induction bs arbitrary: a)
  case (Cons b bs)
  then show ?case using Cons.IH [of "gcd_loop a b"]
    by (auto simp: gcd_loop_eq intro: dvd_trans)
qed simp

lemma fold_gcd_greatest:
  "d dvd a \<Longrightarrow> \<forall>b \<in> set bs. d dvd b \<Longrightarrow> d dvd fold (\<lambda>b a. gcd_loop a b) bs a"
  by (induction bs arbitrary: a) (auto simp: gcd_loop_eq)

lemma layout_unit_dvd:
  "p \<in> set (parts l) \<Longrightarrow> layout_unit l m dvd charged_bytes_per_entry p m"
  unfolding layout_unit_def by (rule fold_gcd_dvd [THEN conjunct2, rule_format]) simp

lemma layout_unit_greatest:
  "\<forall>p \<in> set (parts l). d dvd charged_bytes_per_entry p m \<Longrightarrow> d dvd layout_unit l m"
  unfolding layout_unit_def by (rule fold_gcd_greatest) simp_all

lemma charged_bytes_pos: "part_ok p \<Longrightarrow> 0 < charged_bytes_per_entry p m"
  by (cases m) (auto simp: charged_bytes_per_entry_def part_ok_def split: option.splits)

definition accounting_ok :: "KvAccounting \<Rightarrow> bool" where
  "accounting_ok a \<longleftrightarrow> 0 < bytes_per_unit a \<and> 0 < capacity_units a \<and> 0 < block_tokens a
     \<and> list_all (\<lambda>p. 0 < units_per_entry p \<and> 0 < tokens_per_entry p) (per_token a)
     \<and> list_all (\<lambda>w. 0 < units_per_token w \<and> 0 < window_tokens w) (windows a)
     \<and> (case linear_units_per_token a of None \<Rightarrow> True | Some u \<Rightarrow>
          windows a = [] \<and> block_tokens a = 1
          \<and> list_all (\<lambda>p. tokens_per_entry p = 1) (per_token a)
          \<and> u = sum_list (map units_per_entry (per_token a)))
     \<and> (case resume_interval a of None \<Rightarrow> True | Some i \<Rightarrow> 0 < i \<and> block_tokens a dvd i)"

lemma charge_parts_ok:
  assumes "list_all part_ok ps" and "0 < u"
    and "\<forall>p \<in> set ps. u dvd charged_bytes_per_entry p (opt_overhead opts)"
    and "list_all (\<lambda>p. 0 < units_per_entry p \<and> 0 < tokens_per_entry p) (pc_per_token acc)"
    and "list_all (\<lambda>w. 0 < units_per_token w \<and> 0 < window_tokens w) (pc_windows acc)"
  shows "list_all (\<lambda>p. 0 < units_per_entry p \<and> 0 < tokens_per_entry p)
       (pc_per_token (fold (charge_part l opts u) ps acc))
     \<and> list_all (\<lambda>w. 0 < units_per_token w \<and> 0 < window_tokens w)
       (pc_windows (fold (charge_part l opts u) ps acc))"
  using assms
proof (induction ps arbitrary: acc)
  case (Cons p ps)
  have "0 < charged_bytes_per_entry p (opt_overhead opts) div u"
    using Cons.prems charged_bytes_pos [of p] by (auto simp: div_greater_zero_iff intro!: dvd_imp_le)
  then show ?case
    using Cons.prems
    by (simp, intro Cons.IH)
      (auto simp: charge_part_def part_ok_def Let_def split: KvGrowth.split prod.split)
qed simp

lemma resolve_InrD:
  assumes "resolve l opts budget = Inr a"
  shows "validate l = Inr ()" and "a = resolved l opts budget"
    and "case opt_resume_interval opts of None \<Rightarrow> True
      | Some i \<Rightarrow> 0 < i \<and> layout_block_tokens l opts dvd i"
  using assms unfolding resolve_def
  by (auto simp: dvd_eq_mod_eq_0 split: sum.splits option.splits if_splits)

lemma resolved_simps [simp]:
  "ka_layout (resolved l opts budget) = l" "ka_options (resolved l opts budget) = opts"
  "overhead (resolved l opts budget) = opt_overhead opts"
  "bytes_per_unit (resolved l opts budget) = layout_unit l (opt_overhead opts)"
  "max_in_flight_tokens (resolved l opts budget) = opt_max_in_flight_tokens opts"
  "block_tokens (resolved l opts budget) = layout_block_tokens l opts"
  "per_token (resolved l opts budget) = pc_per_token (charge_parts l opts (layout_unit l (opt_overhead opts)))"
  "windows (resolved l opts budget) = pc_windows (charge_parts l opts (layout_unit l (opt_overhead opts)))"
  "state_units (resolved l opts budget) = pc_state (charge_parts l opts (layout_unit l (opt_overhead opts)))"
  "align_estimate_units (resolved l opts budget) = pc_align (charge_parts l opts (layout_unit l (opt_overhead opts)))"
  "reusable_state_units (resolved l opts budget) = pc_reusable (charge_parts l opts (layout_unit l (opt_overhead opts)))"
  "resume_interval (resolved l opts budget) = opt_resume_interval opts"
  by (simp_all add: resolved_def Let_def)

lemma resolve_facts:
  assumes "resolve l opts budget = Inr a"
  shows "accounting_ok a \<and> bytes_per_unit a = Gcd ((\<lambda>p. charged_bytes_per_entry p (overhead a)) ` set (parts l))"
proof -
  note D = resolve_InrD [OF assms]
  let ?m = "opt_overhead opts"
  let ?u = "layout_unit l ?m"
  let ?B = "(\<lambda>p. charged_bytes_per_entry p ?m) ` set (parts l)"
  have "?u dvd Gcd ?B"
    by (rule Gcd_greatest) (auto intro: layout_unit_dvd)
  moreover have "Gcd ?B dvd ?u"
    by (intro layout_unit_greatest ballI Gcd_dvd imageI)
  ultimately have unit: "?u = Gcd ?B" by (rule dvd_antisym)
  have ok: "list_all part_ok (parts l)" "parts l \<noteq> []" "engine_block_tokens (engine l) \<noteq> Some 0"
    using D(1) by (simp_all add: validate_Inr)
  then have "0 < charged_bytes_per_entry (hd (parts l)) ?m"
    by (intro charged_bytes_pos) (simp add: list_all_iff)
  then have pos: "0 < ?u"
    using layout_unit_dvd [OF hd_in_set [OF ok(2)], of ?m] by (auto intro: gr0I)
  have pc: "list_all (\<lambda>p. 0 < units_per_entry p \<and> 0 < tokens_per_entry p) (per_token a)
     \<and> list_all (\<lambda>w. 0 < units_per_token w \<and> 0 < window_tokens w) (windows a)"
    unfolding D(2) resolved_simps charge_parts_def
    using ok(1) pos layout_unit_dvd [of _ l] by (intro charge_parts_ok) simp_all
  have "0 < layout_block_tokens l opts"
    using ok(3) by (auto simp: layout_block_tokens_def split: option.splits)
  then have blk: "0 < block_tokens a" by (simp add: D(2))
  have cap: "0 < capacity_units a" by (simp add: D(2) resolved_def Let_def)
  have lin: "case linear_units_per_token a of None \<Rightarrow> True | Some u \<Rightarrow>
          windows a = [] \<and> block_tokens a = 1
          \<and> list_all (\<lambda>p. tokens_per_entry p = 1) (per_token a)
          \<and> u = sum_list (map units_per_entry (per_token a))"
    by (simp add: D(2) resolved_def Let_def)
  have ival: "case resume_interval a of None \<Rightarrow> True | Some i \<Rightarrow> 0 < i \<and> block_tokens a dvd i"
    using D(3) by (cases "opt_resume_interval opts") (simp_all add: D(2))
  have "bytes_per_unit a = ?u" "overhead a = ?m" by (simp_all add: D(2))
  then show ?thesis
    using pos unit pc blk cap lin ival by (simp only: accounting_ok_def simp_thms)
qed

text \<open>every accounting \<open>KvAccounting::resolve\<close> returns is well formed: its unit divides the
  charged bytes of every part, and is their greatest common divisor, so no charge is rounded; every
  divisor the charges use is positive; and the linear shortcut is set only for a layout whose charge
  is linear.\<close>

theorem resolve_establishes:
  assumes "resolve l opts budget = Inr a"
  shows "accounting_ok a \<and> bytes_per_unit a = Gcd ((\<lambda>p. charged_bytes_per_entry p (overhead a)) ` set (parts l))"
  using assms by (rule resolve_facts)

text \<open>What \<open>validate\<close> is for, stated on the accounting: the plain options of an overhead mode, and the
  part's units for a one-token request.\<close>

definition plain_options :: "KvOverhead \<Rightarrow> KvAccountingOptions" where
  "plain_options m = \<lparr>opt_overhead = m, opt_resume_points = None, opt_resume_interval = None,
     opt_max_in_flight_tokens = None, opt_prefix_caching = False\<rparr>"

lemma plain_options_simps [simp]:
  "opt_overhead (plain_options m) = m" "opt_resume_interval (plain_options m) = None"
  "opt_max_in_flight_tokens (plain_options m) = None" "opt_prefix_caching (plain_options m) = False"
  by (simp_all add: plain_options_def)

definition one_token_units :: "KvCacheLayout \<Rightarrow> nat \<Rightarrow> KvOverhead \<Rightarrow> KvCachePart \<Rightarrow> nat" where
  "one_token_units l budget m p = pe_units (part_in_estimate (resolved l (plain_options m) budget) 1 p)"

lemma plain_accounting_ok:
  assumes "validate l = Inr ()"
  shows "accounting_ok (resolved l (plain_options m) budget)"
proof -
  have "resolve l (plain_options m) budget = Inr (resolved l (plain_options m) budget)"
    using assms by (simp add: resolve_def)
  from resolve_facts [OF this] show ?thesis by (rule conjunct1)
qed

lemma one_token_units_pos:
  assumes "validate l = Inr ()" and "p \<in> set (parts l)"
  shows "0 < one_token_units l budget m p"
proof -
  have ok: "part_ok p" "0 < layout_unit l m" "0 < layout_block_tokens l (plain_options m)"
    using assms(2) plain_accounting_ok [OF assms(1), of m budget] assms(1) [unfolded validate_Inr]
    unfolding accounting_ok_def by (simp_all add: list_all_iff)
  have "0 < charged_bytes_per_entry p m div layout_unit l m"
    using charged_bytes_pos [OF ok(1), of m] layout_unit_dvd [OF assms(2), of m] ok(2)
    by (auto simp: div_greater_zero_iff intro!: dvd_imp_le)
  then show ?thesis
    using ok(1,3) div_ceil_pos [of "layout_block_tokens l (plain_options m)" 1]
    by (auto simp: one_token_units_def part_in_estimate_def Let_def part_ok_def state_copies_def
        intro!: div_ceil_pos split: KvGrowth.splits KvOverhead.splits option.splits)
qed

lemma one_token_units_zero:
  "bytes_per_entry p = 0 \<Longrightarrow> one_token_units l budget ModelOnly p = 0"
  "growth p = PerRequest \<Longrightarrow> copies (part_overhead p) = Some 0 \<Longrightarrow> one_token_units l budget Vllm p = 0"
  by (simp_all add: one_token_units_def part_in_estimate_def Let_def charged_bytes_per_entry_def
      state_copies_def split: KvGrowth.split prod.split)

lemma charge_part_grows:
  "set (pc_per_token acc) \<subseteq> set (pc_per_token (charge_part l opts u p acc))"
  "set (pc_windows acc) \<subseteq> set (pc_windows (charge_part l opts u p acc))"
  by (auto simp: charge_part_def Let_def split: KvGrowth.split prod.split)

lemma charge_parts_keep:
  "set (pc_per_token acc) \<subseteq> set (pc_per_token (fold (charge_part l opts u) ps acc))
     \<and> set (pc_windows acc) \<subseteq> set (pc_windows (fold (charge_part l opts u) ps acc))"
proof (induction ps arbitrary: acc)
  case (Cons p ps)
  from Cons [of "charge_part l opts u p acc"] charge_part_grows [where acc = acc and p = p]
  show ?case by (metis fold_simps(2) order_trans)
qed simp

lemma charge_parts_span:
  assumes "p \<in> set ps"
  shows "case growth p of
      PerToken t \<Rightarrow> t \<in> tokens_per_entry ` set (pc_per_token (fold (charge_part l opts u) ps acc))
    | SlidingWindow w \<Rightarrow> w \<in> window_tokens ` set (pc_windows (fold (charge_part l opts u) ps acc))
    | PerRequest \<Rightarrow> True"
  using assms
proof (induction ps arbitrary: acc)
  case (Cons q ps)
  show ?case
  proof (cases "p = q")
    case True
    show ?thesis
      using charge_parts_keep [of "charge_part l opts u q acc" l opts u ps] True
      by (cases "growth q") (force simp: charge_part_def Let_def)+
  next
    case False
    then have "p \<in> set ps" using Cons.prems by simp
    from Cons.IH [OF this, of "charge_part l opts u q acc"] show ?thesis by (simp only: fold_simps)
  qed
qed simp

text \<open>C40: \<open>KvCacheLayout::validate\<close> accepts exactly the layouts that can be accounted: in both overhead
  modes \<open>resolve\<close>'s accounting of the layout is well formed (a positive unit, block, entry charge and
  span, so that no charge divides by zero), every part costs a request of one token something, and the
  engine never charges an entry less than the model. The one check beyond that is a zero copy count
  on a part that is not kept per request, which the accounting never reads.\<close>

theorem validate_accountable:
  "validate l = Inr () \<longleftrightarrow>
     (\<forall>m. accounting_ok (resolved l (plain_options m) budget)
        \<and> (\<forall>p \<in> set (parts l). 0 < one_token_units l budget m p))
     \<and> (\<forall>p \<in> set (parts l). charged_bytes_per_entry p ModelOnly \<le> charged_bytes_per_entry p Vllm
        \<and> (growth p = PerRequest \<or> copies (part_overhead p) \<noteq> Some 0))"
proof (intro iffI conjI allI ballI)
  assume v: "validate l = Inr ()"
  then show "accounting_ok (resolved l (plain_options m) budget)" for m by (rule plain_accounting_ok)
  show "0 < one_token_units l budget m p" if "p \<in> set (parts l)" for m p
    using one_token_units_pos [OF v that] .
  fix p assume p: "p \<in> set (parts l)"
  then have "part_ok p" using v by (simp add: validate_Inr list_all_iff)
  then show "charged_bytes_per_entry p ModelOnly \<le> charged_bytes_per_entry p Vllm"
    "growth p = PerRequest \<or> copies (part_overhead p) \<noteq> Some 0"
    by (auto simp: part_ok_def charged_bytes_per_entry_def split: option.splits)
next
  assume r: "(\<forall>m. accounting_ok (resolved l (plain_options m) budget)
        \<and> (\<forall>p \<in> set (parts l). 0 < one_token_units l budget m p))
     \<and> (\<forall>p \<in> set (parts l). charged_bytes_per_entry p ModelOnly \<le> charged_bytes_per_entry p Vllm
        \<and> (growth p = PerRequest \<or> copies (part_overhead p) \<noteq> Some 0))"
  then have ok: "accounting_ok (resolved l (plain_options m) budget)" for m by blast
  have "parts l \<noteq> []" using ok [of Vllm] by (auto simp: accounting_ok_def layout_unit_def)
  moreover have "engine_block_tokens (engine l) \<noteq> Some 0"
    using ok [of Vllm] by (auto simp: accounting_ok_def layout_block_tokens_def)
  moreover have "part_ok p" if p: "p \<in> set (parts l)" for p
  proof -
    have "0 < bytes_per_entry p" using r p one_token_units_zero(1) [of p l budget] by (metis gr0I less_irrefl)
    moreover have "copies (part_overhead p) \<noteq> Some 0"
      using r p one_token_units_zero(2) [of p l budget] by (metis less_irrefl)
    moreover have "case padded_bytes_per_entry (part_overhead p) of None \<Rightarrow> True | Some b \<Rightarrow> bytes_per_entry p \<le> b"
      using r p by (auto simp: charged_bytes_per_entry_def split: option.split)
    moreover have "case growth p of PerToken t \<Rightarrow> 0 < t | SlidingWindow w \<Rightarrow> 0 < w | PerRequest \<Rightarrow> True"
      using ok [of Vllm] charge_parts_span [OF p]
      by (fastforce simp: accounting_ok_def list_all_iff charge_parts_def split: KvGrowth.split)
    ultimately show ?thesis by (simp add: part_ok_def)
  qed
  ultimately show "validate l = Inr ()" by (simp add: validate_Inr list_all_iff)
qed

text \<open>A small hybrid model: per-token attention of 100 bytes, a 64-token window of 100 bytes and
  a 1000-byte recurrent state that the engine pads to 1200, in 16-token blocks.\<close>

definition sample_layout :: KvCacheLayout where
  "sample_layout = with_engine (with_part (with_part (with_part new_layout
      (per_token_part ''global'' 100)) (sliding_window ''swa'' 64 100))
      (padded_to (per_request ''state'' 1000) 1200))
    \<lparr>engine_block_tokens = Some 16, fixed_device_bytes = 1000\<rparr>"

definition sample_options :: KvAccountingOptions where
  "sample_options = \<lparr>opt_overhead = Vllm, opt_resume_points = Some PromptAndResponseEnd,
     opt_resume_interval = Some 32, opt_max_in_flight_tokens = Some 32, opt_prefix_caching = True\<rparr>"

definition sample_accounting :: KvAccounting where
  "sample_accounting = resolved sample_layout sample_options 101000"

lemma sample_resolves: "resolve sample_layout sample_options 101000 = Inr sample_accounting"
  by (simp add: resolve_def sample_accounting_def sample_layout_def sample_options_def
      validate_def validate_part_def layout_defs layout_block_tokens_def)

theorem resolve_establishes_witness: "bytes_per_unit sample_accounting
    = Gcd ((\<lambda>p. charged_bytes_per_entry p (overhead sample_accounting)) ` set (parts sample_layout))"
  using resolve_establishes [OF sample_resolves] by (rule conjunct2)

text \<open>The small model is accepted; a state padded below its own size is not.\<close>

theorem validate_accountable_witness:
  "accounting_ok (resolved sample_layout (plain_options ModelOnly) 101000)
   \<and> validate (with_part new_layout (padded_to (per_request ''state'' 1000) 900)) \<noteq> Inr ()"
proof
  have "validate sample_layout = Inr ()"
    by (simp add: sample_layout_def validate_def validate_part_def layout_defs)
  then show "accounting_ok (resolved sample_layout (plain_options ModelOnly) 101000)"
    unfolding validate_accountable [of sample_layout 101000] by blast
  show "validate (with_part new_layout (padded_to (per_request ''state'' 1000) 900)) \<noteq> Inr ()"
    unfolding validate_accountable [of _ 0]
    by (auto simp: layout_defs charged_bytes_per_entry_def)
qed

lemma sample_ok: "accounting_ok sample_accounting"
  using resolve_facts [OF sample_resolves] by (rule conjunct1)

subsection \<open>The linear shortcut\<close>

text \<open>The charge of a running request as a sum over the layout, with what a window keeps as a
  parameter: what the code computes when no shortcut applies.\<close>

definition general_charge :: "KvAccounting \<Rightarrow> nat \<Rightarrow> (nat \<Rightarrow> nat) \<Rightarrow> nat" where
  "general_charge a len kept = per_token_units a len + window_units a len kept + state_units a"

definition running_window :: "KvOverhead \<Rightarrow> nat \<Rightarrow> nat \<Rightarrow> nat" where
  "running_window m step w = (case m of Vllm \<Rightarrow> w - 1 + max step 1 | ModelOnly \<Rightarrow> w)"

definition admission_window :: "KvAccounting \<Rightarrow> nat \<Rightarrow> nat \<Rightarrow> nat" where
  "admission_window a prompt w = (case overhead a of
     Vllm \<Rightarrow> w - 1 + (case max_in_flight_tokens a of Some m \<Rightarrow> m | None \<Rightarrow> prompt)
   | ModelOnly \<Rightarrow> w)"

lemma sum_list_mult_units:
  "list_all (\<lambda>p. tokens_per_entry p = Suc 0) ps \<Longrightarrow>
     sum_list (map (\<lambda>p. units_per_entry p * div_ceil n (tokens_per_entry p)) ps)
       = n * sum_list (map units_per_entry ps)"
  by (induction ps) (auto simp: algebra_simps)

lemma linear_per_token:
  assumes "accounting_ok a" and "linear_units_per_token a = Some u"
  shows "per_token_units a len = len * u" and "window_units a len kept = 0"
  using assms by (auto simp: accounting_ok_def per_token_units_def window_units_def
      sum_list_mult_units)

lemma held_general:
  "accounting_ok a \<Longrightarrow>
     held_while_running a len step = general_charge a len (running_window (overhead a) step)"
  and needed_general:
  "accounting_ok a \<Longrightarrow> needed_to_admit a len = general_charge a len (admission_window a len)"
proof -
  assume ok: "accounting_ok a"
  show "held_while_running a len step = general_charge a len (running_window (overhead a) step)"
    "needed_to_admit a len = general_charge a len (admission_window a len)"
    using linear_per_token [OF ok]
    by (auto simp: held_while_running_def needed_to_admit_def general_charge_def Let_def
        running_window_def [abs_def] admission_window_def [abs_def]
        split: option.split KvOverhead.split)
qed

text \<open>the linear shortcut of \<open>held_while_running\<close> and \<open>needed_to_admit\<close> is only an
  optimisation: on every resolved accounting both equal the charge summed over the layout's parts.\<close>

theorem linear_shortcut_exact:
  assumes "accounting_ok a"
  shows "held_while_running a len step = general_charge a len (running_window (overhead a) step)
    \<and> needed_to_admit a len = general_charge a len (admission_window a len)"
  using held_general [OF assms] needed_general [OF assms] by simp

theorem linear_shortcut_exact_witness:
  "held_while_running sample_accounting 100 1
     = general_charge sample_accounting 100 (running_window (overhead sample_accounting) 1)"
  using linear_shortcut_exact [OF sample_ok] by (rule conjunct1)

subsection \<open>Growth\<close>

lemma per_token_units_mono:
  assumes "accounting_ok a" and "len \<le> len'"
  shows "per_token_units a len \<le> per_token_units a len'"
proof (cases "len = 0")
  case False
  have "div_ceil (div_ceil len (block_tokens a) * block_tokens a) (tokens_per_entry p)
      \<le> div_ceil (div_ceil len' (block_tokens a) * block_tokens a) (tokens_per_entry p)"
    if "p \<in> set (per_token a)" for p
    using assms that by (intro div_ceil_mono mult_le_mono1) (auto simp: accounting_ok_def list_all_iff)
  with False assms(2) show ?thesis
    by (auto simp: per_token_units_def Let_def intro!: sum_list_mono)
qed (simp add: per_token_units_def)

lemma window_units_mono:
  "len \<le> len' \<Longrightarrow> (\<And>w. kept w \<le> kept' w) \<Longrightarrow> window_units a len kept \<le> window_units a len' kept'"
  unfolding window_units_def by (intro sum_list_mono mult_le_mono2 min.mono) auto

lemma held_mono:
  assumes "accounting_ok a" and "len \<le> len'" and "step \<le> step'"
  shows "held_while_running a len step \<le> held_while_running a len' step'"
  unfolding held_general [OF assms(1)] general_charge_def using assms
  by (intro add_mono per_token_units_mono window_units_mono)
    (auto simp: running_window_def split: KvOverhead.split)

lemma held_plus_growth:
  "accounting_ok a \<Longrightarrow>
     held_while_running a len 1 + growth_over a len n = held_while_running a (len + n) 1"
proof -
  assume ok: "accounting_ok a"
  show ?thesis
  proof (cases "linear_units_per_token a")
    case None
    then show ?thesis using held_mono [OF ok, of len "len + n" 1 1] by (simp add: growth_over_def)
  next
    case (Some u)
    then show ?thesis by (simp add: growth_over_def held_while_running_def algebra_simps)
  qed
qed

text \<open>\<open>growth_over\<close> is exact on every branch: what a request of \<open>len\<close> tokens holds plus its
  growth over \<open>n\<close> decode tokens is what it holds afterwards, so the \<open>u64\<close> subtraction never goes
  below zero, and growth over \<open>m + n\<close> tokens is the growth over \<open>m\<close> and then over \<open>n\<close>.\<close>

theorem growth_over_exact:
  assumes "accounting_ok a"
  shows "held_while_running a len 1 + growth_over a len n = held_while_running a (len + n) 1
    \<and> growth_over a len (m + n) = growth_over a len m + growth_over a (len + m) n"
  using held_plus_growth [OF assms, of len n] held_plus_growth [OF assms, of len m]
    held_plus_growth [OF assms, of len "m + n"] held_plus_growth [OF assms, of "len + m" n]
  by (simp add: add.assoc)

theorem growth_over_exact_witness:
  "held_while_running sample_accounting 60 1 + growth_over sample_accounting 60 8
     = held_while_running sample_accounting (60 + 8) 1"
  using growth_over_exact [OF sample_ok] by (rule conjunct1)

lemma held_le_needed:
  assumes "accounting_ok a" and "max_in_flight_tokens a \<noteq> Some 0" and "0 < len"
  shows "held_while_running a len 1 \<le> needed_to_admit a len"
  unfolding held_general [OF assms(1)] needed_general [OF assms(1)] general_charge_def
  using assms(2,3)
  by (intro add_mono order_refl window_units_mono)
    (auto simp: running_window_def admission_window_def split: KvOverhead.split option.split)

subsection \<open>The concurrency estimate by part\<close>

text \<open>The weight of the accumulators of \<open>resolve\<close> in an estimate for \<open>n\<close> tokens.\<close>

definition charges_weight ::
  "KvAccounting \<Rightarrow> nat \<Rightarrow> PartCharges \<Rightarrow> nat" where
  "charges_weight a n c =
     (let allocated = (if n = 0 then 0 else div_ceil n (block_tokens a) * block_tokens a)
      in sum_list (map (\<lambda>p. units_per_entry p * div_ceil allocated (tokens_per_entry p))
           (pc_per_token c))
       + sum_list (map (\<lambda>w. units_per_token w * min n (admission_window a n (window_tokens w)))
           (pc_windows c))
       + pc_state c + pc_align c)"

lemma charges_weight_step:
  assumes "a = resolved l opts budget"
  shows "charges_weight a n (charge_part l opts (bytes_per_unit a) p c)
       = charges_weight a n c + pe_units (part_in_estimate a n p)"
  by (cases "growth p")
    (auto simp: assms charges_weight_def charge_part_def part_in_estimate_def Let_def
      admission_window_def algebra_simps split: prod.split KvOverhead.split)

lemma charges_weight_fold:
  assumes "a = resolved l opts budget"
  shows "charges_weight a n (fold (charge_part l opts (bytes_per_unit a)) ps c)
       = charges_weight a n c + sum_list (map (\<lambda>p. pe_units (part_in_estimate a n p)) ps)"
proof (induction ps arbitrary: c)
  case (Cons p ps)
  show ?case by (simp add: Cons charges_weight_step [OF assms])
qed simp

text \<open>the report's per-part breakdown is complete: the units of
  \<open>estimated_request_by_part\<close> sum to \<open>estimated_request_units\<close> on every accounting \<open>resolve\<close>
  returns, and there is one entry per part of the layout.\<close>

theorem estimate_by_part_sums:
  assumes "resolve l opts budget = Inr a"
  shows "sum_list (map pe_units (estimated_request_by_part a n)) = estimated_request_units a n
    \<and> length (estimated_request_by_part a n) = length (parts l)"
proof -
  have a: "a = resolved l opts budget" using assms by (rule resolve_InrD)
  have ok: "accounting_ok a" using resolve_facts [OF assms] by (rule conjunct1)
  have "charges_weight a n (charge_parts l opts (bytes_per_unit a))
      = sum_list (map (\<lambda>p. pe_units (part_in_estimate a n p)) (parts l))"
    unfolding charge_parts_def charges_weight_fold [OF a] by (simp add: charges_weight_def)
  moreover have "charges_weight a n (charge_parts l opts (bytes_per_unit a))
      = needed_to_admit a n + align_estimate_units a"
    unfolding needed_general [OF ok]
    by (simp add: charges_weight_def general_charge_def per_token_units_def window_units_def Let_def a)
  ultimately show ?thesis
    by (simp add: estimated_request_by_part_def estimated_request_units_def a comp_def)
qed

theorem estimate_by_part_sums_witness:
  "sum_list (map pe_units (estimated_request_by_part sample_accounting 100))
     = estimated_request_units sample_accounting 100"
  using estimate_by_part_sums [OF sample_resolves] by (rule conjunct1)

subsection \<open>The binary searches\<close>

lemma search_up_spec:
  assumes "low \<le> high" and "fits low \<or> low = 0"
    and "\<forall>m n. m \<le> n \<and> n \<le> high \<and> 0 < m \<and> fits n \<longrightarrow> fits m"
  shows "low \<le> search_up fits low high \<and> search_up fits low high \<le> high
    \<and> (fits (search_up fits low high) \<or> search_up fits low high = 0)
    \<and> (\<forall>m. search_up fits low high < m \<and> m \<le> high \<longrightarrow> \<not> fits m)"
  using assms
proof (induction fits low high rule: search_up.induct)
  case (1 fits low high)
  let ?mid = "low + div_ceil (high - low) 2"
  show ?case
  proof (cases "low < high")
    case False
    then have eq: "search_up fits low high = low" by (simp add: search_up.simps [of fits low high])
    show ?thesis unfolding eq using "1.prems"(1,2) False by auto
  next
    case True
    have mid: "low < ?mid" "?mid \<le> high"
      using True div_ceil_pos [of 2 "high - low"] div_ceil_least [of 2 "high - low" "high - low"]
      by auto
    show ?thesis
    proof (cases "fits ?mid")
      case fits: True
      have "?mid \<le> high" "fits ?mid \<or> ?mid = 0" using mid fits by simp_all
      note ih = "1.IH"(1) [OF True refl fits this "1.prems"(3)]
      have eq: "search_up fits low high = search_up fits ?mid high"
        using True fits by (simp add: search_up.simps [of fits low high] Let_def)
      show ?thesis unfolding eq using ih mid by auto
    next
      case unfit: False
      have lo: "low \<le> ?mid - 1" using mid by simp
      have "\<forall>m n. m \<le> n \<and> n \<le> ?mid - 1 \<and> 0 < m \<and> fits n \<longrightarrow> fits m"
        using "1.prems"(3) mid by (meson diff_le_self le_trans)
      note ih = "1.IH"(2) [OF True refl unfit lo "1.prems"(2) this]
      note ih1 = ih [THEN conjunct1] and ih2 = ih [THEN conjunct2, THEN conjunct1]
        and ih3 = ih [THEN conjunct2, THEN conjunct2, THEN conjunct1]
        and ih4 = ih [THEN conjunct2, THEN conjunct2, THEN conjunct2]
      have above: "\<not> fits m" if "?mid \<le> m" "m \<le> high" for m
        using "1.prems"(3) [rule_format, of ?mid m] that unfit mid by auto
      have "\<not> fits m" if "search_up fits low (?mid - 1) < m" "m \<le> high" for m
      proof (cases "?mid \<le> m")
        case True
        then show ?thesis using that(2) by (rule above)
      next
        case False
        then have "m \<le> ?mid - 1" by simp
        from ih4 [rule_format, OF conjI [OF that(1) this]] show ?thesis .
      qed
      moreover have eq: "search_up fits low high = search_up fits low (?mid - 1)"
        using True unfit by (simp add: search_up.simps [of fits low high] Let_def)
      moreover have "search_up fits low (?mid - 1) \<le> high" using ih2 mid by linarith
      ultimately show ?thesis unfolding eq using ih1 ih3 by (intro conjI) simp_all
    qed
  qed
qed

lemma search_from_0:
  assumes "\<forall>m n. m \<le> n \<and> n \<le> high \<and> 0 < m \<and> fits n \<longrightarrow> fits m"
  shows "search_up fits 0 high \<le> high"
    and "fits (search_up fits 0 high) \<or> search_up fits 0 high = 0"
    and "search_up fits 0 high < m \<Longrightarrow> m \<le> high \<Longrightarrow> \<not> fits m"
proof -
  have "0 \<le> search_up fits 0 high \<and> search_up fits 0 high \<le> high
    \<and> (fits (search_up fits 0 high) \<or> search_up fits 0 high = 0)
    \<and> (\<forall>m. search_up fits 0 high < m \<and> m \<le> high \<longrightarrow> \<not> fits m)"
    by (rule search_up_spec) (use assms in simp_all)
  then show "search_up fits 0 high \<le> high"
    "fits (search_up fits 0 high) \<or> search_up fits 0 high = 0"
    "search_up fits 0 high < m \<Longrightarrow> m \<le> high \<Longrightarrow> \<not> fits m" by simp_all
qed

lemma sum_list_member_le: "x \<in> set xs \<Longrightarrow> f x \<le> (sum_list (map f xs) :: nat)"
  by (induction xs) auto

lemma per_token_units_lower:
  assumes "accounting_ok a" and "p \<in> set (per_token a)"
    and "tokens_per_entry p \<le> units_per_entry p * block_tokens a"
    and "n * block_tokens a < len"
  shows "n < per_token_units a len"
proof -
  let ?b = "block_tokens a" and ?t = "tokens_per_entry p" and ?u = "units_per_entry p"
  let ?alloc = "div_ceil len ?b * ?b"
  have b: "0 < ?b" and t: "0 < ?t" using assms by (auto simp: accounting_ok_def list_all_iff)
  have "n * ?b < div_ceil len ?b * ?b"
    using le_mult_div_ceil [OF b, of len] assms(4) by linarith
  then have "Suc n \<le> div_ceil len ?b" using b by simp
  then have "Suc n * ?b \<le> ?alloc" by (rule mult_le_mono1)
  also have "?alloc \<le> div_ceil ?alloc ?t * ?t" by (rule le_mult_div_ceil [OF t])
  also have "\<dots> \<le> div_ceil ?alloc ?t * (?u * ?b)" by (intro mult_le_mono2 assms(3))
  finally have "Suc n * ?b \<le> (?u * div_ceil ?alloc ?t) * ?b" by (simp only: ac_simps)
  then have "Suc n \<le> ?u * div_ceil ?alloc ?t" using b by (simp only: mult_le_cancel2)
  also have "\<dots> \<le> sum_list (map (\<lambda>p. units_per_entry p * div_ceil ?alloc (tokens_per_entry p))
      (per_token a))"
    by (rule sum_list_member_le [OF assms(2), of "\<lambda>p. units_per_entry p * div_ceil ?alloc (tokens_per_entry p)"])
  finally have "Suc n \<le> per_token_units a len"
    using assms(4) by (auto simp: per_token_units_def Let_def)
  then show ?thesis by simp
qed

text \<open>\<open>tokens_fitting\<close> is the longest context whose running charge fits, for every layout
  with a per-token part that charges at least one unit per engine block; on such a layout the search
  bound \<open>units * block_tokens\<close> is never too low. (0 when not even one token fits.)\<close>

theorem tokens_fitting_longest:
  assumes "accounting_ok a" and "units * block_tokens a \<le> u64_max"
    and "list_ex (\<lambda>p. tokens_per_entry p \<le> units_per_entry p * block_tokens a) (per_token a)"
  shows "tokens_fitting a units = Max (insert 0 {len. held_while_running a len 1 \<le> units})"
proof -
  let ?fits = "\<lambda>len. held_while_running a len 1 \<le> units"
  let ?high = "max (units * block_tokens a) 1"
  obtain p where p: "p \<in> set (per_token a)"
    "tokens_per_entry p \<le> units_per_entry p * block_tokens a"
    using assms(3) by (auto simp: list_ex_iff)
  have big: "len \<le> ?high" if "?fits len" for len
  proof (rule ccontr)
    assume "\<not> len \<le> ?high"
    then have "units * block_tokens a < len" by simp
    from per_token_units_lower [OF assms(1) p this] that show False
      by (simp add: held_general [OF assms(1)] general_charge_def)
  qed
  have mono: "?fits m" if "m \<le> n" "?fits n" for m n
    using held_mono [OF assms(1) that(1), of 1 1] that(2) by simp
  let ?r = "search_up ?fits 0 ?high"
  have r: "tokens_fitting a units = ?r"
    using assms(2) by (simp add: tokens_fitting_def saturating_mul_u64_def min_absorb1)
  have fin: "finite (insert 0 {len. ?fits len})"
    using big by (auto intro: finite_subset [of _ "{..?high}"])
  have mono': "\<forall>m n. m \<le> n \<and> n \<le> ?high \<and> 0 < m \<and> ?fits n \<longrightarrow> ?fits m"
    using mono by blast
  note spec = search_from_0 [of ?high ?fits, OF mono']
  have "?r \<in> insert 0 {len. ?fits len}" using spec(2) by blast
  moreover have "x \<le> ?r" if "x \<in> insert 0 {len. ?fits len}" for x
    using that spec(3) [of x] big [of x] by (cases "x \<le> ?r") auto
  ultimately have "Max (insert 0 {len. ?fits len}) = ?r" by (intro Max_eqI fin) auto
  then show ?thesis using r by simp
qed

lemma sample_unit: "layout_unit sample_layout Vllm = 100"
  by (simp add: layout_unit_def sample_layout_def layout_defs charged_bytes_per_entry_def
      gcd_loop.simps)

lemma sample_fields:
  "block_tokens sample_accounting = 16" "overhead sample_accounting = Vllm"
  "per_token sample_accounting = [\<lparr>units_per_entry = 1, tokens_per_entry = 1\<rparr>]"
  "windows sample_accounting =
     [\<lparr>units_per_token = 1, window_tokens = 64, window_reusable = True\<rparr>]"
  "state_units sample_accounting = 12" "reusable_state_units sample_accounting = 12"
  "capacity_units sample_accounting = 1000" "bytes_per_unit sample_accounting = 100"
  "linear_units_per_token sample_accounting = None" "resume_interval sample_accounting = Some 32"
  "resume_points sample_accounting = PromptAndResponseEnd"
  "max_in_flight_tokens sample_accounting = Some 32"
  using sample_unit
  by (simp_all add: sample_accounting_def resolved_def Let_def sample_options_def
      layout_block_tokens_def charge_parts_def charge_part_def charged_bytes_per_entry_def
      state_copies_def)
    (simp_all add: sample_layout_def layout_defs charge_part_def charged_bytes_per_entry_def
      state_copies_def)

theorem tokens_fitting_longest_witness:
  "tokens_fitting sample_accounting 100
     = Max (insert 0 {len. held_while_running sample_accounting len 1 \<le> 100})"
  by (rule tokens_fitting_longest [OF sample_ok]) (simp_all add: sample_fields u64_max_def)

text \<open>Plain token accounting, one unit per token.\<close>

definition token_accounting :: "nat \<Rightarrow> KvAccounting" where
  "token_accounting cap = resolved (with_part new_layout (per_token_part ''kv'' 1))
     \<lparr>opt_overhead = Vllm, opt_resume_points = None, opt_resume_interval = None,
      opt_max_in_flight_tokens = None, opt_prefix_caching = False\<rparr> cap"

lemma token_accounting_fields:
  "linear_units_per_token (token_accounting cap) = Some 1" "state_units (token_accounting cap) = 0"
  "capacity_units (token_accounting cap) = max cap 1" "\<not> sparse (token_accounting cap)"
  "block_tokens (token_accounting cap) = 1"
  by (simp_all add: token_accounting_def resolved_def Let_def charge_parts_def charge_part_def
      layout_defs charged_bytes_per_entry_def layout_unit_def gcd_loop.simps
      layout_block_tokens_def sparse_def)

lemma token_accounting_ok: "accounting_ok (token_accounting cap)"
proof -
  have "resolve (with_part new_layout (per_token_part ''kv'' 1))
     \<lparr>opt_overhead = Vllm, opt_resume_points = None, opt_resume_interval = None,
      opt_max_in_flight_tokens = None, opt_prefix_caching = False\<rparr> cap = Inr (token_accounting cap)"
    by (simp add: resolve_def token_accounting_def validate_def validate_part_def layout_defs)
  from resolve_facts [OF this] show ?thesis by (rule conjunct1)
qed

lemma token_accounting_held: "held_while_running (token_accounting cap) len step = len"
  by (simp add: held_while_running_def token_accounting_fields)

text \<open>The condition on the layout is needed. With one compressed part of four tokens per entry,
  32 tokens fit 8 units, but the search stops at its bound of 8 tokens.\<close>

definition compressed_accounting :: KvAccounting where
  "compressed_accounting = resolved (with_part new_layout (compressed ''c4'' 4 132))
     \<lparr>opt_overhead = Vllm, opt_resume_points = None, opt_resume_interval = None,
      opt_max_in_flight_tokens = None, opt_prefix_caching = False\<rparr> 1320"

lemma compressed_accounting_held:
  "held_while_running compressed_accounting len step = (if len = 0 then 0 else div_ceil len 4)"
  by (simp add: compressed_accounting_def resolved_def held_while_running_def per_token_units_def
      window_units_def charge_parts_def charge_part_def layout_defs charged_bytes_per_entry_def
      layout_unit_def gcd_loop.simps layout_block_tokens_def)

text \<open>C39: \<open>tokens_fitting\<close> does not reach the longest context on a layout whose only per-token
  part is compressed: its upper bound counts one token per unit and block. Eight units hold 32 tokens
  of a part with four tokens per entry, and the search returns 8.\<close>

theorem tokens_fitting_compressed_short:
  "held_while_running compressed_accounting 32 1 = 8 \<and> tokens_fitting compressed_accounting 8 = 8"
proof
  show "held_while_running compressed_accounting 32 1 = 8"
    by (simp add: compressed_accounting_held div_ceil_def)
  let ?fits = "\<lambda>len. held_while_running compressed_accounting len 1 \<le> 8"
  have blk: "block_tokens compressed_accounting = 1"
    by (simp add: compressed_accounting_def layout_block_tokens_def layout_defs)
  have all: "?fits len" if "len \<le> 8" for len
    using that div_ceil_least [of 4 len 8] by (simp add: compressed_accounting_held)
  then have "\<forall>m n. m \<le> n \<and> n \<le> 8 \<and> 0 < m \<and> ?fits n \<longrightarrow> ?fits m" by auto
  note spec = search_from_0 [OF this]
  have "search_up ?fits 0 8 = 8"
    using spec(1) spec(3) [of 8] all [of 8] by (metis le_neq_implies_less order_refl)
  then show "tokens_fitting compressed_accounting 8 = 8"
    by (simp add: tokens_fitting_def blk saturating_mul_u64_def u64_max_def)
qed

subsection \<open>Resume positions of a request\<close>

definition block_floor :: "KvAccounting \<Rightarrow> nat \<Rightarrow> nat" where
  "block_floor a tokens = tokens div block_tokens a * block_tokens a"

definition prompt_end_position :: "KvAccounting \<Rightarrow> nat \<Rightarrow> nat" where
  "prompt_end_position a prompt =
     block_floor a (case overhead a of Vllm \<Rightarrow> prompt - 1 | ModelOnly \<Rightarrow> prompt)"

lemma block_floor_dvd [simp]: "block_tokens a dvd block_floor a t"
  and block_floor_le: "block_floor a t \<le> t"
  by (simp_all add: block_floor_def)

lemma resume_positions_cases:
  "resume_positions a prompt ctx =
     (if \<not> sparse a then rp_series (block_tokens a) (block_floor a ctx)
      else (case resume_points a of
          PromptEnd \<Rightarrow> rp_new (Some (prompt_end_position a prompt), None) (resume_interval a) ctx
        | ResponseEnd \<Rightarrow> rp_new (Some (block_floor a ctx), None) (resume_interval a) ctx
        | PromptAndResponseEnd \<Rightarrow>
            rp_new (Some (prompt_end_position a prompt), Some (block_floor a ctx)) (resume_interval a) ctx
        | EveryBlock \<Rightarrow> rp_new (None, None) (Some (block_tokens a)) ctx))"
  by (simp add: resume_positions_def Let_def prompt_end_position_def block_floor_def
      split: PrefixResumePoints.split)

lemma resume_positions_wf:
  assumes "accounting_ok a"
  shows "wf_positions (resume_positions a prompt ctx)"
    and "rp_end (resume_positions a prompt ctx) \<le> ctx"
proof -
  have "0 < block_tokens a" "resume_interval a \<noteq> Some 0"
    using assms by (auto simp: accounting_ok_def split: option.splits)
  then show "wf_positions (resume_positions a prompt ctx)"
    by (auto simp: resume_positions_cases wf_positions_series positions_rp_new(2)
        split: PrefixResumePoints.split)
  show "rp_end (resume_positions a prompt ctx) \<le> ctx"
    using \<open>0 < block_tokens a\<close> \<open>resume_interval a \<noteq> Some 0\<close>
    by (auto simp: resume_positions_cases rp_series_def block_floor_le positions_rp_new(3)
        split: PrefixResumePoints.split)
qed

lemma resume_positions_eq:
  assumes "accounting_ok a"
  shows "positions (resume_positions a prompt ctx) =
    {t. 0 < t \<and> t \<le> ctx \<and> block_tokens a dvd t \<and>
      (\<not> sparse a \<or> resume_points a = EveryBlock
       \<or> t = prompt_end_position a prompt \<and> resume_points a \<in> {PromptEnd, PromptAndResponseEnd}
       \<or> t = block_floor a ctx \<and> resume_points a \<in> {ResponseEnd, PromptAndResponseEnd}
       \<or> (case resume_interval a of None \<Rightarrow> False | Some i \<Rightarrow> i dvd t))}"
proof -
  have b: "0 < block_tokens a" "resume_interval a \<noteq> Some 0"
    and i: "\<And>i. resume_interval a = Some i \<Longrightarrow> block_tokens a dvd i"
    using assms by (auto simp: accounting_ok_def split: option.splits)
  have le: "t \<le> block_floor a ctx" if "t \<le> ctx" "block_tokens a dvd t" for t
    using that unfolding block_floor_def by (metis div_le_mono dvd_div_mult_self mult_le_mono1)
  have pe: "block_tokens a dvd prompt_end_position a prompt"
    by (simp add: prompt_end_position_def)
  show ?thesis
  proof (cases "sparse a")
    case False
    then show ?thesis using le block_floor_le [of a ctx]
      by (fastforce simp: resume_positions_cases positions_series intro: order_trans)
  next
    case True
    have p: "positions (rp_new explicit every ctx) = {t. 0 < t \<and> t \<le> ctx \<and>
       (t \<in> set (flatten2 explicit) \<or> (\<exists>s. every = Some s \<and> s dvd t))}"
      if "every \<noteq> Some 0" for explicit every using that by (rule positions_rp_new)
    show ?thesis
    proof (cases "resume_points a")
      case EveryBlock
      then show ?thesis using True b by (auto simp: resume_positions_cases p)
    qed (use True b pe i in \<open>auto simp: resume_positions_cases p split: option.splits intro: dvd_trans\<close>)
  qed
qed

text \<open>the positions a finished request can be resumed at are exactly the block boundaries
  inside its context that its resume policy names: any boundary when only per-token parts are
  retained or the policy is every block, otherwise the end of its prompt, the end of its response or
  both, and every multiple of the resume interval.\<close>

theorem resume_positions_set:
  assumes "accounting_ok a"
  shows "positions (resume_positions a prompt ctx) =
    {t. 0 < t \<and> t \<le> ctx \<and> block_tokens a dvd t \<and>
      (\<not> sparse a \<or> resume_points a = EveryBlock
       \<or> t = prompt_end_position a prompt \<and> resume_points a \<in> {PromptEnd, PromptAndResponseEnd}
       \<or> t = block_floor a ctx \<and> resume_points a \<in> {ResponseEnd, PromptAndResponseEnd}
       \<or> (case resume_interval a of None \<Rightarrow> False | Some i \<Rightarrow> i dvd t))}"
  using assms by (rule resume_positions_eq)

theorem resume_positions_set_witness:
  "positions (resume_positions sample_accounting 100 150) =
    {t. 0 < t \<and> t \<le> 150 \<and> 16 dvd t \<and> (t = 96 \<or> t = 144 \<or> 32 dvd t)}"
proof -
  have "sparse sample_accounting" by (simp add: sparse_def sample_fields)
  with resume_positions_set [OF sample_ok, of 100 150] show ?thesis
    by (simp add: sample_fields block_floor_def prompt_end_position_def)
qed

subsection \<open>Retained entries\<close>

text \<open>What the sparse parts of a retained entry keep at a set \<open>P\<close> of positions: each reusable
  window's tail tokens once, and one recurrent state per position.\<close>

definition sparse_charge :: "KvAccounting \<Rightarrow> nat set \<Rightarrow> nat" where
  "sparse_charge a P =
     (if \<not> sparse a then 0 else
      sum_list (map (\<lambda>w. units_per_token w * card (covered_tokens (window_tokens w - 1) P))
        (filter window_reusable (windows a)))
      + reusable_state_units a * card P)"

lemma entry_charge_eq:
  "wf_positions p \<Longrightarrow>
     entry_charge a p = per_token_units a (rp_end p) + sparse_charge a (positions p)"
  by (simp add: entry_charge_def sparse_charge_def Let_def window_tail_union_card rp_count_card)

lemma sparse_charge_mono:
  assumes "finite Q" and "P \<subseteq> Q"
  shows "sparse_charge a P \<le> sparse_charge a Q"
proof (cases "sparse a")
  case True
  have "card (covered_tokens n P) \<le> card (covered_tokens n Q)" for n
    using assms by (intro card_mono covered_tokens_mono finite_covered_tokens)
  then have "sum_list (map (\<lambda>w. units_per_token w * card (covered_tokens (window_tokens w - 1) P))
        (filter window_reusable (windows a)))
      \<le> sum_list (map (\<lambda>w. units_per_token w * card (covered_tokens (window_tokens w - 1) Q))
        (filter window_reusable (windows a)))"
    by (intro sum_list_mono mult_le_mono2)
  moreover have "reusable_state_units a * card P \<le> reusable_state_units a * card Q"
    by (intro mult_le_mono2 card_mono assms)
  ultimately show ?thesis using True unfolding sparse_charge_def by (simp only: if_False not_True_eq_False add_mono)
next
  case False
  then show ?thesis by (simp add: sparse_charge_def)
qed

lemma entry_charge_truncated_mono:
  assumes "accounting_ok a" and "wf_positions p" and "m \<le> n"
  shows "entry_charge a (rp_truncated p m) \<le> entry_charge a (rp_truncated p n)"
  unfolding entry_charge_eq [OF wf_truncated [OF assms(2)]]
  using assms(3)
  by (intro add_mono per_token_units_mono [OF assms(1)] sparse_charge_mono)
    (auto simp: positions_truncated)

text \<open>a retained entry is charged its per-token parts up to its last position, and, where a
  reusable part does not grow per token, every context token under some window tail once and one
  recurrent state per distinct position.\<close>

theorem entry_charge_meaning:
  assumes "wf_positions p"
  shows "entry_charge a p = per_token_units a (rp_end p) + sparse_charge a (positions p)"
  using assms by (rule entry_charge_eq)

theorem entry_charge_meaning_witness:
  "entry_charge sample_accounting (resume_positions sample_accounting 100 150)
     = per_token_units sample_accounting (rp_end (resume_positions sample_accounting 100 150))
       + sparse_charge sample_accounting (positions (resume_positions sample_accounting 100 150))"
  by (rule entry_charge_meaning) (rule resume_positions_wf [OF sample_ok])

lemma checkpoint_units_eq:
  assumes "accounting_ok a"
  shows "checkpoint_units a prompt len =
    sparse_charge a {t \<in> positions (resume_positions a prompt len). t < len}"
proof (cases "len = 0")
  case True
  then show ?thesis by (simp add: checkpoint_units_def sparse_charge_def covered_tokens_def)
next
  case False
  then have "{t \<in> P. t \<le> len - 1} = {t \<in> P. t < len}" for P :: "nat set" by auto
  with False show ?thesis
    by (simp add: checkpoint_units_def Let_def positions_truncated
        entry_charge_eq [OF wf_truncated [OF resume_positions_wf(1) [OF assms]]])
      (simp add: sparse_charge_def)
qed

text \<open>the soft checkpoints of a running request are what the sparse parts keep at the
  positions it has passed, those strictly below its context; the subtraction of the per-token part is
  exact.\<close>

theorem checkpoint_units_meaning:
  assumes "accounting_ok a"
  shows "checkpoint_units a prompt len =
    sparse_charge a {t \<in> positions (resume_positions a prompt len). t < len}"
  using assms by (rule checkpoint_units_eq)

theorem checkpoint_units_meaning_witness:
  "checkpoint_units sample_accounting 100 150 =
    sparse_charge sample_accounting
      {t \<in> positions (resume_positions sample_accounting 100 150). t < 150}"
  by (rule checkpoint_units_meaning [OF sample_ok])

lemma entry_charge_cut_0: "wf_positions p \<Longrightarrow> entry_charge a (rp_truncated p 0) = 0"
proof -
  assume "wf_positions p"
  moreover have "positions (rp_truncated p 0) = {}" by (auto simp: positions_truncated positions_def)
  ultimately show ?thesis
    by (simp add: entry_charge_eq [OF wf_truncated] per_token_units_def sparse_charge_def
        covered_tokens_def)
qed

lemma rp_floor_mono: "wf_positions p \<Longrightarrow> m \<le> n \<Longrightarrow> rp_floor p m \<le> rp_floor p n"
  unfolding rp_floor_Max by (rule Max_mono) auto

lemma rp_floor_position: "wf_positions p \<Longrightarrow> q \<in> positions p \<Longrightarrow> rp_floor p q = q"
  unfolding rp_floor_Max by (rule Max_eqI) auto

lemma rp_floor_le: "wf_positions p \<Longrightarrow> rp_floor p n \<le> n"
  unfolding rp_floor_Max by (subst Max_le_iff) auto

lemma largest_fitting_facts:
  assumes "accounting_ok a" and "wf_positions p"
  shows "wf_positions (largest_fitting a p cap)"
    and "entry_charge a (largest_fitting a p cap) \<le> cap"
    and "positions (largest_fitting a p cap) =
      {q \<in> positions p. q \<le> rp_end (largest_fitting a p cap)}"
    and "q \<in> positions p \<Longrightarrow> rp_end (largest_fitting a p cap) < q \<Longrightarrow>
      cap < entry_charge a (rp_truncated p q)"
    and "rp_end (largest_fitting a p cap) \<le> rp_end p"
proof -
  let ?fits = "\<lambda>mid. entry_charge a (rp_truncated p (rp_floor p mid)) \<le> cap"
  let ?s = "search_up ?fits 0 (rp_end p)"
  let ?r = "rp_truncated p (rp_floor p ?s)"
  let ?l = "largest_fitting a p cap"
  have "\<forall>m n. m \<le> n \<and> n \<le> rp_end p \<and> 0 < m \<and> ?fits n \<longrightarrow> ?fits m"
    using entry_charge_truncated_mono [OF assms rp_floor_mono [OF assms(2)]] order_trans by blast
  note spec = search_from_0 [OF this]
  have fl0: "rp_floor p 0 = 0" using rp_floor_le [OF assms(2), of 0] by simp
  have fits: "?fits ?s"
    using spec(2) fl0 entry_charge_cut_0 [OF assms(2), of a] by (elim disjE) simp_all
  have l: "?l = (if entry_charge a p \<le> cap then p else ?r)"
    by (simp add: largest_fitting_def)
  show "wf_positions ?l" using assms(2) by (simp add: l wf_truncated)
  show "entry_charge a ?l \<le> cap" using fits by (simp add: l)
  show le: "rp_end ?l \<le> rp_end p" by (simp add: l)
  have fend: "rp_end ?r = rp_floor p ?s"
    using order_trans [OF rp_floor_le [OF assms(2)] spec(1)] by (simp add: min_absorb1)
  show "positions ?l = {q \<in> positions p. q \<le> rp_end ?l}"
    using positions_le_end [of _ p] fend by (auto simp: l positions_truncated)
  assume q: "q \<in> positions p" "rp_end ?l < q"
  then have nfit: "\<not> entry_charge a p \<le> cap" using positions_le_end [of q p] by (auto simp: l)
  then have "rp_floor p ?s < rp_floor p q"
    using q fend rp_floor_position [OF assms(2) q(1)] by (simp add: l del: rp_truncated_simps)
  then have "?s < q" using rp_floor_mono [OF assms(2), of q ?s] by (metis leD leI)
  with spec(3) [of q] positions_le_end [OF q(1)] rp_floor_position [OF assms(2) q(1)]
  show "cap < entry_charge a (rp_truncated p q)" by simp
qed

text \<open>\<open>largest_fitting\<close> cuts a retained prefix to the longest one that fits: its charge is
  within the capacity, it keeps every position up to its end and no other, and cutting at any later
  position would not fit.\<close>

theorem largest_fitting_is_largest:
  assumes "accounting_ok a" and "wf_positions p"
  shows "entry_charge a (largest_fitting a p cap) \<le> cap
    \<and> positions (largest_fitting a p cap) = {q \<in> positions p. q \<le> rp_end (largest_fitting a p cap)}
    \<and> {q \<in> positions p. rp_end (largest_fitting a p cap) < q
          \<and> entry_charge a (rp_truncated p q) \<le> cap} = {}"
proof (intro conjI)
  note facts = largest_fitting_facts [OF assms, where cap = cap]
  show "entry_charge a (largest_fitting a p cap) \<le> cap"
    "positions (largest_fitting a p cap) = {q \<in> positions p. q \<le> rp_end (largest_fitting a p cap)}"
    by (rule facts(2), rule facts(3))
  show "{q \<in> positions p. rp_end (largest_fitting a p cap) < q
          \<and> entry_charge a (rp_truncated p q) \<le> cap} = {}"
    using facts(4) leD by blast
qed

theorem largest_fitting_is_largest_witness:
  "entry_charge sample_accounting
     (largest_fitting sample_accounting (resume_positions sample_accounting 100 150) 220) \<le> 220"
  using largest_fitting_is_largest [OF sample_ok resume_positions_wf(1) [OF sample_ok]]
  by (rule conjunct1)

end
