(* ===== verification/Prefix_Cache.thy ===== *)
theory Prefix_Cache
  imports Kv_Accounting "HOL-Library.Product_Lexorder"
begin

section \<open>Retained session prefixes (\<open>worker/kv/shared/prefix_cache.rs\<close>)\<close>

text \<open>
  The evictable tier of one attention partition: one entry per session, a running total of
  the units and tokens they occupy, and the eviction order, a \<open>BTreeSet\<close> of keys modelled
  as a sorted list without duplicates. A subtraction that would go below zero and an
  eviction loop that would not end are \<open>None\<close>. \<open>prefix_ok\<close> is the invariant; under it every
  operation returns, and the totals, the order and the receipts are exact.
\<close>

subsection \<open>Configuration\<close>

datatype PrefixCachePolicy = Lru | Fifo | Lfu | LargestFirst

datatype PrefixCacheConfig =
  CacheDisabled | Opportunistic PrefixCachePolicy "nat option"

record PrefixCacheBudget =
  budget_max_retained_units :: nat
  budget_policy :: PrefixCachePolicy

definition disabled_budget :: PrefixCacheBudget where
  "disabled_budget = \<lparr>budget_max_retained_units = 0, budget_policy = Lru\<rparr>"

definition resolve_units :: "PrefixCacheConfig \<Rightarrow> KvAccounting \<Rightarrow> nat \<Rightarrow> PrefixCacheBudget" where
  "resolve_units cfg a num_attn_shards = (case cfg of
     CacheDisabled \<Rightarrow> disabled_budget
   | Opportunistic pol max_bytes \<Rightarrow>
       (let cap = capacity_units a;
            retained = min (case max_bytes of
              Some bytes \<Rightarrow> units_of_bytes a (saturating_mul_u64 bytes (max num_attn_shards 1))
            | None \<Rightarrow> cap) cap
        in \<lparr>budget_max_retained_units = retained, budget_policy = pol\<rparr>))"

definition cache_enabled :: "PrefixCacheConfig \<Rightarrow> bool" where
  "cache_enabled cfg = (case cfg of CacheDisabled \<Rightarrow> False | Opportunistic _ _ \<Rightarrow> True)"

subsection \<open>State\<close>

record PrefixEntry =
  pe_positions :: ResumePositions
  pe_charge :: nat
  insertion_sequence :: nat
  last_access_sequence :: nat
  pe_frequency :: nat

record ReturnMetadata =
  rm_insertion_sequence :: nat
  rm_frequency :: nat

datatype MutationKind =
  SameSessionReplacement | CapacityEviction | ReplacementPolicyEviction | Retain

record PrefixCacheMutation =
  mut_kind :: MutationKind
  mut_session :: nat
  entry_tokens_before :: nat
  entry_tokens_after :: nat
  cache_used_before :: nat
  cache_used_after :: nat

record TakeResult =
  hit_tokens :: nat
  full_hit_tokens :: nat
  take_entry_tokens :: nat
  take_used_before :: nat
  take_used_after :: nat
  return_metadata :: "ReturnMetadata option"

type_synonym eviction_key = "nat \<times> nat \<times> nat"

record PrefixCache =
  pcache_accounting :: KvAccounting
  max_retained_units :: nat
  used_units :: nat
  used_tokens :: nat
  pcache_policy :: PrefixCachePolicy
  entries :: "(nat \<times> PrefixEntry) list"
  eviction_order :: "eviction_key list"
  next_sequence :: nat

definition new_prefix_cache :: "KvAccounting \<Rightarrow> PrefixCacheBudget \<Rightarrow> PrefixCache" where
  "new_prefix_cache a b = \<lparr>pcache_accounting = a,
     max_retained_units = min (budget_max_retained_units b) (capacity_units a),
     used_units = 0, used_tokens = 0, pcache_policy = budget_policy b, entries = [],
     eviction_order = [], next_sequence = 0\<rparr>"

subsection \<open>Operations\<close>

definition peek :: "PrefixCache \<Rightarrow> nat \<Rightarrow> nat \<Rightarrow> nat" where
  "peek c session_id requested_tokens = (case map_of (entries c) session_id of
     Some e \<Rightarrow> as_u32 (rp_floor (pe_positions e) requested_tokens)
   | None \<Rightarrow> 0)"

definition eviction_key :: "PrefixCachePolicy \<Rightarrow> nat \<Rightarrow> PrefixEntry \<Rightarrow> eviction_key" where
  "eviction_key pol session_id e = (case pol of
     Lru \<Rightarrow> (last_access_sequence e, 0, session_id)
   | Fifo \<Rightarrow> (insertion_sequence e, 0, session_id)
   | Lfu \<Rightarrow> (pe_frequency e, insertion_sequence e, session_id)
   | LargestFirst \<Rightarrow> (u64_max - pe_charge e, insertion_sequence e, session_id))"

definition victim :: "PrefixCache \<Rightarrow> nat option" where
  "victim c = (case eviction_order c of [] \<Rightarrow> None | (_, _, session_id) # _ \<Rightarrow> Some session_id)"

definition remove_entry :: "PrefixCache \<Rightarrow> nat \<Rightarrow> (PrefixCache \<times> PrefixEntry option) option" where
  "remove_entry c session_id = (case map_of (entries c) session_id of
     None \<Rightarrow> Some (c, None)
   | Some e \<Rightarrow> do {
       units \<leftarrow> checked_sub (used_units c) (pe_charge e);
       tokens \<leftarrow> checked_sub (used_tokens c) (rp_end (pe_positions e));
       Some (c\<lparr>entries := AList.delete session_id (entries c),
               eviction_order := remove1 (eviction_key (pcache_policy c) session_id e)
                 (eviction_order c),
               used_units := units, used_tokens := tokens\<rparr>, Some e)
     })"

definition remove_with_receipt ::
  "PrefixCache \<Rightarrow> nat \<Rightarrow> MutationKind \<Rightarrow> (PrefixCache \<times> PrefixCacheMutation list) option" where
  "remove_with_receipt c session_id kind = do {
     (c', removed) \<leftarrow> remove_entry c session_id;
     Some (c', case removed of
       None \<Rightarrow> []
     | Some e \<Rightarrow> [\<lparr>mut_kind = kind, mut_session = session_id,
         entry_tokens_before = rp_end (pe_positions e), entry_tokens_after = 0,
         cache_used_before = used_tokens c, cache_used_after = used_tokens c'\<rparr>])
   }"

definition take_sequence :: "PrefixCache \<Rightarrow> PrefixCache \<times> nat" where
  "take_sequence c = (c\<lparr>next_sequence := saturating_add_u64 (next_sequence c) 1\<rparr>, next_sequence c)"

definition take_prefix :: "PrefixCache \<Rightarrow> nat \<Rightarrow> nat \<Rightarrow> (PrefixCache \<times> TakeResult) option" where
  "take_prefix c session_id requested_tokens = do {
     let hit = peek c session_id requested_tokens;
     (c', removed) \<leftarrow> remove_entry c session_id;
     let entry_tokens = (case removed of Some e \<Rightarrow> rp_end (pe_positions e) | None \<Rightarrow> 0);
     Some (c', \<lparr>hit_tokens = hit,
       full_hit_tokens = as_u32 (min entry_tokens requested_tokens),
       take_entry_tokens = entry_tokens,
       take_used_before = used_tokens c, take_used_after = used_tokens c',
       return_metadata = map_option (\<lambda>e. \<lparr>rm_insertion_sequence = insertion_sequence e,
         rm_frequency = saturating_add_u64 (pe_frequency e) 1\<rparr>) removed\<rparr>)
   }"

text \<open>The loop of \<open>shrink_to\<close> and of \<open>insert\<close>: evict victims while \<open>over\<close> holds. It is a
  partial function: that it ends is a theorem about caches that satisfy the invariant.\<close>

partial_function (option) evict_while ::
  "(PrefixCache \<Rightarrow> bool) \<Rightarrow> MutationKind \<Rightarrow> PrefixCache \<Rightarrow> PrefixCacheMutation list \<Rightarrow>
     (PrefixCache \<times> PrefixCacheMutation list) option" where
  "evict_while over kind c ms =
     (if \<not> over c then Some (c, ms) else
      (case victim c of
        None \<Rightarrow> Some (c, ms)
      | Some v \<Rightarrow> Option.bind (remove_with_receipt c v kind)
          (\<lambda>(c', m). evict_while over kind c' (ms @ m))))"

definition shrink_to :: "PrefixCache \<Rightarrow> nat \<Rightarrow> (PrefixCache \<times> PrefixCacheMutation list) option" where
  "shrink_to c physical_limit =
     (let cap = min (max_retained_units c) physical_limit
      in evict_while (\<lambda>c. used_units c > cap) CapacityEviction c [])"

definition add_entry :: "PrefixCache \<Rightarrow> nat \<Rightarrow> ResumePositions \<Rightarrow> nat \<Rightarrow> ReturnMetadata option \<Rightarrow>
    PrefixCache \<times> PrefixCacheMutation" where
  "add_entry c session_id p charge meta =
     (let (c1, sequence) = take_sequence c;
          e = \<lparr>pe_positions = p, pe_charge = charge,
               insertion_sequence = (case meta of Some m \<Rightarrow> rm_insertion_sequence m
                 | None \<Rightarrow> sequence),
               last_access_sequence = sequence,
               pe_frequency = (case meta of Some m \<Rightarrow> rm_frequency m | None \<Rightarrow> 0)\<rparr>;
          c2 = c1\<lparr>eviction_order := insort_insert (eviction_key (pcache_policy c1) session_id e)
                   (eviction_order c1),
                 entries := AList.update session_id e (entries c1),
                 used_units := used_units c1 + charge,
                 used_tokens := used_tokens c1 + rp_end p\<rparr>
      in (c2, \<lparr>mut_kind = Retain, mut_session = session_id, entry_tokens_before = 0,
               entry_tokens_after = rp_end p, cache_used_before = used_tokens c,
               cache_used_after = used_tokens c2\<rparr>))"

definition insert_prefix ::
  "PrefixCache \<Rightarrow> nat \<Rightarrow> nat \<Rightarrow> nat \<Rightarrow> nat \<Rightarrow> ReturnMetadata option \<Rightarrow>
     (PrefixCache \<times> PrefixCacheMutation list \<times> nat) option" where
  "insert_prefix c session_id prompt_tokens context_tokens physical_limit meta = do {
     (c1, m1) \<leftarrow> remove_with_receipt c session_id SameSessionReplacement;
     let cap = min (max_retained_units c1) physical_limit;
     (c2, m2) \<leftarrow> shrink_to c1 cap;
     let p = largest_fitting (pcache_accounting c2)
               (resume_positions (pcache_accounting c2) prompt_tokens context_tokens) cap;
     if rp_end p = 0 then Some (c2, m1 @ m2, 0)
     else do {
       let charge = entry_charge (pcache_accounting c2) p;
       (c3, m3) \<leftarrow> evict_while (\<lambda>c. saturating_add_u64 (used_units c) charge > cap)
                    ReplacementPolicyEviction c2 (m1 @ m2);
       let (c4, m4) = add_entry c3 session_id p charge meta;
       Some (c4, m3 @ [m4], rp_end p)
     }
   }"

subsection \<open>The invariant\<close>

definition entry_ok :: "KvAccounting \<Rightarrow> PrefixEntry \<Rightarrow> bool" where
  "entry_ok a e \<longleftrightarrow> wf_positions (pe_positions e) \<and> 0 < rp_end (pe_positions e)
     \<and> pe_charge e = entry_charge a (pe_positions e)"

definition prefix_ok :: "PrefixCache \<Rightarrow> bool" where
  "prefix_ok c \<longleftrightarrow> accounting_ok (pcache_accounting c)
     \<and> distinct (map fst (entries c))
     \<and> (\<forall>(s, e) \<in> set (entries c). entry_ok (pcache_accounting c) e)
     \<and> sorted (eviction_order c) \<and> distinct (eviction_order c)
     \<and> set (eviction_order c) = (\<lambda>(s, e). eviction_key (pcache_policy c) s e) ` set (entries c)
     \<and> used_units c = alist_sum (\<lambda>_. pe_charge) (entries c)
     \<and> used_tokens c = alist_sum (\<lambda>_ e. rp_end (pe_positions e)) (entries c)
     \<and> used_units c \<le> max_retained_units c \<and> max_retained_units c < u64_max"

lemma new_prefix_ok:
  "accounting_ok a \<Longrightarrow> capacity_units a < u64_max \<Longrightarrow> prefix_ok (new_prefix_cache a b)"
  by (simp add: prefix_ok_def new_prefix_cache_def)

lemma eviction_key_session [simp]: "snd (snd (eviction_key pol s e)) = s"
  by (simp add: eviction_key_def split: PrefixCachePolicy.split)

lemma eviction_key_inj: "eviction_key pol s e = eviction_key pol s' e' \<Longrightarrow> s = s'"
  by (metis eviction_key_session)

text \<open>The cache without one session, as the invariant determines it.\<close>

definition removed :: "PrefixCache \<Rightarrow> nat \<Rightarrow> PrefixCache" where
  "removed c s = c\<lparr>entries := AList.delete s (entries c),
     eviction_order := filter (\<lambda>k. snd (snd k) \<noteq> s) (eviction_order c),
     used_units := alist_sum (\<lambda>_. pe_charge) (AList.delete s (entries c)),
     used_tokens := alist_sum (\<lambda>_ e. rp_end (pe_positions e)) (AList.delete s (entries c))\<rparr>"

lemma removed_simps [simp]:
  "entries (removed c s) = AList.delete s (entries c)"
  "eviction_order (removed c s) = filter (\<lambda>k. snd (snd k) \<noteq> s) (eviction_order c)"
  "used_units (removed c s) = alist_sum (\<lambda>_. pe_charge) (AList.delete s (entries c))"
  "used_tokens (removed c s) =
     alist_sum (\<lambda>_ e. rp_end (pe_positions e)) (AList.delete s (entries c))"
  "pcache_accounting (removed c s) = pcache_accounting c"
  "max_retained_units (removed c s) = max_retained_units c"
  "pcache_policy (removed c s) = pcache_policy c" "next_sequence (removed c s) = next_sequence c"
  by (simp_all add: removed_def)

lemma alist_sum_delete_le: "distinct (map fst al) \<Longrightarrow> alist_sum f (AList.delete k al) \<le> alist_sum f al"
  using alist_sum_delete [of al k] alist_delete_absent [of al k]
  by (cases "map_of al k") (auto, metis le_add1)

lemma removed_ok:
  assumes "prefix_ok c"
  shows "prefix_ok (removed c s)"
proof -
  have "alist_sum (\<lambda>_. pe_charge) (AList.delete s (entries c)) \<le> max_retained_units c"
    using assms alist_sum_delete_le [of "entries c" "\<lambda>_. pe_charge" s]
    unfolding prefix_ok_def by linarith
  moreover have "{k \<in> (\<lambda>(s, e). eviction_key (pcache_policy c) s e) ` set (entries c). snd (snd k) \<noteq> s}
      = (\<lambda>(s, e). eviction_key (pcache_policy c) s e) ` {p \<in> set (entries c). fst p \<noteq> s}"
    by force
  moreover have "set (AList.delete s (entries c)) = {p \<in> set (entries c). fst p \<noteq> s}"
    by (auto simp: AList.delete_eq)
  ultimately show ?thesis using assms
    by (auto simp: prefix_ok_def sorted_filter [of "\<lambda>x. x", simplified] split: prod.splits)
qed

lemma order_session_iff:
  assumes "prefix_ok c"
  shows "s \<in> (\<lambda>k. snd (snd k)) ` set (eviction_order c) \<longleftrightarrow> map_of (entries c) s \<noteq> None"
  using assms unfolding prefix_ok_def
  by (auto simp: image_image split_beta map_of_eq_None_iff)

lemma removed_absent:
  assumes "prefix_ok c" and "map_of (entries c) s = None"
  shows "removed c s = c"
proof -
  have "filter (\<lambda>k. snd (snd k) \<noteq> s) (eviction_order c) = eviction_order c"
    using order_session_iff [OF assms(1), of s] assms(2) by (auto simp: filter_id_conv)
  then show ?thesis using assms alist_delete_absent [OF assms(2)]
    by (simp add: removed_def prefix_ok_def)
qed

lemma remove_entry_ok:
  assumes "prefix_ok c"
  shows "remove_entry c s = Some (removed c s, map_of (entries c) s)"
proof (cases "map_of (entries c) s")
  case None
  then show ?thesis by (simp add: remove_entry_def removed_absent [OF assms])
next
  case (Some e)
  let ?k = "eviction_key (pcache_policy c) s e"
  have d: "distinct (map fst (entries c))" using assms by (simp add: prefix_ok_def)
  have "(s, e) \<in> set (entries c)" using Some by (rule map_of_SomeD)
  have "k = ?k" if "k \<in> set (eviction_order c)" "snd (snd k) = s" for k
  proof -
    have "k \<in> (\<lambda>(s, e). eviction_key (pcache_policy c) s e) ` set (entries c)"
      using that(1) assms unfolding prefix_ok_def by metis
    then obtain s' e' where k: "k = eviction_key (pcache_policy c) s' e'" "(s', e') \<in> set (entries c)"
      by auto
    with that(2) have "s' = s" by simp
    with k(2) \<open>(s, e) \<in> set (entries c)\<close> d have "e' = e" by (metis map_of_is_SomeI option.inject)
    with k \<open>s' = s\<close> show ?thesis by simp
  qed
  then have "(k \<noteq> ?k) = (snd (snd k) \<noteq> s)" if "k \<in> set (eviction_order c)" for k
    using that by (metis eviction_key_session)
  then have "filter (\<lambda>k. k \<noteq> ?k) (eviction_order c)
      = filter (\<lambda>k. snd (snd k) \<noteq> s) (eviction_order c)" by (intro filter_cong refl)
  moreover have "distinct (eviction_order c)" using assms by (simp add: prefix_ok_def)
  ultimately have "remove1 ?k (eviction_order c) = filter (\<lambda>k. snd (snd k) \<noteq> s) (eviction_order c)"
    by (simp add: distinct_remove1_removeAll removeAll_filter_not_eq eq_commute)
  moreover note alist_sum_delete [OF Some d, of "\<lambda>_. pe_charge"]
    alist_sum_delete [OF Some d, of "\<lambda>_ e. rp_end (pe_positions e)"]
  ultimately show ?thesis using Some assms
    by (simp add: remove_entry_def removed_def prefix_ok_def)
qed

definition removal_receipt :: "PrefixCache \<Rightarrow> nat \<Rightarrow> MutationKind \<Rightarrow> PrefixCacheMutation list" where
  "removal_receipt c s kind = (case map_of (entries c) s of None \<Rightarrow> []
     | Some e \<Rightarrow> [\<lparr>mut_kind = kind, mut_session = s,
         entry_tokens_before = rp_end (pe_positions e), entry_tokens_after = 0,
         cache_used_before = used_tokens c, cache_used_after = used_tokens (removed c s)\<rparr>])"

lemma remove_with_receipt_ok:
  "prefix_ok c \<Longrightarrow>
     remove_with_receipt c s kind = Some (removed c s, removal_receipt c s kind)"
  by (simp add: remove_with_receipt_def remove_entry_ok removal_receipt_def)

subsection \<open>Eviction\<close>

text \<open>The cache after \<open>n\<close> evictions.\<close>

primrec evictions :: "nat \<Rightarrow> PrefixCache \<Rightarrow> PrefixCache" where
  "evictions 0 c = c"
| "evictions (Suc n) c = (case victim c of None \<Rightarrow> c | Some v \<Rightarrow> evictions n (removed c v))"

lemma order_empty_iff: "prefix_ok c \<Longrightarrow> eviction_order c = [] \<longleftrightarrow> entries c = []"
  unfolding prefix_ok_def by (metis image_is_empty set_empty)

lemma victim_None: "prefix_ok c \<Longrightarrow> victim c = None \<longleftrightarrow> entries c = []"
  by (simp add: victim_def order_empty_iff [symmetric] split: list.split)

lemma order_sessions_distinct:
  assumes "prefix_ok c"
  shows "distinct (map (\<lambda>k. snd (snd k)) (eviction_order c))"
proof -
  have "inj_on (\<lambda>k. snd (snd k)) (set (eviction_order c))"
  proof (rule inj_onI)
    fix x y assume xy: "x \<in> set (eviction_order c)" "y \<in> set (eviction_order c)"
      and eq: "snd (snd x) = snd (snd y)"
    have set: "set (eviction_order c) = (\<lambda>(s, e). eviction_key (pcache_policy c) s e) ` set (entries c)"
      and d: "distinct (map fst (entries c))"
      using assms by (simp_all add: prefix_ok_def)
    obtain s e s' e' where x: "x = eviction_key (pcache_policy c) s e" "(s, e) \<in> set (entries c)"
      and y: "y = eviction_key (pcache_policy c) s' e'" "(s', e') \<in> set (entries c)"
      using xy unfolding set by auto
    then have "s = s'" using eq by simp
    with x y d have "e = e'" by (metis map_of_is_SomeI option.inject)
    with x y \<open>s = s'\<close> show "x = y" by simp
  qed
  with assms show ?thesis by (simp add: distinct_map prefix_ok_def)
qed

lemma victim_SomeD:
  assumes "prefix_ok c" and "victim c = Some v"
  shows "eviction_order (removed c v) = tl (eviction_order c)"
    and "length (entries (removed c v)) < length (entries c)"
    and "map_of (entries c) v \<noteq> None" and "eviction_order c \<noteq> []"
    and "v = snd (snd (hd (eviction_order c)))"
proof -
  obtain k ks where o1: "eviction_order c = k # ks" and v: "v = snd (snd k)"
    using assms(2) by (auto simp: victim_def split: list.splits prod.splits)
  then have "v \<notin> (\<lambda>k. snd (snd k)) ` set ks"
    using order_sessions_distinct [OF assms(1)] by simp
  then have "\<forall>x \<in> set ks. snd (snd x) \<noteq> v" by (metis image_eqI)
  then show "eviction_order (removed c v) = tl (eviction_order c)"
    using o1 v by (simp add: filter_id_conv)
  have "v \<in> (\<lambda>k. snd (snd k)) ` set (eviction_order c)" using o1 v by simp
  then show some: "map_of (entries c) v \<noteq> None" using order_session_iff [OF assms(1)] by blast
  then show "length (entries (removed c v)) < length (entries c)"
    by (auto simp: length_delete_less)
  show "eviction_order c \<noteq> []" "v = snd (snd (hd (eviction_order c)))" using o1 v by simp_all
qed

lemma evictions_ok: "prefix_ok c \<Longrightarrow> prefix_ok (evictions n c)"
  by (induction n arbitrary: c) (auto simp: removed_ok split: option.split)

lemma evictions_order:
  "prefix_ok c \<Longrightarrow> eviction_order (evictions n c) = drop n (eviction_order c)"
proof (induction n arbitrary: c)
  case (Suc n)
  show ?case
  proof (cases "victim c")
    case None
    then have "eviction_order c = []" by (simp add: victim_def split: list.splits prod.splits)
    with None show ?thesis by simp
  next
    case (Some v)
    from Some Suc.IH [OF removed_ok [OF Suc.prems], of v] victim_SomeD(1) [OF Suc.prems Some]
    show ?thesis by (simp add: drop_Suc)
  qed
qed simp

lemma evictions_fields [simp]:
  "pcache_accounting (evictions n c) = pcache_accounting c"
  "max_retained_units (evictions n c) = max_retained_units c"
  "pcache_policy (evictions n c) = pcache_policy c" "next_sequence (evictions n c) = next_sequence c"
  by (induction n arbitrary: c; auto split: option.split)+

lemma evictions_entry:
  "prefix_ok c \<Longrightarrow> map_of (entries (evictions n c)) s \<noteq> None \<Longrightarrow>
     map_of (entries (evictions n c)) s = map_of (entries c) s"
proof (induction n arbitrary: c)
  case (Suc n)
  then show ?case using removed_ok [OF Suc.prems(1)]
    by (fastforce split: option.splits if_splits)
qed simp

text \<open>The receipts chain: each starts at the occupancy the previous one ended at, and moves it by
  exactly the entry's tokens.\<close>

fun receipts_chain :: "nat \<Rightarrow> PrefixCacheMutation list \<Rightarrow> nat \<Rightarrow> bool" where
  "receipts_chain u [] u' \<longleftrightarrow> u = u'"
| "receipts_chain u (m # ms) u' \<longleftrightarrow> cache_used_before m = u
     \<and> cache_used_after m + entry_tokens_before m = u + entry_tokens_after m
     \<and> receipts_chain (cache_used_after m) ms u'"

lemma receipts_chain_append:
  "receipts_chain u ms v \<Longrightarrow> receipts_chain v ms' w \<Longrightarrow> receipts_chain u (ms @ ms') w"
  by (induction ms arbitrary: u) auto

lemma removal_receipt_chain:
  assumes "prefix_ok c"
  shows "receipts_chain (used_tokens c) (removal_receipt c s kind) (used_tokens (removed c s))"
proof (cases "map_of (entries c) s")
  case None
  with assms show ?thesis by (simp add: removal_receipt_def removed_absent)
next
  case (Some e)
  with alist_sum_delete [of "entries c" s e "\<lambda>_ e. rp_end (pe_positions e)"] assms show ?thesis
    by (simp add: removal_receipt_def prefix_ok_def)
qed

text \<open>What the eviction loop does under the invariant: it returns, after the least number of
  evictions for which \<open>over\<close> no longer holds or none is left to evict.\<close>

lemma evict_while_ok:
  assumes "prefix_ok c"
  shows "\<exists>n ms. evict_while over kind c ms0 = Some (evictions n c, ms0 @ ms)
    \<and> n \<le> length (eviction_order c)
    \<and> (\<forall>i < n. over (evictions i c))
    \<and> (over (evictions n c) \<longrightarrow> entries (evictions n c) = [])
    \<and> receipts_chain (used_tokens c) ms (used_tokens (evictions n c))
    \<and> list_all (\<lambda>m. mut_kind m = kind \<and> entry_tokens_after m = 0) ms"
  using assms
proof (induction "length (entries c)" arbitrary: c ms0 rule: less_induct)
  case less
  show ?case
  proof (cases "over c \<and> victim c \<noteq> None")
    case False
    then have "evict_while over kind c ms0 = Some (evictions 0 c, ms0 @ [])"
      by (subst evict_while.simps) auto
    moreover have "over c \<longrightarrow> entries c = []"
      using False victim_None [OF less.prems] by auto
    ultimately show ?thesis by (intro exI [of _ 0] exI [of _ "[]"]) simp
  next
    case True
    then obtain v where v: "victim c = Some v" and over: "over c" by auto
    note vf = victim_SomeD [OF less.prems v]
    have ok: "prefix_ok (removed c v)" by (rule removed_ok [OF less.prems])
    let ?m = "removal_receipt c v kind"
    obtain n ms where n: "evict_while over kind (removed c v) (ms0 @ ?m)
        = Some (evictions n (removed c v), (ms0 @ ?m) @ ms)"
      "n \<le> length (eviction_order (removed c v))" "\<forall>i < n. over (evictions i (removed c v))"
      "over (evictions n (removed c v)) \<longrightarrow> entries (evictions n (removed c v)) = []"
      "receipts_chain (used_tokens (removed c v)) ms (used_tokens (evictions n (removed c v)))"
      "list_all (\<lambda>m. mut_kind m = kind \<and> entry_tokens_after m = 0) ms"
      using less.hyps [OF vf(2) ok, of "ms0 @ ?m"] by blast
    have "evict_while over kind c ms0 = Some (evictions (Suc n) c, ms0 @ (?m @ ms))"
      by (subst evict_while.simps) (simp add: over v remove_with_receipt_ok [OF less.prems] n(1))
    moreover have "Suc n \<le> length (eviction_order c)"
      using n(2) vf(1,4) by (cases "eviction_order c") auto
    moreover have "\<forall>i < Suc n. over (evictions i c)"
      using n(3) over v by (auto simp: less_Suc_eq_0_disj)
    moreover have "receipts_chain (used_tokens c) (?m @ ms) (used_tokens (evictions (Suc n) c))"
      using receipts_chain_append [OF removal_receipt_chain [OF less.prems, of v kind] n(5)] v by simp
    moreover have "list_all (\<lambda>m. mut_kind m = kind \<and> entry_tokens_after m = 0) (?m @ ms)"
      using n(6) by (simp add: removal_receipt_def split: option.split)
    moreover have "over (evictions (Suc n) c) \<longrightarrow> entries (evictions (Suc n) c) = []"
      using n(4) v by simp
    ultimately show ?thesis by blast
  qed
qed

lemma entry_charge_le_used:
  assumes "prefix_ok c" and "(s, e) \<in> set (entries c)"
  shows "pe_charge e \<le> used_units c"
proof -
  have "map_of (entries c) s = Some e"
    using assms by (intro map_of_is_SomeI) (simp_all add: prefix_ok_def)
  from alist_sum_mem [OF this, of "\<lambda>_. pe_charge"] assms(1) show ?thesis
    by (simp add: prefix_ok_def)
qed

lemma victim_key_least:
  assumes "prefix_ok c" and "victim c = Some v" and "map_of (entries c) v = Some e"
    and "(s, e') \<in> set (entries c)"
  shows "eviction_key (pcache_policy c) v e \<le> eviction_key (pcache_policy c) s e'"
proof -
  let ?k = "eviction_key (pcache_policy c)"
  have set: "set (eviction_order c) = (\<lambda>(s, e). ?k s e) ` set (entries c)"
    and srt: "sorted (eviction_order c)" and d: "distinct (map fst (entries c))"
    using assms(1) by (simp_all add: prefix_ok_def)
  have "(v, e) \<in> set (entries c)" using assms(3) by (rule map_of_SomeD)
  note vf = victim_SomeD(4,5) [OF assms(1,2)]
  have hd: "hd (eviction_order c) \<in> (\<lambda>(s, e). ?k s e) ` set (entries c)"
    using vf(1) by (simp only: set [symmetric]) simp
  then obtain w f where w: "hd (eviction_order c) = ?k w f" "(w, f) \<in> set (entries c)" by auto
  then have "w = v" using vf(2) by simp
  then have "f = e" using w(2) assms(3) d by (metis map_of_is_SomeI option.inject)
  have "?k s e' \<in> set (eviction_order c)" using assms(4) unfolding set by force
  then have "hd (eviction_order c) \<le> ?k s e'"
    using srt vf(1) by (cases "eviction_order c") auto
  then show ?thesis using w(1) \<open>w = v\<close> \<open>f = e\<close> by simp
qed

definition evicted_before :: "PrefixCachePolicy \<Rightarrow> PrefixEntry \<Rightarrow> PrefixEntry \<Rightarrow> bool" where
  "evicted_before pol e e' = (case pol of
     Lru \<Rightarrow> last_access_sequence e \<le> last_access_sequence e'
   | Fifo \<Rightarrow> insertion_sequence e \<le> insertion_sequence e'
   | Lfu \<Rightarrow> pe_frequency e < pe_frequency e'
       \<or> pe_frequency e = pe_frequency e' \<and> insertion_sequence e \<le> insertion_sequence e'
   | LargestFirst \<Rightarrow> pe_charge e' < pe_charge e
       \<or> pe_charge e = pe_charge e' \<and> insertion_sequence e \<le> insertion_sequence e')"

text \<open>the victim an eviction picks is the one the configured policy names: the least recently
  used, the oldest, the least frequently consumed or the largest entry, with age as the tie-break of
  the last two. In particular \<open>u64::MAX - charge\<close> sorts a larger entry earlier.\<close>

theorem victim_by_policy:
  assumes "prefix_ok c" and "victim c = Some v" and "map_of (entries c) v = Some e"
  shows "list_all (\<lambda>(s, e'). evicted_before (pcache_policy c) e e') (entries c)"
proof -
  have "evicted_before (pcache_policy c) e e'" if se: "(s, e') \<in> set (entries c)" for s e'
  proof -
    have "pe_charge e < u64_max" "pe_charge e' < u64_max"
      using entry_charge_le_used [OF assms(1) map_of_SomeD [OF assms(3)]]
        entry_charge_le_used [OF assms(1) se] assms(1) by (auto simp: prefix_ok_def)
    with victim_key_least [OF assms se] show ?thesis
      by (auto simp: eviction_key_def evicted_before_def less_eq_prod_def
          split: PrefixCachePolicy.splits)
  qed
  then show ?thesis by (auto simp: list_all_iff)
qed

lemma shrink_to_ok:
  assumes "prefix_ok c"
  shows "\<exists>n ms. shrink_to c limit = Some (evictions n c, ms)
    \<and> prefix_ok (evictions n c) \<and> eviction_order (evictions n c) = drop n (eviction_order c)
    \<and> used_units (evictions n c) \<le> min (max_retained_units c) limit
    \<and> (\<forall>i < n. min (max_retained_units c) limit < used_units (evictions i c))
    \<and> receipts_chain (used_tokens c) ms (used_tokens (evictions n c))"
proof -
  let ?cap = "min (max_retained_units c) limit"
  obtain n ms where n: "evict_while (\<lambda>c. used_units c > ?cap) CapacityEviction c []
      = Some (evictions n c, ms)"
    "\<forall>i < n. used_units (evictions i c) > ?cap"
    "used_units (evictions n c) > ?cap \<longrightarrow> entries (evictions n c) = []"
    "receipts_chain (used_tokens c) ms (used_tokens (evictions n c))"
    using evict_while_ok [OF assms, of "\<lambda>c. used_units c > ?cap" CapacityEviction "[]"] by auto
  have "used_units (evictions n c) \<le> ?cap"
    using n(3) evictions_ok [OF assms, of n] by (cases "used_units (evictions n c) > ?cap")
      (auto simp: prefix_ok_def)
  then show ?thesis using n evictions_ok [OF assms] evictions_order [OF assms]
    by (auto simp: shrink_to_def)
qed

text \<open>\<open>shrink_to\<close> returns, keeps the invariant, and evicts a policy-order prefix of the
  sessions that is exactly long enough: the occupancy ends within the smaller of the retention ceiling
  and the physical limit, while it exceeded that limit before each eviction. Its receipts chain from
  the old to the new token occupancy.\<close>

theorem shrink_evicts_least:
  assumes "prefix_ok c"
  shows "\<exists>n ms. shrink_to c limit = Some (evictions n c, ms)
    \<and> prefix_ok (evictions n c) \<and> eviction_order (evictions n c) = drop n (eviction_order c)
    \<and> used_units (evictions n c) \<le> min (max_retained_units c) limit
    \<and> (\<forall>i < n. min (max_retained_units c) limit < used_units (evictions i c))
    \<and> receipts_chain (used_tokens c) ms (used_tokens (evictions n c))"
  using assms by (rule shrink_to_ok)

subsection \<open>Taking a prefix\<close>

lemma take_prefix_ok:
  assumes "prefix_ok c"
  shows "\<exists>r. take_prefix c s n = Some (removed c s, r) \<and> hit_tokens r = peek c s n
    \<and> take_used_before r = used_tokens c \<and> take_used_after r = used_tokens (removed c s)
    \<and> return_metadata r = map_option (\<lambda>e. \<lparr>rm_insertion_sequence = insertion_sequence e,
         rm_frequency = saturating_add_u64 (pe_frequency e) 1\<rparr>) (map_of (entries c) s)
    \<and> take_entry_tokens r = (case map_of (entries c) s of None \<Rightarrow> 0
        | Some e \<Rightarrow> rp_end (pe_positions e))"
  by (simp add: take_prefix_def remove_entry_ok [OF assms] Let_def split: option.split)

lemma peek_eq_Max:
  assumes "prefix_ok c" and "map_of (entries c) s = Some e" and "n \<le> u32_max"
  shows "peek c s n = Max (insert 0 {q \<in> positions (pe_positions e). q \<le> n})"
proof -
  have "wf_positions (pe_positions e)"
    using assms(1) map_of_SomeD [OF assms(2)] by (auto simp: prefix_ok_def entry_ok_def)
  moreover from this have "rp_floor (pe_positions e) n \<le> u32_max"
    using rp_floor_le [of "pe_positions e" n] assms(3) by linarith
  ultimately show ?thesis using assms(2) by (simp add: peek_def rp_floor_Max)
qed

text \<open>a lookup is destructive and exact: \<open>take\<close> returns, its hit is what \<open>peek\<close> previewed,
  the largest resume position the declared prefix reaches, at most the hit an entry resumable anywhere
  would give; the session's entry is gone, so a second lookup misses, every other session keeps its
  entry, and the invariant holds.\<close>

theorem take_moves_ownership:
  assumes "prefix_ok c" and "n \<le> u32_max" and "map_of (entries c) s = Some e"
  shows "\<exists>c' r. take_prefix c s n = Some (c', r) \<and> prefix_ok c'
    \<and> hit_tokens r = Max (insert 0 {q \<in> positions (pe_positions e). q \<le> n})
    \<and> hit_tokens r \<le> full_hit_tokens r \<and> full_hit_tokens r = min n (rp_end (pe_positions e))
    \<and> peek c' s m = 0 \<and> (\<forall>t. t \<noteq> s \<longrightarrow> map_of (entries c') t = map_of (entries c) t)
    \<and> used_units c' + pe_charge e = used_units c
    \<and> used_tokens c' + rp_end (pe_positions e) = used_tokens c"
proof -
  have wf: "wf_positions (pe_positions e)" and d: "distinct (map fst (entries c))"
    using assms(1) map_of_SomeD [OF assms(3)] by (auto simp: prefix_ok_def entry_ok_def)
  have u: "min (rp_end (pe_positions e)) n \<le> u32_max" using assms(2) by simp
  have "Max (insert 0 {q \<in> positions (pe_positions e). q \<le> n}) \<le> min (rp_end (pe_positions e)) n"
    by (rule Max.boundedI) (auto dest: positions_le_end)
  moreover have "take_prefix c s n = Some (removed c s, \<lparr>hit_tokens = peek c s n,
      full_hit_tokens = as_u32 (min (rp_end (pe_positions e)) n),
      take_entry_tokens = rp_end (pe_positions e), take_used_before = used_tokens c,
      take_used_after = used_tokens (removed c s),
      return_metadata = Some \<lparr>rm_insertion_sequence = insertion_sequence e,
         rm_frequency = saturating_add_u64 (pe_frequency e) 1\<rparr>\<rparr>)"
    by (simp add: take_prefix_def remove_entry_ok [OF assms(1)] assms(3) Let_def)
  moreover have "peek (removed c s) s m = 0" by (simp add: peek_def)
  moreover note alist_sum_delete [OF assms(3) d, of "\<lambda>_. pe_charge"]
    alist_sum_delete [OF assms(3) d, of "\<lambda>_ e. rp_end (pe_positions e)"]
  ultimately show ?thesis
    using removed_ok [OF assms(1)] peek_eq_Max [OF assms(1,3,2)] u assms(1)
    by (auto simp: prefix_ok_def min.commute)
qed

subsection \<open>Retaining a prefix\<close>

lemma insort_insert_facts:
  "sorted xs \<Longrightarrow> distinct xs \<Longrightarrow> sorted (insort_insert x xs) \<and> distinct (insort_insert x xs)
     \<and> set (insort_insert x xs) = insert x (set xs)"
  by (simp add: sorted_insort_insert distinct_insort_insert set_insort_insert)

lemma add_entry_ok:
  assumes "prefix_ok c" and "map_of (entries c) s = None" and "wf_positions p" and "0 < rp_end p"
    and "charge = entry_charge (pcache_accounting c) p"
    and "used_units c + charge \<le> max_retained_units c"
  shows "prefix_ok (fst (add_entry c s p charge meta))"
proof -
  have d: "distinct (map fst (entries c))" using assms(1) by (simp add: prefix_ok_def)
  have upd: "set (AList.update s e (entries c)) = insert (s, e) (set (entries c))" for e
    by (simp add: update_absent [OF assms(2)])
  show ?thesis
    using assms insort_insert_facts [of "eviction_order c"] d
    by (auto simp: prefix_ok_def add_entry_def take_sequence_def Let_def upd entry_ok_def
        alist_sum_update_new)
qed

lemma add_entry_fields:
  "entries (fst (add_entry c s p charge meta)) = AList.update s
     \<lparr>pe_positions = p, pe_charge = charge,
      insertion_sequence = (case meta of Some m \<Rightarrow> rm_insertion_sequence m | None \<Rightarrow> next_sequence c),
      last_access_sequence = next_sequence c,
      pe_frequency = (case meta of Some m \<Rightarrow> rm_frequency m | None \<Rightarrow> 0)\<rparr> (entries c)"
  "used_units (fst (add_entry c s p charge meta)) = used_units c + charge"
  "used_tokens (fst (add_entry c s p charge meta)) = used_tokens c + rp_end p"
  "max_retained_units (fst (add_entry c s p charge meta)) = max_retained_units c"
  "pcache_accounting (fst (add_entry c s p charge meta)) = pcache_accounting c"
  "pcache_policy (fst (add_entry c s p charge meta)) = pcache_policy c"
  "receipts_chain (used_tokens c) [snd (add_entry c s p charge meta)]
     (used_tokens (fst (add_entry c s p charge meta)))"
  by (simp_all add: add_entry_def take_sequence_def Let_def)

text \<open>The positions \<open>insert\<close> retains.\<close>

definition retained_positions :: "PrefixCache \<Rightarrow> nat \<Rightarrow> nat \<Rightarrow> nat \<Rightarrow> ResumePositions" where
  "retained_positions c prompt ctx limit =
     largest_fitting (pcache_accounting c) (resume_positions (pcache_accounting c) prompt ctx)
       (min (max_retained_units c) limit)"

lemma retained_positions_facts:
  assumes "prefix_ok c"
  shows "wf_positions (retained_positions c prompt ctx limit)"
    and "entry_charge (pcache_accounting c) (retained_positions c prompt ctx limit)
      \<le> min (max_retained_units c) limit"
    and "rp_end (retained_positions c prompt ctx limit) \<le> ctx"
proof -
  have a: "accounting_ok (pcache_accounting c)" using assms by (simp add: prefix_ok_def)
  note f = largest_fitting_facts [OF a resume_positions_wf(1) [OF a], of prompt ctx
      "min (max_retained_units c) limit"]
  show "wf_positions (retained_positions c prompt ctx limit)"
    "entry_charge (pcache_accounting c) (retained_positions c prompt ctx limit)
      \<le> min (max_retained_units c) limit"
    unfolding retained_positions_def by (rule f(1), rule f(2))
  show "rp_end (retained_positions c prompt ctx limit) \<le> ctx"
    using f(5) resume_positions_wf(2) [OF a, of prompt ctx] by (simp add: retained_positions_def)
qed

lemma insert_prefix_ok:
  fixes prompt ctx limit :: nat
  assumes "prefix_ok c"
  defines "p \<equiv> retained_positions c prompt ctx limit"
  shows "\<exists>c' ms. insert_prefix c s prompt ctx limit meta = Some (c', ms, rp_end p)
    \<and> prefix_ok c' \<and> used_units c' \<le> min (max_retained_units c) limit
    \<and> max_retained_units c' = max_retained_units c
    \<and> pcache_accounting c' = pcache_accounting c
    \<and> receipts_chain (used_tokens c) ms (used_tokens c')
    \<and> (if rp_end p = 0 then map_of (entries c') s = None
       else \<exists>e. map_of (entries c') s = Some e \<and> pe_positions e = p)
    \<and> (\<forall>t e. t \<noteq> s \<longrightarrow> map_of (entries c') t = Some e \<longrightarrow> map_of (entries c) t = Some e)"
proof -
  let ?cap = "min (max_retained_units c) limit"
  define c1 where "c1 = removed c s"
  have ok1: "prefix_ok c1" using removed_ok [OF assms(1)] by (simp add: c1_def)
  have fields1: "max_retained_units c1 = max_retained_units c"
    "pcache_accounting c1 = pcache_accounting c" by (simp_all add: c1_def)
  let ?m1 = "removal_receipt c s SameSessionReplacement"
  have ch1: "receipts_chain (used_tokens c) ?m1 (used_tokens c1)"
    unfolding c1_def by (rule removal_receipt_chain [OF assms(1)])
  obtain n2 m2 where sh: "shrink_to c1 ?cap = Some (evictions n2 c1, m2)"
    "used_units (evictions n2 c1) \<le> ?cap"
    "receipts_chain (used_tokens c1) m2 (used_tokens (evictions n2 c1))"
    using shrink_to_ok [OF ok1, of ?cap] fields1 by (auto simp: min.assoc)
  define c2 where "c2 = evictions n2 c1"
  have ok2: "prefix_ok c2" unfolding c2_def by (rule evictions_ok [OF ok1])
  have fields2: "max_retained_units c2 = max_retained_units c"
    "pcache_accounting c2 = pcache_accounting c" by (simp_all add: c2_def fields1)
  have ch2: "receipts_chain (used_tokens c) (?m1 @ m2) (used_tokens c2)"
    unfolding c2_def by (rule receipts_chain_append [OF ch1 sh(3)])
  have kept1: "t \<noteq> s \<and> map_of (entries c) t = Some e" if "map_of (entries c2) t = Some e" for t e
    using that evictions_entry [OF ok1, of n2 t] by (auto simp: c2_def c1_def split: if_splits)
  let ?charge = "entry_charge (pcache_accounting c) p"
  let ?over = "\<lambda>c. saturating_add_u64 (used_units c) ?charge > ?cap"
  have start: "insert_prefix c s prompt ctx limit meta =
    (if rp_end p = 0 then Some (c2, ?m1 @ m2, 0)
     else Option.bind (evict_while ?over ReplacementPolicyEviction c2 (?m1 @ m2))
       (\<lambda>(c3, m3). let (c4, m4) = add_entry c3 s p ?charge meta
                   in Some (c4, m3 @ [m4], rp_end p)))"
    using sh(1) fields2 unfolding p_def retained_positions_def c2_def c1_def
    by (simp add: insert_prefix_def remove_with_receipt_ok [OF assms(1)] Let_def)
  note pf = retained_positions_facts [OF assms(1), of prompt ctx limit, folded p_def]
  show ?thesis
  proof (cases "rp_end p = 0")
    case True
    have "map_of (entries c2) s = None" using kept1 [of s] by (cases "map_of (entries c2) s") auto
    with True show ?thesis using start ok2 sh(2) ch2 fields2 kept1 by (auto simp: c2_def)
  next
    case False
    obtain n3 m3 where ev: "evict_while ?over ReplacementPolicyEviction c2 (?m1 @ m2)
        = Some (evictions n3 c2, (?m1 @ m2) @ m3)"
      "?over (evictions n3 c2) \<longrightarrow> entries (evictions n3 c2) = []"
      "receipts_chain (used_tokens c2) m3 (used_tokens (evictions n3 c2))"
      using evict_while_ok [OF ok2, of ?over ReplacementPolicyEviction "?m1 @ m2"] by blast
    define c3 where "c3 = evictions n3 c2"
    have ok3: "prefix_ok c3" unfolding c3_def by (rule evictions_ok [OF ok2])
    have fields3: "max_retained_units c3 = max_retained_units c"
      "pcache_accounting c3 = pcache_accounting c" by (simp_all add: c3_def fields2)
    have small: "?cap < u64_max" using assms(1) by (auto simp: prefix_ok_def)
    have room: "used_units c3 + ?charge \<le> ?cap"
    proof (cases "?over c3")
      case True
      then have "used_units c3 = 0" using ev(2) ok3 by (simp add: c3_def prefix_ok_def)
      then show ?thesis using pf(2) by simp
    next
      case False
      with small have "used_units c3 + ?charge \<le> ?cap"
        unfolding saturating_add_u64_def by linarith
      then show ?thesis .
    qed
    have kept3: "t \<noteq> s \<and> map_of (entries c) t = Some e" if "map_of (entries c3) t = Some e" for t e
    proof (rule kept1)
      show "map_of (entries c2) t = Some e"
        using that evictions_entry [OF ok2, of n3 t] by (simp add: c3_def)
    qed
    have none: "map_of (entries c3) s = None" using kept3 [of s] by (cases "map_of (entries c3) s") auto
    let ?c4 = "fst (add_entry c3 s p ?charge meta)" and ?m4 = "snd (add_entry c3 s p ?charge meta)"
    have "prefix_ok ?c4"
      using ok3 none pf(1) False room fields3 by (intro add_entry_ok) auto
    moreover have "insert_prefix c s prompt ctx limit meta
        = Some (?c4, ((?m1 @ m2) @ m3) @ [?m4], rp_end p)"
      using False start ev(1) by (simp add: c3_def split_beta)
    moreover have "receipts_chain (used_tokens c) (((?m1 @ m2) @ m3) @ [?m4]) (used_tokens ?c4)"
      using ch2 ev(3) add_entry_fields(7) [of c3 s p ?charge meta]
      unfolding c3_def by (meson receipts_chain_append)
    ultimately show ?thesis
      using False room fields3 kept3 by (auto simp: add_entry_fields split: if_splits)
  qed
qed

text \<open>What \<open>longest that fits\<close> means, apart from the search the code makes: the positions a later
  request can resume at, as a set, and the units a prefix up to \<open>k\<close> is charged.\<close>

definition resumable :: "KvAccounting \<Rightarrow> nat \<Rightarrow> nat \<Rightarrow> nat set" where
  "resumable a prompt ctx = {t. 0 < t \<and> t \<le> ctx \<and> block_tokens a dvd t \<and>
     (\<not> sparse a \<or> resume_points a = EveryBlock
      \<or> t = prompt_end_position a prompt \<and> resume_points a \<in> {PromptEnd, PromptAndResponseEnd}
      \<or> t = block_floor a ctx \<and> resume_points a \<in> {ResponseEnd, PromptAndResponseEnd}
      \<or> (case resume_interval a of None \<Rightarrow> False | Some i \<Rightarrow> i dvd t))}"

definition prefix_units :: "KvAccounting \<Rightarrow> nat set \<Rightarrow> nat \<Rightarrow> nat" where
  "prefix_units a P k = per_token_units a k + sparse_charge a {t \<in> P. t \<le> k}"

lemma rp_new_end:
  assumes "every \<noteq> Some 0"
  shows "rp_end (rp_new explicit every c) = 0 \<or> rp_end (rp_new explicit every c) \<in> positions (rp_new explicit every c)"
proof -
  let ?pts = "remdups_adj (sort (filter (\<lambda>pt. 0 < pt \<and> pt \<le> c) (flatten2 explicit)))"
  have e: "rp_end (rp_new explicit every c) = max (if ?pts = [] then 0 else last ?pts)
      (case every of None \<Rightarrow> 0 | Some spacing \<Rightarrow> c div spacing * spacing)"
    by (simp add: rp_new_def Let_def)
  have "last ?pts \<in> set (flatten2 explicit) \<and> 0 < last ?pts \<and> last ?pts \<le> c" if "?pts \<noteq> []"
    using last_in_set [OF that] by simp
  moreover have "s dvd c div s * s" "c div s * s \<le> c" for s :: nat by simp_all
  ultimately show ?thesis unfolding positions_rp_new(1) [OF assms] e
    by (cases every; cases "?pts = []") (auto simp: max_def)
qed

lemma resume_positions_end:
  assumes "accounting_ok a"
  shows "rp_end (resume_positions a prompt ctx) = 0
    \<or> rp_end (resume_positions a prompt ctx) \<in> positions (resume_positions a prompt ctx)"
proof -
  have "0 < block_tokens a" "resume_interval a \<noteq> Some 0"
    using assms by (auto simp: accounting_ok_def split: option.splits)
  moreover from this have "rp_end (rp_new (None, None) (Some (block_tokens a)) ctx) = 0
      \<or> rp_end (rp_new (None, None) (Some (block_tokens a)) ctx) \<in> positions (rp_new (None, None) (Some (block_tokens a)) ctx)"
    by (intro rp_new_end) simp
  moreover have "rp_end (rp_series s e) = e" for s e by (simp add: rp_series_def)
  ultimately show ?thesis
    by (cases "sparse a"; cases "resume_points a")
      (auto simp: resume_positions_cases positions_series block_floor_def dest: rp_new_end)
qed

lemma retained_positions_longest:
  fixes prompt ctx limit :: nat
  assumes "prefix_ok c"
  defines "a \<equiv> pcache_accounting c" and "p \<equiv> retained_positions c prompt ctx limit"
    and "P \<equiv> resumable (pcache_accounting c) prompt ctx"
  shows "positions p = {t \<in> P. t \<le> rp_end p}"
    and "entry_charge a p = prefix_units a P (rp_end p)"
    and "rp_end p = 0 \<or> rp_end p \<in> P"
    and "q \<in> P \<Longrightarrow> prefix_units a P q \<le> min (max_retained_units c) limit \<Longrightarrow> q \<le> rp_end p"
proof -
  let ?r = "resume_positions a prompt ctx" and ?cap = "min (max_retained_units c) limit"
  have ok: "accounting_ok a" using assms(1) by (simp add: prefix_ok_def a_def)
  have P: "P = positions ?r" unfolding P_def a_def resumable_def
    by (rule resume_positions_eq [symmetric]) (use ok in \<open>simp add: a_def\<close>)
  note wf = resume_positions_wf(1) [OF ok, of prompt ctx]
  note f = largest_fitting_facts [OF ok wf, where cap = ?cap]
  have p: "p = largest_fitting a ?r ?cap" by (simp add: p_def a_def retained_positions_def)
  show cut: "positions p = {t \<in> P. t \<le> rp_end p}" using f(3) by (simp add: p P)
  show "entry_charge a p = prefix_units a P (rp_end p)"
    using entry_charge_eq [OF f(1), of a] unfolding prefix_units_def cut [symmetric] by (simp add: p)
  show "rp_end p = 0 \<or> rp_end p \<in> P"
  proof (cases "entry_charge a ?r \<le> ?cap")
    case True
    then show ?thesis using resume_positions_end [OF ok] by (simp add: p P largest_fitting_def)
  next
    case False
    have "rp_floor ?r k = 0 \<or> rp_floor ?r k \<in> P \<and> rp_floor ?r k \<le> rp_end ?r" for k
    proof -
      have "rp_floor ?r k \<in> insert 0 {q \<in> positions ?r. q \<le> k}"
        unfolding rp_floor_Max [OF wf] by (rule Max_in) auto
      then show ?thesis using positions_le_end [of "rp_floor ?r k" ?r] by (auto simp: P)
    qed
    note floor = this
    obtain k where "p = rp_truncated ?r (rp_floor ?r k)"
      using False unfolding p largest_fitting_def by (simp only: if_False)
    then show ?thesis using floor [of k] by (auto simp: min_absorb1)
  qed
  assume q: "q \<in> P" "prefix_units a P q \<le> ?cap"
  have "entry_charge a (rp_truncated ?r q) = prefix_units a P q"
    using positions_le_end [of q ?r] q(1) entry_charge_eq [OF wf_truncated [OF wf], of a q]
    by (simp add: prefix_units_def P positions_truncated min_absorb1)
  then show "q \<le> rp_end p" using f(4) [where q = q] q unfolding p P by linarith
qed

text \<open>C28: Retaining a finished request's prefix returns, keeps the invariant and the retention
  ceiling and the physical limit, and stores the longest resumable prefix that fits them: among the
  positions the resume policy names, given as a set, the prefix up to \<open>k\<close> is charged at most the smaller
  of the two limits, and every position whose prefix is charged at most that is at or before \<open>k\<close> (\<open>k = 0\<close>, nothing stored,
  when none is). The entry keeps exactly the positions up to \<open>k\<close> at that charge; no other
  session's entry changes except by eviction, and the receipts replay the token occupancy exactly.\<close>

theorem insert_retains_longest:
  fixes prompt ctx limit :: nat
  assumes "prefix_ok c"
  defines "a \<equiv> pcache_accounting c" and "P \<equiv> resumable (pcache_accounting c) prompt ctx"
    and "cap \<equiv> min (max_retained_units c) limit"
  shows "\<exists>c' ms k. insert_prefix c s prompt ctx limit meta = Some (c', ms, k)
    \<and> prefix_ok c' \<and> used_units c' \<le> cap
    \<and> max_retained_units c' = max_retained_units c
    \<and> pcache_accounting c' = pcache_accounting c
    \<and> receipts_chain (used_tokens c) ms (used_tokens c')
    \<and> (k = 0 \<or> k \<in> P \<and> prefix_units a P k \<le> cap)
    \<and> (\<forall>q \<in> P. prefix_units a P q \<le> cap \<longrightarrow> q \<le> k)
    \<and> (if k = 0 then map_of (entries c') s = None
       else \<exists>e. map_of (entries c') s = Some e \<and> rp_end (pe_positions e) = k
         \<and> positions (pe_positions e) = {t \<in> P. t \<le> k} \<and> pe_charge e = prefix_units a P k)
    \<and> (\<forall>t e. t \<noteq> s \<longrightarrow> map_of (entries c') t = Some e \<longrightarrow> map_of (entries c) t = Some e)"
proof -
  let ?p = "retained_positions c prompt ctx limit"
  note l = retained_positions_longest [OF assms(1), where prompt = prompt and ctx = ctx and limit = limit,
      folded a_def P_def cap_def]
  have fits: "prefix_units a P (rp_end ?p) \<le> cap"
    using retained_positions_facts(2) [OF assms(1), of prompt ctx limit] l(2) by (simp add: a_def cap_def)
  from insert_prefix_ok [OF assms(1), of s prompt ctx limit meta] obtain c' ms where
    c': "insert_prefix c s prompt ctx limit meta = Some (c', ms, rp_end ?p)" "prefix_ok c'" "used_units c' \<le> cap"
      "max_retained_units c' = max_retained_units c" "pcache_accounting c' = pcache_accounting c"
      "receipts_chain (used_tokens c) ms (used_tokens c')"
      "if rp_end ?p = 0 then map_of (entries c') s = None
       else \<exists>e. map_of (entries c') s = Some e \<and> pe_positions e = ?p"
      "\<forall>t e. t \<noteq> s \<longrightarrow> map_of (entries c') t = Some e \<longrightarrow> map_of (entries c) t = Some e"
    unfolding cap_def by blast
  have charge: "pe_charge e = entry_charge a (pe_positions e)" if "map_of (entries c') s = Some e" for e
    using c'(2,5) map_of_SomeD [OF that] by (auto simp: prefix_ok_def entry_ok_def a_def)
  have "if rp_end ?p = 0 then map_of (entries c') s = None
       else \<exists>e. map_of (entries c') s = Some e \<and> rp_end (pe_positions e) = rp_end ?p
         \<and> positions (pe_positions e) = {t \<in> P. t \<le> rp_end ?p} \<and> pe_charge e = prefix_units a P (rp_end ?p)"
    using c'(7) charge l(1,2) by auto
  moreover have "rp_end ?p = 0 \<or> rp_end ?p \<in> P \<and> prefix_units a P (rp_end ?p) \<le> cap" using l(3) fits by blast
  moreover have "\<forall>q \<in> P. prefix_units a P q \<le> cap \<longrightarrow> q \<le> rp_end ?p" using l(4) by blast
  ultimately show ?thesis using c' by blast
qed

subsection \<open>The contract the store relies on\<close>

lemma evictions_used: "prefix_ok c \<Longrightarrow> used_units (evictions n c) \<le> used_units c"
proof (induction n arbitrary: c)
  case (Suc n)
  have "used_units (removed c v) \<le> used_units c" for v
    using Suc.prems alist_sum_delete_le [of "entries c" "\<lambda>_. pe_charge" v] by (simp add: prefix_ok_def)
  then show ?case
    using Suc.IH [OF removed_ok [OF Suc.prems]] by (fastforce split: option.split intro: order_trans)
qed simp

text \<open>A store asks three things of the cache that keeps retained prefixes: shrinking and inserting
  bring its usage within the limit given, taking answers what looking up announced, and none of the
  three ever fails. Proved once here: what this gives for a bank of caches, one per partition.\<close>

locale retained_tier =
  fixes ok :: "'a \<Rightarrow> 'c \<Rightarrow> bool" and used :: "'c \<Rightarrow> nat"
    and shrink :: "'c \<Rightarrow> nat \<Rightarrow> ('c \<times> 'm list) option"
    and look :: "'c \<Rightarrow> nat \<Rightarrow> nat \<Rightarrow> nat" and hit :: "'t \<Rightarrow> nat"
    and tak :: "'c \<Rightarrow> nat \<Rightarrow> nat \<Rightarrow> ('c \<times> 't) option"
    and insrt :: "'c \<Rightarrow> nat \<Rightarrow> nat \<Rightarrow> nat \<Rightarrow> nat \<Rightarrow> 'r option \<Rightarrow> ('c \<times> 'm list \<times> nat) option"
  assumes shrink_law: "ok a c \<Longrightarrow>
      \<exists>c' ms. shrink c n = Some (c', ms) \<and> ok a c' \<and> used c' \<le> n \<and> used c' \<le> used c"
    and take_law: "ok a c \<Longrightarrow> \<exists>c' t. tak c s k = Some (c', t) \<and> ok a c' \<and> used c' \<le> used c
      \<and> hit t = look c s k \<and> look c' s k = 0"
    and insert_law: "ok a c \<Longrightarrow>
      \<exists>c' ms got. insrt c s prompt ctx n m = Some (c', ms, got) \<and> ok a c' \<and> used c' \<le> n"
begin

lemma bank_update: "list_all (ok a) cs \<Longrightarrow> ok a c \<Longrightarrow> list_all (ok a) (cs[p := c])"
  by (auto simp: list_all_iff dest!: set_update_subset_insert [THEN subsetD])

lemma shrink_at:
  assumes "list_all (ok a) cs" and "p < length cs"
  shows "\<exists>c' ms. shrink (cs ! p) n = Some (c', ms) \<and> list_all (ok a) (cs[p := c'])
    \<and> used c' \<le> n \<and> used c' \<le> used (cs ! p)"
  using shrink_law [of a "cs ! p" n] assms bank_update [of a cs] by (fastforce simp: list_all_length)

lemma take_at:
  assumes "list_all (ok a) cs" and "p < length cs"
  shows "\<exists>c' t. tak (cs ! p) s k = Some (c', t) \<and> list_all (ok a) (cs[p := c'])
    \<and> used c' \<le> used (cs ! p) \<and> hit t = look (cs ! p) s k \<and> look c' s k = 0"
  using take_law [of a "cs ! p" s k] assms bank_update [of a cs] by (fastforce simp: list_all_length)

lemma insert_at:
  assumes "list_all (ok a) cs" and "p < length cs"
  shows "\<exists>c' ms got. insrt (cs ! p) s prompt ctx n m = Some (c', ms, got)
    \<and> list_all (ok a) (cs[p := c']) \<and> used c' \<le> n"
  using insert_law [of a "cs ! p" s prompt ctx n m] assms bank_update [of a cs]
  by (fastforce simp: list_all_length)

end

abbreviation tier_ok :: "KvAccounting \<Rightarrow> PrefixCache \<Rightarrow> bool" where
  "tier_ok a c \<equiv> prefix_ok c \<and> pcache_accounting c = a"

interpretation tier: retained_tier tier_ok used_units shrink_to peek hit_tokens take_prefix insert_prefix
proof
  fix a c n assume "tier_ok a c"
  then show "\<exists>c' ms. shrink_to c n = Some (c', ms) \<and> tier_ok a c' \<and> used_units c' \<le> n
      \<and> used_units c' \<le> used_units c"
    using shrink_to_ok [of c n] evictions_used [of c] by fastforce
next
  fix a c s k assume ok: "tier_ok a c"
  have "used_units (removed c s) \<le> used_units c"
    using ok alist_sum_delete_le [of "entries c" "\<lambda>_. pe_charge" s] by (simp add: prefix_ok_def)
  moreover have "peek (removed c s) s k = 0" by (simp add: peek_def)
  ultimately show "\<exists>c' t. take_prefix c s k = Some (c', t) \<and> tier_ok a c' \<and> used_units c' \<le> used_units c
      \<and> hit_tokens t = peek c s k \<and> peek c' s k = 0"
    using take_prefix_ok [of c s k] removed_ok [of c s] ok by fastforce
next
  fix a c s prompt ctx n m assume "tier_ok a c"
  then show "\<exists>c' ms got. insert_prefix c s prompt ctx n m = Some (c', ms, got) \<and> tier_ok a c'
      \<and> used_units c' \<le> n"
    using insert_prefix_ok [of c s prompt ctx n m] by fastforce
qed

subsection \<open>An example cache\<close>

definition sample_positions :: ResumePositions where
  "sample_positions = rp_new (Some 96, None) None 100"

definition sample_cache :: PrefixCache where
  "sample_cache = fst (add_entry (new_prefix_cache sample_accounting
      \<lparr>budget_max_retained_units = 500, budget_policy = LargestFirst\<rparr>) 7 sample_positions
      (entry_charge sample_accounting sample_positions) None)"

lemma sample_positions_facts: "wf_positions sample_positions" "rp_end sample_positions = 96"
  "rp_every sample_positions = None" "rp_explicit sample_positions = (Some 96, None)"
  unfolding sample_positions_def by (rule positions_rp_new(2)) (simp_all add: rp_new_def)

lemma sample_entry_charge: "entry_charge sample_accounting sample_positions = 171"
  by (simp add: entry_charge_def sparse_def sample_fields per_token_units_def
      sample_positions_facts div_ceil_def window_tail_union_def off_series_def on_series_def
      gap_cover_def explicit_cover.simps rp_count_def series_count_def)

lemma sample_cache_ok: "prefix_ok sample_cache"
  unfolding sample_cache_def
proof (rule add_entry_ok)
  show "prefix_ok (new_prefix_cache sample_accounting
      \<lparr>budget_max_retained_units = 500, budget_policy = LargestFirst\<rparr>)"
    by (rule new_prefix_ok [OF sample_ok]) (simp add: sample_fields u64_max_def)
qed (simp_all add: sample_positions_facts sample_entry_charge new_prefix_cache_def sample_fields)

lemma sample_cache_entry: "victim sample_cache = Some 7"
  "\<exists>e. map_of (entries sample_cache) 7 = Some e"
  by (simp_all add: sample_cache_def add_entry_def take_sequence_def new_prefix_cache_def
      victim_def eviction_key_def insort_insert_key_def)

lemma sample_peek: "peek sample_cache 7 100 = 96"
  unfolding sample_cache_def
  by (simp add: peek_def add_entry_fields new_prefix_cache_def rp_floor_def sample_positions_facts
      flatten2_def as_u32_def)

theorem victim_by_policy_witness:
  "\<exists>e. list_all (\<lambda>(s, e'). evicted_before (pcache_policy sample_cache) e e') (entries sample_cache)"
  using sample_cache_entry(2) victim_by_policy [OF sample_cache_ok sample_cache_entry(1)] by blast

theorem shrink_evicts_least_witness:
  "\<exists>n ms. shrink_to sample_cache 100 = Some (evictions n sample_cache, ms)
     \<and> used_units (evictions n sample_cache) \<le> min (max_retained_units sample_cache) 100"
  using shrink_evicts_least [OF sample_cache_ok, of 100] by blast

theorem take_moves_ownership_witness:
  "\<exists>c' r. take_prefix sample_cache 7 100 = Some (c', r) \<and> peek c' 7 100 = 0"
proof -
  obtain e where "map_of (entries sample_cache) 7 = Some e" using sample_cache_entry(2) by blast
  from take_moves_ownership [OF sample_cache_ok _ this, of 100 100] show ?thesis
    by (auto simp: u32_max_def)
qed

theorem insert_retains_longest_witness:
  "\<exists>c' ms k. insert_prefix sample_cache 9 100 150 400 None = Some (c', ms, k) \<and> used_units c' \<le> 400
     \<and> (\<forall>q \<in> resumable sample_accounting 100 150. prefix_units sample_accounting (resumable sample_accounting 100 150) q \<le> 400 \<longrightarrow> q \<le> k)"
proof -
  have "pcache_accounting sample_cache = sample_accounting" "max_retained_units sample_cache = 500"
    by (simp_all add: sample_cache_def add_entry_fields new_prefix_cache_def sample_fields)
  then show ?thesis using insert_retains_longest [OF sample_cache_ok, of 9 100 150 400 None] by auto
qed

end
