(* ===== verification/Prefill_Context.thy ===== *)
theory Prefill_Context
  imports Prefix_Cache
begin

section \<open>A request's conversation and its resolved prefill (\<open>common/request_family/autoregressive.rs\<close>, \<open>worker/kv/mod.rs\<close>)\<close>

text \<open>
  What a request declares of its conversation, and what the KV owner makes of it on one
  partition: how many of the declared prefix tokens are resident there, how many are left
  to compute, and how far chunked prefill has come. A failed \<open>debug_assert\<close> or \<open>expect\<close>
  is \<open>None\<close>.
\<close>

datatype SessionInput =
  Standalone
| PinnedPrefix nat
| Session nat nat nat  \<comment> \<open>session id, start time, declared prefix tokens\<close>

definition session_id :: "SessionInput \<Rightarrow> nat option" where
  "session_id s = (case s of Standalone \<Rightarrow> None | PinnedPrefix _ \<Rightarrow> None | Session i _ _ \<Rightarrow> Some i)"

definition session_start_time :: "SessionInput \<Rightarrow> nat option" where
  "session_start_time s =
     (case s of Standalone \<Rightarrow> None | PinnedPrefix _ \<Rightarrow> None | Session _ t _ \<Rightarrow> Some t)"

definition session_start_or :: "SessionInput \<Rightarrow> nat \<Rightarrow> nat" where
  "session_start_or s arrival =
     (case s of Standalone \<Rightarrow> arrival | PinnedPrefix _ \<Rightarrow> arrival | Session _ t _ \<Rightarrow> t)"

definition declared_prefix_tokens :: "SessionInput \<Rightarrow> nat" where
  "declared_prefix_tokens s =
     (case s of Standalone \<Rightarrow> 0 | PinnedPrefix n \<Rightarrow> n | Session _ _ n \<Rightarrow> n)"

record ResolvedPrefill =
  rp_session_id :: "nat option"
  rp_declared :: nat
  resident_prefix_tokens :: nat
  prefill_tokens_to_compute :: nat
  post_prefill_context_tokens :: nat
  processed_prefill_tokens :: nat
  active_chunk_tokens :: nat
  cache_return_metadata :: "ReturnMetadata option"

definition resolved_prefill :: "SessionInput \<Rightarrow> nat \<Rightarrow> nat \<Rightarrow> ResolvedPrefill option" where
  "resolved_prefill s resident fresh = do {
     let declared = declared_prefix_tokens s;
     assert_that (resident \<le> declared);
     missing \<leftarrow> checked_sub declared resident;
     let (resident', missing') =
       (if fresh = 0 \<and> missing = 0 \<and> resident > 0 then (resident - 1, 1) else (resident, missing));
     compute \<leftarrow> checked_add_u32 fresh missing';
     post \<leftarrow> checked_add_u32 fresh declared;
     Some \<lparr>rp_session_id = session_id s, rp_declared = declared,
       resident_prefix_tokens = resident', prefill_tokens_to_compute = compute,
       post_prefill_context_tokens = post, processed_prefill_tokens = 0,
       active_chunk_tokens = compute, cache_return_metadata = None\<rparr>
   }"

definition active_chunk :: "ResolvedPrefill \<Rightarrow> nat \<times> nat" where
  "active_chunk c = (resident_prefix_tokens c + processed_prefill_tokens c, active_chunk_tokens c)"

definition remaining_prefill_tokens :: "ResolvedPrefill \<Rightarrow> nat" where
  "remaining_prefill_tokens c = prefill_tokens_to_compute c - processed_prefill_tokens c"

definition schedule_chunk :: "ResolvedPrefill \<Rightarrow> nat \<Rightarrow> ResolvedPrefill option" where
  "schedule_chunk c n = do {
     assert_that (n \<le> remaining_prefill_tokens c);
     Some (c\<lparr>active_chunk_tokens := n\<rparr>)
   }"

definition complete_chunk :: "ResolvedPrefill \<Rightarrow> ResolvedPrefill option" where
  "complete_chunk c = do {
     done \<leftarrow> checked_add_u32 (processed_prefill_tokens c) (active_chunk_tokens c);
     Some (c\<lparr>processed_prefill_tokens := done, active_chunk_tokens := 0\<rparr>)
   }"

definition with_cache_return_metadata ::
  "ResolvedPrefill \<Rightarrow> ReturnMetadata option \<Rightarrow> ResolvedPrefill" where
  "with_cache_return_metadata c m = c\<lparr>cache_return_metadata := m\<rparr>"

subsection \<open>Hit and computed tokens\<close>

definition prefill_ok :: "ResolvedPrefill \<Rightarrow> bool" where
  "prefill_ok c \<longleftrightarrow>
     resident_prefix_tokens c + prefill_tokens_to_compute c = post_prefill_context_tokens c
     \<and> processed_prefill_tokens c + active_chunk_tokens c \<le> prefill_tokens_to_compute c
     \<and> post_prefill_context_tokens c \<le> u32_max
     \<and> rp_declared c \<le> post_prefill_context_tokens c"

lemma resolved_prefill_SomeD:
  assumes "resolved_prefill s resident fresh = Some c"
  shows "prefill_ok c" and "post_prefill_context_tokens c = fresh + declared_prefix_tokens s"
    and "resident \<le> declared_prefix_tokens s" and "rp_declared c = declared_prefix_tokens s"
    and "rp_session_id c = session_id s" and "processed_prefill_tokens c = 0"
    and "resident_prefix_tokens c \<le> resident" and "resident \<le> resident_prefix_tokens c + 1"
    and "0 < fresh + declared_prefix_tokens s \<Longrightarrow> 0 < prefill_tokens_to_compute c"
  using assms
  by (auto simp: resolved_prefill_def Let_def bind_Some_iff checked_sub_def checked_add_u32_def
      prefill_ok_def split: if_splits)

text \<open>whatever of the declared prefix is resident, hit plus computed tokens are exactly the
  fresh prompt plus the declared prefix; a request with any prompt computes at least one token, borrowed
  from a fully resident prefix when nothing else is left; and the resolution succeeds whenever the
  context fits 32 bits.\<close>

theorem resolved_prefill_conserves:
  assumes "resident \<le> declared_prefix_tokens s" and "fresh + declared_prefix_tokens s \<le> u32_max"
  shows "\<exists>c. resolved_prefill s resident fresh = Some c
    \<and> resident_prefix_tokens c + prefill_tokens_to_compute c = fresh + declared_prefix_tokens s
    \<and> post_prefill_context_tokens c = fresh + declared_prefix_tokens s
    \<and> resident_prefix_tokens c \<le> resident
    \<and> (prefill_tokens_to_compute c = 0 \<longleftrightarrow> fresh + declared_prefix_tokens s = 0)"
  using assms
  by (auto simp: resolved_prefill_def Let_def checked_sub_def checked_add_u32_def)

theorem resolved_prefill_conserves_witness:
  "\<exists>c. resolved_prefill (Session 7 0 100) 100 0 = Some c \<and> prefill_tokens_to_compute c \<noteq> 0"
  using resolved_prefill_conserves [of 100 "Session 7 0 100" 0]
  by (auto simp: declared_prefix_tokens_def u32_max_def)

text \<open>Chunks: a schedule of chunk sizes run to the end.\<close>

definition run_chunk :: "nat \<Rightarrow> ResolvedPrefill \<Rightarrow> ResolvedPrefill option" where
  "run_chunk n c = Option.bind (schedule_chunk c n) complete_chunk"

lemma run_chunk_ok:
  assumes "prefill_ok c" and "n \<le> remaining_prefill_tokens c"
  shows "\<exists>c'. run_chunk n c = Some c' \<and> prefill_ok c'
    \<and> processed_prefill_tokens c' = processed_prefill_tokens c + n
    \<and> resident_prefix_tokens c' = resident_prefix_tokens c
    \<and> prefill_tokens_to_compute c' = prefill_tokens_to_compute c
    \<and> active_chunk c' = (resident_prefix_tokens c + processed_prefill_tokens c + n, 0)"
  using assms
  by (auto simp: run_chunk_def schedule_chunk_def complete_chunk_def checked_add_u32_def
      prefill_ok_def remaining_prefill_tokens_def active_chunk_def)

text \<open>prefill in chunks computes every token once: any sequence of chunk sizes that sums to
  the tokens to compute can be scheduled and completed in order, each chunk starting where the previous
  one ended, and leaves none remaining.\<close>

theorem chunks_cover_prefill:
  assumes "resolved_prefill s resident fresh = Some c"
    and "sum_list ns = prefill_tokens_to_compute c"
  shows "\<exists>c'. fold_opt run_chunk ns c = Some c' \<and> remaining_prefill_tokens c' = 0
    \<and> fst (active_chunk c') = post_prefill_context_tokens c'"
proof -
  have "\<exists>c'. fold_opt run_chunk ns c = Some c' \<and> prefill_ok c'
      \<and> processed_prefill_tokens c' = prefill_tokens_to_compute c'"
    if "prefill_ok c" "processed_prefill_tokens c + sum_list ns = prefill_tokens_to_compute c" for c
    using that
  proof (induction ns arbitrary: c)
    case (Cons n ns)
    then have "n \<le> remaining_prefill_tokens c" by (simp add: remaining_prefill_tokens_def)
    from run_chunk_ok [OF Cons.prems(1) this] obtain c1 where "run_chunk n c = Some c1"
      "prefill_ok c1" "processed_prefill_tokens c1 = processed_prefill_tokens c + n"
      "prefill_tokens_to_compute c1 = prefill_tokens_to_compute c" by blast
    with Cons show ?case by (simp add: add.assoc)
  qed simp
  from this [OF resolved_prefill_SomeD(1) [OF assms(1)]] resolved_prefill_SomeD(6) [OF assms(1)] assms(2)
  show ?thesis by (auto simp: remaining_prefill_tokens_def active_chunk_def prefill_ok_def)
qed

theorem chunks_cover_prefill_witness:
  "\<exists>c c'. resolved_prefill (Session 7 0 100) 40 20 = Some c
     \<and> fold_opt run_chunk [32, 32, 16] c = Some c' \<and> remaining_prefill_tokens c' = 0"
proof -
  obtain c where c: "resolved_prefill (Session 7 0 100) 40 20 = Some c"
    "prefill_tokens_to_compute c = 80"
    by (auto simp: resolved_prefill_def Let_def declared_prefix_tokens_def checked_sub_def
        checked_add_u32_def u32_max_def)
  from chunks_cover_prefill [OF c(1), of "[32, 32, 16]"] c show ?thesis by auto
qed

end
