(* ===== verification/Resident_Partition.thy ===== *)
theory Resident_Partition
  imports Kv_Accounting "HOL-Library.Multiset"
begin

section \<open>One partition's resident set (\<open>worker/kv/shared/resident_partition.rs\<close>)\<close>

text \<open>
  The live decodes of one KV partition in insertion order, an index by request id that
  mirrors the list, the running totals of their hard charge and of their soft checkpoints,
  this iteration's prefill admits, and a cached projection of the peak charge. Subtractions
  are checked, so a \<open>None\<close> is a debug build's panic. \<open>partition_ok\<close> is the invariant; the
  projected peak is related to the residency the decodes reach in the future.
\<close>

type_synonym request_id = nat

record ResidentDecode =
  current_kv :: nat
  remaining_decode :: nat
  rd_prompt_tokens :: nat
  rd_charge :: nat
  rd_checkpoint :: nat

record ResidentPartition =
  part_accounting :: KvAccounting
  resident_units :: nat
  live_checkpoint_units :: nat
  decodes :: "(request_id \<times> ResidentDecode) list"
  decode_index :: "(request_id \<times> nat) list"
  prefill_admits :: "request_id list"
  cached_peak :: nat

subsection \<open>Advancing one decode\<close>

definition decode_checkpoint :: "KvAccounting \<Rightarrow> nat \<Rightarrow> nat \<Rightarrow> nat" where
  "decode_checkpoint a prompt kv = (if sparse a then checkpoint_units a prompt kv else 0)"

definition advance_state ::
  "KvAccounting \<Rightarrow> ResidentDecode \<Rightarrow> (ResidentDecode \<times> nat \<times> nat) option" where
  "advance_state a d = do {
     let kv = current_kv d + 1;
     rem \<leftarrow> checked_sub (remaining_decode d) 1;
     let charge = held_while_running a kv 1;
     added \<leftarrow> checked_sub charge (rd_charge d);
     let d1 = d\<lparr>current_kv := kv, remaining_decode := rem, rd_charge := charge\<rparr>;
     if \<not> sparse a then Some (d1, added, 0)
     else do {
       let checkpoint = checkpoint_units a (rd_prompt_tokens d) kv;
       added_checkpoint \<leftarrow> checked_sub checkpoint (rd_checkpoint d);
       Some (d1\<lparr>rd_checkpoint := checkpoint\<rparr>, added, added_checkpoint)
     }
   }"

subsection \<open>The projected peak\<close>

definition sample_indices :: "nat \<Rightarrow> nat list" where
  "sample_indices n =
     (if n = 0 then []
      else if n < 8 then [0..<n]
      else remdups_adj (sort ([0..<8] @ map (\<lambda>s. s * n div 8) [1..<8] @ [n - 1])))"

fun prefix_sums :: "nat \<Rightarrow> nat list \<Rightarrow> nat list" where
  "prefix_sums s [] = [s]"
| "prefix_sums s (x # xs) = s # prefix_sums (s + x) xs"

text \<open>One round of the loop over the sampled exits; the state is \<open>peak\<close> and
  \<open>last_exit_step\<close>.\<close>

definition probe_exit ::
  "nat \<Rightarrow> 'e list \<Rightarrow> nat list \<Rightarrow> ('e \<Rightarrow> nat \<times> nat) \<Rightarrow> ('e list \<Rightarrow> nat \<Rightarrow> nat) \<Rightarrow>
     nat \<Rightarrow> nat \<times> nat option \<Rightarrow> (nat \<times> nat option) option" where
  "probe_exit resident entries charge_prefix key grow index st = (case st of (peak, last_exit) \<Rightarrow> do {
     e \<leftarrow> nth_opt entries index;
     let exit_step = fst (key e);
     if last_exit = Some exit_step then Some (peak, last_exit)
     else do {
       let departed = length (takeWhile (\<lambda>e. fst (key e) < exit_step) entries);
       let added = grow (drop departed entries) exit_step;
       released \<leftarrow> nth_opt charge_prefix departed;
       here \<leftarrow> checked_sub (resident + added) released;
       Some (max peak here, Some exit_step)
     }
   })"

definition peak_over_exits ::
  "nat \<Rightarrow> 'e list \<Rightarrow> ('e \<Rightarrow> nat \<times> nat) \<Rightarrow> ('e list \<Rightarrow> nat \<Rightarrow> nat) \<Rightarrow> nat option" where
  "peak_over_exits resident entries key grow =
     (if entries = [] then Some resident
      else do {
        let sorted_entries = sort_key (\<lambda>e. fst (key e)) entries;
        let charge_prefix = prefix_sums 0 (map (\<lambda>e. snd (key e)) sorted_entries);
        (peak, _) \<leftarrow> fold_opt (probe_exit resident sorted_entries charge_prefix key grow)
          (sample_indices (length sorted_entries)) (resident, None);
        Some peak
      })"

definition projected_peak :: "KvAccounting \<Rightarrow> nat \<Rightarrow> ResidentDecode list \<Rightarrow> nat option" where
  "projected_peak a resident ds = (case linear_units_per_token a of
     Some u \<Rightarrow> peak_over_exits resident (map (\<lambda>d. (remaining_decode d, rd_charge d)) ds)
        (\<lambda>(exit, charge). (exit, charge))
        (\<lambda>still exit_step. length still * exit_step * u)
   | None \<Rightarrow> peak_over_exits resident
        (map (\<lambda>d. (remaining_decode d, rd_charge d, current_kv d)) ds)
        (\<lambda>(exit, charge, _). (exit, charge))
        (\<lambda>still exit_step. sum_list (map (\<lambda>(_, _, kv). growth_over a kv exit_step) still)))"

subsection \<open>Operations\<close>

definition new_partition :: "KvAccounting \<Rightarrow> ResidentPartition" where
  "new_partition a = \<lparr>part_accounting = a, resident_units = 0, live_checkpoint_units = 0,
     decodes = [], decode_index = [], prefill_admits = [], cached_peak = 0\<rparr>"

definition partition_capacity :: "ResidentPartition \<Rightarrow> nat" where
  "partition_capacity p = capacity_units (part_accounting p)"

definition indexed_decode :: "ResidentPartition \<Rightarrow> request_id \<Rightarrow> ResidentDecode option option" where
  "indexed_decode p r = (case map_of (decode_index p) r of
     None \<Rightarrow> Some None
   | Some i \<Rightarrow> map_option (\<lambda>d. Some (snd d)) (nth_opt (decodes p) i))"

text \<open>\<open>decode_current_kv\<close> and \<open>decode_charge\<close>: the outer option is the index panic.\<close>

definition decode_current_kv :: "ResidentPartition \<Rightarrow> request_id \<Rightarrow> nat option option" where
  "decode_current_kv p r = map_option (map_option current_kv) (indexed_decode p r)"

definition decode_charge :: "ResidentPartition \<Rightarrow> request_id \<Rightarrow> nat option option" where
  "decode_charge p r = map_option (map_option rd_charge) (indexed_decode p r)"

definition iter_decoding :: "ResidentPartition \<Rightarrow> (request_id \<times> ResidentDecode) list" where
  "iter_decoding p = filter (\<lambda>(_, d). 0 < remaining_decode d) (decodes p)"

definition decode_members :: "ResidentPartition \<Rightarrow> (request_id \<times> nat) list" where
  "decode_members p = map (\<lambda>(r, d). (r, current_kv d)) (iter_decoding p)"

definition decode_states :: "ResidentPartition \<Rightarrow> (request_id \<times> nat \<times> nat) list" where
  "decode_states p = map (\<lambda>(r, d). (r, current_kv d, remaining_decode d)) (iter_decoding p)"

definition bounded_future_decode_units :: "'f float_ops \<Rightarrow> ResidentPartition \<Rightarrow> nat \<Rightarrow> 'f \<Rightarrow> 'f" where
  "bounded_future_decode_units f p max_future_tokens ratio =
     (let future = (\<lambda>d. min (remaining_decode d) max_future_tokens);
          units = (case linear_units_per_token (part_accounting p) of
             Some u \<Rightarrow> (\<lambda>d. future d * u)
           | None \<Rightarrow> (\<lambda>d. growth_over (part_accounting p) (current_kv d) (future d)))
      in foldl (f_add f) (f_of_nat f 0)
           (map (\<lambda>(_, d). f_mul f (f_of_nat f (units d)) ratio) (iter_decoding p)))"

definition next_decode_allocation_units :: "ResidentPartition \<Rightarrow> nat \<Rightarrow> nat \<Rightarrow> nat option" where
  "next_decode_allocation_units p page_size step_tokens = do {
     assert_that (step_tokens > 0);
     let step = (\<lambda>d. min (remaining_decode d) step_tokens);
     case linear_units_per_token (part_accounting p) of
       None \<Rightarrow> Some (sum_list (map (\<lambda>(_, d). growth_over (part_accounting p) (current_kv d) (step d))
                 (iter_decoding p)))
     | Some u \<Rightarrow>
        (if page_size = 1 then Some (sum_list (map (\<lambda>(_, d). step d * u) (iter_decoding p)))
         else do {
           assert_that (step_tokens = 1);
           Some (length (filter (\<lambda>(_, d). current_kv d mod page_size = 0) (iter_decoding p))
                 * page_size * u)
         })
   }"

definition first_decode_request :: "ResidentPartition \<Rightarrow> request_id option" where
  "first_decode_request p = (case iter_decoding p of [] \<Rightarrow> None | (r, _) # _ \<Rightarrow> Some r)"

definition has_live_decode :: "ResidentPartition \<Rightarrow> bool" where
  "has_live_decode p \<longleftrightarrow> iter_decoding p \<noteq> []"

definition live_decode_count :: "ResidentPartition \<Rightarrow> nat" where
  "live_decode_count p = as_u32 (length (iter_decoding p))"

definition add_prefill_admit :: "ResidentPartition \<Rightarrow> request_id \<Rightarrow> ResidentPartition" where
  "add_prefill_admit p r = p\<lparr>prefill_admits := prefill_admits p @ [r]\<rparr>"

definition clear_prefill_admits :: "ResidentPartition \<Rightarrow> ResidentPartition" where
  "clear_prefill_admits p = p\<lparr>prefill_admits := []\<rparr>"

text \<open>\<open>swap_remove\<close> of the first position that holds \<open>r\<close>.\<close>

definition remove_prefill_admit :: "ResidentPartition \<Rightarrow> request_id \<Rightarrow> ResidentPartition" where
  "remove_prefill_admit p r =
     (let i = length (takeWhile (\<lambda>x. x \<noteq> r) (prefill_admits p)); xs = prefill_admits p
      in if i < length xs
         then p\<lparr>prefill_admits := (if i = length xs - 1 then butlast xs
                else butlast (xs[i := last xs]))\<rparr>
         else p)"

fun advance_all ::
  "KvAccounting \<Rightarrow> (request_id \<times> ResidentDecode) list \<Rightarrow>
     ((request_id \<times> ResidentDecode) list \<times> nat \<times> nat) option" where
  "advance_all a [] = Some ([], 0, 0)"
| "advance_all a ((r, d) # ds) = do {
     (d', added, soft) \<leftarrow> (if 0 < remaining_decode d then advance_state a d else Some (d, 0, 0));
     (ds', added', soft') \<leftarrow> advance_all a ds;
     Some ((r, d') # ds', added + added', soft + soft')
   }"

definition advance_decodes :: "ResidentPartition \<Rightarrow> ResidentPartition option" where
  "advance_decodes p = do {
     (ds, added, soft) \<leftarrow> advance_all (part_accounting p) (decodes p);
     Some (p\<lparr>decodes := ds, resident_units := resident_units p + added,
             live_checkpoint_units := live_checkpoint_units p + soft\<rparr>)
   }"

definition advance_one :: "request_id \<Rightarrow> ResidentPartition \<Rightarrow> ResidentPartition option" where
  "advance_one r p = (case map_of (decode_index p) r of
     None \<Rightarrow> Some p
   | Some i \<Rightarrow> do {
       (q, d) \<leftarrow> nth_opt (decodes p) i;
       if 0 < remaining_decode d then do {
         (d', added, soft) \<leftarrow> advance_state (part_accounting p) d;
         Some (p\<lparr>decodes := (decodes p)[i := (q, d')], resident_units := resident_units p + added,
                 live_checkpoint_units := live_checkpoint_units p + soft\<rparr>)
       } else Some p
     })"

definition advance_subset :: "ResidentPartition \<Rightarrow> request_id list \<Rightarrow> ResidentPartition option" where
  "advance_subset p rs = fold_opt advance_one rs p"

definition recompute_peak :: "ResidentPartition \<Rightarrow> ResidentPartition option" where
  "recompute_peak p = do {
     pk \<leftarrow> projected_peak (part_accounting p) (resident_units p) (map snd (decodes p));
     Some (p\<lparr>cached_peak := pk\<rparr>)
   }"

definition begin_decode ::
  "ResidentPartition \<Rightarrow> request_id \<Rightarrow> nat \<Rightarrow> nat \<Rightarrow> nat \<Rightarrow> ResidentPartition option" where
  "begin_decode p r context_tokens decode_budget prompt_tokens = do {
     let charge = held_while_running (part_accounting p) context_tokens 1;
     let checkpoint = decode_checkpoint (part_accounting p) prompt_tokens context_tokens;
     assert_that (map_of (decode_index p) r = None);
     recompute_peak (p\<lparr>resident_units := resident_units p + charge,
       live_checkpoint_units := live_checkpoint_units p + checkpoint,
       decode_index := AList.update r (length (decodes p)) (decode_index p),
       decodes := decodes p @ [(r, \<lparr>current_kv = context_tokens,
         remaining_decode = decode_budget, rd_prompt_tokens = prompt_tokens,
         rd_charge = charge, rd_checkpoint = checkpoint\<rparr>)]\<rparr>)
   }"

text \<open>The loop that re-inserts the index of every decode behind the removed one.\<close>

fun reindex :: "nat \<Rightarrow> (request_id \<times> ResidentDecode) list \<Rightarrow> (request_id \<times> nat) list \<Rightarrow>
    (request_id \<times> nat) list" where
  "reindex i [] idx = idx"
| "reindex i ((r, _) # ds) idx = reindex (Suc i) ds (AList.update r i idx)"

definition release_decode :: "ResidentPartition \<Rightarrow> request_id \<Rightarrow> ResidentPartition option" where
  "release_decode p r = (case map_of (decode_index p) r of
     None \<Rightarrow> Some p
   | Some i \<Rightarrow> do {
       (_, d) \<leftarrow> nth_opt (decodes p) i;
       let ds = take i (decodes p) @ drop (Suc i) (decodes p);
       units \<leftarrow> checked_sub (resident_units p) (rd_charge d);
       soft \<leftarrow> checked_sub (live_checkpoint_units p) (rd_checkpoint d);
       recompute_peak (p\<lparr>decodes := ds,
         decode_index := reindex i (drop i ds) (AList.delete r (decode_index p)),
         resident_units := units, live_checkpoint_units := soft\<rparr>)
     })"

subsection \<open>Checkpoints along a decode\<close>

text \<open>The resume policies under which a position a decode has passed stays a position: the end
  of the response is not one of them once blocks are larger than a token, because it moves with the
  context.\<close>

definition steady_checkpoints :: "KvAccounting \<Rightarrow> bool" where
  "steady_checkpoints a \<longleftrightarrow> \<not> sparse a \<or> resume_points a \<in> {PromptEnd, EveryBlock} \<or> block_tokens a = 1"

lemma checkpoint_units_mono:
  assumes "accounting_ok a" and "steady_checkpoints a" and "len \<le> len'"
  shows "checkpoint_units a prompt len \<le> checkpoint_units a prompt len'"
  unfolding checkpoint_units_eq [OF assms(1)]
proof (cases "sparse a")
  case False
  then show "sparse_charge a {t \<in> positions (resume_positions a prompt len). t < len}
      \<le> sparse_charge a {t \<in> positions (resume_positions a prompt len'). t < len'}"
    by (simp add: sparse_charge_def)
next
  case True
  with assms(2) have pol: "resume_points a \<in> {PromptEnd, EveryBlock} \<or> block_tokens a = 1"
    by (simp add: steady_checkpoints_def)
  have "t \<in> positions (resume_positions a prompt len')"
    if "t \<in> positions (resume_positions a prompt len)" "t < len" for t
    using that pol assms(3) unfolding resume_positions_eq [OF assms(1)]
    by (auto simp: block_floor_def)
  then show "sparse_charge a {t \<in> positions (resume_positions a prompt len). t < len}
      \<le> sparse_charge a {t \<in> positions (resume_positions a prompt len'). t < len'}"
    using assms(3) by (intro sparse_charge_mono) auto
qed

definition state_ok :: "KvAccounting \<Rightarrow> ResidentDecode \<Rightarrow> bool" where
  "state_ok a d \<longleftrightarrow> rd_charge d = held_while_running a (current_kv d) 1
     \<and> rd_checkpoint d = decode_checkpoint a (rd_prompt_tokens d) (current_kv d)"

definition advanced :: "KvAccounting \<Rightarrow> ResidentDecode \<Rightarrow> ResidentDecode" where
  "advanced a d = d\<lparr>current_kv := current_kv d + 1, remaining_decode := remaining_decode d - 1,
     rd_charge := held_while_running a (current_kv d + 1) 1,
     rd_checkpoint := decode_checkpoint a (rd_prompt_tokens d) (current_kv d + 1)\<rparr>"

lemma advanced_ok: "state_ok a (advanced a d)"
  by (simp add: state_ok_def advanced_def)

lemma advance_state_ok:
  assumes "accounting_ok a" and "steady_checkpoints a" and "state_ok a d"
    and "0 < remaining_decode d"
  shows "\<exists>hard soft. advance_state a d = Some (advanced a d, hard, soft)
    \<and> rd_charge d + hard = rd_charge (advanced a d)
    \<and> rd_checkpoint d + soft = rd_checkpoint (advanced a d)"
proof -
  have "rd_charge d \<le> held_while_running a (current_kv d + 1) 1"
    using assms held_mono [OF assms(1), of "current_kv d" "current_kv d + 1" 1 1]
    by (simp add: state_ok_def)
  moreover have "rd_checkpoint d \<le> decode_checkpoint a (rd_prompt_tokens d) (current_kv d + 1)"
    using assms(3) checkpoint_units_mono [OF assms(1,2), of "current_kv d" "current_kv d + 1"]
    by (simp add: state_ok_def decode_checkpoint_def)
  moreover have "d\<lparr>rd_checkpoint := 0\<rparr> = d" if "\<not> sparse a"
    using that assms(3) by (cases d) (simp add: state_ok_def decode_checkpoint_def)
  ultimately show ?thesis using assms(4)
    by (cases d) (auto simp: advance_state_def advanced_def Let_def decode_checkpoint_def Suc_le_eq)
qed

text \<open>C36: advancing a decode can take its soft checkpoints down: with the resume point at the end
  of the response and blocks of 16 tokens, a decode at 31 tokens has passed the position 16, at 32
  tokens the response end has moved to 32, which it has not passed. The added checkpoint units are
  then negative, and the \<open>u64\<close> subtraction of \<open>ResidentDecodeState::advance\<close> overflows.\<close>

theorem advance_checkpoint_underflow:
  "\<exists>d. state_ok sample_accounting d \<and> remaining_decode d = 4 \<and> current_kv d = 31
     \<and> advance_state sample_accounting d = None"
proof -
  have sp: "sparse sample_accounting" by (simp add: sparse_def sample_fields)
  have pos: "positions (resume_positions sample_accounting 10 n) =
      {t. 0 < t \<and> t \<le> n \<and> 16 dvd t \<and> (t = n div 16 * 16 \<or> 32 dvd t)}" for n
    by (auto simp: resume_positions_eq [OF sample_ok] sp sample_fields block_floor_def
        prompt_end_position_def)
  have "{t \<in> positions (resume_positions sample_accounting 10 31). t < 31} = {16}"
    unfolding pos by (auto simp: dvd_def)
  moreover have "{t \<in> positions (resume_positions sample_accounting 10 32). t < 32} = {}"
    unfolding pos by (auto simp: dvd_def)
  ultimately have cp: "checkpoint_units sample_accounting 10 31 \<ge> 12"
    "checkpoint_units sample_accounting 10 32 = 0"
    by (simp_all add: checkpoint_units_eq [OF sample_ok] sparse_charge_def sp sample_fields
        covered_tokens_def)
  let ?d = "\<lparr>current_kv = 31, remaining_decode = 4, rd_prompt_tokens = 10,
    rd_charge = held_while_running sample_accounting 31 1,
    rd_checkpoint = decode_checkpoint sample_accounting 10 31\<rparr>"
  have "advance_state sample_accounting ?d = None"
    using cp sp by (simp add: advance_state_def Let_def decode_checkpoint_def checked_sub_def
        split: option.split bind_split)
  then show ?thesis by (intro exI [of _ ?d]) (simp add: state_ok_def)
qed

subsection \<open>The projected peak and the residency to come\<close>

text \<open>What the decodes hold \<open>t\<close> steps from now: those with at least \<open>t\<close> tokens left, each grown
  by \<open>t\<close> tokens.\<close>

definition future_residency :: "KvAccounting \<Rightarrow> ResidentDecode list \<Rightarrow> nat \<Rightarrow> nat" where
  "future_residency a ds t = sum_list (map (\<lambda>d. held_while_running a (current_kv d + t) 1)
     (filter (\<lambda>d. t \<le> remaining_decode d) ds))"

lemma sample_indices_bound: "i \<in> set (sample_indices n) \<Longrightarrow> i < n"
proof -
  have "s * n div 8 < n" if "0 < n" "s < 8" for s
    using that by (simp add: less_mult_imp_div_less)
  then show "i \<in> set (sample_indices n) \<Longrightarrow> i < n"
    by (auto simp: sample_indices_def split: if_splits)
qed

lemma prefix_sums_nth:
  "k \<le> length xs \<Longrightarrow> nth_opt (prefix_sums s xs) k = Some (s + sum_list (take k xs))"
proof (induction s xs arbitrary: k rule: prefix_sums.induct)
  case (1 s)
  then show ?case by simp
next
  case (2 s x xs)
  then show ?case by (cases k) auto
qed

lemma sorted_key_takeWhile:
  assumes "sorted (map f es)"
  shows "take (length (takeWhile (\<lambda>e. f e < (t :: nat)) es)) es = filter (\<lambda>e. f e < t) es"
    and "drop (length (takeWhile (\<lambda>e. f e < t) es)) es = filter (\<lambda>e. t \<le> f e) es"
  using assms
proof (induction es)
  case (Cons e es)
  { case 1
    have "filter (\<lambda>e. f e < t) es = []" if "\<not> f e < t" using 1 that by (auto simp: filter_empty_conv)
    with 1 Cons.IH(1) show ?case by auto
  next
    case 2
    have "filter (\<lambda>e. t \<le> f e) es = es" if "\<not> f e < t" using 2 that by (auto simp: filter_id_conv)
    with 2 Cons.IH(2) show ?case by auto }
qed simp_all

text \<open>The charge at an exit step, when growth is a sum over the decodes still running.\<close>

definition exit_charge :: "('e \<Rightarrow> nat \<times> nat) \<Rightarrow> ('e \<Rightarrow> nat \<Rightarrow> nat) \<Rightarrow> 'e list \<Rightarrow> nat \<Rightarrow> nat" where
  "exit_charge key g es t = sum_list (map (\<lambda>e. snd (key e) + g e t) (filter (\<lambda>e. t \<le> fst (key e)) es))"

lemma sum_list_filter_split:
  "sum_list (map f (filter P xs)) + sum_list (map f (filter (\<lambda>x. \<not> P x) xs)) = (sum_list (map f xs) :: nat)"
  by (induction xs) auto

lemma probe_exit_ok:
  assumes "sorted (map (\<lambda>e. fst (key e)) es)" and "i < length es"
    and "resident = sum_list (map (\<lambda>e. snd (key e)) es)"
    and grow: "\<And>still t. grow still t = sum_list (map (\<lambda>e. g e t) still)"
    and last: "\<forall>x. l = Some x \<longrightarrow> exit_charge key g es x \<le> pk"
  shows "\<exists>l'. probe_exit resident es (prefix_sums 0 (map (\<lambda>e. snd (key e)) es)) key grow i (pk, l)
      = Some (max pk (exit_charge key g es (fst (key (es ! i)))), l')
    \<and> (\<forall>x. l' = Some x \<longrightarrow>
        exit_charge key g es x \<le> max pk (exit_charge key g es (fst (key (es ! i)))))"
proof (cases "l = Some (fst (key (es ! i)))")
  case True
  with last assms(2) show ?thesis by (simp add: probe_exit_def max_absorb1)
next
  case False
  let ?t = "fst (key (es ! i))"
  let ?k = "length (takeWhile (\<lambda>e. fst (key e) < ?t) es)"
  let ?c = "\<lambda>e. snd (key e)"
  have k: "?k \<le> length es" by (rule length_takeWhile_le)
  have rel: "sum_list (take ?k (map ?c es)) = sum_list (map ?c (filter (\<lambda>e. fst (key e) < ?t) es))"
    by (simp add: take_map sorted_key_takeWhile(1) [OF assms(1)])
  have still: "drop ?k es = filter (\<lambda>e. ?t \<le> fst (key e)) es"
    by (rule sorted_key_takeWhile(2) [OF assms(1)])
  have split: "resident = sum_list (map ?c (filter (\<lambda>e. ?t \<le> fst (key e)) es))
      + sum_list (map ?c (filter (\<lambda>e. fst (key e) < ?t) es))"
    using sum_list_filter_split [of ?c "\<lambda>e. ?t \<le> fst (key e)" es] assms(3) by (simp add: not_le)
  have "exit_charge key g es ?t = sum_list (map ?c (filter (\<lambda>e. ?t \<le> fst (key e)) es))
      + grow (drop ?k es) ?t"
    by (simp add: exit_charge_def sum_list_addf grow still)
  with split have "checked_sub (resident + grow (drop ?k es) ?t) (sum_list (take ?k (map ?c es)))
      = Some (exit_charge key g es ?t)"
    by (simp add: rel checked_sub_def)
  then show ?thesis using False assms(2) prefix_sums_nth [of ?k "map ?c es" 0] k
    by (simp add: probe_exit_def Let_def del: max.bounded_iff)
qed

lemma probe_exits_ok:
  assumes "sorted (map (\<lambda>e. fst (key e)) es)" and "\<forall>i \<in> set idx. i < length es"
    and "resident = sum_list (map (\<lambda>e. snd (key e)) es)"
    and grow: "\<And>still t. grow still t = sum_list (map (\<lambda>e. g e t) still)"
    and last: "\<forall>x. l = Some x \<longrightarrow> exit_charge key g es x \<le> pk"
  shows "\<exists>l'. fold_opt (probe_exit resident es (prefix_sums 0 (map (\<lambda>e. snd (key e)) es)) key grow)
      idx (pk, l) = Some (Max (insert pk ((\<lambda>i. exit_charge key g es (fst (key (es ! i)))) ` set idx)), l')"
  using assms(2) last
proof (induction idx arbitrary: pk l)
  case (Cons i idx)
  let ?V = "\<lambda>i. exit_charge key g es (fst (key (es ! i)))"
  obtain l1 where l1: "probe_exit resident es (prefix_sums 0 (map (\<lambda>e. snd (key e)) es)) key grow i (pk, l)
      = Some (max pk (?V i), l1)" "\<forall>x. l1 = Some x \<longrightarrow> exit_charge key g es x \<le> max pk (?V i)"
    using probe_exit_ok [OF assms(1) _ assms(3) grow Cons.prems(2), of i] Cons.prems(1) by auto
  have "Max (insert (max pk (?V i)) (?V ` set idx)) = Max (insert pk (?V ` set (i # idx)))"
    by (cases "idx = []") (simp_all add: max.assoc max.left_commute)
  moreover obtain l2 where "fold_opt (probe_exit resident es (prefix_sums 0 (map (\<lambda>e. snd (key e)) es)) key grow)
      idx (max pk (?V i), l1) = Some (Max (insert (max pk (?V i)) (?V ` set idx)), l2)"
    using Cons.IH [of l1 "max pk (?V i)"] Cons.prems(1) l1(2) by auto
  ultimately show ?case using l1(1) by simp
qed simp

lemma exit_charge_perm: "mset es = mset es' \<Longrightarrow> exit_charge key g es t = exit_charge key g es' t"
proof -
  assume "mset es = mset es'"
  then have "mset (map f (filter P es)) = mset (map f (filter P es'))" for f :: "'a \<Rightarrow> nat" and P
    by simp
  then show ?thesis unfolding exit_charge_def by (metis sum_mset_sum_list)
qed

lemma peak_over_exits_ok:
  assumes "resident = sum_list (map (\<lambda>e. snd (key e)) es)"
    and grow: "\<And>still t. grow still t = sum_list (map (\<lambda>e. g e t) still)"
  shows "\<exists>pk E. peak_over_exits resident es key grow = Some pk
    \<and> pk = Max (insert resident (exit_charge key g es ` E))
    \<and> E \<subseteq> (\<lambda>e. fst (key e)) ` set es
    \<and> (length es < 8 \<longrightarrow> E = (\<lambda>e. fst (key e)) ` set es)"
proof (cases "es = []")
  case True
  then show ?thesis by (simp add: peak_over_exits_def)
next
  case False
  let ?s = "sort_key (\<lambda>e. fst (key e)) es"
  let ?x = "\<lambda>i. fst (key (?s ! i))"
  let ?E = "?x ` set (sample_indices (length es))"
  have perm: "mset ?s = mset es" by simp
  have "sum_list (map (\<lambda>e. snd (key e)) ?s) = resident"
    using assms(1) by (metis mset_map perm sum_mset_sum_list)
  then obtain l where l: "fold_opt (probe_exit resident ?s (prefix_sums 0 (map (\<lambda>e. snd (key e)) ?s)) key grow)
      (sample_indices (length es)) (resident, None)
    = Some (Max (insert resident ((\<lambda>i. exit_charge key g ?s (?x i)) ` set (sample_indices (length es)))), l)"
    using probe_exits_ok [of key ?s "sample_indices (length es)" resident grow g None resident]
      sample_indices_bound [of _ "length es"] grow by auto
  have "(\<lambda>i. exit_charge key g ?s (?x i)) ` set (sample_indices (length es)) = exit_charge key g es ` ?E"
    by (simp add: image_image exit_charge_perm [OF perm])
  moreover have "?E \<subseteq> (\<lambda>e. fst (key e)) ` set es"
    using sample_indices_bound [of _ "length es"]
    by (auto intro!: imageI) (metis length_sort nth_mem set_sort)
  moreover have "?E = (\<lambda>e. fst (key e)) ` set es" if "length es < 8"
  proof -
    have "set (sample_indices (length es)) = {0..<length ?s}"
      using that False by (simp add: sample_indices_def)
    moreover have "(!) ?s ` {0..<length ?s} = set ?s" by (metis list.set_map map_nth set_upt)
    ultimately have "?E = (\<lambda>e. fst (key e)) ` set ?s" by (metis image_image)
    then show ?thesis by simp
  qed
  ultimately show ?thesis using False l by (auto simp: peak_over_exits_def Let_def)
qed

lemma exit_charge_map:
  "exit_charge key g (map F ds) t =
     sum_list (map (\<lambda>d. snd (key (F d)) + g (F d) t) (filter (\<lambda>d. t \<le> fst (key (F d))) ds))"
  by (induction ds) (auto simp: exit_charge_def)

lemma held_grown:
  assumes "accounting_ok a" and "state_ok a d"
  shows "rd_charge d + growth_over a (current_kv d) t = held_while_running a (current_kv d + t) 1"
  using held_plus_growth [OF assms(1)] assms(2) by (simp add: state_ok_def)

lemma future_residency_0:
  "\<forall>d \<in> set ds. state_ok a d \<Longrightarrow> future_residency a ds 0 = sum_list (map rd_charge ds)"
  unfolding future_residency_def by (simp add: state_ok_def cong: map_cong)

lemma projected_peak_eq:
  assumes "accounting_ok a" and "\<forall>d \<in> set ds. state_ok a d"
  shows "\<exists>pk E. projected_peak a (sum_list (map rd_charge ds)) ds = Some pk
    \<and> pk = Max (insert (future_residency a ds 0) (future_residency a ds ` E))
    \<and> E \<subseteq> remaining_decode ` set ds \<and> (length ds < 8 \<longrightarrow> E = remaining_decode ` set ds)"
proof (cases "linear_units_per_token a")
  case (Some u)
  let ?F = "\<lambda>d. (remaining_decode d, rd_charge d)" and ?key = "\<lambda>(exit :: nat, charge :: nat). (exit, charge)"
  let ?g = "\<lambda>(e :: nat \<times> nat) t. t * u"
  have ex: "exit_charge ?key ?g (map ?F ds) t = future_residency a ds t" for t
  proof -
    have "rd_charge d + t * u = held_while_running a (current_kv d + t) 1" if "d \<in> set ds" for d
      using held_grown [OF assms(1), of d t] assms(2) that by (simp add: growth_over_def Some)
    then show ?thesis unfolding exit_charge_map future_residency_def
      by (auto intro!: arg_cong [of _ _ sum_list] map_cong)
  qed
  have sum: "length still * t * u = sum_list (map (\<lambda>e. ?g e t) still)"
    for still :: "(nat \<times> nat) list" and t by (simp add: sum_list_triv)
  show ?thesis
    using peak_over_exits_ok [where resident = "sum_list (map rd_charge ds)" and key = ?key
        and es = "map ?F ds" and grow = "\<lambda>still t. length still * t * u" and g = ?g, OF _ sum] ex
    by (simp add: projected_peak_def Some ex future_residency_0 [OF assms(2)] comp_def image_image)
next
  case None
  let ?F = "\<lambda>d. (remaining_decode d, rd_charge d, current_kv d)"
  let ?key = "\<lambda>(exit :: nat, charge :: nat, kv :: nat). (exit, charge)"
  let ?g = "\<lambda>(e :: nat, c :: nat, kv) t. growth_over a kv t"
  have ex: "exit_charge ?key ?g (map ?F ds) t = future_residency a ds t" for t
    unfolding exit_charge_map future_residency_def
    using held_grown [OF assms(1)] assms(2) by (auto intro!: arg_cong [of _ _ sum_list] map_cong)
  have sum: "sum_list (map (\<lambda>(_, _, kv). growth_over a kv t) still)
      = sum_list (map (\<lambda>e. ?g e t) still)" for still :: "(nat \<times> nat \<times> nat) list" and t
    by (induction still) auto
  show ?thesis
    using peak_over_exits_ok [where resident = "sum_list (map rd_charge ds)" and key = ?key
        and es = "map ?F ds" and g = ?g
        and grow = "\<lambda>still t. sum_list (map (\<lambda>(_, _, kv). growth_over a kv t) still)", OF _ sum] ex
    by (simp add: projected_peak_def None ex future_residency_0 [OF assms(2)] comp_def image_image)
qed

lemma future_residency_le_exit:
  assumes "accounting_ok a"
  shows "future_residency a ds t \<le> Max (insert 0 (future_residency a ds ` (remaining_decode ` set ds)))"
proof (cases "\<exists>d \<in> set ds. t \<le> remaining_decode d")
  case False
  then show ?thesis by (simp add: future_residency_def)
next
  case True
  let ?later = "{r \<in> remaining_decode ` set ds. t \<le> r}"
  define x where "x = Min ?later"
  have later: "finite ?later" "?later \<noteq> {}" using True by auto
  have x: "x \<in> ?later" "\<And>r. r \<in> ?later \<Longrightarrow> x \<le> r"
    unfolding x_def by (rule Min_in [OF later], rule Min_le [OF later(1)])
  have "(t \<le> remaining_decode d) = (x \<le> remaining_decode d)" if "d \<in> set ds" for d
    using x that by auto
  then have "filter (\<lambda>d. t \<le> remaining_decode d) ds = filter (\<lambda>d. x \<le> remaining_decode d) ds"
    by (intro filter_cong refl)
  moreover have "held_while_running a (k + t) 1 \<le> held_while_running a (k + x) 1" for k
    using x(1) by (intro held_mono [OF assms]) auto
  ultimately have "future_residency a ds t \<le> future_residency a ds x"
    unfolding future_residency_def by (auto intro: sum_list_mono)
  also have "\<dots> \<le> Max (insert 0 (future_residency a ds ` (remaining_decode ` set ds)))"
    using x(1) by (intro Max_ge) auto
  finally show ?thesis .
qed

lemma projected_peak_ok:
  assumes "accounting_ok a" and "\<forall>d \<in> set ds. state_ok a d"
  shows "\<exists>pk. projected_peak a (sum_list (map rd_charge ds)) ds = Some pk
    \<and> (\<exists>t. pk = future_residency a ds t) \<and> sum_list (map rd_charge ds) \<le> pk
    \<and> (length ds < 8 \<longrightarrow> (\<forall>t. future_residency a ds t \<le> pk))"
proof -
  obtain pk E where pk: "projected_peak a (sum_list (map rd_charge ds)) ds = Some pk"
    "pk = Max (insert (future_residency a ds 0) (future_residency a ds ` E))"
    "E \<subseteq> remaining_decode ` set ds" "length ds < 8 \<longrightarrow> E = remaining_decode ` set ds"
    using projected_peak_eq [OF assms] by blast
  have fin: "finite E" using pk(3) finite_subset by blast
  have "pk \<in> insert (future_residency a ds 0) (future_residency a ds ` E)"
    unfolding pk(2) using fin by (intro Max_in) auto
  then have "\<exists>t. pk = future_residency a ds t" by auto
  moreover have "future_residency a ds 0 \<le> pk" unfolding pk(2) using fin by (intro Max_ge) auto
  moreover have "future_residency a ds t \<le> pk" if "length ds < 8" for t
  proof -
    have "Max (insert 0 (future_residency a ds ` E)) \<le> pk"
      unfolding pk(2) using fin by (intro Max.boundedI) auto
    moreover have "E = remaining_decode ` set ds" using pk(4) that by blast
    ultimately show ?thesis using future_residency_le_exit [OF assms(1), of ds t]
      by (metis order_trans)
  qed
  ultimately show ?thesis using pk(1) future_residency_0 [OF assms(2)] by auto
qed

text \<open>C34: the projected peak is never an over-estimate and never misses the present: it returns (no
  subtraction goes below zero), it is what the decodes hold at some future step, and it is at least what
  they hold now. With fewer than eight decodes it is exact: no future step holds more.\<close>

theorem projected_peak_exact:
  assumes "accounting_ok a" and "\<forall>d \<in> set ds. state_ok a d"
  shows "\<exists>pk. projected_peak a (sum_list (map rd_charge ds)) ds = Some pk
    \<and> (\<exists>t. pk = future_residency a ds t) \<and> sum_list (map rd_charge ds) \<le> pk
    \<and> (length ds < 8 \<longrightarrow> (\<forall>t. future_residency a ds t \<le> pk))"
  using assms by (rule projected_peak_ok)

theorem projected_peak_exact_witness:
  "\<exists>pk. projected_peak sample_accounting 102 [\<lparr>current_kv = 10, remaining_decode = 5,
      rd_prompt_tokens = 10, rd_charge = held_while_running sample_accounting 10 1,
      rd_checkpoint = decode_checkpoint sample_accounting 10 10\<rparr>,
     \<lparr>current_kv = 20, remaining_decode = 9, rd_prompt_tokens = 20,
      rd_charge = held_while_running sample_accounting 20 1,
      rd_checkpoint = decode_checkpoint sample_accounting 20 20\<rparr>] = Some pk \<and> 102 \<le> pk"
    (is "\<exists>pk. projected_peak _ _ ?ds = Some pk \<and> _")
proof -
  have "sum_list (map rd_charge ?ds) = 102"
    by (simp add: held_while_running_def sample_fields per_token_units_def window_units_def div_ceil_def)
  with projected_peak_exact [OF sample_ok, of ?ds] show ?thesis by (auto simp: state_ok_def)
qed

subsection \<open>The invariant of a partition\<close>

definition partition_ok :: "ResidentPartition \<Rightarrow> bool" where
  "partition_ok p \<longleftrightarrow> accounting_ok (part_accounting p)
     \<and> resident_units p = sum_list (map rd_charge (map snd (decodes p)))
     \<and> live_checkpoint_units p = sum_list (map rd_checkpoint (map snd (decodes p)))
     \<and> (\<forall>d \<in> set (map snd (decodes p)). state_ok (part_accounting p) d)
     \<and> distinct (map fst (decodes p))
     \<and> distinct (map fst (decode_index p))
     \<and> (\<forall>r i. map_of (decode_index p) r = Some i \<longleftrightarrow>
          i < length (decodes p) \<and> fst (decodes p ! i) = r)"

lemma new_partition_ok: "accounting_ok a \<Longrightarrow> partition_ok (new_partition a)"
  by (simp add: partition_ok_def new_partition_def)

lemma index_None_iff:
  assumes "partition_ok p"
  shows "map_of (decode_index p) r = None \<longleftrightarrow> r \<notin> fst ` set (decodes p)"
proof -
  have "(\<exists>i. map_of (decode_index p) r = Some i) \<longleftrightarrow> r \<in> fst ` set (decodes p)"
    using assms by (auto simp: partition_ok_def in_set_conv_nth image_iff) (metis fst_conv nth_mem)+
  then show ?thesis by (cases "map_of (decode_index p) r") auto
qed

lemma recompute_peak_ok:
  assumes "partition_ok p"
  shows "\<exists>pk. recompute_peak p = Some (p\<lparr>cached_peak := pk\<rparr>) \<and> resident_units p \<le> pk
    \<and> (\<exists>t. pk = future_residency (part_accounting p) (map snd (decodes p)) t)
    \<and> (length (decodes p) < 8 \<longrightarrow>
        (\<forall>t. future_residency (part_accounting p) (map snd (decodes p)) t \<le> pk))"
  using projected_peak_ok [of "part_accounting p" "map snd (decodes p)"] assms
  unfolding partition_ok_def by (auto simp: recompute_peak_def)

lemma partition_ok_peak [simp]: "partition_ok (p\<lparr>cached_peak := pk\<rparr>) = partition_ok p"
  by (simp add: partition_ok_def)

definition fresh_decode :: "KvAccounting \<Rightarrow> nat \<Rightarrow> nat \<Rightarrow> nat \<Rightarrow> ResidentDecode" where
  "fresh_decode a ctx budget prompt = \<lparr>current_kv = ctx, remaining_decode = budget,
     rd_prompt_tokens = prompt, rd_charge = held_while_running a ctx 1,
     rd_checkpoint = decode_checkpoint a prompt ctx\<rparr>"

text \<open>Since \<open>recompute_peak\<close> changes nothing else, an operation that ends with it is described by
  the state it passes on.\<close>

definition peak_covers :: "ResidentPartition \<Rightarrow> bool" where
  "peak_covers p \<longleftrightarrow>
     (\<forall>t. future_residency (part_accounting p) (map snd (decodes p)) t \<le> cached_peak p)"

text \<open>With fewer than eight decodes the peak covers the residency to come; always, it is the residency
  at some step to come, so it never overstates.\<close>

definition peak_attained :: "ResidentPartition \<Rightarrow> bool" where
  "peak_attained p \<longleftrightarrow>
     (\<exists>t. cached_peak p = future_residency (part_accounting p) (map snd (decodes p)) t)"

lemma begin_decode_ok:
  assumes "partition_ok p" and "r \<notin> fst ` set (decodes p)"
  shows "\<exists>p'. begin_decode p r ctx budget prompt = Some p' \<and> partition_ok p'
    \<and> decodes p' = decodes p @ [(r, fresh_decode (part_accounting p) ctx budget prompt)]
    \<and> part_accounting p' = part_accounting p \<and> prefill_admits p' = prefill_admits p
    \<and> resident_units p' = resident_units p + held_while_running (part_accounting p) ctx 1
    \<and> resident_units p' \<le> cached_peak p' \<and> (length (decodes p') < 8 \<longrightarrow> peak_covers p')
    \<and> peak_attained p'"
proof -
  let ?a = "part_accounting p"
  let ?d = "fresh_decode ?a ctx budget prompt"
  have none: "map_of (decode_index p) r = None" using index_None_iff [OF assms(1)] assms(2) by blast
  define q where "q = p\<lparr>resident_units := resident_units p + held_while_running ?a ctx 1,
       live_checkpoint_units := live_checkpoint_units p + decode_checkpoint ?a prompt ctx,
       decode_index := AList.update r (length (decodes p)) (decode_index p),
       decodes := decodes p @ [(r, ?d)]\<rparr>"
  have "partition_ok q"
    using assms unfolding partition_ok_def q_def
    by (auto simp: fresh_decode_def state_ok_def nth_append less_Suc_eq image_iff
        split: if_splits)
  from recompute_peak_ok [OF this] obtain pk where pk: "recompute_peak q = Some (q\<lparr>cached_peak := pk\<rparr>)"
    "resident_units q \<le> pk" "length (decodes q) < 8 \<longrightarrow>
        (\<forall>t. future_residency (part_accounting q) (map snd (decodes q)) t \<le> pk)"
    "\<exists>t. pk = future_residency (part_accounting q) (map snd (decodes q)) t" by blast
  have "begin_decode p r ctx budget prompt = Some (q\<lparr>cached_peak := pk\<rparr>)"
    using pk(1) by (simp add: begin_decode_def none q_def fresh_decode_def Let_def)
  moreover have "partition_ok (q\<lparr>cached_peak := pk\<rparr>)" using \<open>partition_ok q\<close> by simp
  ultimately show ?thesis using pk(2,3,4)
    by (auto simp: q_def peak_covers_def peak_attained_def)
qed

lemma reindex_map_of:
  "distinct (map fst ds) \<Longrightarrow> map_of (reindex i ds idx) r = Some k \<longleftrightarrow>
     (\<exists>j < length ds. fst (ds ! j) = r \<and> k = i + j)
     \<or> r \<notin> fst ` set ds \<and> map_of idx r = Some k"
proof (induction i ds idx rule: reindex.induct)
  case (2 i q d ds idx)
  have q: "q \<notin> fst ` set ds" using 2 by simp
  have no: "(\<exists>j < length ds. fst (ds ! j) = q \<and> k = Suc i + j) = False"
    using q by (metis image_eqI nth_mem)
  have no': "(\<exists>j < length ds. fst (ds ! j) = q \<and> k = i + Suc j) = False"
    using q by (metis image_eqI nth_mem)
  have ih: "map_of (reindex (Suc i) ds (AList.update q i idx)) r = Some k \<longleftrightarrow>
     (\<exists>j < length ds. fst (ds ! j) = r \<and> k = Suc i + j)
     \<or> r \<notin> fst ` set ds \<and> map_of (AList.update q i idx) r = Some k" using 2 by simp
  show ?case
  proof (cases "r = q")
    case True
    have "map_of (reindex (Suc i) ds (AList.update q i idx)) r = Some k \<longleftrightarrow> k = i"
      unfolding ih unfolding True no using q by auto
    moreover have "(\<exists>j < length ((q, d) # ds). fst (((q, d) # ds) ! j) = r \<and> k = i + j) \<longleftrightarrow> k = i"
      unfolding True list.size add_Suc_right add_0_right Ex_less_Suc2 nth_Cons_0 nth_Cons_Suc
      using no' by auto
    ultimately show ?thesis using True by simp
  next
    case False
    have "(\<exists>j < length ((q, d) # ds). fst (((q, d) # ds) ! j) = r \<and> k = i + j) \<longleftrightarrow>
        (\<exists>j < length ds. fst (ds ! j) = r \<and> k = Suc i + j)"
      unfolding list.size add_Suc_right add_0_right Ex_less_Suc2 nth_Cons_0 nth_Cons_Suc
      using False by simp
    with ih False show ?thesis by simp
  qed
qed simp

lemma distinct_reindex: "distinct (map fst idx) \<Longrightarrow> distinct (map fst (reindex i ds idx))"
  by (induction i ds idx rule: reindex.induct) simp_all

lemma filter_ne_at:
  assumes "distinct (map fst ds)" and "i < length ds" and "fst (ds ! i) = r"
  shows "filter (\<lambda>x. fst x \<noteq> r) ds = take i ds @ drop (Suc i) ds"
proof -
  have ds: "ds = take i ds @ ds ! i # drop (Suc i) ds" using assms(2) by (rule id_take_nth_drop)
  then have "distinct (map fst (take i ds @ ds ! i # drop (Suc i) ds))" using assms(1) by simp
  then have "r \<notin> fst ` set (take i ds)" "r \<notin> fst ` set (drop (Suc i) ds)" using assms(3) by auto
  then have "filter (\<lambda>x. fst x \<noteq> r) (take i ds) = take i ds"
    "filter (\<lambda>x. fst x \<noteq> r) (drop (Suc i) ds) = drop (Suc i) ds"
    by (force simp: filter_id_conv)+
  then show ?thesis by (subst ds) (simp add: assms(3))
qed

lemma release_decode_ok:
  assumes "partition_ok p"
  shows "\<exists>p'. release_decode p r = Some p' \<and> partition_ok p'
    \<and> decodes p' = filter (\<lambda>x. fst x \<noteq> r) (decodes p)
    \<and> part_accounting p' = part_accounting p \<and> prefill_admits p' = prefill_admits p
    \<and> resident_units p' \<le> resident_units p
    \<and> (r \<in> fst ` set (decodes p) \<longrightarrow> resident_units p' \<le> cached_peak p'
        \<and> (length (decodes p') < 8 \<longrightarrow> peak_covers p') \<and> peak_attained p')"
proof (cases "map_of (decode_index p) r")
  case None
  then have "r \<notin> fst ` set (decodes p)" using index_None_iff [OF assms] by blast
  then have "filter (\<lambda>x. fst x \<noteq> r) (decodes p) = decodes p" by (force simp: filter_id_conv)
  with None assms \<open>r \<notin> fst ` set (decodes p)\<close> show ?thesis by (simp add: release_decode_def)
next
  case (Some i)
  let ?a = "part_accounting p" and ?ds = "decodes p"
  let ?ds' = "take i ?ds @ drop (Suc i) ?ds"
  have i: "i < length ?ds" "fst (?ds ! i) = r" using Some assms by (simp_all add: partition_ok_def)
  have dist: "distinct (map fst ?ds)" using assms by (simp add: partition_ok_def)
  have ds': "?ds' = filter (\<lambda>x. fst x \<noteq> r) ?ds" using filter_ne_at [OF dist i] by simp
  obtain d where d: "?ds ! i = (r, d)" using i(2) by (cases "?ds ! i") auto
  have sums: "sum_list (map (\<lambda>x. rd_charge (snd x)) ?ds') + rd_charge d = resident_units p"
    "sum_list (map (\<lambda>x. rd_checkpoint (snd x)) ?ds') + rd_checkpoint d = live_checkpoint_units p"
    using sum_list_remove_nth [OF i(1), of "\<lambda>x. rd_charge (snd x)"]
      sum_list_remove_nth [OF i(1), of "\<lambda>x. rd_checkpoint (snd x)"] d assms
    by (simp_all add: partition_ok_def comp_def)
  define q where "q = p\<lparr>decodes := ?ds',
    decode_index := reindex i (drop i ?ds') (AList.delete r (decode_index p)),
    resident_units := resident_units p - rd_charge d,
    live_checkpoint_units := live_checkpoint_units p - rd_checkpoint d\<rparr>"
  have dist': "distinct (map fst ?ds')" unfolding ds' using dist by (rule distinct_map_filter)
  have len: "length (take i ?ds) = i" using i(1) by simp
  have drop: "drop i ?ds' = drop (Suc i) ?ds" using len by simp
  have index: "map_of (decode_index q) x = Some j \<longleftrightarrow> j < length ?ds' \<and> fst (?ds' ! j) = x" for x j
  proof -
    have old: "map_of (decode_index p) x = Some j \<longleftrightarrow> j < length ?ds \<and> fst (?ds ! j) = x"
      using assms by (simp add: partition_ok_def)
    have tail: "distinct (map fst (drop (Suc i) ?ds))" using dist by (simp add: distinct_drop drop_map [symmetric])
    have notin: "x \<notin> fst ` set (drop (Suc i) ?ds)" if "j \<le> i" "fst (?ds ! j) = x"
    proof
      assume "x \<in> fst ` set (drop (Suc i) ?ds)"
      then obtain k where "k < length ?ds - Suc i" "fst (?ds ! (Suc i + k)) = x"
        by (auto simp: in_set_conv_nth)
      with that i(1) dist have "j = Suc i + k" by (auto simp: distinct_conv_nth)
      with that(1) show False by simp
    qed
    have inlater: "x \<in> fst ` set (drop (Suc i) ?ds)" if "i < j" "j < length ?ds" "fst (?ds ! j) = x"
    proof -
      have "drop (Suc i) ?ds ! (j - Suc i) = ?ds ! j" "j - Suc i < length (drop (Suc i) ?ds)"
        using that by simp_all
      then have "?ds ! j \<in> set (drop (Suc i) ?ds)" by (metis nth_mem)
      with that(3) show ?thesis by blast
    qed
    have "map_of (decode_index q) x = Some j \<longleftrightarrow>
       (\<exists>k < length ?ds - Suc i. fst (?ds ! (Suc i + k)) = x \<and> j = i + k)
       \<or> x \<notin> fst ` set (drop (Suc i) ?ds) \<and> x \<noteq> r \<and> j < length ?ds \<and> fst (?ds ! j) = x"
    proof -
      have "decode_index q = reindex i (drop i ?ds') (AList.delete r (decode_index p))"
        by (simp add: q_def)
      then show ?thesis unfolding drop
        by (simp add: reindex_map_of [OF tail] old nth_drop [OF Suc_leI [OF i(1)]])
    qed
    also have "\<dots> \<longleftrightarrow> j < length ?ds' \<and> fst (?ds' ! j) = x"
    proof (cases "j < i")
      case True
      moreover have "fst (?ds ! j) \<noteq> r" using True i dist by (auto simp: distinct_conv_nth)
      ultimately show ?thesis using i notin by (auto simp: nth_append)
    next
      case False
      then obtain k where "j = i + k" by (metis le_add_diff_inverse not_less)
      moreover have "\<not> (x \<notin> fst ` set (drop (Suc i) ?ds) \<and> x \<noteq> r \<and> j < length ?ds \<and> fst (?ds ! j) = x)"
        using inlater False i(2) by (metis linorder_neqE_nat)
      ultimately show ?thesis using i(1) by (auto simp: nth_append)
    qed
    finally show ?thesis .
  qed
  have "partition_ok q"
    unfolding partition_ok_def
  proof (intro conjI allI)
    show "distinct (map fst (decode_index q))"
      using assms by (simp add: q_def distinct_reindex partition_ok_def)
    show "\<forall>d \<in> set (map snd (decodes q)). state_ok (part_accounting q) d"
      using assms by (auto simp: q_def partition_ok_def dest: in_set_takeD in_set_dropD)
    show "(map_of (decode_index q) x = Some j) = (j < length (decodes q) \<and> fst (decodes q ! j) = x)"
      for x j using index by (simp add: q_def)
  qed (use assms sums dist' in \<open>simp_all add: q_def partition_ok_def comp_def\<close>)
  from recompute_peak_ok [OF this] obtain pk where pk: "recompute_peak q = Some (q\<lparr>cached_peak := pk\<rparr>)"
    "resident_units q \<le> pk" "length (decodes q) < 8 \<longrightarrow>
        (\<forall>t. future_residency (part_accounting q) (map snd (decodes q)) t \<le> pk)"
    "\<exists>t. pk = future_residency (part_accounting q) (map snd (decodes q)) t" by blast
  have "release_decode p r = Some (q\<lparr>cached_peak := pk\<rparr>)"
    using pk(1) Some i(1) d sums by (simp add: release_decode_def q_def Let_def checked_sub_def)
  moreover have "partition_ok (q\<lparr>cached_peak := pk\<rparr>)" using \<open>partition_ok q\<close> by simp
  ultimately show ?thesis using pk(2,3,4)
    by (auto simp: q_def peak_covers_def peak_attained_def ds')
qed

definition step_decode :: "KvAccounting \<Rightarrow> ResidentDecode \<Rightarrow> ResidentDecode" where
  "step_decode a d = (if 0 < remaining_decode d then advanced a d else d)"

lemma step_decode_ok: "state_ok a d \<Longrightarrow> state_ok a (step_decode a d)"
  by (simp add: step_decode_def advanced_ok)

lemma advance_all_ok:
  assumes "accounting_ok a" and "steady_checkpoints a" and "\<forall>x \<in> set ds. state_ok a (snd x)"
  shows "\<exists>hard soft. advance_all a ds = Some (map (\<lambda>(r, d). (r, step_decode a d)) ds, hard, soft)
    \<and> sum_list (map (\<lambda>x. rd_charge (snd x)) ds) + hard
        = sum_list (map (\<lambda>x. rd_charge (step_decode a (snd x))) ds)
    \<and> sum_list (map (\<lambda>x. rd_checkpoint (snd x)) ds) + soft
        = sum_list (map (\<lambda>x. rd_checkpoint (step_decode a (snd x))) ds)"
  using assms(3)
proof (induction ds)
  case (Cons x ds)
  obtain r d where x: "x = (r, d)" by (cases x)
  obtain h s where hs: "advance_all a ds = Some (map (\<lambda>(r, d). (r, step_decode a d)) ds, h, s)"
    "sum_list (map (\<lambda>x. rd_charge (snd x)) ds) + h
        = sum_list (map (\<lambda>x. rd_charge (step_decode a (snd x))) ds)"
    "sum_list (map (\<lambda>x. rd_checkpoint (snd x)) ds) + s
        = sum_list (map (\<lambda>x. rd_checkpoint (step_decode a (snd x))) ds)"
    using Cons by auto
  show ?case
  proof (cases "0 < remaining_decode d")
    case True
    with advance_state_ok [OF assms(1,2) _ True] Cons.prems x obtain h1 s1 where
      "advance_state a d = Some (advanced a d, h1, s1)"
      "rd_charge d + h1 = rd_charge (advanced a d)"
      "rd_checkpoint d + s1 = rd_checkpoint (advanced a d)" by auto
    with True hs x show ?thesis by (simp add: step_decode_def)
  next
    case False
    with hs x show ?thesis by (simp add: step_decode_def)
  qed
qed simp

lemma nth_map_fst_step: "i < length ds \<Longrightarrow>
    fst (map (\<lambda>(r, d). (r, f d)) ds ! i) = fst (ds ! i)"
  by (simp add: split_beta)

lemma map_fst_step: "map fst (map (\<lambda>(r, d). (r, f d)) ds) = map fst ds"
  by (induction ds) auto

lemma advance_decodes_ok:
  assumes "partition_ok p" and "steady_checkpoints (part_accounting p)"
  shows "\<exists>p'. advance_decodes p = Some p' \<and> partition_ok p'
    \<and> decodes p' = map (\<lambda>(r, d). (r, step_decode (part_accounting p) d)) (decodes p)
    \<and> part_accounting p' = part_accounting p \<and> prefill_admits p' = prefill_admits p
    \<and> cached_peak p' = cached_peak p"
proof -
  let ?a = "part_accounting p" and ?ds = "decodes p"
  let ?ds' = "map (\<lambda>(r, d). (r, step_decode ?a d)) ?ds"
  obtain h s where hs: "advance_all ?a ?ds = Some (?ds', h, s)"
    "sum_list (map (\<lambda>x. rd_charge (snd x)) ?ds) + h
        = sum_list (map (\<lambda>x. rd_charge (step_decode ?a (snd x))) ?ds)"
    "sum_list (map (\<lambda>x. rd_checkpoint (snd x)) ?ds) + s
        = sum_list (map (\<lambda>x. rd_checkpoint (step_decode ?a (snd x))) ?ds)"
    using advance_all_ok [of ?a ?ds] assms by (auto simp: partition_ok_def)
  let ?p' = "p\<lparr>decodes := ?ds', resident_units := resident_units p + h,
    live_checkpoint_units := live_checkpoint_units p + s\<rparr>"
  have "partition_ok ?p'"
    using assms(1) hs(2,3) step_decode_ok
    unfolding partition_ok_def
    by (auto simp: map_fst_step nth_map_fst_step comp_def split_beta)
  then show ?thesis using hs(1) by (simp add: advance_decodes_def)
qed

text \<open>A step moves the residency to come one step closer: a peak that covered it still does.\<close>

lemma future_residency_step:
  assumes "\<forall>d \<in> set ds. 0 < remaining_decode d"
  shows "future_residency a (map (step_decode a) ds) t = future_residency a ds (Suc t)"
  using assms
  by (induction ds) (auto simp: future_residency_def step_decode_def advanced_def)

lemma advance_one_ok:
  assumes "partition_ok p" and "steady_checkpoints (part_accounting p)"
  shows "\<exists>p'. advance_one r p = Some p' \<and> partition_ok p'
    \<and> decodes p' = map (\<lambda>(q, d). (q, if q = r then step_decode (part_accounting p) d else d)) (decodes p)
    \<and> part_accounting p' = part_accounting p \<and> prefill_admits p' = prefill_admits p"
proof (cases "map_of (decode_index p) r")
  case None
  then have "r \<notin> fst ` set (decodes p)" using index_None_iff [OF assms(1)] by blast
  then have "map (\<lambda>(q, d). (q, if q = r then step_decode (part_accounting p) d else d)) (decodes p)
      = decodes p" by (intro map_idI) force
  with None assms(1) show ?thesis by (simp add: advance_one_def)
next
  case (Some i)
  let ?a = "part_accounting p" and ?ds = "decodes p"
  have i: "i < length ?ds" "fst (?ds ! i) = r" using Some assms(1) by (simp_all add: partition_ok_def)
  obtain d where d: "?ds ! i = (r, d)" using i(2) by (cases "?ds ! i") auto
  have dist: "distinct (map fst ?ds)" using assms(1) by (simp add: partition_ok_def)
  have map: "map (\<lambda>(q, d). (q, if q = r then step_decode ?a d else d)) ?ds
      = ?ds[i := (r, step_decode ?a d)]"
  proof (rule nth_equalityI)
    fix j assume j: "j < length (map (\<lambda>(q, d). (q, if q = r then step_decode ?a d else d)) ?ds)"
    then have "fst (?ds ! j) = r \<longleftrightarrow> j = i"
      using i dist by (auto simp: distinct_conv_nth)
    then show "map (\<lambda>(q, d). (q, if q = r then step_decode ?a d else d)) ?ds ! j
        = ?ds[i := (r, step_decode ?a d)] ! j"
      using j d by (cases "?ds ! j") (auto simp: nth_list_update)
  qed simp
  have ok_d: "state_ok ?a d" using assms(1) i(1) d unfolding partition_ok_def
    by (metis (no_types, lifting) in_set_conv_nth length_map nth_map snd_conv)
  show ?thesis
  proof (cases "0 < remaining_decode d")
    case False
    then have "?ds[i := (r, step_decode ?a d)] = ?ds"
      using d by (metis list_update_id step_decode_def)
    with False Some i(1) d assms(1) map show ?thesis by (simp add: advance_one_def)
  next
    case True
    from advance_state_ok [OF _ assms(2) ok_d True] assms(1) obtain h s where
      hs: "advance_state ?a d = Some (advanced ?a d, h, s)"
      "rd_charge d + h = rd_charge (advanced ?a d)"
      "rd_checkpoint d + s = rd_checkpoint (advanced ?a d)" by (auto simp: partition_ok_def)
    let ?ds' = "?ds[i := (r, advanced ?a d)]"
    let ?p' = "p\<lparr>decodes := ?ds', resident_units := resident_units p + h,
      live_checkpoint_units := live_checkpoint_units p + s\<rparr>"
    have "advance_one r p = Some ?p'" using Some i(1) d hs(1) True by (simp add: advance_one_def)
    moreover have "partition_ok ?p'"
    proof -
      have "sum_list (map (\<lambda>x. rd_charge (snd x)) ?ds') = resident_units p + h"
        "sum_list (map (\<lambda>x. rd_checkpoint (snd x)) ?ds') = live_checkpoint_units p + s"
        using sum_list_update_nat [OF i(1), of "\<lambda>x. rd_charge (snd x)" "(r, advanced ?a d)"]
          sum_list_update_nat [OF i(1), of "\<lambda>x. rd_checkpoint (snd x)" "(r, advanced ?a d)"]
          hs(2,3) d assms(1)
        by (simp_all add: partition_ok_def comp_def)
      moreover have "map fst ?ds' = map fst ?ds" using i d by (metis fst_conv list_update_id map_update)
      moreover have "fst (?ds' ! j) = fst (?ds ! j)" if "j < length ?ds" for j
        using that i d by (cases "j = i") auto
      moreover have "\<forall>x \<in> set (map snd ?ds'). state_ok ?a x"
        using assms(1) advanced_ok set_update_subset_insert [of ?ds i "(r, advanced ?a d)"]
        unfolding partition_ok_def by fastforce
      ultimately show ?thesis using assms(1) unfolding partition_ok_def
        by (simp add: comp_def cong: conj_cong)
    qed
    moreover have "step_decode ?a d = advanced ?a d" using True by (simp add: step_decode_def)
    ultimately show ?thesis using map by simp
  qed
qed

lemma advance_subset_ok:
  assumes "partition_ok p" and "steady_checkpoints (part_accounting p)"
  shows "\<exists>p'. advance_subset p rs = Some p' \<and> partition_ok p'
    \<and> map fst (decodes p') = map fst (decodes p)
    \<and> part_accounting p' = part_accounting p \<and> prefill_admits p' = prefill_admits p"
proof -
  let ?P = "\<lambda>q. partition_ok q \<and> map fst (decodes q) = map fst (decodes p)
    \<and> part_accounting q = part_accounting p \<and> prefill_admits q = prefill_admits p"
  have "\<exists>q'. advance_one r q = Some q' \<and> ?P q'" if "?P q" for r q
    using advance_one_ok [of q r] that assms(2)
    by (auto simp: map_fst_step [of "\<lambda>d. d"] comp_def split_beta)
  then have "\<exists>s'. fold_opt advance_one rs p = Some s' \<and> ?P s'"
    by (intro fold_opt_total) (use assms(1) in auto)
  then show ?thesis by (simp add: advance_subset_def)
qed

subsection \<open>Every reachable partition\<close>

text \<open>The operations the store runs on one partition, as a step relation. A decode id is begun at
  most once while it is resident, which is \<open>begin_decode\<close>'s debug assertion.\<close>

inductive partition_step :: "ResidentPartition \<Rightarrow> ResidentPartition \<Rightarrow> bool" where
  step_begin: "r \<notin> fst ` set (decodes p) \<Longrightarrow> begin_decode p r ctx budget prompt = Some p' \<Longrightarrow>
    partition_step p p'"
| step_release: "release_decode p r = Some p' \<Longrightarrow> partition_step p p'"
| step_advance: "advance_decodes p = Some p' \<Longrightarrow> partition_step p p'"
| step_advance_subset: "advance_subset p rs = Some p' \<Longrightarrow> partition_step p p'"
| step_add_admit: "partition_step p (add_prefill_admit p r)"
| step_clear_admits: "partition_step p (clear_prefill_admits p)"
| step_remove_admit: "partition_step p (remove_prefill_admit p r)"

inductive_cases partition_stepE: "partition_step p p'"

inductive partition_reachable :: "KvAccounting \<Rightarrow> ResidentPartition \<Rightarrow> bool" for a where
  reach_new: "partition_reachable a (new_partition a)"
| reach_step: "partition_reachable a p \<Longrightarrow> partition_step p p' \<Longrightarrow> partition_reachable a p'"

lemma partition_ok_admits [simp]: "partition_ok (p\<lparr>prefill_admits := xs\<rparr>) = partition_ok p"
  by (simp add: partition_ok_def)

lemma partition_step_ok:
  assumes "partition_step p p'" and "partition_ok p" and "steady_checkpoints (part_accounting p)"
  shows "partition_ok p' \<and> part_accounting p' = part_accounting p"
  using assms(1)
proof (cases rule: partition_step.cases)
  case (step_begin r ctx budget prompt)
  with begin_decode_ok [OF assms(2), of r ctx budget prompt] show ?thesis by auto
next
  case (step_release r)
  with release_decode_ok [OF assms(2), of r] show ?thesis by auto
next
  case step_advance
  with advance_decodes_ok [OF assms(2,3)] show ?thesis by auto
next
  case (step_advance_subset rs)
  with advance_subset_ok [OF assms(2,3), of rs] show ?thesis by auto
qed (use assms(2) in \<open>auto simp: add_prefill_admit_def clear_prefill_admits_def
    remove_prefill_admit_def Let_def\<close>)

text \<open>every reachable partition is consistent: its totals are the sums of what its decodes
  hold and have checkpointed, every decode's cached charge is the accounting's charge at its current
  context, ids are unique and the index points at each of them.\<close>

theorem partition_reachable_ok:
  assumes "accounting_ok a" and "steady_checkpoints a" and "partition_reachable a p"
  shows "partition_ok p \<and> part_accounting p = a"
  using assms(3)
proof (induction rule: partition_reachable.induct)
  case reach_new
  show ?case using new_partition_ok [OF assms(1)] by (simp add: new_partition_def)
next
  case (reach_step p p')
  then show ?case using partition_step_ok [of p p'] assms(2) by simp
qed

text \<open>no operation of a consistent partition panics or overflows: a fresh decode begins, any
  id is released (an unknown one changes nothing) and any set of decodes advances, and the totals
  follow.\<close>

theorem partition_operations_return:
  assumes "partition_ok p" and "steady_checkpoints (part_accounting p)"
    and "q \<notin> fst ` set (decodes p)"
  shows "(\<exists>p'. begin_decode p q ctx budget prompt = Some p'
        \<and> resident_units p' = resident_units p + held_while_running (part_accounting p) ctx 1)
    \<and> (\<exists>p'. release_decode p r = Some p' \<and> decodes p' = filter (\<lambda>x. fst x \<noteq> r) (decodes p)
        \<and> resident_units p' \<le> resident_units p)
    \<and> (\<exists>p'. advance_decodes p = Some p' \<and> cached_peak p' = cached_peak p
        \<and> decodes p' = map (\<lambda>(r, d). (r, step_decode (part_accounting p) d)) (decodes p))
    \<and> (\<exists>p'. advance_subset p rs = Some p' \<and> map fst (decodes p') = map fst (decodes p))"
  using begin_decode_ok [OF assms(1,3), of ctx budget prompt] release_decode_ok [OF assms(1), of r]
    advance_decodes_ok [OF assms(1,2)] advance_subset_ok [OF assms(1,2), of rs] by blast

text \<open>the cached peak is a promise the steps keep: once it covers the residency to come, a step
  of the whole partition in which no finished decode lingers leaves it covering, so what the decodes
  hold never rises above it until it is computed again.\<close>

theorem advance_stays_under_peak:
  assumes "partition_ok p" and "steady_checkpoints (part_accounting p)" and "peak_covers p"
    and "\<forall>d \<in> set (map snd (decodes p)). 0 < remaining_decode d"
    and "advance_decodes p = Some p'"
  shows "peak_covers p' \<and> resident_units p' \<le> cached_peak p'"
proof -
  note f = advance_decodes_ok [OF assms(1,2)]
  have ok: "partition_ok p'" and ds: "decodes p' = map (\<lambda>(r, d). (r, step_decode (part_accounting p) d)) (decodes p)"
    and same: "part_accounting p' = part_accounting p" "cached_peak p' = cached_peak p"
    using f assms(5) by auto
  have "map snd (decodes p') = map (step_decode (part_accounting p)) (map snd (decodes p))"
    by (simp add: ds comp_def split_beta)
  then have covers: "peak_covers p'"
    using assms(3) future_residency_step [OF assms(4), of "part_accounting p"]
    by (simp add: peak_covers_def same del: map_map)
  moreover have "resident_units p' = future_residency (part_accounting p') (map snd (decodes p')) 0"
    using ok future_residency_0 [of "map snd (decodes p')" "part_accounting p'"]
    unfolding partition_ok_def by auto
  ultimately show ?thesis by (simp add: peak_covers_def)
qed

subsection \<open>The contract the store relies on\<close>

text \<open>What a store needs of an operation on one partition: it never fails and keeps the partition
  consistent, under the same accounting. What this gives for a bank of partitions and for repeated
  steps is proved once.\<close>

locale partition_operation =
  fixes ok :: "'c \<Rightarrow> bool" and keeps :: "'c \<Rightarrow> 'k" and operation :: "'c \<Rightarrow> 'c option"
  assumes operation_law: "ok c \<Longrightarrow> \<exists>c'. operation c = Some c' \<and> ok c' \<and> keeps c' = keeps c"
begin

lemma repeated: "ok c \<Longrightarrow> \<exists>c'. fold_opt (\<lambda>_. operation) xs c = Some c' \<and> ok c' \<and> keeps c' = keeps c"
  by (rule fold_opt_total [of xs "\<lambda>d. ok d \<and> keeps d = keeps c"]) (auto dest: operation_law)

lemma bank_step:
  assumes "list_all (\<lambda>c. ok c \<and> keeps c = a) cs" and "p < length cs"
  shows "\<exists>c'. operation (cs ! p) = Some c' \<and> list_all (\<lambda>c. ok c \<and> keeps c = a) (cs[p := c'])"
  using assms operation_law [of "cs ! p"]
  by (fastforce simp: list_all_iff dest!: set_update_subset_insert [THEN subsetD])

end

abbreviation resident_ok :: "ResidentPartition \<Rightarrow> bool" where
  "resident_ok p \<equiv> partition_ok p \<and> steady_checkpoints (part_accounting p)"

interpretation releasing: partition_operation resident_ok part_accounting "\<lambda>p. release_decode p r" for r
  using release_decode_ok by unfold_locales fastforce

interpretation advancing: partition_operation resident_ok part_accounting advance_decodes
  using advance_decodes_ok by unfold_locales fastforce

interpretation advancing_subset: partition_operation resident_ok part_accounting "\<lambda>p. advance_subset p rs" for rs
  using advance_subset_ok by unfold_locales fastforce

subsection \<open>An example partition\<close>

lemma token_steady: "steady_checkpoints (token_accounting cap)"
  by (simp add: steady_checkpoints_def token_accounting_fields)

lemma sample_partition:
  "\<exists>p. begin_decode (new_partition (token_accounting 100)) 5 10 3 10 = Some p \<and> partition_ok p
     \<and> decodes p = [(5, fresh_decode (token_accounting 100) 10 3 10)]
     \<and> part_accounting p = token_accounting 100 \<and> peak_covers p"
  using begin_decode_ok [OF new_partition_ok [OF token_accounting_ok], of 5 100 10 3 10]
  by (auto simp: new_partition_def)

theorem partition_reachable_ok_witness:
  "\<exists>p. partition_reachable (token_accounting 100) p \<and> decodes p \<noteq> [] \<and> partition_ok p"
proof -
  obtain p where p: "begin_decode (new_partition (token_accounting 100)) 5 10 3 10 = Some p"
    "decodes p = [(5, fresh_decode (token_accounting 100) 10 3 10)]" using sample_partition by blast
  have "5 \<notin> fst ` set (decodes (new_partition (token_accounting 100)))"
    by (simp add: new_partition_def)
  then have "partition_reachable (token_accounting 100) p"
    using p(1) by (intro reach_step [OF reach_new] step_begin)
  with partition_reachable_ok [OF token_accounting_ok token_steady this] p(2) show ?thesis by auto
qed

theorem partition_operations_return_witness:
  "\<exists>p p'. decodes p \<noteq> [] \<and> advance_decodes p = Some p'"
proof -
  obtain p where p: "partition_ok p" "part_accounting p = token_accounting 100"
    "decodes p = [(5, fresh_decode (token_accounting 100) 10 3 10)]" using sample_partition by blast
  then have "steady_checkpoints (part_accounting p)" "7 \<notin> fst ` set (decodes p)"
    using token_steady by simp_all
  note ops = partition_operations_return [OF p(1) this, of 4 4 4 5 "[5]"]
  have "decodes p \<noteq> []" by (simp add: p(3))
  with ops show ?thesis by blast
qed

theorem advance_stays_under_peak_witness:
  "\<exists>p p'. decodes p \<noteq> [] \<and> advance_decodes p = Some p' \<and> resident_units p' \<le> cached_peak p'"
proof -
  obtain p where p: "partition_ok p" "part_accounting p = token_accounting 100"
    "decodes p = [(5, fresh_decode (token_accounting 100) 10 3 10)]" "peak_covers p"
    using sample_partition by blast
  have st: "steady_checkpoints (part_accounting p)" using token_steady p(2) by simp
  obtain p' where p': "advance_decodes p = Some p'" using advance_decodes_ok [OF p(1) st] by blast
  have "\<forall>d \<in> set (map snd (decodes p)). 0 < remaining_decode d" by (simp add: p(3) fresh_decode_def)
  note bound = advance_stays_under_peak [OF p(1) st p(4) this p']
  have "decodes p \<noteq> []" by (simp add: p(3))
  with bound p' show ?thesis by blast
qed

end
