(* ===== verification/Request_Ledger.thy ===== *)
theory Request_Ledger
  imports Prefill_Context Resident_Partition
begin

section \<open>The KV owner's request-keyed tables (\<open>worker/kv/shared/request_ledger.rs\<close>)\<close>

text \<open>
  Promised footprints, full-footprint reservations of chunked prefill, held KV, sticky
  placement and resolved prefill contexts, each a hash map; and the running totals per
  partition that admission reads. An index out of range, an \<open>expect\<close> and a subtraction
  below zero are \<open>None\<close>. \<open>ledger_ok\<close> ties the totals to the maps.
\<close>

type_synonym partition_id = nat

record RequestLedger =
  promised :: "(request_id \<times> (partition_id \<times> nat \<times> nat)) list"
  next_promise :: nat
  chunked_prefill :: "(request_id \<times> (partition_id \<times> nat)) list"
  reserved_by_partition :: "(nat \<times> nat) list"
  held :: "(request_id \<times> (partition_id \<times> nat \<times> nat)) list"
  held_by_partition :: "nat list"
  placements :: "(request_id \<times> partition_id) list"
  prefill_contexts :: "(request_id \<times> ResolvedPrefill) list"

definition new_ledger :: "nat \<Rightarrow> RequestLedger" where
  "new_ledger n = \<lparr>promised = [], next_promise = 0, chunked_prefill = [],
     reserved_by_partition = replicate n (0, 0), held = [],
     held_by_partition = replicate n 0, placements = [], prefill_contexts = []\<rparr>"

subsection \<open>Placement\<close>

definition placement_of :: "RequestLedger \<Rightarrow> request_id \<Rightarrow> partition_id option" where
  "placement_of l r = map_of (placements l) r"

definition forget_placement :: "RequestLedger \<Rightarrow> request_id \<Rightarrow> RequestLedger \<times> partition_id option" where
  "forget_placement l r =
     (l\<lparr>placements := AList.delete r (placements l)\<rparr>, map_of (placements l) r)"

definition all_placed_on :: "RequestLedger \<Rightarrow> partition_id \<Rightarrow> request_id list \<Rightarrow> bool" where
  "all_placed_on l p rs = list_all (\<lambda>r. map_of (placements l) r = Some p) rs"

subsection \<open>Promises\<close>

definition add_reserved :: "RequestLedger \<Rightarrow> partition_id \<Rightarrow> nat \<Rightarrow> RequestLedger option" where
  "add_reserved l p charge = do {
     (total, count) \<leftarrow> nth_opt (reserved_by_partition l) p;
     count' \<leftarrow> checked_add_u32 count 1;
     Some (l\<lparr>reserved_by_partition := (reserved_by_partition l)[p := (total + charge, count')]\<rparr>)
   }"

definition remove_reserved :: "RequestLedger \<Rightarrow> partition_id \<Rightarrow> nat \<Rightarrow> RequestLedger option" where
  "remove_reserved l p charge = do {
     (total, count) \<leftarrow> nth_opt (reserved_by_partition l) p;
     total' \<leftarrow> checked_sub total charge;
     count' \<leftarrow> checked_sub count 1;
     Some (l\<lparr>reserved_by_partition := (reserved_by_partition l)[p := (total', count')]\<rparr>)
   }"

definition promise :: "RequestLedger \<Rightarrow> request_id \<Rightarrow> partition_id \<Rightarrow> nat \<Rightarrow> RequestLedger option" where
  "promise l r p charge = do {
     let previous = map_of (promised l) r;
     let l1 = l\<lparr>promised := AList.update r (p, charge, next_promise l) (promised l)\<rparr>;
     l2 \<leftarrow> (case previous of
        Some (prev_p, prev_charge, _) \<Rightarrow> remove_reserved l1 prev_p prev_charge
      | None \<Rightarrow> Some l1);
     l3 \<leftarrow> add_reserved l2 p charge;
     Some (l3\<lparr>next_promise := next_promise l3 + 1,
              placements := AList.update r p (placements l3)\<rparr>)
   }"

definition forget_promise :: "RequestLedger \<Rightarrow> request_id \<Rightarrow> RequestLedger option" where
  "forget_promise l r = (case map_of (promised l) r of
     None \<Rightarrow> Some l
   | Some (p, charge, _) \<Rightarrow>
       remove_reserved (l\<lparr>promised := AList.delete r (promised l)\<rparr>) p charge)"

definition has_promise :: "RequestLedger \<Rightarrow> request_id \<Rightarrow> bool" where
  "has_promise l r \<longleftrightarrow> map_of (promised l) r \<noteq> None \<or> map_of (chunked_prefill l) r \<noteq> None"

definition promised_charge :: "RequestLedger \<Rightarrow> request_id \<Rightarrow> nat option" where
  "promised_charge l r = (case map_of (promised l) r of
     Some (_, charge, _) \<Rightarrow> Some charge
   | None \<Rightarrow> map_option snd (map_of (chunked_prefill l) r))"

definition partition_promised :: "RequestLedger \<Rightarrow> partition_id \<Rightarrow> nat option" where
  "partition_promised l p = map_option fst (nth_opt (reserved_by_partition l) p)"

definition partition_promised_count :: "RequestLedger \<Rightarrow> partition_id \<Rightarrow> nat option" where
  "partition_promised_count l p = map_option snd (nth_opt (reserved_by_partition l) p)"

definition promote_promise_to_chunked_prefill :: "RequestLedger \<Rightarrow> request_id \<Rightarrow> RequestLedger option" where
  "promote_promise_to_chunked_prefill l r = do {
     (p, charge, _) \<leftarrow> map_of (promised l) r;
     let previous = map_of (chunked_prefill l) r;
     let l1 = l\<lparr>promised := AList.delete r (promised l),
                chunked_prefill := AList.update r (p, charge) (chunked_prefill l)\<rparr>;
     (case previous of
        Some (prev_p, prev_charge) \<Rightarrow> remove_reserved l1 prev_p prev_charge
      | None \<Rightarrow> Some l1)
   }"

definition forget_chunked_prefill :: "RequestLedger \<Rightarrow> request_id \<Rightarrow> RequestLedger option" where
  "forget_chunked_prefill l r = (case map_of (chunked_prefill l) r of
     None \<Rightarrow> Some l
   | Some (p, charge) \<Rightarrow>
       remove_reserved (l\<lparr>chunked_prefill := AList.delete r (chunked_prefill l)\<rparr>) p charge)"

definition has_chunked_prefill :: "RequestLedger \<Rightarrow> request_id \<Rightarrow> bool" where
  "has_chunked_prefill l r \<longleftrightarrow> map_of (chunked_prefill l) r \<noteq> None"

definition drain_promised ::
  "RequestLedger \<Rightarrow> (RequestLedger \<times> (partition_id \<times> request_id) list) option" where
  "drain_promised l = do {
     let drained = map (\<lambda>(r, p, charge, seq). (seq, p, r, charge)) (promised l);
     l1 \<leftarrow> fold_opt (\<lambda>(_, p, _, charge) l. remove_reserved l p charge) drained
            (l\<lparr>promised := []\<rparr>);
     Some (l1, map (\<lambda>(_, p, r, _). (p, r)) (sort_key (\<lambda>(seq, _, _, _). seq) drained))
   }"

subsection \<open>Held KV\<close>

definition hold_kv ::
  "RequestLedger \<Rightarrow> request_id \<Rightarrow> partition_id \<Rightarrow> nat \<Rightarrow> nat \<Rightarrow> RequestLedger option" where
  "hold_kv l r p units kv_tokens = do {
     let previous = map_of (held l) r;
     let l1 = l\<lparr>placements := AList.delete r (placements l),
                held := AList.update r (p, units, kv_tokens) (held l)\<rparr>;
     l2 \<leftarrow> (case previous of
        Some (prev_p, prev_units, _) \<Rightarrow> do {
          total \<leftarrow> nth_opt (held_by_partition l1) prev_p;
          Some (l1\<lparr>held_by_partition := (held_by_partition l1)[prev_p := total - prev_units]\<rparr>)
        }
      | None \<Rightarrow> Some l1);
     total \<leftarrow> nth_opt (held_by_partition l2) p;
     Some (l2\<lparr>held_by_partition := (held_by_partition l2)[p := total + units]\<rparr>)
   }"

definition take_held ::
  "RequestLedger \<Rightarrow> request_id \<Rightarrow> (RequestLedger \<times> (partition_id \<times> nat) option) option" where
  "take_held l r = (case map_of (held l) r of
     None \<Rightarrow> Some (l, None)
   | Some (p, units, kv_tokens) \<Rightarrow> do {
       total \<leftarrow> nth_opt (held_by_partition l) p;
       Some (l\<lparr>held := AList.delete r (held l),
               held_by_partition := (held_by_partition l)[p := total - units]\<rparr>,
             Some (p, kv_tokens))
     })"

definition partition_held :: "RequestLedger \<Rightarrow> partition_id \<Rightarrow> nat option" where
  "partition_held l p = nth_opt (held_by_partition l) p"

subsection \<open>Prefill contexts\<close>

definition set_prefill_context :: "RequestLedger \<Rightarrow> request_id \<Rightarrow> ResolvedPrefill \<Rightarrow> RequestLedger" where
  "set_prefill_context l r c = l\<lparr>prefill_contexts := AList.update r c (prefill_contexts l)\<rparr>"

definition ledger_schedule_chunk :: "RequestLedger \<Rightarrow> request_id \<Rightarrow> nat \<Rightarrow> RequestLedger option" where
  "ledger_schedule_chunk l r n = do {
     c \<leftarrow> map_of (prefill_contexts l) r;
     c' \<leftarrow> schedule_chunk c n;
     Some (l\<lparr>prefill_contexts := AList.update r c' (prefill_contexts l)\<rparr>)
   }"

definition ledger_complete_chunk :: "RequestLedger \<Rightarrow> request_id \<Rightarrow> RequestLedger option" where
  "ledger_complete_chunk l r = do {
     c \<leftarrow> map_of (prefill_contexts l) r;
     c' \<leftarrow> complete_chunk c;
     Some (l\<lparr>prefill_contexts := AList.update r c' (prefill_contexts l)\<rparr>)
   }"

definition prefill_context :: "RequestLedger \<Rightarrow> request_id \<Rightarrow> ResolvedPrefill option" where
  "prefill_context l r = map_of (prefill_contexts l) r"

definition take_prefill_context ::
  "RequestLedger \<Rightarrow> request_id \<Rightarrow> RequestLedger \<times> ResolvedPrefill option" where
  "take_prefill_context l r =
     (l\<lparr>prefill_contexts := AList.delete r (prefill_contexts l)\<rparr>, map_of (prefill_contexts l) r)"

subsection \<open>The invariant\<close>

definition reserved_total :: "RequestLedger \<Rightarrow> partition_id \<Rightarrow> nat" where
  "reserved_total l p =
     alist_sum (\<lambda>_ v. if fst v = p then fst (snd v) else 0) (promised l)
     + alist_sum (\<lambda>_ v. if fst v = p then snd v else 0) (chunked_prefill l)"

definition reserved_count :: "RequestLedger \<Rightarrow> partition_id \<Rightarrow> nat" where
  "reserved_count l p =
     alist_sum (\<lambda>_ v. if fst v = p then 1 else 0) (promised l)
     + alist_sum (\<lambda>_ v. if fst v = p then 1 else 0) (chunked_prefill l)"

definition held_total :: "RequestLedger \<Rightarrow> partition_id \<Rightarrow> nat" where
  "held_total l p = alist_sum (\<lambda>_ v. if fst v = p then fst (snd v) else 0) (held l)"

definition reserved_pair :: "RequestLedger \<Rightarrow> partition_id \<Rightarrow> nat \<times> nat" where
  "reserved_pair l p = (reserved_total l p, reserved_count l p)"

definition ledger_ok :: "nat \<Rightarrow> RequestLedger \<Rightarrow> bool" where
  "ledger_ok n l \<longleftrightarrow>
     reserved_by_partition l = map (reserved_pair l) [0..<n]
     \<and> held_by_partition l = map (held_total l) [0..<n]
     \<and> distinct (map fst (promised l)) \<and> distinct (map fst (chunked_prefill l))
     \<and> distinct (map fst (held l)) \<and> distinct (map fst (placements l))
     \<and> distinct (map fst (prefill_contexts l))
     \<and> (\<forall>r v. map_of (promised l) r = Some v \<longrightarrow> fst v < n \<and> snd (snd v) < next_promise l)
     \<and> (\<forall>r v. map_of (chunked_prefill l) r = Some v \<longrightarrow> fst v < n)
     \<and> (\<forall>r v. map_of (held l) r = Some v \<longrightarrow> fst v < n)
     \<and> (\<forall>r p. map_of (placements l) r = Some p \<longrightarrow> p < n)
     \<and> (\<forall>r v r' v'. map_of (promised l) r = Some v \<longrightarrow> map_of (promised l) r' = Some v' \<longrightarrow>
          snd (snd v) = snd (snd v') \<longrightarrow> r = r')"

lemma new_ledger_ok: "ledger_ok n (new_ledger n)"
  by (auto simp: ledger_ok_def new_ledger_def reserved_pair_def reserved_total_def
      reserved_count_def held_total_def intro: nth_equalityI)

lemma update_map_upt: "(map f [0..<n])[p := v] = map (f(p := v)) [0..<n]"
  by (rule nth_equalityI) (auto simp: nth_list_update)

lemma ledger_reads:
  assumes "ledger_ok n l" and "p < n"
  shows "partition_promised l p = Some (reserved_total l p)"
    and "partition_promised_count l p = Some (reserved_count l p)"
    and "partition_held l p = Some (held_total l p)"
  using assms by (simp_all add: ledger_ok_def partition_promised_def partition_promised_count_def
      partition_held_def reserved_pair_def)

lemma remove_reserved_eq:
  assumes "reserved_by_partition l = map R [0..<n]" and "p < n"
    and "charge \<le> fst (R p)" and "0 < snd (R p)"
  shows "remove_reserved l p charge = Some (l\<lparr>reserved_by_partition :=
    map (R(p := (fst (R p) - charge, snd (R p) - 1))) [0..<n]\<rparr>)"
  using assms by (cases "R p") (simp add: remove_reserved_def update_map_upt Suc_le_eq)

lemma add_reserved_eq:
  assumes "reserved_by_partition l = map R [0..<n]" and "p < n" and "snd (R p) < u32_max"
  shows "add_reserved l p charge = Some (l\<lparr>reserved_by_partition :=
    map (R(p := (fst (R p) + charge, snd (R p) + 1))) [0..<n]\<rparr>)"
  using assms by (cases "R p") (simp add: add_reserved_def update_map_upt checked_add_u32_def)

text \<open>How deleting one entry moves a total over a map.\<close>

lemma alist_sum_delete_eq:
  assumes "map_of al k = Some u" and "distinct (map fst al)"
  shows "alist_sum f (AList.delete k al) = alist_sum f al - f k u" and "f k u \<le> alist_sum f al"
  using alist_sum_delete [OF assms, of f] alist_sum_mem [OF assms(1), of f] by simp_all

lemma alist_sum_update_eq:
  assumes "distinct (map fst al)"
  shows "alist_sum f (AList.update k v al) =
    alist_sum f al - (case map_of al k of None \<Rightarrow> 0 | Some u \<Rightarrow> f k u) + f k v"
  using alist_sum_update_new [of al k f v] alist_sum_update_old [OF _ assms, of k _ f v]
    alist_sum_mem [of al k _ f]
  by (fastforce split: option.split)

text \<open>The total the maps give without one promise.\<close>

lemma promise_in_total:
  assumes "map_of (promised l) r = Some (p, charge, seq)"
  shows "charge \<le> reserved_total l p" and "0 < reserved_count l p"
  using alist_sum_mem [OF assms, of "\<lambda>_ v. if fst v = p then fst (snd v) else 0"]
    alist_sum_mem [OF assms, of "\<lambda>_ v. if fst v = p then 1 else 0"]
  by (auto simp: reserved_total_def reserved_count_def)

lemma chunked_in_total:
  assumes "map_of (chunked_prefill l) r = Some (p, charge)"
  shows "charge \<le> reserved_total l p" and "0 < reserved_count l p"
  using alist_sum_mem [OF assms, of "\<lambda>_ v. if fst v = p then snd v else 0"]
    alist_sum_mem [OF assms, of "\<lambda>_ v. if fst v = p then 1 else 0"]
  by (auto simp: reserved_total_def reserved_count_def)

lemma reserved_pair_delete_promise:
  assumes "map_of (promised l) r = Some (p, charge, seq)" and "distinct (map fst (promised l))"
  shows "reserved_pair (l\<lparr>promised := AList.delete r (promised l)\<rparr>) =
    (reserved_pair l)(p := (reserved_total l p - charge, reserved_count l p - 1))"
proof
  fix q
  have "alist_sum (\<lambda>_ v. if fst v = q then fst (snd v) else 0) (AList.delete r (promised l))
      + (if p = q then charge else 0)
      = alist_sum (\<lambda>_ v. if fst v = q then fst (snd v) else 0) (promised l)"
    "alist_sum (\<lambda>_ v. if fst v = q then 1 else 0) (AList.delete r (promised l))
      + (if p = q then 1 else 0)
      = alist_sum (\<lambda>_ v. if fst v = q then (1 :: nat) else 0) (promised l)"
    using alist_sum_delete [OF assms, of "\<lambda>_ v. if fst v = q then fst (snd v) else 0"]
      alist_sum_delete [OF assms, of "\<lambda>_ v. if fst v = q then 1 else 0"]
    by (cases "p = q"; simp)+
  then show "reserved_pair (l\<lparr>promised := AList.delete r (promised l)\<rparr>) q =
      ((reserved_pair l)(p := (reserved_total l p - charge, reserved_count l p - 1))) q"
    by (cases "p = q") (auto simp: reserved_pair_def reserved_total_def reserved_count_def)
qed

lemma reserved_pair_delete_chunked:
  assumes "map_of (chunked_prefill l) r = Some (p, charge)" and "distinct (map fst (chunked_prefill l))"
  shows "reserved_pair (l\<lparr>chunked_prefill := AList.delete r (chunked_prefill l)\<rparr>) =
    (reserved_pair l)(p := (reserved_total l p - charge, reserved_count l p - 1))"
proof
  fix q
  have "alist_sum (\<lambda>_ v. if fst v = q then snd v else 0) (AList.delete r (chunked_prefill l))
      + (if p = q then charge else 0)
      = alist_sum (\<lambda>_ v. if fst v = q then snd v else 0) (chunked_prefill l)"
    "alist_sum (\<lambda>_ v. if fst v = q then 1 else 0) (AList.delete r (chunked_prefill l))
      + (if p = q then 1 else 0)
      = alist_sum (\<lambda>_ v. if fst v = q then (1 :: nat) else 0) (chunked_prefill l)"
    using alist_sum_delete [OF assms, of "\<lambda>_ v. if fst v = q then snd v else 0"]
      alist_sum_delete [OF assms, of "\<lambda>_ v. if fst v = q then 1 else 0"]
    by (cases "p = q"; simp)+
  then show "reserved_pair (l\<lparr>chunked_prefill := AList.delete r (chunked_prefill l)\<rparr>) q =
      ((reserved_pair l)(p := (reserved_total l p - charge, reserved_count l p - 1))) q"
    by (cases "p = q") (auto simp: reserved_pair_def reserved_total_def reserved_count_def)
qed

subsection \<open>The totals are a function of the maps\<close>

text \<open>The ledger whose running totals are recomputed from its maps: every operation below is a
  plain change of one map followed by this.\<close>

definition with_reserved :: "nat \<Rightarrow> RequestLedger \<Rightarrow> RequestLedger" where
  "with_reserved n l = l\<lparr>reserved_by_partition := map (reserved_pair l) [0..<n]\<rparr>"

definition with_held :: "nat \<Rightarrow> RequestLedger \<Rightarrow> RequestLedger" where
  "with_held n l = l\<lparr>held_by_partition := map (held_total l) [0..<n]\<rparr>"

lemma with_reserved_simps [simp]:
  "promised (with_reserved n l) = promised l" "next_promise (with_reserved n l) = next_promise l"
  "chunked_prefill (with_reserved n l) = chunked_prefill l" "held (with_reserved n l) = held l"
  "held_by_partition (with_reserved n l) = held_by_partition l"
  "placements (with_reserved n l) = placements l"
  "prefill_contexts (with_reserved n l) = prefill_contexts l"
  by (simp_all add: with_reserved_def)

lemma with_held_simps [simp]:
  "promised (with_held n l) = promised l" "next_promise (with_held n l) = next_promise l"
  "chunked_prefill (with_held n l) = chunked_prefill l" "held (with_held n l) = held l"
  "reserved_by_partition (with_held n l) = reserved_by_partition l"
  "placements (with_held n l) = placements l"
  "prefill_contexts (with_held n l) = prefill_contexts l"
  by (simp_all add: with_held_def)

lemma totals_with [simp]:
  "reserved_total (with_reserved n l) = reserved_total l" "reserved_count (with_reserved n l) = reserved_count l"
  "held_total (with_reserved n l) = held_total l" "reserved_pair (with_reserved n l) = reserved_pair l"
  "reserved_total (with_held n l) = reserved_total l" "reserved_count (with_held n l) = reserved_count l"
  "held_total (with_held n l) = held_total l" "reserved_pair (with_held n l) = reserved_pair l"
  by (simp_all add: fun_eq_iff reserved_total_def reserved_count_def held_total_def reserved_pair_def)

lemma with_reserved_id: "ledger_ok n l \<Longrightarrow> with_reserved n l = l"
  by (simp add: with_reserved_def ledger_ok_def)

lemma alist_sum_update_delete:
  "distinct (map fst al) \<Longrightarrow>
     alist_sum f (AList.update k v al) = alist_sum f (AList.delete k al) + f k v"
  using alist_sum_update_eq [of al f k v] alist_sum_delete_eq [of al k _ f] alist_delete_absent [of al k]
  by (cases "map_of al k") auto

lemma reserved_pair_update_promise:
  assumes "distinct (map fst (promised l))"
  shows "reserved_pair (l\<lparr>promised := AList.update r (p, charge, seq) (promised l)\<rparr>) =
    (reserved_pair (l\<lparr>promised := AList.delete r (promised l)\<rparr>))(p :=
      (reserved_total (l\<lparr>promised := AList.delete r (promised l)\<rparr>) p + charge,
       reserved_count (l\<lparr>promised := AList.delete r (promised l)\<rparr>) p + 1))"
  by (rule ext) (simp add: reserved_pair_def reserved_total_def reserved_count_def
      alist_sum_update_delete [OF assms])

lemma reserved_pair_cong:
  "promised l = promised l' \<Longrightarrow> chunked_prefill l = chunked_prefill l' \<Longrightarrow>
     reserved_pair l = reserved_pair l'"
  by (simp add: fun_eq_iff reserved_total_def reserved_count_def reserved_pair_def)

lemma held_total_cong: "held l = held l' \<Longrightarrow> held_total l = held_total l'"
  by (simp add: fun_eq_iff held_total_def)

lemma reserved_pair_updates [simp]:
  "reserved_pair (l\<lparr>next_promise := a\<rparr>) = reserved_pair l"
  "reserved_pair (l\<lparr>placements := b\<rparr>) = reserved_pair l"
  "reserved_pair (l\<lparr>reserved_by_partition := c\<rparr>) = reserved_pair l"
  "reserved_pair (l\<lparr>held := d\<rparr>) = reserved_pair l"
  "reserved_pair (l\<lparr>held_by_partition := e\<rparr>) = reserved_pair l"
  "reserved_pair (l\<lparr>prefill_contexts := g\<rparr>) = reserved_pair l"
  "held_total (l\<lparr>next_promise := a\<rparr>) = held_total l"
  "held_total (l\<lparr>placements := b\<rparr>) = held_total l"
  "held_total (l\<lparr>reserved_by_partition := c\<rparr>) = held_total l"
  "held_total (l\<lparr>promised := h\<rparr>) = held_total l"
  "held_total (l\<lparr>chunked_prefill := i\<rparr>) = held_total l"
  "held_total (l\<lparr>held_by_partition := e\<rparr>) = held_total l"
  "held_total (l\<lparr>prefill_contexts := g\<rparr>) = held_total l"
  by (simp_all add: fun_eq_iff reserved_pair_def reserved_total_def reserved_count_def held_total_def)

lemma forget_promise_eq:
  assumes "ledger_ok n l"
  shows "forget_promise l r = Some (with_reserved n (l\<lparr>promised := AList.delete r (promised l)\<rparr>))"
proof (cases "map_of (promised l) r")
  case None
  then show ?thesis
    by (simp add: forget_promise_def alist_delete_absent with_reserved_id [OF assms])
next
  case (Some v)
  obtain p charge seq where v: "v = (p, charge, seq)" by (cases v)
  let ?l = "l\<lparr>promised := AList.delete r (promised l)\<rparr>"
  have "p < n" using assms Some v by (fastforce simp: ledger_ok_def)
  moreover have "reserved_by_partition ?l = map (reserved_pair l) [0..<n]"
    using assms by (simp add: ledger_ok_def)
  ultimately have "remove_reserved ?l p charge = Some (?l\<lparr>reserved_by_partition :=
      map ((reserved_pair l)(p := (reserved_total l p - charge, reserved_count l p - 1))) [0..<n]\<rparr>)"
    using remove_reserved_eq [of ?l "reserved_pair l" n p charge] promise_in_total [of l r p charge seq] Some v
    by (simp add: reserved_pair_def)
  moreover have "(reserved_pair l)(p := (reserved_total l p - charge, reserved_count l p - 1)) = reserved_pair ?l"
    using reserved_pair_delete_promise [of l r p charge seq] Some v assms by (simp add: ledger_ok_def)
  ultimately show ?thesis using Some v by (simp add: forget_promise_def with_reserved_def)
qed

lemma forget_chunked_prefill_eq:
  assumes "ledger_ok n l"
  shows "forget_chunked_prefill l r =
    Some (with_reserved n (l\<lparr>chunked_prefill := AList.delete r (chunked_prefill l)\<rparr>))"
proof (cases "map_of (chunked_prefill l) r")
  case None
  then show ?thesis
    by (simp add: forget_chunked_prefill_def alist_delete_absent with_reserved_id [OF assms])
next
  case (Some v)
  obtain p charge where v: "v = (p, charge)" by (cases v)
  let ?l = "l\<lparr>chunked_prefill := AList.delete r (chunked_prefill l)\<rparr>"
  have "p < n" using assms Some v by (fastforce simp: ledger_ok_def)
  moreover have "reserved_by_partition ?l = map (reserved_pair l) [0..<n]"
    using assms by (simp add: ledger_ok_def)
  ultimately have "remove_reserved ?l p charge = Some (?l\<lparr>reserved_by_partition :=
      map ((reserved_pair l)(p := (reserved_total l p - charge, reserved_count l p - 1))) [0..<n]\<rparr>)"
    using remove_reserved_eq [of ?l "reserved_pair l" n p charge] chunked_in_total [of l r p charge] Some v
    by (simp add: reserved_pair_def)
  moreover have "(reserved_pair l)(p := (reserved_total l p - charge, reserved_count l p - 1)) = reserved_pair ?l"
    using reserved_pair_delete_chunked [of l r p charge] Some v assms by (simp add: ledger_ok_def)
  ultimately show ?thesis using Some v by (simp add: forget_chunked_prefill_def with_reserved_def)
qed

lemma reserved_count_delete_le:
  "distinct (map fst (promised l)) \<Longrightarrow>
     reserved_count (l\<lparr>promised := AList.delete r (promised l)\<rparr>) p \<le> reserved_count l p"
  "distinct (map fst (promised l)) \<Longrightarrow>
     reserved_total (l\<lparr>promised := AList.delete r (promised l)\<rparr>) p \<le> reserved_total l p"
  by (simp_all add: reserved_count_def reserved_total_def alist_sum_delete_le)

lemma promise_eq:
  assumes "ledger_ok n l" and "p < n" and "reserved_count l p < u32_max"
  shows "promise l r p charge = Some (with_reserved n
    (l\<lparr>promised := AList.update r (p, charge, next_promise l) (promised l),
       next_promise := next_promise l + 1, placements := AList.update r p (placements l)\<rparr>))"
proof -
  let ?d = "l\<lparr>promised := AList.delete r (promised l)\<rparr>"
  let ?l1 = "l\<lparr>promised := AList.update r (p, charge, next_promise l) (promised l)\<rparr>"
  have dist: "distinct (map fst (promised l))" and res: "reserved_by_partition l = map (reserved_pair l) [0..<n]"
    using assms(1) by (simp_all add: ledger_ok_def)
  let ?l2 = "?l1\<lparr>reserved_by_partition := map (reserved_pair ?d) [0..<n]\<rparr>"
  have step2: "(case map_of (promised l) r of
        Some (prev_p, prev_charge, _) \<Rightarrow> remove_reserved ?l1 prev_p prev_charge
      | None \<Rightarrow> Some ?l1) = Some ?l2"
  proof (cases "map_of (promised l) r")
    case None
    then show ?thesis using res by (simp add: alist_delete_absent)
  next
    case (Some v)
    obtain q c s where v: "v = (q, c, s)" by (cases v)
    have "q < n" using assms(1) Some v by (fastforce simp: ledger_ok_def)
    then have "remove_reserved ?l1 q c = Some (?l1\<lparr>reserved_by_partition :=
        map ((reserved_pair l)(q := (reserved_total l q - c, reserved_count l q - 1))) [0..<n]\<rparr>)"
      using remove_reserved_eq [of ?l1 "reserved_pair l" n q c] promise_in_total [of l r q c s] Some v res
      by (simp add: reserved_pair_def)
    then show ?thesis using reserved_pair_delete_promise [of l r q c s] Some v dist by simp
  qed
  have "reserved_count ?d p < u32_max"
    using reserved_count_delete_le(1) [OF dist, of r p] assms(3) by linarith
  then have "add_reserved ?l2 p charge = Some (?l2\<lparr>reserved_by_partition :=
      map (reserved_pair ?l1) [0..<n]\<rparr>)"
    using add_reserved_eq [of ?l2 "reserved_pair ?d" n p charge] assms(2)
      reserved_pair_update_promise [OF dist, of r p charge "next_promise l"]
    by (simp add: reserved_pair_def)
  with step2 show ?thesis
    by (simp add: promise_def with_reserved_def Let_def)
qed

lemma promote_promise_eq:
  assumes "ledger_ok n l" and "map_of (promised l) r = Some (p, charge, seq)"
  shows "promote_promise_to_chunked_prefill l r = Some (with_reserved n
    (l\<lparr>promised := AList.delete r (promised l),
       chunked_prefill := AList.update r (p, charge) (chunked_prefill l)\<rparr>))"
proof -
  let ?c = "chunked_prefill l"
  let ?l1 = "l\<lparr>promised := AList.delete r (promised l), chunked_prefill := AList.update r (p, charge) ?c\<rparr>"
  have dist: "distinct (map fst (promised l))" "distinct (map fst ?c)"
    and res: "reserved_by_partition l = map (reserved_pair l) [0..<n]"
    using assms(1) by (simp_all add: ledger_ok_def)
  note gone = reserved_pair_delete_promise [OF assms(2) dist(1)]
  have sums: "reserved_pair ?l1 = (\<lambda>q. let (t, k) = reserved_pair
      (l\<lparr>promised := AList.delete r (promised l), chunked_prefill := AList.delete r ?c\<rparr>) q
      in (t + (if q = p then charge else 0), k + (if q = p then 1 else 0)))"
    by (rule ext) (simp add: reserved_pair_def reserved_total_def reserved_count_def
        alist_sum_update_delete [OF dist(2)])
  show ?thesis
  proof (cases "map_of ?c r")
    case None
    have "reserved_pair ?l1 = reserved_pair l"
    proof
      fix q
      show "reserved_pair ?l1 q = reserved_pair l q"
        using fun_cong [OF gone, of q] promise_in_total [OF assms(2)]
        unfolding sums alist_delete_absent [OF None]
        by (cases "q = p") (auto simp: reserved_pair_def reserved_total_def reserved_count_def)
    qed
    with None assms(2) res show ?thesis
      by (simp add: promote_promise_to_chunked_prefill_def with_reserved_def)
  next
    case (Some v)
    obtain q c where v: "v = (q, c)" by (cases v)
    have "q < n" using assms(1) Some v by (fastforce simp: ledger_ok_def)
    then have "remove_reserved ?l1 q c = Some (?l1\<lparr>reserved_by_partition :=
        map ((reserved_pair l)(q := (reserved_total l q - c, reserved_count l q - 1))) [0..<n]\<rparr>)"
      using remove_reserved_eq [of ?l1 "reserved_pair l" n q c] chunked_in_total [of l r q c] Some v res
      by (simp add: reserved_pair_def)
    moreover have "reserved_pair ?l1 = (reserved_pair l)(q := (reserved_total l q - c, reserved_count l q - 1))"
    proof
      fix x
      have "map_of (chunked_prefill (l\<lparr>promised := AList.delete r (promised l)\<rparr>)) r = Some (q, c)"
        using Some v by simp
      note del = reserved_pair_delete_chunked [OF this]
      have "reserved_pair (l\<lparr>promised := AList.delete r (promised l), chunked_prefill := AList.delete r ?c\<rparr>) x
        = ((reserved_pair (l\<lparr>promised := AList.delete r (promised l)\<rparr>))(q :=
            (reserved_total (l\<lparr>promised := AList.delete r (promised l)\<rparr>) q - c,
             reserved_count (l\<lparr>promised := AList.delete r (promised l)\<rparr>) q - 1))) x"
        using fun_cong [OF del, of x] dist(2) by simp
      moreover have "c \<le> reserved_total (l\<lparr>promised := AList.delete r (promised l)\<rparr>) q"
        "0 < reserved_count (l\<lparr>promised := AList.delete r (promised l)\<rparr>) q"
        using chunked_in_total [of "l\<lparr>promised := AList.delete r (promised l)\<rparr>" r q c] Some v by simp_all
      ultimately show "reserved_pair ?l1 x
          = ((reserved_pair l)(q := (reserved_total l q - c, reserved_count l q - 1))) x"
        using fun_cong [OF gone, of x] fun_cong [OF gone, of q] promise_in_total [OF assms(2)]
        unfolding sums
        by (cases "x = p"; cases "x = q") (auto simp: reserved_pair_def)
    qed
    ultimately show ?thesis using Some v assms(2)
      by (simp add: promote_promise_to_chunked_prefill_def with_reserved_def)
  qed
qed

lemma drain_removals:
  assumes "reserved_by_partition l = map (reserved_pair (l\<lparr>promised := xs\<rparr>)) [0..<n]"
    and "\<forall>x \<in> set xs. fst (snd x) < n"
  shows "fold_opt (\<lambda>(_, p, _, charge) l. remove_reserved l p charge)
      (map (\<lambda>(r, p, charge, seq). (seq, p, r, charge)) xs) l
    = Some (l\<lparr>reserved_by_partition := map (reserved_pair (l\<lparr>promised := []\<rparr>)) [0..<n]\<rparr>)"
  using assms
proof (induction xs arbitrary: l)
  case Nil
  then show ?case by simp
next
  case (Cons x xs)
  obtain r p c s where x: "x = (r, p, c, s)" by (cases x)
  let ?R = "reserved_pair (l\<lparr>promised := x # xs\<rparr>)"
  let ?l1 = "l\<lparr>reserved_by_partition := map (?R(p := (fst (?R p) - c, snd (?R p) - 1))) [0..<n]\<rparr>"
  have "remove_reserved l p c = Some ?l1"
    using Cons.prems x by (intro remove_reserved_eq)
      (auto simp: reserved_pair_def reserved_total_def reserved_count_def)
  moreover have "?R(p := (fst (?R p) - c, snd (?R p) - 1)) = reserved_pair (l\<lparr>promised := xs\<rparr>)"
    by (rule ext) (auto simp: x reserved_pair_def reserved_total_def reserved_count_def)
  moreover have "reserved_pair (?l1\<lparr>promised := ys\<rparr>) = reserved_pair (l\<lparr>promised := ys\<rparr>)" for ys
    by (rule reserved_pair_cong) simp_all
  ultimately show ?case using Cons.IH [of ?l1] Cons.prems x by simp
qed

definition promise_order :: "RequestLedger \<Rightarrow> (partition_id \<times> request_id) list" where
  "promise_order l = map (\<lambda>(r, p, _, _). (p, r)) (sort_key (\<lambda>x. snd (snd (snd x))) (promised l))"

lemma sort_key_map: "map g (sort_key (\<lambda>x. f (g x)) xs) = sort_key f (map g xs)"
proof (induction xs)
  case (Cons x xs)
  have "map g (insort_key (\<lambda>x. f (g x)) x ys) = insort_key f (g x) (map g ys)" for ys
    by (induction ys) auto
  with Cons show ?case by simp
qed simp

lemma drain_promised_eq:
  assumes "ledger_ok n l"
  shows "drain_promised l = Some (with_reserved n (l\<lparr>promised := []\<rparr>), promise_order l)"
proof -
  let ?g = "\<lambda>(r, p, charge, seq). (seq, p, r, charge)"
  have "\<forall>x \<in> set (promised l). fst (snd x) < n"
  proof
    fix x assume "x \<in> set (promised l)"
    then have "map_of (promised l) (fst x) = Some (snd x)"
      using assms by (intro map_of_is_SomeI) (auto simp: ledger_ok_def)
    then show "fst (snd x) < n" using assms unfolding ledger_ok_def by blast
  qed
  then have "fold_opt (\<lambda>(_, p, _, charge) l. remove_reserved l p charge) (map ?g (promised l))
      (l\<lparr>promised := []\<rparr>) = Some (with_reserved n (l\<lparr>promised := []\<rparr>))"
    using drain_removals [of "l\<lparr>promised := []\<rparr>" "promised l" n] assms
    by (simp add: ledger_ok_def with_reserved_def)
  moreover have "sort_key (\<lambda>(seq, _, _, _). seq) (map ?g (promised l))
      = map ?g (sort_key (\<lambda>x. snd (snd (snd x))) (promised l))"
    by (subst sort_key_map [symmetric]) (simp add: comp_def split_beta)
  ultimately show ?thesis
    by (simp add: drain_promised_def promise_order_def comp_def split_beta)
qed

text \<open>Two association lists with the same pairs and distinct sequence numbers sort alike.\<close>

lemma sort_key_unique:
  assumes "set xs = set ys" and "distinct (map f xs)" and "distinct (map f ys)"
  shows "sort_key f xs = sort_key f ys"
proof (rule properties_for_sort_key)
  have "mset xs = mset ys"
    using assms by (metis distinct_map set_eq_iff_mset_eq_distinct)
  then show "mset (sort_key f ys) = mset xs" by simp
  show "sorted (map f (sort_key f ys))" by simp
  fix k assume "k \<in> set (sort_key f ys)"
  then have k: "k \<in> set xs" "k \<in> set ys" using assms(1) by auto
  have "filter (\<lambda>x. f k = f x) zs = [k]" if "k \<in> set zs" "distinct (map f zs)" for zs
    using that
  proof (induction zs)
    case (Cons z zs)
    then show ?case
    proof (cases "z = k")
      case True
      then have "filter (\<lambda>x. f k = f x) zs = []" using Cons.prems by (auto simp: filter_empty_conv)
      with True show ?thesis by simp
    next
      case False
      then show ?thesis using Cons by (auto simp: image_iff)
    qed
  qed simp
  moreover have "distinct (map f (sort_key f ys))"
    using assms(3) by (metis distinct_map distinct_sort mset_sort mset_eq_setD set_sort)
  ultimately show "filter (\<lambda>x. f k = f x) (sort_key f ys) = filter (\<lambda>x. f k = f x) xs"
    using k assms(2) by simp
qed

lemma promise_seqs_distinct:
  assumes "ledger_ok n l"
  shows "distinct (map (\<lambda>x. snd (snd (snd x))) (promised l))"
proof -
  have d: "distinct (map fst (promised l))" using assms by (simp add: ledger_ok_def)
  have "inj_on (\<lambda>x. snd (snd (snd x))) (set (promised l))"
  proof (rule inj_onI)
    fix x y assume xy: "x \<in> set (promised l)" "y \<in> set (promised l)"
      and eq: "snd (snd (snd x)) = snd (snd (snd y))"
    have m: "map_of (promised l) (fst x) = Some (snd x)" "map_of (promised l) (fst y) = Some (snd y)"
      using xy d by (auto intro: map_of_is_SomeI)
    then have "fst x = fst y" using eq assms unfolding ledger_ok_def by blast
    then show "x = y" using m by (metis option.inject prod.collapse)
  qed
  moreover have "distinct (promised l)" using d by (simp add: distinct_map)
  ultimately show ?thesis by (simp add: distinct_map)
qed

lemma with_held_id: "ledger_ok n l \<Longrightarrow> with_held n l = l"
  by (simp add: with_held_def ledger_ok_def)

lemma held_total_delete:
  assumes "map_of (held l) r = Some (p, units, t)" and "distinct (map fst (held l))"
  shows "held_total (l\<lparr>held := AList.delete r (held l)\<rparr>) =
    (held_total l)(p := held_total l p - units)"
proof
  fix q
  have "alist_sum (\<lambda>_ v. if fst v = q then fst (snd v) else 0) (AList.delete r (held l))
      + (if p = q then units else 0)
      = alist_sum (\<lambda>_ v. if fst v = q then fst (snd v) else 0) (held l)"
    using alist_sum_delete [OF assms, of "\<lambda>_ v. if fst v = q then fst (snd v) else 0"]
    by (cases "p = q"; simp)
  then show "held_total (l\<lparr>held := AList.delete r (held l)\<rparr>) q =
      ((held_total l)(p := held_total l p - units)) q"
    by (cases "p = q") (auto simp: held_total_def)
qed

lemma held_total_placements:
  "held_total (l\<lparr>placements := a, held := h\<rparr>) = held_total (l\<lparr>held := h\<rparr>)"
  by (rule held_total_cong) simp

lemma hold_kv_eq:
  assumes "ledger_ok n l" and "p < n"
  shows "hold_kv l r p units t = Some (with_held n (l\<lparr>placements := AList.delete r (placements l),
    held := AList.update r (p, units, t) (held l)\<rparr>))"
proof -
  have dist: "distinct (map fst (held l))" and hb: "held_by_partition l = map (held_total l) [0..<n]"
    using assms(1) by (simp_all add: ledger_ok_def)
  let ?d = "l\<lparr>held := AList.delete r (held l)\<rparr>"
  have new: "held_total (l\<lparr>held := AList.update r (p, units, t) (held l)\<rparr>)
      = (held_total ?d)(p := held_total ?d p + units)"
    by (rule ext) (simp add: held_total_def alist_sum_update_delete [OF dist])
  show ?thesis
  proof (cases "map_of (held l) r")
    case None
    then have "held_total ?d = held_total l" by (simp add: alist_delete_absent)
    with None assms(2) hb new show ?thesis
      by (simp add: hold_kv_def with_held_def Let_def update_map_upt held_total_placements)
  next
    case (Some v)
    obtain q u s where v: "v = (q, u, s)" by (cases v)
    have "q < n" using assms(1) Some v by (fastforce simp: ledger_ok_def)
    moreover have "held_total ?d = (held_total l)(q := held_total l q - u)"
      using held_total_delete [of l r q u s] Some v dist by simp
    ultimately show ?thesis using Some v assms(2) hb new
      by (simp add: hold_kv_def with_held_def Let_def update_map_upt held_total_placements)
  qed
qed

lemma take_held_eq:
  assumes "ledger_ok n l"
  shows "take_held l r = Some (with_held n (l\<lparr>held := AList.delete r (held l)\<rparr>),
    map_option (\<lambda>(p, _, t). (p, t)) (map_of (held l) r))"
proof (cases "map_of (held l) r")
  case None
  then show ?thesis by (simp add: take_held_def alist_delete_absent with_held_id [OF assms])
next
  case (Some v)
  obtain p u t where v: "v = (p, u, t)" by (cases v)
  have "p < n" using assms Some v by (fastforce simp: ledger_ok_def)
  moreover have "held_total (l\<lparr>held := AList.delete r (held l)\<rparr>) = (held_total l)(p := held_total l p - u)"
    using held_total_delete [of l r p u t] Some v assms by (simp add: ledger_ok_def)
  ultimately show ?thesis using Some v assms
    by (simp add: take_held_def with_held_def update_map_upt ledger_ok_def)
qed

subsection \<open>The invariant is kept\<close>

lemma ledger_ok_promise:
  assumes "ledger_ok n l" and "p < n"
  shows "ledger_ok n (with_reserved n
    (l\<lparr>promised := AList.update r (p, charge, next_promise l) (promised l),
       next_promise := next_promise l + 1, placements := AList.update r p (placements l)\<rparr>))"
proof -
  have seq: "snd (snd v) < next_promise l" if "map_of (promised l) q = Some v" for q v
    using assms(1) that unfolding ledger_ok_def by blast
  show ?thesis using assms seq
    by (auto simp: ledger_ok_def with_reserved_def split: if_splits)
      (metis less_SucI less_irrefl_nat snd_conv)+
qed

lemma ledger_ok_delete_promise:
  "ledger_ok n l \<Longrightarrow> ledger_ok n (with_reserved n (l\<lparr>promised := AList.delete r (promised l)\<rparr>))"
  by (auto simp: ledger_ok_def with_reserved_def split: if_splits)

lemma ledger_ok_delete_chunked:
  "ledger_ok n l \<Longrightarrow>
     ledger_ok n (with_reserved n (l\<lparr>chunked_prefill := AList.delete r (chunked_prefill l)\<rparr>))"
  by (auto simp: ledger_ok_def with_reserved_def split: if_splits)

lemma ledger_ok_promote:
  assumes "ledger_ok n l" and "map_of (promised l) r = Some (p, charge, seq)"
  shows "ledger_ok n (with_reserved n (l\<lparr>promised := AList.delete r (promised l),
    chunked_prefill := AList.update r (p, charge) (chunked_prefill l)\<rparr>))"
proof -
  have "p < n" using assms unfolding ledger_ok_def by fastforce
  then show ?thesis using assms(1) by (auto simp: ledger_ok_def with_reserved_def split: if_splits)
qed

lemma ledger_ok_drain: "ledger_ok n l \<Longrightarrow> ledger_ok n (with_reserved n (l\<lparr>promised := []\<rparr>))"
  by (simp add: ledger_ok_def with_reserved_def)

lemma ledger_ok_hold:
  "ledger_ok n l \<Longrightarrow> p < n \<Longrightarrow> ledger_ok n (with_held n (l\<lparr>placements := AList.delete r (placements l),
    held := AList.update r (p, units, t) (held l)\<rparr>))"
  by (auto simp: ledger_ok_def with_held_def split: if_splits)

lemma ledger_ok_take_held:
  "ledger_ok n l \<Longrightarrow> ledger_ok n (with_held n (l\<lparr>held := AList.delete r (held l)\<rparr>))"
  by (auto simp: ledger_ok_def with_held_def split: if_splits)

lemma ledger_ok_contexts:
  "ledger_ok n l \<Longrightarrow> distinct (map fst cs) \<Longrightarrow> ledger_ok n (l\<lparr>prefill_contexts := cs\<rparr>)"
  by (auto simp: ledger_ok_def)

lemma ledger_ok_placements:
  "ledger_ok n l \<Longrightarrow> ledger_ok n (l\<lparr>placements := AList.delete r (placements l)\<rparr>)"
  by (auto simp: ledger_ok_def split: if_splits)

subsection \<open>Every reachable ledger\<close>

inductive ledger_step :: "nat \<Rightarrow> RequestLedger \<Rightarrow> RequestLedger \<Rightarrow> bool" for n where
  ls_promise: "p < n \<Longrightarrow> reserved_count l p < u32_max \<Longrightarrow> promise l r p charge = Some l' \<Longrightarrow>
    ledger_step n l l'"
| ls_forget_promise: "forget_promise l r = Some l' \<Longrightarrow> ledger_step n l l'"
| ls_promote: "promote_promise_to_chunked_prefill l r = Some l' \<Longrightarrow> ledger_step n l l'"
| ls_forget_chunked: "forget_chunked_prefill l r = Some l' \<Longrightarrow> ledger_step n l l'"
| ls_drain: "drain_promised l = Some (l', order) \<Longrightarrow> ledger_step n l l'"
| ls_hold: "p < n \<Longrightarrow> hold_kv l r p units tokens = Some l' \<Longrightarrow> ledger_step n l l'"
| ls_take_held: "take_held l r = Some (l', out) \<Longrightarrow> ledger_step n l l'"
| ls_set_context: "ledger_step n l (set_prefill_context l r c)"
| ls_schedule: "ledger_schedule_chunk l r k = Some l' \<Longrightarrow> ledger_step n l l'"
| ls_complete: "ledger_complete_chunk l r = Some l' \<Longrightarrow> ledger_step n l l'"
| ls_take_context: "ledger_step n l (fst (take_prefill_context l r))"
| ls_forget_placement: "ledger_step n l (fst (forget_placement l r))"

inductive ledger_reachable :: "nat \<Rightarrow> RequestLedger \<Rightarrow> bool" for n where
  lr_new: "ledger_reachable n (new_ledger n)"
| lr_step: "ledger_reachable n l \<Longrightarrow> ledger_step n l l' \<Longrightarrow> ledger_reachable n l'"

lemma ledger_step_ok:
  assumes "ledger_step n l l'" and ok: "ledger_ok n l"
  shows "ledger_ok n l'"
proof -
  have dc: "distinct (map fst (prefill_contexts l))" using ok by (simp add: ledger_ok_def)
  show ?thesis using assms(1)
  proof cases
  case (ls_promise p r charge)
  with promise_eq [OF ok, of p r charge] ledger_ok_promise [OF ok, of p r charge] show ?thesis by simp
next
  case (ls_forget_promise r)
  with forget_promise_eq [OF ok, of r] ledger_ok_delete_promise [OF ok, of r] show ?thesis by simp
next
  case (ls_promote r)
  then obtain p charge seq where "map_of (promised l) r = Some (p, charge, seq)"
    by (auto simp: promote_promise_to_chunked_prefill_def bind_Some_iff)
  with ls_promote promote_promise_eq [OF ok this] ledger_ok_promote [OF ok this] show ?thesis by simp
next
  case (ls_forget_chunked r)
  with forget_chunked_prefill_eq [OF ok, of r] ledger_ok_delete_chunked [OF ok, of r] show ?thesis by simp
next
  case (ls_drain order)
  with drain_promised_eq [OF ok] ledger_ok_drain [OF ok] show ?thesis by simp
next
  case (ls_hold p r units tokens)
  with hold_kv_eq [OF ok, of p r units tokens] ledger_ok_hold [OF ok, of p r units tokens]
  show ?thesis by simp
next
  case (ls_take_held r out)
  with take_held_eq [OF ok, of r] ledger_ok_take_held [OF ok, of r] show ?thesis by simp
  qed (use ok dc in \<open>auto simp: set_prefill_context_def ledger_schedule_chunk_def
    ledger_complete_chunk_def take_prefill_context_def forget_placement_def bind_Some_iff
    ledger_ok_placements intro!: ledger_ok_contexts\<close>)
qed

lemma ledger_reachable_ok: "ledger_reachable n l \<Longrightarrow> ledger_ok n l"
  by (induction rule: ledger_reachable.induct) (auto intro: new_ledger_ok ledger_step_ok)

text \<open>the per-partition totals admission reads are exact in every reachable ledger: the
  promised units and count of a partition are the sums over the promises and chunked-prefill
  reservations on it, and the held units the sum over what is held there.\<close>

theorem ledger_totals_exact:
  assumes "ledger_reachable n l" and "p < n"
  shows "partition_promised l p = Some (reserved_total l p)
    \<and> partition_promised_count l p = Some (reserved_count l p)
    \<and> partition_held l p = Some (held_total l p)"
  using ledger_reads [OF ledger_reachable_ok [OF assms(1)] assms(2)] by simp

text \<open>no operation of a reachable ledger panics: promising (short of \<open>u32::MAX\<close> reservations
  on a partition), forgetting, draining, holding and taking back always return, the reservation total
  never goes below zero, and promoting a promise to chunked prefill keeps its reservation.\<close>

theorem ledger_operations_return:
  assumes "ledger_reachable n l" and "p < n" and "reserved_count l p < u32_max"
    and "map_of (promised l) q = Some (p', charge', seq')" and "map_of (chunked_prefill l) q = None"
  shows "promise l r p charge \<noteq> None \<and> forget_promise l r \<noteq> None
    \<and> forget_chunked_prefill l r \<noteq> None \<and> drain_promised l \<noteq> None
    \<and> hold_kv l r p units t \<noteq> None \<and> take_held l r \<noteq> None
    \<and> (\<exists>l'. promote_promise_to_chunked_prefill l q = Some l'
        \<and> reserved_total l' p' = reserved_total l p' \<and> reserved_count l' p' = reserved_count l p')"
proof -
  have ok: "ledger_ok n l" using assms(1) by (rule ledger_reachable_ok)
  have "promote_promise_to_chunked_prefill l q = Some (with_reserved n
    (l\<lparr>promised := AList.delete q (promised l),
       chunked_prefill := AList.update q (p', charge') (chunked_prefill l)\<rparr>))"
    by (rule promote_promise_eq [OF ok assms(4)])
  moreover have "distinct (map fst (promised l))" "distinct (map fst (chunked_prefill l))"
    using ok by (simp_all add: ledger_ok_def)
  moreover note alist_sum_delete [OF assms(4), of "\<lambda>_ v. if fst v = p' then fst (snd v) else 0"]
    alist_sum_delete [OF assms(4), of "\<lambda>_ v. if fst v = p' then 1 else 0"]
  ultimately show ?thesis
    using promise_eq [OF ok assms(2,3)] forget_promise_eq [OF ok] forget_chunked_prefill_eq [OF ok]
      drain_promised_eq [OF ok] hold_kv_eq [OF ok assms(2)] take_held_eq [OF ok]
    by (simp add: reserved_total_def reserved_count_def alist_sum_update_new [OF assms(5)])
qed

lemma sort_promises_snoc:
  assumes "ledger_ok n l"
  shows "sort_key (\<lambda>x. snd (snd (snd x))) (promised l @ [(r, p, charge, next_promise l)])
    = sort_key (\<lambda>x. snd (snd (snd x))) (promised l) @ [(r, p, charge, next_promise l)]"
proof -
  let ?seq = "\<lambda>x :: request_id \<times> partition_id \<times> nat \<times> nat. snd (snd (snd x))"
  have "?seq x \<le> next_promise l" if "x \<in> set (promised l)" for x
  proof -
    have "map_of (promised l) (fst x) = Some (snd x)"
      using that assms by (intro map_of_is_SomeI) (auto simp: ledger_ok_def)
    then show ?thesis using assms unfolding ledger_ok_def by (metis less_imp_le)
  qed
  then have "sorted (map ?seq (sort_key ?seq (promised l) @ [(r, p, charge, next_promise l)]))"
    by (auto simp: sorted_append)
  moreover have "filter (\<lambda>x. k = ?seq x) (sort_key ?seq ys) = filter (\<lambda>x. k = ?seq x) ys" for k ys
    using sort_key_stable [of ?seq k ys] by (simp add: eq_commute [of k])
  ultimately show ?thesis by (intro properties_for_sort_key) simp_all
qed

lemma promise_order_snoc:
  assumes "ledger_ok n l" and "promised l' = promised l @ [(r, p, charge, next_promise l)]"
  shows "promise_order l' = promise_order l @ [(p, r)]"
  unfolding promise_order_def assms(2) sort_promises_snoc [OF assms(1)] by simp

text \<open>draining reports the promises in the order they were made, whatever the hash order: a
  ledger with the same promises in any other map order reports the same list, and a new promise is
  appended to it.\<close>

theorem drain_in_promise_order:
  assumes "ledger_reachable n l" and "map_of (promised l) r = None" and "p < n"
    and "reserved_count l p < u32_max" and "promise l r p charge = Some l'"
    and "set xs = set (promised l')" and "distinct (map fst xs)"
  shows "\<exists>l2 l3. drain_promised l = Some (l2, promise_order l)
    \<and> drain_promised (l'\<lparr>promised := xs\<rparr>) = Some (l3, promise_order l @ [(p, r)])"
proof -
  have ok: "ledger_ok n l" using assms(1) by (rule ledger_reachable_ok)
  let ?seq = "\<lambda>x :: request_id \<times> partition_id \<times> nat \<times> nat. snd (snd (snd x))"
  have l': "l' = with_reserved n
    (l\<lparr>promised := AList.update r (p, charge, next_promise l) (promised l),
       next_promise := next_promise l + 1, placements := AList.update r p (placements l)\<rparr>)"
    using promise_eq [OF ok assms(3,4), of r charge] assms(5) by simp
  have ok': "ledger_ok n l'" unfolding l' by (rule ledger_ok_promise [OF ok assms(3)])
  have pl': "promised l' = promised l @ [(r, p, charge, next_promise l)]"
    by (simp add: l' update_absent [OF assms(2)])
  have dl': "distinct (map fst (promised l'))" using ok' by (simp add: ledger_ok_def)
  have map: "map_of xs = map_of (promised l')"
    using map_of_inject_set [OF assms(7) dl'] assms(6) by blast
  have perm: "mset xs = mset (promised l')"
    using assms(6,7) dl' by (simp add: distinct_map set_eq_iff_mset_eq_distinct [symmetric])
  have sums: "alist_sum f xs = alist_sum f (promised l')" for f :: "nat \<Rightarrow> nat \<times> nat \<times> nat \<Rightarrow> nat"
    unfolding alist_sum_def using perm by (metis mset_map sum_mset_sum_list)
  have pair: "reserved_pair (l'\<lparr>promised := xs\<rparr>) = reserved_pair l'"
    by (rule ext) (simp add: reserved_pair_def reserved_total_def reserved_count_def sums)
  have okx: "ledger_ok n (l'\<lparr>promised := xs\<rparr>)"
    using ok' assms(7) pair map by (simp add: ledger_ok_def)
  have "sort_key ?seq xs = sort_key ?seq (promised l')"
    using promise_seqs_distinct [OF ok'] promise_seqs_distinct [OF okx] assms(6)
    by (intro sort_key_unique) simp_all
  also have "\<dots> = sort_key ?seq (promised l) @ [(r, p, charge, next_promise l)]"
    unfolding pl' by (rule sort_promises_snoc [OF ok])
  finally have "promise_order (l'\<lparr>promised := xs\<rparr>) = promise_order l @ [(p, r)]"
    by (simp add: promise_order_def)
  then show ?thesis using drain_promised_eq [OF ok] drain_promised_eq [OF okx] by simp
qed

subsection \<open>An example ledger\<close>

lemma sample_ledger:
  "\<exists>l. promise (new_ledger 2) 5 1 40 = Some l \<and> ledger_reachable 2 l
     \<and> promised l = [(5, 1, 40, 0)] \<and> chunked_prefill l = []"
proof -
  have c: "reserved_count (new_ledger 2) 1 < u32_max"
    by (simp add: reserved_count_def new_ledger_def u32_max_def)
  from promise_eq [OF new_ledger_ok _ this, of 5 40] obtain l where
    l: "promise (new_ledger 2) 5 1 40 = Some l" "promised l = [(5, 1, 40, 0)]" "chunked_prefill l = []"
    by (simp add: new_ledger_def)
  have "ledger_reachable 2 l" by (rule lr_step [OF lr_new ls_promise [OF _ c l(1)]]) simp
  with l show ?thesis by blast
qed

theorem ledger_totals_exact_witness:
  "\<exists>l. promise (new_ledger 2) 5 1 40 = Some l \<and> partition_promised l 1 = Some 40"
proof -
  obtain l where l: "promise (new_ledger 2) 5 1 40 = Some l" "ledger_reachable 2 l"
    "promised l = [(5, 1, 40, 0)]" "chunked_prefill l = []" using sample_ledger by blast
  from ledger_totals_exact [OF l(2), of 1] l show ?thesis by (simp add: reserved_total_def)
qed

theorem ledger_operations_return_witness:
  "\<exists>l. promised l \<noteq> [] \<and> promote_promise_to_chunked_prefill l 5 \<noteq> None"
proof -
  obtain l where l: "ledger_reachable 2 l" "promised l = [(5, 1, 40, 0)]" "chunked_prefill l = []"
    using sample_ledger by blast
  have "reserved_count l 0 < u32_max" by (simp add: reserved_count_def l u32_max_def)
  moreover have "map_of (promised l) 5 = Some (1, 40, 0)" "map_of (chunked_prefill l) 5 = None"
    by (simp_all add: l)
  ultimately have "promote_promise_to_chunked_prefill l 5 \<noteq> None"
    using ledger_operations_return [OF l(1), of 0 5 1 40 0] by fastforce
  moreover have "promised l \<noteq> []" using l by simp
  ultimately show ?thesis by blast
qed

theorem drain_in_promise_order_witness:
  "\<exists>l l' l2. promise l 9 0 7 = Some l' \<and>
     drain_promised (l'\<lparr>promised := rev (promised l')\<rparr>) = Some (l2, [(1, 5), (0, 9)])"
proof -
  obtain l where l: "ledger_reachable 2 l" "promised l = [(5, 1, 40, 0)]" "chunked_prefill l = []"
    using sample_ledger by blast
  have ok: "ledger_ok 2 l" using l(1) by (rule ledger_reachable_ok)
  have c: "reserved_count l 0 < u32_max" by (simp add: reserved_count_def l u32_max_def)
  obtain l' where l': "promise l 9 0 7 = Some l'" using promise_eq [OF ok _ c] by fastforce
  have "distinct (map fst (promised l'))"
    using ledger_step_ok [OF ls_promise [OF _ c l'] ok] by (simp add: ledger_ok_def)
  then have "distinct (map fst (rev (promised l')))" by (simp add: rev_map [symmetric])
  moreover have "promise_order l = [(1, 5)]" by (simp add: promise_order_def l)
  moreover have "map_of (promised l) 9 = None" by (simp add: l)
  ultimately show ?thesis
    using drain_in_promise_order [OF l(1) _ _ c l', of "rev (promised l')"] l' by fastforce
qed

end
