(* ===== verification/Kv_Store.thy ===== *)
theory Kv_Store
  imports Request_Ledger
begin

section \<open>The KV store of a worker (\<open>worker/kv/kv_cache_store.rs\<close>)\<close>

text \<open>
  \<open>KvCacheStore\<close> owns one resident set and one retained-prefix cache per attention
  partition and the request ledger, and decides admission from them. The hard tier is what
  is resident, promised and held; the soft tier, retained prefixes and the checkpoints of
  live decodes, gets what the hard tier leaves. The optional logger and sampler are lists of
  what was handed to them. An index out of range, a failed assertion and an \<open>expect\<close> are
  \<open>None\<close>.
\<close>

subsection \<open>Events\<close>

datatype Activation = Hit | Miss
datatype EvictionReason =
  ByActiveKvPressure | BySameSessionReplacement | ByRetentionCapacity | ByReplacementPolicy
datatype RetentionReason = RequestComplete | HandoffComplete | NoCacheCapacity
datatype EventKind = Activate Activation | Evict EvictionReason | Retained RetentionReason

record PrefixCacheEvent =
  ev_partition :: partition_id
  ev_time :: nat
  ev_request :: request_id
  ev_session :: nat
  ev_kind :: EventKind
  ev_entry_before :: nat
  ev_entry_after :: nat
  ev_used_before :: nat
  ev_used_after :: nat
  ev_requested :: nat
  ev_hit :: nat
  ev_full_hit :: nat

record KvSubmit =
  active_kv :: nat
  retained_prefix_kv :: nat
  projected_peak_kv :: nat
  promised_kv :: nat

text \<open>\<open>PrefixCacheJournal\<close>: without a logger nothing is recorded.\<close>

type_synonym journal = "PrefixCacheEvent list option"

definition record_event :: "journal \<Rightarrow> PrefixCacheEvent \<Rightarrow> journal" where
  "record_event j e = map_option (\<lambda>es. es @ [e]) j"

definition record_mutation ::
  "journal \<Rightarrow> request_id \<Rightarrow> partition_id \<Rightarrow> nat \<Rightarrow> PrefixCacheMutation \<Rightarrow> EventKind \<Rightarrow> nat \<Rightarrow> journal" where
  "record_mutation j r p now m kind retain_requested = record_event j
     \<lparr>ev_partition = p, ev_time = now, ev_request = r, ev_session = mut_session m, ev_kind = kind,
      ev_entry_before = entry_tokens_before m, ev_entry_after = entry_tokens_after m,
      ev_used_before = cache_used_before m, ev_used_after = cache_used_after m,
      ev_requested = (if mut_kind m = Retain then retain_requested else 0),
      ev_hit = 0, ev_full_hit = 0\<rparr>"

definition retain_event_kind :: "MutationKind \<Rightarrow> RetentionReason \<Rightarrow> EventKind" where
  "retain_event_kind k reason = (case k of
     SameSessionReplacement \<Rightarrow> Evict BySameSessionReplacement
   | CapacityEviction \<Rightarrow> Evict ByRetentionCapacity
   | ReplacementPolicyEviction \<Rightarrow> Evict ByReplacementPolicy
   | Retain \<Rightarrow> Retained reason)"

subsection \<open>State\<close>

datatype ReservationBasis = FullFootprint | BoundedFuture

record KvFootprint =
  fp_reserved_units :: nat
  fp_basis :: ReservationBasis

record KvStore =
  ks_accounting :: KvAccounting
  ks_partitions :: "ResidentPartition list"
  ks_ledger :: RequestLedger
  ks_caches :: "PrefixCache list"
  ks_journal :: journal
  ks_sampler :: "(partition_id \<times> KvSubmit \<times> nat) list option"

definition new_store ::
  "nat \<Rightarrow> KvAccounting \<Rightarrow> PrefixCacheBudget \<Rightarrow> bool \<Rightarrow> bool \<Rightarrow> KvStore" where
  "new_store n a b sampled logged = \<lparr>ks_accounting = a,
     ks_partitions = replicate n (new_partition a), ks_ledger = new_ledger n,
     ks_caches = replicate n (new_prefix_cache a b),
     ks_journal = (if logged then Some [] else None),
     ks_sampler = (if sampled then Some [] else None)\<rparr>"

definition without_prefix_cache :: "nat \<Rightarrow> KvAccounting \<Rightarrow> bool \<Rightarrow> KvStore" where
  "without_prefix_cache n a sampled = new_store n a disabled_budget sampled False"

definition num_partitions :: "KvStore \<Rightarrow> nat" where
  "num_partitions s = length (ks_partitions s)"

abbreviation partition_at :: "KvStore \<Rightarrow> partition_id \<Rightarrow> ResidentPartition option" where
  "partition_at s p \<equiv> nth_opt (ks_partitions s) p"

abbreviation cache_at :: "KvStore \<Rightarrow> partition_id \<Rightarrow> PrefixCache option" where
  "cache_at s p \<equiv> nth_opt (ks_caches s) p"

abbreviation set_partition :: "KvStore \<Rightarrow> partition_id \<Rightarrow> ResidentPartition \<Rightarrow> KvStore" where
  "set_partition s p x \<equiv> s\<lparr>ks_partitions := (ks_partitions s)[p := x]\<rparr>"

abbreviation set_cache :: "KvStore \<Rightarrow> partition_id \<Rightarrow> PrefixCache \<Rightarrow> KvStore" where
  "set_cache s p x \<equiv> s\<lparr>ks_caches := (ks_caches s)[p := x]\<rparr>"

subsection \<open>Capacity\<close>

definition store_footprint :: "KvStore \<Rightarrow> nat \<Rightarrow> nat \<Rightarrow> KvFootprint" where
  "store_footprint s context_tokens remaining = \<lparr>fp_reserved_units =
     footprint (ks_accounting s) context_tokens remaining, fp_basis = FullFootprint\<rparr>"

definition bounded_future_footprint ::
  "KvStore \<Rightarrow> nat \<Rightarrow> nat \<Rightarrow> nat \<Rightarrow> nat \<Rightarrow> KvFootprint option" where
  "bounded_future_footprint s context_tokens remaining max_future page_size = do {
     future \<leftarrow> checked_add_u64 (min remaining max_future) page_size;
     Some \<lparr>fp_reserved_units = footprint (ks_accounting s) context_tokens future,
           fp_basis = BoundedFuture\<rparr>
   }"

definition fits :: "KvStore \<Rightarrow> partition_id \<Rightarrow> KvFootprint \<Rightarrow> bool option" where
  "fits s p fp = do {
     st \<leftarrow> partition_at s p;
     prom \<leftarrow> partition_promised (ks_ledger s) p;
     hld \<leftarrow> partition_held (ks_ledger s) p;
     let reserved = prom + hld + fp_reserved_units fp;
     Some (resident_units st + reserved \<le> partition_capacity st
           \<and> cached_peak st + reserved \<le> partition_capacity st)
   }"

definition fits_bounded_future ::
  "'f float_ops \<Rightarrow> KvStore \<Rightarrow> partition_id \<Rightarrow> KvFootprint \<Rightarrow> nat \<Rightarrow> 'f \<Rightarrow> nat \<Rightarrow> bool option" where
  "fits_bounded_future f s p fp max_future ratio decode_step_tokens = do {
     assert_that (fp_basis fp = BoundedFuture);
     st \<leftarrow> partition_at s p;
     prom \<leftarrow> partition_promised (ks_ledger s) p;
     hld \<leftarrow> partition_held (ks_ledger s) p;
     let protected = resident_units st + prom + hld + fp_reserved_units fp;
     let running = bounded_future_decode_units f st max_future ratio;
     running' \<leftarrow> (if 0 < decode_step_tokens
        then map_option (\<lambda>next. f_max f running (f_of_nat f next))
               (next_decode_allocation_units st 1 decode_step_tokens)
        else Some running);
     Some (f_lt f (f_add f (f_of_nat f protected) running') (f_of_nat f (partition_capacity st)))
   }"

definition non_cache_peak :: "KvStore \<Rightarrow> partition_id \<Rightarrow> nat option" where
  "non_cache_peak s p = do {
     prom \<leftarrow> partition_promised (ks_ledger s) p;
     hld \<leftarrow> partition_held (ks_ledger s) p;
     st \<leftarrow> partition_at s p;
     Some (max (resident_units st + (prom + hld)) (cached_peak st + (prom + hld)))
   }"

definition soft_slack :: "KvStore \<Rightarrow> partition_id \<Rightarrow> nat option" where
  "soft_slack s p = do {
     st \<leftarrow> partition_at s p;
     peak \<leftarrow> non_cache_peak s p;
     Some (partition_capacity st - peak)
   }"

definition clamped_live_checkpoint_units :: "KvStore \<Rightarrow> partition_id \<Rightarrow> nat option" where
  "clamped_live_checkpoint_units s p = do {
     st \<leftarrow> partition_at s p;
     slack \<leftarrow> soft_slack s p;
     Some (min (live_checkpoint_units st) slack)
   }"

definition prefix_cache_physical_limit :: "KvStore \<Rightarrow> partition_id \<Rightarrow> nat option" where
  "prefix_cache_physical_limit s p = do {
     slack \<leftarrow> soft_slack s p;
     live \<leftarrow> clamped_live_checkpoint_units s p;
     Some (slack - live)
   }"

definition trim_prefix_cache_to_physical_slack ::
  "KvStore \<Rightarrow> partition_id \<Rightarrow> (KvStore \<times> PrefixCacheMutation list) option" where
  "trim_prefix_cache_to_physical_slack s p = do {
     limit \<leftarrow> prefix_cache_physical_limit s p;
     c \<leftarrow> cache_at s p;
     (c', ms) \<leftarrow> shrink_to c limit;
     Some (set_cache s p c', ms)
   }"

definition trim_prefix_cache_to_bounded_slack ::
  "KvStore \<Rightarrow> partition_id \<Rightarrow> (KvStore \<times> PrefixCacheMutation list) option" where
  "trim_prefix_cache_to_bounded_slack s p = do {
     st \<leftarrow> partition_at s p;
     prom \<leftarrow> partition_promised (ks_ledger s) p;
     hld \<leftarrow> partition_held (ks_ledger s) p;
     let slack = partition_capacity st - (resident_units st + prom + hld);
     let limit = slack - min (live_checkpoint_units st) slack;
     c \<leftarrow> cache_at s p;
     (c', ms) \<leftarrow> shrink_to c limit;
     Some (set_cache s p c', ms)
   }"

text \<open>The loops that hand eviction receipts to the journal.\<close>

definition journal_pressure ::
  "KvStore \<Rightarrow> request_id \<Rightarrow> partition_id \<Rightarrow> nat \<Rightarrow> PrefixCacheMutation list \<Rightarrow> KvStore" where
  "journal_pressure s r p now ms = s\<lparr>ks_journal := fold
     (\<lambda>m j. record_mutation j r p now m (Evict ByActiveKvPressure) 0) ms (ks_journal s)\<rparr>"

subsection \<open>The common lifecycle\<close>

definition reserve :: "KvStore \<Rightarrow> request_id \<Rightarrow> partition_id \<Rightarrow> KvFootprint \<Rightarrow> nat \<Rightarrow> KvStore option" where
  "reserve s r p fp now = do {
     l \<leftarrow> promise (ks_ledger s) r p (fp_reserved_units fp);
     let s1 = s\<lparr>ks_ledger := l\<rparr>;
     (s2, evictions) \<leftarrow> (case fp_basis fp of
        FullFootprint \<Rightarrow> trim_prefix_cache_to_physical_slack s1 p
      | BoundedFuture \<Rightarrow> trim_prefix_cache_to_bounded_slack s1 p);
     Some (journal_pressure s2 r p now evictions)
   }"

definition drain_ready :: "KvStore \<Rightarrow> KvStore option" where
  "drain_ready s = do {
     (l, order) \<leftarrow> drain_promised (ks_ledger s);
     fold_opt (\<lambda>(p, r) s. do {
         st \<leftarrow> partition_at s p;
         Some (set_partition s p (add_prefill_admit st r))
       }) order (s\<lparr>ks_ledger := l\<rparr>)
   }"

definition commit_resident ::
  "KvStore \<Rightarrow> request_id \<Rightarrow> partition_id \<Rightarrow> nat \<Rightarrow> nat \<Rightarrow> KvStore option" where
  "commit_resident s r p context_tokens remaining = do {
     l \<leftarrow> forget_promise (ks_ledger s) r;
     let prompt = (case prefill_context l r of
        Some c \<Rightarrow> post_prefill_context_tokens c | None \<Rightarrow> context_tokens);
     st \<leftarrow> partition_at s p;
     st' \<leftarrow> begin_decode st r context_tokens remaining prompt;
     Some (set_partition (s\<lparr>ks_ledger := l\<rparr>) p st')
   }"

datatype AdvanceScope = WholePartition partition_id | RequestSubset partition_id "request_id list"

definition scope_partition :: "AdvanceScope \<Rightarrow> partition_id" where
  "scope_partition sc = (case sc of WholePartition p \<Rightarrow> p | RequestSubset p _ \<Rightarrow> p)"

definition advance_step :: "AdvanceScope \<Rightarrow> KvStore \<Rightarrow> KvStore option" where
  "advance_step sc s = (case sc of
     WholePartition p \<Rightarrow> do {
       st \<leftarrow> partition_at s p;
       st' \<leftarrow> advance_decodes st;
       Some (set_partition s p st')
     }
   | RequestSubset p rs \<Rightarrow> do {
       assert_that (all_placed_on (ks_ledger s) p rs);
       st \<leftarrow> partition_at s p;
       st' \<leftarrow> advance_subset st rs;
       Some (set_partition s p st')
     })"

definition advance :: "KvStore \<Rightarrow> AdvanceScope \<Rightarrow> nat \<Rightarrow> KvStore option" where
  "advance s sc steps = do {
     s' \<leftarrow> fold_opt (\<lambda>_. advance_step sc) [0..<steps] s;
     st \<leftarrow> partition_at s' (scope_partition sc);
     assert_that (resident_units st \<le> partition_capacity st);
     Some s'
   }"

definition store_clear_prefill_admits :: "KvStore \<Rightarrow> partition_id \<Rightarrow> KvStore option" where
  "store_clear_prefill_admits s p = do {
     st \<leftarrow> partition_at s p;
     Some (set_partition s p (clear_prefill_admits st))
   }"

definition release :: "KvStore \<Rightarrow> request_id \<Rightarrow> partition_id \<Rightarrow> KvStore option" where
  "release s r p = do {
     (l1, _) \<leftarrow> take_held (ks_ledger s) r;
     l2 \<leftarrow> forget_promise l1 r;
     l3 \<leftarrow> forget_chunked_prefill l2 r;
     st \<leftarrow> partition_at s p;
     st' \<leftarrow> release_decode st r;
     let l4 = fst (forget_placement l3 r);
     let l5 = fst (take_prefill_context l4 r);
     Some (set_partition (s\<lparr>ks_ledger := l5\<rparr>) p st')
   }"

definition journal_retention ::
  "journal \<Rightarrow> request_id \<Rightarrow> partition_id \<Rightarrow> nat \<Rightarrow> RetentionReason \<Rightarrow> nat \<Rightarrow>
     PrefixCacheMutation list \<Rightarrow> journal" where
  "journal_retention j r p now reason tokens ms = fold
     (\<lambda>m j. record_mutation j r p now m (retain_event_kind (mut_kind m) reason) tokens) ms j"

definition retain_prefix ::
  "KvStore \<Rightarrow> request_id \<Rightarrow> partition_id \<Rightarrow> nat \<Rightarrow> nat \<Rightarrow> nat \<Rightarrow> ReturnMetadata option \<Rightarrow> nat \<Rightarrow>
     RetentionReason \<Rightarrow> KvStore option" where
  "retain_prefix s r p sid prompt_tokens tokens meta now reason = do {
     limit \<leftarrow> prefix_cache_physical_limit s p;
     c \<leftarrow> cache_at s p;
     (c', ms, retained) \<leftarrow> insert_prefix c sid prompt_tokens tokens limit meta;
     let j = journal_retention (ks_journal s) r p now reason tokens ms;
     let j' = (if retained = 0
       then record_event j \<lparr>ev_partition = p, ev_time = now, ev_request = r, ev_session = sid,
         ev_kind = Retained NoCacheCapacity, ev_entry_before = 0, ev_entry_after = 0,
         ev_used_before = used_tokens c', ev_used_after = used_tokens c', ev_requested = tokens,
         ev_hit = 0, ev_full_hit = 0\<rparr>
       else j);
     Some ((set_cache s p c')\<lparr>ks_journal := j'\<rparr>)
   }"

definition release_retaining_prefix ::
  "KvStore \<Rightarrow> request_id \<Rightarrow> partition_id \<Rightarrow> nat \<Rightarrow> KvStore option" where
  "release_retaining_prefix s r p now = do {
     let ctx = prefill_context (ks_ledger s) r;
     let prompt = (case ctx of Some c \<Rightarrow> post_prefill_context_tokens c | None \<Rightarrow> 0);
     st \<leftarrow> partition_at s p;
     kv \<leftarrow> decode_current_kv st r;
     let retained_tokens = (case kv of Some n \<Rightarrow> n | None \<Rightarrow> prompt);
     let sid = Option.bind ctx rp_session_id;
     let meta = Option.bind ctx cache_return_metadata;
     s1 \<leftarrow> release s r p;
     (case sid of
        Some i \<Rightarrow> retain_prefix s1 r p i prompt retained_tokens meta now RequestComplete
      | None \<Rightarrow> Some s1)
   }"

definition release_external ::
  "KvStore \<Rightarrow> request_id \<Rightarrow> (KvStore \<times> partition_id option) option" where
  "release_external s r = (case forget_placement (ks_ledger s) r of
     (l, None) \<Rightarrow> do {
       (l1, _) \<leftarrow> take_held l r;
       l2 \<leftarrow> forget_chunked_prefill l1 r;
       Some (s\<lparr>ks_ledger := fst (take_prefill_context l2 r)\<rparr>, None)
     }
   | (l, Some p) \<Rightarrow> do {
       st \<leftarrow> partition_at s p;
       st1 \<leftarrow> release_decode st r;
       let st2 = remove_prefill_admit st1 r;
       l1 \<leftarrow> forget_promise l r;
       l2 \<leftarrow> forget_chunked_prefill l1 r;
       Some (set_partition (s\<lparr>ks_ledger := fst (take_prefill_context l2 r)\<rparr>) p st2, Some p)
     })"

subsection \<open>Hand-off and sampling\<close>

definition store_hold :: "KvStore \<Rightarrow> partition_id \<Rightarrow> request_id \<Rightarrow> nat \<Rightarrow> KvStore option" where
  "store_hold s p r kv_tokens = do {
     l \<leftarrow> hold_kv (ks_ledger s) r p (held_while_running (ks_accounting s) kv_tokens 1) kv_tokens;
     Some (s\<lparr>ks_ledger := l\<rparr>)
   }"

definition sample_submit :: "KvStore \<Rightarrow> partition_id \<Rightarrow> nat \<Rightarrow> KvStore option" where
  "sample_submit s p now = (case ks_sampler s of
     None \<Rightarrow> Some s
   | Some samples \<Rightarrow> do {
       c \<leftarrow> cache_at s p;
       live \<leftarrow> clamped_live_checkpoint_units s p;
       hld \<leftarrow> partition_held (ks_ledger s) p;
       st \<leftarrow> partition_at s p;
       prom \<leftarrow> partition_promised (ks_ledger s) p;
       Some (s\<lparr>ks_sampler := Some (samples @ [(p,
         \<lparr>active_kv = resident_units st + hld + used_units c + live,
          retained_prefix_kv = used_units c,
          projected_peak_kv = cached_peak st + hld + used_units c + live,
          promised_kv = prom\<rparr>, now)])\<rparr>)
     })"

definition complete_handoff :: "KvStore \<Rightarrow> request_id \<Rightarrow> nat \<Rightarrow> KvStore option" where
  "complete_handoff s r now = do {
     (l1, taken) \<leftarrow> take_held (ks_ledger s) r;
     (case taken of
        None \<Rightarrow> Some (s\<lparr>ks_ledger := l1\<rparr>)
      | Some (p, kv_tokens) \<Rightarrow> do {
          let (l2, ctx) = take_prefill_context l1 r;
          let sid = Option.bind ctx rp_session_id;
          let meta = Option.bind ctx cache_return_metadata;
          let prompt = (case ctx of Some c \<Rightarrow> post_prefill_context_tokens c | None \<Rightarrow> kv_tokens);
          s1 \<leftarrow> (case sid of
             Some i \<Rightarrow> retain_prefix (s\<lparr>ks_ledger := l2\<rparr>) r p i prompt kv_tokens meta now HandoffComplete
           | None \<Rightarrow> Some (s\<lparr>ks_ledger := l2\<rparr>));
          sample_submit s1 p now
        })
   }"

subsection \<open>Prefix reuse\<close>

fun best_resident :: "nat \<Rightarrow> nat \<Rightarrow> nat \<Rightarrow> PrefixCache list \<Rightarrow> nat option \<times> nat \<Rightarrow> nat option" where
  "best_resident sid n i [] best = fst best"
| "best_resident sid n i (c # cs) best =
     best_resident sid n (Suc i) cs
       (if peek c sid n > snd best then (Some i, peek c sid n) else best)"

text \<open>\<open>PartitionId::try_from(partition_index)\<close> cannot fail: a store has at most \<open>u16::MAX + 1\<close>
  partitions, which is where ids come from.\<close>

definition retained_prefix_partition :: "KvStore \<Rightarrow> SessionInput \<Rightarrow> partition_id option" where
  "retained_prefix_partition s si = (case si of
     Session sid _ declared \<Rightarrow> best_resident sid declared 0 (ks_caches s) (None, 0)
   | _ \<Rightarrow> None)"

definition preview_prefill_context ::
  "KvStore \<Rightarrow> partition_id \<Rightarrow> nat \<Rightarrow> SessionInput \<Rightarrow> ResolvedPrefill option" where
  "preview_prefill_context s p fresh si = do {
     resident \<leftarrow> (case si of
        Standalone \<Rightarrow> Some 0
      | PinnedPrefix n \<Rightarrow> Some n
      | Session sid _ declared \<Rightarrow> map_option (\<lambda>c. peek c sid declared) (cache_at s p));
     resolved_prefill si resident fresh
   }"

definition store_resident_prefix_tokens :: "KvStore \<Rightarrow> nat \<Rightarrow> SessionInput \<Rightarrow> nat option" where
  "store_resident_prefix_tokens s fresh si = (case si of
     Standalone \<Rightarrow> Some 0
   | PinnedPrefix _ \<Rightarrow>
       map_option resident_prefix_tokens (preview_prefill_context s 0 fresh si)
   | Session _ _ _ \<Rightarrow> (case retained_prefix_partition s si of
       None \<Rightarrow> Some 0
     | Some p \<Rightarrow> map_option resident_prefix_tokens (preview_prefill_context s p fresh si)))"

definition reserve_prefill_context ::
  "KvStore \<Rightarrow> request_id \<Rightarrow> partition_id \<Rightarrow> ResolvedPrefill \<Rightarrow> KvFootprint \<Rightarrow> nat \<Rightarrow> KvStore option" where
  "reserve_prefill_context s r p ctx fp now = do {
     (s1, ctx1) \<leftarrow> (case rp_session_id ctx of
        None \<Rightarrow> Some (s, ctx)
      | Some sid \<Rightarrow> do {
          c \<leftarrow> cache_at s p;
          (c', t) \<leftarrow> take_prefix c sid (rp_declared ctx);
          assert_that ((hit_tokens t - resident_prefix_tokens ctx)
            + (resident_prefix_tokens ctx - hit_tokens t) \<le> 1);
          let j = record_event (ks_journal s)
            \<lparr>ev_partition = p, ev_time = now, ev_request = r, ev_session = sid,
             ev_kind = Activate (if hit_tokens t > 0 then Hit else Miss),
             ev_entry_before = take_entry_tokens t, ev_entry_after = 0,
             ev_used_before = take_used_before t, ev_used_after = take_used_after t,
             ev_requested = rp_declared ctx, ev_hit = hit_tokens t,
             ev_full_hit = full_hit_tokens t\<rparr>;
          Some ((set_cache s p c')\<lparr>ks_journal := j\<rparr>,
                with_cache_return_metadata ctx (return_metadata t))
        });
     reserve (s1\<lparr>ks_ledger := set_prefill_context (ks_ledger s1) r ctx1\<rparr>) r p fp now
   }"

definition resolved_prefill_context :: "KvStore \<Rightarrow> request_id \<Rightarrow> ResolvedPrefill option" where
  "resolved_prefill_context s r = prefill_context (ks_ledger s) r"

subsection \<open>Chunked prefill and bounded-future admission\<close>

definition reserve_chunked_prefill_context ::
  "KvStore \<Rightarrow> request_id \<Rightarrow> partition_id \<Rightarrow> ResolvedPrefill \<Rightarrow> KvFootprint \<Rightarrow> nat \<Rightarrow> KvStore option" where
  "reserve_chunked_prefill_context s r p ctx fp now = do {
     s1 \<leftarrow> reserve_prefill_context s r p ctx fp now;
     l \<leftarrow> promote_promise_to_chunked_prefill (ks_ledger s1) r;
     Some (s1\<lparr>ks_ledger := l\<rparr>)
   }"

definition schedule_prefill_chunk ::
  "KvStore \<Rightarrow> request_id \<Rightarrow> partition_id \<Rightarrow> nat \<Rightarrow> KvStore option" where
  "schedule_prefill_chunk s r p n = do {
     assert_that (has_chunked_prefill (ks_ledger s) r);
     l \<leftarrow> ledger_schedule_chunk (ks_ledger s) r n;
     st \<leftarrow> partition_at s p;
     Some (set_partition (s\<lparr>ks_ledger := l\<rparr>) p (add_prefill_admit st r))
   }"

definition complete_prefill_chunk :: "KvStore \<Rightarrow> request_id \<Rightarrow> KvStore option" where
  "complete_prefill_chunk s r = do {
     l \<leftarrow> ledger_complete_chunk (ks_ledger s) r;
     Some (s\<lparr>ks_ledger := l\<rparr>)
   }"

definition finish_chunked_prefill ::
  "KvStore \<Rightarrow> request_id \<Rightarrow> partition_id \<Rightarrow> nat \<Rightarrow> KvStore option" where
  "finish_chunked_prefill s r p remaining = do {
     ctx \<leftarrow> prefill_context (ks_ledger s) r;
     l \<leftarrow> forget_chunked_prefill (ks_ledger s) r;
     commit_resident (s\<lparr>ks_ledger := l\<rparr>) r p (post_prefill_context_tokens ctx) remaining
   }"

definition prepare_next_decode ::
  "KvStore \<Rightarrow> partition_id \<Rightarrow> nat \<Rightarrow> nat \<Rightarrow> nat \<Rightarrow> (KvStore \<times> nat) option" where
  "prepare_next_decode s p page_size step_tokens now = do {
     assert_that (page_size > 0);
     st \<leftarrow> partition_at s p;
     required \<leftarrow> next_decode_allocation_units st page_size step_tokens;
     if required = 0 then Some (s, 0)
     else do {
       trigger \<leftarrow> first_decode_request st;
       prom \<leftarrow> partition_promised (ks_ledger s) p;
       hld \<leftarrow> partition_held (ks_ledger s) p;
       let protected = resident_units st + prom + hld;
       let cap = partition_capacity st;
       let slack_after_step = cap - saturating_add_u64 protected required;
       let live = min (live_checkpoint_units st) slack_after_step;
       c \<leftarrow> cache_at s p;
       (c', evictions) \<leftarrow> shrink_to c (slack_after_step - live);
       let s1 = journal_pressure (set_cache s p c') trigger p now evictions;
       let available = cap - saturating_add_u64 protected (used_units c');
       Some (s1, required - available)
     }
   }"

subsection \<open>Observations\<close>

definition kv_usage :: "'f float_ops \<Rightarrow> KvStore \<Rightarrow> partition_id \<Rightarrow> 'f option" where
  "kv_usage f s p = do {
     st \<leftarrow> partition_at s p;
     hld \<leftarrow> partition_held (ks_ledger s) p;
     prom \<leftarrow> partition_promised (ks_ledger s) p;
     Some (f_div f (f_of_nat f (resident_units st + hld + prom))
       (f_of_nat f (max (partition_capacity st) 1)))
   }"

definition status_active :: "KvStore \<Rightarrow> partition_id \<Rightarrow> nat option" where
  "status_active s p = do {
     st \<leftarrow> partition_at s p;
     count \<leftarrow> partition_promised_count (ks_ledger s) p;
     let scheduled = as_u32 (length (filter (has_chunked_prefill (ks_ledger s)) (prefill_admits st)));
     checked_sub (live_decode_count st + count + as_u32 (length (prefill_admits st))) scheduled
   }"

definition store_has_live_decode :: "KvStore \<Rightarrow> partition_id \<Rightarrow> bool option" where
  "store_has_live_decode s p = map_option has_live_decode (partition_at s p)"

definition store_live_decode_count :: "KvStore \<Rightarrow> partition_id \<Rightarrow> nat option" where
  "store_live_decode_count s p = map_option live_decode_count (partition_at s p)"

definition has_prefill_admit :: "KvStore \<Rightarrow> partition_id \<Rightarrow> bool option" where
  "has_prefill_admit s p = map_option (\<lambda>st. prefill_admits st \<noteq> []) (partition_at s p)"

definition store_prefill_admits :: "KvStore \<Rightarrow> partition_id \<Rightarrow> request_id list option" where
  "store_prefill_admits s p = map_option prefill_admits (partition_at s p)"

definition store_decode_members :: "KvStore \<Rightarrow> partition_id \<Rightarrow> (request_id \<times> nat) list option" where
  "store_decode_members s p = map_option decode_members (partition_at s p)"

definition store_decode_states :: "KvStore \<Rightarrow> partition_id \<Rightarrow> (request_id \<times> nat \<times> nat) list option" where
  "store_decode_states s p = map_option decode_states (partition_at s p)"

definition store_current_kv :: "KvStore \<Rightarrow> partition_id \<Rightarrow> request_id \<Rightarrow> nat option option" where
  "store_current_kv s p r = Option.bind (partition_at s p) (\<lambda>st. decode_current_kv st r)"

definition estimated_peak :: "KvStore \<Rightarrow> partition_id \<Rightarrow> nat option" where
  "estimated_peak s p = do {
     st \<leftarrow> partition_at s p;
     prom \<leftarrow> partition_promised (ks_ledger s) p;
     hld \<leftarrow> partition_held (ks_ledger s) p;
     c \<leftarrow> cache_at s p;
     Some (cached_peak st + prom + hld + used_units c)
   }"

definition has_reservation :: "KvStore \<Rightarrow> request_id \<Rightarrow> bool" where
  "has_reservation s r = has_promise (ks_ledger s) r"

definition request_kv_weight :: "KvStore \<Rightarrow> request_id \<Rightarrow> nat option" where
  "request_kv_weight s r = (case promised_charge (ks_ledger s) r of
     Some charge \<Rightarrow> Some charge
   | None \<Rightarrow> (case placement_of (ks_ledger s) r of
       None \<Rightarrow> Some 0
     | Some p \<Rightarrow> do {
         st \<leftarrow> partition_at s p;
         w \<leftarrow> decode_charge st r;
         Some (case w of Some n \<Rightarrow> n | None \<Rightarrow> 0)
       }))"

subsection \<open>The invariant of a store\<close>

definition store_ok :: "KvStore \<Rightarrow> bool" where
  "store_ok s \<longleftrightarrow> accounting_ok (ks_accounting s) \<and> steady_checkpoints (ks_accounting s)
     \<and> ledger_ok (num_partitions s) (ks_ledger s) \<and> length (ks_caches s) = num_partitions s
     \<and> list_all (\<lambda>st. resident_ok st \<and> part_accounting st = ks_accounting s) (ks_partitions s)
     \<and> list_all (tier_ok (ks_accounting s)) (ks_caches s)"

lemma new_store_ok:
  assumes "accounting_ok a" and "steady_checkpoints a" and "capacity_units a < u64_max"
  shows "store_ok (new_store n a b sampled logged)"
  using assms new_partition_ok [OF assms(1)] new_prefix_ok [OF assms(1,3), of b] new_ledger_ok [of n]
  by (auto simp: store_ok_def new_store_def num_partitions_def list_all_iff new_partition_def
      new_prefix_cache_def)

text \<open>What a well-formed store gives for a partition in range.\<close>

lemma store_okD:
  assumes "store_ok s" and "p < num_partitions s"
  shows "partition_at s p = Some (ks_partitions s ! p)" and "cache_at s p = Some (ks_caches s ! p)"
    and "partition_ok (ks_partitions s ! p)" and "prefix_ok (ks_caches s ! p)"
    and "part_accounting (ks_partitions s ! p) = ks_accounting s"
    and "pcache_accounting (ks_caches s ! p) = ks_accounting s"
    and "steady_checkpoints (part_accounting (ks_partitions s ! p))"
    and "ledger_ok (num_partitions s) (ks_ledger s)"
    and "partition_promised (ks_ledger s) p = Some (reserved_total (ks_ledger s) p)"
    and "partition_promised_count (ks_ledger s) p = Some (reserved_count (ks_ledger s) p)"
    and "partition_held (ks_ledger s) p = Some (held_total (ks_ledger s) p)"
  using assms ledger_reads [of "num_partitions s" "ks_ledger s" p]
  by (simp_all add: store_ok_def num_partitions_def list_all_length)

lemma store_ok_set_partition:
  assumes "store_ok s" and "partition_ok st" and "part_accounting st = ks_accounting s"
  shows "store_ok (set_partition s p st)"
  using assms by (auto simp: store_ok_def num_partitions_def list_all_iff
      dest!: set_update_subset_insert [THEN subsetD])

lemma store_ok_set_cache:
  assumes "store_ok s" and "prefix_ok c" and "pcache_accounting c = ks_accounting s"
  shows "store_ok (set_cache s p c)"
  using assms by (auto simp: store_ok_def num_partitions_def list_all_iff
      dest!: set_update_subset_insert [THEN subsetD])

lemma store_ok_ledger:
  "store_ok s \<Longrightarrow> ledger_ok (num_partitions s) l \<Longrightarrow> store_ok (s\<lparr>ks_ledger := l\<rparr>)"
  by (simp add: store_ok_def num_partitions_def)

lemma store_ok_journal [simp]: "store_ok (s\<lparr>ks_journal := j\<rparr>) = store_ok s"
  by (simp add: store_ok_def num_partitions_def)

lemma store_ok_sampler [simp]: "store_ok (s\<lparr>ks_sampler := x\<rparr>) = store_ok s"
  by (simp add: store_ok_def num_partitions_def)

lemma num_partitions_updates [simp]:
  "num_partitions (set_partition s p st) = num_partitions s" "num_partitions (set_cache s p c) = num_partitions s"
  "num_partitions (s\<lparr>ks_ledger := l\<rparr>) = num_partitions s"
  "num_partitions (s\<lparr>ks_journal := j\<rparr>) = num_partitions s"
  "num_partitions (s\<lparr>ks_sampler := x\<rparr>) = num_partitions s"
  by (simp_all add: num_partitions_def)

end
