(* ===== verification/Store_Lifecycle.thy ===== *)
theory Store_Lifecycle
  imports Kv_Store
begin

section \<open>What the store guarantees\<close>

text \<open>
  Properties of \<open>KvCacheStore\<close> (\<open>worker/kv/kv_cache_store.rs\<close>, modelled in \<open>Kv_Store\<close>): every
  operation returns and keeps the store consistent, an admission that fits stays within the
  partition's capacity until the request leaves, and the retained tier only uses the slack.
\<close>

subsection \<open>The two tiers as numbers\<close>

definition hard_tier :: "KvStore \<Rightarrow> partition_id \<Rightarrow> nat" where
  "hard_tier s p = resident_units (ks_partitions s ! p)
     + reserved_total (ks_ledger s) p + held_total (ks_ledger s) p"

definition hard_peak :: "KvStore \<Rightarrow> partition_id \<Rightarrow> nat" where
  "hard_peak s p = max (resident_units (ks_partitions s ! p)) (cached_peak (ks_partitions s ! p))
     + reserved_total (ks_ledger s) p + held_total (ks_ledger s) p"

definition soft_room :: "KvStore \<Rightarrow> partition_id \<Rightarrow> nat" where
  "soft_room s p = capacity_units (ks_accounting s) - hard_peak s p"

definition live_soft :: "KvStore \<Rightarrow> partition_id \<Rightarrow> nat" where
  "live_soft s p = min (live_checkpoint_units (ks_partitions s ! p)) (soft_room s p)"

text \<open>The hard tier, now and at its projected peak, is within the capacity, and retained prefixes
  and clamped live checkpoints share what it leaves.\<close>

definition within_capacity :: "KvStore \<Rightarrow> partition_id \<Rightarrow> bool" where
  "within_capacity s p \<longleftrightarrow> hard_peak s p \<le> capacity_units (ks_accounting s)
     \<and> hard_peak s p + live_soft s p + used_units (ks_caches s ! p) \<le> capacity_units (ks_accounting s)"

lemma hard_tier_le_peak: "hard_tier s p \<le> hard_peak s p"
  by (simp add: hard_tier_def hard_peak_def)

lemma capacity_of_partition:
  "store_ok s \<Longrightarrow> p < num_partitions s \<Longrightarrow>
     partition_capacity (ks_partitions s ! p) = capacity_units (ks_accounting s)"
  by (simp add: partition_capacity_def store_okD)

lemma store_reads:
  assumes "store_ok s" and "p < num_partitions s"
  shows "non_cache_peak s p = Some (hard_peak s p)" and "soft_slack s p = Some (soft_room s p)"
    and "clamped_live_checkpoint_units s p = Some (live_soft s p)"
    and "prefix_cache_physical_limit s p = Some (soft_room s p - live_soft s p)"
proof -
  note d = store_okD [OF assms] capacity_of_partition [OF assms]
  show peak: "non_cache_peak s p = Some (hard_peak s p)"
    by (simp add: non_cache_peak_def d hard_peak_def)
  show slack: "soft_slack s p = Some (soft_room s p)"
    by (simp add: soft_slack_def d peak soft_room_def)
  show live: "clamped_live_checkpoint_units s p = Some (live_soft s p)"
    by (simp add: clamped_live_checkpoint_units_def d slack live_soft_def)
  show "prefix_cache_physical_limit s p = Some (soft_room s p - live_soft s p)"
    by (simp add: prefix_cache_physical_limit_def slack live)
qed

text \<open>A cache kept within the limit the store computes leaves the partition within its capacity.\<close>

lemma limit_within_capacity:
  assumes "hard_peak s p \<le> capacity_units (ks_accounting s)"
    and "used_units (ks_caches s ! p) \<le> soft_room s p - live_soft s p"
  shows "within_capacity s p"
proof -
  have "live_soft s p \<le> soft_room s p" by (simp add: live_soft_def)
  with assms show ?thesis unfolding within_capacity_def soft_room_def by linarith
qed

text \<open>What the tiers read does not depend on the caches, the journal or the sampler.\<close>

lemma tier_updates [simp]:
  "hard_peak (s\<lparr>ks_caches := cs\<rparr>) p = hard_peak s p" "hard_tier (s\<lparr>ks_caches := cs\<rparr>) p = hard_tier s p"
  "soft_room (s\<lparr>ks_caches := cs\<rparr>) p = soft_room s p" "live_soft (s\<lparr>ks_caches := cs\<rparr>) p = live_soft s p"
  "hard_peak (s\<lparr>ks_journal := j\<rparr>) p = hard_peak s p" "hard_tier (s\<lparr>ks_journal := j\<rparr>) p = hard_tier s p"
  "soft_room (s\<lparr>ks_journal := j\<rparr>) p = soft_room s p" "live_soft (s\<lparr>ks_journal := j\<rparr>) p = live_soft s p"
  "hard_peak (s\<lparr>ks_sampler := x\<rparr>) p = hard_peak s p"
  "within_capacity (s\<lparr>ks_journal := j\<rparr>) p = within_capacity s p"
  "within_capacity (s\<lparr>ks_sampler := x\<rparr>) p = within_capacity s p"
  by (simp_all add: hard_peak_def hard_tier_def soft_room_def live_soft_def within_capacity_def)

subsection \<open>Each operation returns and keeps the store consistent\<close>

lemma caches_list: "store_ok s \<Longrightarrow> list_all (tier_ok (ks_accounting s)) (ks_caches s)"
  and caches_length: "store_ok s \<Longrightarrow> length (ks_caches s) = num_partitions s"
  and partitions_list:
    "store_ok s \<Longrightarrow> list_all (\<lambda>st. resident_ok st \<and> part_accounting st = ks_accounting s) (ks_partitions s)"
  and store_ledger_ok: "store_ok s \<Longrightarrow> ledger_ok (num_partitions s) (ks_ledger s)"
  by (simp_all add: store_ok_def)

lemma store_ok_caches:
  "store_ok s \<Longrightarrow> list_all (tier_ok (ks_accounting s)) cs \<Longrightarrow> length cs = num_partitions s \<Longrightarrow>
     store_ok (s\<lparr>ks_caches := cs\<rparr>)"
  by (simp add: store_ok_def num_partitions_def)

lemma store_ok_partitions:
  "store_ok s \<Longrightarrow> list_all (\<lambda>st. resident_ok st \<and> part_accounting st = ks_accounting s) ps \<Longrightarrow>
     length ps = num_partitions s \<Longrightarrow> store_ok (s\<lparr>ks_partitions := ps\<rparr>)"
  by (simp add: store_ok_def num_partitions_def)

lemma cache_at_ok: "store_ok s \<Longrightarrow> p < num_partitions s \<Longrightarrow> cache_at s p = Some (ks_caches s ! p)"
  and partition_at_ok:
    "p < num_partitions s \<Longrightarrow> partition_at s p = Some (ks_partitions s ! p)"
  by (simp_all add: store_okD num_partitions_def)

lemma journal_pressure_journal: "\<exists>j. journal_pressure s r p now ms = s\<lparr>ks_journal := j\<rparr>"
  by (auto simp: journal_pressure_def)

lemma shrink_store:
  assumes "store_ok s" and "p < num_partitions s"
  shows "\<exists>c' ms. shrink_to (ks_caches s ! p) n = Some (c', ms) \<and> store_ok (set_cache s p c')
    \<and> used_units c' \<le> n \<and> used_units c' \<le> used_units (ks_caches s ! p)"
  using tier.shrink_at [OF caches_list [OF assms(1)], of p n] assms
  by (fastforce simp: caches_length intro: store_ok_caches)

lemma trim_physical_ok:
  assumes "store_ok s" and "p < num_partitions s"
  shows "\<exists>c' ms. trim_prefix_cache_to_physical_slack s p = Some (set_cache s p c', ms)
    \<and> store_ok (set_cache s p c') \<and> used_units c' \<le> soft_room s p - live_soft s p
    \<and> used_units c' \<le> used_units (ks_caches s ! p)"
  using shrink_store [OF assms, of "soft_room s p - live_soft s p"]
  by (auto simp: trim_prefix_cache_to_physical_slack_def store_reads [OF assms] cache_at_ok [OF assms])

lemma trim_bounded_ok:
  assumes "store_ok s" and "p < num_partitions s"
  shows "\<exists>c' ms. trim_prefix_cache_to_bounded_slack s p = Some (set_cache s p c', ms)
    \<and> store_ok (set_cache s p c')
    \<and> used_units c' \<le> capacity_units (ks_accounting s) - hard_tier s p
    \<and> used_units c' \<le> used_units (ks_caches s ! p)"
proof -
  let ?slack = "capacity_units (ks_accounting s) - hard_tier s p"
  obtain c' ms where c': "shrink_to (ks_caches s ! p)
      (?slack - min (live_checkpoint_units (ks_partitions s ! p)) ?slack) = Some (c', ms)"
    "store_ok (set_cache s p c')"
    "used_units c' \<le> ?slack - min (live_checkpoint_units (ks_partitions s ! p)) ?slack"
    "used_units c' \<le> used_units (ks_caches s ! p)"
    using shrink_store [OF assms] by blast
  then have "used_units c' \<le> ?slack" by linarith
  with c' show ?thesis
    by (fastforce simp: trim_prefix_cache_to_bounded_slack_def store_okD [OF assms] hard_tier_def
        capacity_of_partition [OF assms])
qed

text \<open>The ledger after a promise, as \<open>promise_eq\<close> computes it.\<close>

definition promised_ledger ::
  "nat \<Rightarrow> RequestLedger \<Rightarrow> request_id \<Rightarrow> partition_id \<Rightarrow> nat \<Rightarrow> RequestLedger" where
  "promised_ledger n l r p units = with_reserved n
     (l\<lparr>promised := AList.update r (p, units, next_promise l) (promised l),
        next_promise := next_promise l + 1, placements := AList.update r p (placements l)\<rparr>)"

lemma reserve_ok:
  fixes fp :: KvFootprint and r :: request_id
  assumes "store_ok s" and "p < num_partitions s" and "reserved_count (ks_ledger s) p < u32_max"
  defines "s0 \<equiv> s\<lparr>ks_ledger :=
    promised_ledger (num_partitions s) (ks_ledger s) r p (fp_reserved_units fp)\<rparr>"
  shows "\<exists>c' j. reserve s r p fp now = Some ((set_cache s0 p c')\<lparr>ks_journal := j\<rparr>)
    \<and> store_ok ((set_cache s0 p c')\<lparr>ks_journal := j\<rparr>)
    \<and> used_units c' \<le> (case fp_basis fp of FullFootprint \<Rightarrow> soft_room s0 p - live_soft s0 p
        | BoundedFuture \<Rightarrow> capacity_units (ks_accounting s) - hard_tier s0 p)
    \<and> used_units c' \<le> used_units (ks_caches s ! p)"
proof -
  note l = store_ledger_ok [OF assms(1)]
  have p0: "promise (ks_ledger s) r p (fp_reserved_units fp) = Some (ks_ledger s0)"
    using promise_eq [OF l assms(2,3)] by (simp add: s0_def promised_ledger_def)
  have ok0: "store_ok s0"
    using store_ok_ledger [OF assms(1)] ledger_ok_promise [OF l assms(2)]
    by (simp add: s0_def promised_ledger_def)
  have n0: "p < num_partitions s0" and a0: "ks_accounting s0 = ks_accounting s"
    using assms(2) by (simp_all add: s0_def)
  have s0: "s\<lparr>ks_ledger := ks_ledger s0\<rparr> = s0" by (simp add: s0_def)
  obtain c' ms where trim: "(case fp_basis fp of
        FullFootprint \<Rightarrow> trim_prefix_cache_to_physical_slack s0 p
      | BoundedFuture \<Rightarrow> trim_prefix_cache_to_bounded_slack s0 p) = Some (set_cache s0 p c', ms)"
    and c': "store_ok (set_cache s0 p c')"
    "used_units c' \<le> (case fp_basis fp of FullFootprint \<Rightarrow> soft_room s0 p - live_soft s0 p
        | BoundedFuture \<Rightarrow> capacity_units (ks_accounting s) - hard_tier s0 p)"
    "used_units c' \<le> used_units (ks_caches s0 ! p)"
    using trim_physical_ok [OF ok0 n0] trim_bounded_ok [OF ok0 n0] a0
    by (cases "fp_basis fp") auto
  have "ks_caches s0 = ks_caches s" by (simp add: s0_def)
  obtain j where "journal_pressure (set_cache s0 p c') r p now ms = (set_cache s0 p c')\<lparr>ks_journal := j\<rparr>"
    using journal_pressure_journal by blast
  then have "reserve s r p fp now = Some ((set_cache s0 p c')\<lparr>ks_journal := j\<rparr>)"
    using trim by (cases "fp_basis fp") (simp_all add: reserve_def p0 s0 Let_def)
  with c' \<open>ks_caches s0 = ks_caches s\<close> show ?thesis by auto
qed

lemma promise_order_bound:
  assumes "ledger_ok n l"
  shows "\<forall>x \<in> set (promise_order l). fst x < n"
proof
  fix x assume "x \<in> set (promise_order l)"
  then obtain y where y: "y \<in> set (promised l)" "x = (fst (snd y), fst y)"
    by (auto simp: promise_order_def)
  then have "map_of (promised l) (fst y) = Some (snd y)"
    using assms by (intro map_of_is_SomeI) (auto simp: ledger_ok_def)
  then have "fst (snd y) < n" using assms unfolding ledger_ok_def by blast
  with y(2) show "fst x < n" by simp
qed

lemma drain_ready_ok:
  assumes "store_ok s"
  shows "\<exists>s'. drain_ready s = Some s' \<and> store_ok s' \<and> num_partitions s' = num_partitions s
    \<and> (\<forall>p < num_partitions s. prefill_admits (ks_partitions s' ! p) =
          prefill_admits (ks_partitions s ! p) @ map snd (filter (\<lambda>x. fst x = p) (promise_order (ks_ledger s))))
    \<and> promised (ks_ledger s') = []"
proof -
  let ?n = "num_partitions s" and ?l = "with_reserved (num_partitions s) (ks_ledger s\<lparr>promised := []\<rparr>)"
  let ?f = "\<lambda>(p, r) s. do { st \<leftarrow> partition_at s p; Some (set_partition s p (add_prefill_admit st r)) }"
  have general: "\<exists>s'. fold_opt ?f order s0 = Some s' \<and> store_ok s' \<and> num_partitions s' = num_partitions s0
      \<and> ks_ledger s' = ks_ledger s0
      \<and> (\<forall>p < num_partitions s0. prefill_admits (ks_partitions s' ! p) =
          prefill_admits (ks_partitions s0 ! p) @ map snd (filter (\<lambda>x. fst x = p) order))"
    if "store_ok s0" "\<forall>x \<in> set order. fst x < num_partitions s0" for order s0
    using that
  proof (induction order arbitrary: s0)
    case (Cons x order)
    obtain p r where x: "x = (p, r)" by (cases x)
    let ?st = "add_prefill_admit (ks_partitions s0 ! p) r"
    let ?s1 = "set_partition s0 p ?st"
    have p: "p < num_partitions s0" using Cons.prems x by simp
    have "resident_ok ?st" "part_accounting ?st = ks_accounting s0"
      using store_okD [OF Cons.prems(1) p] by (simp_all add: add_prefill_admit_def)
    then have "store_ok ?s1" using store_ok_set_partition [OF Cons.prems(1)] by simp
    then obtain s' where "fold_opt ?f order ?s1 = Some s' \<and> store_ok s'
        \<and> num_partitions s' = num_partitions ?s1 \<and> ks_ledger s' = ks_ledger ?s1
        \<and> (\<forall>q < num_partitions ?s1. prefill_admits (ks_partitions s' ! q) =
          prefill_admits (ks_partitions ?s1 ! q) @ map snd (filter (\<lambda>x. fst x = q) order))"
      using Cons.IH [of ?s1] Cons.prems(2) by auto
    moreover have "prefill_admits (ks_partitions ?s1 ! q) =
        prefill_admits (ks_partitions s0 ! q) @ (if q = p then [r] else [])" for q
      using p by (auto simp: add_prefill_admit_def num_partitions_def nth_list_update)
    ultimately show ?case using x p by (auto simp: partition_at_ok)
  qed auto
  have "\<forall>x \<in> set (promise_order (ks_ledger s)). fst x < ?n"
    using promise_order_bound [OF store_ledger_ok [OF assms]] .
  moreover have "store_ok (s\<lparr>ks_ledger := ?l\<rparr>)"
    using store_ok_ledger [OF assms] ledger_ok_drain [OF store_ledger_ok [OF assms]] by simp
  ultimately obtain s' where "fold_opt ?f (promise_order (ks_ledger s)) (s\<lparr>ks_ledger := ?l\<rparr>) = Some s'"
    and s': "store_ok s'" "num_partitions s' = num_partitions s" "ks_ledger s' = ?l"
    "\<forall>p < num_partitions s. prefill_admits (ks_partitions s' ! p) =
      prefill_admits (ks_partitions s ! p) @ map snd (filter (\<lambda>x. fst x = p) (promise_order (ks_ledger s)))"
    using general [of "s\<lparr>ks_ledger := ?l\<rparr>" "promise_order (ks_ledger s)"] by force
  then have "drain_ready s = Some s'"
    by (simp add: drain_ready_def drain_promised_eq [OF store_ledger_ok [OF assms]])
  with s' show ?thesis by simp
qed

lemma prefill_contexts_distinct: "store_ok s \<Longrightarrow> distinct (map fst (prefill_contexts (ks_ledger s)))"
  by (simp add: store_ok_def ledger_ok_def)

text \<open>The ledger without one request's promise, chunked reservation, hold, placement or context.\<close>

lemma ledger_forgetting:
  assumes "ledger_ok n l"
  shows "\<exists>l'. forget_promise l r = Some l' \<and> ledger_ok n l' \<and> (\<forall>q. reserved_total l' q \<le> reserved_total l q)
      \<and> held_total l' = held_total l \<and> map_of (promised l') = (map_of (promised l))(r := None)
      \<and> chunked_prefill l' = chunked_prefill l \<and> placements l' = placements l \<and> held l' = held l
      \<and> prefill_contexts l' = prefill_contexts l"
proof -
  let ?l = "l\<lparr>promised := AList.delete r (promised l)\<rparr>"
  have "\<forall>q. reserved_total ?l q \<le> reserved_total l q"
    using reserved_count_delete_le(2) [of l r] assms by (simp add: ledger_ok_def)
  then show ?thesis
    using forget_promise_eq [OF assms, of r] ledger_ok_delete_promise [OF assms, of r]
      held_total_cong [of ?l l] by simp
qed

lemma ledger_unchunking:
  assumes "ledger_ok n l"
  shows "\<exists>l'. forget_chunked_prefill l r = Some l' \<and> ledger_ok n l' \<and> (\<forall>q. reserved_total l' q \<le> reserved_total l q)
      \<and> held_total l' = held_total l \<and> promised l' = promised l
      \<and> map_of (chunked_prefill l') = (map_of (chunked_prefill l))(r := None)
      \<and> placements l' = placements l \<and> held l' = held l \<and> prefill_contexts l' = prefill_contexts l"
proof -
  let ?l = "l\<lparr>chunked_prefill := AList.delete r (chunked_prefill l)\<rparr>"
  have "\<forall>q. reserved_total ?l q \<le> reserved_total l q"
    using alist_sum_delete_le [of "chunked_prefill l" _ r] assms
    by (simp add: reserved_total_def ledger_ok_def)
  then show ?thesis
    using forget_chunked_prefill_eq [OF assms, of r] ledger_ok_delete_chunked [OF assms, of r]
      held_total_cong [of ?l l] by simp
qed

lemma ledger_unholding:
  assumes "ledger_ok n l"
  shows "\<exists>l'. take_held l r = Some (l', map_option (\<lambda>(p, _, t). (p, t)) (map_of (held l) r)) \<and> ledger_ok n l'
      \<and> reserved_total l' = reserved_total l \<and> (\<forall>q. held_total l' q \<le> held_total l q)
      \<and> promised l' = promised l \<and> chunked_prefill l' = chunked_prefill l
      \<and> placements l' = placements l \<and> map_of (held l') = (map_of (held l))(r := None)
      \<and> prefill_contexts l' = prefill_contexts l"
proof -
  let ?l = "l\<lparr>held := AList.delete r (held l)\<rparr>"
  have "\<forall>q. held_total ?l q \<le> held_total l q"
    using alist_sum_delete_le [of "held l" _ r] assms by (simp add: held_total_def ledger_ok_def)
  moreover have "reserved_total ?l = reserved_total l" by (simp add: fun_eq_iff reserved_total_def)
  ultimately show ?thesis
    using take_held_eq [OF assms, of r] ledger_ok_take_held [OF assms, of r] by simp
qed

lemma ledger_untracking:
  fixes r :: request_id
  assumes "ledger_ok n l"
  defines "l' \<equiv> fst (take_prefill_context (fst (forget_placement l r)) r)"
  shows "ledger_ok n l'" and "reserved_total l' = reserved_total l" and "held_total l' = held_total l"
    and "promised l' = promised l" and "chunked_prefill l' = chunked_prefill l" and "held l' = held l"
    and "map_of (placements l') = (map_of (placements l))(r := None)"
    and "map_of (prefill_contexts l') = (map_of (prefill_contexts l))(r := None)"
proof -
  show "ledger_ok n l'"
    unfolding l'_def take_prefill_context_def forget_placement_def fst_conv
    using assms(1) by (intro ledger_ok_contexts ledger_ok_placements) (auto simp: ledger_ok_def)
qed (simp_all add: l'_def take_prefill_context_def forget_placement_def fun_eq_iff
    reserved_total_def held_total_def)

lemma commit_resident_ok:
  fixes r :: request_id and ctx :: nat
  assumes "store_ok s" and "p < num_partitions s" and "r \<notin> fst ` set (decodes (ks_partitions s ! p))"
  defines "prompt \<equiv> (case prefill_context (ks_ledger s) r of
    Some c \<Rightarrow> post_prefill_context_tokens c | None \<Rightarrow> ctx)"
  shows "\<exists>l st'. commit_resident s r p ctx remaining = Some (set_partition (s\<lparr>ks_ledger := l\<rparr>) p st')
    \<and> store_ok (set_partition (s\<lparr>ks_ledger := l\<rparr>) p st')
    \<and> forget_promise (ks_ledger s) r = Some l
    \<and> begin_decode (ks_partitions s ! p) r ctx remaining prompt = Some st'"
proof -
  note ok = store_ledger_ok [OF assms(1)]
  obtain l where l: "forget_promise (ks_ledger s) r = Some l" "ledger_ok (num_partitions s) l"
    "prefill_contexts l = prefill_contexts (ks_ledger s)"
    using ledger_forgetting [OF ok, of r] by blast
  obtain st' where st': "begin_decode (ks_partitions s ! p) r ctx remaining prompt = Some st'"
    "partition_ok st'" "part_accounting st' = part_accounting (ks_partitions s ! p)"
    using begin_decode_ok [OF store_okD(3) [OF assms(1,2)] assms(3)] by blast
  have "store_ok (set_partition (s\<lparr>ks_ledger := l\<rparr>) p st')"
    using store_ok_set_partition [OF store_ok_ledger [OF assms(1) l(2)], of st' p] st'(2,3)
      store_okD(5) [OF assms(1,2)] by simp
  moreover have "commit_resident s r p ctx remaining = Some (set_partition (s\<lparr>ks_ledger := l\<rparr>) p st')"
    using l(1,3) st'(1) partition_at_ok [OF assms(2)]
    by (simp add: commit_resident_def prompt_def prefill_context_def Let_def)
  ultimately show ?thesis using l(1) st'(1) by blast
qed

lemma advance_step_ok:
  assumes "store_ok s" and "scope_partition sc < num_partitions s"
    and "\<And>p rs. sc = RequestSubset p rs \<Longrightarrow> all_placed_on (ks_ledger s) p rs"
  shows "\<exists>st'. advance_step sc s = Some (set_partition s (scope_partition sc) st')
    \<and> store_ok (set_partition s (scope_partition sc) st')
    \<and> (case sc of WholePartition p \<Rightarrow> advance_decodes (ks_partitions s ! p) = Some st'
        | RequestSubset p rs \<Rightarrow> advance_subset (ks_partitions s ! p) rs = Some st')"
proof (cases sc)
  case (WholePartition p)
  then have p: "p < num_partitions s" using assms(2) by (simp add: scope_partition_def)
  from advancing.bank_step [OF partitions_list [OF assms(1)], of p]
  obtain st' where st': "advance_decodes (ks_partitions s ! p) = Some st'"
    "list_all (\<lambda>st. resident_ok st \<and> part_accounting st = ks_accounting s) ((ks_partitions s)[p := st'])"
    using p by (auto simp: num_partitions_def)
  then have "store_ok (set_partition s p st')"
    using assms(1) by (intro store_ok_partitions) (simp_all add: num_partitions_def)
  then show ?thesis using WholePartition st'(1) partition_at_ok [OF p]
    by (simp add: advance_step_def scope_partition_def)
next
  case (RequestSubset p rs)
  then have p: "p < num_partitions s" using assms(2) by (simp add: scope_partition_def)
  from advancing_subset.bank_step [OF partitions_list [OF assms(1)], of p rs]
  obtain st' where st': "advance_subset (ks_partitions s ! p) rs = Some st'"
    "list_all (\<lambda>st. resident_ok st \<and> part_accounting st = ks_accounting s) ((ks_partitions s)[p := st'])"
    using p by (auto simp: num_partitions_def)
  then have "store_ok (set_partition s p st')"
    using assms(1) by (intro store_ok_partitions) (simp_all add: num_partitions_def)
  then show ?thesis using RequestSubset st'(1) partition_at_ok [OF p] assms(3)
    by (simp add: advance_step_def scope_partition_def)
qed

lemma advance_steps_ok:
  assumes "store_ok s" and "scope_partition sc < num_partitions s"
    and "\<And>p rs. sc = RequestSubset p rs \<Longrightarrow> all_placed_on (ks_ledger s) p rs"
  shows "\<exists>s'. fold_opt (\<lambda>_. advance_step sc) [0..<n] s = Some s' \<and> store_ok s'
    \<and> num_partitions s' = num_partitions s \<and> ks_ledger s' = ks_ledger s \<and> ks_caches s' = ks_caches s
    \<and> ks_accounting s' = ks_accounting s"
proof -
  define P where "P t \<longleftrightarrow> store_ok t \<and> num_partitions t = num_partitions s \<and> ks_ledger t = ks_ledger s
    \<and> ks_caches t = ks_caches s \<and> ks_accounting t = ks_accounting s" for t
  have "\<exists>t'. advance_step sc t = Some t' \<and> P t'" if "P t" for t
    using advance_step_ok [of t sc] that assms(2,3) by (auto simp: P_def)
  then show ?thesis
    using fold_opt_total [of "[0..<n]" P "\<lambda>_. advance_step sc" s] assms(1) by (auto simp: P_def)
qed

lemma release_ok:
  assumes "store_ok s" and "p < num_partitions s"
  shows "\<exists>l st'. release s r p = Some (set_partition (s\<lparr>ks_ledger := l\<rparr>) p st')
    \<and> store_ok (set_partition (s\<lparr>ks_ledger := l\<rparr>) p st')
    \<and> release_decode (ks_partitions s ! p) r = Some st'
    \<and> (\<forall>q. reserved_total l q \<le> reserved_total (ks_ledger s) q \<and> held_total l q \<le> held_total (ks_ledger s) q)
    \<and> map_of (promised l) = (map_of (promised (ks_ledger s)))(r := None)
    \<and> map_of (chunked_prefill l) = (map_of (chunked_prefill (ks_ledger s)))(r := None)
    \<and> map_of (held l) = (map_of (held (ks_ledger s)))(r := None)
    \<and> map_of (placements l) = (map_of (placements (ks_ledger s)))(r := None)
    \<and> map_of (prefill_contexts l) = (map_of (prefill_contexts (ks_ledger s)))(r := None)"
proof -
  note ok = store_ledger_ok [OF assms(1)]
  obtain l1 o1 where l1: "take_held (ks_ledger s) r = Some (l1, o1)" "ledger_ok (num_partitions s) l1"
    "reserved_total l1 = reserved_total (ks_ledger s)" "\<forall>q. held_total l1 q \<le> held_total (ks_ledger s) q"
    "promised l1 = promised (ks_ledger s)" "chunked_prefill l1 = chunked_prefill (ks_ledger s)"
    "placements l1 = placements (ks_ledger s)" "map_of (held l1) = (map_of (held (ks_ledger s)))(r := None)"
    "prefill_contexts l1 = prefill_contexts (ks_ledger s)"
    using ledger_unholding [OF ok, of r] by blast
  obtain l2 where l2: "forget_promise l1 r = Some l2" "ledger_ok (num_partitions s) l2"
    "\<forall>q. reserved_total l2 q \<le> reserved_total l1 q" "held_total l2 = held_total l1"
    "map_of (promised l2) = (map_of (promised l1))(r := None)" "chunked_prefill l2 = chunked_prefill l1"
    "placements l2 = placements l1" "held l2 = held l1" "prefill_contexts l2 = prefill_contexts l1"
    using ledger_forgetting [OF l1(2), of r] by blast
  obtain l3 where l3: "forget_chunked_prefill l2 r = Some l3" "ledger_ok (num_partitions s) l3"
    "\<forall>q. reserved_total l3 q \<le> reserved_total l2 q" "held_total l3 = held_total l2" "promised l3 = promised l2"
    "map_of (chunked_prefill l3) = (map_of (chunked_prefill l2))(r := None)"
    "placements l3 = placements l2" "held l3 = held l2" "prefill_contexts l3 = prefill_contexts l2"
    using ledger_unchunking [OF l2(2), of r] by blast
  define l4 where "l4 = fst (take_prefill_context (fst (forget_placement l3 r)) r)"
  note l4 = ledger_untracking [OF l3(2), of r, folded l4_def]
  from releasing.bank_step [OF partitions_list [OF assms(1)], of p r]
  obtain st' where st': "release_decode (ks_partitions s ! p) r = Some st'"
    "list_all (\<lambda>st. resident_ok st \<and> part_accounting st = ks_accounting s) ((ks_partitions s)[p := st'])"
    using assms(2) by (auto simp: num_partitions_def)
  have "store_ok (s\<lparr>ks_ledger := l4\<rparr>)" using store_ok_ledger [OF assms(1) l4(1)] .
  from store_ok_partitions [OF this, of "(ks_partitions s)[p := st']"]
  have "store_ok (set_partition (s\<lparr>ks_ledger := l4\<rparr>) p st')"
    using st'(2) by (simp add: num_partitions_def)
  moreover have "release s r p = Some (set_partition (s\<lparr>ks_ledger := l4\<rparr>) p st')"
    using l1(1) l2(1) l3(1) st'(1) partition_at_ok [OF assms(2)] by (simp add: release_def l4_def Let_def)
  moreover have "reserved_total l4 q \<le> reserved_total (ks_ledger s) q \<and> held_total l4 q \<le> held_total (ks_ledger s) q" for q
    using l1(3,4) l2(3,4) l3(3,4) l4(2,3) by (metis order_trans)
  ultimately show ?thesis using st'(1) l1 l2 l3 l4
    by (intro exI [of _ l4] exI [of _ st']) simp
qed

lemma retain_prefix_ok:
  assumes "store_ok s" and "p < num_partitions s"
  shows "\<exists>c' j. retain_prefix s r p sid prompt tokens m now reason = Some ((set_cache s p c')\<lparr>ks_journal := j\<rparr>)
    \<and> store_ok ((set_cache s p c')\<lparr>ks_journal := j\<rparr>) \<and> used_units c' \<le> soft_room s p - live_soft s p"
proof -
  from tier.insert_at [OF caches_list [OF assms(1)], of p sid prompt tokens
      "soft_room s p - live_soft s p" m]
  obtain c' ms got where c': "insert_prefix (ks_caches s ! p) sid prompt tokens
      (soft_room s p - live_soft s p) m = Some (c', ms, got)"
    "list_all (tier_ok (ks_accounting s)) ((ks_caches s)[p := c'])"
    "used_units c' \<le> soft_room s p - live_soft s p"
    using assms by (auto simp: caches_length)
  have "store_ok (set_cache s p c')"
    using store_ok_caches [OF assms(1) c'(2)] assms(1) by (simp add: caches_length)
  with c'(1,3) show ?thesis
    by (fastforce simp: retain_prefix_def store_reads [OF assms] cache_at_ok [OF assms] Let_def)
qed

lemma decode_current_kv_returns:
  assumes "partition_ok st"
  shows "\<exists>kv. decode_current_kv st r = Some kv" and "\<exists>w. decode_charge st r = Some w"
proof -
  have "\<exists>d. indexed_decode st r = Some d"
    using assms by (auto simp: indexed_decode_def partition_ok_def split: option.split)
  then show "\<exists>kv. decode_current_kv st r = Some kv" "\<exists>w. decode_charge st r = Some w"
    by (auto simp: decode_current_kv_def decode_charge_def)
qed

lemma release_retaining_ok:
  assumes "store_ok s" and "p < num_partitions s"
  shows "\<exists>s1 s'. release s r p = Some s1 \<and> store_ok s1 \<and> release_retaining_prefix s r p now = Some s'
    \<and> store_ok s' \<and> num_partitions s' = num_partitions s \<and> ks_ledger s' = ks_ledger s1
    \<and> ks_partitions s' = ks_partitions s1 \<and> ks_accounting s' = ks_accounting s
    \<and> (s' = s1 \<or> (\<exists>c' j. s' = (set_cache s1 p c')\<lparr>ks_journal := j\<rparr>
        \<and> used_units c' \<le> soft_room s1 p - live_soft s1 p))"
proof -
  obtain l st' where s1: "release s r p = Some (set_partition (s\<lparr>ks_ledger := l\<rparr>) p st')"
    "store_ok (set_partition (s\<lparr>ks_ledger := l\<rparr>) p st')"
    using release_ok [OF assms, of r] by blast
  let ?s1 = "set_partition (s\<lparr>ks_ledger := l\<rparr>) p st'"
  obtain kv where kv: "decode_current_kv (ks_partitions s ! p) r = Some kv"
    using decode_current_kv_returns(1) [OF store_okD(3) [OF assms]] by blast
  let ?ctx = "prefill_context (ks_ledger s) r"
  let ?sid = "Option.bind ?ctx rp_session_id"
  show ?thesis
  proof (cases ?sid)
    case None
    then show ?thesis using s1 kv partition_at_ok [OF assms(2)]
      by (simp add: release_retaining_prefix_def Let_def num_partitions_def)
  next
    case (Some sid)
    have "p < num_partitions ?s1" using assms(2) by (simp add: num_partitions_def)
    from retain_prefix_ok [OF s1(2) this]
    obtain c' j where c': "retain_prefix ?s1 r p sid
        (case ?ctx of Some c \<Rightarrow> post_prefill_context_tokens c | None \<Rightarrow> 0)
        (case kv of Some n \<Rightarrow> n | None \<Rightarrow> (case ?ctx of Some c \<Rightarrow> post_prefill_context_tokens c | None \<Rightarrow> 0))
        (Option.bind ?ctx cache_return_metadata) now RequestComplete
        = Some ((set_cache ?s1 p c')\<lparr>ks_journal := j\<rparr>)"
      "store_ok ((set_cache ?s1 p c')\<lparr>ks_journal := j\<rparr>)"
      "used_units c' \<le> soft_room ?s1 p - live_soft ?s1 p" by blast
    then have "release_retaining_prefix s r p now = Some ((set_cache ?s1 p c')\<lparr>ks_journal := j\<rparr>)"
      using Some s1(1) kv partition_at_ok [OF assms(2)]
      by (simp add: release_retaining_prefix_def Let_def)
    with s1 c'(2,3) show ?thesis by (auto simp: num_partitions_def)
  qed
qed

lemma release_external_ok:
  assumes "store_ok s"
  shows "\<exists>s' q. release_external s r = Some (s', q) \<and> store_ok s' \<and> num_partitions s' = num_partitions s
    \<and> q = placement_of (ks_ledger s) r"
proof -
  note ok = store_ledger_ok [OF assms]
  let ?l = "fst (forget_placement (ks_ledger s) r)"
  have okl: "ledger_ok (num_partitions s) ?l"
    using ledger_ok_placements [OF ok] by (simp add: forget_placement_def)
  have ctx: "ledger_ok (num_partitions s) (fst (take_prefill_context l r))"
    if "ledger_ok (num_partitions s) l" for l
    using that ledger_ok_contexts [OF that, of "AList.delete r (prefill_contexts l)"]
    by (simp add: take_prefill_context_def ledger_ok_def)
  show ?thesis
  proof (cases "map_of (placements (ks_ledger s)) r")
    case None
    obtain l1 out where l1: "take_held ?l r = Some (l1, out)" "ledger_ok (num_partitions s) l1"
      using ledger_unholding [OF okl, of r] by blast
    obtain l2 where l2: "forget_chunked_prefill l1 r = Some l2" "ledger_ok (num_partitions s) l2"
      using ledger_unchunking [OF l1(2), of r] by blast
    show ?thesis using None l1 l2 ctx [OF l2(2)] store_ok_ledger [OF assms, of "fst (take_prefill_context l2 r)"]
      by (simp add: release_external_def forget_placement_def placement_of_def)
  next
    case (Some p)
    have p: "p < num_partitions s" using ok Some unfolding ledger_ok_def by blast
    from releasing.bank_step [OF partitions_list [OF assms], of p r]
    obtain st1 where st1: "release_decode (ks_partitions s ! p) r = Some st1"
      "list_all (\<lambda>st. resident_ok st \<and> part_accounting st = ks_accounting s) ((ks_partitions s)[p := st1])"
      using p by (auto simp: num_partitions_def)
    have in1: "resident_ok st1" "part_accounting st1 = ks_accounting s"
      using st1(2) p by (auto simp: list_all_length num_partitions_def dest: spec [of _ p])
    obtain l1 where l1: "forget_promise ?l r = Some l1" "ledger_ok (num_partitions s) l1"
      using ledger_forgetting [OF okl, of r] by blast
    obtain l2 where l2: "forget_chunked_prefill l1 r = Some l2" "ledger_ok (num_partitions s) l2"
      using ledger_unchunking [OF l1(2), of r] by blast
    have "part_accounting (remove_prefill_admit st1 r) = part_accounting st1"
      "partition_ok (remove_prefill_admit st1 r) = partition_ok st1"
      by (simp_all add: remove_prefill_admit_def Let_def)
    then have "store_ok (set_partition (s\<lparr>ks_ledger := fst (take_prefill_context l2 r)\<rparr>) p
        (remove_prefill_admit st1 r))"
      using in1 store_ok_set_partition [OF store_ok_ledger [OF assms ctx [OF l2(2)]]] by simp
    then show ?thesis using Some st1(1) l1 l2 partition_at_ok [OF p]
      by (simp add: release_external_def forget_placement_def placement_of_def Let_def num_partitions_def)
  qed
qed

lemma store_hold_ok:
  assumes "store_ok s" and "p < num_partitions s"
  shows "\<exists>l. store_hold s p r kv = Some (s\<lparr>ks_ledger := l\<rparr>) \<and> store_ok (s\<lparr>ks_ledger := l\<rparr>)"
proof -
  obtain l where "hold_kv (ks_ledger s) r p (held_while_running (ks_accounting s) kv 1) kv = Some l"
    "ledger_ok (num_partitions s) l"
    using hold_kv_eq [OF store_ledger_ok [OF assms(1)] assms(2)]
      ledger_ok_hold [OF store_ledger_ok [OF assms(1)] assms(2)] by blast
  then have "store_hold s p r kv = Some (s\<lparr>ks_ledger := l\<rparr>)" "store_ok (s\<lparr>ks_ledger := l\<rparr>)"
    using store_ok_ledger [OF assms(1)] by (simp_all add: store_hold_def)
  then show ?thesis by blast
qed

lemma sample_submit_ok:
  assumes "store_ok s" and "p < num_partitions s"
  shows "\<exists>x. sample_submit s p now = Some (s\<lparr>ks_sampler := x\<rparr>)"
proof (cases "ks_sampler s")
  case None
  then have "s\<lparr>ks_sampler := None\<rparr> = s" by simp
  with None show ?thesis by (intro exI [of _ None]) (simp add: sample_submit_def)
next
  case (Some samples)
  then show ?thesis by (auto simp: sample_submit_def store_reads [OF assms] store_okD [OF assms])
qed

lemma complete_handoff_ok:
  assumes "store_ok s"
  shows "\<exists>s'. complete_handoff s r now = Some s' \<and> store_ok s' \<and> num_partitions s' = num_partitions s"
proof -
  note ok = store_ledger_ok [OF assms]
  obtain l1 where l1: "take_held (ks_ledger s) r =
      Some (l1, map_option (\<lambda>(p, _, t). (p, t)) (map_of (held (ks_ledger s)) r))"
    "ledger_ok (num_partitions s) l1" using ledger_unholding [OF ok, of r] by blast
  show ?thesis
  proof (cases "map_of (held (ks_ledger s)) r")
    case None
    then show ?thesis using l1 store_ok_ledger [OF assms l1(2)] by (simp add: complete_handoff_def)
  next
    case (Some v)
    obtain p u t where v: "v = (p, u, t)" by (cases v)
    have p: "p < num_partitions s" using ok Some v unfolding ledger_ok_def by fastforce
    let ?l2 = "fst (take_prefill_context l1 r)"
    let ?s1 = "s\<lparr>ks_ledger := ?l2\<rparr>"
    have l2: "ledger_ok (num_partitions s) ?l2"
      using ledger_ok_contexts [OF l1(2), of "AList.delete r (prefill_contexts l1)"] l1(2)
      by (simp add: take_prefill_context_def ledger_ok_def)
    have ok1: "store_ok ?s1" "p < num_partitions ?s1" using store_ok_ledger [OF assms l2] p by simp_all
    let ?ctx = "map_of (prefill_contexts l1) r"
    let ?retained = "(case Option.bind ?ctx rp_session_id of
        Some i \<Rightarrow> retain_prefix ?s1 r p i (case ?ctx of Some c \<Rightarrow> post_prefill_context_tokens c | None \<Rightarrow> t)
          t (Option.bind ?ctx cache_return_metadata) now HandoffComplete
      | None \<Rightarrow> Some ?s1)"
    have "\<exists>s2. ?retained = Some s2 \<and> store_ok s2 \<and> num_partitions s2 = num_partitions s"
    proof (cases "Option.bind ?ctx rp_session_id")
      case None
      then show ?thesis using ok1(1) by simp
    next
      case (Some sid)
      from retain_prefix_ok [OF ok1] obtain c' j where "retain_prefix ?s1 r p sid
          (case ?ctx of Some c \<Rightarrow> post_prefill_context_tokens c | None \<Rightarrow> t) t
          (Option.bind ?ctx cache_return_metadata) now HandoffComplete = Some ((set_cache ?s1 p c')\<lparr>ks_journal := j\<rparr>)"
        "store_ok ((set_cache ?s1 p c')\<lparr>ks_journal := j\<rparr>)" by blast
      with Some show ?thesis by (simp add: num_partitions_def)
    qed
    then obtain s2 where s2: "?retained = Some s2" "store_ok s2" "num_partitions s2 = num_partitions s" by blast
    obtain x where "sample_submit s2 p now = Some (s2\<lparr>ks_sampler := x\<rparr>)"
      using sample_submit_ok [OF s2(2), of p] p s2(3) by auto
    then have "complete_handoff s r now = Some (s2\<lparr>ks_sampler := x\<rparr>)"
      using Some v l1(1) s2(1) [unfolded take_prefill_context_def fst_conv]
      by (simp add: complete_handoff_def take_prefill_context_def Let_def)
    with s2 show ?thesis by simp
  qed
qed

text \<open>What the preview saw is what the reservation takes, so the debug assertion on the two hits
  holds when nothing ran between them.\<close>

lemma preview_hit:
  assumes "store_ok s" and "p < num_partitions s"
    and "preview_prefill_context s p fresh si = Some c" and "rp_session_id c = Some sid"
  shows "(peek (ks_caches s ! p) sid (rp_declared c) - resident_prefix_tokens c)
    + (resident_prefix_tokens c - peek (ks_caches s ! p) sid (rp_declared c)) \<le> 1"
proof -
  obtain time declared where si: "si = Session sid time declared"
    using assms(3,4) resolved_prefill_SomeD(5)
    by (cases si) (fastforce simp: preview_prefill_context_def bind_Some_iff session_id_def)+
  let ?hit = "peek (ks_caches s ! p) sid declared"
  have c: "resolved_prefill si ?hit fresh = Some c"
    using assms(3) si by (simp add: preview_prefill_context_def cache_at_ok [OF assms(1,2)])
  have "rp_declared c = declared" using resolved_prefill_SomeD(4) [OF c] si by (simp add: declared_prefix_tokens_def)
  with resolved_prefill_SomeD(7,8) [OF c] show ?thesis by simp
qed

lemma reserve_prefill_context_ok:
  assumes "store_ok s" and "p < num_partitions s" and "reserved_count (ks_ledger s) p < u32_max"
    and "\<And>sid. rp_session_id ctx = Some sid \<Longrightarrow>
      (peek (ks_caches s ! p) sid (rp_declared ctx) - resident_prefix_tokens ctx)
      + (resident_prefix_tokens ctx - peek (ks_caches s ! p) sid (rp_declared ctx)) \<le> 1"
  shows "\<exists>s1 ctx1. reserve_prefill_context s r p ctx fp now =
        reserve (s1\<lparr>ks_ledger := set_prefill_context (ks_ledger s) r ctx1\<rparr>) r p fp now
    \<and> store_ok (s1\<lparr>ks_ledger := set_prefill_context (ks_ledger s) r ctx1\<rparr>)
    \<and> ks_partitions s1 = ks_partitions s \<and> ks_accounting s1 = ks_accounting s
    \<and> used_units (ks_caches s1 ! p) \<le> used_units (ks_caches s ! p)
    \<and> post_prefill_context_tokens ctx1 = post_prefill_context_tokens ctx
    \<and> active_chunk_tokens ctx1 = active_chunk_tokens ctx
    \<and> (\<forall>sid. rp_session_id ctx = Some sid \<longrightarrow> peek (ks_caches s1 ! p) sid (rp_declared ctx) = 0)"
proof -
  have setc: "store_ok (t\<lparr>ks_ledger := set_prefill_context (ks_ledger s) r c\<rparr>)"
    if "store_ok t" "num_partitions t = num_partitions s" for t c
  proof -
    have "ledger_ok (num_partitions s) (set_prefill_context (ks_ledger s) r c)"
      using ledger_ok_contexts [OF store_ledger_ok [OF assms(1)]] prefill_contexts_distinct [OF assms(1)]
      by (simp add: set_prefill_context_def)
    then show ?thesis using store_ok_ledger [OF that(1)] that(2) by simp
  qed
  show ?thesis
  proof (cases "rp_session_id ctx")
    case None
    then show ?thesis using setc [OF assms(1), of ctx]
      by (intro exI [of _ s] exI [of _ ctx]) (simp add: reserve_prefill_context_def)
  next
    case (Some sid)
    from tier.take_at [OF caches_list [OF assms(1)], of p sid "rp_declared ctx"]
    obtain c' t where c': "take_prefix (ks_caches s ! p) sid (rp_declared ctx) = Some (c', t)"
      "list_all (tier_ok (ks_accounting s)) ((ks_caches s)[p := c'])"
      "used_units c' \<le> used_units (ks_caches s ! p)"
      "hit_tokens t = peek (ks_caches s ! p) sid (rp_declared ctx)" "peek c' sid (rp_declared ctx) = 0"
      using assms by (auto simp: caches_length)
    let ?c = "with_cache_return_metadata ctx (return_metadata t)"
    obtain j where eq: "reserve_prefill_context s r p ctx fp now =
        reserve (((set_cache s p c')\<lparr>ks_journal := j\<rparr>)\<lparr>ks_ledger := set_prefill_context (ks_ledger s) r ?c\<rparr>) r p fp now"
      using Some c'(1,4) assms(4) [OF Some]
      by (simp add: reserve_prefill_context_def cache_at_ok [OF assms(1,2)] Let_def)
    have "store_ok ((set_cache s p c')\<lparr>ks_journal := j\<rparr>)"
      using store_ok_caches [OF assms(1) c'(2)] assms(1) by (simp add: caches_length)
    from setc [OF this, of ?c] have "store_ok (((set_cache s p c')\<lparr>ks_journal := j\<rparr>)
        \<lparr>ks_ledger := set_prefill_context (ks_ledger s) r ?c\<rparr>)" by simp
    with eq show ?thesis using Some c'(3,5) assms(1,2)
      by (intro exI [of _ "(set_cache s p c')\<lparr>ks_journal := j\<rparr>"] exI [of _ ?c])
        (simp add: caches_length with_cache_return_metadata_def)
  qed
qed

subsection \<open>The next decode step\<close>

lemma required_needs_decode:
  assumes "next_decode_allocation_units st page step = Some required" and "required \<noteq> 0"
  shows "\<exists>r. first_decode_request st = Some r"
proof -
  have "iter_decoding st \<noteq> []"
    using assms
    by (auto simp: next_decode_allocation_units_def bind_Some_iff Let_def split: option.splits if_splits)
  then show ?thesis by (cases "iter_decoding st") (auto simp: first_decode_request_def)
qed

definition decode_shortfall :: "KvStore \<Rightarrow> partition_id \<Rightarrow> nat \<Rightarrow> nat" where
  "decode_shortfall s p required =
     min required (hard_tier s p + required - capacity_units (ks_accounting s))"

lemma prepare_next_decode_ok:
  assumes "store_ok s" and "p < num_partitions s" and "0 < page"
    and "next_decode_allocation_units (ks_partitions s ! p) page step = Some required"
    and "hard_tier s p + required \<le> u64_max"
  shows "\<exists>s'. prepare_next_decode s p page step now = Some (s', decode_shortfall s p required)
    \<and> store_ok s' \<and> ks_partitions s' = ks_partitions s \<and> ks_ledger s' = ks_ledger s
    \<and> ks_accounting s' = ks_accounting s
    \<and> (required = 0 \<and> s' = s \<or>
        used_units (ks_caches s' ! p) \<le> capacity_units (ks_accounting s) - (hard_tier s p + required))"
proof (cases "required = 0")
  case True
  then show ?thesis using assms(1,3,4) partition_at_ok [OF assms(2)]
    by (simp add: prepare_next_decode_def decode_shortfall_def)
next
  case False
  let ?cap = "capacity_units (ks_accounting s)"
  obtain r where r: "first_decode_request (ks_partitions s ! p) = Some r"
    using required_needs_decode [OF assms(4) False] by blast
  define slack where "slack = ?cap - (hard_tier s p + required)"
  obtain c' ms where c': "shrink_to (ks_caches s ! p)
      (slack - min (live_checkpoint_units (ks_partitions s ! p)) slack) = Some (c', ms)"
    "store_ok (set_cache s p c')"
    "used_units c' \<le> slack - min (live_checkpoint_units (ks_partitions s ! p)) slack"
    using shrink_store [OF assms(1,2)] by blast
  have used: "used_units c' \<le> slack" using c'(3) by linarith
  have short: "required - (?cap - saturating_add_u64 (hard_tier s p) (used_units c'))
      = decode_shortfall s p required"
    using used assms(5) unfolding slack_def saturating_add_u64_def decode_shortfall_def by linarith
  obtain j where j: "journal_pressure (set_cache s p c') r p now ms = (set_cache s p c')\<lparr>ks_journal := j\<rparr>"
    using journal_pressure_journal by blast
  have sat: "saturating_add_u64 (hard_tier s p) required = hard_tier s p + required"
    using assms(5) by (simp add: saturating_add_u64_def)
  have "prepare_next_decode s p page step now =
      Some ((set_cache s p c')\<lparr>ks_journal := j\<rparr>, decode_shortfall s p required)"
    using False assms(3,4) r c'(1) j short sat
    by (simp add: prepare_next_decode_def store_okD [OF assms(1,2)] capacity_of_partition [OF assms(1,2)]
        Let_def hard_tier_def [symmetric] slack_def)
  with c'(2) used assms(1,2) show ?thesis unfolding slack_def by (simp add: caches_length)
qed

text \<open>What the step asks for is what it adds: with one-token pages the units required are the sum
  of the live decodes' growth.\<close>

lemma live_sum: "sum_list (map (\<lambda>x. g (snd x)) (filter (\<lambda>(_, d). 0 < remaining_decode d) xs))
    = sum_list (map (\<lambda>d. if 0 < remaining_decode d then g d else 0) (map snd xs))"
  by (induction xs) auto

lemma required_is_growth:
  assumes "partition_ok st" and "next_decode_allocation_units st 1 1 = Some required"
    and "advance_decodes st = Some st'" and "steady_checkpoints (part_accounting st)"
  shows "resident_units st' = resident_units st + required"
proof -
  let ?a = "part_accounting st"
  let ?g = "\<lambda>d. if 0 < remaining_decode d then growth_over ?a (current_kv d) 1 else 0"
  have acc: "accounting_ok ?a" using assms(1) by (simp add: partition_ok_def)
  have live: "min (remaining_decode d) 1 = 1" if "0 < remaining_decode d" for d using that by simp
  have "required = sum_list (map (\<lambda>x. growth_over ?a (current_kv (snd x)) 1) (iter_decoding st))"
  proof -
    have general: "sum_list (map (\<lambda>(_, d). growth_over ?a (current_kv d) (min (remaining_decode d) 1)) (iter_decoding st))
        = sum_list (map (\<lambda>x. growth_over ?a (current_kv (snd x)) 1) (iter_decoding st))"
      by (intro arg_cong [of _ _ sum_list] map_cong refl) (auto simp: iter_decoding_def live)
    have linear: "sum_list (map (\<lambda>(_, d). min (remaining_decode d) 1 * u) (iter_decoding st))
        = sum_list (map (\<lambda>x. u) (iter_decoding st))" for u
      by (intro arg_cong [of _ _ sum_list] map_cong refl) (auto simp: iter_decoding_def live)
    show ?thesis
    proof (cases "linear_units_per_token ?a")
      case None
      with general assms(2) show ?thesis by (simp add: next_decode_allocation_units_def Let_def)
    next
      case (Some u)
      then have "growth_over ?a k 1 = u" for k by (simp add: growth_over_def)
      with linear [of u] Some assms(2) show ?thesis
        by (simp add: next_decode_allocation_units_def Let_def)
    qed
  qed
  also have "\<dots> = sum_list (map ?g (map snd (decodes st)))"
    unfolding iter_decoding_def by (rule live_sum)
  finally have req: "required = sum_list (map ?g (map snd (decodes st)))" .
  have "held_while_running ?a (current_kv (step_decode ?a d)) 1
      = held_while_running ?a (current_kv d) 1 + ?g d" for d
    using held_plus_growth [OF acc, of "current_kv d" 1] by (simp add: step_decode_def advanced_def)
  moreover have states: "\<forall>d \<in> set (map snd (decodes st)). state_ok ?a d"
    using assms(1) unfolding partition_ok_def by blast
  ultimately have "map rd_charge (map (step_decode ?a) (map snd (decodes st)))
      = map (\<lambda>d. rd_charge d + ?g d) (map snd (decodes st))"
    using step_decode_ok unfolding map_map by (intro map_cong refl) (auto simp: state_ok_def)
  moreover have "map snd (decodes st') = map (step_decode ?a) (map snd (decodes st))" and "partition_ok st'"
    using advance_decodes_ok [OF assms(1,4)] assms(3) by (auto simp: comp_def split_beta)
  moreover have "resident_units st' = sum_list (map rd_charge (map snd (decodes st')))"
    using \<open>partition_ok st'\<close> unfolding partition_ok_def by blast
  ultimately have "resident_units st' = sum_list (map (\<lambda>d. rd_charge d + ?g d) (map snd (decodes st)))"
    by (simp only:)
  moreover have "resident_units st = sum_list (map rd_charge (map snd (decodes st)))"
    using assms(1) unfolding partition_ok_def by blast
  ultimately show ?thesis using req by (simp only: sum_list_addf)
qed

end
