(* ===== verification/Store_Guarantees.thy ===== *)
theory Store_Guarantees
  imports Store_Lifecycle
begin

section \<open>Runs of the store\<close>

text \<open>
  The store as a transition system over its public operations, and what every run keeps: the
  store stays consistent, and with full footprints the hard tier stays within the capacity from
  admission to release.
\<close>

subsection \<open>Every reachable store is consistent\<close>

text \<open>A request is committed at most once while it is resident on the partition, which the worker
  guarantees and \<open>begin_decode\<close> relies on; a partition never has \<open>u32::MAX\<close> reservations.\<close>

inductive store_step :: "KvStore \<Rightarrow> KvStore \<Rightarrow> bool" where
  st_reserve: "p < num_partitions s \<Longrightarrow> reserved_count (ks_ledger s) p < u32_max \<Longrightarrow>
    reserve s r p fp now = Some s' \<Longrightarrow> store_step s s'"
| st_reserve_prefill: "p < num_partitions s \<Longrightarrow> reserved_count (ks_ledger s) p < u32_max \<Longrightarrow>
    reserve_prefill_context s r p ctx fp now = Some s' \<Longrightarrow> store_step s s'"
| st_reserve_chunked: "p < num_partitions s \<Longrightarrow> reserved_count (ks_ledger s) p < u32_max \<Longrightarrow>
    reserve_chunked_prefill_context s r p ctx fp now = Some s' \<Longrightarrow> store_step s s'"
| st_drain: "drain_ready s = Some s' \<Longrightarrow> store_step s s'"
| st_commit: "p < num_partitions s \<Longrightarrow> r \<notin> fst ` set (decodes (ks_partitions s ! p)) \<Longrightarrow>
    commit_resident s r p kv remaining = Some s' \<Longrightarrow> store_step s s'"
| st_finish_chunked: "p < num_partitions s \<Longrightarrow> r \<notin> fst ` set (decodes (ks_partitions s ! p)) \<Longrightarrow>
    finish_chunked_prefill s r p remaining = Some s' \<Longrightarrow> store_step s s'"
| st_schedule_chunk: "p < num_partitions s \<Longrightarrow> schedule_prefill_chunk s r p n = Some s' \<Longrightarrow> store_step s s'"
| st_complete_chunk: "complete_prefill_chunk s r = Some s' \<Longrightarrow> store_step s s'"
| st_advance: "scope_partition sc < num_partitions s \<Longrightarrow> advance s sc n = Some s' \<Longrightarrow> store_step s s'"
| st_clear: "p < num_partitions s \<Longrightarrow> store_clear_prefill_admits s p = Some s' \<Longrightarrow> store_step s s'"
| st_release: "p < num_partitions s \<Longrightarrow> release s r p = Some s' \<Longrightarrow> store_step s s'"
| st_release_retaining: "p < num_partitions s \<Longrightarrow> release_retaining_prefix s r p now = Some s' \<Longrightarrow>
    store_step s s'"
| st_release_external: "release_external s r = Some (s', q) \<Longrightarrow> store_step s s'"
| st_hold: "p < num_partitions s \<Longrightarrow> store_hold s p r kv = Some s' \<Longrightarrow> store_step s s'"
| st_complete_handoff: "complete_handoff s r now = Some s' \<Longrightarrow> store_step s s'"
| st_sample: "p < num_partitions s \<Longrightarrow> sample_submit s p now = Some s' \<Longrightarrow> store_step s s'"
| st_prepare: "p < num_partitions s \<Longrightarrow> prepare_next_decode s p page steps now = Some (s', k) \<Longrightarrow>
    store_step s s'"

inductive store_reachable :: "nat \<Rightarrow> KvAccounting \<Rightarrow> PrefixCacheBudget \<Rightarrow> KvStore \<Rightarrow> bool" for n a b where
  sr_new: "store_reachable n a b (new_store n a b sampled logged)"
| sr_step: "store_reachable n a b s \<Longrightarrow> store_step s s' \<Longrightarrow> store_reachable n a b s'"

lemma reserve_keeps:
  assumes "store_ok s" and "p < num_partitions s" and "reserved_count (ks_ledger s) p < u32_max"
    and "reserve s r p fp now = Some s'"
  shows "store_ok s' \<and> num_partitions s' = num_partitions s"
  using reserve_ok [OF assms(1,2,3), of r fp now] assms(4) by (auto simp: num_partitions_def)

lemma reserve_prefill_keeps:
  assumes "store_ok s" and "p < num_partitions s" and "reserved_count (ks_ledger s) p < u32_max"
    and "reserve_prefill_context s r p ctx fp now = Some s'"
  shows "store_ok s' \<and> num_partitions s' = num_partitions s"
proof -
  have "(peek (ks_caches s ! p) sid (rp_declared ctx) - resident_prefix_tokens ctx)
      + (resident_prefix_tokens ctx - peek (ks_caches s ! p) sid (rp_declared ctx)) \<le> 1"
    if sid: "rp_session_id ctx = Some sid" for sid
  proof -
    obtain c' t where "take_prefix (ks_caches s ! p) sid (rp_declared ctx) = Some (c', t)"
      "hit_tokens t = peek (ks_caches s ! p) sid (rp_declared ctx)"
      using tier.take_at [OF caches_list [OF assms(1)], of p sid "rp_declared ctx"] assms(1,2)
      by (auto simp: caches_length)
    then show ?thesis using assms(4) sid
      by (auto simp: reserve_prefill_context_def cache_at_ok [OF assms(1,2)] bind_Some_iff Let_def)
  qed
  from reserve_prefill_context_ok [OF assms(1,2,3) this, of r fp now]
  obtain s1 c where s1: "reserve_prefill_context s r p ctx fp now =
      reserve (s1\<lparr>ks_ledger := set_prefill_context (ks_ledger s) r c\<rparr>) r p fp now"
    "store_ok (s1\<lparr>ks_ledger := set_prefill_context (ks_ledger s) r c\<rparr>)" "ks_partitions s1 = ks_partitions s"
    by blast
  have "reserved_count (set_prefill_context (ks_ledger s) r c) = reserved_count (ks_ledger s)"
    by (simp add: fun_eq_iff reserved_count_def set_prefill_context_def)
  then show ?thesis using reserve_keeps [OF s1(2), of p r fp now s'] s1(1,3) assms(2,3,4)
    by (simp add: num_partitions_def)
qed

lemma ledger_change_keeps:
  assumes "store_ok s" and "ledger_step (num_partitions s) (ks_ledger s) l"
  shows "store_ok (s\<lparr>ks_ledger := l\<rparr>)"
  using store_ok_ledger [OF assms(1) ledger_step_ok [OF assms(2) store_ledger_ok [OF assms(1)]]] .

lemma commit_keeps:
  assumes "store_ok s" and "p < num_partitions s" and "r \<notin> fst ` set (decodes (ks_partitions s ! p))"
    and "commit_resident s r p kv remaining = Some s'"
  shows "store_ok s' \<and> num_partitions s' = num_partitions s"
  using commit_resident_ok [OF assms(1-3), of kv remaining] assms(4) by (auto simp: num_partitions_def)

lemma admits_keep:
  assumes "store_ok s" and "p < num_partitions s" and "\<And>st. partition_ok (f st) = partition_ok st"
    and "\<And>st. part_accounting (f st) = part_accounting st"
  shows "store_ok (set_partition s p (f (ks_partitions s ! p)))"
  using store_okD(3,5,7) [OF assms(1,2)] assms(3,4) by (intro store_ok_set_partition [OF assms(1)]) simp_all

lemma all_placed_when_advanced:
  assumes "advance_step (RequestSubset p rs) s = Some s'"
  shows "all_placed_on (ks_ledger s) p rs"
  using assms by (auto simp: advance_step_def bind_Some_iff)

lemma advance_step_keeps:
  assumes "store_ok s" and "scope_partition sc < num_partitions s" and "advance_step sc s = Some s'"
  shows "store_ok s' \<and> num_partitions s' = num_partitions s"
proof -
  have "all_placed_on (ks_ledger s) p rs" if "sc = RequestSubset p rs" for p rs
    using all_placed_when_advanced [of p rs s s'] assms(3) that by simp
  from advance_step_ok [OF assms(1,2) this] obtain st' where
    "advance_step sc s = Some (set_partition s (scope_partition sc) st')"
    "store_ok (set_partition s (scope_partition sc) st')" by blast
  then show ?thesis using assms(3) by simp
qed

lemma advance_keeps:
  assumes "store_ok s" and "scope_partition sc < num_partitions s" and "advance s sc n = Some s'"
  shows "store_ok s' \<and> num_partitions s' = num_partitions s"
proof -
  have run: "fold_opt (\<lambda>_. advance_step sc) [0..<n] s = Some s'"
    using assms(3) by (auto simp: advance_def bind_Some_iff)
  have step: "store_ok t' \<and> num_partitions t' = num_partitions s"
    if "store_ok t \<and> num_partitions t = num_partitions s" "advance_step sc t = Some t'" for t t'
    using advance_step_keeps [of t sc t'] that assms(2) by simp
  show ?thesis
    by (rule fold_opt_invariant [where f = "\<lambda>_. advance_step sc" and
        P = "\<lambda>t. store_ok t \<and> num_partitions t = num_partitions s", OF _ run])
      (use step assms(1) in blast)+
qed

lemma prepare_keeps:
  assumes "store_ok s" and "p < num_partitions s"
    and "prepare_next_decode s p page steps now = Some (s', k)"
  shows "store_ok s' \<and> num_partitions s' = num_partitions s"
proof -
  have "s' = s \<or> (\<exists>c ms n r. shrink_to (ks_caches s ! p) n = Some (c, ms)
      \<and> s' = journal_pressure (set_cache s p c) r p now ms)"
    using assms(3) by (auto simp: prepare_next_decode_def cache_at_ok [OF assms(1,2)] bind_Some_iff Let_def
        split: if_splits)
  then show ?thesis
  proof (elim disjE exE conjE)
    fix c ms n r
    assume c: "shrink_to (ks_caches s ! p) n = Some (c, ms)" and s': "s' = journal_pressure (set_cache s p c) r p now ms"
    have "store_ok (set_cache s p c)" using shrink_store [OF assms(1,2), of n] c by auto
    then show ?thesis using s' journal_pressure_journal [of "set_cache s p c" r p now ms] by auto
  qed (use assms(1) in simp)
qed

lemma store_step_ok:
  assumes "store_step s s'" and ok: "store_ok s"
  shows "store_ok s' \<and> num_partitions s' = num_partitions s"
  using assms(1)
proof cases
  case (st_reserve p r fp now)
  then show ?thesis using reserve_keeps [OF ok] by blast
next
  case (st_reserve_prefill p r ctx fp now)
  then show ?thesis using reserve_prefill_keeps [OF ok] by blast
next
  case (st_reserve_chunked p r ctx fp now)
  then obtain s1 l where s1: "reserve_prefill_context s r p ctx fp now = Some s1"
    "promote_promise_to_chunked_prefill (ks_ledger s1) r = Some l" "s' = s1\<lparr>ks_ledger := l\<rparr>"
    by (auto simp: reserve_chunked_prefill_context_def bind_Some_iff)
  note k = reserve_prefill_keeps [OF ok st_reserve_chunked(1,2) s1(1)]
  then show ?thesis using ledger_change_keeps [of s1 l] s1(2,3) ls_promote by auto
next
  case st_drain
  then show ?thesis using drain_ready_ok [OF ok] by auto
next
  case (st_commit p r kv remaining)
  then show ?thesis using commit_keeps [OF ok] by blast
next
  case (st_finish_chunked p r remaining)
  then obtain l kv where l: "forget_chunked_prefill (ks_ledger s) r = Some l"
    "commit_resident (s\<lparr>ks_ledger := l\<rparr>) r p kv remaining = Some s'"
    unfolding finish_chunked_prefill_def bind_Some_iff by blast
  have "store_ok (s\<lparr>ks_ledger := l\<rparr>)" using ledger_change_keeps [OF ok ls_forget_chunked [OF l(1)]] .
  from commit_keeps [OF this _ _ l(2)] st_finish_chunked(1,2) show ?thesis by simp
next
  case (st_schedule_chunk p r n)
  then obtain l where l: "ledger_schedule_chunk (ks_ledger s) r n = Some l"
    "s' = set_partition (s\<lparr>ks_ledger := l\<rparr>) p (add_prefill_admit (ks_partitions s ! p) r)"
    by (auto simp: schedule_prefill_chunk_def bind_Some_iff partition_at_ok)
  have "store_ok (s\<lparr>ks_ledger := l\<rparr>)" using ledger_change_keeps [OF ok ls_schedule [OF l(1)]] .
  from admits_keep [OF this, of p "\<lambda>st. add_prefill_admit st r"] st_schedule_chunk(1) l(2)
  show ?thesis by (simp add: add_prefill_admit_def num_partitions_def)
next
  case (st_complete_chunk r)
  then obtain l where l: "ledger_complete_chunk (ks_ledger s) r = Some l" "s' = s\<lparr>ks_ledger := l\<rparr>"
    by (auto simp: complete_prefill_chunk_def bind_Some_iff)
  with ledger_change_keeps [OF ok ls_complete [OF l(1)]] show ?thesis by simp
next
  case (st_advance sc n)
  then show ?thesis using advance_keeps [OF ok] by blast
next
  case (st_clear p)
  with admits_keep [OF ok, of p clear_prefill_admits] show ?thesis
    by (auto simp: store_clear_prefill_admits_def partition_at_ok clear_prefill_admits_def num_partitions_def)
next
  case (st_release p r)
  with release_ok [OF ok, of p r] show ?thesis by (auto simp: num_partitions_def)
next
  case (st_release_retaining p r now)
  with release_retaining_ok [OF ok, of p r now] show ?thesis by auto
next
  case (st_release_external r q)
  with release_external_ok [OF ok, of r] show ?thesis by auto
next
  case (st_hold p r kv)
  with store_hold_ok [OF ok, of p r kv] show ?thesis by auto
next
  case (st_complete_handoff r now)
  with complete_handoff_ok [OF ok, of r now] show ?thesis by auto
next
  case (st_sample p now)
  with sample_submit_ok [OF ok, of p now] ok show ?thesis by auto
next
  case (st_prepare p page steps now k)
  then show ?thesis using prepare_keeps [OF ok] by blast
qed

text \<open>C22: Under a steady accounting, every store reachable from an empty one is consistent: its running totals are the sums of
  its maps, every partition's totals are what its decodes hold, every retained prefix is within its
  cache's limit, and all of them charge by the one accounting. Steady means that no checkpoint moves back as a
  context grows: nothing sparse to retain, resuming at the prompt end or at every block, or one-token blocks. The remaining
  accountings, which resume at the response end with longer blocks, are excluded: there a step can subtract a
  checkpoint it does not hold.\<close>

theorem store_reachable_ok:
  assumes "accounting_ok a" and "steady_checkpoints a" and "capacity_units a < u64_max"
    and "store_reachable n a b s"
  shows "store_ok s \<and> num_partitions s = n"
  using assms(4)
proof (induction rule: store_reachable.induct)
  case (sr_new sampled logged)
  show ?case using new_store_ok [OF assms(1-3)] by (simp add: num_partitions_def new_store_def)
next
  case (sr_step s s')
  then show ?case using store_step_ok [of s s'] by simp
qed

subsection \<open>Admission is safe\<close>

lemma promised_total:
  assumes "ledger_ok n l"
  shows "reserved_total (promised_ledger n l r p u) q \<le> reserved_total l q + (if q = p then u else 0)"
    and "held_total (promised_ledger n l r p u) = held_total l"
proof -
  have d: "distinct (map fst (promised l))" using assms by (simp add: ledger_ok_def)
  show "reserved_total (promised_ledger n l r p u) q \<le> reserved_total l q + (if q = p then u else 0)"
    using alist_sum_update_eq [OF d, of "\<lambda>_ v. if fst v = q then fst (snd v) else 0" r "(p, u, next_promise l)"]
    by (cases "p = q") (simp_all add: promised_ledger_def reserved_total_def)
  show "held_total (promised_ledger n l r p u) = held_total l"
    by (simp add: promised_ledger_def fun_eq_iff held_total_def)
qed

lemma reserve_stays:
  assumes "store_ok s" and "p < num_partitions s" and "reserved_count (ks_ledger s) p < u32_max"
    and "fp_basis fp = FullFootprint" and "fits s p fp = Some True"
  shows "\<exists>s'. reserve s r p fp now = Some s' \<and> store_ok s' \<and> within_capacity s' p
    \<and> num_partitions s' = num_partitions s \<and> ks_accounting s' = ks_accounting s
    \<and> ks_partitions s' = ks_partitions s
    \<and> ks_ledger s' = promised_ledger (num_partitions s) (ks_ledger s) r p (fp_reserved_units fp)
    \<and> (\<forall>q. q \<noteq> p \<longrightarrow> hard_peak s' q \<le> hard_peak s q)"
proof -
  note l = store_ledger_ok [OF assms(1)]
  let ?l = "promised_ledger (num_partitions s) (ks_ledger s) r p (fp_reserved_units fp)"
  let ?s0 = "s\<lparr>ks_ledger := ?l\<rparr>"
  obtain c' j where s': "reserve s r p fp now = Some ((set_cache ?s0 p c')\<lparr>ks_journal := j\<rparr>)"
    "store_ok ((set_cache ?s0 p c')\<lparr>ks_journal := j\<rparr>)" "used_units c' \<le> soft_room ?s0 p - live_soft ?s0 p"
    using reserve_ok [OF assms(1-3), of r fp now] assms(4) by auto
  let ?s' = "(set_cache ?s0 p c')\<lparr>ks_journal := j\<rparr>"
  have fit: "max (resident_units (ks_partitions s ! p)) (cached_peak (ks_partitions s ! p))
      + (reserved_total (ks_ledger s) p + held_total (ks_ledger s) p + fp_reserved_units fp)
      \<le> capacity_units (ks_accounting s)"
    using assms(5)
    by (simp add: fits_def store_okD [OF assms(1,2)] capacity_of_partition [OF assms(1,2)] Let_def max_def)
  have "hard_peak ?s0 p \<le> max (resident_units (ks_partitions s ! p)) (cached_peak (ks_partitions s ! p))
      + (reserved_total (ks_ledger s) p + held_total (ks_ledger s) p + fp_reserved_units fp)"
    using promised_total(1) [OF l, of r p "fp_reserved_units fp" p] promised_total(2) [OF l] by (simp add: hard_peak_def)
  with fit have peak: "hard_peak ?s0 p \<le> capacity_units (ks_accounting s)" by linarith
  have "ks_caches ?s' ! p = c'" using assms(1,2) by (simp add: caches_length)
  then have "within_capacity ?s' p" using limit_within_capacity [of ?s' p] peak s'(3) by simp
  moreover have "hard_peak ?s' q \<le> hard_peak s q" if "q \<noteq> p" for q
    using promised_total(1) [OF l, of r p "fp_reserved_units fp" q] promised_total(2) [OF l] that by (simp add: hard_peak_def)
  ultimately show ?thesis using s' by (intro exI [of _ ?s']) (simp add: num_partitions_def)
qed

text \<open>an admission that \<open>fits\<close> reports as fitting is kept: reserving a full footprint returns,
  and afterwards what is resident, promised and held, now and at the projected peak of the decodes,
  together with the clamped live checkpoints and the retained prefixes left by the trim, is at most
  the partition's capacity, with no other partition charged more.\<close>

theorem reserve_within_capacity:
  assumes "store_ok s" and "p < num_partitions s" and "reserved_count (ks_ledger s) p < u32_max"
    and "fp_basis fp = FullFootprint" and "fits s p fp = Some True"
  shows "\<exists>s'. reserve s r p fp now = Some s' \<and> store_ok s' \<and> within_capacity s' p
    \<and> (\<forall>q. q \<noteq> p \<longrightarrow> hard_peak s' q \<le> hard_peak s q)"
  using reserve_stays [OF assms] by blast

lemma future_residency_snoc:
  "future_residency a (ds @ [d]) t = future_residency a ds t
     + (if t \<le> remaining_decode d then held_while_running a (current_kv d + t) 1 else 0)"
  by (simp add: future_residency_def)

lemma future_residency_filter:
  "future_residency a (map snd (filter P ds)) t \<le> future_residency a (map snd ds) t"
  by (induction ds) (auto simp: future_residency_def)

lemma footprint_covers:
  assumes "accounting_ok a" and "t \<le> remaining"
  shows "held_while_running a (ctx + t) 1 \<le> footprint a ctx remaining"
  using held_mono [OF assms(1), of "ctx + t" "ctx + remaining" 1 1] assms(2) by (simp add: footprint_def)

lemma covering_resident:
  assumes "partition_ok st" and "peak_covers st"
  shows "resident_units st \<le> cached_peak st"
proof -
  have "resident_units st = future_residency (part_accounting st) (map snd (decodes st)) 0"
    using assms(1) future_residency_0 [of "map snd (decodes st)" "part_accounting st"]
    unfolding partition_ok_def by auto
  with assms(2) show ?thesis by (simp add: peak_covers_def)
qed

text \<open>Dropping one promise gives back exactly its units.\<close>

lemma forget_gives_back:
  assumes "ledger_ok n l" and "map_of (promised l) r = Some (p, u, seq)" and "forget_promise l r = Some l'"
  shows "reserved_total l' p + u = reserved_total l p" and "held_total l' = held_total l"
    and "q \<noteq> p \<Longrightarrow> reserved_total l' q = reserved_total l q"
proof -
  let ?d = "l\<lparr>promised := AList.delete r (promised l)\<rparr>"
  have l': "l' = with_reserved n ?d" using forget_promise_eq [OF assms(1), of r] assms(3) by simp
  have "reserved_pair ?d = (reserved_pair l)(p := (reserved_total l p - u, reserved_count l p - 1))"
    using reserved_pair_delete_promise [OF assms(2)] assms(1) by (simp add: ledger_ok_def)
  from fun_cong [OF this, of p] fun_cong [OF this, of q] promise_in_total [OF assms(2)]
  show "reserved_total l' p + u = reserved_total l p" "q \<noteq> p \<Longrightarrow> reserved_total l' q = reserved_total l q"
    by (simp_all add: l' reserved_pair_def)
  show "held_total l' = held_total l" using held_total_cong [of ?d l] by (simp add: l')
qed

lemma commit_stays:
  assumes "store_ok s" and "p < num_partitions s" and "r \<notin> fst ` set (decodes (ks_partitions s ! p))"
    and "peak_covers (ks_partitions s ! p)"
  shows "\<exists>s' l. commit_resident s r p ctx remaining = Some s' \<and> store_ok s'
    \<and> num_partitions s' = num_partitions s \<and> ks_accounting s' = ks_accounting s
    \<and> forget_promise (ks_ledger s) r = Some l \<and> ks_ledger s' = l
    \<and> hard_peak s' p \<le> hard_peak (s\<lparr>ks_ledger := l\<rparr>) p + footprint (ks_accounting s) ctx remaining
    \<and> (\<forall>q. q \<noteq> p \<longrightarrow> ks_partitions s' ! q = ks_partitions s ! q)
    \<and> length (decodes (ks_partitions s' ! p)) = length (decodes (ks_partitions s ! p)) + 1
    \<and> (length (decodes (ks_partitions s ! p)) < 7 \<longrightarrow> peak_covers (ks_partitions s' ! p))"
proof -
  let ?a = "ks_accounting s" and ?st = "ks_partitions s ! p"
  have acc: "accounting_ok ?a" using assms(1) by (simp add: store_ok_def)
  have st: "partition_ok ?st" "part_accounting ?st = ?a" using store_okD [OF assms(1,2)] by simp_all
  define prompt where "prompt = (case prefill_context (ks_ledger s) r of
    Some c \<Rightarrow> post_prefill_context_tokens c | None \<Rightarrow> ctx)"
  obtain l st' where run: "commit_resident s r p ctx remaining = Some (set_partition (s\<lparr>ks_ledger := l\<rparr>) p st')"
    "store_ok (set_partition (s\<lparr>ks_ledger := l\<rparr>) p st')" "forget_promise (ks_ledger s) r = Some l"
    "begin_decode ?st r ctx remaining prompt = Some st'"
    using commit_resident_ok [OF assms(1-3), of ctx remaining] unfolding prompt_def by blast
  let ?s' = "set_partition (s\<lparr>ks_ledger := l\<rparr>) p st'"
  let ?d = "fresh_decode ?a ctx remaining prompt"
  have b: "decodes st' = decodes ?st @ [(r, ?d)]" "part_accounting st' = ?a" "resident_units st' \<le> cached_peak st'"
    "length (decodes st') < 8 \<longrightarrow> peak_covers st'" "peak_attained st'"
    using begin_decode_ok [OF st(1) assms(3), of ctx remaining prompt] run(4) st(2) by auto
  obtain t where "cached_peak st' = future_residency ?a (map snd (decodes ?st) @ [?d]) t"
    using b(1,2,5) by (auto simp: peak_attained_def)
  also have "\<dots> \<le> cached_peak ?st + footprint ?a ctx remaining"
  proof -
    have "future_residency ?a (map snd (decodes ?st)) t \<le> cached_peak ?st"
      using assms(4) st(2) by (simp add: peak_covers_def)
    moreover have "t \<le> remaining \<Longrightarrow> held_while_running ?a (ctx + t) 1 \<le> footprint ?a ctx remaining"
      using footprint_covers [OF acc] .
    ultimately show ?thesis unfolding future_residency_snoc
      by (cases "t \<le> remaining") (auto simp: fresh_decode_def intro: add_mono)
  qed
  finally have peak: "cached_peak st' \<le> cached_peak ?st + footprint ?a ctx remaining" .
  have here: "ks_partitions ?s' ! p = st'" using assms(2) by (simp add: num_partitions_def)
  have "hard_peak ?s' p \<le> hard_peak (s\<lparr>ks_ledger := l\<rparr>) p + footprint ?a ctx remaining"
    using peak b(3) here by (simp add: hard_peak_def max_def)
  with run b here assms(2) show ?thesis
    by (intro exI [of _ ?s'] exI [of _ l]) (simp add: num_partitions_def)
qed

lemma release_stays:
  assumes "store_ok s" and "p < num_partitions s" and "peak_covers (ks_partitions s ! p)"
    and "length (decodes (ks_partitions s ! p)) < 8"
  shows "\<exists>s'. release s r p = Some s' \<and> store_ok s' \<and> num_partitions s' = num_partitions s
    \<and> ks_accounting s' = ks_accounting s \<and> hard_peak s' p \<le> hard_peak s p
    \<and> peak_covers (ks_partitions s' ! p)
    \<and> decodes (ks_partitions s' ! p) = filter (\<lambda>x. fst x \<noteq> r) (decodes (ks_partitions s ! p))
    \<and> (\<forall>q. q \<noteq> p \<longrightarrow> ks_partitions s' ! q = ks_partitions s ! q \<and> hard_peak s' q \<le> hard_peak s q)"
proof -
  let ?st = "ks_partitions s ! p"
  have st: "partition_ok ?st" using store_okD(3) [OF assms(1,2)] .
  obtain l st' where run: "release s r p = Some (set_partition (s\<lparr>ks_ledger := l\<rparr>) p st')"
    "store_ok (set_partition (s\<lparr>ks_ledger := l\<rparr>) p st')" "release_decode ?st r = Some st'"
    "\<forall>q. reserved_total l q \<le> reserved_total (ks_ledger s) q \<and> held_total l q \<le> held_total (ks_ledger s) q"
    using release_ok [OF assms(1,2), of r] by blast
  let ?s' = "set_partition (s\<lparr>ks_ledger := l\<rparr>) p st'"
  note f = release_decode_ok [OF st, of r]
  have ds: "decodes st' = filter (\<lambda>x. fst x \<noteq> r) (decodes ?st)" and res: "resident_units st' \<le> resident_units ?st"
    and acc: "part_accounting st' = part_accounting ?st"
    using f run(3) by auto
  have "length (decodes st') < 8"
    unfolding ds using assms(4) by (meson le_less_trans length_filter_le)
  have "peak_covers st' \<and> cached_peak st' \<le> cached_peak ?st"
  proof (cases "r \<in> fst ` set (decodes ?st)")
    case True
    with f run(3) \<open>length (decodes st') < 8\<close> have "peak_covers st'" "peak_attained st'" by auto
    moreover obtain t where "cached_peak st' = future_residency (part_accounting ?st) (map snd (decodes st')) t"
      using \<open>peak_attained st'\<close> acc by (auto simp: peak_attained_def)
    moreover have "future_residency (part_accounting ?st) (map snd (decodes st')) t
        \<le> future_residency (part_accounting ?st) (map snd (decodes ?st)) t"
      unfolding ds by (rule future_residency_filter)
    ultimately show ?thesis using assms(3) by (auto simp: peak_covers_def intro: order_trans)
  next
    case False
    then have "release_decode ?st r = Some ?st"
      using index_None_iff [OF st, of r] by (simp add: release_decode_def)
    with run(3) assms(3) show ?thesis by simp
  qed
  then have "hard_peak ?s' p \<le> hard_peak s p"
    using run(4) res assms(2) unfolding hard_peak_def
    by (intro add_mono max.mono) (simp_all add: num_partitions_def)
  moreover have "hard_peak ?s' q \<le> hard_peak s q" if "q \<noteq> p" for q
    using run(4) that unfolding hard_peak_def by (intro add_mono) simp_all
  ultimately show ?thesis using run(1,2) ds assms(2) \<open>peak_covers st' \<and> _\<close>
    by (intro exI [of _ ?s']) (simp add: num_partitions_def)
qed

lemma advance_stays:
  assumes "store_ok s" and "p < num_partitions s" and "peak_covers (ks_partitions s ! p)"
    and "\<forall>d \<in> set (map snd (decodes (ks_partitions s ! p))). 0 < remaining_decode d"
    and "hard_peak s p \<le> capacity_units (ks_accounting s)"
  shows "\<exists>s'. advance s (WholePartition p) 1 = Some s' \<and> store_ok s' \<and> num_partitions s' = num_partitions s
    \<and> ks_accounting s' = ks_accounting s \<and> hard_peak s' p \<le> hard_peak s p
    \<and> peak_covers (ks_partitions s' ! p)
    \<and> map fst (decodes (ks_partitions s' ! p)) = map fst (decodes (ks_partitions s ! p))
    \<and> (\<forall>q. q \<noteq> p \<longrightarrow> ks_partitions s' ! q = ks_partitions s ! q) \<and> ks_ledger s' = ks_ledger s"
proof -
  let ?st = "ks_partitions s ! p"
  obtain st' where run: "advance_step (WholePartition p) s = Some (set_partition s p st')"
    "store_ok (set_partition s p st')" "advance_decodes ?st = Some st'"
    using advance_step_ok [OF assms(1), of "WholePartition p"] assms(2) by (auto simp: scope_partition_def)
  let ?s' = "set_partition s p st'"
  have d: "partition_ok ?st" "steady_checkpoints (part_accounting ?st)"
    using store_okD(3,7) [OF assms(1,2)] by simp_all
  note f = advance_decodes_ok [OF d]
  have st': "cached_peak st' = cached_peak ?st" "map fst (decodes st') = map fst (decodes ?st)"
    using f run(3) by (auto simp: comp_def split_beta)
  have ok': "partition_ok st'" "part_accounting st' = part_accounting ?st" using f run(3) by auto
  have "map snd (decodes st') = map (step_decode (part_accounting ?st)) (map snd (decodes ?st))"
    using f run(3) by (auto simp: comp_def split_beta)
  then have cov: "peak_covers st'"
    using assms(3) future_residency_step [OF assms(4), of "part_accounting ?st"]
    by (simp add: peak_covers_def st'(1) ok'(2) del: map_map)
  have res: "resident_units st' \<le> cached_peak ?st" using covering_resident [OF ok'(1) cov] st'(1) by simp
  then have peak: "hard_peak ?s' p \<le> hard_peak s p"
    using assms(2) st'(1) by (simp add: hard_peak_def num_partitions_def max_def)
  have "resident_units st' \<le> capacity_units (ks_accounting s)"
    using res assms(5) by (simp add: hard_peak_def)
  moreover have "partition_capacity st' = capacity_units (ks_accounting s)"
    using ok'(2) store_okD(5) [OF assms(1,2)] by (simp add: partition_capacity_def)
  ultimately have "advance s (WholePartition p) 1 = Some ?s'"
    using run(1) assms(2) by (simp add: advance_def scope_partition_def num_partitions_def)
  then show ?thesis using run(2) peak cov st'(2) assms(2)
    by (intro exI [of _ ?s']) (simp add: num_partitions_def)
qed

subsection \<open>Runs with full footprints\<close>

text \<open>The workers that reserve whole footprints (\<open>LocalPrefillDecodeAdmission\<close> and
  \<open>PullDecodeWorker\<close>). Beside the store a run keeps what the iteration in flight was admitted with:
  \<open>drain_ready\<close> turns promises into prefills that the ledger no longer counts, and each of them is
  committed, or finishes with its first token, before anything else is reserved. A commit is covered
  by the units its request was admitted with. At most seven decodes share a partition, the number up
  to which the projected peak is exact.\<close>

type_synonym in_flight = "(request_id \<times> partition_id \<times> nat) list"

definition in_flight_units :: "in_flight \<Rightarrow> partition_id \<Rightarrow> nat" where
  "in_flight_units g p = sum_list (map (\<lambda>(_, q, u). if q = p then u else 0) g)"

definition promised_prefills :: "RequestLedger \<Rightarrow> in_flight" where
  "promised_prefills l = map (\<lambda>(r, p, u, _). (r, p, u)) (promised l)"

inductive full_step :: "KvStore \<times> in_flight \<Rightarrow> KvStore \<times> in_flight \<Rightarrow> bool" where
  fs_reserve: "p < num_partitions s \<Longrightarrow> reserved_count (ks_ledger s) p < u32_max \<Longrightarrow>
    fp_basis fp = FullFootprint \<Longrightarrow> fits s p fp = Some True \<Longrightarrow>
    reserve s r p fp now = Some s' \<Longrightarrow> full_step (s, []) (s', [])"
| fs_drain: "drain_ready s = Some s' \<Longrightarrow> full_step (s, []) (s', promised_prefills (ks_ledger s))"
| fs_commit_promise: "p < num_partitions s \<Longrightarrow> r \<notin> fst ` set (decodes (ks_partitions s ! p)) \<Longrightarrow>
    length (decodes (ks_partitions s ! p)) < 7 \<Longrightarrow>
    map_of (promised (ks_ledger s)) r = Some (p, u, seq) \<Longrightarrow> footprint (ks_accounting s) ctx remaining \<le> u \<Longrightarrow>
    commit_resident s r p ctx remaining = Some s' \<Longrightarrow> full_step (s, g) (s', g)"
| fs_commit_prefill: "p < num_partitions s \<Longrightarrow> r \<notin> fst ` set (decodes (ks_partitions s ! p)) \<Longrightarrow>
    length (decodes (ks_partitions s ! p)) < 7 \<Longrightarrow>
    (r, p, u) \<in> set g \<Longrightarrow> footprint (ks_accounting s) ctx remaining \<le> u \<Longrightarrow>
    commit_resident s r p ctx remaining = Some s' \<Longrightarrow> full_step (s, g) (s', remove1 (r, p, u) g)"
| fs_finish_prefill: "full_step (s, g) (s, remove1 x g)"
| fs_advance: "p < num_partitions s \<Longrightarrow>
    \<forall>d \<in> set (map snd (decodes (ks_partitions s ! p))). 0 < remaining_decode d \<Longrightarrow>
    advance s (WholePartition p) 1 = Some s' \<Longrightarrow> full_step (s, g) (s', g)"
| fs_release: "p < num_partitions s \<Longrightarrow> release s r p = Some s' \<Longrightarrow> full_step (s, g) (s', g)"

inductive full_run :: "KvStore \<Rightarrow> KvStore \<times> in_flight \<Rightarrow> bool" for s0 where
  fr_start: "full_run s0 (s0, [])"
| fr_step: "full_run s0 x \<Longrightarrow> full_step x y \<Longrightarrow> full_run s0 y"

definition run_safe :: "KvStore \<times> in_flight \<Rightarrow> bool" where
  "run_safe x \<longleftrightarrow> store_ok (fst x) \<and> (\<forall>p < num_partitions (fst x).
     peak_covers (ks_partitions (fst x) ! p) \<and> length (decodes (ks_partitions (fst x) ! p)) \<le> 7
     \<and> hard_peak (fst x) p + in_flight_units (snd x) p \<le> capacity_units (ks_accounting (fst x)))"

lemma in_flight_remove:
  "in_flight_units (remove1 x g) p \<le> in_flight_units g p"
  "(r, p, u) \<in> set g \<Longrightarrow> in_flight_units (remove1 (r, p, u) g) p + u = in_flight_units g p"
  by (induction g) (auto simp: in_flight_units_def)

lemma in_flight_promised:
  "in_flight_units (promised_prefills l) p + reserved_total (l\<lparr>promised := []\<rparr>) p = reserved_total l p"
proof -
  have "in_flight_units (promised_prefills l) p =
      alist_sum (\<lambda>_ v. if fst v = p then fst (snd v) else 0) (promised l)"
    unfolding in_flight_units_def promised_prefills_def alist_sum_def map_map
    by (intro arg_cong [of _ _ sum_list] map_cong refl) auto
  then show ?thesis by (simp add: reserved_total_def)
qed

lemma new_store_tiers:
  assumes "p < n"
  shows "ks_partitions (new_store n a b sampled logged) ! p = new_partition a"
    and "hard_peak (new_store n a b sampled logged) p = 0"
    and "reserved_count (ks_ledger (new_store n a b sampled logged)) p = 0"
    and "num_partitions (new_store n a b sampled logged) = n"
    and "ks_accounting (new_store n a b sampled logged) = a"
proof -
  show st: "ks_partitions (new_store n a b sampled logged) ! p = new_partition a"
    using assms by (simp add: new_store_def)
  then show "hard_peak (new_store n a b sampled logged) p = 0"
    by (simp add: hard_peak_def new_partition_def)
      (simp add: new_store_def new_ledger_def reserved_total_def held_total_def)
qed (simp_all add: new_store_def new_ledger_def reserved_count_def num_partitions_def)

lemma new_store_safe:
  assumes "accounting_ok a" and "steady_checkpoints a" and "capacity_units a < u64_max"
  shows "run_safe (new_store n a b sampled logged, [])"
proof -
  have "num_partitions (new_store n a b sampled logged) = n"
    by (simp add: num_partitions_def new_store_def)
  moreover have "peak_covers (new_partition a)" "decodes (new_partition a) = []"
    by (simp_all add: peak_covers_def future_residency_def new_partition_def)
  ultimately show ?thesis using new_store_ok [OF assms, of n b sampled logged]
    by (simp add: run_safe_def new_store_tiers(1,2) in_flight_units_def)
qed

text \<open>Draining moves the promised units out of the ledger, into what is in flight.\<close>

definition same_decodes :: "ResidentPartition \<Rightarrow> ResidentPartition \<Rightarrow> bool" where
  "same_decodes st st' \<longleftrightarrow> decodes st' = decodes st \<and> resident_units st' = resident_units st
     \<and> cached_peak st' = cached_peak st \<and> part_accounting st' = part_accounting st"

lemma drain_fold:
  "store_ok s \<Longrightarrow> \<forall>x \<in> set order. fst x < num_partitions s \<Longrightarrow>
    \<exists>t. fold_opt (\<lambda>(p, r) s. do { st \<leftarrow> partition_at s p; Some (set_partition s p (add_prefill_admit st r)) })
        order s = Some t
      \<and> ks_ledger t = ks_ledger s \<and> ks_accounting t = ks_accounting s
      \<and> (\<forall>p < num_partitions s. same_decodes (ks_partitions s ! p) (ks_partitions t ! p))"
proof (induction order arbitrary: s)
  case (Cons x order)
  obtain p r where x: "x = (p, r)" by (cases x)
  have p: "p < num_partitions s" using Cons.prems x by simp
  let ?s1 = "set_partition s p (add_prefill_admit (ks_partitions s ! p) r)"
  have "store_ok ?s1"
    using admits_keep [OF Cons.prems(1) p, of "\<lambda>st. add_prefill_admit st r"] by (simp add: add_prefill_admit_def)
  from Cons.IH [OF this] Cons.prems(2) obtain t where
    t: "fold_opt (\<lambda>(p, r) s. do { st \<leftarrow> partition_at s p; Some (set_partition s p (add_prefill_admit st r)) })
        order ?s1 = Some t" "ks_ledger t = ks_ledger s" "ks_accounting t = ks_accounting s"
    "\<forall>q < num_partitions s. same_decodes (ks_partitions ?s1 ! q) (ks_partitions t ! q)"
    by auto
  have "same_decodes (ks_partitions s ! q) (ks_partitions t ! q)" if "q < num_partitions s" for q
    using t(4) that p
    by (cases "q = p") (auto simp: same_decodes_def add_prefill_admit_def num_partitions_def)
  with t x p show ?case by (simp add: partition_at_ok)
qed (simp add: same_decodes_def)

lemma drain_ready_tiers:
  assumes "store_ok s"
  shows "\<exists>t. drain_ready s = Some t \<and> store_ok t \<and> num_partitions t = num_partitions s
      \<and> ks_accounting t = ks_accounting s
      \<and> (\<forall>p < num_partitions s. decodes (ks_partitions t ! p) = decodes (ks_partitions s ! p)
          \<and> peak_covers (ks_partitions t ! p) = peak_covers (ks_partitions s ! p)
          \<and> hard_peak t p + in_flight_units (promised_prefills (ks_ledger s)) p = hard_peak s p)"
proof -
  let ?n = "num_partitions s"
  let ?l = "with_reserved ?n (ks_ledger s\<lparr>promised := []\<rparr>)"
  obtain t where t: "drain_ready s = Some t" "store_ok t" "num_partitions t = ?n"
    using drain_ready_ok [OF assms] by blast
  have ok: "store_ok (s\<lparr>ks_ledger := ?l\<rparr>)"
    using store_ok_ledger [OF assms] ledger_ok_drain [OF store_ledger_ok [OF assms]] by simp
  have "\<forall>x \<in> set (promise_order (ks_ledger s)). fst x < ?n"
    using promise_order_bound [OF store_ledger_ok [OF assms]] .
  from drain_fold [OF ok, of "promise_order (ks_ledger s)"] this t(1)
  have f: "ks_ledger t = ?l" "ks_accounting t = ks_accounting s"
    "\<forall>p < ?n. same_decodes (ks_partitions s ! p) (ks_partitions t ! p)"
    by (auto simp: drain_ready_def drain_promised_eq [OF store_ledger_ok [OF assms]])
  have "decodes (ks_partitions t ! p) = decodes (ks_partitions s ! p)
      \<and> peak_covers (ks_partitions t ! p) = peak_covers (ks_partitions s ! p)
      \<and> hard_peak t p + in_flight_units (promised_prefills (ks_ledger s)) p = hard_peak s p" if "p < ?n" for p
  proof -
    have same: "same_decodes (ks_partitions s ! p) (ks_partitions t ! p)" using f(3) that by blast
    have "held_total ?l = held_total (ks_ledger s)" by (simp add: fun_eq_iff held_total_def)
    then show ?thesis using same f(1) in_flight_promised [of "ks_ledger s" p]
      by (simp add: same_decodes_def peak_covers_def hard_peak_def)
  qed
  with t f(2) show ?thesis by blast
qed

text \<open>A step that changes one partition keeps the run safe when it does so there and charges no
  other partition more.\<close>

lemma run_safe_at:
  assumes "run_safe (s, g)" and "p < num_partitions s"
  shows "peak_covers (ks_partitions s ! p)" and "length (decodes (ks_partitions s ! p)) \<le> 7"
    and "hard_peak s p + in_flight_units g p \<le> capacity_units (ks_accounting s)" and "store_ok s"
  using assms by (simp_all add: run_safe_def)

lemma run_safe_step:
  assumes "run_safe (s, g)" and "p < num_partitions s" and "store_ok s'"
    and "num_partitions s' = num_partitions s" and "ks_accounting s' = ks_accounting s"
    and "peak_covers (ks_partitions s' ! p)" and "length (decodes (ks_partitions s' ! p)) \<le> 7"
    and "hard_peak s' p + in_flight_units g' p \<le> capacity_units (ks_accounting s)"
    and "\<forall>q. q \<noteq> p \<longrightarrow> ks_partitions s' ! q = ks_partitions s ! q \<and> hard_peak s' q \<le> hard_peak s q"
    and "\<forall>q. in_flight_units g' q \<le> in_flight_units g q"
  shows "run_safe (s', g')"
proof -
  have "peak_covers (ks_partitions s' ! q) \<and> length (decodes (ks_partitions s' ! q)) \<le> 7
      \<and> hard_peak s' q + in_flight_units g' q \<le> capacity_units (ks_accounting s)"
    if "q < num_partitions s" for q
  proof (cases "q = p")
    case False
    then have "hard_peak s' q + in_flight_units g' q \<le> hard_peak s q + in_flight_units g q"
      using assms(9,10) by (simp add: add_mono)
    with False run_safe_at(1-3) [OF assms(1) that] assms(9) show ?thesis by (simp add: order_trans)
  qed (use assms(6-8) in simp)
  then show ?thesis using assms(3-5) by (simp add: run_safe_def)
qed

lemma fits_iff:
  assumes "store_ok s" and "p < num_partitions s"
  shows "fits s p fp = Some (hard_peak s p + fp_reserved_units fp \<le> capacity_units (ks_accounting s))"
  by (auto simp: fits_def store_okD [OF assms] capacity_of_partition [OF assms] hard_peak_def Let_def max_def)

lemma forgotten_peak:
  assumes "ledger_ok n (ks_ledger s)" and "forget_promise (ks_ledger s) r = Some l"
  shows "hard_peak (s\<lparr>ks_ledger := l\<rparr>) q \<le> hard_peak s q"
proof -
  obtain l' where "forget_promise (ks_ledger s) r = Some l'"
    "\<forall>q. reserved_total l' q \<le> reserved_total (ks_ledger s) q" "held_total l' = held_total (ks_ledger s)"
    using ledger_forgetting [OF assms(1), of r] by blast
  then show ?thesis using assms(2) by (simp add: hard_peak_def)
qed

lemma commit_safe:
  assumes "run_safe (s, g)" and "p < num_partitions s" and "r \<notin> fst ` set (decodes (ks_partitions s ! p))"
    and "length (decodes (ks_partitions s ! p)) < 7" and "commit_resident s r p ctx remaining = Some s'"
    and "\<And>l. forget_promise (ks_ledger s) r = Some l \<Longrightarrow> hard_peak (s\<lparr>ks_ledger := l\<rparr>) p
      + footprint (ks_accounting s) ctx remaining + in_flight_units g' p \<le> hard_peak s p + in_flight_units g p"
    and "\<forall>q. in_flight_units g' q \<le> in_flight_units g q"
  shows "run_safe (s', g') \<and> num_partitions s' = num_partitions s \<and> ks_accounting s' = ks_accounting s"
proof -
  note at = run_safe_at [OF assms(1,2)]
  from commit_stays [OF at(4) assms(2,3) at(1), of ctx remaining] assms(5) obtain l where
    t: "store_ok s'" "num_partitions s' = num_partitions s" "ks_accounting s' = ks_accounting s"
    "forget_promise (ks_ledger s) r = Some l" "ks_ledger s' = l"
    "hard_peak s' p \<le> hard_peak (s\<lparr>ks_ledger := l\<rparr>) p + footprint (ks_accounting s) ctx remaining"
    "\<forall>q. q \<noteq> p \<longrightarrow> ks_partitions s' ! q = ks_partitions s ! q"
    "length (decodes (ks_partitions s' ! p)) = length (decodes (ks_partitions s ! p)) + 1"
    "peak_covers (ks_partitions s' ! p)" using assms(4) by auto
  have "hard_peak s' q \<le> hard_peak s q" if "q \<noteq> p" for q
    using forgotten_peak [OF store_ledger_ok [OF at(4)] t(4), of q] t(5,7) that by (simp add: hard_peak_def)
  moreover have "hard_peak s' p + in_flight_units g' p \<le> capacity_units (ks_accounting s)"
    using t(6) assms(6) [OF t(4)] at(3) by linarith
  ultimately have "run_safe (s', g')" using t assms(4,7)
    by (intro run_safe_step [OF assms(1,2)]) simp_all
  with t show ?thesis by simp
qed

lemma full_step_safe:
  assumes "full_step x y" and "run_safe x"
  shows "run_safe y \<and> num_partitions (fst y) = num_partitions (fst x) \<and> ks_accounting (fst y) = ks_accounting (fst x)"
  using assms(1)
proof cases
  case (fs_reserve p s fp r now s')
  note safe = assms(2) [unfolded fs_reserve(1)] and at = run_safe_at [OF assms(2) [unfolded fs_reserve(1)] fs_reserve(3)]
  obtain t where t: "reserve s r p fp now = Some t" "store_ok t" "within_capacity t p"
    "num_partitions t = num_partitions s" "ks_accounting t = ks_accounting s" "ks_partitions t = ks_partitions s"
    "\<forall>q. q \<noteq> p \<longrightarrow> hard_peak t q \<le> hard_peak s q"
    using reserve_stays [OF at(4) fs_reserve(3-6), of r now] by blast
  have "run_safe (t, [])"
    using t at by (intro run_safe_step [OF safe fs_reserve(3)])
      (simp_all add: within_capacity_def in_flight_units_def)
  with t fs_reserve(1,2,7) show ?thesis by simp
next
  case (fs_drain s s')
  have ok: "store_ok s" using assms(2) fs_drain(1) by (simp add: run_safe_def)
  note l = store_ledger_ok [OF ok]
  have "\<exists>t. drain_ready s = Some t \<and> store_ok t \<and> num_partitions t = num_partitions s
      \<and> ks_accounting t = ks_accounting s
      \<and> (\<forall>p < num_partitions s. decodes (ks_partitions t ! p) = decodes (ks_partitions s ! p)
          \<and> peak_covers (ks_partitions t ! p) = peak_covers (ks_partitions s ! p)
          \<and> hard_peak t p + in_flight_units (promised_prefills (ks_ledger s)) p = hard_peak s p)"
    using drain_ready_tiers [OF ok] .
  with fs_drain assms(2) show ?thesis by (auto simp: run_safe_def in_flight_units_def)
next
  case (fs_commit_promise p s r u seq ctx remaining s' g)
  note safe = assms(2) [unfolded fs_commit_promise(1)]
  have "hard_peak (s\<lparr>ks_ledger := l\<rparr>) p + footprint (ks_accounting s) ctx remaining + in_flight_units g p
      \<le> hard_peak s p + in_flight_units g p" if "forget_promise (ks_ledger s) r = Some l" for l
    using forget_gives_back(1,2) [OF store_ledger_ok [OF run_safe_at(4) [OF safe fs_commit_promise(3)]]
        fs_commit_promise(6) that] fs_commit_promise(7) by (simp add: hard_peak_def)
  from commit_safe [OF safe fs_commit_promise(3,4,5,8) this] fs_commit_promise(1,2) show ?thesis by simp
next
  case (fs_commit_prefill p s r u g ctx remaining s')
  note safe = assms(2) [unfolded fs_commit_prefill(1)]
  have "hard_peak (s\<lparr>ks_ledger := l\<rparr>) p + footprint (ks_accounting s) ctx remaining
      + in_flight_units (remove1 (r, p, u) g) p \<le> hard_peak s p + in_flight_units g p"
    if "forget_promise (ks_ledger s) r = Some l" for l
    using forgotten_peak [OF store_ledger_ok [OF run_safe_at(4) [OF safe fs_commit_prefill(3)]] that, of p]
      in_flight_remove(2) [OF fs_commit_prefill(6)] fs_commit_prefill(7) by linarith
  from commit_safe [OF safe fs_commit_prefill(3,4,5,8) this] fs_commit_prefill(1,2) in_flight_remove(1)
  show ?thesis by simp
next
  case (fs_finish_prefill s g x)
  have le: "hard_peak s p + in_flight_units (remove1 x g) p \<le> hard_peak s p + in_flight_units g p" for p
    using in_flight_remove(1) by simp
  with assms(2) fs_finish_prefill show ?thesis by (auto simp: run_safe_def intro: order_trans [OF le])
next
  case (fs_advance p s s' g)
  note safe = assms(2) [unfolded fs_advance(1)] and at = run_safe_at [OF assms(2) [unfolded fs_advance(1)] fs_advance(3)]
  have "hard_peak s p \<le> capacity_units (ks_accounting s)" using at(3) by simp
  from advance_stays [OF at(4) fs_advance(3) at(1) fs_advance(4) this] fs_advance(5)
  have t: "store_ok s'" "num_partitions s' = num_partitions s" "ks_accounting s' = ks_accounting s"
    "hard_peak s' p \<le> hard_peak s p" "peak_covers (ks_partitions s' ! p)"
    "map fst (decodes (ks_partitions s' ! p)) = map fst (decodes (ks_partitions s ! p))"
    "\<forall>q. q \<noteq> p \<longrightarrow> ks_partitions s' ! q = ks_partitions s ! q" "ks_ledger s' = ks_ledger s" by auto
  have "length (decodes (ks_partitions s' ! p)) \<le> 7"
    using arg_cong [OF t(6), of length] at(2) by simp
  then have "run_safe (s', g)" using t at(3)
    by (intro run_safe_step [OF safe fs_advance(3)]) (auto simp: hard_peak_def)
  with t fs_advance(1,2) show ?thesis by simp
next
  case (fs_release p s r s' g)
  note safe = assms(2) [unfolded fs_release(1)] and at = run_safe_at [OF assms(2) [unfolded fs_release(1)] fs_release(3)]
  have "length (decodes (ks_partitions s ! p)) < 8" using at(2) by simp
  from release_stays [OF at(4) fs_release(3) at(1) this, of r] fs_release(4)
  have t: "store_ok s'" "num_partitions s' = num_partitions s" "ks_accounting s' = ks_accounting s"
    "hard_peak s' p \<le> hard_peak s p" "peak_covers (ks_partitions s' ! p)"
    "decodes (ks_partitions s' ! p) = filter (\<lambda>x. fst x \<noteq> r) (decodes (ks_partitions s ! p))"
    "\<forall>q. q \<noteq> p \<longrightarrow> ks_partitions s' ! q = ks_partitions s ! q \<and> hard_peak s' q \<le> hard_peak s q" by auto
  have "length (decodes (ks_partitions s' ! p)) \<le> 7"
    unfolding t(6) using at(2) by (meson le_trans length_filter_le)
  then have "run_safe (s', g)" using t at(3)
    by (intro run_safe_step [OF safe fs_release(3)]) simp_all
  with t fs_release(1,2) show ?thesis by simp
qed

lemma full_run_safe: "full_run s0 x \<Longrightarrow> run_safe (s0, []) \<Longrightarrow>
    run_safe x \<and> num_partitions (fst x) = num_partitions s0 \<and> ks_accounting (fst x) = ks_accounting s0"
  by (induction rule: full_run.induct) (auto dest: full_step_safe)

text \<open>C20: Along every run, from an empty store, of a worker that reserves whole footprints and commits a
  request only while its partition has fewer than seven decodes (where the projected peak is exact; beyond that the code
  calls it a heuristic), under an accounting with steady checkpoints (none moves back as a context grows), no
  partition is ever overcommitted: what is resident, promised and held, together with the prefills in
  flight, stays within the capacity at every state, and so a step of a partition whose decodes have
  tokens left always returns, its capacity assertion holding.\<close>

theorem full_run_within_capacity:
  assumes "accounting_ok a" and "steady_checkpoints a" and "capacity_units a < u64_max"
    and "full_run (new_store n a b sampled logged) (s, g)" and "p < n"
  shows "hard_tier s p + in_flight_units g p \<le> capacity_units a
    \<and> ((\<forall>d \<in> set (map snd (decodes (ks_partitions s ! p))). 0 < remaining_decode d) \<longrightarrow>
        (\<exists>s'. advance s (WholePartition p) 1 = Some s' \<and> hard_tier s' p \<le> capacity_units a))"
proof -
  have safe: "run_safe (s, g)" "num_partitions s = n" "ks_accounting s = a"
    using full_run_safe [OF assms(4) new_store_safe [OF assms(1-3)]]
    by (simp_all add: num_partitions_def new_store_def)
  note at = run_safe_at [OF safe(1), of p, unfolded safe(2,3), OF assms(5)]
  show ?thesis
  proof (intro conjI impI)
    show "hard_tier s p + in_flight_units g p \<le> capacity_units a"
      using at(3) hard_tier_le_peak [of s p] by linarith
    assume live: "\<forall>d \<in> set (map snd (decodes (ks_partitions s ! p))). 0 < remaining_decode d"
    have peak: "hard_peak s p \<le> capacity_units (ks_accounting s)" using at(3) safe(3) by simp
    have "p < num_partitions s" using assms(5) safe(2) by simp
    from advance_stays [OF at(4) this at(1) live peak] obtain s' where
      "advance s (WholePartition p) 1 = Some s'" "hard_peak s' p \<le> hard_peak s p" by blast
    with peak safe(3) hard_tier_le_peak [of s' p]
    show "\<exists>s'. advance s (WholePartition p) 1 = Some s' \<and> hard_tier s' p \<le> capacity_units a" by force
  qed
qed

subsection \<open>No operation fails\<close>

text \<open>C24: on a consistent store no operation panics when it is called the way the workers call it:
  a promise on a partition in range, the drain, the commit of a request that is not yet resident, the
  release of any request (also through cancellation), the hold and completion of a hand-off, the
  retention of a prefix and the sample all return.\<close>

theorem store_operations_return:
  assumes "store_ok s" and "p < num_partitions s" and "reserved_count (ks_ledger s) p < u32_max"
    and "q \<notin> fst ` set (decodes (ks_partitions s ! p))"
  shows "(\<exists>s'. reserve s r p fp now = Some s' \<and> store_ok s') \<and> (\<exists>s'. drain_ready s = Some s' \<and> store_ok s')
    \<and> (\<exists>s'. commit_resident s q p kv remaining = Some s' \<and> store_ok s')
    \<and> (\<exists>s'. release s r p = Some s' \<and> store_ok s')
    \<and> (\<exists>s'. release_retaining_prefix s r p now = Some s' \<and> store_ok s')
    \<and> (\<exists>s'. release_external s r = Some (s', placement_of (ks_ledger s) r) \<and> store_ok s')
    \<and> (\<exists>s'. store_hold s p r kv = Some s' \<and> store_ok s')
    \<and> (\<exists>s'. complete_handoff s r now = Some s' \<and> store_ok s')
    \<and> (\<exists>s'. sample_submit s p now = Some s' \<and> store_ok s')"
proof (intro conjI)
  show "\<exists>s'. reserve s r p fp now = Some s' \<and> store_ok s'" using reserve_ok [OF assms(1-3)] by blast
  show "\<exists>s'. drain_ready s = Some s' \<and> store_ok s'" using drain_ready_ok [OF assms(1)] by blast
  show "\<exists>s'. commit_resident s q p kv remaining = Some s' \<and> store_ok s'"
    using commit_resident_ok [OF assms(1,2,4)] by blast
  show "\<exists>s'. release s r p = Some s' \<and> store_ok s'" using release_ok [OF assms(1,2)] by blast
  show "\<exists>s'. release_retaining_prefix s r p now = Some s' \<and> store_ok s'"
    using release_retaining_ok [OF assms(1,2)] by blast
  show "\<exists>s'. release_external s r = Some (s', placement_of (ks_ledger s) r) \<and> store_ok s'"
    using release_external_ok [OF assms(1)] by blast
  show "\<exists>s'. store_hold s p r kv = Some s' \<and> store_ok s'" using store_hold_ok [OF assms(1,2)] by blast
  show "\<exists>s'. complete_handoff s r now = Some s' \<and> store_ok s'" using complete_handoff_ok [OF assms(1)] by blast
  show "\<exists>s'. sample_submit s p now = Some s' \<and> store_ok s'"
    using sample_submit_ok [OF assms(1,2), of now] assms(1) by auto
qed

subsection \<open>Release and prefix reuse\<close>

text \<open>a released request leaves nothing behind: no decode on the partition, no promise, chunked
  reservation, held KV, placement or prefill context, and neither tier of the partition nor what its
  ledger reserves or holds grows; with its prefix retained, the retained tier stays within what the
  hard tier and the live checkpoints leave.\<close>

theorem release_forgets:
  assumes "store_ok s" and "p < num_partitions s"
  shows "\<exists>s1. release s r p = Some s1
    \<and> decodes (ks_partitions s1 ! p) = filter (\<lambda>x. fst x \<noteq> r) (decodes (ks_partitions s ! p))
    \<and> r \<notin> dom (map_of (promised (ks_ledger s1))) \<union> dom (map_of (chunked_prefill (ks_ledger s1)))
        \<union> dom (map_of (held (ks_ledger s1))) \<union> dom (map_of (placements (ks_ledger s1)))
        \<union> dom (map_of (prefill_contexts (ks_ledger s1)))
    \<and> hard_tier s1 p \<le> hard_tier s p
    \<and> (\<exists>s2. release_retaining_prefix s r p now = Some s2 \<and> ks_ledger s2 = ks_ledger s1
        \<and> ks_partitions s2 = ks_partitions s1
        \<and> (hard_peak s1 p \<le> capacity_units (ks_accounting s) \<longrightarrow> s2 = s1 \<or> within_capacity s2 p))"
proof -
  obtain l st' where run: "release s r p = Some (set_partition (s\<lparr>ks_ledger := l\<rparr>) p st')"
    "release_decode (ks_partitions s ! p) r = Some st'"
    "\<forall>q. reserved_total l q \<le> reserved_total (ks_ledger s) q \<and> held_total l q \<le> held_total (ks_ledger s) q"
    "r \<notin> dom (map_of (promised l)) \<union> dom (map_of (chunked_prefill l)) \<union> dom (map_of (held l))
      \<union> dom (map_of (placements l)) \<union> dom (map_of (prefill_contexts l))"
    using release_ok [OF assms, of r] by auto
  let ?s1 = "set_partition (s\<lparr>ks_ledger := l\<rparr>) p st'"
  have here: "ks_partitions ?s1 ! p = st'" using assms(2) by (simp add: num_partitions_def)
  have st': "decodes st' = filter (\<lambda>x. fst x \<noteq> r) (decodes (ks_partitions s ! p))"
    "resident_units st' \<le> resident_units (ks_partitions s ! p)"
    using release_decode_ok [OF store_okD(3) [OF assms], of r] run(2) by auto
  then have "hard_tier ?s1 p \<le> hard_tier s p"
    using here run(3) unfolding hard_tier_def by (intro add_mono) simp_all
  moreover obtain s2 where s2: "release_retaining_prefix s r p now = Some s2" "ks_ledger s2 = ks_ledger ?s1"
    "ks_partitions s2 = ks_partitions ?s1" "store_ok s2"
    "s2 = ?s1 \<or> (\<exists>c' j. s2 = (set_cache ?s1 p c')\<lparr>ks_journal := j\<rparr>
      \<and> used_units c' \<le> soft_room ?s1 p - live_soft ?s1 p)"
    using release_retaining_ok [OF assms, of r now] run(1) by auto
  moreover have "s2 = ?s1 \<or> within_capacity s2 p" if fit: "hard_peak ?s1 p \<le> capacity_units (ks_accounting s)"
    using s2(5)
  proof (elim disjE exE conjE)
    fix c' j assume c': "s2 = (set_cache ?s1 p c')\<lparr>ks_journal := j\<rparr>" "used_units c' \<le> soft_room ?s1 p - live_soft ?s1 p"
    have "ks_caches s2 ! p = c'" using c'(1) assms by (simp add: caches_length)
    then show ?thesis using c' fit limit_within_capacity [of s2 p] by simp
  qed simp
  ultimately show ?thesis using run(1,4) st'(1) here by (intro exI [of _ ?s1]) auto
qed

text \<open>what an admission previews is what it takes: reserving the context that was previewed on
  the same store returns, its assertion that the hit taken and the hit previewed differ by at most the
  one token left to compute holding, and the retained prefix has left the cache, so no second request
  can reuse it.\<close>

theorem preview_then_reserve:
  assumes "store_ok s" and "p < num_partitions s" and "reserved_count (ks_ledger s) p < u32_max"
    and "preview_prefill_context s p fresh si = Some ctx"
  shows "\<exists>s'. reserve_prefill_context s r p ctx fp now = Some s' \<and> store_ok s'
    \<and> (\<exists>c. resolved_prefill_context s' r = Some c
        \<and> post_prefill_context_tokens c = post_prefill_context_tokens ctx)
    \<and> used_units (ks_caches s' ! p) \<le> used_units (ks_caches s ! p)"
proof -
  from reserve_prefill_context_ok [OF assms(1-3) preview_hit [OF assms(1,2,4)], of r fp now]
  obtain s1 c where s1: "reserve_prefill_context s r p ctx fp now =
      reserve (s1\<lparr>ks_ledger := set_prefill_context (ks_ledger s) r c\<rparr>) r p fp now"
    "store_ok (s1\<lparr>ks_ledger := set_prefill_context (ks_ledger s) r c\<rparr>)"
    "ks_partitions s1 = ks_partitions s" "used_units (ks_caches s1 ! p) \<le> used_units (ks_caches s ! p)"
    "post_prefill_context_tokens c = post_prefill_context_tokens ctx" by blast
  let ?s1 = "s1\<lparr>ks_ledger := set_prefill_context (ks_ledger s) r c\<rparr>"
  have p1: "p < num_partitions ?s1" using assms(2) s1(3) by (simp add: num_partitions_def)
  have len: "length (ks_caches s1) = num_partitions s1" using caches_length [OF s1(2)] by simp
  have "reserved_count (ks_ledger ?s1) p < u32_max"
    using assms(3) by (simp add: reserved_count_def set_prefill_context_def)
  from reserve_ok [OF s1(2) p1 this, of r fp now]
  obtain s' where s': "reserve ?s1 r p fp now = Some s'" "store_ok s'"
    "prefill_contexts (ks_ledger s') = prefill_contexts (ks_ledger ?s1)"
    "used_units (ks_caches s' ! p) \<le> used_units (ks_caches ?s1 ! p)"
    using p1 len by (auto simp: promised_ledger_def)
  have "resolved_prefill_context s' r = Some c"
    using s'(3) by (simp add: resolved_prefill_context_def prefill_context_def set_prefill_context_def)
  with s1(1,4,5) s' show ?thesis by (auto intro: order_trans)
qed

lemma best_resident_first:
  "(best_resident sid n i cs (b, m) = b \<and> (\<forall>c \<in> set cs. peek c sid n \<le> m))
   \<or> (\<exists>k < length cs. best_resident sid n i cs (b, m) = Some (i + k) \<and> m < peek (cs ! k) sid n
       \<and> (\<forall>j < length cs. peek (cs ! j) sid n \<le> peek (cs ! k) sid n)
       \<and> (\<forall>j < k. peek (cs ! j) sid n < peek (cs ! k) sid n))"
proof (induction cs arbitrary: i b m)
  case (Cons c cs)
  show ?case
  proof (cases "m < peek c sid n")
    case True
    from Cons.IH [of "Suc i" "Some i" "peek c sid n"] show ?thesis
    proof (elim disjE exE conjE)
      assume "best_resident sid n (Suc i) cs (Some i, peek c sid n) = Some i"
        and all: "\<forall>c' \<in> set cs. peek c' sid n \<le> peek c sid n"
      then have "best_resident sid n i (c # cs) (b, m) = Some (i + 0)" using True by simp
      moreover have "\<forall>j < length (c # cs). peek ((c # cs) ! j) sid n \<le> peek c sid n"
        using all by (auto simp: less_Suc_eq_0_disj)
      ultimately show ?thesis using True by (intro disjI2 exI [of _ 0]) simp
    next
      fix k assume "k < length cs" "best_resident sid n (Suc i) cs (Some i, peek c sid n) = Some (Suc i + k)"
        "peek c sid n < peek (cs ! k) sid n" "\<forall>j < length cs. peek (cs ! j) sid n \<le> peek (cs ! k) sid n"
        "\<forall>j < k. peek (cs ! j) sid n < peek (cs ! k) sid n"
      with True show ?thesis by (intro disjI2 exI [of _ "Suc k"]) (auto simp: less_Suc_eq_0_disj)
    qed
  next
    case False
    from Cons.IH [of "Suc i" b m] show ?thesis
    proof (elim disjE exE conjE)
      fix k assume "k < length cs" "best_resident sid n (Suc i) cs (b, m) = Some (Suc i + k)"
        "m < peek (cs ! k) sid n" "\<forall>j < length cs. peek (cs ! j) sid n \<le> peek (cs ! k) sid n"
        "\<forall>j < k. peek (cs ! j) sid n < peek (cs ! k) sid n"
      with False show ?thesis by (intro disjI2 exI [of _ "Suc k"]) (auto simp: less_Suc_eq_0_disj)
    qed (use False in simp)
  qed
qed simp

text \<open>a session goes where it has most to reuse: the partition chosen holds a non-empty resident
  prefix of it, none holds a longer one, and those before it hold shorter ones; no partition is chosen
  exactly when none holds any.\<close>

theorem retained_prefix_partition_best:
  shows "case retained_prefix_partition s (Session sid t n) of
      None \<Rightarrow> \<forall>c \<in> set (ks_caches s). peek c sid n = 0
    | Some p \<Rightarrow> p < length (ks_caches s) \<and> 0 < peek (ks_caches s ! p) sid n
        \<and> (\<forall>q < length (ks_caches s). peek (ks_caches s ! q) sid n \<le> peek (ks_caches s ! p) sid n)
        \<and> (\<forall>q < p. peek (ks_caches s ! q) sid n < peek (ks_caches s ! p) sid n)"
  using best_resident_first [of sid n 0 "ks_caches s" None 0]
  by (auto simp: retained_prefix_partition_def)


subsection \<open>An example store\<close>

definition sample_store :: KvStore where
  "sample_store = new_store 1 (token_accounting 100) disabled_budget False False"

lemma sample_store:
  "store_ok sample_store" "num_partitions sample_store = 1" "ks_accounting sample_store = token_accounting 100"
  "ks_partitions sample_store ! 0 = new_partition (token_accounting 100)"
  "hard_peak sample_store 0 = 0" "reserved_count (ks_ledger sample_store) 0 < u32_max"
  "capacity_units (token_accounting 100) = 100"
proof -
  have cap: "capacity_units (token_accounting 100) = 100" by (simp add: token_accounting_fields)
  then show "capacity_units (token_accounting 100) = 100" .
  show "store_ok sample_store"
    unfolding sample_store_def using cap
    by (intro new_store_ok token_accounting_ok token_steady) (simp add: u64_max_def)
  show "num_partitions sample_store = 1" "ks_accounting sample_store = token_accounting 100"
    "ks_partitions sample_store ! 0 = new_partition (token_accounting 100)"
    "hard_peak sample_store 0 = 0" "reserved_count (ks_ledger sample_store) 0 < u32_max"
    unfolding sample_store_def using new_store_tiers [of 0 1 "token_accounting 100" disabled_budget False False]
    by (simp_all add: u32_max_def)
qed

lemma sample_cap: "capacity_units (token_accounting 100) < u64_max"
  by (simp add: sample_store(7) u64_max_def)

definition sample_footprint :: KvFootprint where
  "sample_footprint = \<lparr>fp_reserved_units = 60, fp_basis = FullFootprint\<rparr>"

lemma sample_fits: "fits sample_store 0 sample_footprint = Some True"
  using fits_iff [OF sample_store(1), of 0 sample_footprint] sample_store
  by (simp add: sample_footprint_def)

theorem reserve_within_capacity_witness:
  "\<exists>s'. reserve sample_store 5 0 sample_footprint 0 = Some s' \<and> within_capacity s' 0"
  using reserve_within_capacity [OF sample_store(1) _ sample_store(6) _ sample_fits, of 5 0] sample_store(2)
  by (auto simp: sample_footprint_def)

lemma sample_reserved:
  "\<exists>s'. reserve sample_store 5 0 sample_footprint 0 = Some s' \<and> map_of (promised (ks_ledger s')) 5 \<noteq> None"
  using reserve_stays [OF sample_store(1) _ sample_store(6) _ sample_fits, of 5 0] sample_store(2)
  by (auto simp: sample_footprint_def promised_ledger_def)

theorem store_reachable_ok_witness:
  "\<exists>s. store_reachable 1 (token_accounting 100) disabled_budget s \<and> map_of (promised (ks_ledger s)) 5 \<noteq> None
     \<and> store_ok s"
proof -
  obtain s where s: "reserve sample_store 5 0 sample_footprint 0 = Some s" "map_of (promised (ks_ledger s)) 5 \<noteq> None"
    using sample_reserved by blast
  have "store_step sample_store s"
    using st_reserve [OF _ sample_store(6) s(1)] sample_store(2) by simp
  then have r: "store_reachable 1 (token_accounting 100) disabled_budget s"
    using sr_step [OF sr_new] unfolding sample_store_def by blast
  from store_reachable_ok [OF token_accounting_ok token_steady sample_cap r] r s(2) show ?thesis by blast
qed

theorem full_run_within_capacity_witness:
  "\<exists>s g. full_run sample_store (s, g) \<and> map_of (promised (ks_ledger s)) 5 \<noteq> None
     \<and> hard_tier s 0 + in_flight_units g 0 \<le> 100"
proof -
  obtain s where s: "reserve sample_store 5 0 sample_footprint 0 = Some s" "map_of (promised (ks_ledger s)) 5 \<noteq> None"
    using sample_reserved by blast
  have "full_step (sample_store, []) (s, [])"
    using sample_store(2) by (intro fs_reserve [OF _ sample_store(6) _ sample_fits s(1)])
      (simp_all add: sample_footprint_def)
  then have run: "full_run sample_store (s, [])" using fr_step [OF fr_start] by blast
  from full_run_within_capacity [OF token_accounting_ok token_steady sample_cap run [unfolded sample_store_def], of 0]
  have "hard_tier s 0 + in_flight_units [] 0 \<le> 100" by (simp add: sample_store(7))
  with run s(2) show ?thesis by blast
qed

theorem store_operations_return_witness:
  "\<exists>s'. commit_resident sample_store 5 0 10 3 = Some s' \<and> store_ok s'"
proof -
  have "5 \<notin> fst ` set (decodes (ks_partitions sample_store ! 0))"
    by (simp add: sample_store(4) new_partition_def)
  from store_operations_return [OF sample_store(1) _ sample_store(6) this, of 5 sample_footprint 0 10 3]
  show ?thesis using sample_store(2) by simp
qed

theorem release_forgets_witness:
  "\<exists>s'. release sample_store 5 0 = Some s' \<and> hard_tier s' 0 \<le> hard_tier sample_store 0"
  using release_forgets [OF sample_store(1), of 0 5 0] sample_store(2) by auto

theorem preview_then_reserve_witness:
  "\<exists>ctx s'. preview_prefill_context sample_store 0 10 (Session 7 0 32) = Some ctx
     \<and> reserve_prefill_context sample_store 5 0 ctx sample_footprint 0 = Some s'"
proof -
  have "cache_at sample_store 0 = Some (new_prefix_cache (token_accounting 100) disabled_budget)"
    by (simp add: sample_store_def new_store_def)
  moreover have "peek (new_prefix_cache (token_accounting 100) disabled_budget) 7 32 = 0"
    by (simp add: peek_def new_prefix_cache_def)
  ultimately obtain ctx where ctx: "preview_prefill_context sample_store 0 10 (Session 7 0 32) = Some ctx"
    by (simp add: preview_prefill_context_def resolved_prefill_def declared_prefix_tokens_def
        checked_add_u32_def u32_max_def session_id_def Let_def)
  from preview_then_reserve [OF sample_store(1) _ sample_store(6) ctx, of 5 sample_footprint 0] sample_store(2) ctx
  show ?thesis by auto
qed


theorem retained_prefix_partition_best_witness:
  "\<exists>s p. retained_prefix_partition s (Session 7 0 100) = Some p \<and> 0 < peek (ks_caches s ! p) 7 100"
proof -
  let ?s = "sample_store\<lparr>ks_caches := [new_prefix_cache (token_accounting 100) disabled_budget, sample_cache]\<rparr>"
  have "0 < peek sample_cache 7 100" by (simp add: sample_peek)
  moreover have "peek (new_prefix_cache (token_accounting 100) disabled_budget) 7 100 = 0"
    by (simp add: peek_def new_prefix_cache_def)
  ultimately have "retained_prefix_partition ?s (Session 7 0 100) = Some 1"
    by (simp add: retained_prefix_partition_def)
  moreover from this retained_prefix_partition_best [where s = ?s and sid = 7 and t = 0 and n = 100]
  have "0 < peek (ks_caches ?s ! 1) 7 100" by simp
  ultimately show ?thesis by blast
qed

end
