(* ===== verification/Requests.thy ===== *)
theory Requests
  imports Prefill_Context
begin

section \<open>Requests (\<open>common/request.rs\<close>, \<open>common/request_stage.rs\<close>, \<open>request_family/text_generation.rs\<close>)\<close>

text \<open>
  A released request with its progress, lifecycle and telemetry, and the store that all workers share.
  The decoding strategy of a request is defined by the trace crate, which is not part of the
  repository: it is the type variable \<open>'d\<close>. The store's \<open>records\<close> is a vector indexed by request id,
  with \<open>None\<close> for a reserved id that has not arrived; \<open>store[id]\<close> panics on those, so a read or an
  update of a missing request is \<open>None\<close> here.
\<close>

subsection \<open>Stages\<close>

record StageEvent =
  se_time :: nat
  se_code :: nat
  se_pool :: nat
  se_worker :: nat

definition unset_stage :: "nat \<Rightarrow> StageEvent" where
  "unset_stage t = \<lparr>se_time = t, se_code = u16_max, se_pool = u16_max, se_worker = u16_max\<rparr>"

datatype UnifiedStage = StagePending | StagePrefill | StageDecode | StageDone

fun unified_code :: "UnifiedStage \<Rightarrow> nat" where
  "unified_code StagePending = 0"
| "unified_code StagePrefill = 1"
| "unified_code StageDecode = 2"
| "unified_code StageDone = 3"

subsection \<open>One request\<close>

record SloContract =
  ttft_slo :: "nat option"
  tpot_slo :: "nat option"
  e2e_slo :: "nat option"

record RequestCore =
  rc_id :: nat
  rc_arrival_time :: nat
  rc_slo :: SloContract
  rc_priority :: int

record 'd TextGenerationDefinition =
  prompt_tokens :: nat
  target_output_tokens :: nat
  td_session :: SessionInput
  td_decoding :: 'd

record 'd Request =
  rq_core :: RequestCore
  rq_definition :: "'d TextGenerationDefinition"

record TextGenerationProgress =
  prefill_tokens_processed :: nat
  output_tokens_emitted :: nat

record RequestLifecycle =
  lc_admitted :: bool
  lc_completed :: bool
  current_stage :: StageEvent
  stage_log :: "StageEvent list"

record ReprocessedPrefillEpisode =
  ep_output_tokens_before :: nat
  ep_prefix_cache_hit_tokens :: nat
  ep_prefill_tokens_processed :: nat
  ep_completed :: bool

record SpeculativeProgress =
  query_width :: nat
  prefill_chunks :: nat
  decode_rounds :: nat
  resident_kv_sum :: nat
  query_rows :: nat
  verify_pairs :: nat
  emitted_tokens :: nat
  pending_prefill :: "(nat \<times> nat) option"
  pending_decode :: "(nat \<times> nat) option"

record RequestTelemetry =
  first_output_time :: "nat option"
  last_output_time :: "nat option"
  output_times :: "nat list"
  tl_prefix_cache_hit_tokens :: "nat option"
  retraction_count :: nat
  reprocessed_prefills :: "ReprocessedPrefillEpisode list"
  speculative :: "SpeculativeProgress option"

record 'd ActiveRequest =
  ar_request :: "'d Request"
  ar_progress :: TextGenerationProgress
  ar_lifecycle :: RequestLifecycle
  ar_telemetry :: RequestTelemetry

definition initial_telemetry :: RequestTelemetry where
  "initial_telemetry = \<lparr>first_output_time = None, last_output_time = None, output_times = [],
     tl_prefix_cache_hit_tokens = None, retraction_count = 0, reprocessed_prefills = [], speculative = None\<rparr>"

definition from_request :: "'d Request \<Rightarrow> 'd ActiveRequest" where
  "from_request q = \<lparr>ar_request = q, ar_progress = \<lparr>prefill_tokens_processed = 0, output_tokens_emitted = 0\<rparr>,
     ar_lifecycle = \<lparr>lc_admitted = False, lc_completed = False,
       current_stage = unset_stage (rc_arrival_time (rq_core q)), stage_log = []\<rparr>,
     ar_telemetry = initial_telemetry\<rparr>"

abbreviation definition_of :: "'d ActiveRequest \<Rightarrow> 'd TextGenerationDefinition" where
  "definition_of r \<equiv> rq_definition (ar_request r)"

abbreviation emitted :: "'d ActiveRequest \<Rightarrow> nat" where
  "emitted r \<equiv> output_tokens_emitted (ar_progress r)"

abbreviation target :: "'d ActiveRequest \<Rightarrow> nat" where
  "target r \<equiv> target_output_tokens (definition_of r)"

definition is_complete :: "'d ActiveRequest \<Rightarrow> bool" where
  "is_complete r \<longleftrightarrow> emitted r \<ge> target r"

definition record_stage :: "'d ActiveRequest \<Rightarrow> nat \<Rightarrow> nat \<Rightarrow> nat \<Rightarrow> nat \<Rightarrow> bool \<Rightarrow> 'd ActiveRequest" where
  "record_stage r now code pool worker log =
     (let current = current_stage (ar_lifecycle r);
          event = \<lparr>se_time = now, se_code = code, se_pool = pool, se_worker = worker\<rparr>
      in if (se_code current, se_pool current, se_worker current) = (code, pool, worker) then r
         else r\<lparr>ar_lifecycle := (ar_lifecycle r)\<lparr>current_stage := event,
           stage_log := (if log then stage_log (ar_lifecycle r) @ [event] else stage_log (ar_lifecycle r))\<rparr>\<rparr>)"

definition record_first_token :: "'d ActiveRequest \<Rightarrow> nat \<Rightarrow> bool \<Rightarrow> 'd ActiveRequest" where
  "record_first_token r now log_tokens =
     (let r1 = r\<lparr>ar_progress := (ar_progress r)\<lparr>output_tokens_emitted := 1\<rparr>\<rparr>
      in r1\<lparr>ar_telemetry := (ar_telemetry r)\<lparr>first_output_time := Some now, last_output_time := Some now,
              output_times := (if log_tokens then output_times (ar_telemetry r) @ [now] else output_times (ar_telemetry r))\<rparr>,
            ar_lifecycle := (ar_lifecycle r)\<lparr>lc_completed := is_complete r1\<rparr>\<rparr>)"

definition record_token :: "'d ActiveRequest \<Rightarrow> nat \<Rightarrow> bool \<Rightarrow> 'd ActiveRequest" where
  "record_token r now log_tokens =
     (let r1 = r\<lparr>ar_progress := (ar_progress r)\<lparr>output_tokens_emitted := emitted r + 1\<rparr>\<rparr>
      in r1\<lparr>ar_telemetry := (ar_telemetry r)\<lparr>last_output_time := Some now,
              output_times := (if log_tokens then output_times (ar_telemetry r) @ [now] else output_times (ar_telemetry r))\<rparr>,
            ar_lifecycle := (if is_complete r1 then (ar_lifecycle r)\<lparr>lc_completed := True\<rparr> else ar_lifecycle r)\<rparr>)"

definition record_prefix_cache_hit_tokens :: "'d ActiveRequest \<Rightarrow> nat \<Rightarrow> 'd ActiveRequest option" where
  "record_prefix_cache_hit_tokens r hit = do {
     assert_that (hit \<le> declared_prefix_tokens (td_session (definition_of r)));
     assert_that (tl_prefix_cache_hit_tokens (ar_telemetry r) = None);
     Some (r\<lparr>ar_telemetry := (ar_telemetry r)\<lparr>tl_prefix_cache_hit_tokens := Some hit\<rparr>\<rparr>)
   }"

definition record_retraction :: "'d ActiveRequest \<Rightarrow> 'd ActiveRequest option" where
  "record_retraction r = do {
     n \<leftarrow> checked_add_u32 (retraction_count (ar_telemetry r)) 1;
     Some (r\<lparr>ar_telemetry := (ar_telemetry r)\<lparr>retraction_count := n\<rparr>\<rparr>)
   }"

definition begin_reprocessed_prefill :: "'d ActiveRequest \<Rightarrow> nat \<Rightarrow> 'd ActiveRequest option" where
  "begin_reprocessed_prefill r hit =
     (let eps = reprocessed_prefills (ar_telemetry r)
      in do {
        assert_that (eps = [] \<or> ep_completed (last eps));
        Some (r\<lparr>ar_telemetry := (ar_telemetry r)\<lparr>reprocessed_prefills := eps @
          [\<lparr>ep_output_tokens_before = emitted r, ep_prefix_cache_hit_tokens = hit,
            ep_prefill_tokens_processed = 0, ep_completed = False\<rparr>]\<rparr>\<rparr>)
      })"

definition record_reprocessed_prefill_tokens :: "'d ActiveRequest \<Rightarrow> nat \<Rightarrow> 'd ActiveRequest option" where
  "record_reprocessed_prefill_tokens r tokens =
     (let eps = reprocessed_prefills (ar_telemetry r)
      in do {
        assert_that (eps \<noteq> []);
        assert_that (\<not> ep_completed (last eps));
        n \<leftarrow> checked_add_u32 (ep_prefill_tokens_processed (last eps)) tokens;
        Some (r\<lparr>ar_telemetry := (ar_telemetry r)\<lparr>reprocessed_prefills :=
          butlast eps @ [(last eps)\<lparr>ep_prefill_tokens_processed := n\<rparr>]\<rparr>\<rparr>)
      })"

definition complete_reprocessed_prefill :: "'d ActiveRequest \<Rightarrow> 'd ActiveRequest option" where
  "complete_reprocessed_prefill r =
     (let eps = reprocessed_prefills (ar_telemetry r)
      in do {
        assert_that (eps \<noteq> []);
        assert_that (\<not> ep_completed (last eps));
        Some (r\<lparr>ar_telemetry := (ar_telemetry r)\<lparr>reprocessed_prefills :=
          butlast eps @ [(last eps)\<lparr>ep_completed := True\<rparr>]\<rparr>\<rparr>)
      })"

subsection \<open>The shared store\<close>

record 'd RequestStore =
  rs_records :: "'d ActiveRequest option list"
  arrived_ids :: "nat list"
  admitted_ids :: "nat list"

definition new_request_store :: "'d RequestStore" where
  "new_request_store = \<lparr>rs_records = [], arrived_ids = [], admitted_ids = []\<rparr>"

definition reserve_slots :: "'d RequestStore \<Rightarrow> nat \<Rightarrow> 'd RequestStore option" where
  "reserve_slots s count = do {
     assert_that (rs_records s = []);
     Some (s\<lparr>rs_records := replicate count None\<rparr>)
   }"

definition insert_request :: "'d RequestStore \<Rightarrow> 'd Request \<Rightarrow> 'd RequestStore option" where
  "insert_request s q =
     (let r = rc_id (rq_core q)
      in if r = length (rs_records s)
         then Some (s\<lparr>rs_records := rs_records s @ [Some (from_request q)], arrived_ids := arrived_ids s @ [r]\<rparr>)
         else do {
           slot \<leftarrow> nth_opt (rs_records s) r;
           assert_that (slot = None);
           Some (s\<lparr>rs_records := (rs_records s)[r := Some (from_request q)], arrived_ids := arrived_ids s @ [r]\<rparr>)
         })"

text \<open>\<open>get\<close>, and \<open>store[id]\<close>, which is the same with a panic for \<open>None\<close>.\<close>

definition get_record :: "'d RequestStore \<Rightarrow> nat \<Rightarrow> 'd ActiveRequest option" where
  "get_record s r = Option.bind (nth_opt (rs_records s) r) id"

text \<open>A write through \<open>&mut store[id]\<close>.\<close>

definition put_record :: "'d RequestStore \<Rightarrow> nat \<Rightarrow> 'd ActiveRequest \<Rightarrow> 'd RequestStore" where
  "put_record s r a = s\<lparr>rs_records := (rs_records s)[r := Some a]\<rparr>"

definition arrived_count :: "'d RequestStore \<Rightarrow> nat" where
  "arrived_count s = length (arrived_ids s)"

definition mark_admitted :: "'d RequestStore \<Rightarrow> nat \<Rightarrow> 'd RequestStore option" where
  "mark_admitted s r = do {
     a \<leftarrow> get_record s r;
     if lc_admitted (ar_lifecycle a) then Some s
     else Some ((put_record s r (a\<lparr>ar_lifecycle := (ar_lifecycle a)\<lparr>lc_admitted := True\<rparr>\<rparr>))
       \<lparr>admitted_ids := admitted_ids s @ [r]\<rparr>)
   }"

definition num_admitted :: "'d RequestStore \<Rightarrow> nat" where
  "num_admitted s = length (admitted_ids s)"

definition iter_arrived :: "'d RequestStore \<Rightarrow> (nat \<times> 'd ActiveRequest) list option" where
  "iter_arrived s = those (map (\<lambda>r. map_option (Pair r) (get_record s r)) (arrived_ids s))"

definition iter_admitted :: "'d RequestStore \<Rightarrow> (nat \<times> 'd ActiveRequest) list option" where
  "iter_admitted s = those (map (\<lambda>r. do {
     a \<leftarrow> get_record s r;
     assert_that (lc_admitted (ar_lifecycle a));
     Some (r, a)
   }) (admitted_ids s))"

definition all_complete :: "'d RequestStore \<Rightarrow> bool option" where
  "all_complete s = map_option (list_all (\<lambda>(_, a). lc_completed (ar_lifecycle a))) (iter_arrived s)"

definition requests_in_flight :: "'d RequestStore \<Rightarrow> nat option" where
  "requests_in_flight s = map_option (\<lambda>xs. length (filter (\<lambda>(_, a). \<not> lc_completed (ar_lifecycle a)) xs)) (iter_arrived s)"

subsection \<open>The worker's context\<close>

record WorkerContext =
  wc_id :: nat
  wc_pool :: nat
  log_output_token_times :: bool
  log_stage_transitions :: bool

definition stamp_stage :: "WorkerContext \<Rightarrow> 'd ActiveRequest \<Rightarrow> nat \<Rightarrow> nat \<Rightarrow> 'd ActiveRequest" where
  "stamp_stage w r now stage = record_stage r now stage (wc_pool w) (wc_id w) (log_stage_transitions w)"

subsection \<open>The life of one request\<close>

text \<open>The writes that are not tokens: stages, admission observations, retraction and its recomputation
  episodes, prefill progress, the admitted flag and the speculative counters.\<close>

inductive bookkeeping :: "'d ActiveRequest \<Rightarrow> 'd ActiveRequest \<Rightarrow> bool" where
  "bookkeeping a (record_stage a now code pool worker log)"
| "record_prefix_cache_hit_tokens a hit = Some a' \<Longrightarrow> bookkeeping a a'"
| "record_retraction a = Some a' \<Longrightarrow> bookkeeping a a'"
| "begin_reprocessed_prefill a hit = Some a' \<Longrightarrow> bookkeeping a a'"
| "record_reprocessed_prefill_tokens a n = Some a' \<Longrightarrow> bookkeeping a a'"
| "complete_reprocessed_prefill a = Some a' \<Longrightarrow> bookkeeping a a'"
| "bookkeeping a (a\<lparr>ar_progress := (ar_progress a)\<lparr>prefill_tokens_processed := n\<rparr>\<rparr>)"
| "bookkeeping a (a\<lparr>ar_lifecycle := (ar_lifecycle a)\<lparr>lc_admitted := True\<rparr>\<rparr>)"
| "bookkeeping a (a\<lparr>ar_telemetry := (ar_telemetry a)\<lparr>speculative := x\<rparr>\<rparr>)"

lemma bookkeeping_keeps:
  assumes "bookkeeping a a'"
  shows "ar_request a' = ar_request a" and "emitted a' = emitted a"
    and "lc_completed (ar_lifecycle a') = lc_completed (ar_lifecycle a)"
    and "first_output_time (ar_telemetry a') = first_output_time (ar_telemetry a)"
    and "last_output_time (ar_telemetry a') = last_output_time (ar_telemetry a)"
    and "output_times (ar_telemetry a') = output_times (ar_telemetry a)"
  using assms
  by (cases rule: bookkeeping.cases; auto simp: record_stage_def record_prefix_cache_hit_tokens_def
      record_retraction_def begin_reprocessed_prefill_def record_reprocessed_prefill_tokens_def
      complete_reprocessed_prefill_def Let_def bind_Some_iff)+

lemma token_keeps:
  "ar_request (record_first_token a now log) = ar_request a" "ar_request (record_token a now log) = ar_request a"
  "lc_admitted (ar_lifecycle (record_first_token a now log)) = lc_admitted (ar_lifecycle a)"
  "lc_admitted (ar_lifecycle (record_token a now log)) = lc_admitted (ar_lifecycle a)"
  by (simp_all add: record_first_token_def record_token_def Let_def)

text \<open>\<open>request_life log a ts\<close>: the record \<open>a\<close> of a request that emitted its tokens at the times \<open>ts\<close>.
  The lifecycles record a first token once, when the prompt is done, and single tokens after it.\<close>

inductive request_life :: "bool \<Rightarrow> 'd ActiveRequest \<Rightarrow> nat list \<Rightarrow> bool" for log where
  released: "request_life log (from_request q) []"
| first: "request_life log a [] \<Longrightarrow> request_life log (record_first_token a now log) [now]"
| token: "request_life log a ts \<Longrightarrow> ts \<noteq> [] \<Longrightarrow>
    request_life log (record_token a now log) (ts @ [now])"
| other: "request_life log a ts \<Longrightarrow> bookkeeping a a' \<Longrightarrow> request_life log a' ts"

definition token_telemetry :: "bool \<Rightarrow> 'd ActiveRequest \<Rightarrow> nat list \<Rightarrow> bool" where
  "token_telemetry log a ts \<longleftrightarrow> emitted a = length ts
     \<and> first_output_time (ar_telemetry a) = (case ts of [] \<Rightarrow> None | t # _ \<Rightarrow> Some t)
     \<and> last_output_time (ar_telemetry a) = (if ts = [] then None else Some (last ts))
     \<and> output_times (ar_telemetry a) = (if log then ts else [])
     \<and> (lc_completed (ar_lifecycle a) \<longleftrightarrow> ts \<noteq> [] \<and> target a \<le> length ts)"

lemma token_telemetry_life: "request_life log a ts \<Longrightarrow> token_telemetry log a ts"
proof (induction rule: request_life.induct)
  case (released q)
  then show ?case by (simp add: token_telemetry_def from_request_def initial_telemetry_def)
next
  case (first a now)
  then show ?case by (simp add: token_telemetry_def record_first_token_def is_complete_def Let_def)
next
  case (token a ts now)
  then show ?case
    by (cases ts) (auto simp: token_telemetry_def record_token_def is_complete_def Let_def)
next
  case (other a ts a')
  then show ?case using bookkeeping_keeps [OF other.hyps(2)] by (simp add: token_telemetry_def)
qed

text \<open>Whatever stages, admissions, retractions and recomputations a request goes through, its record
  counts the tokens it emitted, keeps the time of the first and of the last one, logs every time in order when
  asked to and none otherwise, and is marked complete exactly when it has emitted its target (at least one
  token).\<close>

theorem token_telemetry_exact:
  assumes "request_life log a ts"
  shows "emitted a = length ts
    \<and> first_output_time (ar_telemetry a) = (if ts = [] then None else Some (hd ts))
    \<and> last_output_time (ar_telemetry a) = (if ts = [] then None else Some (last ts))
    \<and> output_times (ar_telemetry a) = (if log then ts else [])
    \<and> (lc_completed (ar_lifecycle a) \<longleftrightarrow> ts \<noteq> [] \<and> target a \<le> length ts)"
  using token_telemetry_life [OF assms] by (cases ts) (auto simp: token_telemetry_def)

definition sample_request :: "nat \<Rightarrow> unit Request" where
  "sample_request r = \<lparr>rq_core = \<lparr>rc_id = r, rc_arrival_time = 5, rc_slo = \<lparr>ttft_slo = None, tpot_slo = None, e2e_slo = None\<rparr>,
       rc_priority = 0\<rparr>,
     rq_definition = \<lparr>prompt_tokens = 8, target_output_tokens = 2, td_session = Standalone, td_decoding = ()\<rparr>\<rparr>"

theorem token_telemetry_exact_witness:
  "lc_completed (ar_lifecycle (record_token (record_first_token (from_request (sample_request 0)) 10 True) 20 True))"
proof -
  have "request_life True (record_token (record_first_token (from_request (sample_request 0)) 10 True) 20 True) ([10] @ [20])"
    by (intro request_life.intros) simp_all
  then have "lc_completed (ar_lifecycle (record_token (record_first_token (from_request (sample_request 0)) 10 True) 20 True))
      \<longleftrightarrow> target (record_token (record_first_token (from_request (sample_request 0)) 10 True) 20 True) \<le> length [10, 20 :: nat]"
    using token_telemetry_exact by fastforce
  then show ?thesis
    by (simp add: token_keeps from_request_def sample_request_def)
qed

subsection \<open>The store's indexes\<close>

inductive requests_step :: "'d RequestStore \<Rightarrow> 'd RequestStore \<Rightarrow> bool" where
  insert: "insert_request s q = Some s' \<Longrightarrow> requests_step s s'"
| admit: "mark_admitted s r = Some s' \<Longrightarrow> requests_step s s'"
| book: "get_record s r = Some a \<Longrightarrow> bookkeeping a a' \<Longrightarrow> lc_admitted (ar_lifecycle a') = lc_admitted (ar_lifecycle a) \<Longrightarrow>
    requests_step s (put_record s r a')"
| first: "get_record s r = Some a \<Longrightarrow> requests_step s (put_record s r (record_first_token a now log))"
| token: "get_record s r = Some a \<Longrightarrow> requests_step s (put_record s r (record_token a now log))"

inductive requests_reachable :: "'d RequestStore \<Rightarrow> bool" where
  created: "requests_reachable new_request_store"
| reserved: "reserve_slots new_request_store count = Some s \<Longrightarrow> requests_reachable s"
| step: "requests_reachable s \<Longrightarrow> requests_step s s' \<Longrightarrow> requests_reachable s'"

definition requests_ok :: "'d RequestStore \<Rightarrow> bool" where
  "requests_ok s \<longleftrightarrow> distinct (arrived_ids s) \<and> distinct (admitted_ids s)
     \<and> (\<forall>r. r \<in> set (arrived_ids s) \<longleftrightarrow> get_record s r \<noteq> None)
     \<and> (\<forall>r. r \<in> set (admitted_ids s) \<longleftrightarrow> (\<exists>a. get_record s r = Some a \<and> lc_admitted (ar_lifecycle a)))
     \<and> (\<forall>r a. get_record s r = Some a \<longrightarrow> rc_id (rq_core (ar_request a)) = r)"

lemma get_put [simp]:
  assumes "get_record s r = Some a"
  shows "get_record (put_record s r a') r' = (if r' = r then Some a' else get_record s r')"
  using assms by (auto simp: get_record_def put_record_def nth_opt_def split: if_splits)

lemma put_indexes [simp]:
  "arrived_ids (put_record s r a) = arrived_ids s" "admitted_ids (put_record s r a) = admitted_ids s"
  by (simp_all add: put_record_def)

lemma get_admitted_ids [simp]: "get_record (s\<lparr>admitted_ids := xs\<rparr>) r = get_record s r"
  by (simp add: get_record_def)

lemma put_keeps_ok:
  assumes "requests_ok s" and "get_record s r = Some a" and "ar_request a' = ar_request a"
    and "lc_admitted (ar_lifecycle a') = lc_admitted (ar_lifecycle a)"
  shows "requests_ok (put_record s r a')"
  using assms by (auto simp: requests_ok_def)

lemma insert_keeps_ok:
  assumes "requests_ok s" and "insert_request s q = Some s'"
  shows "requests_ok s'"
proof -
  let ?r = "rc_id (rq_core q)"
  have fresh: "get_record s ?r = None" and s': "arrived_ids s' = arrived_ids s @ [?r]" "admitted_ids s' = admitted_ids s"
    and get: "get_record s' r = (if r = ?r then Some (from_request q) else get_record s r)" for r
    using assms(2) by (auto simp: insert_request_def get_record_def nth_opt_def Let_def bind_Some_iff nth_append
        split: if_splits)
  have "?r \<notin> set (arrived_ids s)" "?r \<notin> set (admitted_ids s)" using assms(1) fresh by (auto simp: requests_ok_def)
  then show ?thesis using assms(1) s' get by (auto simp: requests_ok_def from_request_def)
qed

lemma mark_admitted_keeps_ok:
  assumes "requests_ok s" and "mark_admitted s r = Some s'"
  shows "requests_ok s'"
proof -
  obtain a where a: "get_record s r = Some a" using assms(2) by (auto simp: mark_admitted_def bind_Some_iff)
  show ?thesis
  proof (cases "lc_admitted (ar_lifecycle a)")
    case True
    then show ?thesis using assms a by (simp add: mark_admitted_def)
  next
    case False
    then have "r \<notin> set (admitted_ids s)" using assms(1) a by (auto simp: requests_ok_def)
    moreover have "s' = (put_record s r (a\<lparr>ar_lifecycle := (ar_lifecycle a)\<lparr>lc_admitted := True\<rparr>\<rparr>))
        \<lparr>admitted_ids := admitted_ids s @ [r]\<rparr>"
      using assms(2) a False by (simp add: mark_admitted_def)
    ultimately show ?thesis using assms(1) a by (auto simp: requests_ok_def)
  qed
qed

lemma requests_reachable_ok: "requests_reachable s \<Longrightarrow> requests_ok s"
proof (induction rule: requests_reachable.induct)
  case (step s s')
  from step.hyps(2) step.IH show ?case
    by (cases rule: requests_step.cases)
      (auto intro: insert_keeps_ok mark_admitted_keeps_ok put_keeps_ok bookkeeping_keeps(1) simp: token_keeps)
qed (auto simp: requests_ok_def new_request_store_def reserve_slots_def get_record_def nth_opt_def)

lemma those_map_Some: "(\<And>x. x \<in> set xs \<Longrightarrow> f x = Some (g x)) \<Longrightarrow> those (map f xs) = Some (map g xs)"
  by (induction xs) auto

definition record_of :: "'d RequestStore \<Rightarrow> nat \<Rightarrow> 'd ActiveRequest" where
  "record_of s r = the (get_record s r)"

lemma iter_arrived_ok:
  assumes "requests_ok s"
  shows "iter_arrived s = Some (map (\<lambda>r. (r, record_of s r)) (arrived_ids s))"
  unfolding iter_arrived_def
  by (rule those_map_Some) (use assms in \<open>auto simp: requests_ok_def record_of_def\<close>)

lemma iter_admitted_ok:
  assumes "requests_ok s"
  shows "iter_admitted s = Some (map (\<lambda>r. (r, record_of s r)) (admitted_ids s))"
  unfolding iter_admitted_def
proof (rule those_map_Some)
  fix r
  assume "r \<in> set (admitted_ids s)"
  then obtain a where "get_record s r = Some a" "lc_admitted (ar_lifecycle a)"
    using assms by (auto simp: requests_ok_def)
  then show "do { a \<leftarrow> get_record s r; assert_that (lc_admitted (ar_lifecycle a)); Some (r, a) } = Some (r, record_of s r)"
    by (simp add: record_of_def)
qed

lemma filter_length_0: "length (filter P xs) = 0 \<longleftrightarrow> list_all (\<lambda>x. \<not> P x) xs"
  by (induction xs) auto

text \<open>In every state of the store the two compact indexes are exact: iterating the arrived requests
  returns every present record once, under its own id, iterating the admitted ones returns exactly those
  that were admitted, once each, and neither panics; the counters are the lengths of these lists, and the run
  is over exactly when no arrived request is in flight.\<close>

theorem request_indexes_exact:
  assumes "requests_reachable s"
  shows "\<exists>xs ys. iter_arrived s = Some xs \<and> iter_admitted s = Some ys
    \<and> distinct (map fst xs) \<and> distinct (map fst ys)
    \<and> (\<forall>r a. (r, a) \<in> set xs \<longleftrightarrow> get_record s r = Some a)
    \<and> (\<forall>r a. (r, a) \<in> set ys \<longleftrightarrow> get_record s r = Some a \<and> lc_admitted (ar_lifecycle a))
    \<and> (\<forall>r a. (r, a) \<in> set xs \<longrightarrow> rc_id (rq_core (ar_request a)) = r)
    \<and> arrived_count s = length xs \<and> num_admitted s = length ys
    \<and> all_complete s = Some (requests_in_flight s = Some 0)"
proof -
  have ok: "requests_ok s" by (rule requests_reachable_ok [OF assms])
  let ?xs = "map (\<lambda>r. (r, record_of s r)) (arrived_ids s)" and ?ys = "map (\<lambda>r. (r, record_of s r)) (admitted_ids s)"
  have arrived: "(r, a) \<in> set ?xs \<longleftrightarrow> get_record s r = Some a" for r a
    using ok by (auto simp: requests_ok_def record_of_def)
  have admitted: "(r, a) \<in> set ?ys \<longleftrightarrow> get_record s r = Some a \<and> lc_admitted (ar_lifecycle a)" for r a
    using ok by (force simp: requests_ok_def record_of_def)
  have all: "all_complete s = Some (requests_in_flight s = Some 0)"
    by (simp add: all_complete_def requests_in_flight_def iter_arrived_ok [OF ok] filter_length_0 case_prod_unfold list_all_iff
        del: length_0_conv)
  have own: "(r, a) \<in> set ?xs \<longrightarrow> rc_id (rq_core (ar_request a)) = r" for r a
    unfolding arrived using ok by (simp add: requests_ok_def)
  have dist: "distinct (map fst ?xs)" "distinct (map fst ?ys)" using ok by (simp_all add: requests_ok_def comp_def)
  have counts: "arrived_count s = length ?xs" "num_admitted s = length ?ys"
    by (simp_all add: arrived_count_def num_admitted_def)
  show ?thesis
    by (rule exI [of _ ?xs], rule exI [of _ ?ys], intro conjI allI iter_arrived_ok [OF ok] iter_admitted_ok [OF ok]
      dist arrived admitted own counts all)
qed

text \<open>Two arrivals and one admission.\<close>

definition sample_requests :: "unit RequestStore" where
  "sample_requests = \<lparr>rs_records = [Some (from_request (sample_request 0)),
      Some ((from_request (sample_request 1))\<lparr>ar_lifecycle := (ar_lifecycle (from_request (sample_request 1)))\<lparr>lc_admitted := True\<rparr>\<rparr>)],
     arrived_ids = [0, 1], admitted_ids = [1]\<rparr>"

lemma sample_requests_reachable: "requests_reachable sample_requests"
proof -
  have ids: "rc_id (rq_core (sample_request r)) = r" for r by (simp add: sample_request_def)
  have "insert_request new_request_store (sample_request 0) = Some \<lparr>rs_records = [Some (from_request (sample_request 0))],
      arrived_ids = [0], admitted_ids = []\<rparr>"
    by (simp add: insert_request_def ids new_request_store_def)
  then have s1: "requests_reachable \<lparr>rs_records = [Some (from_request (sample_request 0))], arrived_ids = [0], admitted_ids = []\<rparr>"
    by (rule requests_reachable.step [OF requests_reachable.created requests_step.insert])
  have "insert_request \<lparr>rs_records = [Some (from_request (sample_request 0))], arrived_ids = [0], admitted_ids = []\<rparr>
      (sample_request 1) = Some \<lparr>rs_records = [Some (from_request (sample_request 0)), Some (from_request (sample_request 1))],
        arrived_ids = [0, 1], admitted_ids = []\<rparr>"
    by (simp add: insert_request_def ids)
  then have s2: "requests_reachable \<lparr>rs_records = [Some (from_request (sample_request 0)), Some (from_request (sample_request 1))],
        arrived_ids = [0, 1], admitted_ids = []\<rparr>"
    by (rule requests_reachable.step [OF s1 requests_step.insert])
  show ?thesis
    by (rule requests_reachable.step [OF s2 requests_step.admit [of _ 1]])
      (simp add: mark_admitted_def get_record_def put_record_def sample_requests_def from_request_def)
qed

theorem request_indexes_exact_witness: "all_complete sample_requests = Some (requests_in_flight sample_requests = Some 0)"
  using request_indexes_exact [OF sample_requests_reachable] by blast

end
