(* ===== verification/Pending_Order.thy ===== *)
theory Pending_Order
  imports Prefill_Context "HOL-Library.Multiset"
begin

section \<open>Pending-request policies (\<open>worker/admission/policy\<close>)\<close>

text \<open>
  A policy owns the requests that wait for admission and selects one head. \<open>FifoOrder\<close> is a deque;
  the other three keep a \<open>BinaryHeap\<close>, modelled as a list in the heap's order with the greatest
  entry of the Rust \<open>Ord\<close> first: \<open>push\<close> is a sorted insertion, \<open>peek\<close> and \<open>pop\<close> read the first
  entry. A key here is what the Rust comparison prefers when it is smaller. Keys end in the enqueue
  sequence, which is unique, so the heap's order of equal keys never shows. \<open>u64\<close> subtractions are
  checked. The policies' contexts are \<open>()\<close> and are dropped.
\<close>

subsection \<open>Candidates\<close>

record AdmissionCandidate =
  ac_request :: nat
  ac_sequence :: nat
  ac_fresh_prompt :: nat
  ac_remaining_output :: nat
  ac_session :: SessionInput
  ac_start_time :: nat
  ac_resident_prefix :: nat
  ac_retracted :: bool

definition queued_kv_tokens :: "AdmissionCandidate \<Rightarrow> nat" where
  "queued_kv_tokens c = ac_fresh_prompt c + declared_prefix_tokens (ac_session c) + ac_remaining_output c"

text \<open>\<open>EnqueueSequence\<close>: the next number, and the candidate frozen with it.\<close>

definition freeze_candidate ::
  "nat \<Rightarrow> nat \<Rightarrow> nat \<Rightarrow> nat \<Rightarrow> SessionInput \<Rightarrow> nat \<Rightarrow> nat \<Rightarrow> (nat \<times> AdmissionCandidate) option" where
  "freeze_candidate next r fresh remaining si start resident = do {
     next' \<leftarrow> checked_add_u64 next 1;
     Some (next', \<lparr>ac_request = r, ac_sequence = next, ac_fresh_prompt = fresh,
       ac_remaining_output = remaining, ac_session = si, ac_start_time = start,
       ac_resident_prefix = resident, ac_retracted = False\<rparr>)
   }"

definition freeze_retracted ::
  "nat \<Rightarrow> nat \<Rightarrow> nat \<Rightarrow> nat \<Rightarrow> SessionInput \<Rightarrow> nat \<Rightarrow> nat \<Rightarrow> (nat \<times> AdmissionCandidate) option" where
  "freeze_retracted next r fresh remaining si start resident = do {
     (next', c) \<leftarrow> freeze_candidate next r fresh remaining si start resident;
     Some (next', c\<lparr>ac_retracted := True\<rparr>)
   }"

subsection \<open>Arrival order\<close>

record FifoOrder =
  ff_queue :: "AdmissionCandidate list"
  ff_tokens :: nat

definition new_fifo :: FifoOrder where
  "new_fifo = \<lparr>ff_queue = [], ff_tokens = 0\<rparr>"

definition fifo_push :: "FifoOrder \<Rightarrow> AdmissionCandidate \<Rightarrow> FifoOrder" where
  "fifo_push q c = \<lparr>ff_queue = ff_queue q @ [c], ff_tokens = ff_tokens q + queued_kv_tokens c\<rparr>"

definition fifo_push_front :: "FifoOrder \<Rightarrow> AdmissionCandidate \<Rightarrow> FifoOrder" where
  "fifo_push_front q c = \<lparr>ff_queue = c # ff_queue q, ff_tokens = ff_tokens q + queued_kv_tokens c\<rparr>"

definition fifo_peek :: "FifoOrder \<Rightarrow> AdmissionCandidate option" where
  "fifo_peek q = (case ff_queue q of [] \<Rightarrow> None | c # _ \<Rightarrow> Some c)"

definition fifo_pop :: "FifoOrder \<Rightarrow> (FifoOrder \<times> AdmissionCandidate option) option" where
  "fifo_pop q = (case ff_queue q of
     [] \<Rightarrow> Some (q, None)
   | c # cs \<Rightarrow> do {
       t \<leftarrow> checked_sub (ff_tokens q) (queued_kv_tokens c);
       Some (\<lparr>ff_queue = cs, ff_tokens = t\<rparr>, Some c)
     })"

definition fifo_remove :: "FifoOrder \<Rightarrow> nat \<Rightarrow> (FifoOrder \<times> AdmissionCandidate option) option" where
  "fifo_remove q r = (case dropWhile (\<lambda>c. ac_request c \<noteq> r) (ff_queue q) of
     [] \<Rightarrow> Some (q, None)
   | c # cs \<Rightarrow> do {
       t \<leftarrow> checked_sub (ff_tokens q) (queued_kv_tokens c);
       Some (\<lparr>ff_queue = takeWhile (\<lambda>c. ac_request c \<noteq> r) (ff_queue q) @ cs, ff_tokens = t\<rparr>, Some c)
     })"

definition fifo_contains :: "FifoOrder \<Rightarrow> nat \<Rightarrow> bool" where
  "fifo_contains q r \<longleftrightarrow> list_ex (\<lambda>c. ac_request c = r) (ff_queue q)"

subsection \<open>The heap the ranking policies share\<close>

text \<open>The three ranking policies have the same code over different entries and comparisons:
  \<open>key\<close> is the comparison, \<open>cand\<close> the candidate of an entry. \<open>remove\<close> keeps the last entry it
  filtered out.\<close>

record 'e HeapOrder =
  hp_heap :: "'e list"
  hp_tokens :: nat

definition new_heap :: "'e HeapOrder" where
  "new_heap = \<lparr>hp_heap = [], hp_tokens = 0\<rparr>"

definition heap_push :: "('e \<Rightarrow> 'k::linorder) \<Rightarrow> ('e \<Rightarrow> AdmissionCandidate) \<Rightarrow> 'e HeapOrder \<Rightarrow> 'e \<Rightarrow> 'e HeapOrder" where
  "heap_push key cand q e =
     \<lparr>hp_heap = insort_key key e (hp_heap q), hp_tokens = hp_tokens q + queued_kv_tokens (cand e)\<rparr>"

definition heap_peek :: "('e \<Rightarrow> AdmissionCandidate) \<Rightarrow> 'e HeapOrder \<Rightarrow> AdmissionCandidate option" where
  "heap_peek cand q = (case hp_heap q of [] \<Rightarrow> None | e # _ \<Rightarrow> Some (cand e))"

definition heap_pop ::
  "('e \<Rightarrow> AdmissionCandidate) \<Rightarrow> 'e HeapOrder \<Rightarrow> ('e HeapOrder \<times> AdmissionCandidate option) option" where
  "heap_pop cand q = (case hp_heap q of
     [] \<Rightarrow> Some (q, None)
   | e # es \<Rightarrow> do {
       t \<leftarrow> checked_sub (hp_tokens q) (queued_kv_tokens (cand e));
       Some (\<lparr>hp_heap = es, hp_tokens = t\<rparr>, Some (cand e))
     })"

definition heap_remove :: "('e \<Rightarrow> 'k::linorder) \<Rightarrow> ('e \<Rightarrow> AdmissionCandidate) \<Rightarrow> 'e HeapOrder \<Rightarrow> nat \<Rightarrow>
     ('e HeapOrder \<times> AdmissionCandidate option) option" where
  "heap_remove key cand q r =
     (let removed = filter (\<lambda>e. ac_request (cand e) = r) (hp_heap q);
          retained = sort_key key (filter (\<lambda>e. ac_request (cand e) \<noteq> r) (hp_heap q))
      in case removed of
        [] \<Rightarrow> Some (q\<lparr>hp_heap := retained\<rparr>, None)
      | _ # _ \<Rightarrow> do {
          t \<leftarrow> checked_sub (hp_tokens q) (queued_kv_tokens (cand (last removed)));
          Some (\<lparr>hp_heap = retained, hp_tokens = t\<rparr>, Some (cand (last removed)))
        })"

definition heap_contains :: "('e \<Rightarrow> AdmissionCandidate) \<Rightarrow> 'e HeapOrder \<Rightarrow> nat \<Rightarrow> bool" where
  "heap_contains cand q r \<longleftrightarrow> list_ex (\<lambda>e. ac_request (cand e) = r) (hp_heap q)"

subsection \<open>The comparisons\<close>

definition session_start_key :: "AdmissionCandidate \<Rightarrow> nat \<times> nat" where
  "session_start_key c = (ac_start_time c, ac_sequence c)"

definition shortest_work_key :: "AdmissionCandidate \<Rightarrow> nat \<times> nat" where
  "shortest_work_key c = (queued_kv_tokens c, ac_sequence c)"

text \<open>\<open>MostPrefixMatched\<close>: more matched tokens first, then the earlier arrival.\<close>

record MostPrefixMatched =
  mp_matched :: nat
  mp_candidate :: AdmissionCandidate

definition prefix_match_key :: "MostPrefixMatched \<Rightarrow> int \<times> nat" where
  "prefix_match_key e = (- int (mp_matched e), ac_sequence (mp_candidate e))"

definition prefix_match_push :: "MostPrefixMatched HeapOrder \<Rightarrow> AdmissionCandidate \<Rightarrow> MostPrefixMatched HeapOrder" where
  "prefix_match_push q c = heap_push prefix_match_key mp_candidate q
     \<lparr>mp_matched = ac_resident_prefix c, mp_candidate = c\<rparr>"

text \<open>\<open>refresh_head\<close>: the head is popped and pushed back with its live value until it is not an
  over-estimate. It ends because every turn lowers the sum of the cached values.\<close>

lemma sum_list_insort: "sum_list (map f (insort_key k x xs)) = f x + (sum_list (map f xs) :: nat)"
  by (induction xs) auto

function refresh_heap ::
  "(AdmissionCandidate \<Rightarrow> nat) \<Rightarrow> MostPrefixMatched list \<Rightarrow> MostPrefixMatched list" where
  "refresh_heap live [] = []"
| "refresh_heap live (e # es) =
     (if live (mp_candidate e) \<ge> mp_matched e then e # es
      else refresh_heap live (insort_key prefix_match_key (e\<lparr>mp_matched := live (mp_candidate e)\<rparr>) es))"
  by pat_completeness auto

termination
  by (relation "measure (\<lambda>(live, es). sum_list (map mp_matched es))") (auto simp: sum_list_insort)

definition prefix_match_refresh ::
  "(AdmissionCandidate \<Rightarrow> nat) \<Rightarrow> MostPrefixMatched HeapOrder \<Rightarrow> MostPrefixMatched HeapOrder" where
  "prefix_match_refresh live q = q\<lparr>hp_heap := refresh_heap live (hp_heap q)\<rparr>"

text \<open>The other operations of the prefix-match queue, and those of \<open>ShortestJobFirst\<close>, are the shared
  heap's.\<close>

definition prefix_match_peek :: "MostPrefixMatched HeapOrder \<Rightarrow> AdmissionCandidate option" where
  [simp]: "prefix_match_peek q = heap_peek mp_candidate q"

definition prefix_match_pop ::
  "MostPrefixMatched HeapOrder \<Rightarrow> (MostPrefixMatched HeapOrder \<times> AdmissionCandidate option) option" where
  [simp]: "prefix_match_pop q = heap_pop mp_candidate q"

definition prefix_match_remove ::
  "MostPrefixMatched HeapOrder \<Rightarrow> nat \<Rightarrow> (MostPrefixMatched HeapOrder \<times> AdmissionCandidate option) option" where
  [simp]: "prefix_match_remove q r = heap_remove prefix_match_key mp_candidate q r"

definition prefix_match_contains :: "MostPrefixMatched HeapOrder \<Rightarrow> nat \<Rightarrow> bool" where
  [simp]: "prefix_match_contains q r = heap_contains mp_candidate q r"

definition shortest_job_push ::
  "AdmissionCandidate HeapOrder \<Rightarrow> AdmissionCandidate \<Rightarrow> AdmissionCandidate HeapOrder" where
  [simp]: "shortest_job_push q c = heap_push shortest_work_key id q c"

definition shortest_job_peek :: "AdmissionCandidate HeapOrder \<Rightarrow> AdmissionCandidate option" where
  [simp]: "shortest_job_peek q = heap_peek id q"

definition shortest_job_pop ::
  "AdmissionCandidate HeapOrder \<Rightarrow> (AdmissionCandidate HeapOrder \<times> AdmissionCandidate option) option" where
  [simp]: "shortest_job_pop q = heap_pop id q"

definition shortest_job_remove ::
  "AdmissionCandidate HeapOrder \<Rightarrow> nat \<Rightarrow> (AdmissionCandidate HeapOrder \<times> AdmissionCandidate option) option" where
  [simp]: "shortest_job_remove q r = heap_remove shortest_work_key id q r"

definition shortest_job_contains :: "AdmissionCandidate HeapOrder \<Rightarrow> nat \<Rightarrow> bool" where
  [simp]: "shortest_job_contains q r = heap_contains id q r"

subsection \<open>The runtime selector\<close>

datatype PendingOrderKind = SessionStartKind | FifoKind | ShortestJobFirstKind | LongestPrefixMatchKind

datatype PendingOrder =
    SessionStart "AdmissionCandidate HeapOrder"
  | Fifo FifoOrder
  | ShortestJobFirst "AdmissionCandidate HeapOrder"
  | LongestPrefixMatch "MostPrefixMatched HeapOrder"

definition new_pending :: "PendingOrderKind \<Rightarrow> PendingOrder" where
  "new_pending k = (case k of
     SessionStartKind \<Rightarrow> SessionStart new_heap | FifoKind \<Rightarrow> Fifo new_fifo
   | ShortestJobFirstKind \<Rightarrow> ShortestJobFirst new_heap
   | LongestPrefixMatchKind \<Rightarrow> LongestPrefixMatch new_heap)"

definition po_push :: "PendingOrder \<Rightarrow> AdmissionCandidate \<Rightarrow> PendingOrder" where
  "po_push p c = (case p of
     SessionStart q \<Rightarrow> SessionStart (heap_push session_start_key id q c)
   | Fifo q \<Rightarrow> Fifo (fifo_push q c)
   | ShortestJobFirst q \<Rightarrow> ShortestJobFirst (shortest_job_push q c)
   | LongestPrefixMatch q \<Rightarrow> LongestPrefixMatch (prefix_match_push q c))"

text \<open>Only the deque has a front; the trait's default for the others is \<open>push\<close>.\<close>

definition po_push_front :: "PendingOrder \<Rightarrow> AdmissionCandidate \<Rightarrow> PendingOrder" where
  "po_push_front p c = (case p of Fifo q \<Rightarrow> Fifo (fifo_push_front q c) | _ \<Rightarrow> po_push p c)"

definition po_refresh_head :: "(AdmissionCandidate \<Rightarrow> nat) \<Rightarrow> PendingOrder \<Rightarrow> PendingOrder" where
  "po_refresh_head live p = (case p of
     LongestPrefixMatch q \<Rightarrow> LongestPrefixMatch (prefix_match_refresh live q) | _ \<Rightarrow> p)"

definition po_peek :: "PendingOrder \<Rightarrow> AdmissionCandidate option" where
  "po_peek p = (case p of
     SessionStart q \<Rightarrow> heap_peek id q | Fifo q \<Rightarrow> fifo_peek q
   | ShortestJobFirst q \<Rightarrow> shortest_job_peek q | LongestPrefixMatch q \<Rightarrow> prefix_match_peek q)"

definition po_pop :: "PendingOrder \<Rightarrow> (PendingOrder \<times> AdmissionCandidate option) option" where
  "po_pop p = (case p of
     SessionStart q \<Rightarrow> map_option (map_prod SessionStart id) (heap_pop id q)
   | Fifo q \<Rightarrow> map_option (map_prod Fifo id) (fifo_pop q)
   | ShortestJobFirst q \<Rightarrow> map_option (map_prod ShortestJobFirst id) (shortest_job_pop q)
   | LongestPrefixMatch q \<Rightarrow> map_option (map_prod LongestPrefixMatch id) (prefix_match_pop q))"

definition po_remove :: "PendingOrder \<Rightarrow> nat \<Rightarrow> (PendingOrder \<times> AdmissionCandidate option) option" where
  "po_remove p r = (case p of
     SessionStart q \<Rightarrow> map_option (map_prod SessionStart id) (heap_remove session_start_key id q r)
   | Fifo q \<Rightarrow> map_option (map_prod Fifo id) (fifo_remove q r)
   | ShortestJobFirst q \<Rightarrow> map_option (map_prod ShortestJobFirst id) (shortest_job_remove q r)
   | LongestPrefixMatch q \<Rightarrow>
       map_option (map_prod LongestPrefixMatch id) (prefix_match_remove q r))"

definition po_contains :: "PendingOrder \<Rightarrow> nat \<Rightarrow> bool" where
  "po_contains p r = (case p of
     SessionStart q \<Rightarrow> heap_contains id q r | Fifo q \<Rightarrow> fifo_contains q r
   | ShortestJobFirst q \<Rightarrow> shortest_job_contains q r | LongestPrefixMatch q \<Rightarrow> prefix_match_contains q r)"

definition po_len :: "PendingOrder \<Rightarrow> nat" where
  "po_len p = (case p of
     SessionStart q \<Rightarrow> length (hp_heap q) | Fifo q \<Rightarrow> length (ff_queue q)
   | ShortestJobFirst q \<Rightarrow> length (hp_heap q) | LongestPrefixMatch q \<Rightarrow> length (hp_heap q))"

definition po_queued_kv_tokens :: "PendingOrder \<Rightarrow> nat" where
  "po_queued_kv_tokens p = (case p of
     SessionStart q \<Rightarrow> hp_tokens q | Fifo q \<Rightarrow> ff_tokens q
   | ShortestJobFirst q \<Rightarrow> hp_tokens q | LongestPrefixMatch q \<Rightarrow> hp_tokens q)"

lemma filter_mset_all: "(\<And>x. x \<in># M \<Longrightarrow> P x) \<Longrightarrow> filter_mset P M = M"
  by (induction M) auto

lemma find_unique:
  assumes "x \<in> set xs" and "P x" and "\<And>y. y \<in> set xs \<Longrightarrow> P y \<Longrightarrow> y = x"
  shows "find P xs = Some x"
proof (cases "find P xs")
  case None
  then show ?thesis using assms(1,2) by (simp add: find_None_iff)
next
  case (Some y)
  then have "y \<in> set xs" "P y" by (auto simp: find_Some_iff)
  then show ?thesis using Some assms(3) by simp
qed

subsection \<open>The contract of a policy\<close>

text \<open>What an admission lifecycle relies on: the waiting candidates form a list whose first element is
  the head; pushing adds one, popping removes the head, removing by id takes out that request, and
  refreshing only reorders. None of them fails.\<close>

locale pending_policy =
  fixes ok :: "'q \<Rightarrow> bool" and waiting :: "'q \<Rightarrow> AdmissionCandidate list"
    and push :: "'q \<Rightarrow> AdmissionCandidate \<Rightarrow> 'q" and head :: "'q \<Rightarrow> AdmissionCandidate option"
    and pop :: "'q \<Rightarrow> ('q \<times> AdmissionCandidate option) option"
    and remov :: "'q \<Rightarrow> nat \<Rightarrow> ('q \<times> AdmissionCandidate option) option"
    and refresh :: "(AdmissionCandidate \<Rightarrow> nat) \<Rightarrow> 'q \<Rightarrow> 'q" and tokens :: "'q \<Rightarrow> nat"
  assumes push_law: "ok q \<Longrightarrow> ac_request c \<notin> ac_request ` set (waiting q) \<Longrightarrow>
      ok (push q c) \<and> mset (waiting (push q c)) = add_mset c (mset (waiting q))"
    and head_law: "ok q \<Longrightarrow> head q = (case waiting q of [] \<Rightarrow> None | c # _ \<Rightarrow> Some c)"
    and pop_law: "ok q \<Longrightarrow> waiting q = c # cs \<Longrightarrow>
      \<exists>q'. pop q = Some (q', Some c) \<and> ok q' \<and> waiting q' = cs"
    and remove_law: "ok q \<Longrightarrow> \<exists>q'. remov q r = Some (q', find (\<lambda>c. ac_request c = r) (waiting q)) \<and> ok q'
      \<and> mset (waiting q') = filter_mset (\<lambda>c. ac_request c \<noteq> r) (mset (waiting q))"
    and refresh_law: "ok q \<Longrightarrow> ok (refresh live q) \<and> mset (waiting (refresh live q)) = mset (waiting q)"
    and tokens_law: "ok q \<Longrightarrow> tokens q = sum_list (map queued_kv_tokens (waiting q))"
    and unique_law: "ok q \<Longrightarrow> distinct (map ac_request (waiting q))"
begin

lemma tokens_mset: "ok q \<Longrightarrow> tokens q = sum_mset (image_mset queued_kv_tokens (mset (waiting q)))"
  by (simp add: tokens_law flip: sum_mset_sum_list)

text \<open>What the lifecycle does each turn: refresh, read the head, pop it.\<close>

lemma take_head:
  assumes "ok q" and "head (refresh live q) = Some c"
  shows "\<exists>q'. pop (refresh live q) = Some (q', Some c) \<and> ok q'
    \<and> mset (waiting q) = add_mset c (mset (waiting q')) \<and> tokens q = tokens q' + queued_kv_tokens c"
proof -
  have r: "ok (refresh live q)" "mset (waiting (refresh live q)) = mset (waiting q)"
    using refresh_law [OF assms(1)] by simp_all
  obtain cs where cs: "waiting (refresh live q) = c # cs"
    using assms(2) head_law [OF r(1)] by (cases "waiting (refresh live q)") auto
  obtain q' where q': "pop (refresh live q) = Some (q', Some c)" "ok q'" "waiting q' = cs"
    using pop_law [OF r(1) cs] by blast
  have "mset (waiting q) = add_mset c (mset (waiting q'))" using r(2) cs q'(3) by simp
  then show ?thesis using q' tokens_mset [OF assms(1)] tokens_mset [OF q'(2)] by simp
qed

lemma no_head: "ok q \<Longrightarrow> head (refresh live q) = None \<longleftrightarrow> waiting q = []"
  using refresh_law [of q live] head_law [of "refresh live q"]
  by (auto split: list.splits)

text \<open>A push of a new request followed by its removal leaves the same requests waiting.\<close>

lemma push_remove:
  assumes "ok q" and "ac_request c \<notin> ac_request ` set (waiting q)"
  shows "\<exists>q'. remov (push q c) (ac_request c) = Some (q', Some c) \<and> ok q' \<and> mset (waiting q') = mset (waiting q)
    \<and> tokens q' = tokens q"
proof -
  have p: "ok (push q c)" "mset (waiting (push q c)) = add_mset c (mset (waiting q))"
    using push_law [OF assms] by simp_all
  obtain q' where q': "remov (push q c) (ac_request c) =
      Some (q', find (\<lambda>d. ac_request d = ac_request c) (waiting (push q c)))" "ok q'"
    "mset (waiting q') = filter_mset (\<lambda>d. ac_request d \<noteq> ac_request c) (add_mset c (mset (waiting q)))"
    using remove_law [OF p(1), of "ac_request c"] p(2) by auto
  have mem: "set (waiting (push q c)) = insert c (set (waiting q))"
    using arg_cong [OF p(2), of set_mset] by simp
  have "find (\<lambda>d. ac_request d = ac_request c) (waiting (push q c)) = Some c"
    by (rule find_unique) (use mem assms(2) in \<open>auto simp: rev_image_eqI\<close>)
  moreover have "filter_mset (\<lambda>d. ac_request d \<noteq> ac_request c) (mset (waiting q)) = mset (waiting q)"
    by (rule filter_mset_all) (use assms(2) in \<open>auto simp: rev_image_eqI\<close>)
  ultimately show ?thesis using q' tokens_mset [OF assms(1)] tokens_mset [OF q'(2)] by simp
qed

end

subsection \<open>The heap keeps the contract\<close>

definition heap_ok :: "('e \<Rightarrow> 'k::linorder) \<Rightarrow> ('e \<Rightarrow> AdmissionCandidate) \<Rightarrow> 'e HeapOrder \<Rightarrow> bool" where
  "heap_ok key cand q \<longleftrightarrow> sorted (map key (hp_heap q)) \<and> distinct (map (\<lambda>e. ac_request (cand e)) (hp_heap q))
     \<and> hp_tokens q = sum_list (map (\<lambda>e. queued_kv_tokens (cand e)) (hp_heap q))"

lemma heap_push_ok:
  assumes "heap_ok key cand q" and "ac_request (cand e) \<notin> ac_request ` set (map cand (hp_heap q))"
  shows "heap_ok key cand (heap_push key cand q e)"
    and "mset (map cand (hp_heap (heap_push key cand q e))) = add_mset (cand e) (mset (map cand (hp_heap q)))"
proof -
  have "distinct (map (\<lambda>e. ac_request (cand e)) (insort_key key e (hp_heap q)))"
  proof -
    have "mset (map (\<lambda>e. ac_request (cand e)) (insort_key key e (hp_heap q)))
        = mset (map (\<lambda>e. ac_request (cand e)) (e # hp_heap q))" by simp
    moreover have "distinct (map (\<lambda>e. ac_request (cand e)) (e # hp_heap q))"
      using assms by (auto simp: heap_ok_def)
    ultimately show ?thesis by (metis mset_eq_imp_distinct_iff)
  qed
  then show "heap_ok key cand (heap_push key cand q e)"
    using assms(1) by (simp add: heap_ok_def heap_push_def sorted_insort_key sum_list_insort)
qed (simp add: heap_push_def)

lemma heap_pop_ok:
  assumes "heap_ok key cand q" and "hp_heap q = e # es"
  shows "\<exists>q'. heap_pop cand q = Some (q', Some (cand e)) \<and> heap_ok key cand q' \<and> hp_heap q' = es"
  using assms by (simp add: heap_pop_def heap_ok_def)

lemma filter_unique_single:
  assumes "distinct (map f xs)" and "filter (\<lambda>x. f x = r) xs = y # ys"
  shows "find (\<lambda>x. f x = r) xs = Some y" and "ys = []"
proof -
  have "distinct (map f (filter (\<lambda>x. f x = r) xs))" by (rule distinct_map_filter [OF assms(1)])
  moreover have "\<forall>x \<in> set (y # ys). f x = r" 
    using arg_cong [OF assms(2), of set] by auto
  ultimately show "ys = []" unfolding assms(2) by (cases ys) auto
  have "find (\<lambda>x. f x = r) xs = Some (hd (filter (\<lambda>x. f x = r) xs))"
    using assms(2) by (induction xs) (auto split: if_splits)
  then show "find (\<lambda>x. f x = r) xs = Some y" by (simp only: assms(2) list.sel)
qed

lemma sum_list_split:
  "sum_list (map f (filter P xs)) + sum_list (map f (filter (\<lambda>x. \<not> P x) xs)) = (sum_list (map f xs) :: nat)"
  by (induction xs) auto

lemma heap_remove_ok:
  assumes "heap_ok key cand q"
  shows "\<exists>q'. heap_remove key cand q r = Some (q', map_option cand (find (\<lambda>e. ac_request (cand e) = r) (hp_heap q)))
    \<and> heap_ok key cand q' \<and> hp_heap q' = filter (\<lambda>e. ac_request (cand e) \<noteq> r) (hp_heap q)"
proof -
  let ?kept = "filter (\<lambda>e. ac_request (cand e) \<noteq> r) (hp_heap q)"
  let ?out = "filter (\<lambda>e. ac_request (cand e) = r) (hp_heap q)"
  have sorted: "sorted (map key ?kept)" using assms by (simp add: heap_ok_def sorted_filter)
  have kept: "sort_key key ?kept = ?kept" by (rule sort_key_id_if_sorted [OF sorted])
  have dist: "distinct (map (\<lambda>e. ac_request (cand e)) (hp_heap q))" using assms by (simp add: heap_ok_def)
  have dist': "distinct (map (\<lambda>e. ac_request (cand e)) ?kept)" using dist by (rule distinct_map_filter)
  have sum: "sum_list (map (\<lambda>e. queued_kv_tokens (cand e)) ?out)
      + sum_list (map (\<lambda>e. queued_kv_tokens (cand e)) ?kept) = hp_tokens q"
    using assms sum_list_split [of "\<lambda>e. queued_kv_tokens (cand e)" "\<lambda>e. ac_request (cand e) = r" "hp_heap q"]
    by (simp add: heap_ok_def)
  show ?thesis
  proof (cases ?out)
    case Nil
    then have "find (\<lambda>e. ac_request (cand e) = r) (hp_heap q) = None"
      by (auto simp: find_None_iff filter_empty_conv)
    then show ?thesis using Nil sum sorted dist' kept by (simp add: heap_remove_def Let_def heap_ok_def)
  next
    case (Cons e es)
    note f = filter_unique_single [OF dist Cons]
    show ?thesis using Cons f sum sorted dist' kept
      by (simp add: heap_remove_def Let_def heap_ok_def checked_sub_def)
  qed
qed

lemma sorted_key_head: "sorted (map key (x # xs)) \<Longrightarrow> y \<in> set (x # xs) \<Longrightarrow> key x \<le> key y"
  by auto

subsection \<open>The refresh of the prefix-match head\<close>

lemma refresh_heap_mset:
  "mset (map mp_candidate (refresh_heap live es)) = mset (map mp_candidate es)"
  by (induction live es rule: refresh_heap.induct) simp_all

lemma refresh_heap_sorted:
  "sorted (map prefix_match_key es) \<Longrightarrow> sorted (map prefix_match_key (refresh_heap live es))"
  by (induction live es rule: refresh_heap.induct) (auto simp: sorted_insort_key)

lemma refresh_heap_exact_at_head:
  "refresh_heap live es = e # es' \<Longrightarrow> mp_matched e \<le> live (mp_candidate e)"
  by (induction live es rule: refresh_heap.induct) (auto split: if_splits)

text \<open>Cached values stay upper bounds, since only a live value is ever written.\<close>

lemma refresh_heap_bounds:
  "\<forall>e \<in> set es. live (mp_candidate e) \<le> mp_matched e
    \<Longrightarrow> \<forall>e \<in> set (refresh_heap live es). live (mp_candidate e) \<le> mp_matched e"
  by (induction live es rule: refresh_heap.induct) (auto simp: set_insort_key)

lemma heap_ok_transfer:
  assumes "heap_ok key cand q" and "sorted (map key es)" and "mset (map cand es) = mset (map cand (hp_heap q))"
  shows "heap_ok key cand (q\<lparr>hp_heap := es\<rparr>)"
proof -
  have m: "mset (map f (map cand es)) = mset (map f (map cand (hp_heap q)))" for f :: "AdmissionCandidate \<Rightarrow> 'x"
    using arg_cong [OF assms(3), of "image_mset f"] by (simp only: mset_map)
  have "distinct (map ac_request (map cand es))"
    using assms(1) m [of ac_request] by (metis (no_types, lifting) heap_ok_def list.map_comp map_eq_conv comp_apply mset_eq_imp_distinct_iff)
  moreover have "sum_list (map queued_kv_tokens (map cand es)) = sum_list (map queued_kv_tokens (map cand (hp_heap q)))"
    using m [of queued_kv_tokens] by (metis sum_mset_sum_list)
  ultimately show ?thesis using assms(1,2) by (simp add: heap_ok_def comp_def)
qed

lemma prefix_match_refresh_ok:
  assumes "heap_ok prefix_match_key mp_candidate q"
  shows "heap_ok prefix_match_key mp_candidate (prefix_match_refresh live q)"
    and "mset (map mp_candidate (hp_heap (prefix_match_refresh live q))) = mset (map mp_candidate (hp_heap q))"
  using heap_ok_transfer [OF assms refresh_heap_sorted refresh_heap_mset] assms refresh_heap_mset
  by (simp_all add: prefix_match_refresh_def heap_ok_def)

subsection \<open>Every policy keeps the contract\<close>

definition fifo_ok :: "FifoOrder \<Rightarrow> bool" where
  "fifo_ok q \<longleftrightarrow> distinct (map ac_request (ff_queue q)) \<and> ff_tokens q = sum_list (map queued_kv_tokens (ff_queue q))"

definition po_ok :: "PendingOrder \<Rightarrow> bool" where
  "po_ok p = (case p of
     SessionStart q \<Rightarrow> heap_ok session_start_key id q | Fifo q \<Rightarrow> fifo_ok q
   | ShortestJobFirst q \<Rightarrow> heap_ok shortest_work_key id q
   | LongestPrefixMatch q \<Rightarrow> heap_ok prefix_match_key mp_candidate q)"

definition po_waiting :: "PendingOrder \<Rightarrow> AdmissionCandidate list" where
  "po_waiting p = (case p of
     SessionStart q \<Rightarrow> hp_heap q | Fifo q \<Rightarrow> ff_queue q
   | ShortestJobFirst q \<Rightarrow> hp_heap q | LongestPrefixMatch q \<Rightarrow> map mp_candidate (hp_heap q))"

lemma fifo_remove_ok:
  assumes "fifo_ok q"
  shows "\<exists>q'. fifo_remove q r = Some (q', find (\<lambda>c. ac_request c = r) (ff_queue q)) \<and> fifo_ok q'
    \<and> ff_queue q' = filter (\<lambda>c. ac_request c \<noteq> r) (ff_queue q)"
proof (cases "dropWhile (\<lambda>c. ac_request c \<noteq> r) (ff_queue q)")
  case Nil
  then have "\<forall>c \<in> set (ff_queue q). ac_request c \<noteq> r" by (simp add: dropWhile_eq_Nil_conv)
  then have "find (\<lambda>c. ac_request c = r) (ff_queue q) = None"
    and "filter (\<lambda>c. ac_request c \<noteq> r) (ff_queue q) = ff_queue q" by (simp_all add: find_None_iff)
  then show ?thesis unfolding fifo_remove_def Nil using assms by simp
next
  case (Cons c cs)
  define before where "before = takeWhile (\<lambda>c. ac_request c \<noteq> r) (ff_queue q)"
  have q: "ff_queue q = before @ c # cs"
    unfolding before_def Cons [symmetric] by (rule takeWhile_dropWhile_id [symmetric])
  have c: "ac_request c = r" using hd_dropWhile [of "\<lambda>c. ac_request c \<noteq> r" "ff_queue q"] Cons by simp
  have before: "\<forall>d \<in> set before. ac_request d \<noteq> r" unfolding before_def by (blast dest: set_takeWhileD)
  have dist: "distinct (map ac_request (before @ c # cs))" using assms q by (simp add: fifo_ok_def)
  then have "r \<notin> ac_request ` set cs" using c by simp
  then have after: "\<forall>d \<in> set cs. ac_request d \<noteq> r" by (metis imageI)
  have found: "find (\<lambda>c. ac_request c = r) (ff_queue q) = Some c"
    unfolding q by (rule find_unique) (use before after c in auto)
  have kept: "filter (\<lambda>c. ac_request c \<noteq> r) (ff_queue q) = before @ cs"
    unfolding q using before after c by simp
  have "ff_tokens q = sum_list (map queued_kv_tokens (before @ c # cs))"
    using assms q by (simp add: fifo_ok_def)
  then have "fifo_remove q r
      = Some (\<lparr>ff_queue = before @ cs, ff_tokens = sum_list (map queued_kv_tokens (before @ cs))\<rparr>, Some c)"
    unfolding fifo_remove_def Cons before_def [symmetric] by (simp add: checked_sub_def)
  then show ?thesis unfolding found kept using dist by (simp add: fifo_ok_def)
qed

lemma find_of_map: "find P (map f xs) = map_option f (find (\<lambda>x. P (f x)) xs)"
  by (induction xs) auto

lemma po_push_ok:
  assumes "po_ok p" and "ac_request c \<notin> ac_request ` set (po_waiting p)"
  shows "po_ok (po_push p c) \<and> mset (po_waiting (po_push p c)) = add_mset c (mset (po_waiting p))"
proof (cases p)
  case (SessionStart q)
  then show ?thesis using heap_push_ok [of session_start_key id q c] assms
    by (simp add: po_ok_def po_waiting_def po_push_def)
next
  case (Fifo q)
  then show ?thesis using assms by (auto simp: po_ok_def po_waiting_def po_push_def fifo_ok_def fifo_push_def)
next
  case (ShortestJobFirst q)
  then show ?thesis using heap_push_ok [of shortest_work_key id q c] assms
    by (simp add: po_ok_def po_waiting_def po_push_def)
next
  case (LongestPrefixMatch q)
  then show ?thesis
    using heap_push_ok [of prefix_match_key mp_candidate q "\<lparr>mp_matched = ac_resident_prefix c, mp_candidate = c\<rparr>"] assms
    by (simp add: po_ok_def po_waiting_def po_push_def prefix_match_push_def)
qed

lemma po_pop_ok:
  assumes "po_ok p" and "po_waiting p = c # cs"
  shows "\<exists>p'. po_pop p = Some (p', Some c) \<and> po_ok p' \<and> po_waiting p' = cs"
proof (cases p)
  case (SessionStart q)
  then show ?thesis using heap_pop_ok [of session_start_key id q c cs] assms
    by (auto simp: po_ok_def po_waiting_def po_pop_def)
next
  case (Fifo q)
  then show ?thesis using assms by (simp add: po_ok_def po_waiting_def po_pop_def fifo_ok_def fifo_pop_def)
next
  case (ShortestJobFirst q)
  then show ?thesis using heap_pop_ok [of shortest_work_key id q c cs] assms
    by (auto simp: po_ok_def po_waiting_def po_pop_def)
next
  case (LongestPrefixMatch q)
  then obtain e es where "hp_heap q = e # es" "mp_candidate e = c" "map mp_candidate es = cs"
    using assms(2) by (auto simp: po_waiting_def)
  then show ?thesis using LongestPrefixMatch heap_pop_ok [of prefix_match_key mp_candidate q e es] assms(1)
    by (auto simp: po_ok_def po_waiting_def po_pop_def)
qed

lemma po_remove_ok:
  assumes "po_ok p"
  shows "\<exists>p'. po_remove p r = Some (p', find (\<lambda>c. ac_request c = r) (po_waiting p)) \<and> po_ok p'
    \<and> mset (po_waiting p') = filter_mset (\<lambda>c. ac_request c \<noteq> r) (mset (po_waiting p))"
proof (cases p)
  case (SessionStart q)
  then show ?thesis using heap_remove_ok [of session_start_key id q r] assms
    by (auto simp: po_ok_def po_waiting_def po_remove_def option.map_id0)
next
  case (Fifo q)
  then show ?thesis using fifo_remove_ok [of q r] assms
    by (auto simp: po_ok_def po_waiting_def po_remove_def)
next
  case (ShortestJobFirst q)
  then show ?thesis using heap_remove_ok [of shortest_work_key id q r] assms
    by (auto simp: po_ok_def po_waiting_def po_remove_def option.map_id0)
next
  case (LongestPrefixMatch q)
  then obtain q' where "heap_remove prefix_match_key mp_candidate q r
      = Some (q', map_option mp_candidate (find (\<lambda>e. ac_request (mp_candidate e) = r) (hp_heap q)))"
    "heap_ok prefix_match_key mp_candidate q'" "hp_heap q' = filter (\<lambda>e. ac_request (mp_candidate e) \<noteq> r) (hp_heap q)"
    using heap_remove_ok [of prefix_match_key mp_candidate q r] assms by (auto simp: po_ok_def)
  then show ?thesis using LongestPrefixMatch
    by (simp add: po_ok_def po_waiting_def po_remove_def find_of_map filter_mset_image_mset)
qed

lemma po_refresh_ok:
  assumes "po_ok p"
  shows "po_ok (po_refresh_head live p) \<and> mset (po_waiting (po_refresh_head live p)) = mset (po_waiting p)"
  using assms prefix_match_refresh_ok
  by (cases p) (simp_all add: po_ok_def po_waiting_def po_refresh_head_def del: mset_map)

interpretation po: pending_policy po_ok po_waiting po_push po_peek po_pop po_remove po_refresh_head po_queued_kv_tokens
proof
  show "po_peek p = (case po_waiting p of [] \<Rightarrow> None | c # _ \<Rightarrow> Some c)" for p
    by (cases p) (simp_all add: po_peek_def po_waiting_def fifo_peek_def heap_peek_def split: list.split)
  show "po_queued_kv_tokens p = sum_list (map queued_kv_tokens (po_waiting p))" if "po_ok p" for p
    using that by (cases p) (simp_all add: po_ok_def po_waiting_def po_queued_kv_tokens_def heap_ok_def fifo_ok_def comp_def)
  show "distinct (map ac_request (po_waiting p))" if "po_ok p" for p
    using that by (cases p) (simp_all add: po_ok_def po_waiting_def heap_ok_def fifo_ok_def comp_def)
qed (fact po_push_ok po_pop_ok po_remove_ok po_refresh_ok)+

subsection \<open>What the policies guarantee\<close>

text \<open>A policy's life: it starts empty and answers any sequence of calls. \<open>offered\<close> and \<open>handed_back\<close>
  are the requests that went in and came out. The lifecycles push a request once (their debug
  assertion) and every candidate carries a fresh sequence number (\<open>EnqueueSequence\<close>); only a
  retracted one goes to the front.\<close>

definition handed :: "'a option \<Rightarrow> 'a multiset" where
  "handed r = (case r of None \<Rightarrow> {#} | Some c \<Rightarrow> {#c#})"

lemma handed_simps [simp]: "handed None = {#}" "handed (Some c) = {#c#}"
  by (simp_all add: handed_def)

inductive po_run ::
  "AdmissionCandidate multiset \<Rightarrow> PendingOrder \<Rightarrow> AdmissionCandidate multiset \<Rightarrow> bool" where
  created: "po_run {#} (new_pending kind) {#}"
| pushed: "po_run offered p back' \<Longrightarrow> \<not> po_contains p (ac_request c) \<Longrightarrow>
    (\<forall>d. d \<in># offered \<longrightarrow> ac_sequence d < ac_sequence c) \<Longrightarrow>
    po_run (add_mset c offered) (po_push p c) back'"
| pushed_front: "po_run offered p back' \<Longrightarrow> \<not> po_contains p (ac_request c) \<Longrightarrow> ac_retracted c \<Longrightarrow>
    (\<forall>d. d \<in># offered \<longrightarrow> ac_sequence d < ac_sequence c) \<Longrightarrow>
    po_run (add_mset c offered) (po_push_front p c) back'"
| popped: "po_run offered p back' \<Longrightarrow> po_pop p = Some (p', r) \<Longrightarrow>
    po_run offered p' (back' + handed r)"
| removed: "po_run offered p back' \<Longrightarrow> po_remove p request = Some (p', r) \<Longrightarrow>
    po_run offered p' (back' + handed r)"
| refreshed: "po_run offered p back' \<Longrightarrow> po_run offered (po_refresh_head live p) back'"

lemma po_contains_iff: "po_contains p r \<longleftrightarrow> r \<in> ac_request ` set (po_waiting p)"
  by (cases p) (auto simp: po_contains_def po_waiting_def fifo_contains_def heap_contains_def list_ex_iff)

lemma po_len_waiting: "po_len p = length (po_waiting p)"
  by (cases p) (simp_all add: po_len_def po_waiting_def)

lemma po_push_front_ok:
  assumes "po_ok p" and "ac_request c \<notin> ac_request ` set (po_waiting p)"
  shows "po_ok (po_push_front p c) \<and> mset (po_waiting (po_push_front p c)) = add_mset c (mset (po_waiting p))"
proof (cases p)
  case (Fifo q)
  then show ?thesis using assms
    by (simp add: po_ok_def po_waiting_def po_push_front_def fifo_ok_def fifo_push_front_def)
qed (use po_push_ok [OF assms] in \<open>simp_all add: po_push_front_def\<close>)

lemma new_pending_ok: "po_ok (new_pending kind) \<and> po_waiting (new_pending kind) = []"
  by (cases kind) (simp_all add: new_pending_def po_ok_def po_waiting_def new_heap_def new_fifo_def
      heap_ok_def fifo_ok_def)

lemma po_pop_empty:
  assumes "po_waiting p = []" shows "po_pop p = Some (p, None)"
  using assms by (cases p) (simp_all add: po_waiting_def po_pop_def fifo_pop_def heap_pop_def)

lemma po_pop_total:
  assumes "po_ok p"
  shows "\<exists>p' r. po_pop p = Some (p', r) \<and> po_ok p'
    \<and> mset (po_waiting p) = mset (po_waiting p') + handed r"
proof (cases "po_waiting p")
  case Nil
  then show ?thesis using po_pop_empty [OF Nil] assms by simp
next
  case (Cons c cs)
  then show ?thesis using po_pop_ok [OF assms Cons] by auto
qed

lemma find_filter_mset:
  assumes "distinct (map f xs)"
  shows "mset xs = filter_mset (\<lambda>x. f x \<noteq> r) (mset xs) + handed (find (\<lambda>x. f x = r) xs)"
proof (cases "filter (\<lambda>x. f x = r) xs")
  case Nil
  then have "find (\<lambda>x. f x = r) xs = None" by (auto simp: find_None_iff filter_empty_conv)
  then show ?thesis using Nil multiset_partition [of "mset xs" "\<lambda>x. f x = r"] by (simp flip: mset_filter)
next
  case (Cons y ys)
  note u = filter_unique_single [OF assms Cons]
  have "filter_mset (\<lambda>x. f x = r) (mset xs) = {#y#}" using Cons u(2) by (simp flip: mset_filter)
  then show ?thesis using u(1) multiset_partition [of "mset xs" "\<lambda>x. f x = r"] by simp
qed

lemma po_remove_total:
  assumes "po_ok p"
  shows "\<exists>p' r. po_remove p request = Some (p', r) \<and> po_ok p'
    \<and> mset (po_waiting p) = mset (po_waiting p') + handed r"
  using po_remove_ok [OF assms, of request] find_filter_mset [OF po.unique_law [OF assms], of request] by auto

lemma po_run_conserves:
  "po_run offered p back' \<Longrightarrow> po_ok p \<and> offered = mset (po_waiting p) + back'"
proof (induction rule: po_run.induct)
  case (created kind)
  then show ?case using new_pending_ok [of kind] by simp
next
  case (pushed offered p back' c)
  then show ?case using po_push_ok [of p c] by (simp add: po_contains_iff)
next
  case (pushed_front offered p back' c)
  then show ?case using po_push_front_ok [of p c] by (simp add: po_contains_iff)
next
  case (popped offered p back' p' r)
  then show ?case using po_pop_total [of p] by auto
next
  case (removed offered p back' request p' r)
  then show ?case using po_remove_total [of p request] by auto
next
  case (refreshed offered p back' live)
  then show ?case using po_refresh_ok [of p live] by simp
qed

text \<open>The deque is in arrival order but for the retracted requests put back at its front.\<close>

definition before_in_line :: "AdmissionCandidate \<Rightarrow> AdmissionCandidate \<Rightarrow> bool" where
  "before_in_line c d \<longleftrightarrow> ac_sequence c < ac_sequence d \<or> ac_retracted c"

lemma fifo_in_line:
  "po_run offered p back' \<Longrightarrow> p = Fifo q \<Longrightarrow> sorted_wrt before_in_line (ff_queue q)"
proof (induction arbitrary: q rule: po_run.induct)
  case (created kind)
  then show ?case by (cases kind) (auto simp: new_pending_def new_fifo_def)
next
  case (pushed offered p back' c)
  obtain q0 where q0: "p = Fifo q0" "ff_queue q = ff_queue q0 @ [c]"
    using pushed.prems by (cases p) (auto simp: po_push_def fifo_push_def)
  have "\<forall>d \<in> set (ff_queue q0). d \<in># offered"
    using po_run_conserves [OF pushed.hyps(1)] q0(1) by (auto simp: po_waiting_def)
  then show ?case using pushed.IH [OF q0(1)] pushed.hyps(3) q0(2)
    by (auto simp: sorted_wrt_append before_in_line_def)
next
  case (pushed_front offered p back' c)
  obtain q0 where q0: "p = Fifo q0" "ff_queue q = c # ff_queue q0"
    using pushed_front.prems by (cases p) (auto simp: po_push_front_def po_push_def fifo_push_front_def)
  then show ?case using pushed_front.IH [OF q0(1)] pushed_front.hyps(3) by (simp add: before_in_line_def)
next
  case (popped offered p back' p' r)
  obtain q0 where q0: "p = Fifo q0" "fifo_pop q0 = Some (q, r)"
    using popped.hyps(2) popped.prems by (cases p) (auto simp: po_pop_def)
  then have "ff_queue q = tl (ff_queue q0)"
    by (auto simp: fifo_pop_def split: list.splits bind_splits)
  then show ?case using popped.IH [OF q0(1)] by (cases "ff_queue q0") simp_all
next
  case (removed offered p back' request p' r)
  obtain q0 where q0: "p = Fifo q0" "fifo_remove q0 request = Some (q, r)"
    using removed.hyps(2) removed.prems by (cases p) (auto simp: po_remove_def)
  have "fifo_ok q0" using po_run_conserves [OF removed.hyps(1)] q0(1) by (simp add: po_ok_def)
  then have "ff_queue q = filter (\<lambda>c. ac_request c \<noteq> request) (ff_queue q0)"
    using fifo_remove_ok [of q0 request] q0(2) by auto
  then show ?case using removed.IH [OF q0(1)] by (simp add: sorted_wrt_filter)
next
  case (refreshed offered p back' live)
  then show ?case by (cases p) (simp_all add: po_refresh_head_def)
qed

lemma sorted_key_first:
  assumes "sorted (map key es)" and "es = e # es'" and "d \<in> set es"
  shows "key e \<le> key d"
  using assms by auto

text \<open>The comparison each policy makes between its head and any other waiting request.\<close>

definition po_prefers :: "PendingOrder \<Rightarrow> AdmissionCandidate \<Rightarrow> AdmissionCandidate \<Rightarrow> bool" where
  "po_prefers p c d = (case p of
     SessionStart _ \<Rightarrow> ac_start_time c < ac_start_time d
       \<or> ac_start_time c = ac_start_time d \<and> ac_sequence c \<le> ac_sequence d
   | Fifo _ \<Rightarrow> c = d \<or> before_in_line c d
   | ShortestJobFirst _ \<Rightarrow> queued_kv_tokens c < queued_kv_tokens d
       \<or> queued_kv_tokens c = queued_kv_tokens d \<and> ac_sequence c \<le> ac_sequence d
   | LongestPrefixMatch _ \<Rightarrow> True)"

text \<open>C26: In every state a policy can reach, the request it offers is waiting and is preferred to every
  other waiting request: the oldest conversation (ties by arrival) for \<open>SessionStartOrder\<close>, the least
  queued work (ties by arrival) for \<open>ShortestJobFirst\<close>, the earliest arrival for \<open>FifoOrder\<close>, unless
  the head is a retracted request that was put back in front.\<close>

theorem pending_head_preferred:
  assumes "po_run offered p back'" and "po_peek p = Some c" and "d \<in> set (po_waiting p)"
  shows "c \<in> set (po_waiting p) \<and> po_prefers p c d"
proof -
  have ok: "po_ok p" using po_run_conserves [OF assms(1)] by simp
  obtain cs where cs: "po_waiting p = c # cs"
    using po.head_law [OF ok] assms(2) by (cases "po_waiting p") auto
  have "po_prefers p c d"
  proof (cases p)
    case (SessionStart q)
    then have "session_start_key c \<le> session_start_key d"
      using ok cs assms(3) sorted_key_first [of session_start_key "hp_heap q" c cs d]
      by (simp add: po_ok_def po_waiting_def heap_ok_def)
    then show ?thesis using SessionStart by (auto simp: po_prefers_def session_start_key_def)
  next
    case (Fifo q)
    then have "sorted_wrt before_in_line (c # cs)"
      using fifo_in_line [OF assms(1) Fifo] cs by (simp add: po_waiting_def)
    then show ?thesis using Fifo assms(3) cs by (auto simp: po_prefers_def)
  next
    case (ShortestJobFirst q)
    then have "shortest_work_key c \<le> shortest_work_key d"
      using ok cs assms(3) sorted_key_first [of shortest_work_key "hp_heap q" c cs d]
      by (simp add: po_ok_def po_waiting_def heap_ok_def)
    then show ?thesis using ShortestJobFirst by (auto simp: po_prefers_def shortest_work_key_def)
  qed (simp add: po_prefers_def)
  then show ?thesis using cs by simp
qed

definition waiting_early :: AdmissionCandidate where
  "waiting_early = \<lparr>ac_request = 1, ac_sequence = 0, ac_fresh_prompt = 40, ac_remaining_output = 5,
     ac_session = Standalone, ac_start_time = 10, ac_resident_prefix = 32, ac_retracted = False\<rparr>"

definition waiting_late :: AdmissionCandidate where
  "waiting_late = \<lparr>ac_request = 2, ac_sequence = 1, ac_fresh_prompt = 8, ac_remaining_output = 2,
     ac_session = Standalone, ac_start_time = 20, ac_resident_prefix = 16, ac_retracted = False\<rparr>"

definition sample_offers :: "PendingOrderKind \<Rightarrow> PendingOrder" where
  "sample_offers kind = po_push (po_push (new_pending kind) waiting_early) waiting_late"

lemma sample_offers_run: "po_run {#waiting_late, waiting_early#} (sample_offers kind) {#}"
  unfolding sample_offers_def
  by (intro po_run.pushed po_run.created)
    (cases kind; simp add: po_contains_def new_pending_def new_heap_def new_fifo_def po_push_def heap_push_def
      fifo_push_def prefix_match_push_def heap_contains_def fifo_contains_def waiting_early_def waiting_late_def)+

theorem pending_head_preferred_witness:
  "po_prefers (sample_offers ShortestJobFirstKind) waiting_late waiting_early"
proof -
  have "po_peek (sample_offers ShortestJobFirstKind) = Some waiting_late"
    and "waiting_early \<in> set (po_waiting (sample_offers ShortestJobFirstKind))"
    by (simp_all add: sample_offers_def po_peek_def new_pending_def new_heap_def po_push_def heap_push_def
      heap_peek_def po_waiting_def shortest_work_key_def queued_kv_tokens_def waiting_early_def waiting_late_def)
  then show ?thesis using pending_head_preferred [OF sample_offers_run] by blast
qed

text \<open>C27: No policy loses, duplicates or invents a request, and none of its calls fails: what was offered
  is what still waits plus what was handed back, and the length, the queued-token total and the
  membership test all describe exactly that difference.\<close>

theorem pending_conserved:
  assumes "po_run offered p back'"
  shows "back' \<subseteq># offered \<and> mset (po_waiting p) = offered - back'
    \<and> po_len p = size offered - size back'
    \<and> po_queued_kv_tokens p = sum_mset (image_mset queued_kv_tokens (offered - back'))
    \<and> (po_contains p request \<longleftrightarrow> request \<in># image_mset ac_request (offered - back'))
    \<and> po_pop p \<noteq> None \<and> po_remove p request \<noteq> None"
proof -
  have ok: "po_ok p" and o: "offered = mset (po_waiting p) + back'"
    using po_run_conserves [OF assms] by simp_all
  have w: "mset (po_waiting p) = offered - back'" using o by simp
  have calls: "po_pop p \<noteq> None" "po_remove p request \<noteq> None"
    using po_pop_total [OF ok] po_remove_total [OF ok, of request] by auto
  have len: "po_len p = size offered - size back'" by (simp add: po_len_waiting o)
  have "po_contains p request \<longleftrightarrow> request \<in># image_mset ac_request (offered - back')"
    unfolding po_contains_iff w [symmetric] by simp
  moreover have "po_queued_kv_tokens p = sum_mset (image_mset queued_kv_tokens (offered - back'))"
    unfolding w [symmetric] by (rule po.tokens_mset [OF ok])
  moreover have "back' \<subseteq># offered" by (simp add: o)
  ultimately show ?thesis using w calls len by blast
qed

theorem pending_conserved_witness:
  "po_queued_kv_tokens (sample_offers FifoKind) = sum_mset (image_mset queued_kv_tokens {#waiting_late, waiting_early#})"
  using pending_conserved [OF sample_offers_run [of FifoKind], of 1] by simp

text \<open>C25: While every cached match length is an upper bound of the live one, reconciling only the head of the
  prefix-match queue is exact: the request it then offers has the longest resident prefix of all waiting
  requests, the earliest arrival among equals, and the cached lengths are still upper bounds.\<close>

theorem refresh_head_exact:
  assumes "heap_ok prefix_match_key mp_candidate q"
    and "\<forall>e \<in> set (hp_heap q). live (mp_candidate e) \<le> mp_matched e"
    and "po_peek (po_refresh_head live (LongestPrefixMatch q)) = Some c"
    and "d \<in> set (po_waiting (LongestPrefixMatch q))"
  shows "c \<in> set (po_waiting (LongestPrefixMatch q))
    \<and> (live d < live c \<or> live d = live c \<and> ac_sequence c \<le> ac_sequence d)
    \<and> (\<forall>e \<in> set (hp_heap (prefix_match_refresh live q)). live (mp_candidate e) \<le> mp_matched e)"
proof -
  let ?es = "refresh_heap live (hp_heap q)"
  obtain e es where es: "?es = e # es" and c: "c = mp_candidate e"
    using assms(3) by (cases "?es") (auto simp: po_peek_def po_refresh_head_def heap_peek_def prefix_match_refresh_def)
  have bounds: "\<forall>e \<in> set ?es. live (mp_candidate e) \<le> mp_matched e" by (rule refresh_heap_bounds [OF assms(2)])
  have exact: "mp_matched e = live c"
    using refresh_heap_exact_at_head [OF es] bounds es c by (simp add: le_antisym)
  have same: "set (map mp_candidate ?es) = mp_candidate ` set (hp_heap q)"
    using arg_cong [OF refresh_heap_mset, of set_mset] by simp
  then obtain e' where e': "e' \<in> set ?es" "d = mp_candidate e'" using assms(4) by (auto simp: po_waiting_def)
  have "sorted (map prefix_match_key ?es)"
    using assms(1) by (simp add: heap_ok_def refresh_heap_sorted)
  then have "prefix_match_key e \<le> prefix_match_key e'" by (rule sorted_key_first [OF _ es e'(1)])
  then have "live d < live c \<or> live d = live c \<and> ac_sequence c \<le> ac_sequence d"
    using exact bounds e' c by (force simp: prefix_match_key_def)
  moreover have "c \<in> set (po_waiting (LongestPrefixMatch q))" using same es c by (simp add: po_waiting_def) blast
  ultimately show ?thesis using bounds by (simp add: prefix_match_refresh_def)
qed

text \<open>The first request's prefix of 32 tokens was evicted down to 8 while it waited.\<close>

theorem refresh_head_exact_witness:
  "po_peek (po_refresh_head (\<lambda>c. if ac_request c = 1 then 8 else 16) (sample_offers LongestPrefixMatchKind))
     = Some waiting_late
   \<and> (if ac_request waiting_early = 1 then 8 else 16) < (if ac_request waiting_late = 1 then 8 else (16 :: nat))"
proof -
  let ?live = "\<lambda>c. if ac_request c = 1 then 8 else 16 :: nat"
  let ?q = "\<lparr>hp_heap = [\<lparr>mp_matched = 32, mp_candidate = waiting_early\<rparr>,
      \<lparr>mp_matched = 16, mp_candidate = waiting_late\<rparr>], hp_tokens = 55\<rparr>"
  have q: "sample_offers LongestPrefixMatchKind = LongestPrefixMatch ?q"
    by (simp add: sample_offers_def new_pending_def new_heap_def po_push_def heap_push_def prefix_match_push_def
      prefix_match_key_def waiting_early_def waiting_late_def queued_kv_tokens_def
      declared_prefix_tokens_def)
  have ok: "heap_ok prefix_match_key mp_candidate ?q"
    by (simp add: heap_ok_def prefix_match_key_def waiting_early_def waiting_late_def queued_kv_tokens_def
      declared_prefix_tokens_def)
  have bound: "\<forall>e \<in> set (hp_heap ?q). ?live (mp_candidate e) \<le> mp_matched e"
    by (simp add: waiting_early_def waiting_late_def)
  have head: "po_peek (po_refresh_head ?live (LongestPrefixMatch ?q)) = Some waiting_late"
    by (simp add: po_refresh_head_def po_peek_def heap_peek_def prefix_match_refresh_def prefix_match_key_def
      waiting_early_def waiting_late_def)
  have "waiting_early \<in> set (po_waiting (LongestPrefixMatch ?q))" by (simp add: po_waiting_def)
  then have "?live waiting_early < ?live waiting_late
      \<or> ?live waiting_early = ?live waiting_late \<and> ac_sequence waiting_late \<le> ac_sequence waiting_early"
    using refresh_head_exact [OF ok bound head] by blast
  then have "?live waiting_early < ?live waiting_late" by (simp add: waiting_early_def waiting_late_def)
  then show ?thesis using head q by simp
qed

end
