(* ===== verification/Admission_Gates.thy ===== *)
theory Admission_Gates
  imports Kv_Store
begin

section \<open>Admission gates (\<open>token_budget.rs\<close>, \<open>placement.rs\<close>, chunk sizes of \<open>chunked_prefill_admission.rs\<close>)\<close>

text \<open>
  The pure decisions an admission lifecycle takes before it touches the KV store: whether a prefill fits
  the token budget of an iteration, which partition a request goes to, and how long the next chunk of a
  prompt may be. Floating point is the parameter \<open>f\<close> of \<open>float_ops\<close>.
\<close>

subsection \<open>The token budget\<close>

definition prefill_fits_budget :: "nat \<Rightarrow> nat \<Rightarrow> nat \<Rightarrow> nat \<Rightarrow> bool" where
  "prefill_fits_budget budget decode_tokens admitted next =
     (let prefill_budget = budget - decode_tokens;
          fits' = (case checked_add_u32 admitted next of None \<Rightarrow> False | Some t \<Rightarrow> t \<le> prefill_budget);
          force_first = (admitted = 0 \<and> prefill_budget > 0 \<and> next > prefill_budget)
      in fits' \<or> force_first)"

subsection \<open>Placement\<close>

text \<open>The cast \<open>x as u16\<close>.\<close>

definition as_u16 :: "nat \<Rightarrow> nat" where
  "as_u16 n = n mod 65536"

datatype LoadBalance = Single | RoundRobin nat | LeastLoaded nat

record 'f PartitionLoad =
  ld_waiting :: nat
  ld_running :: nat
  ld_kv_usage :: 'f

definition vllm_score :: "'f float_ops \<Rightarrow> 'f PartitionLoad \<Rightarrow> 'f" where
  "vllm_score f l =
     (let score = f_add f (f_of_nat f (ld_waiting l)) (f_of_nat f (ld_running l))
      in if 0 < ld_waiting l
         then f_add f score (f_mul f (f_mul f (f_of_nat f (ld_waiting l)) (f_of_nat f 6))
                (f_max f (f_sub f (ld_kv_usage l) (f_div f (f_of_nat f 1) (f_of_nat f 2))) (f_of_nat f 0)))
         else score)"

text \<open>\<open>LoadBalance::choose\<close> takes the balance by \<open>&mut\<close>: it returns the partition and the balance it leaves.\<close>

definition choose_partition :: "LoadBalance \<Rightarrow> nat \<Rightarrow> (LoadBalance \<times> nat) option" where
  "choose_partition b n = (case b of
     Single \<Rightarrow> Some (Single, 0)
   | RoundRobin next \<Rightarrow> do {
       assert_that (0 < n);
       Some (RoundRobin (as_u16 ((next + 1) mod n)), next mod n)
     }
   | LeastLoaded _ \<Rightarrow> None)"

definition needs_load :: "LoadBalance \<Rightarrow> bool" where
  "needs_load b = (case b of LeastLoaded _ \<Rightarrow> True | _ \<Rightarrow> False)"

text \<open>The scan over the partitions, from \<open>start\<close> around; \<open>best\<close> and its score so far are carried.\<close>

fun scan_loads :: "'f float_ops \<Rightarrow> 'f PartitionLoad list \<Rightarrow> nat \<Rightarrow> nat list \<Rightarrow> nat \<times> 'f \<Rightarrow> nat" where
  "scan_loads f loads start [] (best, _) = best"
| "scan_loads f loads start (offset # offsets) (best, best_score) =
     (let partition = (start + offset) mod length loads;
          score = vllm_score f (loads ! partition)
      in scan_loads f loads start offsets
           (if f_lt f score best_score then (partition, score) else (best, best_score)))"

definition choose_by_load ::
  "'f float_ops \<Rightarrow> 'f \<Rightarrow> LoadBalance \<Rightarrow> 'f PartitionLoad list \<Rightarrow> (LoadBalance \<times> nat) option" where
  "choose_by_load f infinity b loads = (case b of
     LeastLoaded next \<Rightarrow> do {
       assert_that (loads \<noteq> []);
       let n = length loads;
       let start = next mod n;
       Some (LeastLoaded (as_u16 ((start + 1) mod n)), scan_loads f loads start [0..<n] (start, infinity))
     }
   | _ \<Rightarrow> choose_partition b (length loads))"

subsection \<open>Chunk sizes\<close>

record ChunkEndAlignment =
  quantum :: nat
  last_checkpoint_one_block_early :: bool

definition on_blocks :: "nat \<Rightarrow> ChunkEndAlignment" where
  "on_blocks q = \<lparr>quantum = q, last_checkpoint_one_block_early = False\<rparr>"

text \<open>The sums and the next boundary are \<open>u32\<close>: an overflow, like a zero quantum, is the panic \<open>None\<close>.\<close>

definition checkpoint_aligned_chunk_tokens ::
  "nat \<Rightarrow> nat \<Rightarrow> nat \<Rightarrow> ChunkEndAlignment \<Rightarrow> nat \<Rightarrow> nat option" where
  "checkpoint_aligned_chunk_tokens start prefill_end chunk_tokens a max_chunk_tokens =
     (let q = quantum a
      in if chunk_tokens = 0 \<or> start \<ge> prefill_end then Some chunk_tokens
         else do {
           end0 \<leftarrow> checked_add_u32 start chunk_tokens;
           assert_that (0 < q);
           let aligned_end = end0 div q * q;
           let end1 = (if end0 < prefill_end \<and> (aligned_end > start \<or> q \<le> max_chunk_tokens)
                       then aligned_end else end0);
           next_boundary \<leftarrow> try_u32 ((start div q + 1) * q);
           let last_boundary = prefill_end div q * q - (if last_checkpoint_one_block_early a then q else 0);
           let stops = filter (\<lambda>stop. start < stop \<and> stop < end1)
             ((if start mod q \<noteq> 0 then [next_boundary] else []) @ [last_boundary]);
           Some ((case stops of [] \<Rightarrow> end1 | stop # rest \<Rightarrow> fold min rest stop) - start)
         })"

definition next_chunk_tokens :: "ResolvedPrefill \<Rightarrow> nat \<Rightarrow> ChunkEndAlignment option \<Rightarrow> nat \<Rightarrow> nat option" where
  "next_chunk_tokens c budget alignment max_chunk_tokens =
     (let remaining = remaining_prefill_tokens c;
          chunk_tokens = min remaining budget
      in case alignment of
           None \<Rightarrow> Some chunk_tokens
         | Some a \<Rightarrow> do {
             let start = fst (active_chunk c);
             prefill_end \<leftarrow> checked_add_u32 start remaining;
             checkpoint_aligned_chunk_tokens start prefill_end chunk_tokens a max_chunk_tokens
           })"

text \<open>The quantum of a worker (\<open>iter_build_essentials.rs\<close>): configured, or the engine's default, and only
  with the prefix cache on.\<close>

datatype PrefillChunkAlignment = Checkpoint | Plain

definition prefill_chunk_end_quantum ::
  "KvAccounting \<Rightarrow> PrefillChunkAlignment option \<Rightarrow> PrefixCacheConfig \<Rightarrow> nat option" where
  "prefill_chunk_end_quantum acc alignment cache =
     (let aligns = (case alignment of Some al \<Rightarrow> al = Checkpoint | None \<Rightarrow> aligns_chunks_by_default acc)
      in case checkpoint_block_tokens acc of
           None \<Rightarrow> None
         | Some q \<Rightarrow> if aligns \<and> cache_enabled cache then Some q else None)"

subsection \<open>Whole prefills never overrun the budget\<close>

text \<open>The prefills one partition admits while a batch is formed, in order, each passing the gate.\<close>

fun accepted_prefills :: "nat \<Rightarrow> nat \<Rightarrow> nat \<Rightarrow> nat list \<Rightarrow> bool" where
  "accepted_prefills budget decode_tokens admitted [] = True"
| "accepted_prefills budget decode_tokens admitted (n # ns) =
     (prefill_fits_budget budget decode_tokens admitted n
      \<and> accepted_prefills budget decode_tokens (admitted + n) ns)"

lemma prefill_fits_budget_iff:
  "budget \<le> u32_max \<Longrightarrow> prefill_fits_budget budget d admitted n \<longleftrightarrow>
     admitted + n \<le> budget - d \<or> admitted = 0 \<and> d < budget \<and> budget - d < n"
  by (auto simp: prefill_fits_budget_def checked_add_u32_def Let_def)

lemma accepted_within:
  "budget \<le> u32_max \<Longrightarrow> 0 < admitted \<Longrightarrow> accepted_prefills budget d admitted ns \<Longrightarrow>
     ns \<noteq> [] \<longrightarrow> admitted + sum_list ns \<le> budget - d"
proof (induction ns arbitrary: admitted)
  case (Cons n ns)
  then have "admitted + n \<le> budget - d" "accepted_prefills budget d (admitted + n) ns"
    by (simp_all add: prefill_fits_budget_iff)
  then show ?case using Cons.IH [of "admitted + n"] Cons.prems(1,2) by (cases ns) (auto simp: add.assoc)
qed simp

text \<open>In one iteration a partition's whole prefills stay, together with its decode tokens, within the
  token budget, except that a single over-long prefill may run, and then it is the only one with any
  tokens; none runs when the decodes use the whole budget. And the gate cannot starve a prompt: with no
  prefill admitted yet and budget left it accepts any length.\<close>

theorem accepted_prefills_within_budget:
  assumes "budget \<le> u32_max"
  shows "(accepted_prefills budget d 0 ns \<longrightarrow>
        sum_list ns \<le> budget - d \<or> d < budget \<and> (\<exists>k n. ns = replicate k 0 @ [n]))
    \<and> (d < budget \<longrightarrow> prefill_fits_budget budget d 0 n)"
proof -
  have "sum_list ns \<le> budget - d \<or> d < budget \<and> (\<exists>k n. ns = replicate k 0 @ [n])"
    if "accepted_prefills budget d 0 ns"
    using that
  proof (induction ns)
    case (Cons n ns)
    then have gate: "n \<le> budget - d \<or> d < budget \<and> budget - d < n"
      and rest: "accepted_prefills budget d n ns" using assms by (simp_all add: prefill_fits_budget_iff)
    show ?case
    proof (cases "n = 0")
      case True
      then have ih: "sum_list ns \<le> budget - d \<or> d < budget \<and> (\<exists>k n. ns = replicate k 0 @ [n])"
        using Cons.IH rest by simp
      show ?thesis
      proof (cases "sum_list ns \<le> budget - d")
        case False
        then obtain k m where "d < budget" "ns = replicate k 0 @ [m]" using ih by auto
        then have "n # ns = replicate (Suc k) 0 @ [m]" using True by simp
        then show ?thesis using \<open>d < budget\<close> by blast
      qed (use True in simp)
    next
      case False
      show ?thesis
      proof (cases "ns = []")
        case True
        then have "n # ns = replicate 0 0 @ [n]" by simp
        then show ?thesis using gate False by (cases "n \<le> budget - d") auto
      next
        case ns: False
        then show ?thesis using accepted_within [OF assms _ rest] False by simp
      qed
    qed
  qed simp
  then show ?thesis using assms by (auto simp: prefill_fits_budget_iff)
qed

theorem accepted_prefills_within_budget_witness:
  "accepted_prefills 20 4 0 [8, 8] \<and> sum_list [8, 8] \<le> (20 :: nat) - 4"
proof -
  have run: "accepted_prefills 20 4 0 [8, 8]"
    by (simp add: prefill_fits_budget_def checked_add_u32_def u32_max_def)
  then have "sum_list [8, 8] \<le> (20 :: nat) - 4 \<or> (\<exists>k n. [8, 8] = replicate k (0 :: nat) @ [n])"
    using accepted_prefills_within_budget [of 20 4 "[8, 8]"] by (auto simp: u32_max_def)
  then show ?thesis using run by simp
qed

subsection \<open>The least loaded partition\<close>

definition scan_score :: "'f float_ops \<Rightarrow> 'f PartitionLoad list \<Rightarrow> nat \<Rightarrow> nat \<Rightarrow> 'f" where
  "scan_score f loads start j = vllm_score f (loads ! ((start + j) mod length loads))"

lemma scan_loads_split:
  fixes f :: "'f::linorder float_ops"
  assumes "f_lt f = (<)"
  shows "scan_loads f loads start offsets (best, bs) = best \<and> (\<forall>o' \<in> set offsets. bs \<le> scan_score f loads start o')
    \<or> (\<exists>ys o' zs. offsets = ys @ o' # zs \<and> scan_loads f loads start offsets (best, bs) = (start + o') mod length loads
        \<and> scan_score f loads start o' < bs \<and> (\<forall>y \<in> set ys. scan_score f loads start o' < scan_score f loads start y) \<and> (\<forall>z \<in> set zs. scan_score f loads start o' \<le> scan_score f loads start z))"
proof (induction offsets arbitrary: best bs)
  case (Cons x xs)
  let ?p = "(start + x) mod length loads"
  show ?case
  proof (cases "scan_score f loads start x < bs")
    case True
    then have step: "scan_loads f loads start (x # xs) (best, bs) = scan_loads f loads start xs (?p, scan_score f loads start x)"
      by (simp add: assms scan_score_def Let_def)
    show ?thesis
      using Cons.IH [of ?p "scan_score f loads start x"]
    proof (elim disjE exE conjE)
      assume "scan_loads f loads start xs (?p, scan_score f loads start x) = ?p" "\<forall>o' \<in> set xs. scan_score f loads start x \<le> scan_score f loads start o'"
      then show ?thesis using True step by (intro disjI2 exI [of _ "[]"] exI [of _ x] exI [of _ xs]) simp
    next
      fix ys o' zs
      assume "xs = ys @ o' # zs" "scan_loads f loads start xs (?p, scan_score f loads start x) = (start + o') mod length loads"
        "scan_score f loads start o' < scan_score f loads start x" "\<forall>y \<in> set ys. scan_score f loads start o' < scan_score f loads start y" "\<forall>z \<in> set zs. scan_score f loads start o' \<le> scan_score f loads start z"
      then show ?thesis using True step by (intro disjI2 exI [of _ "x # ys"] exI [of _ o'] exI [of _ zs]) auto
    qed
  next
    case False
    then have step: "scan_loads f loads start (x # xs) (best, bs) = scan_loads f loads start xs (best, bs)"
      by (simp add: assms scan_score_def Let_def)
    show ?thesis
      using Cons.IH [of best bs]
    proof (elim disjE exE conjE)
      assume "scan_loads f loads start xs (best, bs) = best" "\<forall>o' \<in> set xs. bs \<le> scan_score f loads start o'"
      then show ?thesis using False step by auto
    next
      fix ys o' zs
      assume "xs = ys @ o' # zs" "scan_loads f loads start xs (best, bs) = (start + o') mod length loads"
        "scan_score f loads start o' < bs" "\<forall>y \<in> set ys. scan_score f loads start o' < scan_score f loads start y" "\<forall>z \<in> set zs. scan_score f loads start o' \<le> scan_score f loads start z"
      then show ?thesis using False step by (intro disjI2 exI [of _ "x # ys"] exI [of _ o'] exI [of _ zs]) auto
    qed
  qed
qed simp

text \<open>Load-aware placement picks a partition of least score, the first one in the scan that starts at
  the rotating index, and moves that index to the partition after its old value; the choice is a partition
  of the store. Comparison of scores is the order of the floating-point numbers, all of them finite.\<close>

theorem least_loaded_choice:
  assumes "f_lt f = (<)" and "loads \<noteq> []" and "length loads \<le> u16_max"
    and "\<forall>l \<in> set loads. vllm_score f l < (infinity :: 'f::linorder)"
  shows "\<exists>k < length loads. choose_by_load f infinity (LeastLoaded start) loads
      = Some (LeastLoaded ((start mod length loads + 1) mod length loads), (start mod length loads + k) mod length loads)
    \<and> (\<forall>l \<in> set loads. scan_score f loads (start mod length loads) k \<le> vllm_score f l)
    \<and> (\<forall>j < k. scan_score f loads (start mod length loads) k < scan_score f loads (start mod length loads) j)"
proof -
  let ?n = "length loads" and ?s = "start mod length loads"
  let ?sc = "scan_score f loads ?s"
  have n: "0 < ?n" using assms(2) by simp
  have finite: "?sc j < infinity" for j using assms(4) n by (simp add: scan_score_def)
  have "\<not> (\<forall>j \<in> set [0..<?n]. infinity \<le> ?sc j)"
    using finite [of 0] n by (auto simp: not_le intro!: exI [of _ "0 :: nat"] bexI [of _ 0])
  then obtain ys k zs where split: "[0..<?n] = ys @ k # zs"
    and pick: "scan_loads f loads ?s [0..<?n] (?s, infinity) = (?s + k) mod ?n"
    and before: "\<forall>y \<in> set ys. ?sc k < ?sc y" and after: "\<forall>z \<in> set zs. ?sc k \<le> ?sc z"
    using scan_loads_split [OF assms(1), of loads ?s "[0..<?n]" ?s infinity] by blast
  have len: "length ys < ?n" using arg_cong [OF split, of length] by simp
  have k: "k = length ys" using arg_cong [OF split, of "\<lambda>xs. xs ! length ys"] len by simp
  have ys: "ys = [0..<k]"
    using arg_cong [OF split, of "take k"] len k by (simp add: take_upt)
  have all: "?sc k \<le> ?sc j" if "j < ?n" for j
  proof -
    have "j \<in> set (ys @ k # zs)" using that by (simp flip: split)
    then show ?thesis using before after by (auto intro: less_imp_le)
  qed
  have "?sc k \<le> vllm_score f l" if l: "l \<in> set loads" for l
  proof -
    obtain i where i: "i < ?n" "l = loads ! i" using l by (auto simp: in_set_conv_nth)
    have "(?s + (i + ?n - ?s) mod ?n) mod ?n = i"
      using i(1) mod_less_divisor [OF n, of start]
      by (simp add: mod_add_right_eq add.commute [of _ i])
    then show ?thesis using all [of "(i + ?n - ?s) mod ?n"] i(2) n by (simp add: scan_score_def)
  qed
  moreover have u16: "as_u16 ((?s + 1) mod ?n) = (?s + 1) mod ?n"
    unfolding as_u16_def by (rule mod_less) (use assms(3) mod_less_divisor [OF n, of "?s + 1"] in \<open>simp add: u16_max_def\<close>)
  have "choose_by_load f infinity (LeastLoaded start) loads = Some (LeastLoaded ((?s + 1) mod ?n), (?s + k) mod ?n)"
    unfolding choose_by_load_def LoadBalance.case Let_def u16 pick using assms(2) by simp
  moreover have "\<forall>j < k. ?sc k < ?sc j" using before ys by simp
  moreover have "k < ?n" using len k by simp
  ultimately show ?thesis by blast
qed

text \<open>Three engines with scores 10, 8 and 8, over exact rationals scaled by two.\<close>

definition int_floats :: "int float_ops" where
  "int_floats = \<lparr>f_of_nat = int, f_add = (+), f_sub = (-), f_mul = (*), f_div = (div), f_max = max,
     f_min = min, f_lt = (<)\<rparr>"

definition sample_loads :: "int PartitionLoad list" where
  "sample_loads = [\<lparr>ld_waiting = 2, ld_running = 2, ld_kv_usage = 1\<rparr>,
    \<lparr>ld_waiting = 0, ld_running = 8, ld_kv_usage = 1\<rparr>, \<lparr>ld_waiting = 0, ld_running = 8, ld_kv_usage = 1\<rparr>]"

theorem least_loaded_choice_witness:
  "\<exists>k < length sample_loads. \<forall>l \<in> set sample_loads.
     scan_score int_floats sample_loads (1 mod length sample_loads) k \<le> vllm_score int_floats l"
proof -
  have "f_lt int_floats = (<)" by (simp add: int_floats_def)
  moreover have "sample_loads \<noteq> []" "length sample_loads \<le> u16_max"
    by (simp_all add: sample_loads_def u16_max_def)
  moreover have "\<forall>l \<in> set sample_loads. vllm_score int_floats l < 1000"
    by (simp add: sample_loads_def vllm_score_def int_floats_def Let_def)
  ultimately show ?thesis using least_loaded_choice by blast
qed

subsection \<open>Chunks end on checkpoint boundaries\<close>

text \<open>The last checkpoint a prompt may leave, and the stop list as a whole.\<close>

definition last_checkpoint :: "ChunkEndAlignment \<Rightarrow> nat \<Rightarrow> nat" where
  "last_checkpoint a prefill_end =
     prefill_end div quantum a * quantum a - (if last_checkpoint_one_block_early a then quantum a else 0)"

lemma last_checkpoint_dvd: "quantum a dvd last_checkpoint a e"
  by (simp add: last_checkpoint_def)

lemma next_boundary_dvd: "q dvd (start div q + 1) * q" for q :: nat
  by simp

lemma fold_min_mem: "fold min xs (x :: nat) \<in> set (x # xs)"
  by (induction xs arbitrary: x) (auto simp: min_def)

lemma fold_min_le: "y \<in> set (x # xs) \<Longrightarrow> fold min xs (x :: nat) \<le> y"
  by (subst Min.set_eq_fold [symmetric]) simp

lemma earliest_stop:
  assumes "stops' = filter (\<lambda>stop. start < stop \<and> stop < end') stops"
  defines "stop \<equiv> (case stops' of [] \<Rightarrow> end' | s # rest \<Rightarrow> fold min rest s) :: nat"
  shows "stop \<le> end'" and "stop = end' \<or> stop \<in> set stops \<and> start < stop \<and> stop < end'"
    and "s \<in> set stops \<Longrightarrow> start < s \<Longrightarrow> stop \<le> s"
proof -
  show mem: "stop = end' \<or> stop \<in> set stops \<and> start < stop \<and> stop < end'"
  proof (cases stops')
    case (Cons s rest)
    then have "stop \<in> set stops'" using fold_min_mem [of rest s] by (simp add: stop_def)
    then show ?thesis using assms(1) by auto
  qed (simp add: stop_def)
  then show "stop \<le> end'" by auto
  show "stop \<le> s" if s: "s \<in> set stops" "start < s"
  proof (cases "s < end'")
    case True
    then have "s \<in> set stops'" using s assms(1) by simp
    then show ?thesis using fold_min_le by (cases stops') (auto simp: stop_def)
  next
    case False
    then show ?thesis using mem by auto
  qed
qed

text \<open>The length of a chunk whose sums do not overflow.\<close>

definition clipped_chunk :: "nat \<Rightarrow> nat \<Rightarrow> nat \<Rightarrow> ChunkEndAlignment \<Rightarrow> nat \<Rightarrow> nat" where
  "clipped_chunk start prefill_end n a cap =
     (let q = quantum a;
          end1 = (if start + n < prefill_end \<and> ((start + n) div q * q > start \<or> q \<le> cap) then (start + n) div q * q else start + n)
      in (case filter (\<lambda>stop. start < stop \<and> stop < end1)
            ((if start mod q \<noteq> 0 then [(start div q + 1) * q] else []) @ [last_checkpoint a prefill_end])
          of [] \<Rightarrow> end1 | stop # rest \<Rightarrow> fold min rest stop) - start)"

lemma aligned_chunk_eq:
  assumes "0 < n" and "start + n \<le> prefill_end" and "prefill_end \<le> u32_max" and "0 < quantum a"
  shows "checkpoint_aligned_chunk_tokens start prefill_end n a cap
    = (if (start div quantum a + 1) * quantum a \<le> u32_max then Some (clipped_chunk start prefill_end n a cap) else None)"
proof -
  have cond: "\<not> (n = 0 \<or> start \<ge> prefill_end)" using assms(1,2) by simp
  have sum: "checked_add_u32 start n = Some (start + n)" using assms(2,3) by (simp add: checked_add_u32_def)
  have go: "assert_that (0 < quantum a) = Some ()" using assms(4) by (simp add: assert_that_def)
  show ?thesis
    unfolding checkpoint_aligned_chunk_tokens_def clipped_chunk_def last_checkpoint_def Let_def if_not_P [OF cond] sum go try_u32_def
    by (cases "(start div quantum a + 1) * quantum a \<le> u32_max") (simp_all only: if_True if_False Option.bind.simps)
qed

lemma next_chunk_eq:
  assumes "prefill_ok c" and "0 < min (remaining_prefill_tokens c) budget" and "0 < quantum a"
  shows "next_chunk_tokens c budget (Some a) cap = (if (fst (active_chunk c) div quantum a + 1) * quantum a \<le> u32_max
    then Some (clipped_chunk (fst (active_chunk c)) (fst (active_chunk c) + remaining_prefill_tokens c)
      (min (remaining_prefill_tokens c) budget) a cap) else None)"
proof -
  have "fst (active_chunk c) + remaining_prefill_tokens c \<le> u32_max"
    using assms(1) by (auto simp: prefill_ok_def active_chunk_def remaining_prefill_tokens_def)
  then show ?thesis using aligned_chunk_eq [OF assms(2) _ _ assms(3)]
    by (simp add: next_chunk_tokens_def checked_add_u32_def Let_def)
qed

text \<open>The end of a chunk, before and after the stops.\<close>

lemma aligned_chunk_end:
  fixes cap start prefill_end n :: nat and a :: ChunkEndAlignment
  assumes "0 < n" and "start + n \<le> prefill_end" and "0 < quantum a"
  defines "q \<equiv> quantum a" and "m \<equiv> clipped_chunk start prefill_end n a cap"
  shows "m \<le> n"
    and "start < last_checkpoint a prefill_end \<Longrightarrow> 0 < m \<Longrightarrow> start + m \<le> last_checkpoint a prefill_end"
    and "0 < m \<Longrightarrow> start + m < prefill_end \<Longrightarrow> q dvd start + m \<or> cap < q \<and> (\<forall>b. q dvd b \<longrightarrow> start < b \<longrightarrow> start + n < b)"
    and "q \<le> n \<or> cap < q \<or> start + n = prefill_end \<Longrightarrow> 0 < m"
    and "start mod q \<noteq> 0 \<Longrightarrow> 0 < m \<Longrightarrow> start + m \<le> (start div q + 1) * q"
proof -
  define end1 where "end1 = (if start + n < prefill_end \<and> ((start + n) div q * q > start \<or> q \<le> cap)
    then (start + n) div q * q else start + n)"
  define stops where "stops = (if start mod q \<noteq> 0 then [(start div q + 1) * q] else []) @ [last_checkpoint a prefill_end]"
  define stop where "stop = (case filter (\<lambda>s. start < s \<and> s < end1) stops of [] \<Rightarrow> end1 | s # rest \<Rightarrow> fold min rest s)"
  have m: "m = stop - start" unfolding m_def clipped_chunk_def Let_def stop_def stops_def end1_def q_def by (rule refl)
  note es = earliest_stop [OF refl, where start = start and end' = end1 and stops = stops, folded stop_def]
  have q: "0 < q" using assms(3) by (simp add: q_def)
  have e1: "end1 \<le> start + n" by (simp add: end1_def div_times_less_eq_dividend)
  show "m \<le> n" using es(1) e1 m by simp
  show "start + m \<le> last_checkpoint a prefill_end" if "start < last_checkpoint a prefill_end" "0 < m"
    using es(3) [of "last_checkpoint a prefill_end"] that m by (simp add: stops_def)
  show "start + m \<le> (start div q + 1) * q" if "start mod q \<noteq> 0" "0 < m"
  proof -
    have "start < (start div q + 1) * q"
    proof -
      have "start div q * q + start mod q = start" by simp
      moreover have "(start div q + 1) * q = start div q * q + q" by simp
      ultimately show ?thesis using mod_less_divisor [OF q, of start] by linarith
    qed
    then show ?thesis using es(3) [of "(start div q + 1) * q"] that m by (simp add: stops_def)
  qed
  show "q dvd start + m \<or> cap < q \<and> (\<forall>b. q dvd b \<longrightarrow> start < b \<longrightarrow> start + n < b)"
    if mpos: "0 < m" and more: "start + m < prefill_end"
  proof (cases "stop = end1")
    case False
    then have "q dvd stop" using es(2) last_checkpoint_dvd [of a prefill_end] by (auto simp: stops_def q_def split: if_splits)
    then show ?thesis using m mpos by simp
  next
    case True
    show ?thesis
    proof (cases "start + n < prefill_end \<and> ((start + n) div q * q > start \<or> q \<le> cap)")
      case inside: True
      then have "q dvd end1" by (simp add: end1_def)
      then show ?thesis using m mpos True by simp
    next
      case outside: False
      then have "end1 = start + n" unfolding end1_def by (rule if_not_P)
      then have lt: "start + n < prefill_end" using more m True mpos by simp
      then have cap: "cap < q" and low: "(start + n) div q * q \<le> start" using outside by auto
      have "start + n < b" if b: "q dvd b" "start < b" for b
      proof (rule ccontr)
        assume "\<not> start + n < b"
        then have "b \<le> (start + n) div q * q" using b(1) by (metis dvd_div_mult_self div_le_mono mult_le_mono1 not_less)
        then show False using b(2) low by simp
      qed
      then show ?thesis using cap by blast
    qed
  qed
  show "0 < m" if "q \<le> n \<or> cap < q \<or> start + n = prefill_end"
  proof -
    have "start < end1"
    proof (cases "start + n < prefill_end \<and> ((start + n) div q * q > start \<or> q \<le> cap)")
      case True
      show ?thesis
      proof (cases "(start + n) div q * q > start")
        case False
        then have "q \<le> n" using True that by auto
        then have "start < (start + n) div q * q"
          using div_mult_mod_eq [of "start + n" q] mod_less_divisor [OF q, of "start + n"] by linarith
        then show ?thesis using True by (simp add: end1_def)
      qed (use True in \<open>simp add: end1_def\<close>)
    qed (use assms(1) in \<open>auto simp: end1_def\<close>)
    then show ?thesis using es(2) m by auto
  qed
qed

text \<open>C30: The chunk a prompt runs next is determined unless the boundary after the prompt's position exceeds 32 bits (then
  the code panics). It fits the budget and the rest of the prompt, so scheduling it cannot
  fail; it stops at the prompt's last checkpoint before running past it; and a chunk that does not finish the
  prompt ends on a checkpoint boundary, unless a block is wider than the chunk cap and no boundary is within
  reach. Progress: the chunk is empty only if the prompt is done, the budget is zero, or the budget is
  shorter than a block that the cap would allow.\<close>

theorem next_chunk_on_checkpoints:
  assumes "prefill_ok c" and "0 < quantum a"
    and start_def: "start = fst (active_chunk c)"
    and prompt_end_def: "prompt_end = fst (active_chunk c) + remaining_prefill_tokens c"
  shows "case next_chunk_tokens c budget (Some a) cap of None \<Rightarrow> u32_max < (start div quantum a + 1) * quantum a
    | Some n \<Rightarrow> n \<le> budget \<and> (\<exists>c'. schedule_chunk c n = Some c')
    \<and> (start < last_checkpoint a prompt_end \<longrightarrow> start + n \<le> last_checkpoint a prompt_end)
    \<and> (0 < n \<and> start + n < prompt_end \<longrightarrow> quantum a dvd start + n
         \<or> cap < quantum a \<and> (\<forall>b. quantum a dvd b \<longrightarrow> start < b \<longrightarrow> b \<le> prompt_end \<longrightarrow> start + budget < b))
    \<and> (n = 0 \<longrightarrow> remaining_prefill_tokens c = 0 \<or> budget = 0
         \<or> budget < remaining_prefill_tokens c \<and> budget < quantum a \<and> quantum a \<le> cap)"
proof -
  let ?k = "min (remaining_prefill_tokens c) budget"
  show ?thesis
  proof (cases "?k = 0")
    case True
    have "prompt_end \<le> u32_max"
      using assms(1) by (auto simp: prompt_end_def prefill_ok_def active_chunk_def remaining_prefill_tokens_def)
    then have "next_chunk_tokens c budget (Some a) cap = Some 0"
      using True by (simp add: next_chunk_tokens_def checkpoint_aligned_chunk_tokens_def checked_add_u32_def prompt_end_def Let_def)
    then show ?thesis using True by (auto simp: schedule_chunk_def min_def split: if_splits)
  next
    case False
    then have pos: "0 < ?k" and within: "start + ?k \<le> prompt_end" by (simp_all add: start_def prompt_end_def)
    define n where "n = clipped_chunk start prompt_end ?k a cap"
    note go = next_chunk_eq [OF assms(1) pos assms(2), of cap, folded start_def, folded prompt_end_def [folded start_def], folded n_def]
    note e = aligned_chunk_end [OF pos within assms(2), of cap, folded n_def]
    have le: "n \<le> remaining_prefill_tokens c" "n \<le> budget" using e(1) by simp_all
    have boundary: "quantum a dvd start + n
        \<or> cap < quantum a \<and> (\<forall>b. quantum a dvd b \<longrightarrow> start < b \<longrightarrow> b \<le> prompt_end \<longrightarrow> start + budget < b)"
      if "0 < n" "start + n < prompt_end"
    proof -
      have "start + budget < b" if "start + ?k < b" "b \<le> prompt_end" for b
        using that by (auto simp: prompt_end_def start_def min_def split: if_splits)
      then show ?thesis using e(3) [OF that] by blast
    qed
    have stuck: "budget < remaining_prefill_tokens c \<and> budget < quantum a \<and> quantum a \<le> cap" if "n = 0"
    proof -
      have "\<not> (quantum a \<le> ?k \<or> cap < quantum a \<or> start + ?k = prompt_end)" using e(4) that by (metis less_irrefl)
      then show ?thesis by (auto simp: prompt_end_def start_def min_def not_le split: if_splits)
    qed
    have checkpoint: "start + n \<le> last_checkpoint a prompt_end" if "start < last_checkpoint a prompt_end"
      using e(2) [OF that] that by (cases "n = 0") simp_all
    show ?thesis unfolding go using le boundary stuck checkpoint by (auto simp: schedule_chunk_def)
  qed
qed

definition sample_prompt :: "nat \<Rightarrow> ResolvedPrefill" where
  "sample_prompt n = \<lparr>rp_session_id = None, rp_declared = 0, resident_prefix_tokens = 0,
     prefill_tokens_to_compute = n, post_prefill_context_tokens = n, processed_prefill_tokens = 0,
     active_chunk_tokens = n, cache_return_metadata = None\<rparr>"

lemma sample_prompt_facts:
  "remaining_prefill_tokens (sample_prompt n) = n" "active_chunk (sample_prompt n) = (0, n)"
  "n = 40000 \<Longrightarrow> prefill_ok (sample_prompt n)"
  by (simp_all add: sample_prompt_def remaining_prefill_tokens_def active_chunk_def prefill_ok_def u32_max_def)

text \<open>Blocks of 2176 tokens under a cap of 8192: three whole blocks.\<close>

theorem next_chunk_on_checkpoints_witness:
  "next_chunk_tokens (sample_prompt 40000) 8192 (Some (on_blocks 2176)) 8192 = Some 6528 \<and> 2176 dvd (6528 :: nat)"
proof -
  have n: "next_chunk_tokens (sample_prompt 40000) 8192 (Some (on_blocks 2176)) 8192 = Some 6528"
    by (simp add: next_chunk_tokens_def sample_prompt_facts checkpoint_aligned_chunk_tokens_def on_blocks_def Let_def
        checked_add_u32_def try_u32_def assert_that_def u32_max_def)
  have "prefill_ok (sample_prompt 40000)" by (rule sample_prompt_facts) simp
  from next_chunk_on_checkpoints [OF this _ refl refl, of "on_blocks 2176" 8192 8192]
  show ?thesis using n by (simp add: on_blocks_def sample_prompt_facts)
qed

text \<open>C31: The chunked-prefill lifecycle passes the budget less the drafter's slots but the bare cap as
  \<open>max_chunk_tokens\<close>. When a block fits the cap but not the cap less the slots, a prompt at a
  boundary with at least a block to go gets no chunk even from an idle partition's full budget, so it never
  starts or never goes on; the rule for blocks wider than the cap, which would run it sub-block, looks at the
  cap alone.\<close>

theorem drafting_slots_stall_chunks:
  assumes "prefill_ok c" and "quantum a \<le> cap" and "cap - drafting_slots < quantum a" and "quantum a dvd fst (active_chunk c)"
    and "quantum a \<le> remaining_prefill_tokens c" and "0 < drafting_slots"
  shows "next_chunk_tokens c (cap - drafting_slots) (Some a) cap = Some 0"
proof (cases "cap - drafting_slots = 0")
  case True
  have "fst (active_chunk c) + remaining_prefill_tokens c \<le> u32_max"
    using assms(1) by (auto simp: prefill_ok_def active_chunk_def remaining_prefill_tokens_def)
  then show ?thesis using True by (simp add: next_chunk_tokens_def checkpoint_aligned_chunk_tokens_def checked_add_u32_def Let_def)
next
  case False
  let ?s = "fst (active_chunk c)" and ?q = "quantum a" and ?k = "cap - drafting_slots"
  have q: "0 < ?q" using assms(3) by simp
  have k: "min (remaining_prefill_tokens c) ?k = ?k" using assms(3,5) by simp
  obtain m where m: "?s = ?q * m" using assms(4) by (rule dvdE)
  have floor: "(?s + ?k) div ?q * ?q = ?s" using m assms(3) q by simp
  have "?s + ?q \<le> u32_max"
    using assms(1,5) by (auto simp: prefill_ok_def active_chunk_def remaining_prefill_tokens_def)
  then have boundary: "(?s div ?q + 1) * ?q \<le> u32_max" using m q by (simp add: algebra_simps)
  have "?k < remaining_prefill_tokens c" using assms(3,5) by simp
  then have end1: "(if ?s + ?k < ?s + remaining_prefill_tokens c \<and> (?s > ?s \<or> ?q \<le> cap) then ?s else ?s + ?k) = ?s"
    using assms(2) by simp
  have "clipped_chunk ?s (?s + remaining_prefill_tokens c) ?k a cap = 0"
    unfolding clipped_chunk_def Let_def floor end1 using q by (simp add: not_less_iff_gr_or_eq)
  then show ?thesis using next_chunk_eq [OF assms(1) _ q, of ?k cap] boundary False k by simp
qed

theorem drafting_slots_stall_chunks_witness:
  "next_chunk_tokens (sample_prompt 40000) (2048 - 7) (Some (on_blocks 2048)) 2048 = Some 0"
  by (rule drafting_slots_stall_chunks) (simp_all add: on_blocks_def sample_prompt_facts)

end
