(* ===== verification/Local_Admission.thy ===== *)
theory Local_Admission
  imports Store_Guarantees Requests Pending_Order Admission_Gates
begin

section \<open>The local prefill-decode lifecycle (\<open>worker/admission/local_prefill_decode_admission.rs\<close>)\<close>

text \<open>
  The admission of the whole-iteration worker: it accepts requests, forms a batch out of whole
  prefills that pass the token budget and the KV gate, and after the iteration moves prefills to
  decode and completes requests. Its state is \<open>LocalAdmission\<close>; the KV store and the shared
  request store are passed by \<open>&mut\<close> and \<open>RefCell\<close>, so each operation takes and returns them.
  The scratch vector \<open>partition_token_usage\<close> is cleared by every \<open>form_batch\<close> and lives inside it.
\<close>

subsection \<open>State and messages\<close>

record LocalAdmission =
  la_policy :: PendingOrder
  la_next_sequence :: nat
  per_partition_token_budget :: nat
  la_balance :: LoadBalance

definition new_local_admission :: "PendingOrder \<Rightarrow> nat option \<Rightarrow> LoadBalance \<Rightarrow> LocalAdmission" where
  "new_local_admission policy max_batch_tokens balance = \<lparr>la_policy = policy, la_next_sequence = 0,
     per_partition_token_budget = (case max_batch_tokens of None \<Rightarrow> u32_max | Some n \<Rightarrow> n), la_balance = balance\<rparr>"

definition local_accept_message :: "WorkerContext \<Rightarrow> LocalAdmission \<Rightarrow> KvStore \<Rightarrow> 'd RequestStore \<Rightarrow> nat \<Rightarrow>
     (LocalAdmission \<times> 'd RequestStore) option" where
  "local_accept_message w la ks rs r = do {
     assert_that (\<not> po_contains (la_policy la) r);
     a \<leftarrow> get_record rs r;
     let d = definition_of a;
     let arrival = rc_arrival_time (rq_core (ar_request a));
     let rs' = put_record rs r (stamp_stage w a arrival (unified_code StagePending));
     resident \<leftarrow> store_resident_prefix_tokens ks (prompt_tokens d) (td_session d);
     (next', c) \<leftarrow> freeze_candidate (la_next_sequence la) r (prompt_tokens d) (target_output_tokens d)
       (td_session d) (session_start_or (td_session d) arrival) resident;
     Some (la\<lparr>la_policy := po_push (la_policy la) c, la_next_sequence := next'\<rparr>, rs')
   }"

subsection \<open>Forming a batch\<close>

definition choose_prefill_partition ::
  "LoadBalance \<Rightarrow> KvStore \<Rightarrow> SessionInput \<Rightarrow> nat \<Rightarrow> (LoadBalance \<times> partition_id) option" where
  "choose_prefill_partition b ks si n = (case retained_prefix_partition ks si of
     Some p \<Rightarrow> Some (b, p)
   | None \<Rightarrow> map_option (\<lambda>(b', p). (b', as_u16 p)) (choose_partition b n))"

definition local_admit :: "WorkerContext \<Rightarrow> KvStore \<Rightarrow> 'd RequestStore \<Rightarrow> nat \<Rightarrow> partition_id \<Rightarrow>
     ResolvedPrefill \<Rightarrow> KvFootprint \<Rightarrow> nat \<Rightarrow> (KvStore \<times> 'd RequestStore) option" where
  "local_admit w ks rs r p ctx fp now = do {
     ks' \<leftarrow> reserve_prefill_context ks r p ctx fp now;
     rs1 \<leftarrow> mark_admitted rs r;
     a \<leftarrow> get_record rs1 r;
     a' \<leftarrow> record_prefix_cache_hit_tokens a (resident_prefix_tokens ctx);
     Some (ks', put_record rs1 r (stamp_stage w a' now (unified_code StagePrefill)))
   }"

text \<open>The head's live resident prefix, which \<open>refresh_head\<close> asks for; a panic inside the closure is
  excluded by the queued candidates' well-formedness below, so its value there does not matter.\<close>

definition live_resident :: "KvStore \<Rightarrow> AdmissionCandidate \<Rightarrow> nat" where
  "live_resident ks c = (case store_resident_prefix_tokens ks (ac_fresh_prompt c) (ac_session c) of
     Some n \<Rightarrow> n | None \<Rightarrow> 0)"

text \<open>One pass of the loop: \<open>Inl\<close> when it breaks (the refreshed queue and the rotated balance stay),
  \<open>Inr\<close> when it admitted the head and goes round again. \<open>usage\<close> holds the live decode tokens and the
  admitted prefill tokens of each partition.\<close>

type_synonym 'd form_state = "LocalAdmission \<times> KvStore \<times> 'd RequestStore \<times> (nat \<times> nat) list"

definition form_pass ::
  "WorkerContext \<Rightarrow> nat \<Rightarrow> 'd form_state \<Rightarrow> ('d form_state + 'd form_state) option" where
  "form_pass w now x = (case x of (la, ks, rs, usage) \<Rightarrow>
     let la1 = la\<lparr>la_policy := po_refresh_head (live_resident ks) (la_policy la)\<rparr>
     in case po_peek (la_policy la1) of
       None \<Rightarrow> Some (Inl (la1, ks, rs, usage))
     | Some c \<Rightarrow> do {
         (b, p) \<leftarrow> choose_prefill_partition (la_balance la1) ks (ac_session c) (num_partitions ks);
         let la2 = la1\<lparr>la_balance := b\<rparr>;
         ctx \<leftarrow> preview_prefill_context ks p (ac_fresh_prompt c) (ac_session c);
         (live, admitted) \<leftarrow> nth_opt usage p;
         if \<not> prefill_fits_budget (per_partition_token_budget la2) live admitted (prefill_tokens_to_compute ctx)
         then Some (Inl (la2, ks, rs, usage))
         else do {
           let fp = store_footprint ks (post_prefill_context_tokens ctx) (ac_remaining_output c);
           room \<leftarrow> fits ks p fp;
           if \<not> room then Some (Inl (la2, ks, rs, usage))
           else do {
             (q', popped) \<leftarrow> po_pop (la_policy la2);
             assert_that (popped = Some c);
             (ks', rs') \<leftarrow> local_admit w ks rs (ac_request c) p ctx fp now;
             admitted' \<leftarrow> checked_add_u32 admitted (prefill_tokens_to_compute ctx);
             Some (Inr (la2\<lparr>la_policy := q'\<rparr>, ks', rs', usage[p := (live, admitted')]))
           }
         }
       })"

partial_function (option) form_loop ::
  "WorkerContext \<Rightarrow> nat \<Rightarrow> 'd form_state \<Rightarrow> 'd form_state option" where
  "form_loop w now x = Option.bind (form_pass w now x) (\<lambda>y. case y of Inl z \<Rightarrow> Some z | Inr z \<Rightarrow> form_loop w now z)"

definition any_partition :: "(partition_id \<Rightarrow> bool option) \<Rightarrow> nat \<Rightarrow> bool option" where
  "any_partition f n = map_option (list_ex id) (those (map f [0..<n]))"

definition local_form_batch :: "WorkerContext \<Rightarrow> LocalAdmission \<Rightarrow> KvStore \<Rightarrow> 'd RequestStore \<Rightarrow> nat \<Rightarrow>
     (LocalAdmission \<times> KvStore \<times> 'd RequestStore \<times> bool) option" where
  "local_form_batch w la ks rs now = do {
     let n = as_u16 (num_partitions ks);
     had_decode \<leftarrow> any_partition (store_has_live_decode ks) n;
     live \<leftarrow> those (map (store_live_decode_count ks) [0..<n]);
     (la', ks1, rs', _) \<leftarrow> form_loop w now (la, ks, rs, map (\<lambda>k. (k, 0)) live);
     ks' \<leftarrow> drain_ready ks1;
     has_prefill \<leftarrow> any_partition (has_prefill_admit ks') n;
     Some (la', ks', rs', had_decode \<or> has_prefill)
   }"

subsection \<open>After the iteration\<close>

definition complete_decode_member :: "WorkerContext \<Rightarrow> nat \<Rightarrow> nat \<times> nat \<Rightarrow>
     'd RequestStore \<times> nat list \<Rightarrow> ('d RequestStore \<times> nat list) option" where
  "complete_decode_member w now = (\<lambda>(r, _) (rs, completed). do {
     a \<leftarrow> get_record rs r;
     let a1 = record_token a now (log_output_token_times w);
     if is_complete a1
     then Some (put_record rs r (stamp_stage w a1 now (unified_code StageDone)), completed @ [r])
     else Some (put_record rs r a1, completed)
   })"

definition complete_prefill_admit :: "WorkerContext \<Rightarrow> KvStore \<Rightarrow> nat \<Rightarrow> nat \<Rightarrow>
     'd RequestStore \<times> nat list \<times> (nat \<times> nat \<times> nat) list \<Rightarrow>
     ('d RequestStore \<times> nat list \<times> (nat \<times> nat \<times> nat) list) option" where
  "complete_prefill_admit w ks now r = (\<lambda>(rs, completed, to_finalize). do {
     a \<leftarrow> get_record rs r;
     ctx \<leftarrow> resolved_prefill_context ks r;
     let a0 = a\<lparr>ar_progress := (ar_progress a)\<lparr>prefill_tokens_processed := prefill_tokens_to_compute ctx\<rparr>\<rparr>;
     let a1 = record_first_token a0 now (log_output_token_times w);
     if is_complete a1
     then Some (put_record rs r (stamp_stage w a1 now (unified_code StageDone)), completed @ [r], to_finalize)
     else Some (put_record rs r (stamp_stage w a1 now (unified_code StageDecode)), completed,
       to_finalize @ [(r, post_prefill_context_tokens ctx, target a1 - emitted a1)])
   })"

definition complete_partition :: "WorkerContext \<Rightarrow> nat \<Rightarrow> partition_id \<Rightarrow>
     KvStore \<times> 'd RequestStore \<times> (nat \<times> nat) list \<Rightarrow>
     (KvStore \<times> 'd RequestStore \<times> (nat \<times> nat) list) option" where
  "complete_partition w now p = (\<lambda>(ks, rs, events). do {
     members \<leftarrow> store_decode_members ks p;
     (rs1, done1) \<leftarrow> fold_opt (complete_decode_member w now) members (rs, []);
     ks1 \<leftarrow> advance ks (WholePartition p) 1;
     admits \<leftarrow> store_prefill_admits ks1 p;
     (rs2, done2, to_finalize) \<leftarrow> fold_opt (complete_prefill_admit w ks1 now) admits (rs1, done1, []);
     ks2 \<leftarrow> fold_opt (\<lambda>(r, ctx, remaining) ks. commit_resident ks r p ctx remaining) to_finalize ks1;
     ks3 \<leftarrow> store_clear_prefill_admits ks2 p;
     ks4 \<leftarrow> fold_opt (\<lambda>r ks. release_retaining_prefix ks r p now) done2 ks3;
     ks5 \<leftarrow> sample_submit ks4 p now;
     Some (ks5, rs2, events @ map (Pair (wc_id w)) done2)
   })"

definition local_complete_iteration :: "WorkerContext \<Rightarrow> KvStore \<Rightarrow> 'd RequestStore \<Rightarrow> nat \<Rightarrow>
     (KvStore \<times> 'd RequestStore \<times> (nat \<times> nat) list) option" where
  "local_complete_iteration w ks rs now =
     fold_opt (complete_partition w now) [0..<as_u16 (num_partitions ks)] (ks, rs, [])"

definition local_queued_requests :: "LocalAdmission \<Rightarrow> nat" where
  "local_queued_requests la = as_u32 (po_len (la_policy la))"

definition local_cancel_pending :: "LocalAdmission \<Rightarrow> nat \<Rightarrow> (LocalAdmission \<times> bool) option" where
  "local_cancel_pending la r = do {
     (q, removed) \<leftarrow> po_remove (la_policy la) r;
     Some (la\<lparr>la_policy := q\<rparr>, removed \<noteq> None)
   }"

end
