(* ===== verification/Local_Lifecycle.thy ===== *)
theory Local_Lifecycle
  imports Local_Admission
begin

section \<open>What the local lifecycle guarantees\<close>

text \<open>
  \<open>Local_Admission\<close> over a consistent KV store: forming a batch returns, admits a prefix of the queue
  within the token and KV gates and loses nobody; completing the iteration returns, keeps the records and
  the resident KV in step, and reports a request exactly when it has emitted its target.
\<close>

subsection \<open>Queued requests\<close>

text \<open>A candidate agrees with its request's record, and the request has not started.\<close>

definition cand_ok :: "'d RequestStore \<Rightarrow> AdmissionCandidate \<Rightarrow> bool" where
  "cand_ok rs c \<longleftrightarrow> ac_fresh_prompt c + declared_prefix_tokens (ac_session c) \<le> u32_max
     \<and> (\<exists>a. get_record rs (ac_request c) = Some a \<and> td_session (definition_of a) = ac_session c
         \<and> tl_prefix_cache_hit_tokens (ar_telemetry a) = None \<and> emitted a = 0)"

text \<open>An admitted request that has no output yet.\<close>

abbreviation entered :: "'d ActiveRequest \<Rightarrow> bool" where
  "entered a \<equiv> emitted a = 0 \<and> lc_admitted (ar_lifecycle a)"

lemma peek_le:
  assumes "prefix_ok c" and "n \<le> u32_max"
  shows "peek c s n \<le> n"
proof (cases "map_of (entries c) s")
  case (Some e)
  have "Max (insert 0 {q \<in> positions (pe_positions e). q \<le> n}) \<le> n" by (subst Max_le_iff) auto
  then show ?thesis using peek_eq_Max [OF assms(1) Some assms(2)] by simp
qed (simp add: peek_def)

lemma preview_returns:
  assumes "store_ok s" and "p < num_partitions s" and "fresh + declared_prefix_tokens si \<le> u32_max"
  shows "\<exists>c. preview_prefill_context s p fresh si = Some c"
proof -
  note p = store_okD [OF assms(1,2)]
  have "peek (ks_caches s ! p) sid n \<le> n" if "n \<le> u32_max" for sid n by (rule peek_le [OF p(4) that])
  moreover have "Suc 0 \<le> u32_max" by (simp add: u32_max_def)
  ultimately show ?thesis using assms(3) p(2)
    by (cases si) (auto simp: preview_prefill_context_def declared_prefix_tokens_def resolved_prefill_def Let_def
      checked_sub_def checked_add_u32_def)
qed

lemma preview_facts:
  assumes "preview_prefill_context s p fresh si = Some c"
  shows "resident_prefix_tokens c \<le> declared_prefix_tokens si" and "prefill_tokens_to_compute c \<le> u32_max"
    and "prefill_tokens_to_compute c \<le> fresh + declared_prefix_tokens si"
    and "active_chunk_tokens c = prefill_tokens_to_compute c"
proof -
  obtain n where "resolved_prefill si n fresh = Some c"
    using assms by (auto simp: preview_prefill_context_def bind_Some_iff)
  note f = resolved_prefill_SomeD [OF this]
  show "resident_prefix_tokens c \<le> declared_prefix_tokens si" using f(3,7) by linarith
  show "prefill_tokens_to_compute c \<le> u32_max" using f(1) by (simp add: prefill_ok_def)
  show "prefill_tokens_to_compute c \<le> fresh + declared_prefix_tokens si" using f(1,2) by (simp add: prefill_ok_def)
  show "active_chunk_tokens c = prefill_tokens_to_compute c"
    using \<open>resolved_prefill si n fresh = Some c\<close> by (auto simp: resolved_prefill_def Let_def bind_Some_iff split: if_splits)
qed

lemma retained_in_range:
  assumes "store_ok s" and "retained_prefix_partition s si = Some p"
  shows "p < num_partitions s"
proof -
  obtain sid t n where si: "si = Session sid t n" using assms(2) by (cases si) (auto simp: retained_prefix_partition_def)
  have "best_resident sid n 0 (ks_caches s) (None, 0) = Some p"
    using assms(2) si by (simp add: retained_prefix_partition_def)
  then have "p < length (ks_caches s)" using best_resident_first [of sid n 0 "ks_caches s" None 0] by auto
  then show ?thesis using caches_length [OF assms(1)] by simp
qed

definition balance_ok :: "LoadBalance \<Rightarrow> bool" where
  "balance_ok b \<longleftrightarrow> \<not> needs_load b"

lemma choose_partition_ok:
  assumes "balance_ok b" and "0 < n" and "n \<le> 65536"
  shows "\<exists>b' p. choose_partition b n = Some (b', p) \<and> balance_ok b' \<and> p < n"
  using assms by (cases b) (simp_all add: choose_partition_def balance_ok_def needs_load_def)

lemma choose_prefill_partition_ok:
  assumes "store_ok s" and "balance_ok b" and "0 < num_partitions s" and "num_partitions s \<le> 65536"
  shows "\<exists>b' p. choose_prefill_partition b s si (num_partitions s) = Some (b', p) \<and> balance_ok b' \<and> p < num_partitions s"
proof (cases "retained_prefix_partition s si")
  case None
  obtain b' p where "choose_partition b (num_partitions s) = Some (b', p)" "balance_ok b'" "p < num_partitions s"
    using choose_partition_ok [OF assms(2-4)] by blast
  then show ?thesis using None assms(4) by (simp add: choose_prefill_partition_def as_u16_def)
next
  case (Some p)
  then show ?thesis using retained_in_range [OF assms(1)] assms(2) by (simp add: choose_prefill_partition_def)
qed

subsection \<open>One admission\<close>

text \<open>Reserving a previewed prefill appends its promise and its context and leaves the residents alone.\<close>

lemma reserve_appends:
  assumes "store_ok s" and "p < num_partitions s" and "reserved_count (ks_ledger s) p < u32_max"
    and "preview_prefill_context s p fresh si = Some ctx" and "r \<notin> fst ` set (promised (ks_ledger s))"
  shows "\<exists>s'. reserve_prefill_context s r p ctx fp now = Some s' \<and> store_ok s'
    \<and> ks_partitions s' = ks_partitions s \<and> ks_accounting s' = ks_accounting s
    \<and> promised (ks_ledger s') = promised (ks_ledger s) @ [(r, p, fp_reserved_units fp, next_promise (ks_ledger s))]
    \<and> chunked_prefill (ks_ledger s') = chunked_prefill (ks_ledger s) \<and> held (ks_ledger s') = held (ks_ledger s)
    \<and> (\<exists>d. prefill_context (ks_ledger s') r = Some d \<and> active_chunk_tokens d = active_chunk_tokens ctx)
    \<and> (\<forall>q. q \<noteq> r \<longrightarrow> prefill_context (ks_ledger s') q = prefill_context (ks_ledger s) q)"
proof -
  from reserve_prefill_context_ok [OF assms(1-3) preview_hit [OF assms(1,2,4)], of r fp now]
  obtain s1 c where s1: "reserve_prefill_context s r p ctx fp now =
      reserve (s1\<lparr>ks_ledger := set_prefill_context (ks_ledger s) r c\<rparr>) r p fp now"
    "store_ok (s1\<lparr>ks_ledger := set_prefill_context (ks_ledger s) r c\<rparr>)"
    "ks_partitions s1 = ks_partitions s" "ks_accounting s1 = ks_accounting s"
    "active_chunk_tokens c = active_chunk_tokens ctx" by blast
  let ?s1 = "s1\<lparr>ks_ledger := set_prefill_context (ks_ledger s) r c\<rparr>"
  have p1: "p < num_partitions ?s1" using assms(2) s1(3) by (simp add: num_partitions_def)
  have "reserved_count (ks_ledger ?s1) p < u32_max"
    using assms(3) by (simp add: reserved_count_def set_prefill_context_def)
  from reserve_ok [OF s1(2) p1 this, of r fp now]
  obtain c' j where s': "reserve ?s1 r p fp now = Some ((set_cache (?s1\<lparr>ks_ledger :=
      promised_ledger (num_partitions ?s1) (ks_ledger ?s1) r p (fp_reserved_units fp)\<rparr>) p c')\<lparr>ks_journal := j\<rparr>)"
    "store_ok ((set_cache (?s1\<lparr>ks_ledger :=
      promised_ledger (num_partitions ?s1) (ks_ledger ?s1) r p (fp_reserved_units fp)\<rparr>) p c')\<lparr>ks_journal := j\<rparr>)"
    by blast
  have "map_of (promised (ks_ledger s)) r = None" using assms(5) by (simp add: map_of_eq_None_iff)
  then show ?thesis using s1 s'
    by (simp add: promised_ledger_def set_prefill_context_def update_absent prefill_context_def update_conv')
qed

lemma reserved_count_snoc:
  "promised l' = promised l @ [(r, p, u, k)] \<Longrightarrow> chunked_prefill l' = chunked_prefill l \<Longrightarrow>
     reserved_count l' q = reserved_count l q + (if p = q then 1 else 0)"
  by (simp add: reserved_count_def alist_sum_def)

subsection \<open>Forming a batch\<close>

abbreviation waiting :: "LocalAdmission \<Rightarrow> AdmissionCandidate list" where
  "waiting la \<equiv> po_waiting (la_policy la)"

definition form_ok :: "nat \<Rightarrow> 'd form_state \<Rightarrow> bool" where
  "form_ok n x = (case x of (la, ks, rs, usage) \<Rightarrow>
     store_ok ks \<and> num_partitions ks = n \<and> 0 < n \<and> n \<le> 65535 \<and> po_ok (la_policy la) \<and> balance_ok (la_balance la)
     \<and> per_partition_token_budget la \<le> u32_max \<and> length usage = n
     \<and> (\<forall>q < n. reserved_count (ks_ledger ks) q + length (waiting la) \<le> u32_max)
     \<and> (\<forall>c \<in> set (waiting la). cand_ok rs c \<and> ac_request c \<notin> fst ` set (promised (ks_ledger ks))))"

text \<open>The request the queue offers, once its head is refreshed against the store, the partition it would be placed on and its
  prefill there, previewed at this store.\<close>

definition offered :: "LocalAdmission \<Rightarrow> KvStore \<Rightarrow> AdmissionCandidate \<Rightarrow> LoadBalance \<Rightarrow> partition_id \<Rightarrow> ResolvedPrefill \<Rightarrow> bool" where
  "offered la ks c b p ctx \<longleftrightarrow> po_peek (po_refresh_head (live_resident ks) (la_policy la)) = Some c
     \<and> choose_prefill_partition (la_balance la) ks (ac_session c) (num_partitions ks) = Some (b, p)
     \<and> preview_prefill_context ks p (ac_fresh_prompt c) (ac_session c) = Some ctx"

text \<open>The admission of the offered head \<open>c\<close> on partition \<open>p\<close> with \<open>t\<close> tokens to compute: it passes both gates at the
  usage and the store of that moment, and is reserved there.\<close>

definition admits :: "WorkerContext \<Rightarrow> nat \<Rightarrow> AdmissionCandidate \<times> partition_id \<times> nat \<Rightarrow> 'd form_state \<Rightarrow> 'd form_state \<Rightarrow> bool" where
  "admits w now e x y = (case (e, x, y) of ((c, p, t), (la, ks, rs, usage), (la', ks', rs', usage')) \<Rightarrow>
     mset (waiting la) = add_mset c (mset (waiting la')) \<and> p < num_partitions ks
     \<and> per_partition_token_budget la' = per_partition_token_budget la \<and> la_next_sequence la' = la_next_sequence la
     \<and> prefill_fits_budget (per_partition_token_budget la) (fst (usage ! p)) (snd (usage ! p)) t
     \<and> (\<exists>ctx. offered la ks c (la_balance la') p ctx \<and> prefill_tokens_to_compute ctx = t
         \<and> fits ks p (store_footprint ks (post_prefill_context_tokens ctx) (ac_remaining_output c)) = Some True
         \<and> local_admit w ks rs (ac_request c) p ctx
             (store_footprint ks (post_prefill_context_tokens ctx) (ac_remaining_output c)) now = Some (ks', rs'))
     \<and> po_pop (po_refresh_head (live_resident ks) (la_policy la)) = Some (la_policy la', Some c)
     \<and> usage' = usage[p := (fst (usage ! p), snd (usage ! p) + t)]
     \<and> ks_partitions ks' = ks_partitions ks
     \<and> promise_order (ks_ledger ks') = promise_order (ks_ledger ks) @ [(p, ac_request c)]
     \<and> chunked_prefill (ks_ledger ks') = chunked_prefill (ks_ledger ks) \<and> held (ks_ledger ks') = held (ks_ledger ks)
     \<and> (\<exists>d. prefill_context (ks_ledger ks') (ac_request c) = Some d \<and> active_chunk_tokens d = t)
     \<and> t \<le> ac_fresh_prompt c + declared_prefix_tokens (ac_session c) \<and> ac_request c \<notin> ac_request ` set (waiting la')
     \<and> (\<forall>q. q \<noteq> ac_request c \<longrightarrow> prefill_context (ks_ledger ks') q = prefill_context (ks_ledger ks) q)
     \<and> (\<exists>a. get_record rs' (ac_request c) = Some a \<and> entered a)
     \<and> (\<forall>q. q \<noteq> ac_request c \<longrightarrow> get_record rs' q = get_record rs q))"

lemma mark_admitted_returns:
  assumes "get_record rs r = Some a"
  shows "\<exists>rs' a'. mark_admitted rs r = Some rs' \<and> get_record rs' r = Some a' \<and> ar_request a' = ar_request a
    \<and> ar_progress a' = ar_progress a \<and> ar_telemetry a' = ar_telemetry a \<and> lc_admitted (ar_lifecycle a')
    \<and> (\<forall>q. q \<noteq> r \<longrightarrow> get_record rs' q = get_record rs q)"
  using assms by (auto simp: mark_admitted_def)

lemma record_stage_keeps [simp]:
  "ar_request (record_stage a now code pool worker log) = ar_request a"
  "ar_progress (record_stage a now code pool worker log) = ar_progress a"
  "ar_telemetry (record_stage a now code pool worker log) = ar_telemetry a"
  "lc_admitted (ar_lifecycle (record_stage a now code pool worker log)) = lc_admitted (ar_lifecycle a)"
  by (simp_all add: record_stage_def Let_def)

lemma local_admit_ok:
  assumes "store_ok ks" and "p < num_partitions ks" and "reserved_count (ks_ledger ks) p < u32_max"
    and "preview_prefill_context ks p (ac_fresh_prompt c) (ac_session c) = Some ctx"
    and "ac_request c \<notin> fst ` set (promised (ks_ledger ks))" and "cand_ok rs c"
  shows "\<exists>ks' rs'. local_admit w ks rs (ac_request c) p ctx fp now = Some (ks', rs') \<and> store_ok ks'
    \<and> ks_partitions ks' = ks_partitions ks
    \<and> promised (ks_ledger ks') = promised (ks_ledger ks) @ [(ac_request c, p, fp_reserved_units fp, next_promise (ks_ledger ks))]
    \<and> chunked_prefill (ks_ledger ks') = chunked_prefill (ks_ledger ks) \<and> held (ks_ledger ks') = held (ks_ledger ks)
    \<and> (\<exists>d. prefill_context (ks_ledger ks') (ac_request c) = Some d \<and> active_chunk_tokens d = active_chunk_tokens ctx)
    \<and> (\<forall>q. q \<noteq> ac_request c \<longrightarrow> prefill_context (ks_ledger ks') q = prefill_context (ks_ledger ks) q)
    \<and> (\<exists>a. get_record rs' (ac_request c) = Some a \<and> entered a)
    \<and> (\<forall>q. q \<noteq> ac_request c \<longrightarrow> get_record rs' q = get_record rs q)"
proof -
  let ?r = "ac_request c"
  from reserve_appends [OF assms(1-5), of fp now] obtain ks' where
    ks': "reserve_prefill_context ks ?r p ctx fp now = Some ks'" "store_ok ks'" "ks_partitions ks' = ks_partitions ks"
    "promised (ks_ledger ks') = promised (ks_ledger ks) @ [(?r, p, fp_reserved_units fp, next_promise (ks_ledger ks))]"
    "chunked_prefill (ks_ledger ks') = chunked_prefill (ks_ledger ks)" "held (ks_ledger ks') = held (ks_ledger ks)"
    "\<exists>d. prefill_context (ks_ledger ks') ?r = Some d \<and> active_chunk_tokens d = active_chunk_tokens ctx"
    "\<forall>q. q \<noteq> ?r \<longrightarrow> prefill_context (ks_ledger ks') q = prefill_context (ks_ledger ks) q" by blast
  obtain a where a: "get_record rs ?r = Some a" "td_session (definition_of a) = ac_session c"
    "tl_prefix_cache_hit_tokens (ar_telemetry a) = None" "emitted a = 0"
    using assms(6) by (auto simp: cand_ok_def)
  from mark_admitted_returns [OF a(1)] obtain rs1 a1 where
    rs1: "mark_admitted rs ?r = Some rs1" "get_record rs1 ?r = Some a1" "ar_request a1 = ar_request a"
    "ar_progress a1 = ar_progress a" "ar_telemetry a1 = ar_telemetry a" "lc_admitted (ar_lifecycle a1)"
    "\<forall>q. q \<noteq> ?r \<longrightarrow> get_record rs1 q = get_record rs q" by blast
  let ?a2 = "a1\<lparr>ar_telemetry := (ar_telemetry a1)\<lparr>tl_prefix_cache_hit_tokens := Some (resident_prefix_tokens ctx)\<rparr>\<rparr>"
  have hit: "record_prefix_cache_hit_tokens a1 (resident_prefix_tokens ctx) = Some ?a2"
    using preview_facts(1) [OF assms(4)] a(2,3) rs1(3,5) by (simp add: record_prefix_cache_hit_tokens_def)
  have "local_admit w ks rs ?r p ctx fp now = Some (ks', put_record rs1 ?r (stamp_stage w ?a2 now (unified_code StagePrefill)))"
    unfolding local_admit_def by (simp add: ks'(1) rs1(1,2) hit)
  moreover have "entered (stamp_stage w ?a2 now (unified_code StagePrefill))"
    using a(4) rs1(4,6) by (simp add: stamp_stage_def)
  ultimately show ?thesis using ks' rs1(2,7) by simp
qed

text \<open>Why the loop stopped: the queue offers nobody, or the offered request fails a gate on its partition, the token
  budget over what has been admitted there or the KV gate.\<close>

definition head_blocked :: "LocalAdmission \<Rightarrow> KvStore \<Rightarrow> (nat \<times> nat) list \<Rightarrow> bool" where
  "head_blocked la ks usage \<longleftrightarrow> waiting la = []
     \<or> (\<exists>c b p ctx. offered la ks c b p ctx \<and> p < num_partitions ks
         \<and> (\<not> prefill_fits_budget (per_partition_token_budget la) (fst (usage ! p)) (snd (usage ! p))
               (prefill_tokens_to_compute ctx)
           \<or> fits ks p (store_footprint ks (post_prefill_context_tokens ctx) (ac_remaining_output c)) = Some False))"

lemma prefill_sum_fits:
  assumes "prefill_fits_budget budget live admitted t" and "budget \<le> u32_max" and "t \<le> u32_max"
  shows "checked_add_u32 admitted t = Some (admitted + t)"
  using assms by (auto simp: prefill_fits_budget_def checked_add_u32_def Let_def split: if_splits)

lemma form_pass_ok:
  assumes "form_ok n (la, ks, rs, usage)"
  shows "(\<exists>la'. form_pass w now (la, ks, rs, usage) = Some (Inl (la', ks, rs, usage)) \<and> form_ok n (la', ks, rs, usage)
      \<and> mset (waiting la') = mset (waiting la) \<and> per_partition_token_budget la' = per_partition_token_budget la
      \<and> la_next_sequence la' = la_next_sequence la \<and> head_blocked la ks usage
      \<and> la_policy la' = po_refresh_head (live_resident ks) (la_policy la))
    \<or> (\<exists>e y. form_pass w now (la, ks, rs, usage) = Some (Inr y) \<and> form_ok n y \<and> admits w now e (la, ks, rs, usage) y)"
proof -
  let ?q = "po_refresh_head (live_resident ks) (la_policy la)"
  let ?la1 = "la\<lparr>la_policy := ?q\<rparr>"
  have ok: "store_ok ks" "num_partitions ks = n" "0 < n" "n \<le> 65535" "po_ok (la_policy la)" "balance_ok (la_balance la)"
    "per_partition_token_budget la \<le> u32_max" "length usage = n"
    and count: "\<And>q. q < n \<Longrightarrow> reserved_count (ks_ledger ks) q + length (waiting la) \<le> u32_max"
    and cands: "\<And>c. c \<in> set (waiting la) \<Longrightarrow> cand_ok rs c \<and> ac_request c \<notin> fst ` set (promised (ks_ledger ks))"
    using assms by (auto simp: form_ok_def)
  have q: "po_ok ?q" "mset (po_waiting ?q) = mset (waiting la)" using po_refresh_ok [OF ok(5)] by simp_all
  have len: "length (po_waiting ?q) = length (waiting la)" and mem: "set (po_waiting ?q) = set (waiting la)"
    using arg_cong [OF q(2), of size] arg_cong [OF q(2), of set_mset] by simp_all
  have keep: "form_ok n (la\<lparr>la_policy := ?q, la_balance := b\<rparr>, ks, rs, usage)" if "balance_ok b" for b
    using that ok q count cands len mem by (simp add: form_ok_def)
  show ?thesis
  proof (cases "po_waiting ?q")
    case Nil
    then have "form_pass w now (la, ks, rs, usage) = Some (Inl (?la1, ks, rs, usage))"
      using po.head_law [OF q(1)] by (simp add: form_pass_def Let_def)
    moreover have "form_ok n (?la1, ks, rs, usage)" using keep [OF ok(6)] by simp
    moreover have "waiting la = []" using q(2) Nil by simp
    ultimately show ?thesis using q(2) by (simp add: head_blocked_def)
  next
    case (Cons c cs)
    have head: "po_peek ?q = Some c" using po.head_law [OF q(1)] Cons by simp
    have c: "cand_ok rs c" "ac_request c \<notin> fst ` set (promised (ks_ledger ks))" using cands mem Cons by auto
    obtain b p where b: "choose_prefill_partition (la_balance la) ks (ac_session c) (num_partitions ks) = Some (b, p)"
      "balance_ok b" "p < n"
      using choose_prefill_partition_ok [OF ok(1,6)] ok(2-4) by fastforce
    obtain ctx where ctx: "preview_prefill_context ks p (ac_fresh_prompt c) (ac_session c) = Some ctx"
      using preview_returns [OF ok(1)] b(3) ok(2) c(1) unfolding cand_ok_def by metis
    obtain live adm where u: "usage ! p = (live, adm)" by fastforce
    let ?la2 = "la\<lparr>la_policy := ?q, la_balance := b\<rparr>"
    let ?t = "prefill_tokens_to_compute ctx"
    let ?fp = "store_footprint ks (post_prefill_context_tokens ctx) (ac_remaining_output c)"
    have p: "p < num_partitions ks" using b(3) ok(2) by simp
    have offer: "offered la ks c b p ctx" using head b(1) ctx by (simp add: offered_def)
    obtain room where room: "fits ks p ?fp = Some room" using fits_iff [OF ok(1) p] by blast
    have pass: "form_pass w now (la, ks, rs, usage) = (if \<not> prefill_fits_budget (per_partition_token_budget la) live adm ?t
        then Some (Inl (?la2, ks, rs, usage)) else if \<not> room then Some (Inl (?la2, ks, rs, usage)) else do {
          (q', popped) \<leftarrow> po_pop ?q;
          assert_that (popped = Some c);
          (ks', rs') \<leftarrow> local_admit w ks rs (ac_request c) p ctx ?fp now;
          admitted' \<leftarrow> checked_add_u32 adm ?t;
          Some (Inr (?la2\<lparr>la_policy := q'\<rparr>, ks', rs', usage[p := (live, admitted')]))
        })"
      using b(3) ok(8) by (simp add: form_pass_def Let_def head b(1) ctx u room)
    show ?thesis
    proof (cases "prefill_fits_budget (per_partition_token_budget la) live adm ?t \<and> room")
      case False
      then have "form_pass w now (la, ks, rs, usage) = Some (Inl (?la2, ks, rs, usage))" using pass by auto
      moreover have "head_blocked la ks usage"
        using False p offer u room unfolding head_blocked_def by (cases room) fastforce+
      ultimately show ?thesis using keep [OF b(2)] q(2) by fastforce
    next
      case True
      obtain q' where q': "po_pop ?q = Some (q', Some c)" "po_ok q'" "po_waiting q' = cs"
        using po.pop_law [OF q(1) Cons] by blast
      have "reserved_count (ks_ledger ks) p < u32_max" using count [OF b(3)] len Cons by simp
      from local_admit_ok [OF ok(1) p this ctx c(2,1), of w ?fp now] obtain ks' rs' where
        a: "local_admit w ks rs (ac_request c) p ctx ?fp now = Some (ks', rs')" "store_ok ks'"
        "ks_partitions ks' = ks_partitions ks"
        "promised (ks_ledger ks') = promised (ks_ledger ks) @ [(ac_request c, p, fp_reserved_units ?fp, next_promise (ks_ledger ks))]"
        "chunked_prefill (ks_ledger ks') = chunked_prefill (ks_ledger ks)" "held (ks_ledger ks') = held (ks_ledger ks)"
        "\<exists>d. prefill_context (ks_ledger ks') (ac_request c) = Some d \<and> active_chunk_tokens d = active_chunk_tokens ctx"
        "\<forall>q. q \<noteq> ac_request c \<longrightarrow> prefill_context (ks_ledger ks') q = prefill_context (ks_ledger ks) q"
        "\<exists>a. get_record rs' (ac_request c) = Some a \<and> entered a"
        "\<forall>q. q \<noteq> ac_request c \<longrightarrow> get_record rs' q = get_record rs q" by blast
      have sum: "checked_add_u32 adm ?t = Some (adm + ?t)"
        using prefill_sum_fits [OF conjunct1 [OF True] ok(7) preview_facts(2) [OF ctx]] .
      let ?y = "(?la2\<lparr>la_policy := q'\<rparr>, ks', rs', usage[p := (live, adm + ?t)])"
      have go: "form_pass w now (la, ks, rs, usage) = Some (Inr ?y)"
        unfolding pass using True by (simp add: q'(1) a(1) sum)
      have distinct: "distinct (map ac_request (c # cs))" using po.unique_law [OF q(1)] Cons by simp
      have "form_ok n ?y"
      proof -
        have "reserved_count (ks_ledger ks') x + length cs \<le> u32_max" if "x < n" for x
          using count [OF that] reserved_count_snoc [OF a(4,5), of x] len Cons by simp
        moreover have "cand_ok rs' d \<and> ac_request d \<notin> fst ` set (promised (ks_ledger ks'))" if "d \<in> set cs" for d
        proof -
          have ne: "ac_request d \<noteq> ac_request c" using that distinct by (auto simp: rev_image_eqI)
          have "d \<in> set (waiting la)" using that mem Cons by auto
          then show ?thesis using cands [of d] ne a(4,10) by (auto simp: cand_ok_def)
        qed
        ultimately show ?thesis using ok a(2,3) q'(2,3) b(2) by (simp add: form_ok_def num_partitions_def)
      qed
      moreover have "admits w now (c, p, ?t) (la, ks, rs, usage) ?y"
        using q(2) Cons q'(1,3) p True u room offer a promise_order_snoc [OF store_ledger_ok [OF ok(1)] a(4)]
          distinct preview_facts(3,4) [OF ctx]
        by (auto simp: admits_def)
      ultimately show ?thesis using go by blast
    qed
  qed
qed

inductive admission_run :: "WorkerContext \<Rightarrow> nat \<Rightarrow> (AdmissionCandidate \<times> partition_id \<times> nat) list \<Rightarrow> 'd form_state \<Rightarrow> 'd form_state \<Rightarrow> bool"
  for w now where
  stop: "admission_run w now [] x x"
| admit: "admits w now e x y \<Longrightarrow> admission_run w now es y z \<Longrightarrow> admission_run w now (e # es) x z"

lemma form_loop_ok:
  assumes "form_ok n (la, ks, rs, usage)"
  shows "\<exists>es la1 ks' rs' usage' la'. admission_run w now es (la, ks, rs, usage) (la1, ks', rs', usage')
    \<and> form_loop w now (la, ks, rs, usage) = Some (la', ks', rs', usage') \<and> form_ok n (la', ks', rs', usage')
    \<and> mset (waiting la') = mset (waiting la1) \<and> per_partition_token_budget la' = per_partition_token_budget la1
    \<and> la_next_sequence la' = la_next_sequence la1 \<and> head_blocked la1 ks' usage'
    \<and> la_policy la' = po_refresh_head (live_resident ks') (la_policy la1)"
  using assms
proof (induction "length (waiting la)" arbitrary: la ks rs usage rule: less_induct)
  case less
  from form_pass_ok [OF less.prems, of w now] show ?case
  proof (elim disjE exE conjE)
    fix la'
    assume "form_pass w now (la, ks, rs, usage) = Some (Inl (la', ks, rs, usage))" "form_ok n (la', ks, rs, usage)"
      "mset (waiting la') = mset (waiting la)" "per_partition_token_budget la' = per_partition_token_budget la"
      "la_next_sequence la' = la_next_sequence la" "head_blocked la ks usage"
      "la_policy la' = po_refresh_head (live_resident ks) (la_policy la)"
    then show ?thesis
      by (intro exI [of _ "[]"] exI [of _ la] exI [of _ ks] exI [of _ rs] exI [of _ usage] exI [of _ la'])
        (simp add: admission_run.stop form_loop.simps)
  next
    fix e y
    assume y: "form_pass w now (la, ks, rs, usage) = Some (Inr y)" "form_ok n y" "admits w now e (la, ks, rs, usage) y"
    obtain la2 ks2 rs2 usage2 where y2: "y = (la2, ks2, rs2, usage2)" by (cases y) auto
    have "mset (waiting la) = add_mset (fst e) (mset (waiting la2))" using y(3) y2 by (auto simp: admits_def split: prod.splits)
    then have "size (mset (waiting la)) = Suc (size (mset (waiting la2)))" by (simp only: size_add_mset)
    then have "length (waiting la2) < length (waiting la)" by simp
    from less.hyps [OF this] y(2) y2 obtain es la1 ks' rs' usage' la' where
      r: "admission_run w now es (la2, ks2, rs2, usage2) (la1, ks', rs', usage')"
      "form_loop w now (la2, ks2, rs2, usage2) = Some (la', ks', rs', usage')" "form_ok n (la', ks', rs', usage')"
      "mset (waiting la') = mset (waiting la1)" "per_partition_token_budget la' = per_partition_token_budget la1"
      "la_next_sequence la' = la_next_sequence la1" "head_blocked la1 ks' usage'"
      "la_policy la' = po_refresh_head (live_resident ks') (la_policy la1)" by blast
    have "form_loop w now (la, ks, rs, usage) = Some (la', ks', rs', usage')"
      using y(1) y2 r(2) by (subst form_loop.simps) simp
    moreover have "admission_run w now (e # es) (la, ks, rs, usage) (la1, ks', rs', usage')"
      using admission_run.admit [OF y(3)] r(1) y2 by simp
    ultimately show ?thesis using r(3-8) by blast
  qed
qed

text \<open>A run of admissions in one view.\<close>

definition tokens_at :: "partition_id \<Rightarrow> (AdmissionCandidate \<times> partition_id \<times> nat) list \<Rightarrow> nat list" where
  "tokens_at p es = map (\<lambda>(_, _, t). t) (filter (\<lambda>(_, q, _). q = p) es)"

definition requests_at :: "partition_id \<Rightarrow> (AdmissionCandidate \<times> partition_id \<times> nat) list \<Rightarrow> nat list" where
  "requests_at p es = map (\<lambda>(c, _, _). ac_request c) (filter (\<lambda>(_, q, _). q = p) es)"

lemma requests_at_eq: "requests_at p es = map (\<lambda>e. ac_request (fst e)) (filter (\<lambda>e. fst (snd e) = p) es)"
  by (simp add: requests_at_def case_prod_unfold)

lemma admission_run_view:
  assumes "admission_run w now es x z"
  shows "case (x, z) of ((la, ks, rs, usage), (la', ks', rs', usage')) \<Rightarrow>
    mset (waiting la) = mset (map fst es) + mset (waiting la') \<and> (\<forall>e \<in> set es. fst (snd e) < num_partitions ks)
    \<and> per_partition_token_budget la' = per_partition_token_budget la \<and> la_next_sequence la' = la_next_sequence la
    \<and> ks_partitions ks' = ks_partitions ks
    \<and> promise_order (ks_ledger ks') = promise_order (ks_ledger ks) @ map (\<lambda>(c, p, _). (p, ac_request c)) es
    \<and> chunked_prefill (ks_ledger ks') = chunked_prefill (ks_ledger ks) \<and> held (ks_ledger ks') = held (ks_ledger ks)
    \<and> (\<forall>q. q \<notin> ac_request ` fst ` set es \<longrightarrow> prefill_context (ks_ledger ks') q = prefill_context (ks_ledger ks) q)
    \<and> (\<forall>e \<in> set es. (\<exists>d. prefill_context (ks_ledger ks') (ac_request (fst e)) = Some d \<and> active_chunk_tokens d = snd (snd e))
        \<and> snd (snd e) \<le> ac_fresh_prompt (fst e) + declared_prefix_tokens (ac_session (fst e))
        \<and> (\<exists>a. get_record rs' (ac_request (fst e)) = Some a \<and> entered a))
    \<and> (\<forall>q. q \<notin> ac_request ` fst ` set es \<longrightarrow> get_record rs' q = get_record rs q)
    \<and> (num_partitions ks \<le> length usage \<longrightarrow> (\<forall>p < length usage.
        accepted_prefills (per_partition_token_budget la) (fst (usage ! p)) (snd (usage ! p)) (tokens_at p es)
        \<and> usage' ! p = (fst (usage ! p), snd (usage ! p) + sum_list (tokens_at p es))))
    \<and> length usage' = length usage"
  using assms
proof (induction rule: admission_run.induct)
  case (stop x)
  then show ?case by (auto simp: tokens_at_def split: prod.split)
next
  case (admit e x y es z)
  obtain la ks rs usage where x: "x = (la, ks, rs, usage)" by (cases x) auto
  obtain la2 ks2 rs2 usage2 where y: "y = (la2, ks2, rs2, usage2)" by (cases y) auto
  obtain la' ks' rs' usage' where z: "z = (la', ks', rs', usage')" by (cases z) auto
  obtain c p t where e: "e = (c, p, t)" by (cases e) auto
  note a = admit.hyps(1) [unfolded admits_def e x y, simplified]
  note ih = admit.IH [unfolded y z, simplified]
  have np: "num_partitions ks2 = num_partitions ks" using a by (simp add: num_partitions_def)
  have gates: "accepted_prefills (per_partition_token_budget la) (fst (usage ! q)) (snd (usage ! q)) (tokens_at q (e # es))
      \<and> usage' ! q = (fst (usage ! q), snd (usage ! q) + sum_list (tokens_at q (e # es)))"
    if "num_partitions ks \<le> length usage" "q < length usage" for q
  proof -
    have u2: "usage2 = usage[p := (fst (usage ! p), snd (usage ! p) + t)]" and p: "p < num_partitions ks"
      and gate: "prefill_fits_budget (per_partition_token_budget la) (fst (usage ! p)) (snd (usage ! p)) t"
      and budget: "per_partition_token_budget la2 = per_partition_token_budget la" using a by simp_all
    have "accepted_prefills (per_partition_token_budget la) (fst (usage2 ! q)) (snd (usage2 ! q)) (tokens_at q es)
      \<and> usage' ! q = (fst (usage2 ! q), snd (usage2 ! q) + sum_list (tokens_at q es))"
      using ih that np u2 budget by simp
    then show ?thesis using gate u2 p that by (cases "q = p") (simp_all add: tokens_at_def e)
  qed
  have rec: "\<exists>a. get_record rs' (ac_request c) = Some a \<and> entered a"
  proof (cases "ac_request c \<in> ac_request ` fst ` set es")
    case True
    then obtain e' where "e' \<in> set es" "ac_request (fst e') = ac_request c" by auto
    then show ?thesis using ih by metis
  qed (use ih a in simp)
  have keep: "get_record rs' q = get_record rs q" if "q \<notin> ac_request ` fst ` set (e # es)" for q
    using that ih a e by simp
  have here: "mset (waiting la) = add_mset c (mset (waiting la2))" "p < num_partitions ks"
    "per_partition_token_budget la2 = per_partition_token_budget la" "la_next_sequence la2 = la_next_sequence la"
    "ks_partitions ks2 = ks_partitions ks" "promise_order (ks_ledger ks2) = promise_order (ks_ledger ks) @ [(p, ac_request c)]"
    "chunked_prefill (ks_ledger ks2) = chunked_prefill (ks_ledger ks)" "held (ks_ledger ks2) = held (ks_ledger ks)"
    "length usage2 = length usage" using a by simp_all
  have later: "mset (waiting la2) = mset (map fst es) + mset (waiting la')" "\<forall>e \<in> set es. fst (snd e) < num_partitions ks2"
    "per_partition_token_budget la' = per_partition_token_budget la2" "la_next_sequence la' = la_next_sequence la2"
    "ks_partitions ks' = ks_partitions ks2"
    "promise_order (ks_ledger ks') = promise_order (ks_ledger ks2) @ map (\<lambda>(c, p, _). (p, ac_request c)) es"
    "chunked_prefill (ks_ledger ks') = chunked_prefill (ks_ledger ks2)" "held (ks_ledger ks') = held (ks_ledger ks2)"
    "length usage' = length usage2" using ih by simp_all
  have same: "prefill_context (ks_ledger ks') q = prefill_context (ks_ledger ks2) q" if "q \<notin> ac_request ` fst ` set es" for q
    using ih that by simp
  have ctx: "\<exists>d. prefill_context (ks_ledger ks') (ac_request c) = Some d \<and> active_chunk_tokens d = t"
  proof -
    have "fst e' \<in> set (waiting la2)" if "e' \<in> set es" for e'
      using arg_cong [OF later(1), of set_mset] that by auto
    then have "ac_request c \<notin> ac_request ` fst ` set es" using a by auto
    then have "prefill_context (ks_ledger ks') (ac_request c) = prefill_context (ks_ledger ks2) (ac_request c)" using same by blast
    then show ?thesis using a by auto
  qed
  have ctxs: "prefill_context (ks_ledger ks') q = prefill_context (ks_ledger ks) q" if "q \<notin> ac_request ` fst ` set (e # es)" for q
    using that same a by (simp add: e)
  have "\<forall>e' \<in> set es. (\<exists>d. prefill_context (ks_ledger ks') (ac_request (fst e')) = Some d \<and> active_chunk_tokens d = snd (snd e'))
      \<and> snd (snd e') \<le> ac_fresh_prompt (fst e') + declared_prefix_tokens (ac_session (fst e'))
      \<and> (\<exists>a. get_record rs' (ac_request (fst e')) = Some a \<and> entered a)" using ih by simp
  then show ?case unfolding x z prod.case using here later np gates rec keep ctx ctxs a [THEN conjunct2]
    by (simp add: e)
qed

subsection \<open>The worker between batches\<close>

definition prefilling :: "KvStore \<Rightarrow> nat list" where
  "prefilling ks = concat (map prefill_admits (ks_partitions ks))"

definition decoding :: "KvStore \<Rightarrow> nat list" where
  "decoding ks = concat (map (\<lambda>st. map fst (decodes st)) (ks_partitions ks))"

text \<open>A resident decode has as many steps left as its record has tokens to emit.\<close>

definition decode_tracks :: "'d RequestStore \<Rightarrow> nat \<times> ResidentDecode \<Rightarrow> bool" where
  "decode_tracks rs x \<longleftrightarrow> (\<exists>a. get_record rs (fst x) = Some a \<and> lc_admitted (ar_lifecycle a) \<and> 0 < emitted a \<and> 0 < remaining_decode (snd x)
     \<and> emitted a + remaining_decode (snd x) = target a)"

definition local_ok :: "nat \<Rightarrow> LocalAdmission \<Rightarrow> KvStore \<Rightarrow> 'd RequestStore \<Rightarrow> bool" where
  "local_ok n la ks rs \<longleftrightarrow> store_ok ks \<and> num_partitions ks = n \<and> 0 < n \<and> n \<le> 65535
     \<and> po_ok (la_policy la) \<and> balance_ok (la_balance la) \<and> per_partition_token_budget la \<le> u32_max
     \<and> length (waiting la) \<le> u32_max
     \<and> promised (ks_ledger ks) = [] \<and> chunked_prefill (ks_ledger ks) = []
     \<and> (\<forall>c \<in> set (waiting la). cand_ok rs c)
     \<and> distinct (map ac_request (waiting la) @ prefilling ks @ decoding ks)
     \<and> (\<forall>r \<in> set (prefilling ks). prefill_context (ks_ledger ks) r \<noteq> None
         \<and> (\<exists>a. get_record rs r = Some a \<and> entered a))
     \<and> (\<forall>st \<in> set (ks_partitions ks). \<forall>x \<in> set (decodes st). decode_tracks rs x)"

lemma drain_ready_ledger:
  assumes "store_ok s" and "drain_ready s = Some s'"
  shows "ks_ledger s' = with_reserved (num_partitions s) ((ks_ledger s)\<lparr>promised := []\<rparr>)"
proof -
  let ?l = "with_reserved (num_partitions s) ((ks_ledger s)\<lparr>promised := []\<rparr>)"
  have "fold_opt (\<lambda>(p, r) s. do { st \<leftarrow> partition_at s p; Some (set_partition s p (add_prefill_admit st r)) })
      (promise_order (ks_ledger s)) (s\<lparr>ks_ledger := ?l\<rparr>) = Some s'"
    using assms(2) drain_promised_eq [OF store_ledger_ok [OF assms(1)]] by (simp add: drain_ready_def)
  then show ?thesis
    by (rule fold_opt_invariant [where P = "\<lambda>t. ks_ledger t = ?l", rotated]) (auto simp: bind_Some_iff)
qed

lemma prefilling_at: "num_partitions ks = n \<Longrightarrow> prefilling ks = concat (map (\<lambda>p. prefill_admits (ks_partitions ks ! p)) [0..<n])"
  by (auto simp: prefilling_def num_partitions_def intro!: arg_cong [of _ _ concat] nth_equalityI)

lemma decoding_at: "num_partitions ks = n \<Longrightarrow> decoding ks = concat (map (\<lambda>p. map fst (decodes (ks_partitions ks ! p))) [0..<n])"
  by (auto simp: decoding_def num_partitions_def intro!: arg_cong [of _ _ concat] nth_equalityI)

lemma mset_requests_at:
  assumes "\<forall>e \<in> set es. fst (snd e) < n"
  shows "mset (concat (map (\<lambda>p. requests_at p es) [0..<n])) = mset (map (\<lambda>e. ac_request (fst e)) es)"
  using assms
proof (induction es)
  case Nil
  have "concat (map (\<lambda>p. requests_at p []) [0..<n]) = []" by (simp add: requests_at_def)
  then show ?case by simp
next
  case (Cons e es)
  obtain c q t where e: "e = (c, q, t)" by (cases e) auto
  have one: "(\<Sum>p\<leftarrow>[0..<n]. (if q = p then {#ac_request c#} else {#})) = {#ac_request c#}"
    using Cons.prems e by (simp add: interv_sum_list_conv_sum_set_nat)
  have "mset (concat (map (\<lambda>p. requests_at p (e # es)) [0..<n]))
      = (\<Sum>p\<leftarrow>[0..<n]. (if q = p then {#ac_request c#} else {#}) + mset (requests_at p es))"
    unfolding mset_concat by (intro arg_cong [of _ _ sum_list]) (auto simp: requests_at_def e)
  also have "\<dots> = {#ac_request c#} + mset (concat (map (\<lambda>p. requests_at p es) [0..<n]))"
    unfolding sum_list_addf one by (simp add: mset_concat comp_def)
  finally show ?case using Cons by (simp add: e)
qed

lemma any_partition_eq:
  "(\<And>p. p < n \<Longrightarrow> f p = Some (g p)) \<Longrightarrow> any_partition f n = Some (\<exists>p < n. g p)"
  using those_map_Some [of "[0..<n]" f g] by (auto simp: any_partition_def list_ex_iff)

definition live_at :: "KvStore \<Rightarrow> partition_id \<Rightarrow> nat" where
  "live_at ks p = live_decode_count (ks_partitions ks ! p)"

lemma local_okD:
  assumes "local_ok n la ks rs"
  shows "store_ok ks" and "num_partitions ks = n" and "0 < n" and "n \<le> 65535" and "po_ok (la_policy la)"
    and "balance_ok (la_balance la)" and "per_partition_token_budget la \<le> u32_max" and "length (waiting la) \<le> u32_max"
    and "promised (ks_ledger ks) = []" and "chunked_prefill (ks_ledger ks) = []"
    and "c \<in> set (waiting la) \<Longrightarrow> cand_ok rs c"
    and "distinct (map ac_request (waiting la) @ prefilling ks @ decoding ks)"
    and "r \<in> set (prefilling ks) \<Longrightarrow> prefill_context (ks_ledger ks) r \<noteq> None \<and> (\<exists>a. get_record rs r = Some a \<and> entered a)"
    and "st \<in> set (ks_partitions ks) \<Longrightarrow> x \<in> set (decodes st) \<Longrightarrow> decode_tracks rs x"
  using assms unfolding local_ok_def by blast+

lemma form_batch_ok:
  assumes "local_ok n la ks rs" and "prefilling ks = []"
  shows "\<exists>es la1 ks1 usage la' ks' rs' run. local_form_batch w la ks rs now = Some (la', ks', rs', run)
    \<and> admission_run w now es (la, ks, rs, map (\<lambda>p. (live_at ks p, 0)) [0..<n]) (la1, ks1, rs', usage)
    \<and> usage = map (\<lambda>p. (live_at ks p, sum_list (tokens_at p es))) [0..<n]
    \<and> head_blocked la1 ks1 usage \<and> la_policy la' = po_refresh_head (live_resident ks1) (la_policy la1)
    \<and> local_ok n la' ks' rs' \<and> mset (waiting la) = mset (map fst es) + mset (waiting la')
    \<and> drain_ready ks1 = Some ks'
    \<and> (\<forall>p < n. accepted_prefills (per_partition_token_budget la) (live_at ks p) 0 (tokens_at p es)
        \<and> prefill_admits (ks_partitions ks' ! p) = requests_at p es
        \<and> decodes (ks_partitions ks' ! p) = decodes (ks_partitions ks ! p))
    \<and> (run \<longleftrightarrow> (\<exists>p < n. has_live_decode (ks_partitions ks ! p)) \<or> es \<noteq> [])
    \<and> (\<forall>q. q \<notin> ac_request ` fst ` set es \<longrightarrow> get_record rs' q = get_record rs q)
    \<and> mset (map ac_request (waiting la)) = mset (map ac_request (waiting la')) + mset (prefilling ks')
    \<and> decoding ks' = decoding ks
    \<and> (\<forall>e \<in> set es. (\<exists>d. resolved_prefill_context ks' (ac_request (fst e)) = Some d \<and> active_chunk_tokens d = snd (snd e))
        \<and> fst e \<in> set (waiting la) \<and> snd (snd e) \<le> ac_fresh_prompt (fst e) + declared_prefix_tokens (ac_session (fst e)))"
proof -
  note l = local_okD [OF assms(1)]
  let ?usage = "map (\<lambda>p. (live_at ks p, 0)) [0..<n]"
  have counts: "those (map (store_live_decode_count ks) [0..<n]) = Some (map (live_at ks) [0..<n])"
    by (rule those_map_Some) (use l(2) in \<open>simp add: store_live_decode_count_def partition_at_ok live_at_def\<close>)
  have had: "any_partition (store_has_live_decode ks) n = Some (\<exists>p < n. has_live_decode (ks_partitions ks ! p))"
    by (rule any_partition_eq) (use l(2) in \<open>simp add: store_has_live_decode_def partition_at_ok\<close>)
  have "form_ok n (la, ks, rs, ?usage)"
    using l by (simp add: form_ok_def reserved_count_def alist_sum_def)
  from form_loop_ok [OF this, of w now] obtain es la1 ks1 rs' usage la' where
    run: "admission_run w now es (la, ks, rs, ?usage) (la1, ks1, rs', usage)"
    and loop: "form_loop w now (la, ks, rs, ?usage) = Some (la', ks1, rs', usage)"
    and ok1: "form_ok n (la', ks1, rs', usage)" and same: "mset (waiting la') = mset (waiting la1)"
    "per_partition_token_budget la' = per_partition_token_budget la1"
    and blocked: "head_blocked la1 ks1 usage" "la_policy la' = po_refresh_head (live_resident ks1) (la_policy la1)" by blast
  note v = admission_run_view [OF run, simplified]
  have used: "usage = map (\<lambda>p. (live_at ks p, sum_list (tokens_at p es))) [0..<n]"
    using v l(2) by (intro nth_equalityI) simp_all
  have s1: "store_ok ks1" "num_partitions ks1 = n" using ok1 by (simp_all add: form_ok_def)
  obtain ks' where d: "drain_ready ks1 = Some ks'" "store_ok ks'" "num_partitions ks' = n"
    "\<forall>p < n. prefill_admits (ks_partitions ks' ! p) =
      prefill_admits (ks_partitions ks1 ! p) @ map snd (filter (\<lambda>x. fst x = p) (promise_order (ks_ledger ks1)))"
    using drain_ready_ok [OF s1(1)] s1(2) by auto
  have dec: "decodes (ks_partitions ks' ! p) = decodes (ks_partitions ks ! p)" if "p < n" for p
    using drain_ready_tiers [OF s1(1)] d(1) s1(2) that v by auto
  have ledger: "ks_ledger ks' = with_reserved n ((ks_ledger ks1)\<lparr>promised := []\<rparr>)"
    using drain_ready_ledger [OF s1(1) d(1)] s1(2) by simp
  have empty: "prefill_admits (ks_partitions ks ! p) = []" if "p < n" for p
    using assms(2) that l(2) by (auto simp: prefilling_def num_partitions_def)
  have order: "promise_order (ks_ledger ks1) = map (\<lambda>(c, p, _). (p, ac_request c)) es"
    using v l(9) by (simp add: promise_order_def)
  have admits: "prefill_admits (ks_partitions ks' ! p) = requests_at p es" if "p < n" for p
    using d(4) that empty [OF that] v by (simp add: order requests_at_eq filter_map comp_def case_prod_unfold)
  have range: "\<forall>e \<in> set es. fst (snd e) < n" using v l(2) by simp
  have parts: "num_partitions ks' = n" by (rule d(3))
  have pre: "prefilling ks' = concat (map (\<lambda>p. requests_at p es) [0..<n])"
    unfolding prefilling_at [OF parts] by (intro arg_cong [of _ _ concat] map_cong) (simp_all add: admits)
  have "decoding ks' = decoding ks"
    unfolding decoding_at [OF parts] decoding_at [OF l(2)] by (intro arg_cong [of _ _ concat] map_cong) (simp_all add: dec)
  note dc = this
  have ids: "mset (map ac_request (waiting la)) = mset (map ac_request (waiting la')) + mset (prefilling ks')"
    unfolding pre mset_requests_at [OF range] using v same(1) by (simp add: image_mset.compositionality comp_def)
  have distinct: "distinct (map ac_request (waiting la') @ prefilling ks' @ decoding ks')"
  proof -
    have "mset (map ac_request (waiting la') @ prefilling ks' @ decoding ks')
        = mset (map ac_request (waiting la) @ prefilling ks @ decoding ks)"
      using ids assms(2) dc by simp
    then show ?thesis using l(12) mset_eq_imp_distinct_iff by blast
  qed
  have memb: "r \<in> set (prefilling ks') \<longleftrightarrow> r \<in> ac_request ` fst ` set es" for r
    using arg_cong [OF mset_requests_at [OF range], of set_mset] unfolding pre by (auto simp: image_image)
  have keep: "get_record rs' q = get_record rs q" if "q \<notin> set (prefilling ks')" for q
    using v that memb by simp
  have started: "prefill_context (ks_ledger ks') r \<noteq> None \<and> (\<exists>a. get_record rs' r = Some a \<and> entered a)"
    if r: "r \<in> set (prefilling ks')" for r
  proof -
    obtain e where e: "e \<in> set es" "r = ac_request (fst e)" using r memb by auto
    have "prefill_context (ks_ledger ks1) r \<noteq> None \<and> (\<exists>a. get_record rs' r = Some a \<and> entered a)"
      using v e by auto
    then show ?thesis by (simp add: ledger prefill_context_def)
  qed
  have tracks: "decode_tracks rs' x" if here: "st \<in> set (ks_partitions ks')" "x \<in> set (decodes st)" for st x
  proof -
    obtain p where p: "p < n" "st = ks_partitions ks' ! p"
      using here(1) parts by (auto simp: in_set_conv_nth num_partitions_def)
    have x: "x \<in> set (decodes (ks_partitions ks ! p))" using here(2) p dec by simp
    have st: "ks_partitions ks ! p \<in> set (ks_partitions ks)" using p(1) l(2) by (simp add: num_partitions_def)
    have "fst x \<in> set (decoding ks)" using x st by (auto simp: decoding_def)
    then have "fst x \<notin> set (prefilling ks')" using distinct dc by auto
    then show ?thesis using l(14) [OF st x] keep by (simp add: decode_tracks_def)
  qed
  have "local_ok n la' ks' rs'"
  proof -
    have "length (waiting la') = length (waiting la1)" using arg_cong [OF same(1), of size] by simp
    then have "length (waiting la') \<le> u32_max"
      using arg_cong [OF v [THEN conjunct1], of size] l(8) by simp
    moreover have "\<forall>c \<in> set (waiting la'). cand_ok rs' c" using ok1 by (simp add: form_ok_def)
    ultimately show ?thesis using ok1 d(2) parts distinct started tracks l(3,4) v l(10)
      by (simp add: local_ok_def form_ok_def ledger)
  qed
  moreover have "accepted_prefills (per_partition_token_budget la) (live_at ks p) 0 (tokens_at p es)" if "p < n" for p
    using v that l(2) by simp
  moreover have "any_partition (has_prefill_admit ks') n = Some (es \<noteq> [])"
  proof -
    have "any_partition (has_prefill_admit ks') n = Some (\<exists>p < n. requests_at p es \<noteq> [])"
      by (rule any_partition_eq) (use parts admits in \<open>simp add: has_prefill_admit_def partition_at_ok\<close>)
    moreover have "(\<exists>p < n. requests_at p es \<noteq> []) \<longleftrightarrow> es \<noteq> []"
    proof -
      have "(\<exists>p < n. requests_at p es \<noteq> []) \<longleftrightarrow> prefilling ks' \<noteq> []" unfolding pre by auto
      moreover have "length (prefilling ks') = length es"
        using arg_cong [OF mset_requests_at [OF range], of size] unfolding pre [symmetric] by simp
      ultimately show ?thesis by (metis length_0_conv)
    qed
    ultimately show ?thesis by simp
  qed
  moreover have "local_form_batch w la ks rs now = Some (la', ks', rs', (\<exists>p < n. has_live_decode (ks_partitions ks ! p)) \<or> es \<noteq> [])"
    using calculation had counts loop d(1) l(2,4) by (simp add: local_form_batch_def Let_def comp_def as_u16_def)
  moreover have "mset (waiting la) = mset (map fst es) + mset (waiting la')" using v same(1) by simp
  moreover have "\<forall>q. q \<notin> ac_request ` fst ` set es \<longrightarrow> get_record rs' q = get_record rs q" using v by simp
  moreover have "\<forall>e \<in> set es. (\<exists>d. resolved_prefill_context ks' (ac_request (fst e)) = Some d \<and> active_chunk_tokens d = snd (snd e))
        \<and> fst e \<in> set (waiting la) \<and> snd (snd e) \<le> ac_fresh_prompt (fst e) + declared_prefix_tokens (ac_session (fst e))"
  proof
    fix e assume e: "e \<in> set es"
    then have "fst e \<in> set (waiting la)" using arg_cong [OF v [THEN conjunct1], of set_mset] by auto
    moreover have "(\<exists>d. prefill_context (ks_ledger ks1) (ac_request (fst e)) = Some d \<and> active_chunk_tokens d = snd (snd e))
        \<and> snd (snd e) \<le> ac_fresh_prompt (fst e) + declared_prefix_tokens (ac_session (fst e))" using v e by blast
    ultimately show "(\<exists>d. resolved_prefill_context ks' (ac_request (fst e)) = Some d \<and> active_chunk_tokens d = snd (snd e))
        \<and> fst e \<in> set (waiting la) \<and> snd (snd e) \<le> ac_fresh_prompt (fst e) + declared_prefix_tokens (ac_session (fst e))"
      by (simp add: resolved_prefill_context_def ledger prefill_context_def)
  qed
  ultimately show ?thesis using run blocked used d(1) admits dec ids dc by blast
qed

subsection \<open>Accepting and cancelling\<close>

definition candidate_of :: "'d ActiveRequest \<Rightarrow> nat \<Rightarrow> nat \<Rightarrow> nat \<Rightarrow> AdmissionCandidate" where
  "candidate_of a r k resident = \<lparr>ac_request = r, ac_sequence = k, ac_fresh_prompt = prompt_tokens (definition_of a),
     ac_remaining_output = target_output_tokens (definition_of a), ac_session = td_session (definition_of a),
     ac_start_time = session_start_or (td_session (definition_of a)) (rc_arrival_time (rq_core (ar_request a))),
     ac_resident_prefix = resident, ac_retracted = False\<rparr>"

text \<open>A request that has just arrived, with a prompt the \<open>u32\<close> sums can hold.\<close>

definition newcomer :: "'d ActiveRequest \<Rightarrow> bool" where
  "newcomer a \<longleftrightarrow> emitted a = 0 \<and> tl_prefix_cache_hit_tokens (ar_telemetry a) = None
     \<and> prompt_tokens (definition_of a) + declared_prefix_tokens (td_session (definition_of a)) \<le> u32_max"

lemma distinct_mset_le:
  assumes "mset xs \<subseteq># mset ys" and "distinct ys"
  shows "distinct xs"
proof -
  obtain zs where "mset ys = mset (xs @ zs)" using assms(1) ex_mset by (metis mset_append mset_subset_eq_exists_conv)
  then show ?thesis using assms(2) mset_eq_imp_distinct_iff by fastforce
qed

lemma store_resident_returns:
  assumes "store_ok s" and "0 < num_partitions s" and "fresh + declared_prefix_tokens si \<le> u32_max"
  shows "\<exists>k. store_resident_prefix_tokens s fresh si = Some k"
proof -
  have "\<exists>c. preview_prefill_context s p fresh si = Some c" if "p < num_partitions s" for p
    by (rule preview_returns [OF assms(1) that assms(3)])
  then show ?thesis using assms(2) retained_in_range [OF assms(1), of si]
    by (auto simp: store_resident_prefix_tokens_def split: SessionInput.split option.split)
qed

lemma local_accept_ok:
  assumes "local_ok n la ks rs" and "get_record rs r = Some a" and "newcomer a"
    and "r \<notin> set (map ac_request (waiting la) @ prefilling ks @ decoding ks)"
    and "la_next_sequence la < u64_max" and "length (waiting la) < u32_max"
  shows "\<exists>la' rs' k. local_accept_message w la ks rs r = Some (la', rs') \<and> local_ok n la' ks rs'
    \<and> mset (waiting la') = add_mset (candidate_of a r (la_next_sequence la) k) (mset (waiting la))
    \<and> (\<exists>a'. get_record rs' r = Some a' \<and> ar_request a' = ar_request a \<and> emitted a' = 0)
    \<and> (\<forall>q. q \<noteq> r \<longrightarrow> get_record rs' q = get_record rs q)"
proof -
  note l = local_okD [OF assms(1)]
  have fits: "prompt_tokens (definition_of a) + declared_prefix_tokens (td_session (definition_of a)) \<le> u32_max"
    using assms(3) by (simp add: newcomer_def)
  have "0 < num_partitions ks" using l(2,3) by simp
  from store_resident_returns [OF l(1) this fits] obtain k where
    k: "store_resident_prefix_tokens ks (prompt_tokens (definition_of a)) (td_session (definition_of a)) = Some k" by blast
  let ?c = "candidate_of a r (la_next_sequence la) k"
  let ?t = "rc_arrival_time (rq_core (ar_request a))"
  let ?a' = "stamp_stage w a ?t (unified_code StagePending)"
  let ?la' = "la\<lparr>la_policy := po_push (la_policy la) ?c, la_next_sequence := la_next_sequence la + 1\<rparr>"
  let ?rs' = "put_record rs r ?a'"
  have new: "ac_request ?c \<notin> ac_request ` set (waiting la)" using assms(4) by (auto simp: candidate_of_def)
  then have "\<not> po_contains (la_policy la) r" using po_contains_iff by (auto simp: candidate_of_def)
  then have go: "local_accept_message w la ks rs r = Some (?la', ?rs')"
    using assms(2,5) k
    by (simp add: local_accept_message_def Let_def freeze_candidate_def checked_add_u64_def candidate_of_def)
  have push: "po_ok (po_push (la_policy la) ?c)" "mset (waiting ?la') = add_mset ?c (mset (waiting la))"
    using po.push_law [OF l(5) new] by simp_all
  have mem: "set (waiting ?la') = insert ?c (set (waiting la))" using arg_cong [OF push(2), of set_mset] by simp
  have len: "length (waiting ?la') = Suc (length (waiting la))" using arg_cong [OF push(2), of size] by simp
  have same: "get_record ?rs' q = get_record rs q" if "q \<noteq> r" for q using that assms(2) by simp
  have here: "get_record ?rs' r = Some ?a'" using assms(2) by simp
  have facts: "ar_request ?a' = ar_request a" "ar_progress ?a' = ar_progress a" "ar_telemetry ?a' = ar_telemetry a"
    by (simp_all add: stamp_stage_def)
  have cand: "cand_ok ?rs' c" if "c \<in> set (waiting ?la')" for c
  proof (cases "c = ?c")
    case True
    then show ?thesis using here facts assms(3) by (simp add: cand_ok_def candidate_of_def newcomer_def)
  next
    case False
    then have c: "c \<in> set (waiting la)" using that mem by simp
    then have "ac_request c \<noteq> r" using assms(4) by auto
    then show ?thesis using l(11) [OF c] same by (simp add: cand_ok_def)
  qed
  have started: "prefill_context (ks_ledger ks) q \<noteq> None \<and> (\<exists>b. get_record ?rs' q = Some b \<and> entered b)"
    if "q \<in> set (prefilling ks)" for q
  proof -
    have "q \<noteq> r" using that assms(4) by auto
    then show ?thesis using l(13) [OF that] same by simp
  qed
  have tracks: "decode_tracks ?rs' x" if st: "st \<in> set (ks_partitions ks)" "x \<in> set (decodes st)" for st x
  proof -
    have "fst x \<in> set (decoding ks)" using st by (auto simp: decoding_def)
    then have "fst x \<noteq> r" using assms(4) by auto
    then show ?thesis using l(14) [OF st] same by (simp add: decode_tracks_def)
  qed
  have "mset (map ac_request (waiting ?la') @ prefilling ks @ decoding ks)
      = mset (r # map ac_request (waiting la) @ prefilling ks @ decoding ks)"
    using arg_cong [OF push(2), of "image_mset ac_request"] by (simp add: candidate_of_def)
  moreover have "distinct (r # map ac_request (waiting la) @ prefilling ks @ decoding ks)"
    using l(12) assms(4) by simp
  ultimately have "distinct (map ac_request (waiting ?la') @ prefilling ks @ decoding ks)"
    using mset_eq_imp_distinct_iff by blast
  then have "local_ok n ?la' ks ?rs'"
    using l(1-4,6-10) push(1) len assms(6) cand started tracks by (simp add: local_ok_def)
  then show ?thesis using go push(2) here facts same assms(3)
    by (intro exI [of _ ?la'] exI [of _ ?rs'] exI [of _ k]) (simp add: newcomer_def)
qed

lemma local_cancel_ok:
  assumes "local_ok n la ks rs"
  shows "\<exists>la' q. local_cancel_pending la r = Some (la', q) \<and> local_ok n la' ks rs
    \<and> mset (waiting la') = filter_mset (\<lambda>c. ac_request c \<noteq> r) (mset (waiting la))
    \<and> (q \<longleftrightarrow> r \<in> ac_request ` set (waiting la))"
proof -
  note l = local_okD [OF assms]
  from po.remove_law [OF l(5), of r] obtain p' where
    p': "po_remove (la_policy la) r = Some (p', find (\<lambda>c. ac_request c = r) (waiting la))" "po_ok p'"
    "mset (po_waiting p') = filter_mset (\<lambda>c. ac_request c \<noteq> r) (mset (waiting la))" by blast
  let ?la' = "la\<lparr>la_policy := p'\<rparr>"
  have mem: "set (waiting ?la') \<subseteq> set (waiting la)" using arg_cong [OF p'(3), of set_mset] by auto
  have sub: "mset (waiting ?la') \<subseteq># mset (waiting la)" using p'(3) by simp
  then have "length (waiting ?la') \<le> length (waiting la)" using size_mset_mono by fastforce
  moreover have "distinct (map ac_request (waiting ?la') @ prefilling ks @ decoding ks)"
    by (rule distinct_mset_le [OF _ l(12)]) (use sub in \<open>simp add: image_mset_subseteq_mono\<close>)
  ultimately have "local_ok n ?la' ks rs"
    using l p'(2) mem by (auto simp: local_ok_def)
  moreover have "find (\<lambda>c. ac_request c = r) (waiting la) \<noteq> None \<longleftrightarrow> r \<in> ac_request ` set (waiting la)"
    by (auto simp: find_None_iff image_iff)
  ultimately show ?thesis using p' by (simp add: local_cancel_pending_def)
qed
subsection \<open>A concrete worker\<close>

definition sample_admission :: LocalAdmission where
  "sample_admission = new_local_admission (new_pending FifoKind) (Some 64) Single"

definition sample_context :: WorkerContext where
  "sample_context = \<lparr>wc_id = 3, wc_pool = 0, log_output_token_times = True, log_stage_transitions = True\<rparr>"

lemma sample_admission_facts:
  "po_ok (la_policy sample_admission)" "balance_ok (la_balance sample_admission)" "waiting sample_admission = []"
  "per_partition_token_budget sample_admission \<le> u32_max" "la_next_sequence sample_admission = 0"
  using new_pending_ok [of FifoKind]
  by (simp_all add: sample_admission_def new_local_admission_def balance_ok_def needs_load_def u32_max_def)

lemma sample_empty:
  "prefilling sample_store = []" "decoding sample_store = []" "promised (ks_ledger sample_store) = []"
  "chunked_prefill (ks_ledger sample_store) = []"
  using sample_store(2,4)
  by (simp_all add: prefilling_at [of _ 1] decoding_at [of _ 1] new_partition_def)
    (simp_all add: sample_store_def new_store_def new_ledger_def)

lemma sample_local_ok: "local_ok 1 sample_admission sample_store rs"
proof -
  have "decodes st = []" if "st \<in> set (ks_partitions sample_store)" for st
    using that sample_store(2,4) by (auto simp: num_partitions_def in_set_conv_nth new_partition_def)
  then show ?thesis using sample_store(1,2) sample_admission_facts sample_empty by (simp add: local_ok_def u32_max_def)
qed

lemma sample_newcomer: "get_record sample_requests 0 = Some (from_request (sample_request 0))"
  "newcomer (from_request (sample_request 0))"
  by (simp_all add: sample_requests_def get_record_def nth_opt_def newcomer_def from_request_def sample_request_def
      declared_prefix_tokens_def u32_max_def initial_telemetry_def)

lemma sample_accepted:
  "\<exists>la rs k. local_accept_message sample_context sample_admission sample_store sample_requests 0 = Some (la, rs)
     \<and> local_ok 1 la sample_store rs
     \<and> mset (waiting la) = {# candidate_of (from_request (sample_request 0)) 0 0 k #}"
  using local_accept_ok [OF sample_local_ok sample_newcomer, of sample_context] sample_admission_facts sample_empty
  by (simp add: u32_max_def u64_max_def) blast


end
