(* ===== verification/Local_Completion.thy ===== *)
theory Local_Completion
  imports Local_Lifecycle
begin

section \<open>Completing an iteration of the local lifecycle\<close>

subsection \<open>Completing an iteration: the records\<close>

text \<open>Every request that ran has one more token; it is done when that was its last.\<close>

definition bumped :: "'d RequestStore \<Rightarrow> 'd RequestStore \<Rightarrow> nat \<Rightarrow> bool" where
  "bumped rs rs' r \<longleftrightarrow> (\<exists>a a'. get_record rs r = Some a \<and> get_record rs' r = Some a'
     \<and> ar_request a' = ar_request a \<and> emitted a' = emitted a + 1
     \<and> lc_admitted (ar_lifecycle a') = lc_admitted (ar_lifecycle a) \<and> (is_complete a' \<longrightarrow> lc_completed (ar_lifecycle a')))"

lemma bumped_cong: "get_record rs2 r = get_record rs1 r \<Longrightarrow> bumped rs rs2 r = bumped rs rs1 r"
  by (simp add: bumped_def)

definition finishes :: "'d RequestStore \<Rightarrow> nat \<Rightarrow> bool" where
  "finishes rs r \<longleftrightarrow> (case get_record rs r of Some a \<Rightarrow> target a \<le> emitted a + 1 | None \<Rightarrow> False)"

lemma finishes_cong: "get_record rs' r = get_record rs r \<Longrightarrow> finishes rs' r = finishes rs r"
  by (simp add: finishes_def)

lemma record_token_facts:
  "ar_request (record_token a now log) = ar_request a" "emitted (record_token a now log) = emitted a + 1"
  "is_complete (record_token a now log) \<longleftrightarrow> target a \<le> emitted a + 1"
  "lc_admitted (ar_lifecycle (record_token a now log)) = lc_admitted (ar_lifecycle a)"
  by (simp_all add: record_token_def Let_def is_complete_def)

lemma record_first_token_facts:
  "ar_request (record_first_token a now log) = ar_request a" "emitted (record_first_token a now log) = 1"
  "is_complete (record_first_token a now log) \<longleftrightarrow> target a \<le> 1"
  "lc_admitted (ar_lifecycle (record_first_token a now log)) = lc_admitted (ar_lifecycle a)"
  by (simp_all add: record_first_token_def Let_def is_complete_def)

text \<open>A request whose last token is recorded is marked completed.\<close>

lemma completion_marked:
  "is_complete (record_stage a t c p k log) = is_complete a"
  "lc_completed (ar_lifecycle (record_stage a t c p k log)) = lc_completed (ar_lifecycle a)"
  "is_complete (record_token a now log) \<Longrightarrow> lc_completed (ar_lifecycle (record_token a now log))"
  "is_complete (record_first_token a now log) \<Longrightarrow> lc_completed (ar_lifecycle (record_first_token a now log))"
  by (simp_all add: record_stage_def record_token_def record_first_token_def is_complete_def Let_def)

lemma complete_members_ok:
  assumes "distinct (map fst xs)" and "\<forall>x \<in> set xs. get_record rs (fst x) \<noteq> None"
  shows "\<exists>rs'. fold_opt (complete_decode_member w now) xs (rs, acc) = Some (rs', acc @ filter (finishes rs) (map fst xs))
    \<and> (\<forall>r \<in> fst ` set xs. bumped rs rs' r) \<and> (\<forall>r. r \<notin> fst ` set xs \<longrightarrow> get_record rs' r = get_record rs r)"
  using assms
proof (induction xs arbitrary: rs acc)
  case (Cons x xs)
  obtain r k where x: "x = (r, k)" by (cases x)
  obtain a where a: "get_record rs r = Some a" using Cons.prems(2) x by auto
  let ?a1 = "record_token a now (log_output_token_times w)"
  let ?a2 = "if finishes rs r then stamp_stage w ?a1 now (unified_code StageDone) else ?a1"
  let ?rs1 = "put_record rs r ?a2" and ?acc1 = "acc @ filter (finishes rs) [r]"
  have fin: "finishes rs r \<longleftrightarrow> is_complete ?a1" using a by (simp add: finishes_def record_token_facts)
  have step: "complete_decode_member w now x (rs, acc) = Some (?rs1, ?acc1)"
    using a by (simp add: complete_decode_member_def x fin Let_def)
  have notin: "r \<notin> fst ` set xs" using Cons.prems(1) x by simp
  have same: "get_record ?rs1 q = get_record rs q" if "q \<noteq> r" for q using that a by simp
  have "\<forall>y \<in> set xs. get_record ?rs1 (fst y) \<noteq> None" using Cons.prems(2) notin same by (auto simp: a)
  from Cons.IH [OF _ this, of ?acc1] Cons.prems(1) obtain rs' where
    ih: "fold_opt (complete_decode_member w now) xs (?rs1, ?acc1) = Some (rs', ?acc1 @ filter (finishes ?rs1) (map fst xs))"
    "\<forall>q \<in> fst ` set xs. bumped ?rs1 rs' q" "\<forall>q. q \<notin> fst ` set xs \<longrightarrow> get_record rs' q = get_record ?rs1 q"
    by auto
  have fins: "filter (finishes ?rs1) (map fst xs) = filter (finishes rs) (map fst xs)"
  proof (rule filter_cong [OF refl])
    fix q
    assume "q \<in> set (map fst xs)"
    then have "q \<noteq> r" using notin by auto
    then show "finishes ?rs1 q = finishes rs q" by (intro finishes_cong same)
  qed
  have "bumped rs rs' r"
    using ih(3) notin a by (simp add: bumped_def stamp_stage_def record_token_facts(1,2,4) completion_marked)
  moreover have "bumped rs rs' q" if "q \<in> fst ` set xs" for q
    using bspec [OF ih(2) that] same [of q] that notin unfolding bumped_def by (cases "q = r") simp_all
  moreover have "get_record rs' q = get_record rs q" if "q \<notin> fst ` set (x # xs)" for q
    using ih(3) that same x by simp
  moreover have "fold_opt (complete_decode_member w now) (x # xs) (rs, acc)
      = Some (rs', acc @ filter (finishes rs) (map fst (x # xs)))"
    using step ih(1) fins x by simp
  ultimately show ?case using x by (metis fst_conv image_insert insert_iff list.set(2))
qed simp

text \<open>The context a prefill enters its decode with.\<close>

definition entry_context :: "KvStore \<Rightarrow> nat \<Rightarrow> nat" where
  "entry_context ks r = post_prefill_context_tokens (the (resolved_prefill_context ks r))"

lemma complete_prefills_ok:
  assumes "distinct xs" and "\<forall>r \<in> set xs. (\<exists>a. get_record rs r = Some a \<and> entered a) \<and> prefill_context (ks_ledger ks) r \<noteq> None"
  shows "\<exists>rs' fin'. fold_opt (complete_prefill_admit w ks now) xs (rs, acc, fin)
      = Some (rs', acc @ filter (finishes rs) xs, fin @ fin')
    \<and> map fst fin' = filter (\<lambda>r. \<not> finishes rs r) xs
    \<and> map (\<lambda>y. fst (snd y)) fin' = map (entry_context ks) (filter (\<lambda>r. \<not> finishes rs r) xs)
    \<and> (\<forall>(r, _, remaining) \<in> set fin'. \<exists>a. get_record rs r = Some a \<and> target a = remaining + 1 \<and> 0 < remaining)
    \<and> (\<forall>r \<in> set xs. bumped rs rs' r) \<and> (\<forall>r. r \<notin> set xs \<longrightarrow> get_record rs' r = get_record rs r)"
  using assms
proof (induction xs arbitrary: rs acc fin)
  case (Cons r xs)
  obtain a where a: "get_record rs r = Some a" "emitted a = 0" using Cons.prems(2) by auto
  obtain ctx where ctx: "resolved_prefill_context ks r = Some ctx"
    using Cons.prems(2) by (auto simp: resolved_prefill_context_def)
  let ?a0 = "a\<lparr>ar_progress := (ar_progress a)\<lparr>prefill_tokens_processed := prefill_tokens_to_compute ctx\<rparr>\<rparr>"
  let ?a1 = "record_first_token ?a0 now (log_output_token_times w)"
  let ?a2 = "stamp_stage w ?a1 now (unified_code (if finishes rs r then StageDone else StageDecode))"
  let ?rs1 = "put_record rs r ?a2" and ?acc1 = "acc @ filter (finishes rs) [r]"
  let ?fin1 = "if finishes rs r then [] else [(r, post_prefill_context_tokens ctx, target ?a1 - emitted ?a1)]"
  have done': "is_complete ?a1 \<longleftrightarrow> finishes rs r" using a by (simp add: finishes_def record_first_token_facts)
  have step: "complete_prefill_admit w ks now r (rs, acc, fin) = Some (?rs1, ?acc1, fin @ ?fin1)"
    using a ctx done' by (simp add: complete_prefill_admit_def Let_def)
  have same: "get_record ?rs1 q = get_record rs q" if "q \<noteq> r" for q using that a by simp
  have notin: "r \<notin> set xs" using Cons.prems(1) by simp
  have "\<forall>q \<in> set xs. (\<exists>a. get_record ?rs1 q = Some a \<and> entered a) \<and> prefill_context (ks_ledger ks) q \<noteq> None"
    using Cons.prems(2) notin same by (metis list.set_intros(2))
  from Cons.IH [OF _ this, of ?acc1 "fin @ ?fin1"] Cons.prems(1) obtain rs' fin' where
    ih: "fold_opt (complete_prefill_admit w ks now) xs (?rs1, ?acc1, fin @ ?fin1)
      = Some (rs', ?acc1 @ filter (finishes ?rs1) xs, (fin @ ?fin1) @ fin')"
    "map fst fin' = filter (\<lambda>r. \<not> finishes ?rs1 r) xs"
    "map (\<lambda>y. fst (snd y)) fin' = map (entry_context ks) (filter (\<lambda>r. \<not> finishes ?rs1 r) xs)"
    "\<forall>(q, _, remaining) \<in> set fin'. \<exists>a. get_record ?rs1 q = Some a \<and> target a = remaining + 1 \<and> 0 < remaining"
    "\<forall>q \<in> set xs. bumped ?rs1 rs' q" "\<forall>q. q \<notin> set xs \<longrightarrow> get_record rs' q = get_record ?rs1 q" by auto
  have fins: "filter (finishes ?rs1) xs = filter (finishes rs) xs"
    "filter (\<lambda>r. \<not> finishes ?rs1 r) xs = filter (\<lambda>r. \<not> finishes rs r) xs"
  proof -
    have "finishes ?rs1 q = finishes rs q" if "q \<in> set xs" for q
    proof -
      have "q \<noteq> r" using that notin by auto
      then show ?thesis by (intro finishes_cong same)
    qed
    then show "filter (finishes ?rs1) xs = filter (finishes rs) xs"
      "filter (\<lambda>r. \<not> finishes ?rs1 r) xs = filter (\<lambda>r. \<not> finishes rs r) xs" by (auto intro!: filter_cong)
  qed
  have in_xs: "fst y \<in> set xs" if "y \<in> set fin'" for y
  proof -
    have "fst y \<in> set (map fst fin')" using that by simp
    then show ?thesis unfolding ih(2) by simp
  qed
  have tail: "\<exists>a. get_record rs (fst y) = Some a \<and> target a = snd (snd y) + 1 \<and> 0 < snd (snd y)" if "y \<in> set fin'" for y
  proof -
    have "fst y \<noteq> r" using in_xs [OF that] notin by auto
    moreover have "\<exists>a. get_record ?rs1 (fst y) = Some a \<and> target a = snd (snd y) + 1 \<and> 0 < snd (snd y)"
      using bspec [OF ih(4) that] by (simp only: case_prod_unfold)
    ultimately show ?thesis using same [of "fst y"] by simp
  qed
  have head: "\<exists>a. get_record rs (fst y) = Some a \<and> target a = snd (snd y) + 1 \<and> 0 < snd (snd y)" if "y \<in> set ?fin1" for y
    using that a by (auto simp: finishes_def record_first_token_facts split: if_splits)
  have all: "\<forall>(q, _, remaining) \<in> set (?fin1 @ fin'). \<exists>a. get_record rs q = Some a \<and> target a = remaining + 1 \<and> 0 < remaining"
    using head tail by (simp only: set_append case_prod_unfold) blast
  have "bumped rs rs' r" using ih(6) notin a by (simp add: bumped_def stamp_stage_def record_first_token_facts(1,2,4) completion_marked)
  moreover have "bumped rs rs' q" if "q \<in> set xs" for q
    using bspec [OF ih(5) that] same [of q] that notin unfolding bumped_def by (cases "q = r") simp_all
  moreover have "get_record rs' q = get_record rs q" if "q \<notin> set (r # xs)" for q
    using ih(6) that same by simp
  moreover have "fold_opt (complete_prefill_admit w ks now) (r # xs) (rs, acc, fin)
      = Some (rs', acc @ filter (finishes rs) (r # xs), fin @ (?fin1 @ fin'))"
    using step ih(1) fins by simp
  moreover have "map fst (?fin1 @ fin') = filter (\<lambda>r. \<not> finishes rs r) (r # xs)" using ih(2) fins by simp
  moreover have "map (\<lambda>y. fst (snd y)) (?fin1 @ fin') = map (entry_context ks) (filter (\<lambda>r. \<not> finishes rs r) (r # xs))"
    using ih(3) fins ctx by (simp add: entry_context_def)
  ultimately show ?case using all by (intro exI [of _ rs'] exI [of _ "?fin1 @ fin'"]) auto
qed simp

subsection \<open>Completing an iteration: the store\<close>

text \<open>A change of partition \<open>p\<close> alone.\<close>

definition only_at :: "partition_id \<Rightarrow> KvStore \<Rightarrow> KvStore \<Rightarrow> bool" where
  "only_at p s s' \<longleftrightarrow> store_ok s' \<and> num_partitions s' = num_partitions s
     \<and> (\<forall>q. q \<noteq> p \<longrightarrow> ks_partitions s' ! q = ks_partitions s ! q)
     \<and> (promised (ks_ledger s) = [] \<longrightarrow> promised (ks_ledger s') = [])
     \<and> (chunked_prefill (ks_ledger s) = [] \<longrightarrow> chunked_prefill (ks_ledger s') = [])"

lemma only_at_trans: "only_at p s t \<Longrightarrow> only_at p t u \<Longrightarrow> only_at p s u"
  by (simp add: only_at_def)

lemma commits_ok:
  assumes "store_ok s" and "p < num_partitions s" and "promised (ks_ledger s) = []"
    and "distinct (map fst fin)" and "\<forall>x \<in> set fin. fst x \<notin> fst ` set (decodes (ks_partitions s ! p))"
  shows "\<exists>s' ds. fold_opt (\<lambda>(r, ctx, remaining) ks. commit_resident ks r p ctx remaining) fin s = Some s'
    \<and> only_at p s s' \<and> ks_ledger s' = ks_ledger s \<and> prefill_admits (ks_partitions s' ! p) = prefill_admits (ks_partitions s ! p)
    \<and> decodes (ks_partitions s' ! p) = decodes (ks_partitions s ! p) @ ds
    \<and> map (\<lambda>(r, d). (r, remaining_decode d)) ds = map (\<lambda>(r, _, remaining). (r, remaining)) fin
    \<and> map (\<lambda>x. current_kv (snd x)) ds = map (\<lambda>y. fst (snd y)) fin"
  using assms
proof (induction fin arbitrary: s)
  case Nil
  then show ?case by (auto simp: only_at_def)
next
  case (Cons x fin)
  obtain r ctx rem' where x: "x = (r, ctx, rem')" by (cases x)
  have r: "r \<notin> fst ` set (decodes (ks_partitions s ! p))" using Cons.prems(5) x by simp
  from commit_resident_ok [OF Cons.prems(1,2) r, of ctx rem'] obtain l st' where
    c: "commit_resident s r p ctx rem' = Some (set_partition (s\<lparr>ks_ledger := l\<rparr>) p st')"
    "store_ok (set_partition (s\<lparr>ks_ledger := l\<rparr>) p st')" "forget_promise (ks_ledger s) r = Some l"
    "begin_decode (ks_partitions s ! p) r ctx rem' (case prefill_context (ks_ledger s) r of
      Some c \<Rightarrow> post_prefill_context_tokens c | None \<Rightarrow> ctx) = Some st'" by blast
  have l: "l = ks_ledger s" using c(3) Cons.prems(3) by (simp add: forget_promise_def)
  have st: "decodes st' = decodes (ks_partitions s ! p) @ [(r, fresh_decode (part_accounting (ks_partitions s ! p)) ctx rem'
      (case prefill_context (ks_ledger s) r of Some c \<Rightarrow> post_prefill_context_tokens c | None \<Rightarrow> ctx))]"
    "prefill_admits st' = prefill_admits (ks_partitions s ! p)"
    using begin_decode_ok [OF store_okD(3) [OF Cons.prems(1,2)] r, of ctx rem' "case prefill_context (ks_ledger s) r of
      Some c \<Rightarrow> post_prefill_context_tokens c | None \<Rightarrow> ctx"] c(4) by auto
  let ?s1 = "set_partition (s\<lparr>ks_ledger := l\<rparr>) p st'"
  have p1: "ks_partitions ?s1 ! p = st'" using Cons.prems(2) by (simp add: num_partitions_def)
  have one: "only_at p s ?s1" using c(2) l by (simp add: only_at_def)
  have "\<forall>y \<in> set fin. fst y \<notin> fst ` set (decodes (ks_partitions ?s1 ! p))"
    unfolding p1 st(1) using Cons.prems(4,5) x by (auto simp: rev_image_eqI)
  from Cons.IH [OF c(2) _ _ _ this] Cons.prems obtain s' ds where
    ih: "fold_opt (\<lambda>(r, ctx, remaining) ks. commit_resident ks r p ctx remaining) fin ?s1 = Some s'"
    "only_at p ?s1 s'" "ks_ledger s' = ks_ledger ?s1" "prefill_admits (ks_partitions s' ! p) = prefill_admits (ks_partitions ?s1 ! p)"
    "decodes (ks_partitions s' ! p) = decodes (ks_partitions ?s1 ! p) @ ds"
    "map (\<lambda>(r, d). (r, remaining_decode d)) ds = map (\<lambda>(r, _, remaining). (r, remaining)) fin"
    "map (\<lambda>x. current_kv (snd x)) ds = map (\<lambda>y. fst (snd y)) fin"
    using l by auto
  let ?d = "(r, fresh_decode (part_accounting (ks_partitions s ! p)) ctx rem'
      (case prefill_context (ks_ledger s) r of Some c \<Rightarrow> post_prefill_context_tokens c | None \<Rightarrow> ctx))"
  show ?case
    by (rule exI [of _ s'], rule exI [of _ "?d # ds"])
      (use ih c(1) x l st p1 only_at_trans [OF one ih(2)] in \<open>simp add: fresh_decode_def\<close>)
qed

lemma release_keeps:
  assumes "store_ok s" and "p < num_partitions s"
  shows "\<exists>s'. release_retaining_prefix s r p now = Some s' \<and> only_at p s s'
    \<and> decodes (ks_partitions s' ! p) = filter (\<lambda>x. fst x \<noteq> r) (decodes (ks_partitions s ! p))
    \<and> prefill_admits (ks_partitions s' ! p) = prefill_admits (ks_partitions s ! p)
    \<and> (\<forall>q. q \<noteq> r \<longrightarrow> prefill_context (ks_ledger s') q = prefill_context (ks_ledger s) q)"
proof -
  from release_ok [OF assms, of r] obtain l st' where
    rl: "release s r p = Some (set_partition (s\<lparr>ks_ledger := l\<rparr>) p st')"
    "release_decode (ks_partitions s ! p) r = Some st'"
    "map_of (promised l) = (map_of (promised (ks_ledger s)))(r := None)"
    "map_of (chunked_prefill l) = (map_of (chunked_prefill (ks_ledger s)))(r := None)"
    "map_of (prefill_contexts l) = (map_of (prefill_contexts (ks_ledger s)))(r := None)" by blast
  from release_retaining_ok [OF assms, of r now] rl(1) obtain s' where
    s': "release_retaining_prefix s r p now = Some s'" "store_ok s'" "num_partitions s' = num_partitions s"
    "ks_ledger s' = l" "ks_partitions s' = (ks_partitions s)[p := st']" by auto
  have st: "decodes st' = filter (\<lambda>x. fst x \<noteq> r) (decodes (ks_partitions s ! p))"
    "prefill_admits st' = prefill_admits (ks_partitions s ! p)"
    using release_decode_ok [OF store_okD(3) [OF assms], of r] rl(2) by auto
  have empty: "xs = []" if "map_of xs = (map_of ys)(r := None)" "ys = []" for xs ys :: "(nat \<times> 'x) list"
    using that by (cases xs) (auto simp: fun_upd_def map_of_eq_empty_iff split: if_splits dest: fun_cong)
  show ?thesis using s' st rl(3-5) empty [OF rl(3)] empty [OF rl(4)] assms(2)
    by (auto simp: only_at_def prefill_context_def num_partitions_def)
qed

lemma releases_ok:
  assumes "store_ok s" and "p < num_partitions s"
  shows "\<exists>s'. fold_opt (\<lambda>r ks. release_retaining_prefix ks r p now) rs s = Some s' \<and> only_at p s s'
    \<and> decodes (ks_partitions s' ! p) = filter (\<lambda>x. fst x \<notin> set rs) (decodes (ks_partitions s ! p))
    \<and> prefill_admits (ks_partitions s' ! p) = prefill_admits (ks_partitions s ! p)
    \<and> (\<forall>q. q \<notin> set rs \<longrightarrow> prefill_context (ks_ledger s') q = prefill_context (ks_ledger s) q)"
  using assms
proof (induction rs arbitrary: s)
  case Nil
  then show ?case by (auto simp: only_at_def)
next
  case (Cons r rs)
  from release_keeps [OF Cons.prems, of r now] obtain s1 where
    s1: "release_retaining_prefix s r p now = Some s1" "only_at p s s1"
    "decodes (ks_partitions s1 ! p) = filter (\<lambda>x. fst x \<noteq> r) (decodes (ks_partitions s ! p))"
    "prefill_admits (ks_partitions s1 ! p) = prefill_admits (ks_partitions s ! p)"
    "\<forall>q. q \<noteq> r \<longrightarrow> prefill_context (ks_ledger s1) q = prefill_context (ks_ledger s) q" by blast
  have "store_ok s1" "p < num_partitions s1" using s1(2) Cons.prems(2) by (simp_all add: only_at_def)
  from Cons.IH [OF this] obtain s' where
    ih: "fold_opt (\<lambda>r ks. release_retaining_prefix ks r p now) rs s1 = Some s'" "only_at p s1 s'"
    "decodes (ks_partitions s' ! p) = filter (\<lambda>x. fst x \<notin> set rs) (decodes (ks_partitions s1 ! p))"
    "prefill_admits (ks_partitions s' ! p) = prefill_admits (ks_partitions s1 ! p)"
    "\<forall>q. q \<notin> set rs \<longrightarrow> prefill_context (ks_ledger s') q = prefill_context (ks_ledger s1) q" by blast
  then show ?case using s1 only_at_trans [OF s1(2) ih(2)]
    by (auto intro!: exI [of _ s'] filter_cong)
qed
subsection \<open>Completing one partition\<close>

text \<open>One more step of every running decode stays within the partition.\<close>

definition next_step_fits :: "ResidentPartition \<Rightarrow> bool" where
  "next_step_fits st \<longleftrightarrow> (case advance_decodes st of None \<Rightarrow> False
     | Some st' \<Rightarrow> resident_units st' \<le> partition_capacity st')"

text \<open>The requests that ran on partition \<open>p\<close>: its decodes, then its prefills.\<close>

definition ran_at :: "KvStore \<Rightarrow> partition_id \<Rightarrow> nat list" where
  "ran_at ks p = map fst (decodes (ks_partitions ks ! p)) @ prefill_admits (ks_partitions ks ! p)"

definition residents :: "KvStore \<Rightarrow> nat list" where
  "residents ks = concat (map (ran_at ks) [0..<num_partitions ks])"

lemma mset_residents: "mset (residents ks) = mset (prefilling ks) + mset (decoding ks)"
proof -
  have "mset (concat (map (\<lambda>q. f q @ g q) xs)) = mset (concat (map g xs)) + mset (concat (map f xs))"
    for f g :: "nat \<Rightarrow> nat list" and xs by (induction xs) auto
  then show ?thesis unfolding residents_def ran_at_def prefilling_at [OF refl] decoding_at [OF refl] .
qed

lemma ran_residents: "p < num_partitions ks \<Longrightarrow> set (ran_at ks p) \<subseteq> set (residents ks)"
  by (auto simp: residents_def)

lemma concat_map_disjoint:
  assumes "distinct (concat (map f xs))" and "x \<in> set xs" and "y \<in> set xs" and "x \<noteq> y"
  shows "set (f x) \<inter> set (f y) = {}"
  using assms by (induction xs) auto

lemma ran_disjoint:
  assumes "distinct (residents ks)" and "p < num_partitions ks" and "q < num_partitions ks" and "p \<noteq> q"
  shows "set (ran_at ks p) \<inter> set (ran_at ks q) = {}"
  using concat_map_disjoint [of "ran_at ks" "[0..<num_partitions ks]" p q] assms by (simp add: residents_def)

lemma ran_distinct: "distinct (residents ks) \<Longrightarrow> p < num_partitions ks \<Longrightarrow> distinct (ran_at ks p)"
  by (auto simp: residents_def distinct_concat_iff)
text \<open>The store's side: the decodes step, the admitted prefills that go on join them, the completed
  requests leave.\<close>

lemma advance_partition_ok:
  assumes "store_ok s" and "p < num_partitions s" and "next_step_fits (ks_partitions s ! p)"
  shows "\<exists>s'. advance s (WholePartition p) 1 = Some s' \<and> only_at p s s' \<and> ks_ledger s' = ks_ledger s
    \<and> decodes (ks_partitions s' ! p) = map (\<lambda>(r, d). (r, step_decode (ks_accounting s) d)) (decodes (ks_partitions s ! p))
    \<and> prefill_admits (ks_partitions s' ! p) = prefill_admits (ks_partitions s ! p)"
proof -
  from advance_step_ok [OF assms(1), of "WholePartition p"] assms(2) obtain st' where
    st': "advance_step (WholePartition p) s = Some (set_partition s p st')" "store_ok (set_partition s p st')"
    "advance_decodes (ks_partitions s ! p) = Some st'" by (auto simp: scope_partition_def)
  note f = advance_decodes_ok [OF store_okD(3,7) [OF assms(1,2)], unfolded store_okD(5) [OF assms(1,2)]]
  have "resident_units st' \<le> partition_capacity st'" using assms(3) st'(3) by (simp add: next_step_fits_def)
  then have "advance s (WholePartition p) 1 = Some (set_partition s p st')"
    using st'(1) assms(2) by (simp add: advance_def scope_partition_def partition_at_ok num_partitions_def)
  then show ?thesis using st' f assms(2) by (auto simp: only_at_def num_partitions_def)
qed

lemma clear_ok:
  assumes "store_ok s" and "p < num_partitions s"
  shows "\<exists>s'. store_clear_prefill_admits s p = Some s' \<and> only_at p s s' \<and> ks_ledger s' = ks_ledger s
    \<and> decodes (ks_partitions s' ! p) = decodes (ks_partitions s ! p) \<and> prefill_admits (ks_partitions s' ! p) = []"
  using admits_keep [OF assms, of clear_prefill_admits] assms(2)
  by (auto simp: store_clear_prefill_admits_def partition_at_ok clear_prefill_admits_def num_partitions_def only_at_def
    partition_ok_def)

lemma sample_submit_keeps:
  assumes "store_ok s" and "p < num_partitions s"
  shows "\<exists>s'. sample_submit s p now = Some s' \<and> only_at p s s' \<and> ks_ledger s' = ks_ledger s
    \<and> ks_partitions s' = ks_partitions s"
  using sample_submit_ok [OF assms, of now] assms(1) by (auto simp: only_at_def store_ok_def num_partitions_def)

definition complete_store :: "nat \<Rightarrow> partition_id \<Rightarrow> (nat \<times> nat \<times> nat) list \<Rightarrow> nat list \<Rightarrow> KvStore \<Rightarrow> KvStore option" where
  "complete_store now p fin completed ks = do {
     ks2 \<leftarrow> fold_opt (\<lambda>(r, ctx, remaining) ks. commit_resident ks r p ctx remaining) fin ks;
     ks3 \<leftarrow> store_clear_prefill_admits ks2 p;
     ks4 \<leftarrow> fold_opt (\<lambda>r ks. release_retaining_prefix ks r p now) completed ks3;
     sample_submit ks4 p now
   }"

lemma complete_store_ok:
  assumes "store_ok s" and "p < num_partitions s" and "promised (ks_ledger s) = []" and "distinct (map fst fin)"
    and "\<forall>x \<in> set fin. fst x \<notin> fst ` set (decodes (ks_partitions s ! p))"
  shows "\<exists>s' ds. complete_store now p fin completed s = Some s' \<and> only_at p s s' \<and> prefill_admits (ks_partitions s' ! p) = []
    \<and> decodes (ks_partitions s' ! p) = filter (\<lambda>x. fst x \<notin> set completed) (decodes (ks_partitions s ! p) @ ds)
    \<and> map (\<lambda>(r, d). (r, remaining_decode d)) ds = map (\<lambda>(r, _, remaining). (r, remaining)) fin
    \<and> map (\<lambda>x. current_kv (snd x)) ds = map (\<lambda>y. fst (snd y)) fin
    \<and> (\<forall>q. q \<notin> set completed \<longrightarrow> prefill_context (ks_ledger s') q = prefill_context (ks_ledger s) q)"
proof -
  have at: "store_ok t" "p < num_partitions t" if "only_at p s t" for t
    using that assms(2) by (simp_all add: only_at_def)
  from commits_ok [OF assms] obtain s2 ds where s2:
    "fold_opt (\<lambda>(r, ctx, remaining) ks. commit_resident ks r p ctx remaining) fin s = Some s2" "only_at p s s2"
    "ks_ledger s2 = ks_ledger s" "decodes (ks_partitions s2 ! p) = decodes (ks_partitions s ! p) @ ds"
    "map (\<lambda>(r, d). (r, remaining_decode d)) ds = map (\<lambda>(r, _, remaining). (r, remaining)) fin"
    "map (\<lambda>x. current_kv (snd x)) ds = map (\<lambda>y. fst (snd y)) fin" by blast
  from clear_ok [OF at [OF s2(2)]] obtain s3 where s3: "store_clear_prefill_admits s2 p = Some s3" "only_at p s2 s3"
    "ks_ledger s3 = ks_ledger s2" "decodes (ks_partitions s3 ! p) = decodes (ks_partitions s2 ! p)"
    "prefill_admits (ks_partitions s3 ! p) = []" by blast
  note o3 = only_at_trans [OF s2(2) s3(2)]
  from releases_ok [OF at [OF o3], of now completed] obtain s4 where s4:
    "fold_opt (\<lambda>r ks. release_retaining_prefix ks r p now) completed s3 = Some s4" "only_at p s3 s4"
    "decodes (ks_partitions s4 ! p) = filter (\<lambda>x. fst x \<notin> set completed) (decodes (ks_partitions s3 ! p))"
    "prefill_admits (ks_partitions s4 ! p) = prefill_admits (ks_partitions s3 ! p)"
    "\<forall>q. q \<notin> set completed \<longrightarrow> prefill_context (ks_ledger s4) q = prefill_context (ks_ledger s3) q" by blast
  note o4 = only_at_trans [OF o3 s4(2)]
  from sample_submit_keeps [OF at [OF o4], of now] obtain s5 where s5: "sample_submit s4 p now = Some s5" "only_at p s4 s5"
    "ks_ledger s5 = ks_ledger s4" "ks_partitions s5 = ks_partitions s4" by blast
  have "complete_store now p fin completed s = Some s5" by (simp add: complete_store_def s2(1) s3(1) s4(1) s5(1))
  then show ?thesis using only_at_trans [OF o4 s5(2)] s2(3-6) s3(3-5) s4(3-5) s5(3,4)
    by (intro exI [of _ s5] exI [of _ ds]) auto
qed

lemma complete_partition_eq:
  "complete_partition w now p (ks, rs, events) = do {
     members \<leftarrow> store_decode_members ks p;
     (rs1, done1) \<leftarrow> fold_opt (complete_decode_member w now) members (rs, []);
     ks1 \<leftarrow> advance ks (WholePartition p) 1;
     admits \<leftarrow> store_prefill_admits ks1 p;
     (rs2, done2, fin) \<leftarrow> fold_opt (complete_prefill_admit w ks1 now) admits (rs1, done1, []);
     ks' \<leftarrow> complete_store now p fin done2 ks1;
     Some (ks', rs2, events @ map (Pair (wc_id w)) done2)
   }"
  by (simp add: complete_partition_def complete_store_def case_prod_unfold)
lemma running_members:
  assumes "\<And>x. x \<in> set (decodes st) \<Longrightarrow> decode_tracks rs x"
  shows "map fst (decode_members st) = map fst (decodes st)"
    and "y \<in> set (decode_members st) \<Longrightarrow> get_record rs (fst y) \<noteq> None"
proof -
  have "0 < remaining_decode (snd x)" if "x \<in> set (decodes st)" for x
    using assms [OF that] by (auto simp: decode_tracks_def)
  then have all: "iter_decoding st = decodes st" by (auto simp: iter_decoding_def filter_id_conv)
  then show same: "map fst (decode_members st) = map fst (decodes st)" by (simp add: decode_members_def comp_def case_prod_unfold)
  show "get_record rs (fst y) \<noteq> None" if "y \<in> set (decode_members st)"
    using that assms all by (auto simp: decode_members_def decode_tracks_def dest!: assms)
qed

text \<open>The records' side of one partition: first its decodes, then its prefills.\<close>

lemma records_ok:
  assumes "distinct (map fst members @ ads)" and "\<forall>y \<in> set members. get_record rs (fst y) \<noteq> None"
    and "\<forall>r \<in> set ads. (\<exists>a. get_record rs r = Some a \<and> entered a) \<and> prefill_context (ks_ledger ks) r \<noteq> None"
  shows "\<exists>rs1 rs2 fin. fold_opt (complete_decode_member w now) members (rs, []) = Some (rs1, filter (finishes rs) (map fst members))
    \<and> fold_opt (complete_prefill_admit w ks now) ads (rs1, filter (finishes rs) (map fst members), [])
        = Some (rs2, filter (finishes rs) (map fst members @ ads), fin)
    \<and> map fst fin = filter (\<lambda>r. \<not> finishes rs r) ads
    \<and> map (\<lambda>y. fst (snd y)) fin = map (entry_context ks) (filter (\<lambda>r. \<not> finishes rs r) ads)
    \<and> (\<forall>(r, _, remaining) \<in> set fin. \<exists>a. get_record rs r = Some a \<and> target a = remaining + 1 \<and> 0 < remaining)
    \<and> (\<forall>r \<in> set (map fst members @ ads). bumped rs rs2 r)
    \<and> (\<forall>r. r \<notin> set (map fst members @ ads) \<longrightarrow> get_record rs2 r = get_record rs r)"
proof -
  let ?done = "filter (finishes rs) (map fst members)"
  have "distinct (map fst members)" "distinct ads" using assms(1) by simp_all
  from complete_members_ok [OF this(1) assms(2), of w now "[]"] obtain rs1 where
    m: "fold_opt (complete_decode_member w now) members (rs, []) = Some (rs1, ?done)"
    "\<forall>r \<in> fst ` set members. bumped rs rs1 r" "\<forall>r. r \<notin> fst ` set members \<longrightarrow> get_record rs1 r = get_record rs r" by auto
  have sep: "r \<notin> fst ` set members" if "r \<in> set ads" for r using that assms(1) by auto
  have same: "get_record rs1 r = get_record rs r" if "r \<in> set ads" for r using m(3) sep [OF that] by simp
  have "\<forall>r \<in> set ads. (\<exists>a. get_record rs1 r = Some a \<and> entered a) \<and> prefill_context (ks_ledger ks) r \<noteq> None"
    using assms(3) same by simp
  from complete_prefills_ok [OF \<open>distinct ads\<close> this, of w now ?done "[]"] obtain rs2 fin where
    p: "fold_opt (complete_prefill_admit w ks now) ads (rs1, ?done, []) = Some (rs2, ?done @ filter (finishes rs1) ads, fin)"
    "map fst fin = filter (\<lambda>r. \<not> finishes rs1 r) ads"
    "map (\<lambda>y. fst (snd y)) fin = map (entry_context ks) (filter (\<lambda>r. \<not> finishes rs1 r) ads)"
    "\<forall>(r, _, remaining) \<in> set fin. \<exists>a. get_record rs1 r = Some a \<and> target a = remaining + 1 \<and> 0 < remaining"
    "\<forall>r \<in> set ads. bumped rs1 rs2 r" "\<forall>r. r \<notin> set ads \<longrightarrow> get_record rs2 r = get_record rs1 r" by auto
  have fins: "filter (finishes rs1) ads = filter (finishes rs) ads"
    "filter (\<lambda>r. \<not> finishes rs1 r) ads = filter (\<lambda>r. \<not> finishes rs r) ads"
    using finishes_cong same by (metis (mono_tags, lifting) filter_cong)+
  have in_admits: "fst y \<in> set ads" if "y \<in> set fin" for y
  proof -
    have "fst y \<in> set (map fst fin)" using that by simp
    then show ?thesis unfolding p(2) by simp
  qed
  have "\<exists>a. get_record rs (fst y) = Some a \<and> target a = snd (snd y) + 1 \<and> 0 < snd (snd y)" if "y \<in> set fin" for y
    using bspec [OF p(4) that] same [OF in_admits [OF that]] by (simp add: case_prod_unfold)
  then have left: "\<forall>(r, _, remaining) \<in> set fin. \<exists>a. get_record rs r = Some a \<and> target a = remaining + 1 \<and> 0 < remaining"
    by (simp add: case_prod_unfold)
  have "bumped rs rs2 r" if "r \<in> fst ` set members" for r
    using bspec [OF m(2) that] p(6) that sep bumped_cong [of rs2 r rs1 rs] by blast
  moreover have "bumped rs rs2 r" if "r \<in> set ads" for r
    using bspec [OF p(5) that] same [OF that] unfolding bumped_def by simp
  ultimately show ?thesis using m(1,3) p(1,2,3,6) left unfolding fins
    by (intro exI [of _ rs1] exI [of _ rs2] exI [of _ fin]) auto
qed
text \<open>One partition completed: the worker stays consistent, and what ran there has moved on.\<close>

lemma local_ok_residents:
  assumes "local_ok n la ks rs"
  shows "distinct (map ac_request (waiting la) @ residents ks)"
proof -
  have "mset (map ac_request (waiting la) @ residents ks) = mset (map ac_request (waiting la) @ prefilling ks @ decoding ks)"
    by (simp add: mset_residents)
  then show ?thesis using local_okD(12) [OF assms] mset_eq_imp_distinct_iff by blast
qed

lemma residents_update:
  assumes "num_partitions ks' = num_partitions ks" and "p < num_partitions ks"
    and "\<And>q. q \<noteq> p \<Longrightarrow> ks_partitions ks' ! q = ks_partitions ks ! q"
  shows "mset (residents ks') + mset (ran_at ks p) = mset (residents ks) + mset (ran_at ks' p)"
proof -
  have "mset (concat (map (ran_at ks') xs)) + mset (ran_at ks p) = mset (concat (map (ran_at ks) xs)) + mset (ran_at ks' p)"
    if "p \<in> set xs" "distinct xs" for xs
    using that
  proof (induction xs)
    case (Cons x xs)
    have same: "ran_at ks' q = ran_at ks q" if "q \<noteq> p" for q using assms(3) [OF that] by (simp add: ran_at_def)
    show ?case
    proof (cases "x = p")
      case True
      then have "map (ran_at ks') xs = map (ran_at ks) xs" using Cons.prems(2) by (intro map_cong [OF refl] same) auto
      then show ?thesis using True by (simp only: list.map concat.simps mset_append add_ac)
    next
      case False
      then show ?thesis using Cons same [OF False] by simp
    qed
  qed simp
  then show ?thesis using assms(1,2) by (simp add: residents_def)
qed

text \<open>A decode that goes on, old or new, has one token fewer to emit than before the iteration.\<close>

lemma tracks_after:
  assumes "them = map fst olds @ ads" and "\<And>y. y \<in> set olds \<Longrightarrow> decode_tracks rs y"
    and "\<forall>(r, _, remaining) \<in> set fin. \<exists>a. get_record rs r = Some a \<and> target a = remaining + 1 \<and> 0 < remaining"
    and "map (\<lambda>(r, d). (r, remaining_decode d)) ds = map (\<lambda>(r, _, remaining). (r, remaining)) fin"
    and "map fst fin = filter (\<lambda>r. \<not> finishes rs r) ads"
    and "x \<in> set (map (\<lambda>(r, d). (r, step_decode a d)) olds) \<or> x \<in> set ds"
    and "fst x \<notin> set (filter (finishes rs) them)" and "\<forall>r \<in> set them. bumped rs rs' r"
    and "\<And>r. r \<in> set ads \<Longrightarrow> \<exists>a. get_record rs r = Some a \<and> entered a"
  shows "decode_tracks rs' x"
  using assms(6)
proof
  assume "x \<in> set (map (\<lambda>(r, d). (r, step_decode a d)) olds)"
  then obtain d where d: "(fst x, d) \<in> set olds" "snd x = step_decode a d" by auto
  have them: "fst x \<in> set them" using d(1) assms(1) by (auto simp: rev_image_eqI)
  obtain b where b: "get_record rs (fst x) = Some b" "lc_admitted (ar_lifecycle b)" "0 < emitted b" "0 < remaining_decode d"
    "emitted b + remaining_decode d = target b"
    using assms(2) [OF d(1)] by (auto simp: decode_tracks_def)
  have "\<not> finishes rs (fst x)" using them assms(7) by simp
  then have "emitted b + 1 < target b" using b(1) by (simp add: finishes_def)
  then show ?thesis using bspec [OF assms(8) them] b d(2)
    by (auto simp: bumped_def decode_tracks_def step_decode_def advanced_def)
next
  assume x: "x \<in> set ds"
  then have "(fst x, remaining_decode (snd x)) \<in> set (map (\<lambda>(r, d). (r, remaining_decode d)) ds)"
    by (auto intro!: rev_image_eqI [OF x] simp: case_prod_unfold)
  then obtain y where y: "y \<in> set fin" "fst y = fst x" "snd (snd y) = remaining_decode (snd x)"
    unfolding assms(4) by (auto simp: case_prod_unfold)
  obtain b where b: "get_record rs (fst x) = Some b" "target b = remaining_decode (snd x) + 1" "0 < remaining_decode (snd x)"
    using bspec [OF assms(3) y(1)] y(2,3) by (auto simp: case_prod_unfold)
  have "fst x \<in> set (map fst fin)" using y(1,2) by (auto simp: rev_image_eqI)
  then have ads: "fst x \<in> set ads" by (simp add: assms(5))
  then have "fst x \<in> set them" by (simp add: assms(1))
  then show ?thesis using bspec [OF assms(8)] b assms(9) [OF ads] by (fastforce simp: bumped_def decode_tracks_def)
qed

text \<open>The KV tokens the decodes of a partition hold, and at most as many after the next step.\<close>

definition kv_at :: "KvStore \<Rightarrow> partition_id \<Rightarrow> nat" where
  "kv_at ks p = sum_list (map (\<lambda>x. current_kv (snd x)) (decodes (ks_partitions ks ! p)))"

definition kv_next :: "KvStore \<Rightarrow> partition_id \<Rightarrow> nat" where
  "kv_next ks p = kv_at ks p + length (decodes (ks_partitions ks ! p))
     + sum_list (map (entry_context ks) (prefill_admits (ks_partitions ks ! p)))"

lemma sum_list_filter_le: "sum_list (map f (filter P xs)) \<le> sum_list (map f xs)" for f :: "'x \<Rightarrow> nat"
  by (induction xs) auto

lemma step_kv: "sum_list (map (\<lambda>x. current_kv (snd x)) (map (\<lambda>(r, d). (r, step_decode a d)) ds))
    \<le> sum_list (map (\<lambda>x. current_kv (snd x)) ds) + length ds"
  by (induction ds) (auto simp: step_decode_def advanced_def)

lemma complete_partition_ok:
  assumes "local_ok n la ks rs" and "p < n" and "next_step_fits (ks_partitions ks ! p)"
  shows "\<exists>ks' rs'. complete_partition w now p (ks, rs, events)
      = Some (ks', rs', events @ map (Pair (wc_id w)) (filter (finishes rs) (ran_at ks p)))
    \<and> local_ok n la ks' rs' \<and> (\<forall>q. q \<noteq> p \<longrightarrow> ks_partitions ks' ! q = ks_partitions ks ! q)
    \<and> prefill_admits (ks_partitions ks' ! p) = []
    \<and> map fst (decodes (ks_partitions ks' ! p)) = filter (\<lambda>r. \<not> finishes rs r) (ran_at ks p)
    \<and> (\<forall>r \<in> set (ran_at ks p). bumped rs rs' r) \<and> (\<forall>r. r \<notin> set (ran_at ks p) \<longrightarrow> get_record rs' r = get_record rs r)
    \<and> kv_at ks' p \<le> kv_next ks p \<and> (\<forall>r. r \<notin> set (ran_at ks p) \<longrightarrow> entry_context ks' r = entry_context ks r)"
proof -
  note l = local_okD [OF assms(1)]
  let ?st = "ks_partitions ks ! p" and ?ran = "ran_at ks p" and ?a = "ks_accounting ks"
  have p: "p < num_partitions ks" using assms(2) l(2) by simp
  have st: "?st \<in> set (ks_partitions ks)" using p by (simp add: num_partitions_def)
  note dist = local_ok_residents [OF assms(1)]
  have dran: "distinct ?ran" using ran_distinct [OF _ p] dist by simp
  note run = running_members [of ?st, OF l(14) [OF st]]
  have pre: "prefill_context (ks_ledger ks) r \<noteq> None \<and> (\<exists>a. get_record rs r = Some a \<and> entered a)"
    if "r \<in> set (prefill_admits ?st)" for r
    using l(13) [of r] that st by (auto simp: prefilling_def)
  from advance_partition_ok [OF l(1) p assms(3)] obtain ks1 where
    ks1: "advance ks (WholePartition p) 1 = Some ks1" "only_at p ks ks1" "ks_ledger ks1 = ks_ledger ks"
    "decodes (ks_partitions ks1 ! p) = map (\<lambda>(r, d). (r, step_decode ?a d)) (decodes ?st)"
    "prefill_admits (ks_partitions ks1 ! p) = prefill_admits ?st" by blast
  have s1: "store_ok ks1" "p < num_partitions ks1" using ks1(2) p by (simp_all add: only_at_def)
  have mem: "store_decode_members ks p = Some (decode_members ?st)"
    by (simp add: store_decode_members_def partition_at_ok [OF p])
  have adm: "store_prefill_admits ks1 p = Some (prefill_admits ?st)"
    by (simp add: store_prefill_admits_def partition_at_ok [OF s1(2)] ks1(5))
  have ran: "map fst (decode_members ?st) @ prefill_admits ?st = ?ran" by (simp add: run(1) ran_at_def)
  from records_ok [of "decode_members ?st" "prefill_admits ?st" rs ks1 w now] run(2) pre ks1(3) dran ran
  obtain rs1 rs2 fin where
    r: "fold_opt (complete_decode_member w now) (decode_members ?st) (rs, []) = Some (rs1, filter (finishes rs) (map fst (decode_members ?st)))"
    "fold_opt (complete_prefill_admit w ks1 now) (prefill_admits ?st) (rs1, filter (finishes rs) (map fst (decode_members ?st)), [])
        = Some (rs2, filter (finishes rs) ?ran, fin)"
    "map fst fin = filter (\<lambda>r. \<not> finishes rs r) (prefill_admits ?st)"
    "\<forall>(r, _, remaining) \<in> set fin. \<exists>a. get_record rs r = Some a \<and> target a = remaining + 1 \<and> 0 < remaining"
    "\<forall>r \<in> set ?ran. bumped rs rs2 r" "\<forall>r. r \<notin> set ?ran \<longrightarrow> get_record rs2 r = get_record rs r"
    "map (\<lambda>y. fst (snd y)) fin = map (entry_context ks1) (filter (\<lambda>r. \<not> finishes rs r) (prefill_admits ?st))"
    by auto
  let ?done = "filter (finishes rs) ?ran"
  have dfin: "distinct (map fst fin)" using dran by (simp add: r(3) ran_at_def)
  have newfin: "\<forall>x \<in> set fin. fst x \<notin> fst ` set (decodes (ks_partitions ks1 ! p))"
  proof
    fix x
    assume "x \<in> set fin"
    then have "fst x \<in> set (map fst fin)" by simp
    then have "fst x \<in> set (prefill_admits ?st)" by (simp add: r(3))
    then have "fst x \<notin> set (map fst (decodes ?st))" using dran by (auto simp: ran_at_def)
    then show "fst x \<notin> fst ` set (decodes (ks_partitions ks1 ! p))" by (simp add: ks1(4) image_image case_prod_unfold)
  qed
  have "promised (ks_ledger ks1) = []" using l(9) ks1(3) by simp
  from complete_store_ok [OF s1 this dfin newfin, of now ?done] obtain ks' ds where
    c: "complete_store now p fin ?done ks1 = Some ks'" "only_at p ks1 ks'" "prefill_admits (ks_partitions ks' ! p) = []"
    "decodes (ks_partitions ks' ! p) = filter (\<lambda>x. fst x \<notin> set ?done) (decodes (ks_partitions ks1 ! p) @ ds)"
    "map (\<lambda>(r, d). (r, remaining_decode d)) ds = map (\<lambda>(r, _, remaining). (r, remaining)) fin"
    "\<forall>q. q \<notin> set ?done \<longrightarrow> prefill_context (ks_ledger ks') q = prefill_context (ks_ledger ks1) q"
    "map (\<lambda>x. current_kv (snd x)) ds = map (\<lambda>y. fst (snd y)) fin" by blast
  note o = only_at_trans [OF ks1(2) c(2)]
  have other: "ks_partitions ks' ! q = ks_partitions ks ! q" if "q \<noteq> p" for q using o that by (simp add: only_at_def)
  have eq: "complete_partition w now p (ks, rs, events) = Some (ks', rs2, events @ map (Pair (wc_id w)) ?done)"
    by (simp add: complete_partition_eq mem r(1,2) ks1(1) adm c(1) del: One_nat_def)
  have dsids: "map fst ds = map fst fin"
    using arg_cong [OF c(5), of "map fst"] by (simp add: comp_def case_prod_unfold)
  have nd: "filter (\<lambda>r. r \<notin> set ?done) xs = filter (\<lambda>r. \<not> finishes rs r) xs" if "set xs \<subseteq> set ?ran" for xs
    using that by (intro filter_cong) auto
  have ids: "map fst (decodes (ks_partitions ks' ! p)) = filter (\<lambda>r. \<not> finishes rs r) ?ran"
  proof -
    have "map fst (decodes (ks_partitions ks' ! p))
        = filter (\<lambda>r. r \<notin> set ?done) (map fst (decodes (ks_partitions ks1 ! p) @ ds))"
      by (simp add: c(4) filter_map comp_def)
    also have "map fst (decodes (ks_partitions ks1 ! p) @ ds) = map fst (decodes ?st) @ filter (\<lambda>r. \<not> finishes rs r) (prefill_admits ?st)"
      by (simp add: ks1(4) dsids r(3) comp_def case_prod_unfold)
    also have "filter (\<lambda>r. r \<notin> set ?done) \<dots> = filter (\<lambda>r. \<not> finishes rs r) ?ran"
      by (subst nd) (auto simp: ran_at_def)
    finally show ?thesis .
  qed
  have mine: "ran_at ks' p = filter (\<lambda>r. \<not> finishes rs r) ?ran" by (simp add: ran_at_def [of ks'] ids c(3))
  have np: "num_partitions ks' = n" using o l(2) by (simp add: only_at_def)
  have "mset (residents ks') + mset ?ran = mset (residents ks) + mset (ran_at ks' p)"
    using residents_update [OF _ p other] np l(2) by simp
  moreover have "mset (ran_at ks' p) \<subseteq># mset ?ran" unfolding mine by (simp add: mset_filter)
  ultimately have "mset (residents ks') \<subseteq># mset (residents ks)"
    by (metis mset_subset_eq_mono_add_right_cancel mset_subset_eq_mono_add subset_mset.order_refl)
  then have "distinct (map ac_request (waiting la) @ residents ks')"
    by (intro distinct_mset_le [OF _ dist]) (simp add: subset_mset.add_left_mono)
  then have dist': "distinct (map ac_request (waiting la) @ prefilling ks' @ decoding ks')"
    by (rule distinct_mset_le [rotated]) (simp only: mset_append mset_residents subset_mset.order_refl)
  have away: "r \<notin> set ?ran" if "q \<noteq> p" "q < n" "r \<in> set (ran_at ks q)" for q r
    using ran_disjoint [OF _ p, of q] dist that l(2) by auto
  have same: "get_record rs2 r = get_record rs r" if "r \<notin> set ?ran" for r using r(6) that by simp
  have cands: "cand_ok rs2 d" if "d \<in> set (waiting la)" for d
  proof -
    have "ac_request d \<notin> set ?ran" using that dist ran_residents [OF p] by auto
    then show ?thesis using l(11) [OF that] same by (simp add: cand_ok_def)
  qed
  have started: "prefill_context (ks_ledger ks') r \<noteq> None \<and> (\<exists>a. get_record rs2 r = Some a \<and> entered a)"
    if here: "r \<in> set (prefilling ks')" for r
  proof -
    obtain q where q: "q < n" "r \<in> set (prefill_admits (ks_partitions ks' ! q))"
      using here by (auto simp: prefilling_at [OF np])
    have "q \<noteq> p" using q(2) c(3) by auto
    then have r_at: "r \<in> set (prefill_admits (ks_partitions ks ! q))" using q(2) other by simp
    then have "r \<in> set (prefilling ks)" using q(1) by (auto simp: prefilling_at [OF l(2)])
    moreover have "r \<notin> set ?ran" using away [OF \<open>q \<noteq> p\<close> q(1)] r_at by (simp add: ran_at_def)
    ultimately show ?thesis using l(13) [of r] c(6) same ks1(3) by simp
  qed
  have tracks: "decode_tracks rs2 x" if here: "t \<in> set (ks_partitions ks')" "x \<in> set (decodes t)" for t x
  proof -
    obtain q where q: "q < n" "t = ks_partitions ks' ! q"
      using here(1) np by (auto simp: in_set_conv_nth num_partitions_def)
    show ?thesis
    proof (cases "q = p")
      case False
      then have x: "x \<in> set (decodes (ks_partitions ks ! q))" using here(2) q(2) other by simp
      then have "fst x \<notin> set ?ran" using away [OF False q(1), of "fst x"] by (auto simp: ran_at_def)
      moreover have "ks_partitions ks ! q \<in> set (ks_partitions ks)" using q(1) l(2) by (simp add: num_partitions_def)
      then have "decode_tracks rs x" using l(14) x by blast
      ultimately show ?thesis using same by (simp add: decode_tracks_def)
    next
      case True
      then have x: "fst x \<notin> set ?done" "x \<in> set (map (\<lambda>(r, d). (r, step_decode ?a d)) (decodes ?st)) \<or> x \<in> set ds"
        using here(2) q(2) c(4) ks1(4) by auto
      show ?thesis by (rule tracks_after [OF _ l(14) [OF st] r(4) c(5) r(3) x(2) x(1) r(5)]) (simp_all add: ran_at_def pre)
    qed
  qed
  have "local_ok n la ks' rs2"
    using l(3-10) o np dist' cands started tracks by (simp add: local_ok_def only_at_def)
  moreover have "kv_at ks' p \<le> kv_next ks p"
  proof -
    have "kv_at ks' p \<le> sum_list (map (\<lambda>x. current_kv (snd x)) (decodes (ks_partitions ks1 ! p) @ ds))"
      unfolding kv_at_def c(4) by (rule sum_list_filter_le)
    also have "\<dots> \<le> kv_at ks p + length (decodes ?st) + sum_list (map (\<lambda>x. current_kv (snd x)) ds)"
      using step_kv [of ?a "decodes ?st"] by (simp add: ks1(4) kv_at_def)
    also have "map (\<lambda>x. current_kv (snd x)) ds = map (entry_context ks) (filter (\<lambda>r. \<not> finishes rs r) (prefill_admits ?st))"
      by (simp add: c(7) r(7) entry_context_def [abs_def] resolved_prefill_context_def ks1(3))
    also have "sum_list \<dots> \<le> sum_list (map (entry_context ks) (prefill_admits ?st))" by (rule sum_list_filter_le)
    finally show ?thesis by (simp add: kv_next_def)
  qed
  moreover have "entry_context ks' r = entry_context ks r" if "r \<notin> set ?ran" for r
    using that c(6) ks1(3) by (simp add: entry_context_def resolved_prefill_context_def)
  ultimately show ?thesis using eq other c(3) ids r(5,6) by blast
qed
subsection \<open>The whole iteration\<close>

lemma complete_partitions_ok:
  assumes "local_ok n la ks rs" and "distinct ps" and "\<forall>p \<in> set ps. p < n \<and> next_step_fits (ks_partitions ks ! p)"
  shows "\<exists>ks' rs'. fold_opt (complete_partition w now) ps (ks, rs, events) = Some (ks', rs',
        events @ map (Pair (wc_id w)) (concat (map (\<lambda>p. filter (finishes rs) (ran_at ks p)) ps)))
    \<and> local_ok n la ks' rs' \<and> (\<forall>q. q \<notin> set ps \<longrightarrow> ks_partitions ks' ! q = ks_partitions ks ! q)
    \<and> (\<forall>p \<in> set ps. prefill_admits (ks_partitions ks' ! p) = []
        \<and> map fst (decodes (ks_partitions ks' ! p)) = filter (\<lambda>r. \<not> finishes rs r) (ran_at ks p))
    \<and> (\<forall>r \<in> (\<Union>p \<in> set ps. set (ran_at ks p)). bumped rs rs' r)
    \<and> (\<forall>r. r \<notin> (\<Union>p \<in> set ps. set (ran_at ks p)) \<longrightarrow> get_record rs' r = get_record rs r)
    \<and> (\<forall>p \<in> set ps. kv_at ks' p \<le> kv_next ks p)"
  using assms
proof (induction ps arbitrary: ks rs events)
  case Nil
  then show ?case by simp
next
  case (Cons p ps)
  have p: "p < n" "next_step_fits (ks_partitions ks ! p)" using Cons.prems(3) by simp_all
  from complete_partition_ok [OF Cons.prems(1) p, of w now events] obtain ks1 rs1 where
    one: "complete_partition w now p (ks, rs, events)
      = Some (ks1, rs1, events @ map (Pair (wc_id w)) (filter (finishes rs) (ran_at ks p)))"
    "local_ok n la ks1 rs1" "\<forall>q. q \<noteq> p \<longrightarrow> ks_partitions ks1 ! q = ks_partitions ks ! q"
    "prefill_admits (ks_partitions ks1 ! p) = []"
    "map fst (decodes (ks_partitions ks1 ! p)) = filter (\<lambda>r. \<not> finishes rs r) (ran_at ks p)"
    "\<forall>r \<in> set (ran_at ks p). bumped rs rs1 r" "\<forall>r. r \<notin> set (ran_at ks p) \<longrightarrow> get_record rs1 r = get_record rs r"
    "kv_at ks1 p \<le> kv_next ks p" "\<forall>r. r \<notin> set (ran_at ks p) \<longrightarrow> entry_context ks1 r = entry_context ks r" by blast
  have apart: "q \<noteq> p" "q < num_partitions ks" if "q \<in> set ps" for q
    using that Cons.prems(2,3) local_okD(2) [OF Cons.prems(1)] by auto
  have ran: "ran_at ks1 q = ran_at ks q" if "q \<in> set ps" for q
    using one(3) apart(1) [OF that] by (simp add: ran_at_def)
  have sep: "r \<notin> set (ran_at ks p)" if "q \<in> set ps" "r \<in> set (ran_at ks q)" for q r
    using ran_disjoint [of ks p q] local_ok_residents [OF Cons.prems(1)] apart [OF that(1)] that(2) p(1)
      local_okD(2) [OF Cons.prems(1)] by auto
  have fins: "finishes rs1 r = finishes rs r" if "q \<in> set ps" "r \<in> set (ran_at ks q)" for q r
    using one(7) sep [OF that] by (intro finishes_cong) simp
  have split: "filter (finishes rs1) (ran_at ks1 q) = filter (finishes rs) (ran_at ks q)"
    "filter (\<lambda>r. \<not> finishes rs1 r) (ran_at ks1 q) = filter (\<lambda>r. \<not> finishes rs r) (ran_at ks q)" if "q \<in> set ps" for q
    unfolding ran [OF that] by (intro filter_cong refl; simp add: fins [OF that])+
  have "\<forall>q \<in> set ps. q < n \<and> next_step_fits (ks_partitions ks1 ! q)"
    using Cons.prems(3) one(3) apart(1) by auto
  from Cons.IH [OF one(2) _ this, of "events @ map (Pair (wc_id w)) (filter (finishes rs) (ran_at ks p))"] Cons.prems(2)
  obtain ks' rs' where
    ih: "fold_opt (complete_partition w now) ps (ks1, rs1, events @ map (Pair (wc_id w)) (filter (finishes rs) (ran_at ks p)))
      = Some (ks', rs', (events @ map (Pair (wc_id w)) (filter (finishes rs) (ran_at ks p)))
          @ map (Pair (wc_id w)) (concat (map (\<lambda>q. filter (finishes rs1) (ran_at ks1 q)) ps)))"
    "local_ok n la ks' rs'" "\<forall>q. q \<notin> set ps \<longrightarrow> ks_partitions ks' ! q = ks_partitions ks1 ! q"
    "\<forall>q \<in> set ps. prefill_admits (ks_partitions ks' ! q) = []
      \<and> map fst (decodes (ks_partitions ks' ! q)) = filter (\<lambda>r. \<not> finishes rs1 r) (ran_at ks1 q)"
    "\<forall>r \<in> (\<Union>q \<in> set ps. set (ran_at ks1 q)). bumped rs1 rs' r"
    "\<forall>r. r \<notin> (\<Union>q \<in> set ps. set (ran_at ks1 q)) \<longrightarrow> get_record rs' r = get_record rs1 r"
    "\<forall>q \<in> set ps. kv_at ks' q \<le> kv_next ks1 q" by auto
  have evs: "map (\<lambda>q. filter (finishes rs1) (ran_at ks1 q)) ps = map (\<lambda>q. filter (finishes rs) (ran_at ks q)) ps"
    using split(1) by simp
  have later: "bumped rs rs' r" if "q \<in> set ps" "r \<in> set (ran_at ks q)" for q r
  proof -
    have "bumped rs1 rs' r" using ih(5) that ran [OF that(1)] by auto
    then show ?thesis using one(7) sep [OF that] by (simp add: bumped_def)
  qed
  have now: "bumped rs rs' r" if "r \<in> set (ran_at ks p)" for r
  proof -
    have "r \<notin> (\<Union>q \<in> set ps. set (ran_at ks1 q))" using that sep ran by auto
    then have "get_record rs' r = get_record rs1 r" using ih(6) by blast
    then show ?thesis using bspec [OF one(6) that] by (simp add: bumped_def)
  qed
  have "p \<notin> set ps" using Cons.prems(2) by simp
  then have here: "ks_partitions ks' ! p = ks_partitions ks1 ! p" using ih(3) by blast
  have eq: "fold_opt (complete_partition w now) (p # ps) (ks, rs, events) = Some (ks', rs',
        events @ map (Pair (wc_id w)) (concat (map (\<lambda>p. filter (finishes rs) (ran_at ks p)) (p # ps))))"
    using one(1) ih(1) evs by simp
  have out: "get_record rs' r = get_record rs r" if "r \<notin> (\<Union>q \<in> set (p # ps). set (ran_at ks q))" for r
    using that ih(6) one(7) ran by auto
  have kv: "kv_at ks' q \<le> kv_next ks q" if "q \<in> set (p # ps)" for q
  proof (cases "q = p")
    case True
    then show ?thesis using one(8) here by (simp add: kv_at_def)
  next
    case False
    then have q: "q \<in> set ps" using that by simp
    have "entry_context ks1 r = entry_context ks r" if "r \<in> set (prefill_admits (ks_partitions ks ! q))" for r
      using one(9) sep [OF q, of r] that by (simp add: ran_at_def)
    then have "kv_next ks1 q = kv_next ks q"
      using one(3) False by (simp add: kv_next_def kv_at_def cong: map_cong)
    then show ?thesis using ih(7) q by metis
  qed
  show ?case
    by (rule exI [of _ ks'], rule exI [of _ rs'], intro conjI eq ih(2))
      (use ih(3,4) one(3-5) here split(2) now later out kv in auto)
qed

lemma iteration_ok:
  assumes "local_ok n la ks rs" and "\<And>p. p < n \<Longrightarrow> next_step_fits (ks_partitions ks ! p)"
  shows "\<exists>ks' rs'. local_complete_iteration w ks rs now
      = Some (ks', rs', map (Pair (wc_id w)) (filter (finishes rs) (residents ks)))
    \<and> local_ok n la ks' rs' \<and> prefilling ks' = [] \<and> decoding ks' = filter (\<lambda>r. \<not> finishes rs r) (residents ks)
    \<and> (\<forall>r \<in> set (residents ks). bumped rs rs' r)
    \<and> (\<forall>r. r \<notin> set (residents ks) \<longrightarrow> get_record rs' r = get_record rs r)
    \<and> (\<forall>p < n. kv_at ks' p \<le> kv_next ks p)"
proof -
  have n: "num_partitions ks = n" using local_okD(2) [OF assms(1)] .
  have "\<forall>p \<in> set [0..<n]. p < n \<and> next_step_fits (ks_partitions ks ! p)" using assms(2) by simp
  from complete_partitions_ok [OF assms(1) distinct_upt this, of w now "[]"] obtain ks' rs' where
    c: "fold_opt (complete_partition w now) [0..<n] (ks, rs, []) = Some (ks', rs',
        map (Pair (wc_id w)) (concat (map (\<lambda>p. filter (finishes rs) (ran_at ks p)) [0..<n])))"
    "local_ok n la ks' rs'"
    "\<forall>p < n. prefill_admits (ks_partitions ks' ! p) = []
        \<and> map fst (decodes (ks_partitions ks' ! p)) = filter (\<lambda>r. \<not> finishes rs r) (ran_at ks p)"
    "\<forall>r \<in> set (residents ks). bumped rs rs' r"
    "\<forall>r. r \<notin> set (residents ks) \<longrightarrow> get_record rs' r = get_record rs r"
    "\<forall>p < n. kv_at ks' p \<le> kv_next ks p"
    by (auto simp: residents_def n)
  have n': "num_partitions ks' = n" using local_okD(2) [OF c(2)] .
  have res: "residents ks = concat (map (ran_at ks) [0..<n])" by (simp add: residents_def n)
  have "map (Pair (wc_id w)) (concat (map (\<lambda>p. filter (finishes rs) (ran_at ks p)) [0..<n]))
      = map (Pair (wc_id w)) (filter (finishes rs) (residents ks))"
    by (simp add: res filter_concat comp_def)
  moreover have "prefilling ks' = []" using c(3) by (simp add: prefilling_at [OF n'])
  moreover have "decoding ks' = filter (\<lambda>r. \<not> finishes rs r) (residents ks)"
  proof -
    have "map (\<lambda>p. map fst (decodes (ks_partitions ks' ! p))) [0..<n]
        = map (\<lambda>p. filter (\<lambda>r. \<not> finishes rs r) (ran_at ks p)) [0..<n]" using c(3) by simp
    then show ?thesis unfolding decoding_at [OF n'] res by (simp only: filter_concat map_map comp_def)
  qed
  ultimately show ?thesis using c(1,2,4-6) using local_okD(4) [OF assms(1)]
    by (auto simp: local_complete_iteration_def n as_u16_def)
qed

text \<open>C8: Completing an iteration of a consistent worker returns when the next decode step fits its
  partitions: every request that ran has emitted exactly one more token, the ones for which that was the last
  are reported done, in order, and have left the store, the others are decoding (a prefill has joined the
  decodes of its partition), no other record changed, and the worker is again consistent with nothing left to
  prefill.\<close>

theorem iteration_completes:
  assumes "local_ok n la ks rs" and "\<And>p. p < n \<Longrightarrow> next_step_fits (ks_partitions ks ! p)"
  shows "\<exists>ks' rs'. local_complete_iteration w ks rs now
      = Some (ks', rs', map (Pair (wc_id w)) (filter (finishes rs) (residents ks)))
    \<and> local_ok n la ks' rs' \<and> prefilling ks' = [] \<and> decoding ks' = filter (\<lambda>r. \<not> finishes rs r) (residents ks)
    \<and> (\<forall>r \<in> set (residents ks). bumped rs rs' r)
    \<and> (\<forall>r. r \<notin> set (residents ks) \<longrightarrow> get_record rs' r = get_record rs r)"
  using iteration_ok [OF assms, of w now] by blast
subsection \<open>A concrete iteration\<close>

text \<open>One resident decode with one token left.\<close>

definition sample_running :: "unit ActiveRequest" where
  "sample_running = (from_request (sample_request 0))\<lparr>ar_progress := \<lparr>prefill_tokens_processed = 8, output_tokens_emitted = 1\<rparr>,
     ar_lifecycle := (ar_lifecycle (from_request (sample_request 0)))\<lparr>lc_admitted := True\<rparr>\<rparr>"

definition sample_serving :: "unit RequestStore" where
  "sample_serving = \<lparr>rs_records = [Some sample_running], arrived_ids = [0], admitted_ids = [0]\<rparr>"

lemma sample_serving_record: "get_record sample_serving 0 = Some sample_running" "emitted sample_running = 1" "target sample_running = 2"
  "lc_admitted (ar_lifecycle sample_running)"
  by (simp_all add: sample_serving_def get_record_def nth_opt_def sample_running_def from_request_def sample_request_def)

lemma sample_resident:
  "\<exists>ks. local_ok 1 sample_admission ks sample_serving \<and> prefilling ks = [] \<and> decoding ks = [0]
     \<and> next_step_fits (ks_partitions ks ! 0) \<and> kv_next ks 0 = 9"
proof -
  let ?a = "token_accounting 100"
  have fresh: "0 \<notin> fst ` set (decodes (ks_partitions sample_store ! 0))"
    by (simp add: sample_store(4) new_partition_def)
  obtain l st' where c: "store_ok (set_partition (sample_store\<lparr>ks_ledger := l\<rparr>) 0 st')"
    "forget_promise (ks_ledger sample_store) 0 = Some l"
    "begin_decode (new_partition ?a) 0 8 1 8 = Some st'"
    using commit_resident_ok [OF sample_store(1) _ fresh, of 8 1] sample_store(2,4)
    by (auto simp: sample_store_def new_store_def new_ledger_def prefill_context_def)
  let ?s = "set_partition (sample_store\<lparr>ks_ledger := l\<rparr>) 0 st'"
  have st': "decodes st' = [(0, fresh_decode ?a 8 1 8)]" "part_accounting st' = ?a" "prefill_admits st' = []"
    using begin_decode_ok [OF new_partition_ok [OF token_accounting_ok], of 0 100 8 1 8] c(3)
    by (auto simp: new_partition_def)
  obtain x where x: "ks_partitions sample_store = [x]"
    using sample_store(2) by (auto simp: num_partitions_def length_Suc_conv)
  have one: "ks_partitions ?s ! 0 = st'" "num_partitions ?s = 1" "ks_partitions ?s = [st']"
    by (simp_all add: num_partitions_def x)
  have l: "l = ks_ledger sample_store" using c(2) sample_empty(3) by (simp add: forget_promise_def)
  have pre: "prefilling ?s = []" and dec: "decoding ?s = [0]" by (simp_all add: prefilling_def decoding_def x st')
  have ok: "local_ok 1 sample_admission ?s sample_serving"
    using c(1) one pre dec sample_admission_facts sample_empty(3,4) sample_serving_record
    by (simp add: local_ok_def l x st' decode_tracks_def fresh_decode_def u32_max_def)
  from advance_decodes_ok [OF store_okD(3,7) [OF c(1), of 0]] one(1,2) obtain st2 where
    s2: "advance_decodes st' = Some st2" "partition_ok st2" "part_accounting st2 = ?a"
    "decodes st2 = map (\<lambda>(r, d). (r, step_decode ?a d)) (decodes st')" using st'(2) by auto
  have "resident_units st2 = 9"
    using s2(2,4) by (simp add: partition_ok_def st' step_decode_def fresh_decode_def advanced_def token_accounting_held)
  then have "next_step_fits st'"
    using s2(1,3) sample_store(7) by (simp add: next_step_fits_def partition_capacity_def)
  moreover have "kv_next ?s 0 = 9" using one(1) st'(1,3) by (simp add: kv_next_def kv_at_def fresh_decode_def)
  ultimately show ?thesis using ok pre dec one(1) by metis
qed

theorem iteration_completes_witness:
  "\<exists>ks ks' rs'. decoding ks = [0]
     \<and> local_complete_iteration sample_context ks sample_serving 9 = Some (ks', rs', [(3, 0)])"
proof -
  obtain ks where ks: "local_ok 1 sample_admission ks sample_serving" "prefilling ks = []" "decoding ks = [0]"
    "next_step_fits (ks_partitions ks ! 0)" using sample_resident by blast
  have "mset (residents ks) = {#0#}" using mset_residents [of ks] ks(2,3) by simp
  then have res: "residents ks = [0]" by simp
  have "finishes sample_serving 0" using sample_serving_record by (simp add: finishes_def)
  then show ?thesis
    using iteration_completes [OF ks(1), of sample_context 9] ks(3,4) res by (auto simp: sample_context_def)
qed

end
