(* ===== verification/Decode_Completion.thy ===== *)
theory Decode_Completion
  imports Complex_Main "HOL-Library.Word" Local_Completion
begin

unbundle bit_operations_syntax

section \<open>Decode completion (\<open>worker/admission/decode_completion.rs\<close>)\<close>

text \<open>
  How many tokens a resident decode retires per iteration. An ordinary engine retires one; a speculating
  engine verifies a window of drafts and retires the target's own token with the leading run of accepted
  drafts. Whether a draft is accepted is a draw of a hash of (seed, request, tokens emitted, position),
  computed on 64-bit words, compared with an acceptance rate. Rates are \<open>f32\<close> numbers and the draw is
  \<open>draw * 2^-53\<close> with \<open>draw < 2^53\<close>, both exact in \<open>f64\<close>: they are real numbers here. The acceptance profile
  is a type of the external trace crate: \<open>rate_of\<close> maps a decoding strategy to its profile (\<open>None\<close> is
  \<open>Standard\<close>), a function of position and depth, \<open>None\<close> where \<open>at_position\<close> panics.
\<close>

subsection \<open>The draws\<close>

type_synonym u64 = "64 word"

definition golden :: u64 where "golden = 0x9E3779B97F4A7C15"
definition mix_a :: u64 where "mix_a = 0xBF58476D1CE4E5B9"
definition mix_b :: u64 where "mix_b = 0x94D049BB133111EB"

definition splitmix64 :: "u64 \<Rightarrow> u64" where
  "splitmix64 value = (
     let v1 = value + golden;
         v2 = (v1 XOR drop_bit 30 v1) * mix_a;
         v3 = (v2 XOR drop_bit 27 v2) * mix_b
     in v3 XOR drop_bit 31 v3)"

definition draw_key :: "u64 \<Rightarrow> nat \<Rightarrow> nat \<Rightarrow> nat \<Rightarrow> u64" where
  "draw_key seed r em position =
     seed XOR (of_nat r * golden) XOR (of_nat em * mix_a) XOR (of_nat position * mix_b)"

definition unit_draw :: "u64 \<Rightarrow> real" where
  "unit_draw key = real (unat (drop_bit 11 (splitmix64 key))) / 2 ^ 53"

definition bernoulli :: "u64 \<Rightarrow> nat \<Rightarrow> nat \<Rightarrow> nat \<Rightarrow> real \<Rightarrow> bool" where
  "bernoulli seed r em position rate = (
     if rate \<le> 0 then False
     else if rate \<ge> 1 then True
     else unit_draw (draw_key seed r em position) < rate)"

subsection \<open>The verify window\<close>

definition verify_query_len :: "nat \<Rightarrow> nat \<Rightarrow> nat \<Rightarrow> nat" where
  "verify_query_len resident_kv draft_tokens max_model_len =
     as_u32 (min (draft_tokens + 1) (max_model_len - saturating_add_u64 resident_kv 1))"

text \<open>\<open>check_verify_row\<close>; the messages of its errors are left out.\<close>

datatype verify_row_error = QueryLenOutOfRange | KvLenOutOfRange | ClippedRowMisplaced

definition check_verify_row :: "nat \<Rightarrow> nat \<Rightarrow> nat \<Rightarrow> nat \<Rightarrow> verify_row_error + bool" where
  "check_verify_row kv_len query_len draft_tokens max_model_len = (
     let width = draft_tokens + 1 in
     if \<not> (1 \<le> query_len \<and> query_len \<le> width) then Inl QueryLenOutOfRange
     else if \<not> (query_len \<le> kv_len \<and> kv_len \<le> max_model_len) then Inl KvLenOutOfRange
     else let clipped = query_len < width in
       if clipped \<and> kv_len + 1 \<noteq> max_model_len then Inl ClippedRowMisplaced
       else Inr clipped)"

subsection \<open>Completing decodes\<close>

definition single_complete_decodes :: "WorkerContext \<Rightarrow> nat \<Rightarrow> partition_id \<Rightarrow>
     KvStore \<times> 'd RequestStore \<times> nat list \<Rightarrow> (KvStore \<times> 'd RequestStore \<times> nat list) option" where
  "single_complete_decodes w now p = (\<lambda>(ks, rs, completed). do {
     members \<leftarrow> store_decode_members ks p;
     (rs', completed') \<leftarrow> fold_opt (complete_decode_member w now) members (rs, completed);
     ks' \<leftarrow> advance ks (WholePartition p) 1;
     Some (ks', rs', completed')
   })"

record SpeculativeDecodeCompletion =
  sd_draft_tokens :: nat
  sd_max_model_len :: nat
  sd_seed :: u64

definition new_speculative :: "nat \<Rightarrow> nat \<Rightarrow> u64 \<Rightarrow> SpeculativeDecodeCompletion option" where
  "new_speculative draft_tokens max_model_len seed = do {
     assert_that (0 < draft_tokens);
     _ \<leftarrow> checked_add_u32 draft_tokens 2;
     Some \<lparr>sd_draft_tokens = draft_tokens, sd_max_model_len = max_model_len, sd_seed = seed\<rparr>
   }"

definition query_tokens_per_request :: "SpeculativeDecodeCompletion \<Rightarrow> nat" where
  "query_tokens_per_request sd = sd_draft_tokens sd + 1"

definition query_tokens_at :: "SpeculativeDecodeCompletion \<Rightarrow> nat \<Rightarrow> nat" where
  "query_tokens_at sd resident_kv = verify_query_len resident_kv (sd_draft_tokens sd) (sd_max_model_len sd)"

text \<open>The loop over the draft positions: it leaves at the first rejection.\<close>

type_synonym profile = "nat \<Rightarrow> nat \<Rightarrow> real option"

fun accepted_run :: "SpeculativeDecodeCompletion \<Rightarrow> nat \<Rightarrow> nat \<Rightarrow> profile \<Rightarrow> nat list \<Rightarrow> nat \<Rightarrow> nat option" where
  "accepted_run sd r em rate [] accepted = Some accepted"
| "accepted_run sd r em rate (pos # rest) accepted = do {
     position_rate \<leftarrow> rate pos (sd_draft_tokens sd);
     if \<not> bernoulli (sd_seed sd) r em pos position_rate then Some accepted
     else accepted_run sd r em rate rest (accepted + 1)
   }"

definition accepted_length :: "SpeculativeDecodeCompletion \<Rightarrow> nat \<Rightarrow> nat \<Rightarrow> profile \<Rightarrow> nat \<Rightarrow> nat \<Rightarrow> nat option" where
  "accepted_length sd r em rate remaining rows = do {
     accepted \<leftarrow> accepted_run sd r em rate [0..<sd_draft_tokens sd] 1;
     Some (min (min accepted remaining) rows)
   }"

definition fresh_progress :: SpeculativeProgress where
  "fresh_progress = \<lparr>query_width = 0, prefill_chunks = 0, decode_rounds = 0, resident_kv_sum = 0, query_rows = 0,
     verify_pairs = 0, emitted_tokens = 0, pending_prefill = None, pending_decode = None\<rparr>"

definition observe_round :: "SpeculativeDecodeCompletion \<Rightarrow> nat \<Rightarrow> nat \<Rightarrow> nat \<Rightarrow> SpeculativeProgress \<Rightarrow> SpeculativeProgress" where
  "observe_round sd resident_kv rows accepted o1 = o1\<lparr>query_width := sd_draft_tokens sd + 1,
     decode_rounds := decode_rounds o1 + 1, resident_kv_sum := resident_kv_sum o1 + resident_kv,
     query_rows := query_rows o1 + rows,
     verify_pairs := verify_pairs o1 + (rows * resident_kv + rows * (rows + 1) div 2),
     emitted_tokens := emitted_tokens o1 + accepted, pending_decode := None\<rparr>"

definition speculative_member :: "('d \<Rightarrow> profile option) \<Rightarrow> SpeculativeDecodeCompletion \<Rightarrow> WorkerContext \<Rightarrow> nat \<Rightarrow> nat \<times> nat \<Rightarrow>
     'd RequestStore \<times> nat list list \<times> nat list \<Rightarrow> ('d RequestStore \<times> nat list list \<times> nat list) option" where
  "speculative_member rate_of sd w now = (\<lambda>(r, resident_kv) (rs, buckets, completed). do {
     a \<leftarrow> get_record rs r;
     rate \<leftarrow> rate_of (td_decoding (definition_of a));
     let remaining = target a - emitted a;
     assert_that (0 < remaining);
     let rows = verify_query_len resident_kv (sd_draft_tokens sd) (sd_max_model_len sd);
     accepted \<leftarrow> accepted_length sd r (emitted a) rate remaining rows;
     let o1 = (case speculative (ar_telemetry a) of Some o1 \<Rightarrow> o1 | None \<Rightarrow> fresh_progress);
     let a1 = a\<lparr>ar_telemetry := (ar_telemetry a)\<lparr>speculative := Some (observe_round sd resident_kv rows accepted o1)\<rparr>\<rparr>;
     let a2 = ((\<lambda>b. record_token b now (log_output_token_times w)) ^^ accepted) a1;
     bucket \<leftarrow> nth_opt buckets accepted;
     let buckets' = buckets[accepted := bucket @ [r]];
     if is_complete a2
     then Some (put_record rs r (stamp_stage w a2 now (unified_code StageDone)), buckets', completed @ [r])
     else Some (put_record rs r a2, buckets', completed)
   })"

definition speculative_complete_decodes :: "('d \<Rightarrow> profile option) \<Rightarrow> SpeculativeDecodeCompletion \<Rightarrow> WorkerContext \<Rightarrow> nat \<Rightarrow> partition_id \<Rightarrow>
     KvStore \<times> 'd RequestStore \<times> nat list \<Rightarrow> (KvStore \<times> 'd RequestStore \<times> nat list) option" where
  "speculative_complete_decodes rate_of sd w now p = (\<lambda>(ks, rs, completed). do {
     members \<leftarrow> store_decode_members ks p;
     (rs', buckets, completed') \<leftarrow> fold_opt (speculative_member rate_of sd w now) members
       (rs, replicate (sd_draft_tokens sd + 2) [], completed);
     ks' \<leftarrow> fold_opt (\<lambda>accepted ks. do {
         bucket \<leftarrow> nth_opt buckets accepted;
         if bucket \<noteq> [] then advance ks (RequestSubset p bucket) accepted else Some ks
       }) [1..<sd_draft_tokens sd + 2] ks;
     Some (ks', rs', completed')
   })"

end
