(* ===== verification/Acceptance_Draws.thy ===== *)
theory Acceptance_Draws
  imports Decode_Completion
begin

unbundle bit_operations_syntax

section \<open>The acceptance draws\<close>

text \<open>
  The finalizer is a permutation of the 64-bit words, so the draw of a key falls below a rate for exactly
  the rate's share of all keys; a chain of draws is the leading run of accepted positions.
\<close>

subsection \<open>The finalizer is a permutation\<close>

lemma drop_bit_fixed:
  fixes z :: "64 word"
  assumes "z = drop_bit k z" and "0 < k"
  shows "z = 0"
proof -
  have "unat (drop_bit k z) = unat z div 2 ^ k" by (simp add: unat_drop_bit_eq drop_bit_nat_def)
  then have "unat z = unat z div 2 ^ k" using assms(1) by simp
  moreover have "unat z div 2 ^ k < unat z" if "0 < unat z"
    using that one_less_power [of "2 :: nat" k] assms(2) by (intro div_less_dividend) simp_all
  ultimately have "unat z = 0" by (metis gr0I less_irrefl)
  then show ?thesis by (simp add: unat_eq_0)
qed

lemma xor_shift_inj:
  fixes x y :: "64 word"
  assumes "x XOR drop_bit k x = y XOR drop_bit k y" and "0 < k"
  shows "x = y"
proof -
  have "x XOR y = drop_bit k (x XOR y)"
  proof (rule bit_eqI)
    fix n
    have "bit (x XOR drop_bit k x) n = bit (y XOR drop_bit k y) n" by (simp only: assms(1))
    then show "bit (x XOR y) n = bit (drop_bit k (x XOR y)) n" by (simp add: bit_simps) blast
  qed
  then have "x XOR y = 0" using drop_bit_fixed assms(2) by blast
  then have "(x XOR y) XOR y = y" by simp
  then show ?thesis by (simp add: xor.assoc)
qed

lemma odd_factor_inj:
  fixes m inv :: "64 word"
  assumes "m * inv = 1" and "x * m = y * m"
  shows "x = y"
  using arg_cong [OF assms(2), of "\<lambda>v. v * inv"] assms(1) by (simp add: mult.assoc)

lemma mix_inverses: "mix_a * 0x96de1b173f119089 = 1" "mix_b * 0x319642b2d24d8ec3 = 1"
  by (simp_all add: mix_a_def mix_b_def)

lemma splitmix64_inj: "splitmix64 x = splitmix64 y \<Longrightarrow> x = y"
proof -
  assume eq: "splitmix64 x = splitmix64 y"
  let ?v = "\<lambda>x. x + golden"
  let ?w = "\<lambda>x. (?v x XOR drop_bit 30 (?v x)) * mix_a"
  let ?u = "\<lambda>x. (?w x XOR drop_bit 27 (?w x)) * mix_b"
  have "?u x XOR drop_bit 31 (?u x) = ?u y XOR drop_bit 31 (?u y)"
    using eq by (simp only: splitmix64_def Let_def)
  then have "?u x = ?u y" by (rule xor_shift_inj) simp
  then have "?w x XOR drop_bit 27 (?w x) = ?w y XOR drop_bit 27 (?w y)" by (rule odd_factor_inj [OF mix_inverses(2)])
  then have "?w x = ?w y" by (rule xor_shift_inj) simp
  then have "?v x XOR drop_bit 30 (?v x) = ?v y XOR drop_bit 30 (?v y)" by (rule odd_factor_inj [OF mix_inverses(1)])
  then have "?v x = ?v y" by (rule xor_shift_inj) simp
  then show "x = y" by simp
qed

lemma splitmix64_bij: "bij splitmix64"
proof -
  have "inj splitmix64" using splitmix64_inj by (auto simp: inj_def)
  then show ?thesis using finite_UNIV_inj_surj [of splitmix64] by (simp add: bij_def)
qed

subsection \<open>How often a draw accepts\<close>

lemma unit_draw_less_iff:
  assumes "0 < rate" and "rate < 1"
  shows "unit_draw key < rate \<longleftrightarrow> unat (splitmix64 key) div 2 ^ 11 < nat \<lceil>rate * 2 ^ 53\<rceil>"
proof -
  let ?d = "unat (splitmix64 key) div 2 ^ 11"
  have "unit_draw key = real ?d / 2 ^ 53"
    by (simp add: unit_draw_def unat_drop_bit_eq drop_bit_nat_def)
  then have "unit_draw key < rate \<longleftrightarrow> real ?d < rate * 2 ^ 53"
    by (simp only: pos_divide_less_eq [of "2 ^ 53"] zero_less_power zero_less_numeral)
  also have "\<dots> \<longleftrightarrow> int ?d < \<lceil>rate * 2 ^ 53\<rceil>" by (simp add: less_ceiling_iff)
  also have "\<dots> \<longleftrightarrow> ?d < nat \<lceil>rate * 2 ^ 53\<rceil>" by (rule zless_nat_eq_int_zless [symmetric])
  finally show ?thesis .
qed

lemma card_words_below:
  assumes "t \<le> 2 ^ 53"
  shows "card {v :: 64 word. unat v div 2 ^ 11 < t} = t * 2 ^ 11"
proof -
  have iff: "n div 2 ^ 11 < t \<longleftrightarrow> n < t * 2 ^ 11" for n :: nat by (simp add: div_less_iff_less_mult)
  have top: "t * 2 ^ 11 \<le> 2 ^ LENGTH(64)"
    using mult_le_mono1 [OF assms, of "2 ^ 11"] by (simp flip: power_add)
  have "unat ` {v :: 64 word. unat v div 2 ^ 11 < t} = {..<t * 2 ^ 11}"
  proof (intro equalityI subsetI)
    fix n
    assume "n \<in> {..<t * 2 ^ 11}"
    then have n: "n < t * 2 ^ 11" by simp
    then have "unat (word_of_nat n :: 64 word) = n" using top
      by (simp add: unsigned_of_nat take_bit_nat_eq_self)
    then show "n \<in> unat ` {v :: 64 word. unat v div 2 ^ 11 < t}"
      using n iff by (intro image_eqI [of _ _ "word_of_nat n"]) simp_all
  qed (use iff in auto)
  then have "card (unat ` {v :: 64 word. unat v div 2 ^ 11 < t}) = t * 2 ^ 11" by simp
  moreover have "inj_on unat {v :: 64 word. unat v div 2 ^ 11 < t}" by (simp add: inj_on_def unsigned_word_eqI)
  ultimately show ?thesis by (simp add: card_image)
qed

text \<open>C32: \<open>splitmix64\<close> is a permutation of the 64-bit words, so the draw is exactly as likely to accept as the
  rate says: of the \<open>2 ^ 64\<close> keys, the ones that accept a rate strictly between 0 and 1 are \<open>2 ^ 11\<close> times the
  rate's numerator over \<open>2 ^ 53\<close>, rounded up; no key accepts a rate of 0 and every key a rate of 1.\<close>

theorem acceptance_frequency:
  "bij splitmix64 \<and> card {key. unit_draw key < rate}
    = (if rate \<le> 0 then 0 else if 1 \<le> rate then 2 ^ 64 else nat \<lceil>rate * 2 ^ 53\<rceil> * 2 ^ 11)"
proof -
  have range: "0 \<le> unit_draw key" "unit_draw key < 1" for key
  proof -
    have "unat (splitmix64 key) div 2 ^ 11 < 2 ^ 53"
      using unsigned_less [where ?'a = nat, of "splitmix64 key"] by (simp add: div_less_iff_less_mult)
    then have "real (unat (splitmix64 key) div 2 ^ 11) < real (2 ^ 53)" by (simp only: of_nat_less_iff)
    then show "unit_draw key < 1" by (simp add: unit_draw_def unat_drop_bit_eq drop_bit_nat_def)
  qed (simp add: unit_draw_def unat_drop_bit_eq drop_bit_nat_def)
  consider "rate \<le> 0" | "1 \<le> rate" | "0 < rate" "rate < 1" by linarith
  then have "card {key. unit_draw key < rate}
    = (if rate \<le> 0 then 0 else if 1 \<le> rate then 2 ^ 64 else nat \<lceil>rate * 2 ^ 53\<rceil> * 2 ^ 11)"
  proof cases
    case 1
    then have "{key. unit_draw key < rate} = {}" using range(1) by (auto simp: not_less intro: order_trans)
    then show ?thesis using 1 by simp
  next
    case 2
    then have "{key. unit_draw key < rate} = UNIV" using range(2) by (auto intro: less_le_trans)
    then show ?thesis using 2 by (simp add: card_word)
  next
    case 3
    let ?t = "nat \<lceil>rate * 2 ^ 53\<rceil>"
    have "splitmix64 ` {key. unit_draw key < rate} = {v. unat v div 2 ^ 11 < ?t}"
      using splitmix64_bij unfolding unit_draw_less_iff [OF 3] by (auto simp: bij_def surj_def)
    moreover have "inj_on splitmix64 {key. unit_draw key < rate}" using splitmix64_inj by (auto simp: inj_on_def)
    moreover have "?t \<le> 2 ^ 53" using 3 by (simp add: nat_le_iff ceiling_le_iff)
    ultimately have "card {key. unit_draw key < rate} = ?t * 2 ^ 11" using card_words_below by (metis card_image)
    then show ?thesis using 3 by simp
  qed
  then show ?thesis using splitmix64_bij by simp
qed

subsection \<open>A chain of draws\<close>

lemma accepted_run_eq:
  assumes "\<And>pos. pos \<in> set ps \<Longrightarrow> rate pos (sd_draft_tokens sd) = Some (\<rho> pos)"
  shows "accepted_run sd r em rate ps k = Some (k + length (takeWhile (\<lambda>pos. bernoulli (sd_seed sd) r em pos (\<rho> pos)) ps))"
  using assms by (induction ps arbitrary: k) simp_all

lemma accepted_length_eq:
  assumes "\<And>pos. pos < sd_draft_tokens sd \<Longrightarrow> rate pos (sd_draft_tokens sd) = Some (\<rho> pos)"
  shows "accepted_length sd r em rate remaining rows = Some (min (min (1 + length (takeWhile
      (\<lambda>pos. bernoulli (sd_seed sd) r em pos (\<rho> pos)) [0..<sd_draft_tokens sd])) remaining) rows)"
proof -
  have "accepted_run sd r em rate [0..<sd_draft_tokens sd] 1 = Some (1 + length (takeWhile
      (\<lambda>pos. bernoulli (sd_seed sd) r em pos (\<rho> pos)) [0..<sd_draft_tokens sd]))"
    using assms by (intro accepted_run_eq) simp
  then show ?thesis by (simp add: accepted_length_def)
qed

lemma bernoulli_mono: "bernoulli seed r em pos \<rho> \<Longrightarrow> \<rho> \<le> \<rho>' \<Longrightarrow> bernoulli seed r em pos \<rho>'"
  by (auto simp: bernoulli_def split: if_splits)

lemma takeWhile_mono: "(\<And>x. x \<in> set xs \<Longrightarrow> P x \<Longrightarrow> Q x) \<Longrightarrow> length (takeWhile P xs) \<le> length (takeWhile Q xs)"
  by (induction xs) auto

text \<open>C33: A verify retires the target's own token and the longest run of accepted drafts from position 0, cut
  by the tokens the request still has to emit and by the rows that ran: between one token and the whole window
  when both leave room. The draws depend only on seed, request, tokens emitted and position, so raising the
  rates of a profile, batch and history being what they may, never retires fewer tokens.\<close>

theorem accepted_length_exact:
  assumes "\<And>pos. pos < sd_draft_tokens sd \<Longrightarrow> rate pos (sd_draft_tokens sd) = Some (\<rho> pos)"
    and "\<And>pos. pos < sd_draft_tokens sd \<Longrightarrow> rate' pos (sd_draft_tokens sd) = Some (\<rho>' pos) \<and> \<rho> pos \<le> \<rho>' pos"
  shows "\<exists>n n'. accepted_length sd r em rate remaining rows = Some n \<and> accepted_length sd r em rate' remaining rows = Some n'
    \<and> n = min (min (1 + length (takeWhile (\<lambda>pos. bernoulli (sd_seed sd) r em pos (\<rho> pos)) [0..<sd_draft_tokens sd])) remaining) rows
    \<and> n \<le> n' \<and> n' \<le> sd_draft_tokens sd + 1 \<and> (0 < remaining \<longrightarrow> 0 < rows \<longrightarrow> 1 \<le> n)"
proof -
  let ?run = "\<lambda>\<rho>. length (takeWhile (\<lambda>pos. bernoulli (sd_seed sd) r em pos (\<rho> pos)) [0..<sd_draft_tokens sd])"
  have "?run \<rho> \<le> ?run \<rho>'" using assms(2) by (intro takeWhile_mono) (auto intro: bernoulli_mono)
  moreover have "?run \<rho>' \<le> sd_draft_tokens sd" using length_takeWhile_le [of _ "[0..<sd_draft_tokens sd]"] by simp
  moreover have "accepted_length sd r em rate remaining rows = Some (min (min (1 + ?run \<rho>) remaining) rows)"
    "accepted_length sd r em rate' remaining rows = Some (min (min (1 + ?run \<rho>') remaining) rows)"
    using assms by (intro accepted_length_eq; simp)+
  ultimately show ?thesis by auto
qed

theorem accepted_length_exact_witness:
  "\<exists>n n'. accepted_length \<lparr>sd_draft_tokens = 2, sd_max_model_len = 4096, sd_seed = 7\<rparr> 3 5 (\<lambda>_ _. Some 0) 9 3 = Some n
    \<and> accepted_length \<lparr>sd_draft_tokens = 2, sd_max_model_len = 4096, sd_seed = 7\<rparr> 3 5 (\<lambda>_ _. Some 1) 9 3 = Some n' \<and> n = 1 \<and> n \<le> n' \<and> n' \<le> 3"
  using accepted_length_exact [of "\<lparr>sd_draft_tokens = 2, sd_max_model_len = 4096, sd_seed = 7\<rparr>" "\<lambda>_ _. Some 0" "\<lambda>_. 0"
    "\<lambda>_ _. Some 1" "\<lambda>_. 1" 3 5 9 3] by (auto simp: bernoulli_def upt_rec)

text \<open>The window at the context limit.\<close>

text \<open>The verify window is at most the drafts and the target's token; with it the row passes
  \<open>check_verify_row\<close> whenever it is not empty, as a clipped row exactly when the limit cut it; and a request whose
  prompt and output fit the model's length always has room for its pending token.\<close>

theorem verify_window_valid:
  assumes "resident_kv < max_model_len" and "max_model_len \<le> u32_max"
  shows "verify_query_len resident_kv draft_tokens max_model_len \<le> draft_tokens + 1
    \<and> (0 < verify_query_len resident_kv draft_tokens max_model_len \<longleftrightarrow> resident_kv + 1 < max_model_len)
    \<and> (0 < verify_query_len resident_kv draft_tokens max_model_len \<longrightarrow>
        check_verify_row (resident_kv + verify_query_len resident_kv draft_tokens max_model_len)
          (verify_query_len resident_kv draft_tokens max_model_len) draft_tokens max_model_len
        = Inr (max_model_len - (resident_kv + 1) < draft_tokens + 1))
    \<and> (prompt + outp \<le> max_model_len \<longrightarrow> outd < outp \<longrightarrow> 0 < outd \<longrightarrow> resident_kv + 1 = prompt + outd \<longrightarrow>
        0 < verify_query_len resident_kv draft_tokens max_model_len)"
proof -
  have room: "saturating_add_u64 resident_kv 1 = resident_kv + 1"
    using assms by (simp add: saturating_add_u64_def u32_max_def u64_max_def)
  let ?q = "min (draft_tokens + 1) (max_model_len - (resident_kv + 1))"
  have "?q \<le> u32_max" using assms by linarith
  then have q: "verify_query_len resident_kv draft_tokens max_model_len = ?q"
    unfolding verify_query_len_def room by (rule as_u32_id)
  show ?thesis unfolding q by (auto simp: check_verify_row_def Let_def min_def)
qed

theorem verify_window_valid_witness:
  "0 < verify_query_len 4093 3 4096 \<and> check_verify_row (4093 + verify_query_len 4093 3 4096) (verify_query_len 4093 3 4096) 3 4096 = Inr True"
  using verify_window_valid [of 4093 4096 3] by (simp add: u32_max_def)

end
