(* ===== verification/Speculative_Rounds.thy ===== *)
theory Speculative_Rounds
  imports Acceptance_Draws
begin

section \<open>A speculative round\<close>

text \<open>
  What \<open>complete_decodes\<close> of the speculating engine does to records and KV: every member emits the tokens its
  verify accepted, and its KV context grows by exactly as many positions.
\<close>

subsection \<open>Decodes that step by different distances\<close>

definition stepped :: "KvAccounting \<Rightarrow> (nat \<Rightarrow> nat) \<Rightarrow> (nat \<times> ResidentDecode) list \<Rightarrow> (nat \<times> ResidentDecode) list" where
  "stepped a f ds = map (\<lambda>(q, d). (q, (step_decode a ^^ f q) d)) ds"

lemma stepped_stepped: "stepped a f (stepped a g ds) = stepped a (\<lambda>q. f q + g q) ds"
  by (simp add: stepped_def funpow_add case_prod_unfold)

lemma stepped_0 [simp]: "stepped a (\<lambda>q. 0) ds = ds"
  by (simp add: stepped_def)

lemma stepped_cong: "(\<And>q. q \<in> fst ` set ds \<Longrightarrow> f q = g q) \<Longrightarrow> stepped a f ds = stepped a g ds"
  by (auto simp: stepped_def rev_image_eqI)

lemma steps_context:
  "current_kv ((step_decode a ^^ n) d) = current_kv d + min n (remaining_decode d)
    \<and> remaining_decode ((step_decode a ^^ n) d) = remaining_decode d - n"
  by (induction n) (auto simp: step_decode_def advanced_def)

lemma map_of_stepped: "map_of (stepped a f ds) q = map_option (step_decode a ^^ f q) (map_of ds q)"
  by (induction ds) (auto simp: stepped_def)

subsection \<open>One bucket of the store\<close>

definition room_for :: "nat \<Rightarrow> KvStore \<Rightarrow> partition_id \<Rightarrow> bool" where
  "room_for m s p \<longleftrightarrow> sum_list (map (\<lambda>(_, d). held_while_running (ks_accounting s) (current_kv d + m) 1)
     (decodes (ks_partitions s ! p))) \<le> capacity_units (ks_accounting s)"

definition shifts :: "partition_id \<Rightarrow> (nat \<Rightarrow> nat) \<Rightarrow> KvStore \<Rightarrow> KvStore \<Rightarrow> bool" where
  "shifts p f s s' \<longleftrightarrow> only_at p s s' \<and> ks_ledger s' = ks_ledger s \<and> ks_accounting s' = ks_accounting s
     \<and> decodes (ks_partitions s' ! p) = stepped (ks_accounting s) f (decodes (ks_partitions s ! p))
     \<and> prefill_admits (ks_partitions s' ! p) = prefill_admits (ks_partitions s ! p)"

lemma shifts_refl: "store_ok s \<Longrightarrow> shifts p (\<lambda>q. 0) s s"
  by (simp add: shifts_def only_at_def)

lemma shifts_trans: "shifts p f s t \<Longrightarrow> shifts p g t u \<Longrightarrow> shifts p (\<lambda>q. g q + f q) s u"
  by (auto simp: shifts_def stepped_stepped intro: only_at_trans)

lemma advance_subset_exact:
  assumes "partition_ok st" and "steady_checkpoints (part_accounting st)" and "distinct rs"
  shows "\<exists>st'. advance_subset st rs = Some st'
    \<and> decodes st' = stepped (part_accounting st) (\<lambda>q. if q \<in> set rs then 1 else 0) (decodes st)
    \<and> part_accounting st' = part_accounting st \<and> prefill_admits st' = prefill_admits st"
  using assms
proof (induction rs arbitrary: st)
  case (Cons r rs)
  from advance_one_ok [OF Cons.prems(1,2), of r] obtain st1 where
    one: "advance_one r st = Some st1" "partition_ok st1" "part_accounting st1 = part_accounting st"
    "decodes st1 = stepped (part_accounting st) (\<lambda>q. if q = r then 1 else 0) (decodes st)"
    "prefill_admits st1 = prefill_admits st"
    by (auto simp: stepped_def if_distrib [of "\<lambda>n. (step_decode (part_accounting st) ^^ n) _"] cong: if_cong)
  from Cons.IH [OF one(2)] Cons.prems(2,3) one(3) obtain st' where
    ih: "advance_subset st1 rs = Some st'" "part_accounting st' = part_accounting st"
    "decodes st' = stepped (part_accounting st) (\<lambda>q. if q \<in> set rs then 1 else 0) (decodes st1)"
    "prefill_admits st' = prefill_admits st1" by auto
  have "(\<lambda>q. (if q \<in> set rs then 1 else 0) + (if q = r then 1 else 0)) = (\<lambda>q. if q \<in> set (r # rs) then 1 else 0 :: nat)"
    using Cons.prems(3) by (auto simp: fun_eq_iff)
  then show ?case using one ih by (simp add: advance_subset_def stepped_stepped)
qed (simp add: advance_subset_def)

lemma subset_step_shifts:
  assumes "store_ok s" and "p < num_partitions s" and "all_placed_on (ks_ledger s) p rs" and "distinct rs"
  shows "\<exists>s'. advance_step (RequestSubset p rs) s = Some s' \<and> shifts p (\<lambda>q. if q \<in> set rs then 1 else 0) s s'"
proof -
  from advance_step_ok [OF assms(1), of "RequestSubset p rs"] assms(2,3) obtain st' where
    st': "advance_step (RequestSubset p rs) s = Some (set_partition s p st')" "store_ok (set_partition s p st')"
    "advance_subset (ks_partitions s ! p) rs = Some st'" by (auto simp: scope_partition_def)
  from advance_subset_exact [OF store_okD(3,7) [OF assms(1,2)] assms(4)] st'(3) have
    "decodes st' = stepped (ks_accounting s) (\<lambda>q. if q \<in> set rs then 1 else 0) (decodes (ks_partitions s ! p))"
    "prefill_admits st' = prefill_admits (ks_partitions s ! p)"
    by (simp_all add: store_okD(5) [OF assms(1,2)])
  then show ?thesis using st'(1,2) assms(2) by (auto simp: shifts_def only_at_def num_partitions_def)
qed

lemma subset_steps_shift:
  assumes "store_ok s" and "p < num_partitions s" and "all_placed_on (ks_ledger s) p rs" and "distinct rs"
  shows "\<exists>s'. fold_opt (\<lambda>_. advance_step (RequestSubset p rs)) ns s = Some s'
    \<and> shifts p (\<lambda>q. if q \<in> set rs then length ns else 0) s s'"
  using assms
proof (induction ns arbitrary: s)
  case Nil
  then show ?case by (simp add: shifts_refl cong: if_cong)
next
  case (Cons n ns)
  from subset_step_shifts [OF Cons.prems] obtain s1 where
    s1: "advance_step (RequestSubset p rs) s = Some s1" "shifts p (\<lambda>q. if q \<in> set rs then 1 else 0) s s1" by blast
  have "store_ok s1" "p < num_partitions s1" "all_placed_on (ks_ledger s1) p rs"
    using s1(2) Cons.prems by (simp_all add: shifts_def only_at_def)
  from Cons.IH [OF this Cons.prems(4)] obtain s' where
    s': "fold_opt (\<lambda>_. advance_step (RequestSubset p rs)) ns s1 = Some s'"
    "shifts p (\<lambda>q. if q \<in> set rs then length ns else 0) s1 s'" by blast
  have "shifts p (\<lambda>q. if q \<in> set rs then length (n # ns) else 0) s s'"
    using shifts_trans [OF s1(2) s'(2)] by (simp add: if_distrib cong: if_cong)
  then show ?case using s1(1) s'(1) by auto
qed

text \<open>The assertion of \<open>advance\<close> holds as long as the longest possible window fits.\<close>

lemma shifted_fits:
  assumes "store_ok s" and "p < num_partitions s" and "room_for m s p" and "shifts p f s s'" and "\<And>q. f q \<le> m"
  shows "resident_units (ks_partitions s' ! p) \<le> partition_capacity (ks_partitions s' ! p)"
proof -
  let ?a = "ks_accounting s" and ?ds = "decodes (ks_partitions s ! p)"
  have s': "store_ok s'" "p < num_partitions s'" "ks_accounting s' = ?a"
    "decodes (ks_partitions s' ! p) = stepped ?a f ?ds"
    using assms(2,4) by (simp_all add: shifts_def only_at_def)
  note ok = store_okD(3) [OF s'(1,2), unfolded partition_ok_def] and acc = store_okD(5) [OF s'(1,2), unfolded s'(3)]
  have "accounting_ok ?a" using ok acc by simp
  then have le: "held_while_running ?a (current_kv ((step_decode ?a ^^ f q) d)) 1
      \<le> held_while_running ?a (current_kv d + m) 1" for q d
    using assms(5) [of q] by (intro held_mono) (simp_all add: steps_context min_def)
  have "resident_units (ks_partitions s' ! p) = sum_list (map rd_charge (map snd (stepped ?a f ?ds)))"
    using ok s'(4) by simp
  also have "\<dots> = sum_list (map (\<lambda>d. held_while_running ?a (current_kv d) 1) (map snd (stepped ?a f ?ds)))"
    using ok acc s'(4) by (intro arg_cong [where f = sum_list] map_cong) (auto simp: state_ok_def)
  also have "\<dots> = sum_list (map (\<lambda>(q, d). held_while_running ?a (current_kv ((step_decode ?a ^^ f q) d)) 1) ?ds)"
    by (simp add: stepped_def comp_def case_prod_unfold)
  also have "\<dots> \<le> sum_list (map (\<lambda>(_, d). held_while_running ?a (current_kv d + m) 1) ?ds)"
    using le by (intro sum_list_mono) (auto simp: case_prod_unfold)
  also have "\<dots> \<le> capacity_units ?a" using assms(3) by (simp add: room_for_def)
  finally show ?thesis by (simp add: partition_capacity_def acc)
qed

lemma bucket_advances:
  assumes "store_ok s" and "p < num_partitions s" and "all_placed_on (ks_ledger s) p rs" and "distinct rs"
    and "room_for m t p" and "store_ok t" and "p < num_partitions t" and "shifts p f t s"
    and "\<And>q. f q + (if q \<in> set rs then n else 0) \<le> m"
  shows "\<exists>s'. advance s (RequestSubset p rs) n = Some s' \<and> shifts p (\<lambda>q. f q + (if q \<in> set rs then n else 0)) t s'"
proof -
  from subset_steps_shift [OF assms(1-4), of "[0..<n]"] obtain s' where
    s': "fold_opt (\<lambda>_. advance_step (RequestSubset p rs)) [0..<n] s = Some s'"
    "shifts p (\<lambda>q. if q \<in> set rs then n else 0) s s'" by (auto cong: if_cong)
  have all: "shifts p (\<lambda>q. f q + (if q \<in> set rs then n else 0)) t s'"
    using shifts_trans [OF assms(8) s'(2)] by (simp add: add.commute)
  have "p < num_partitions s'" using s'(2) assms(2) by (simp add: shifts_def only_at_def)
  moreover have "resident_units (ks_partitions s' ! p) \<le> partition_capacity (ks_partitions s' ! p)"
    using shifted_fits [OF assms(6,7,5) all] assms(9) by simp
  ultimately have "advance s (RequestSubset p rs) n = Some s'"
    using s'(1) by (simp add: advance_def scope_partition_def partition_at_ok)
  then show ?thesis using all by blast
qed

text \<open>The loop over the buckets: after the buckets below \<open>k\<close>, exactly their requests have moved.\<close>

lemma buckets_advance:
  assumes "store_ok t" and "p < num_partitions t" and "room_for m t p" and "k \<le> m + 1"
    and "\<And>j. j \<le> m \<Longrightarrow> distinct (bs ! j) \<and> all_placed_on (ks_ledger t) p (bs ! j)" and "m < length bs"
    and "\<And>j q. j \<le> m \<Longrightarrow> q \<in> set (bs ! j) \<longleftrightarrow> q \<in> Q \<and> n q = j"
  shows "\<exists>s. fold_opt (\<lambda>j ks. do {
        b \<leftarrow> nth_opt bs j;
        if b \<noteq> [] then advance ks (RequestSubset p b) j else Some ks
      }) [1..<k] t = Some s \<and> shifts p (\<lambda>q. if q \<in> Q \<and> n q < k then n q else 0) t s"
  using assms(4)
proof (induction k)
  case 0
  then show ?case using assms(1) by (simp add: shifts_refl)
next
  case (Suc k)
  let ?body = "\<lambda>j ks. do {
        b \<leftarrow> nth_opt bs j;
        if b \<noteq> [] then advance ks (RequestSubset p b) j else Some ks
      }" and ?f = "\<lambda>k q. if q \<in> Q \<and> n q < k then n q else 0"
  show ?case
  proof (cases "k = 0")
    case True
    then have "?f (Suc k) = (\<lambda>q. 0)" by auto
    then show ?thesis using True assms(1) by (simp add: shifts_refl)
  next
    case False
    from Suc obtain s where s: "fold_opt ?body [1..<k] t = Some s" "shifts p (?f k) t s" by auto
    have ok: "store_ok s" "p < num_partitions s" "ks_ledger s = ks_ledger t"
      using s(2) assms(2) by (simp_all add: shifts_def only_at_def)
    have k: "k \<le> m" "nth_opt bs k = Some (bs ! k)" using Suc.prems assms(6) by (simp_all add: nth_opt_def)
    have "?f k q + (if q \<in> set (bs ! k) then k else 0) = ?f (Suc k) q" for q
      unfolding assms(7) [OF k(1)] by (cases "n q" k rule: linorder_cases) simp_all
    then have sum: "(\<lambda>q. ?f k q + (if q \<in> set (bs ! k) then k else 0)) = ?f (Suc k)" by (rule ext)
    have below: "?f k q + (if q \<in> set (bs ! k) then k else 0) \<le> m" for q
    proof -
      have "?f k q + (if q \<in> set (bs ! k) then k else 0) = ?f (Suc k) q" by (rule fun_cong [OF sum])
      also have "\<dots> \<le> m" using k(1) by simp
      finally show ?thesis .
    qed
    from bucket_advances [OF ok(1,2) _ _ assms(3,1,2) s(2) below] assms(5) [OF k(1)] ok(3) obtain s' where
      s': "advance s (RequestSubset p (bs ! k)) k = Some s'" "shifts p (?f (Suc k)) t s'" unfolding sum by auto
    have "\<exists>s''. ?body k s = Some s'' \<and> shifts p (?f (Suc k)) t s''"
    proof (cases "bs ! k = []")
      case True
      then have "?f (Suc k) = ?f k" using sum by simp
      then show ?thesis using True k(2) s(2) by simp
    qed (use s' k(2) in simp)
    then obtain s'' where s'': "?body k s = Some s''" "shifts p (?f (Suc k)) t s''" by blast
    have "[1..<Suc k] = [1..<k] @ [k]" using False by simp
    then have "fold_opt ?body [1..<Suc k] t = Some s''" using s(1) s''(1) by (simp only: fold_opt_snoc bind.bind_lunit)
    then show ?thesis using s''(2) by blast
  qed
qed

subsection \<open>The records of a round\<close>

definition verified :: "('d \<Rightarrow> profile option) \<Rightarrow> SpeculativeDecodeCompletion \<Rightarrow> 'd RequestStore \<Rightarrow> nat \<times> nat \<Rightarrow> nat option" where
  "verified rate_of sd rs x = do {
     a \<leftarrow> get_record rs (fst x);
     rate \<leftarrow> rate_of (td_decoding (definition_of a));
     accepted_length sd (fst x) (emitted a) rate (target a - emitted a)
       (verify_query_len (snd x) (sd_draft_tokens sd) (sd_max_model_len sd))
   }"

definition closes :: "('d \<Rightarrow> profile option) \<Rightarrow> SpeculativeDecodeCompletion \<Rightarrow> 'd RequestStore \<Rightarrow> nat \<times> nat \<Rightarrow> bool" where
  "closes rate_of sd rs x \<longleftrightarrow> (\<exists>a n. get_record rs (fst x) = Some a \<and> verified rate_of sd rs x = Some n \<and> target a \<le> emitted a + n)"

definition gained :: "'d RequestStore \<Rightarrow> 'd RequestStore \<Rightarrow> nat \<Rightarrow> nat \<Rightarrow> bool" where
  "gained rs rs' r n \<longleftrightarrow> (\<exists>a a'. get_record rs r = Some a \<and> get_record rs' r = Some a'
     \<and> ar_request a' = ar_request a \<and> emitted a' = emitted a + n)"

lemma verified_cong: "get_record rs' (fst x) = get_record rs (fst x) \<Longrightarrow>
    verified rate_of sd rs' x = verified rate_of sd rs x \<and> closes rate_of sd rs' x = closes rate_of sd rs x"
  by (simp add: verified_def closes_def)

lemma record_tokens_facts:
  "ar_request (((\<lambda>b. record_token b now flag) ^^ n) a) = ar_request a
    \<and> emitted (((\<lambda>b. record_token b now flag) ^^ n) a) = emitted a + n"
  by (induction n) (simp_all add: record_token_facts)

lemma speculative_member_ok:
  assumes "get_record rs r = Some a" and "emitted a < target a" and "verified rate_of sd rs (r, kv) = Some n" and "n < length bs"
  shows "\<exists>a'. speculative_member rate_of sd w now (r, kv) (rs, bs, acc) = Some (put_record rs r a', bs[n := bs ! n @ [r]],
      acc @ (if closes rate_of sd rs (r, kv) then [r] else []))
    \<and> ar_request a' = ar_request a \<and> emitted a' = emitted a + n"
proof -
  obtain rate where rate: "rate_of (td_decoding (definition_of a)) = Some rate"
    "accepted_length sd r (emitted a) rate (target a - emitted a) (verify_query_len kv (sd_draft_tokens sd) (sd_max_model_len sd)) = Some n"
    using assms(1,3) by (auto simp: verified_def bind_Some_iff)
  define o1 where "o1 = observe_round sd kv (verify_query_len kv (sd_draft_tokens sd) (sd_max_model_len sd)) n
    (case speculative (ar_telemetry a) of Some o1 \<Rightarrow> o1 | None \<Rightarrow> fresh_progress)"
  define a1 where "a1 = a\<lparr>ar_telemetry := (ar_telemetry a)\<lparr>speculative := Some o1\<rparr>\<rparr>"
  define a2 where "a2 = ((\<lambda>b. record_token b now (log_output_token_times w)) ^^ n) a1"
  have a2: "ar_request a2 = ar_request a" "emitted a2 = emitted a + n"
    using record_tokens_facts [where now = now and flag = "log_output_token_times w" and n = n and a = a1] by (simp_all add: a2_def a1_def)
  have closed: "is_complete a2 \<longleftrightarrow> closes rate_of sd rs (r, kv)"
    using a2 assms(1,3) by (simp add: is_complete_def closes_def)
  have "speculative_member rate_of sd w now (r, kv) (rs, bs, acc) = (
     if is_complete a2 then Some (put_record rs r (stamp_stage w a2 now (unified_code StageDone)), bs[n := bs ! n @ [r]], acc @ [r])
     else Some (put_record rs r a2, bs[n := bs ! n @ [r]], acc))"
    using assms(1,2,4) rate by (simp add: speculative_member_def Let_def nth_opt_def a2_def a1_def o1_def)
  then show ?thesis using a2 closed by (cases "is_complete a2") (auto simp: stamp_stage_def)
qed

lemma speculative_members_ok:
  assumes "distinct (map fst xs)"
    and "\<forall>x \<in> set xs. \<exists>a n. get_record rs (fst x) = Some a \<and> emitted a < target a \<and> verified rate_of sd rs x = Some n \<and> n < length bs"
  shows "\<exists>rs' bs'. fold_opt (speculative_member rate_of sd w now) xs (rs, bs, acc)
      = Some (rs', bs', acc @ map fst (filter (closes rate_of sd rs) xs))
    \<and> length bs' = length bs
    \<and> (\<forall>j < length bs. bs' ! j = bs ! j @ map fst (filter (\<lambda>x. verified rate_of sd rs x = Some j) xs))
    \<and> (\<forall>x \<in> set xs. \<forall>n. verified rate_of sd rs x = Some n \<longrightarrow> gained rs rs' (fst x) n)
    \<and> (\<forall>r. r \<notin> fst ` set xs \<longrightarrow> get_record rs' r = get_record rs r)"
  using assms
proof (induction xs arbitrary: rs bs acc)
  case (Cons x xs)
  obtain r kv where x: "x = (r, kv)" by (cases x)
  obtain a n where a: "get_record rs r = Some a" "emitted a < target a" "verified rate_of sd rs (r, kv) = Some n" "n < length bs"
    using Cons.prems(2) x by auto
  from speculative_member_ok [OF this, of w now acc] obtain a' where a': "ar_request a' = ar_request a" "emitted a' = emitted a + n"
    "speculative_member rate_of sd w now (r, kv) (rs, bs, acc) = Some (put_record rs r a', bs[n := bs ! n @ [r]],
      acc @ (if closes rate_of sd rs (r, kv) then [r] else []))" by blast
  let ?rs1 = "put_record rs r a'" and ?bs1 = "bs[n := bs ! n @ [r]]"
    and ?acc1 = "acc @ (if closes rate_of sd rs (r, kv) then [r] else [])"
  have notin: "r \<notin> fst ` set xs" using Cons.prems(1) x by simp
  have same: "get_record ?rs1 q = get_record rs q" if "q \<noteq> r" for q using that a(1) by simp
  have cong: "verified rate_of sd ?rs1 y = verified rate_of sd rs y" "closes rate_of sd ?rs1 y = closes rate_of sd rs y"
    if "y \<in> set xs" for y
    using verified_cong [of ?rs1 y rs, OF same] that notin by auto
  have "\<forall>y \<in> set xs. \<exists>a n. get_record ?rs1 (fst y) = Some a \<and> emitted a < target a
      \<and> verified rate_of sd ?rs1 y = Some n \<and> n < length ?bs1"
  proof
    fix y
    assume y: "y \<in> set xs"
    then have "fst y \<noteq> r" using notin by auto
    then show "\<exists>a n. get_record ?rs1 (fst y) = Some a \<and> emitted a < target a \<and> verified rate_of sd ?rs1 y = Some n \<and> n < length ?bs1"
      using Cons.prems(2) y cong(1) [OF y] same by simp
  qed
  from Cons.IH [OF _ this, of ?acc1] Cons.prems(1) obtain rs' bs' where
    ih: "fold_opt (speculative_member rate_of sd w now) xs (?rs1, ?bs1, ?acc1)
      = Some (rs', bs', ?acc1 @ map fst (filter (closes rate_of sd ?rs1) xs))" "length bs' = length bs"
    "\<forall>j < length bs. bs' ! j = ?bs1 ! j @ map fst (filter (\<lambda>y. verified rate_of sd ?rs1 y = Some j) xs)"
    "\<forall>y \<in> set xs. \<forall>n. verified rate_of sd ?rs1 y = Some n \<longrightarrow> gained ?rs1 rs' (fst y) n"
    "\<forall>q. q \<notin> fst ` set xs \<longrightarrow> get_record rs' q = get_record ?rs1 q" by auto
  have fins: "filter (closes rate_of sd ?rs1) xs = filter (closes rate_of sd rs) xs"
    "filter (\<lambda>y. verified rate_of sd ?rs1 y = Some j) xs = filter (\<lambda>y. verified rate_of sd rs y = Some j) xs" for j
    using cong by (auto intro: filter_cong)
  have "fold_opt (speculative_member rate_of sd w now) (x # xs) (rs, bs, acc)
      = Some (rs', bs', acc @ map fst (filter (closes rate_of sd rs) (x # xs)))"
    using a'(3) ih(1) by (simp add: x fins(1))
  moreover have "bs' ! j = bs ! j @ map fst (filter (\<lambda>y. verified rate_of sd rs y = Some j) (x # xs))" if "j < length bs" for j
    using ih(3) that a(3) by (auto simp: x fins(2) nth_list_update)
  moreover have "gained rs rs' r n" using ih(5) notin a(1) a'(1,2) by (simp add: gained_def)
  moreover have "gained rs rs' (fst y) k" if "y \<in> set xs" "verified rate_of sd rs y = Some k" for y k
  proof -
    have "fst y \<noteq> r" using that(1) notin by auto
    then have "get_record ?rs1 (fst y) = get_record rs (fst y)" by (rule same)
    moreover have "gained ?rs1 rs' (fst y) k" using ih(4) that cong(1) [OF that(1)] by simp
    ultimately show ?thesis by (simp add: gained_def)
  qed
  moreover have "get_record rs' q = get_record rs q" if "q \<notin> fst ` set (x # xs)" for q
    using ih(5) that same x by simp
  ultimately show ?case using ih(2) a(3) x by (intro exI [of _ rs'] exI [of _ bs']) simp
qed simp

subsection \<open>A round\<close>

lemma verified_bounds:
  assumes "decode_tracks rs (r, d)" and "get_record rs r = Some a" and "rate_of (td_decoding (definition_of a)) = Some rate"
    and "\<forall>pos < sd_draft_tokens sd. rate pos (sd_draft_tokens sd) \<noteq> None"
  shows "\<exists>n. verified rate_of sd rs (r, current_kv d) = Some n \<and> n \<le> sd_draft_tokens sd + 1 \<and> n \<le> remaining_decode d
    \<and> (closes rate_of sd rs (r, current_kv d) \<longleftrightarrow> n = remaining_decode d) \<and> emitted a < target a"
proof -
  let ?run = "length (takeWhile (\<lambda>pos. bernoulli (sd_seed sd) r (emitted a) pos (the (rate pos (sd_draft_tokens sd))))
    [0..<sd_draft_tokens sd])"
  have "accepted_length sd r (emitted a) rate (target a - emitted a) rows = Some (min (min (1 + ?run) (target a - emitted a)) rows)"
    for rows using assms(4) by (intro accepted_length_eq) auto
  moreover have "?run \<le> sd_draft_tokens sd"
    using length_takeWhile_le [of _ "[0..<sd_draft_tokens sd]"] by simp
  moreover have "target a - emitted a = remaining_decode d" "emitted a < target a"
    using assms(1,2) by (auto simp: decode_tracks_def)
  ultimately show ?thesis using assms(2,3) by (auto simp: verified_def closes_def)
qed

text \<open>C9: A speculative round on a partition whose longest windows fit: every decode emits the tokens its verify accepted,
  at most the window and at most what it had left; its KV context grows by exactly as many positions and its
  remaining budget falls by as many, whatever distances the others move; the requests that reached their output, and
  only those, are reported completed; no other partition is touched.\<close>

theorem speculative_round_exact:
  fixes ks :: KvStore and p :: partition_id
  defines "ds \<equiv> decodes (ks_partitions ks ! p)"
  assumes "store_ok ks" and "p < num_partitions ks" and "all_placed_on (ks_ledger ks) p (map fst ds)"
    and "\<forall>x \<in> set ds. decode_tracks rs x" and "room_for (sd_draft_tokens sd + 1) ks p"
    and "\<forall>x \<in> set ds. \<exists>a rate. get_record rs (fst x) = Some a \<and> rate_of (td_decoding (definition_of a)) = Some rate
      \<and> (\<forall>pos < sd_draft_tokens sd. rate pos (sd_draft_tokens sd) \<noteq> None)"
  shows "\<exists>ks' rs' n. speculative_complete_decodes rate_of sd w now p (ks, rs, acc)
      = Some (ks', rs', acc @ map fst (filter (\<lambda>x. n (fst x) = remaining_decode (snd x)) ds))
    \<and> only_at p ks ks' \<and> map fst (decodes (ks_partitions ks' ! p)) = map fst ds
    \<and> (\<forall>(r, d) \<in> set ds. verified rate_of sd rs (r, current_kv d) = Some (n r)
        \<and> n r \<le> sd_draft_tokens sd + 1 \<and> n r \<le> remaining_decode d \<and> gained rs rs' r (n r)
        \<and> (\<exists>d'. map_of (decodes (ks_partitions ks' ! p)) r = Some d' \<and> current_kv d' = current_kv d + n r
             \<and> remaining_decode d' = remaining_decode d - n r))"
proof -
  let ?st = "ks_partitions ks ! p" and ?a = "ks_accounting ks" and ?m = "sd_draft_tokens sd + 1"
  let ?members = "map (\<lambda>(r, d). (r, current_kv d)) ds"
  define n where "n r = the (verified rate_of sd rs (r, current_kv (the (map_of ds r))))" for r
  note part = store_okD(3) [OF assms(2,3), unfolded partition_ok_def, folded ds_def]
  have dist: "distinct (map fst ds)" using part by simp
  have bounds: "verified rate_of sd rs (r, current_kv d) = Some (n r) \<and> n r \<le> ?m \<and> n r \<le> remaining_decode d
      \<and> (closes rate_of sd rs (r, current_kv d) \<longleftrightarrow> n r = remaining_decode d)
      \<and> (\<exists>a. get_record rs r = Some a \<and> emitted a < target a)" if h: "(r, d) \<in> set ds" for r d
  proof -
    obtain a rate where "get_record rs r = Some a" "rate_of (td_decoding (definition_of a)) = Some rate"
      "\<forall>pos < sd_draft_tokens sd. rate pos (sd_draft_tokens sd) \<noteq> None" using bspec [OF assms(7) h] by (simp only: fst_conv) blast
    note v = this
    have "decode_tracks rs (r, d)" using assms(5) h by blast
    from verified_bounds [where rate = rate and sd = sd and rate_of = rate_of, OF this v] obtain k where k: "verified rate_of sd rs (r, current_kv d) = Some k" "k \<le> ?m"
      "k \<le> remaining_decode d" "closes rate_of sd rs (r, current_kv d) \<longleftrightarrow> k = remaining_decode d" "emitted a < target a" by blast
    moreover have "n r = k" using k(1) h dist by (simp add: n_def)
    ultimately show ?thesis using v(1) by simp
  qed
  have run: "iter_decoding ?st = ds"
    using assms(5) by (auto simp: iter_decoding_def ds_def decode_tracks_def filter_id_conv)
  have members: "store_decode_members ks p = Some ?members"
    by (simp add: store_decode_members_def partition_at_ok [OF assms(3)] decode_members_def run)
  define b0 :: "nat list list" where "b0 = replicate (sd_draft_tokens sd + 2) []"
  have b0: "length b0 = ?m + 1" "\<And>j. j < ?m + 1 \<Longrightarrow> b0 ! j = []" by (simp_all only: b0_def length_replicate nth_replicate)
  have "distinct (map fst ?members)" using dist by (simp add: comp_def case_prod_unfold)
  moreover have "\<forall>x \<in> set ?members. \<exists>a n. get_record rs (fst x) = Some a \<and> emitted a < target a
      \<and> verified rate_of sd rs x = Some n \<and> n < length b0"
    using bounds by (auto simp: b0(1) le_imp_less_Suc)
  ultimately obtain rs' bs where
    recs: "fold_opt (speculative_member rate_of sd w now) ?members (rs, b0, acc)
      = Some (rs', bs, acc @ map fst (filter (closes rate_of sd rs) ?members))" "length bs = ?m + 1"
    "\<forall>j < ?m + 1. bs ! j = b0 ! j @ map fst (filter (\<lambda>x. verified rate_of sd rs x = Some j) ?members)"
    "\<forall>x \<in> set ?members. \<forall>n. verified rate_of sd rs x = Some n \<longrightarrow> gained rs rs' (fst x) n"
    using speculative_members_ok [of ?members rs rate_of sd b0 w now acc] unfolding b0(1) by blast
  have bucket: "bs ! j = map fst (filter (\<lambda>x. n (fst x) = j) ds)" if "j \<le> ?m" for j
  proof -
    have "filter (\<lambda>(r, d). verified rate_of sd rs (r, current_kv d) = Some j) ds = filter (\<lambda>x. n (fst x) = j) ds"
      using bounds by (intro filter_cong) auto
    moreover have "bs ! j = map fst (filter (\<lambda>x. verified rate_of sd rs x = Some j) ?members)"
      using recs(3) b0(2) that by simp
    ultimately show ?thesis by (simp add: filter_map comp_def case_prod_unfold)
  qed
  have "distinct (bs ! j) \<and> all_placed_on (ks_ledger ks) p (bs ! j)" if "j \<le> ?m" for j
    using that assms(4) dist by (auto simp: bucket distinct_map_filter all_placed_on_def list_all_iff)
  moreover have "q \<in> set (bs ! j) \<longleftrightarrow> q \<in> fst ` set ds \<and> n q = j" if "j \<le> ?m" for j q
    using that by (auto simp: bucket)
  ultimately obtain ks' where ks': "fold_opt (\<lambda>j ks. do {
        b \<leftarrow> nth_opt bs j;
        if b \<noteq> [] then advance ks (RequestSubset p b) j else Some ks
      }) [1..<?m + 1] ks = Some ks'" "shifts p (\<lambda>q. if q \<in> fst ` set ds \<and> n q < ?m + 1 then n q else 0) ks ks'"
    using buckets_advance [OF assms(2,3,6), of "?m + 1" bs "fst ` set ds" n] recs(2) by auto
  have moved: "decodes (ks_partitions ks' ! p) = stepped ?a n ds"
  proof -
    have "stepped ?a (\<lambda>q. if q \<in> fst ` set ds \<and> n q < ?m + 1 then n q else 0) ds = stepped ?a n ds"
      using bounds by (intro stepped_cong) (force simp: le_imp_less_Suc)
    then show ?thesis using ks'(2) by (simp add: shifts_def ds_def)
  qed
  have fin: "map fst (filter (closes rate_of sd rs) ?members) = map fst (filter (\<lambda>x. n (fst x) = remaining_decode (snd x)) ds)"
    using bounds by (auto simp: filter_map comp_def case_prod_unfold intro!: arg_cong [where f = "map fst"] filter_cong)
  have "speculative_complete_decodes rate_of sd w now p (ks, rs, acc)
      = Some (ks', rs', acc @ map fst (filter (\<lambda>x. n (fst x) = remaining_decode (snd x)) ds))"
    using members recs(1) [unfolded b0_def] ks'(1) fin by (simp add: speculative_complete_decodes_def)
  moreover have "gained rs rs' r (n r)" if "(r, d) \<in> set ds" for r d
    using recs(4) bounds [OF that] that by force
  moreover have "\<exists>d'. map_of (decodes (ks_partitions ks' ! p)) r = Some d' \<and> current_kv d' = current_kv d + n r
      \<and> remaining_decode d' = remaining_decode d - n r" if "(r, d) \<in> set ds" for r d
    using bounds [OF that] that dist by (simp add: moved map_of_stepped steps_context)
  moreover have "map fst (decodes (ks_partitions ks' ! p)) = map fst ds"
    by (simp add: moved stepped_def comp_def case_prod_unfold)
  ultimately show ?thesis using bounds ks'(2) by (intro exI [of _ ks'] exI [of _ rs'] exI [of _ n]) (auto simp: shifts_def)
qed

subsection \<open>A concrete round\<close>

text \<open>The request of \<open>sample_serving\<close> decodes with eight resident tokens and one token left.\<close>

lemma sample_placed:
  "\<exists>ks. store_ok ks \<and> num_partitions ks = 1 \<and> all_placed_on (ks_ledger ks) 0 [0] \<and> ks_accounting ks = token_accounting 100
     \<and> decodes (ks_partitions ks ! 0) = [(0, fresh_decode (token_accounting 100) 8 1 8)]"
proof -
  let ?a = "token_accounting 100" and ?l = "(ks_ledger sample_store)\<lparr>placements := [(0, 0)]\<rparr>"
  have ledger: "ledger_ok 1 (ks_ledger sample_store)" using sample_store(1,2) by (simp add: store_ok_def num_partitions_def)
  then have "ledger_ok 1 ?l"
    by (simp add: ledger_ok_def reserved_pair_def held_total_def cong: conj_cong)
  then have ok: "store_ok (sample_store\<lparr>ks_ledger := ?l\<rparr>)" using store_ok_ledger [OF sample_store(1)] sample_store(2) by simp
  have fresh: "0 \<notin> fst ` set (decodes (ks_partitions (sample_store\<lparr>ks_ledger := ?l\<rparr>) ! 0))"
    by (simp add: sample_store(4) new_partition_def)
  from commit_resident_ok [OF ok _ fresh, of 8 1] sample_store(2,4) obtain l st' where
    c: "store_ok (set_partition (sample_store\<lparr>ks_ledger := l\<rparr>) 0 st')" "forget_promise ?l 0 = Some l"
    "begin_decode (new_partition ?a) 0 8 1 8 = Some st'"
    by (auto simp: sample_store_def new_store_def new_ledger_def prefill_context_def num_partitions_def)
  have "decodes st' = [(0, fresh_decode ?a 8 1 8)]"
    using begin_decode_ok [OF new_partition_ok [OF token_accounting_ok], of 0 100 8 1 8] c(3)
    by (auto simp: new_partition_def)
  moreover have "l = ?l" using c(2) sample_empty(3) by (simp add: forget_promise_def)
  moreover obtain x where "ks_partitions sample_store = [x]"
    using sample_store(2) by (auto simp: num_partitions_def length_Suc_conv)
  ultimately show ?thesis using c(1) sample_store(3)
    by (intro exI [of _ "set_partition (sample_store\<lparr>ks_ledger := l\<rparr>) 0 st'"])
      (simp add: num_partitions_def all_placed_on_def)
qed

theorem speculative_round_exact_witness:
  "\<exists>ks ks' rs' sd. sd_draft_tokens sd = 3
     \<and> speculative_complete_decodes (\<lambda>_. Some (\<lambda>_ _. Some (1 / 2))) sd sample_context 9 0 (ks, sample_serving, []) = Some (ks', rs', [0])"
proof -
  obtain ks where ks: "store_ok ks" "num_partitions ks = 1" "all_placed_on (ks_ledger ks) 0 [0]"
    "ks_accounting ks = token_accounting 100"
    "decodes (ks_partitions ks ! 0) = [(0, fresh_decode (token_accounting 100) 8 1 8)]" using sample_placed by blast
  let ?sd = "\<lparr>sd_draft_tokens = 3, sd_max_model_len = 4096, sd_seed = 7\<rparr>" and ?rate = "\<lambda>_ :: unit. Some (\<lambda>_ _. Some (1 / 2 :: real))"
  have tracks: "decode_tracks sample_serving (0, fresh_decode (token_accounting 100) 8 1 8)"
    using sample_serving_record by (simp add: decode_tracks_def fresh_decode_def)
  have room: "room_for (sd_draft_tokens ?sd + 1) ks 0"
    by (simp add: room_for_def ks token_accounting_held fresh_decode_def sample_store(7))
  have h: "0 < num_partitions ks" "all_placed_on (ks_ledger ks) 0 (map fst (decodes (ks_partitions ks ! 0)))"
    "\<forall>x \<in> set (decodes (ks_partitions ks ! 0)). decode_tracks sample_serving x"
    using ks tracks by simp_all
  have rates: "\<forall>x \<in> set (decodes (ks_partitions ks ! 0)). \<exists>a rate. get_record sample_serving (fst x) = Some a
      \<and> ?rate (td_decoding (definition_of a)) = Some rate \<and> (\<forall>pos < sd_draft_tokens ?sd. rate pos (sd_draft_tokens ?sd) \<noteq> None)"
    unfolding ks(5) using sample_serving_record(1) by (auto intro: exI [of _ "1 / 2"])
  obtain ks' rs' n where
    run: "speculative_complete_decodes ?rate ?sd sample_context 9 0 (ks, sample_serving, []) = Some (ks', rs',
      [] @ map fst (filter (\<lambda>x. n (fst x) = remaining_decode (snd x)) (decodes (ks_partitions ks ! 0))))"
    and all: "\<forall>(r, d) \<in> set (decodes (ks_partitions ks ! 0)). verified ?rate ?sd sample_serving (r, current_kv d) = Some (n r)
      \<and> n r \<le> sd_draft_tokens ?sd + 1 \<and> n r \<le> remaining_decode d \<and> gained sample_serving rs' r (n r)
      \<and> (\<exists>d'. map_of (decodes (ks_partitions ks' ! 0)) r = Some d' \<and> current_kv d' = current_kv d + n r
           \<and> remaining_decode d' = remaining_decode d - n r)"
    using speculative_round_exact [where w = sample_context and now = 9 and acc = "[]", OF ks(1) h room rates] by blast
  have n: "verified ?rate ?sd sample_serving (0, 8) = Some (n 0)"
    using all unfolding ks(5) by (simp add: fresh_decode_def)
  have "accepted_length ?sd 0 1 (\<lambda>_ _. Some (1 / 2)) 1 4 = Some (min (min (1 + length (takeWhile
      (\<lambda>pos. bernoulli 7 0 1 pos (1 / 2)) [0..<3])) 1) 4)"
    using accepted_length_eq [of ?sd "\<lambda>_ _. Some (1 / 2)" "\<lambda>_. 1 / 2" 0 1 1 4] by simp
  then have "n 0 = 1"
    using n sample_serving_record
    by (simp add: verified_def verify_query_len_def saturating_add_u64_def u64_max_def as_u32_def)
  then show ?thesis using run by (intro exI [of _ ks] exI [of _ ks'] exI [of _ rs'] exI [of _ ?sd]) (simp add: fresh_decode_def ks(5))
qed

end
