(* ===== verification/Iter_Worker.thy ===== *)
theory Iter_Worker
  imports Local_Completion
begin

section \<open>The whole-iteration worker (\<open>worker/workers/iter/iter_batch_worker.rs\<close>)\<close>

text \<open>
  The shell that drives a lifecycle over the KV store: it forms a batch when idle, submits the batch's
  input to the model, waits until its compute time is over and then completes the iteration. This is its
  composition with \<open>KvCacheStore\<close>, \<open>LocalPrefillDecodeAdmission\<close> and \<open>UnifiedIterExecution\<close>, the
  barebone and the HP worker. The time an iteration takes is the model's cost evaluation (kernel timing in
  floating point): the argument \<open>cost\<close> of the definitions, a function of the batch's input, the iteration
  number and the time. The \<open>u32\<close> token counters of the input and of the iterations and the \<open>u64\<close> end of the
  compute time are checked sums: an overflow is the panic \<open>None\<close>. The reused buffers \<open>input\<close> and \<open>batch_plan\<close> are overwritten before every use.
\<close>

subsection \<open>The batch plan (\<open>worker/types.rs\<close>)\<close>

record IterBatchPlan =
  decode_participation :: "bool list"
  selected_decodes :: "nat list option list"

definition default_plan :: IterBatchPlan where
  "default_plan = \<lparr>decode_participation = [], selected_decodes = []\<rparr>"

definition reset_decode_participation :: "nat \<Rightarrow> bool \<Rightarrow> IterBatchPlan" where
  "reset_decode_participation n participates =
     \<lparr>decode_participation = replicate n participates, selected_decodes = replicate n None\<rparr>"

definition set_partition_runs_decode :: "IterBatchPlan \<Rightarrow> partition_id \<Rightarrow> bool \<Rightarrow> IterBatchPlan option" where
  "set_partition_runs_decode pl p runs = (if p < length (decode_participation pl)
     then Some (pl\<lparr>decode_participation := (decode_participation pl)[p := runs]\<rparr>) else None)"

definition select_partition_decodes :: "IterBatchPlan \<Rightarrow> partition_id \<Rightarrow> nat list \<Rightarrow> IterBatchPlan option" where
  "select_partition_decodes pl p requests = do {
     pl' \<leftarrow> set_partition_runs_decode pl p (requests \<noteq> []);
     assert_that (p < length (selected_decodes pl'));
     Some (pl'\<lparr>selected_decodes := (selected_decodes pl')[p := Some (sort requests)]\<rparr>)
   }"

definition partition_runs_decode :: "IterBatchPlan \<Rightarrow> partition_id \<Rightarrow> bool option" where
  "partition_runs_decode pl p = nth_opt (decode_participation pl) p"

text \<open>The selection is sorted, so the binary search finds exactly its members.\<close>

definition decode_member_runs :: "IterBatchPlan \<Rightarrow> partition_id \<Rightarrow> nat \<Rightarrow> bool option" where
  "decode_member_runs pl p r = map_option (\<lambda>sel. case sel of None \<Rightarrow> True
     | Some selected \<Rightarrow> r \<in> set selected) (nth_opt (selected_decodes pl) p)"

subsection \<open>The model's input (\<open>execution/unified_iter_execution.rs\<close>)\<close>

record ArchGroupInput =
  batch_tokens :: nat
  prefill_tokens :: nat
  decode_tokens :: nat
  prefill_chunk_pairs :: "(nat \<times> nat) list"
  decode_kv_lens :: "nat list"
  total_kv_len :: nat

record UnifiedArchInput =
  groups :: "ArchGroupInput list"
  tokens_per_source_rank :: "nat list"

definition empty_group :: ArchGroupInput where
  "empty_group = \<lparr>batch_tokens = 0, prefill_tokens = 0, decode_tokens = 0, prefill_chunk_pairs = [],
     decode_kv_lens = [], total_kv_len = 0\<rparr>"

definition request_count :: "ArchGroupInput \<Rightarrow> nat option" where
  "request_count g = try_u32 (length (prefill_chunk_pairs g) + length (decode_kv_lens g))"

definition add_prefill_chunk :: "KvStore \<Rightarrow> nat \<Rightarrow> ArchGroupInput \<Rightarrow> ArchGroupInput option" where
  "add_prefill_chunk ks r g = do {
     ctx \<leftarrow> resolved_prefill_context ks r;
     let (prefix, chunk) = active_chunk ctx;
     sum \<leftarrow> checked_add_u32 (prefill_tokens g) chunk;
     Some (g\<lparr>prefill_chunk_pairs := prefill_chunk_pairs g @ [(prefix, chunk)], prefill_tokens := sum\<rparr>)
   }"

definition add_decode_member :: "IterBatchPlan \<Rightarrow> partition_id \<Rightarrow> nat \<times> nat \<Rightarrow> ArchGroupInput \<Rightarrow>
     ArchGroupInput option" where
  "add_decode_member pl p = (\<lambda>(r, kv) g. do {
     runs \<leftarrow> decode_member_runs pl p r;
     if runs then do {
       sum \<leftarrow> checked_add_u32 (total_kv_len g) (as_u32 kv);
       Some (g\<lparr>decode_kv_lens := decode_kv_lens g @ [as_u32 kv], total_kv_len := sum\<rparr>)
     } else Some g
   })"

definition build_group :: "KvStore \<Rightarrow> IterBatchPlan \<Rightarrow> partition_id \<Rightarrow> ArchGroupInput option" where
  "build_group ks pl p = do {
     admits \<leftarrow> store_prefill_admits ks p;
     g1 \<leftarrow> fold_opt (add_prefill_chunk ks) admits empty_group;
     runs \<leftarrow> partition_runs_decode pl p;
     g2 \<leftarrow> (if runs then do {
         members \<leftarrow> store_decode_members ks p;
         fold_opt (add_decode_member pl p) members g1
       } else Some g1);
     let decodes = as_u32 (length (decode_kv_lens g2));
     batch \<leftarrow> checked_add_u32 (prefill_tokens g2) decodes;
     Some (g2\<lparr>decode_tokens := decodes, batch_tokens := batch\<rparr>)
   }"

definition build_input :: "KvStore \<Rightarrow> IterBatchPlan \<Rightarrow> UnifiedArchInput option" where
  "build_input ks pl = do {
     let n = num_partitions ks;
     built \<leftarrow> those (map (build_group ks pl) [0..<as_u16 n]);
     let gs = built @ replicate (n - as_u16 n) empty_group;
     Some \<lparr>groups = gs, tokens_per_source_rank = (if 1 < n then map batch_tokens gs else [])\<rparr>
   }"

subsection \<open>The shell\<close>

datatype WorkerFsmState = WIdle | WActive

datatype IterCursor = NotStarted | Computing | CursorDone

record IterationFsm =
  worker_state :: WorkerFsmState
  cursor :: IterCursor
  compute_end :: nat
  iteration :: nat

definition new_fsm :: IterationFsm where
  "new_fsm = \<lparr>worker_state = WIdle, cursor = CursorDone, compute_end = 0, iteration = 0\<rparr>"

record IterWorker =
  iw_context :: WorkerContext
  iw_kv :: KvStore
  iw_admission :: LocalAdmission
  iw_input :: UnifiedArchInput
  iw_plan :: IterBatchPlan
  iw_fsm :: IterationFsm

definition from_components :: "WorkerContext \<Rightarrow> KvStore \<Rightarrow> LocalAdmission \<Rightarrow> IterWorker" where
  "from_components w ks la = \<lparr>iw_context = w, iw_kv = ks, iw_admission = la,
     iw_input = \<lparr>groups = [], tokens_per_source_rank = []\<rparr>, iw_plan = default_plan, iw_fsm = new_fsm\<rparr>"

definition worker_enqueue :: "IterWorker \<Rightarrow> 'd RequestStore \<Rightarrow> nat \<Rightarrow> (IterWorker \<times> 'd RequestStore) option" where
  "worker_enqueue iw rs r = do {
     (la, rs') \<leftarrow> local_accept_message (iw_context iw) (iw_admission iw) (iw_kv iw) rs r;
     Some (iw\<lparr>iw_admission := la\<rparr>, rs')
   }"

definition worker_form_batch :: "nat \<Rightarrow> IterWorker \<Rightarrow> 'd RequestStore \<Rightarrow> (IterWorker \<times> 'd RequestStore \<times> bool) option" where
  "worker_form_batch now iw rs = do {
     let pl = reset_decode_participation (num_partitions (iw_kv iw)) True;
     (la, ks, rs', formed) \<leftarrow> local_form_batch (iw_context iw) (iw_admission iw) (iw_kv iw) rs now;
     let iw' = iw\<lparr>iw_plan := pl, iw_admission := la, iw_kv := ks\<rparr>;
     if \<not> formed then Some (iw', rs', False)
     else do {
       next' \<leftarrow> checked_add_u32 (iteration (iw_fsm iw')) 1;
       Some (iw'\<lparr>iw_fsm := (iw_fsm iw')\<lparr>iteration := next'\<rparr>\<rparr>, rs', True)
     }
   }"

type_synonym cost_model = "UnifiedArchInput \<Rightarrow> nat \<Rightarrow> nat \<Rightarrow> nat"

definition start_iteration :: "cost_model \<Rightarrow> nat \<Rightarrow> IterWorker \<Rightarrow> (IterWorker \<times> nat) option" where
  "start_iteration cost now iw = do {
     inp \<leftarrow> build_input (iw_kv iw) (iw_plan iw);
     until \<leftarrow> checked_add_u64 now (cost inp (iteration (iw_fsm iw)) now);
     Some (iw\<lparr>iw_input := inp\<rparr>, until)
   }"

text \<open>One round of the loop in \<open>tick\<close>: \<open>Inl\<close> leaves the loop, \<open>Inr\<close> goes round again.\<close>

type_synonym 'd tick_state = "IterWorker \<times> 'd RequestStore \<times> (nat \<times> nat) list"

definition tick_round :: "cost_model \<Rightarrow> nat \<Rightarrow> 'd tick_state \<Rightarrow> ('d tick_state + 'd tick_state) option" where
  "tick_round cost now x = (case x of (iw, rs, events) \<Rightarrow>
     let fsm = iw_fsm iw in
     case worker_state fsm of
       WIdle \<Rightarrow> do {
         (iw', rs', formed) \<leftarrow> worker_form_batch now iw rs;
         Some (if formed
           then Inr (iw'\<lparr>iw_fsm := (iw_fsm iw')\<lparr>worker_state := WActive, cursor := NotStarted, compute_end := 0\<rparr>\<rparr>, rs', events)
           else Inl (iw', rs', events))
       }
     | WActive \<Rightarrow> (case cursor fsm of
         NotStarted \<Rightarrow> do {
           (iw', until) \<leftarrow> start_iteration cost now iw;
           Some (Inl (iw'\<lparr>iw_fsm := (iw_fsm iw')\<lparr>cursor := Computing, compute_end := until\<rparr>\<rparr>, rs, events))
         }
       | Computing \<Rightarrow> if now < compute_end fsm then Some (Inl x)
           else Some (Inr (iw\<lparr>iw_fsm := fsm\<lparr>cursor := CursorDone\<rparr>\<rparr>, rs, events))
       | CursorDone \<Rightarrow> do {
           (ks, rs', done') \<leftarrow> local_complete_iteration (iw_context iw) (iw_kv iw) rs now;
           Some (Inr (iw\<lparr>iw_kv := ks, iw_fsm := fsm\<lparr>worker_state := WIdle\<rparr>\<rparr>, rs', events @ done'))
         }))"

partial_function (option) tick_loop :: "cost_model \<Rightarrow> nat \<Rightarrow> 'd tick_state \<Rightarrow> 'd tick_state option" where
  "tick_loop cost now x = Option.bind (tick_round cost now x)
     (\<lambda>y. case y of Inl z \<Rightarrow> Some z | Inr z \<Rightarrow> tick_loop cost now z)"

record WorkerStatus =
  status_queued :: nat
  status_active_requests :: nat

definition worker_status :: "IterWorker \<Rightarrow> WorkerStatus option" where
  "worker_status iw = do {
     active \<leftarrow> those (map (status_active (iw_kv iw)) [0..<as_u16 (num_partitions (iw_kv iw))]);
     Some \<lparr>status_queued = local_queued_requests (iw_admission iw), status_active_requests = sum_list active\<rparr>
   }"

definition next_wakeup :: "nat \<Rightarrow> IterWorker \<Rightarrow> nat option option" where
  "next_wakeup now iw = (case worker_state (iw_fsm iw) of
     WIdle \<Rightarrow> do {
       st \<leftarrow> worker_status iw;
       Some (if 0 < status_queued st \<or> 0 < status_active_requests st then Some now else None)
     }
   | WActive \<Rightarrow> Some (case cursor (iw_fsm iw) of
       NotStarted \<Rightarrow> Some now | CursorDone \<Rightarrow> Some now | Computing \<Rightarrow> Some (compute_end (iw_fsm iw))))"

definition worker_tick :: "cost_model \<Rightarrow> nat \<Rightarrow> IterWorker \<Rightarrow> 'd RequestStore \<Rightarrow>
     (IterWorker \<times> 'd RequestStore \<times> (nat \<times> nat) list \<times> nat option) option" where
  "worker_tick cost now iw rs = do {
     (iw', rs', events) \<leftarrow> tick_loop cost now (iw, rs, []);
     wake \<leftarrow> next_wakeup now iw';
     Some (iw', rs', events, wake)
   }"

definition release_request :: "IterWorker \<Rightarrow> nat \<Rightarrow> (IterWorker \<times> partition_id option) option" where
  "release_request iw r = do {
     (la, cancelled) \<leftarrow> local_cancel_pending (iw_admission iw) r;
     let iw' = iw\<lparr>iw_admission := la\<rparr>;
     if cancelled then Some (iw', None)
     else do {
       (ks, p) \<leftarrow> release_external (iw_kv iw) r;
       Some (iw'\<lparr>iw_kv := ks\<rparr>, p)
     }
   }"

end
