(* ===== verification/Worker_Run.thy ===== *)
theory Worker_Run
  imports Iter_Worker
begin

section \<open>What the whole-iteration worker guarantees\<close>

text \<open>
  \<open>Iter_Worker\<close> as a state machine: every tick of a consistent worker returns and leaves it consistent, the
  input it submits is exactly what is resident, it asks to be woken as long as it holds a request, and over
  any run every accepted request is waiting, resident or completed, exactly once, completed with exactly its
  output.
\<close>

subsection \<open>The worker's state\<close>

definition worker_ok :: "nat \<Rightarrow> IterWorker \<Rightarrow> 'd RequestStore \<Rightarrow> bool" where
  "worker_ok n iw rs \<longleftrightarrow> local_ok n (iw_admission iw) (iw_kv iw) rs \<and> (case worker_state (iw_fsm iw) of
       WIdle \<Rightarrow> prefilling (iw_kv iw) = []
     | WActive \<Rightarrow> cursor (iw_fsm iw) = Computing \<and> residents (iw_kv iw) \<noteq> [])"

text \<open>The requests a worker holds: those that wait and those that are resident.\<close>

definition holds :: "IterWorker \<Rightarrow> nat list" where
  "holds iw = map ac_request (waiting (iw_admission iw)) @ residents (iw_kv iw)"

definition steps_fit :: "nat \<Rightarrow> IterWorker \<Rightarrow> bool" where
  "steps_fit n iw \<longleftrightarrow> (\<forall>p < n. next_step_fits (ks_partitions (iw_kv iw) ! p))"

lemma worker_okD: "worker_ok n iw rs \<Longrightarrow> local_ok n (iw_admission iw) (iw_kv iw) rs"
  by (simp add: worker_ok_def)

lemma holds_distinct: "worker_ok n iw rs \<Longrightarrow> distinct (holds iw)"
  using local_ok_residents [OF worker_okD] by (simp add: holds_def)

subsection \<open>The submitted input\<close>

lemma fold_chunks:
  assumes "\<And>r. r \<in> set rs \<Longrightarrow> resolved_prefill_context ks r = Some (ctx r)" and "prefill_tokens g \<le> u32_max"
  shows "fold_opt (add_prefill_chunk ks) rs g = (if prefill_tokens g + sum_list (map (\<lambda>r. active_chunk_tokens (ctx r)) rs) \<le> u32_max
    then Some (g\<lparr>prefill_chunk_pairs := prefill_chunk_pairs g @ map (\<lambda>r. active_chunk (ctx r)) rs,
      prefill_tokens := prefill_tokens g + sum_list (map (\<lambda>r. active_chunk_tokens (ctx r)) rs)\<rparr>) else None)"
  using assms
proof (induction rs arbitrary: g)
  case (Cons r rs)
  have "add_prefill_chunk ks r g = (if prefill_tokens g + active_chunk_tokens (ctx r) \<le> u32_max
      then Some (g\<lparr>prefill_chunk_pairs := prefill_chunk_pairs g @ [active_chunk (ctx r)],
        prefill_tokens := prefill_tokens g + active_chunk_tokens (ctx r)\<rparr>) else None)"
    using Cons.prems(1) by (simp add: add_prefill_chunk_def active_chunk_def checked_add_u32_def)
  then show ?case using Cons by (simp add: add.assoc)
qed simp

lemma fold_members:
  assumes "p < n" and "total_kv_len g \<le> u32_max"
  shows "fold_opt (add_decode_member (reset_decode_participation n True) p) xs g =
    (if total_kv_len g + sum_list (map (\<lambda>x. as_u32 (snd x)) xs) \<le> u32_max
     then Some (g\<lparr>decode_kv_lens := decode_kv_lens g @ map (\<lambda>x. as_u32 (snd x)) xs,
       total_kv_len := total_kv_len g + sum_list (map (\<lambda>x. as_u32 (snd x)) xs)\<rparr>) else None)"
  using assms(2)
proof (induction xs arbitrary: g)
  case (Cons x xs)
  have "decode_member_runs (reset_decode_participation n True) p (fst x) = Some True"
    using assms(1) by (simp add: decode_member_runs_def reset_decode_participation_def nth_opt_def)
  then have "add_decode_member (reset_decode_participation n True) p x g = (if total_kv_len g + as_u32 (snd x) \<le> u32_max
      then Some (g\<lparr>decode_kv_lens := decode_kv_lens g @ [as_u32 (snd x)], total_kv_len := total_kv_len g + as_u32 (snd x)\<rparr>) else None)"
    by (simp add: add_decode_member_def case_prod_unfold checked_add_u32_def)
  then show ?case using Cons by (simp add: add.assoc)
qed simp

text \<open>The input that describes partition \<open>p\<close>: one chunk per prefill, one KV length per running decode.\<close>

definition group_at :: "KvStore \<Rightarrow> partition_id \<Rightarrow> ArchGroupInput" where
  "group_at ks p = (
     let ctxs = map (\<lambda>r. the (resolved_prefill_context ks r)) (prefill_admits (ks_partitions ks ! p));
         lens = map (\<lambda>x. as_u32 (current_kv (snd x))) (decodes (ks_partitions ks ! p));
         chunks = sum_list (map active_chunk_tokens ctxs)
     in \<lparr>batch_tokens = chunks + as_u32 (length lens), prefill_tokens = chunks, decode_tokens = as_u32 (length lens),
         prefill_chunk_pairs = map active_chunk ctxs, decode_kv_lens = lens, total_kv_len = sum_list lens\<rparr>)"

lemma members_all:
  assumes "local_ok n la ks rs" and "p < n"
  shows "iter_decoding (ks_partitions ks ! p) = decodes (ks_partitions ks ! p)"
proof -
  have "ks_partitions ks ! p \<in> set (ks_partitions ks)"
    using assms(2) local_okD(2) [OF assms(1)] by (simp add: num_partitions_def)
  then have "0 < remaining_decode (snd x)" if "x \<in> set (decodes (ks_partitions ks ! p))" for x
    using local_okD(14) [OF assms(1) _ that] by (auto simp: decode_tracks_def)
  then show ?thesis by (auto simp: iter_decoding_def filter_id_conv)
qed

text \<open>The two totals of a partition's input that can overflow; its prefill tokens are part of the first.\<close>

definition group_fits :: "KvStore \<Rightarrow> partition_id \<Rightarrow> bool" where
  "group_fits ks p \<longleftrightarrow> batch_tokens (group_at ks p) \<le> u32_max \<and> total_kv_len (group_at ks p) \<le> u32_max"

lemma build_group_eq:
  assumes "local_ok n la ks rs" and "p < n"
  shows "build_group ks (reset_decode_participation n True) p = (if group_fits ks p then Some (group_at ks p) else None)"
proof -
  note l = local_okD [OF assms(1)]
  have p: "p < num_partitions ks" using assms(2) l(2) by simp
  have st: "ks_partitions ks ! p \<in> set (ks_partitions ks)" using p by (simp add: num_partitions_def)
  have "resolved_prefill_context ks r \<noteq> None" if "r \<in> set (prefill_admits (ks_partitions ks ! p))" for r
    using l(13) [of r] that st by (auto simp: prefilling_def resolved_prefill_context_def)
  then have ctx: "\<And>r. r \<in> set (prefill_admits (ks_partitions ks ! p)) \<Longrightarrow>
      resolved_prefill_context ks r = Some (the (resolved_prefill_context ks r))" by auto
  have zero: "prefill_tokens empty_group \<le> u32_max" by (simp add: empty_group_def)
  note chunks = fold_chunks [where ctx = "\<lambda>r. the (resolved_prefill_context ks r)", OF ctx zero]
  have chunks0: "fold_opt (add_prefill_chunk ks) (prefill_admits (ks_partitions ks ! p)) empty_group = (let
      ctxs = map (\<lambda>r. the (resolved_prefill_context ks r)) (prefill_admits (ks_partitions ks ! p)); c = sum_list (map active_chunk_tokens ctxs)
      in if c \<le> u32_max then Some (empty_group\<lparr>prefill_chunk_pairs := map active_chunk ctxs, prefill_tokens := c\<rparr>) else None)"
    using chunks by (simp add: empty_group_def Let_def comp_def)
  have runs: "partition_runs_decode (reset_decode_participation n True) p = Some True"
    using assms(2) by (simp add: partition_runs_decode_def reset_decode_participation_def nth_opt_def)
  show ?thesis
    by (simp add: build_group_def store_prefill_admits_def store_decode_members_def partition_at_ok [OF p]
        chunks0 [unfolded empty_group_def] runs fold_members [OF assms(2)] decode_members_def members_all [OF assms] empty_group_def group_at_def group_fits_def Let_def
        comp_def case_prod_unfold checked_add_u32_def)
qed

text \<open>The input of the iteration that runs everything resident.\<close>

definition input_at :: "nat \<Rightarrow> KvStore \<Rightarrow> UnifiedArchInput" where
  "input_at n ks = \<lparr>groups = map (group_at ks) [0..<n],
     tokens_per_source_rank = (if 1 < n then map (\<lambda>p. batch_tokens (group_at ks p)) [0..<n] else [])\<rparr>"

lemma those_map_if: "those (map (\<lambda>x. if P x then Some (f x) else None) xs) = (if \<forall>x \<in> set xs. P x then Some (map f xs) else None)"
  by (induction xs) auto

lemma build_input_eq:
  assumes "local_ok n la ks rs"
  shows "build_input ks (reset_decode_participation n True) = (if \<forall>p < n. group_fits ks p then Some (input_at n ks) else None)"
proof -
  have same: "map (build_group ks (reset_decode_participation n True)) [0..<n]
      = map (\<lambda>p. if group_fits ks p then Some (group_at ks p) else None) [0..<n]"
    by (auto simp: build_group_eq [OF assms])
  have "those (map (build_group ks (reset_decode_participation n True)) [0..<n])
      = (if \<forall>p < n. group_fits ks p then Some (map (group_at ks) [0..<n]) else None)"
    unfolding same those_map_if by auto
  then show ?thesis using local_okD(2,4) [OF assms] by (simp add: build_input_def as_u16_def input_at_def Let_def comp_def)
qed

text \<open>Room for the counters: for each waiting request beside everything resident, and for the KV lengths after the next step.\<close>

definition queue_fits :: "IterWorker \<Rightarrow> bool" where
  "queue_fits iw \<longleftrightarrow> (\<forall>c \<in> set (waiting (iw_admission iw)). ac_fresh_prompt c + declared_prefix_tokens (ac_session c)
     + length (residents (iw_kv iw)) \<le> u32_max)"

definition counts_fit :: "nat \<Rightarrow> IterWorker \<Rightarrow> bool" where
  "counts_fit n iw \<longleftrightarrow> iteration (iw_fsm iw) < u32_max \<and> queue_fits iw \<and> (\<forall>p < n. kv_next (iw_kv iw) p \<le> u32_max)"

definition cost_fits :: "cost_model \<Rightarrow> nat \<Rightarrow> bool" where
  "cost_fits cost now \<longleftrightarrow> (\<forall>inp i. now + cost inp i now \<le> u64_max)"

text \<open>A formed batch fits: the token gate bounds the prefills it admitted.\<close>

lemma as_u32_le: "as_u32 x \<le> x" "as_u32 x \<le> u32_max"
  by (simp_all add: as_u32_def u32_max_def)

lemma formed_fits:
  assumes ok: "local_ok n la ks rs" and p: "p < n"
    and acc: "accepted_prefills (per_partition_token_budget la) (live_at ks p) 0 (tokens_at p es)"
    and adm: "prefill_admits (ks_partitions ks' ! p) = requests_at p es"
    and dec: "decodes (ks_partitions ks' ! p) = decodes (ks_partitions ks ! p)"
    and es: "\<forall>e \<in> set es. (\<exists>d. resolved_prefill_context ks' (ac_request (fst e)) = Some d \<and> active_chunk_tokens d = snd (snd e))
      \<and> fst e \<in> set (waiting la) \<and> snd (snd e) \<le> ac_fresh_prompt (fst e) + declared_prefix_tokens (ac_session (fst e))"
    and queue: "\<forall>c \<in> set (waiting la). ac_fresh_prompt c + declared_prefix_tokens (ac_session c) + length (residents ks) \<le> u32_max"
    and kv: "kv_at ks p \<le> u32_max"
  shows "group_fits ks' p"
proof -
  note l = local_okD [OF ok]
  let ?ds = "decodes (ks_partitions ks ! p)" and ?b = "per_partition_token_budget la"
  have "map (\<lambda>r. active_chunk_tokens (the (resolved_prefill_context ks' r))) (requests_at p es) = tokens_at p es"
    using es by (auto simp: requests_at_def tokens_at_def)
  then have chunks: "sum_list (map active_chunk_tokens (map (\<lambda>r. the (resolved_prefill_context ks' r)) (prefill_admits (ks_partitions ks' ! p))))
      = sum_list (tokens_at p es)" by (simp add: adm comp_def)
  have live: "live_at ks p = as_u32 (length ?ds)"
    by (simp add: live_at_def live_decode_count_def members_all [OF ok p])
  have few: "length ?ds \<le> length (residents ks)"
  proof -
    have "length (ran_at ks p) \<le> length (residents ks)"
      unfolding residents_def using p l(2) by (simp add: length_concat comp_def member_le_sum_list)
    then show ?thesis by (simp add: ran_at_def)
  qed
  have "sum_list (tokens_at p es) + as_u32 (length ?ds) \<le> u32_max"
  proof -
    from accepted_prefills_within_budget [OF l(7)] acc have
      "sum_list (tokens_at p es) \<le> ?b - live_at ks p \<or> (\<exists>k m. tokens_at p es = replicate k 0 @ [m])" by blast
    then show ?thesis
    proof
      assume "sum_list (tokens_at p es) \<le> ?b - live_at ks p"
      then show ?thesis using l(7) as_u32_le(2) [of "length ?ds"] unfolding live by linarith
    next
      assume "\<exists>k m. tokens_at p es = replicate k 0 @ [m]"
      then obtain k m where m: "tokens_at p es = replicate k 0 @ [m]" by blast
      then have "m \<in> set (tokens_at p es)" by simp
      then obtain e where "e \<in> set es" "snd (snd e) = m" by (auto simp: tokens_at_def)
      then have "m + length (residents ks) \<le> u32_max" using es queue by fastforce
      moreover have "sum_list (tokens_at p es) = m" by (simp add: m sum_list_replicate)
      ultimately show ?thesis using few as_u32_le(1) [of "length ?ds"] by linarith
    qed
  qed
  moreover have "sum_list (map (\<lambda>x. as_u32 (current_kv (snd x))) ?ds) \<le> kv_at ks p"
    unfolding kv_at_def by (intro sum_list_mono as_u32_le)
  ultimately show ?thesis using kv by (simp add: group_fits_def group_at_def Let_def chunks dec flip: map_map)
qed

subsection \<open>One tick\<close>

text \<open>Forming, as the shell sees it: the requests stay held, only their stage and telemetry change.\<close>

lemma worker_form_ok:
  assumes "local_ok n (iw_admission iw) (iw_kv iw) rs" and "prefilling (iw_kv iw) = []"
  shows "\<exists>iw' rs' formed. worker_form_batch now iw rs
      = (if formed \<longrightarrow> iteration (iw_fsm iw) < u32_max then Some (iw', rs', formed) else None)
    \<and> local_ok n (iw_admission iw') (iw_kv iw') rs'
    \<and> mset (holds iw') = mset (holds iw) \<and> (\<forall>r. r \<notin> set (holds iw) \<longrightarrow> get_record rs' r = get_record rs r)
    \<and> iw_context iw' = iw_context iw \<and> worker_state (iw_fsm iw') = worker_state (iw_fsm iw)
    \<and> iw_plan iw' = reset_decode_participation n True
    \<and> (formed \<longleftrightarrow> residents (iw_kv iw') \<noteq> []) \<and> (\<not> formed \<longrightarrow> prefilling (iw_kv iw') = [])
    \<and> decoding (iw_kv iw') = decoding (iw_kv iw)
    \<and> (queue_fits iw \<longrightarrow> (\<forall>p < n. kv_at (iw_kv iw) p \<le> u32_max) \<longrightarrow> (\<forall>p < n. group_fits (iw_kv iw') p))"
proof -
  let ?la = "iw_admission iw" and ?ks = "iw_kv iw"
  note l = local_okD [OF assms(1)]
  from form_batch_ok [OF assms, of "iw_context iw" now] obtain es :: "(AdmissionCandidate \<times> partition_id \<times> nat) list"
      and la' ks' rs' run where
    f: "local_form_batch (iw_context iw) ?la ?ks rs now = Some (la', ks', rs', run)" "local_ok n la' ks' rs'"
    "mset (waiting ?la) = mset (map fst es) + mset (waiting la')"
    "run \<longleftrightarrow> (\<exists>p < n. has_live_decode (ks_partitions ?ks ! p)) \<or> es \<noteq> []"
    "\<forall>q. q \<notin> ac_request ` fst ` set es \<longrightarrow> get_record rs' q = get_record rs q"
    "mset (map ac_request (waiting ?la)) = mset (map ac_request (waiting la')) + mset (prefilling ks')"
    "decoding ks' = decoding ?ks"
    and gates: "\<forall>p < n. accepted_prefills (per_partition_token_budget ?la) (live_at ?ks p) 0 (tokens_at p es)
        \<and> prefill_admits (ks_partitions ks' ! p) = requests_at p es
        \<and> decodes (ks_partitions ks' ! p) = decodes (ks_partitions ?ks ! p)"
    and chunks: "\<forall>e \<in> set es. (\<exists>d. resolved_prefill_context ks' (ac_request (fst e)) = Some d \<and> active_chunk_tokens d = snd (snd e))
        \<and> fst e \<in> set (waiting ?la) \<and> snd (snd e) \<le> ac_fresh_prompt (fst e) + declared_prefix_tokens (ac_session (fst e))"
    by (elim exE conjE) blast
  let ?iw0 = "iw\<lparr>iw_plan := reset_decode_participation n True, iw_admission := la', iw_kv := ks'\<rparr>"
  define iw1 where "iw1 = (if run then ?iw0\<lparr>iw_fsm := (iw_fsm ?iw0)\<lparr>iteration := iteration (iw_fsm ?iw0) + 1\<rparr>\<rparr> else ?iw0)"
  have go: "worker_form_batch now iw rs = (if run \<longrightarrow> iteration (iw_fsm iw) < u32_max then Some (iw1, rs', run) else None)"
    using f(1) l(2) by (auto simp: worker_form_batch_def iw1_def Let_def checked_add_u32_def)
  have parts: "iw_admission iw1 = la'" "iw_kv iw1 = ks'" "iw_context iw1 = iw_context iw"
    "worker_state (iw_fsm iw1) = worker_state (iw_fsm iw)" "iw_plan iw1 = reset_decode_participation n True" by (simp_all add: iw1_def)
  have fits: "group_fits ks' p" if "queue_fits iw" "kv_at ?ks p \<le> u32_max" "p < n" for p
    using formed_fits [OF assms(1) that(3) _ _ _ chunks _ that(2)] gates that(1,3) by (auto simp: queue_fits_def)
  have held: "mset (holds iw1) = mset (holds iw)"
    using f(6,7) assms(2) by (simp only: holds_def parts mset_append mset_residents) simp
  have out: "get_record rs' r = get_record rs r" if "r \<notin> set (holds iw)" for r
  proof -
    have "set (map fst es) \<subseteq> set (waiting ?la)" using arg_cong [OF f(3), of set_mset] by auto
    then have "r \<notin> ac_request ` fst ` set es" using that by (auto simp: holds_def)
    then show ?thesis using f(5) by blast
  qed
  have size: "length es = length (prefilling ks')"
  proof -
    have "size (mset (waiting ?la)) = length es + length (waiting la')" unfolding f(3) by simp
    moreover have "size (mset (map ac_request (waiting ?la))) = length (waiting la') + length (prefilling ks')"
      unfolding f(6) by simp
    ultimately show ?thesis by simp
  qed
  have live: "(\<exists>p < n. has_live_decode (ks_partitions ?ks ! p)) \<longleftrightarrow> decoding ?ks \<noteq> []"
    unfolding decoding_at [OF l(2)] by (auto simp: has_live_decode_def members_all [OF assms(1)])
  have "length (residents ks') = length (prefilling ks') + length (decoding ks')"
    using arg_cong [OF mset_residents [of ks'], of size] by simp
  then have res: "residents ks' = [] \<longleftrightarrow> prefilling ks' = [] \<and> decoding ks' = []" by (metis add_is_0 length_0_conv)
  have same: "es = [] \<longleftrightarrow> prefilling ks' = []" using size by (metis length_0_conv)
  have formed: "run \<longleftrightarrow> residents ks' \<noteq> []" using f(4,7) live res same by auto
  have "\<not> run \<longrightarrow> prefilling ks' = []" using f(4) same by simp
  then show ?thesis using f(2,7) go held out formed parts fits
    by (intro exI [of _ iw1] exI [of _ rs'] exI [of _ run]) simp
qed

lemma tick_loop_round:
  "tick_round cost now x = Some (Inl y) \<Longrightarrow> tick_loop cost now x = Some y"
  "tick_round cost now x = Some (Inr y) \<Longrightarrow> tick_loop cost now x = tick_loop cost now y"
  "tick_round cost now x = None \<Longrightarrow> tick_loop cost now x = None"
  by (subst tick_loop.simps; simp)+

text \<open>An idle worker: it forms a batch and submits it, or stays idle because nothing can run. The tick returns exactly
  when the counters have room (\<open>room\<close>), and they do under the stated bounds.\<close>

lemma idle_tick_ok:
  assumes "local_ok n (iw_admission iw) (iw_kv iw) rs" and "prefilling (iw_kv iw) = []" and "worker_state (iw_fsm iw) = WIdle"
  shows "\<exists>iw' rs' room. tick_loop cost now (iw, rs, events) = (if room then Some (iw', rs', events) else None)
    \<and> worker_ok n iw' rs'
    \<and> mset (holds iw') = mset (holds iw) \<and> (\<forall>r. r \<notin> set (holds iw) \<longrightarrow> get_record rs' r = get_record rs r)
    \<and> iw_context iw' = iw_context iw
    \<and> (worker_state (iw_fsm iw') = WActive \<longrightarrow> iw_input iw' = input_at n (iw_kv iw')
        \<and> compute_end (iw_fsm iw') = now + cost (iw_input iw') (iteration (iw_fsm iw')) now
        \<and> (room \<longrightarrow> (\<forall>p < n. group_fits (iw_kv iw') p)))
    \<and> (worker_state (iw_fsm iw') = WIdle \<longrightarrow> residents (iw_kv iw') = []) \<and> decoding (iw_kv iw') = decoding (iw_kv iw)
    \<and> (iteration (iw_fsm iw) < u32_max \<longrightarrow> queue_fits iw \<longrightarrow> (\<forall>p < n. kv_at (iw_kv iw) p \<le> u32_max) \<longrightarrow> cost_fits cost now \<longrightarrow> room)"
proof -
  from worker_form_ok [OF assms(1,2), of now] obtain iw1 rs' formed where
    f: "worker_form_batch now iw rs = (if formed \<longrightarrow> iteration (iw_fsm iw) < u32_max then Some (iw1, rs', formed) else None)"
    "local_ok n (iw_admission iw1) (iw_kv iw1) rs'"
    "mset (holds iw1) = mset (holds iw)" "\<forall>r. r \<notin> set (holds iw) \<longrightarrow> get_record rs' r = get_record rs r"
    "iw_context iw1 = iw_context iw" "worker_state (iw_fsm iw1) = worker_state (iw_fsm iw)"
    "iw_plan iw1 = reset_decode_participation n True" "formed \<longleftrightarrow> residents (iw_kv iw1) \<noteq> []"
    "\<not> formed \<longrightarrow> prefilling (iw_kv iw1) = []" "decoding (iw_kv iw1) = decoding (iw_kv iw)"
    "queue_fits iw \<longrightarrow> (\<forall>p < n. kv_at (iw_kv iw) p \<le> u32_max) \<longrightarrow> (\<forall>p < n. group_fits (iw_kv iw1) p)"
    by (elim exE conjE) blast
  show ?thesis
  proof (cases formed)
    case False
    then have "tick_round cost now (iw, rs, events) = Some (Inl (iw1, rs', events))"
      using assms(3) f(1) by (simp add: tick_round_def Let_def)
    then have "tick_loop cost now (iw, rs, events) = Some (iw1, rs', events)" by (rule tick_loop_round)
    then show ?thesis using f False assms(3)
      by (intro exI [of _ iw1] exI [of _ rs'] exI [of _ True]) (simp add: worker_ok_def)
  next
    case True
    let ?iw2 = "iw1\<lparr>iw_fsm := (iw_fsm iw1)\<lparr>worker_state := WActive, cursor := NotStarted, compute_end := 0\<rparr>\<rparr>"
    let ?inp = "input_at n (iw_kv iw1)"
    let ?until = "now + cost ?inp (iteration (iw_fsm iw1)) now"
    let ?iw3 = "?iw2\<lparr>iw_input := ?inp, iw_fsm := (iw_fsm ?iw2)\<lparr>cursor := Computing, compute_end := ?until\<rparr>\<rparr>"
    define room where "room \<longleftrightarrow> iteration (iw_fsm iw) < u32_max \<and> (\<forall>p < n. group_fits (iw_kv iw1) p) \<and> ?until \<le> u64_max"
    have first: "tick_round cost now (iw, rs, events)
        = (if iteration (iw_fsm iw) < u32_max then Some (Inr (?iw2, rs', events)) else None)"
      using assms(3) f(1) True by (simp add: tick_round_def Let_def)
    have second: "tick_round cost now (?iw2, rs', events)
        = (if (\<forall>p < n. group_fits (iw_kv iw1) p) \<and> ?until \<le> u64_max then Some (Inl (?iw3, rs', events)) else None)"
      using build_input_eq [OF f(2)] f(7) by (auto simp: tick_round_def start_iteration_def checked_add_u64_def Let_def)
    have "tick_loop cost now (iw, rs, events) = (if room then Some (?iw3, rs', events) else None)"
      using first second tick_loop_round [where cost = cost and now = now] unfolding room_def by (smt (verit))
    moreover have "queue_fits iw \<Longrightarrow> \<forall>p < n. kv_at (iw_kv iw) p \<le> u32_max \<Longrightarrow> cost_fits cost now \<Longrightarrow> iteration (iw_fsm iw) < u32_max \<Longrightarrow> room"
      using f(11) by (simp add: room_def cost_fits_def)
    moreover have "worker_ok n ?iw3 rs'" using f(2,8) True by (simp add: worker_ok_def)
    ultimately show ?thesis using f(3-5,10)
      by (intro exI [of _ ?iw3] exI [of _ rs'] exI [of _ room]) (simp add: holds_def room_def)
  qed
qed

text \<open>A worker whose iteration is over: it completes it, then acts as an idle worker.\<close>

lemma done_tick_ok:
  assumes "worker_ok n iw rs" and "worker_state (iw_fsm iw) = WActive" and "compute_end (iw_fsm iw) \<le> now" and "steps_fit n iw"
  shows "\<exists>iw1 rs1. tick_loop cost now (iw, rs, events) = tick_loop cost now (iw1, rs1,
        events @ map (Pair (wc_id (iw_context iw))) (filter (finishes rs) (residents (iw_kv iw))))
    \<and> local_ok n (iw_admission iw1) (iw_kv iw1) rs1 \<and> prefilling (iw_kv iw1) = [] \<and> worker_state (iw_fsm iw1) = WIdle
    \<and> mset (holds iw) = mset (holds iw1) + mset (filter (finishes rs) (residents (iw_kv iw)))
    \<and> iw_context iw1 = iw_context iw
    \<and> (\<forall>r \<in> set (residents (iw_kv iw)). bumped rs rs1 r)
    \<and> (\<forall>r. r \<notin> set (residents (iw_kv iw)) \<longrightarrow> get_record rs1 r = get_record rs r)
    \<and> iteration (iw_fsm iw1) = iteration (iw_fsm iw) \<and> (queue_fits iw \<longrightarrow> queue_fits iw1)
    \<and> (\<forall>p < n. kv_at (iw_kv iw1) p \<le> kv_next (iw_kv iw) p)"
proof -
  let ?res = "residents (iw_kv iw)"
  have cur: "cursor (iw_fsm iw) = Computing" using assms(1,2) by (simp add: worker_ok_def)
  from iteration_ok [OF worker_okD [OF assms(1)], of "iw_context iw" now] assms(4) obtain ks' rs' where
    c: "local_complete_iteration (iw_context iw) (iw_kv iw) rs now
      = Some (ks', rs', map (Pair (wc_id (iw_context iw))) (filter (finishes rs) ?res))"
    "local_ok n (iw_admission iw) ks' rs'" "prefilling ks' = []" "decoding ks' = filter (\<lambda>r. \<not> finishes rs r) ?res"
    "\<forall>r \<in> set ?res. bumped rs rs' r" "\<forall>r. r \<notin> set ?res \<longrightarrow> get_record rs' r = get_record rs r"
    "\<forall>p < n. kv_at ks' p \<le> kv_next (iw_kv iw) p"
    by (auto simp: steps_fit_def)
  let ?iw1 = "iw\<lparr>iw_fsm := (iw_fsm iw)\<lparr>cursor := CursorDone\<rparr>\<rparr>"
  let ?iw2 = "iw\<lparr>iw_kv := ks', iw_fsm := (iw_fsm ?iw1)\<lparr>worker_state := WIdle\<rparr>\<rparr>"
  let ?ev = "events @ map (Pair (wc_id (iw_context iw))) (filter (finishes rs) ?res)"
  have "tick_round cost now (iw, rs, events) = Some (Inr (?iw1, rs, events))"
    using assms(2,3) cur by (simp add: tick_round_def Let_def)
  then have "tick_loop cost now (iw, rs, events) = tick_loop cost now (?iw1, rs, events)" by (rule tick_loop_round)
  also have "tick_round cost now (?iw1, rs, events) = Some (Inr (?iw2, rs', ?ev))"
    using assms(2) c(1) by (simp add: tick_round_def Let_def)
  then have "tick_loop cost now (?iw1, rs, events) = tick_loop cost now (?iw2, rs', ?ev)" by (rule tick_loop_round)
  finally have go: "tick_loop cost now (iw, rs, events) = tick_loop cost now (?iw2, rs', ?ev)" .
  have "mset (residents ks') = filter_mset (\<lambda>r. \<not> finishes rs r) (mset ?res)"
    using mset_residents [of ks'] c(3,4) by (simp add: mset_filter)
  then have split: "mset ?res = mset (residents ks') + mset (filter (finishes rs) ?res)"
    by (simp add: mset_filter add.commute)
  have "length (residents ks') \<le> length ?res" using arg_cong [OF split, of size] by simp
  then have queue: "queue_fits iw \<longrightarrow> queue_fits ?iw2" by (fastforce simp: queue_fits_def)
  from split have "mset (holds iw) = mset (holds ?iw2) + mset (filter (finishes rs) ?res)" by (simp add: holds_def)
  then show ?thesis using go c queue by (intro exI [of _ ?iw2] exI [of _ rs']) simp
qed

lemma idle_status:
  assumes "local_ok n (iw_admission iw) (iw_kv iw) rs" and "residents (iw_kv iw) = []"
  shows "worker_status iw = Some \<lparr>status_queued = length (waiting (iw_admission iw)), status_active_requests = 0\<rparr>"
proof -
  note l = local_okD [OF assms(1)]
  have "status_active (iw_kv iw) p = Some 0" if "p < n" for p
  proof -
    have p: "p < num_partitions (iw_kv iw)" using that l(2) by simp
    have "ran_at (iw_kv iw) p = []" using assms(2) p by (simp add: residents_def)
    moreover have "reserved_count (ks_ledger (iw_kv iw)) p = 0"
      using l(9,10) by (simp add: reserved_count_def alist_sum_def)
    ultimately show ?thesis
      by (simp add: status_active_def store_okD [OF l(1) p] ran_at_def live_decode_count_def iter_decoding_def as_u32_def)
  qed
  then have "those (map (status_active (iw_kv iw)) [0..<n]) = Some (map (\<lambda>_. 0) [0..<n])" by (intro those_map_Some) simp
  moreover have "po_len (la_policy (iw_admission iw)) = length (waiting (iw_admission iw))" by (rule po_len_waiting)
  ultimately show ?thesis using l(2,4,8) by (simp add: worker_status_def local_queued_requests_def as_u16_def)
qed

lemma finished_output:
  assumes "local_ok n la ks rs" and "r \<in> set (residents ks)" and "finishes rs r" and "bumped rs rs' r"
  shows "\<exists>a. get_record rs' r = Some a \<and> emitted a = max 1 (target a) \<and> lc_completed (ar_lifecycle a) \<and> lc_admitted (ar_lifecycle a)"
proof -
  obtain b a where b: "get_record rs r = Some b" "get_record rs' r = Some a" "ar_request a = ar_request b"
    "emitted a = emitted b + 1" "is_complete a \<longrightarrow> lc_completed (ar_lifecycle a)"
    "lc_admitted (ar_lifecycle a) = lc_admitted (ar_lifecycle b)" using assms(4) by (auto simp: bumped_def)
  have last: "target b \<le> emitted b + 1" using assms(3) b(1) by (simp add: finishes_def)
  then have marked: "lc_completed (ar_lifecycle a)" using b by (simp add: is_complete_def)
  have "r \<in> set (prefilling ks) \<or> r \<in> set (decoding ks)"
    using assms(2) arg_cong [OF mset_residents [of ks], of set_mset] by auto
  then show ?thesis
  proof
    assume "r \<in> set (prefilling ks)"
    then show ?thesis using local_okD(13) [OF assms(1), of r] b last marked by auto
  next
    assume "r \<in> set (decoding ks)"
    then obtain st x where x: "st \<in> set (ks_partitions ks)" "x \<in> set (decodes st)" "r = fst x" by (auto simp: decoding_def)
    from local_okD(14) [OF assms(1) x(1,2)] show ?thesis using b last marked x(3) by (auto simp: decode_tracks_def)
  qed
qed

lemma wakeup_ok:
  assumes "worker_ok n iw rs" and "worker_state (iw_fsm iw) = WIdle \<longrightarrow> residents (iw_kv iw) = []"
    and "worker_state (iw_fsm iw) = WActive \<longrightarrow> now \<le> compute_end (iw_fsm iw)"
  shows "\<exists>wake. next_wakeup now iw = Some wake \<and> (wake = None \<longleftrightarrow> holds iw = []) \<and> (\<forall>t. wake = Some t \<longrightarrow> now \<le> t)"
proof (cases "worker_state (iw_fsm iw)")
  case WIdle
  then show ?thesis using idle_status [OF worker_okD [OF assms(1)]] assms(2)
    by (auto simp: next_wakeup_def holds_def)
next
  case WActive
  then show ?thesis using assms(1,3) by (auto simp: next_wakeup_def worker_ok_def holds_def)
qed

text \<open>What a tick does, whatever state the worker is in.\<close>

definition ticked :: "nat \<Rightarrow> nat \<Rightarrow> IterWorker \<Rightarrow> 'd RequestStore \<Rightarrow> IterWorker \<times> 'd RequestStore \<times> (nat \<times> nat) list \<times> nat option \<Rightarrow> bool" where
  "ticked n now iw rs x = (case x of (iw', rs', events, wake) \<Rightarrow>
     worker_ok n iw' rs' \<and> iw_context iw' = iw_context iw \<and> mset (holds iw) = mset (holds iw') + mset (map snd events)
     \<and> (\<forall>r. r \<notin> set (holds iw) \<longrightarrow> get_record rs' r = get_record rs r)
     \<and> (\<forall>(k, r) \<in> set events. k = wc_id (iw_context iw) \<and> (\<exists>a. get_record rs' r = Some a \<and> emitted a = max 1 (target a) \<and> lc_completed (ar_lifecycle a) \<and> lc_admitted (ar_lifecycle a)))
     \<and> (wake = None \<longleftrightarrow> holds iw' = []) \<and> (\<forall>t. wake = Some t \<longrightarrow> now \<le> t))"

lemma counts_fitD:
  assumes "counts_fit n iw"
  shows "iteration (iw_fsm iw) < u32_max" "queue_fits iw" "\<forall>p < n. kv_next (iw_kv iw) p \<le> u32_max"
    "\<forall>p < n. kv_at (iw_kv iw) p \<le> u32_max"
  using assms by (auto simp: counts_fit_def kv_next_def)

lemma tick_from_loop:
  assumes "tick_loop cost now (iw, rs, []) = (if room then Some (iw', rs', events) else None)" and "next_wakeup now iw' = Some wake"
  shows "worker_tick cost now iw rs = (if room then Some (iw', rs', events, wake) else None)"
  using assms by (simp add: worker_tick_def)

lemma tick_step:
  assumes "worker_ok n iw rs"
    and "worker_state (iw_fsm iw) = WActive \<Longrightarrow> compute_end (iw_fsm iw) \<le> now \<Longrightarrow> steps_fit n iw"
  shows "\<exists>x room. worker_tick cost now iw rs = (if room then Some x else None) \<and> ticked n now iw rs x
    \<and> (counts_fit n iw \<longrightarrow> cost_fits cost now \<longrightarrow> room)"
proof (cases "worker_state (iw_fsm iw)")
  case WIdle
  have pre: "prefilling (iw_kv iw) = []" using assms(1) WIdle by (simp add: worker_ok_def)
  from idle_tick_ok [OF worker_okD [OF assms(1)] pre WIdle, of cost now "[]"] obtain iw' rs' room where
    t: "tick_loop cost now (iw, rs, []) = (if room then Some (iw', rs', []) else None)" "worker_ok n iw' rs'" "mset (holds iw') = mset (holds iw)"
    "\<forall>r. r \<notin> set (holds iw) \<longrightarrow> get_record rs' r = get_record rs r" "iw_context iw' = iw_context iw"
    and wait: "worker_state (iw_fsm iw') = WActive \<longrightarrow> iw_input iw' = input_at n (iw_kv iw')
        \<and> compute_end (iw_fsm iw') = now + cost (iw_input iw') (iteration (iw_fsm iw')) now
        \<and> (room \<longrightarrow> (\<forall>p < n. group_fits (iw_kv iw') p))"
    and idle: "worker_state (iw_fsm iw') = WIdle \<longrightarrow> residents (iw_kv iw') = []"
    and fits: "iteration (iw_fsm iw) < u32_max \<longrightarrow> queue_fits iw \<longrightarrow> (\<forall>p < n. kv_at (iw_kv iw) p \<le> u32_max) \<longrightarrow> cost_fits cost now \<longrightarrow> room"
    by (elim exE conjE) blast
  have later: "worker_state (iw_fsm iw') = WActive \<longrightarrow> now \<le> compute_end (iw_fsm iw')" using wait by simp
  have enough: "counts_fit n iw \<longrightarrow> cost_fits cost now \<longrightarrow> room" using fits counts_fitD [of n iw] by blast
  from wakeup_ok [OF t(2) idle later] obtain wake where w: "next_wakeup now iw' = Some wake"
    "wake = None \<longleftrightarrow> holds iw' = []" "\<forall>t. wake = Some t \<longrightarrow> now \<le> t" by blast
  from tick_from_loop [OF t(1) w(1)] show ?thesis using t w(2,3) enough
    by (intro exI [of _ "(iw', rs', [], wake)"] exI [of _ room]) (simp add: ticked_def)
next
  case WActive
  show ?thesis
  proof (cases "now < compute_end (iw_fsm iw)")
    case True
    have "tick_round cost now (iw, rs, []) = Some (Inl (iw, rs, []))"
      using WActive True assms(1) by (simp add: tick_round_def worker_ok_def Let_def)
    then have t: "tick_loop cost now (iw, rs, []) = Some (iw, rs, [])" by (rule tick_loop_round)
    from wakeup_ok [OF assms(1), of now] WActive True obtain wake where "next_wakeup now iw = Some wake"
      "wake = None \<longleftrightarrow> holds iw = []" "\<forall>t. wake = Some t \<longrightarrow> now \<le> t" by auto
    then show ?thesis using t assms(1)
      by (intro exI [of _ "(iw, rs, [], wake)"] exI [of _ True]) (simp add: worker_tick_def ticked_def)
  next
    case False
    let ?done = "filter (finishes rs) (residents (iw_kv iw))"
    let ?ev = "map (Pair (wc_id (iw_context iw))) ?done"
    have over: "compute_end (iw_fsm iw) \<le> now" using False by simp
    from done_tick_ok [OF assms(1) WActive over assms(2) [OF WActive over], of cost "[]"] obtain iw1 rs1 where
      d: "tick_loop cost now (iw, rs, []) = tick_loop cost now (iw1, rs1, ?ev)"
      "local_ok n (iw_admission iw1) (iw_kv iw1) rs1" "prefilling (iw_kv iw1) = []" "worker_state (iw_fsm iw1) = WIdle"
      "mset (holds iw) = mset (holds iw1) + mset ?done" "iw_context iw1 = iw_context iw"
      "\<forall>r \<in> set (residents (iw_kv iw)). bumped rs rs1 r"
      "\<forall>r. r \<notin> set (residents (iw_kv iw)) \<longrightarrow> get_record rs1 r = get_record rs r"
      and kept: "iteration (iw_fsm iw1) = iteration (iw_fsm iw)" "queue_fits iw \<longrightarrow> queue_fits iw1"
      "\<forall>p < n. kv_at (iw_kv iw1) p \<le> kv_next (iw_kv iw) p" by (elim exE conjE) simp
    have bounds: "counts_fit n iw \<longrightarrow> iteration (iw_fsm iw1) < u32_max \<and> queue_fits iw1 \<and> (\<forall>p < n. kv_at (iw_kv iw1) p \<le> u32_max)"
      using kept counts_fitD [of n iw] by (metis le_trans)
    from idle_tick_ok [OF d(2-4), of cost now ?ev] obtain iw' rs' room where
      t: "tick_loop cost now (iw1, rs1, ?ev) = (if room then Some (iw', rs', ?ev) else None)" "worker_ok n iw' rs'"
      "mset (holds iw') = mset (holds iw1)"
      "\<forall>r. r \<notin> set (holds iw1) \<longrightarrow> get_record rs' r = get_record rs1 r" "iw_context iw' = iw_context iw1"
      and wait: "worker_state (iw_fsm iw') = WActive \<longrightarrow> iw_input iw' = input_at n (iw_kv iw')
          \<and> compute_end (iw_fsm iw') = now + cost (iw_input iw') (iteration (iw_fsm iw')) now
          \<and> (room \<longrightarrow> (\<forall>p < n. group_fits (iw_kv iw') p))"
      and idle: "worker_state (iw_fsm iw') = WIdle \<longrightarrow> residents (iw_kv iw') = []"
      and fits: "iteration (iw_fsm iw1) < u32_max \<longrightarrow> queue_fits iw1 \<longrightarrow> (\<forall>p < n. kv_at (iw_kv iw1) p \<le> u32_max) \<longrightarrow> cost_fits cost now \<longrightarrow> room"
      by (elim exE conjE) blast
    have later: "worker_state (iw_fsm iw') = WActive \<longrightarrow> now \<le> compute_end (iw_fsm iw')" using wait by simp
    have enough: "counts_fit n iw \<longrightarrow> cost_fits cost now \<longrightarrow> room" using fits bounds by blast
    from wakeup_ok [OF t(2) idle later] obtain wake where w: "next_wakeup now iw' = Some wake"
      "wake = None \<longleftrightarrow> holds iw' = []" "\<forall>t. wake = Some t \<longrightarrow> now \<le> t" by blast
    have res: "set (residents (iw_kv iw)) \<subseteq> set (holds iw)" by (auto simp: holds_def)
    have sub: "set (holds iw1) \<subseteq> set (holds iw)" using arg_cong [OF d(5), of set_mset] by auto
    have gone: "r \<notin> set (holds iw1)" if "r \<in> set ?done" for r
    proof -
      have "distinct (holds iw1 @ ?done)"
        using holds_distinct [OF assms(1)] d(5) mset_eq_imp_distinct_iff [of "holds iw" "holds iw1 @ ?done"] by simp
      then show ?thesis using that by auto
    qed
    have out: "\<exists>a. get_record rs' r = Some a \<and> emitted a = max 1 (target a) \<and> lc_completed (ar_lifecycle a) \<and> lc_admitted (ar_lifecycle a)" if "r \<in> set ?done" for r
      using finished_output [OF worker_okD [OF assms(1)], of r rs1] that d(7) t(4) gone [OF that] by auto
    have keep: "get_record rs' r = get_record rs r" if "r \<notin> set (holds iw)" for r
    proof -
      have "r \<notin> set (holds iw1)" "r \<notin> set (residents (iw_kv iw))" using that res sub by blast+
      then show ?thesis using t(4) d(8) by simp
    qed
    have go: "worker_tick cost now iw rs = (if room then Some (iw', rs', ?ev, wake) else None)"
      by (rule tick_from_loop) (simp_all add: d(1) t(1) w(1))
    moreover have "mset (holds iw) = mset (holds iw') + mset (map snd ?ev)" using d(5) t(3) by (simp add: comp_def)
    ultimately show ?thesis using t(2,5) enough d(6) w(2,3) keep out
      by (intro exI [of _ "(iw', rs', ?ev, wake)"] exI [of _ room]) (auto simp: ticked_def image_mset.compositionality)
  qed
qed

lemma tick_ok:
  assumes "worker_ok n iw rs" and "worker_state (iw_fsm iw) = WActive \<Longrightarrow> compute_end (iw_fsm iw) \<le> now \<Longrightarrow> steps_fit n iw"
    and "counts_fit n iw" and "cost_fits cost now"
  shows "\<exists>x. worker_tick cost now iw rs = Some x \<and> ticked n now iw rs x"
  using tick_step [OF assms(1,2), where cost = cost] assms(3,4) by (metis (full_types))

text \<open>A tick that returns found room for the next step: \<open>advance\<close> asserts it.\<close>

lemma complete_partition_fits:
  assumes "store_ok ks" and "p < num_partitions ks" and "complete_partition w now p (ks, rs, events) = Some x"
  shows "next_step_fits (ks_partitions ks ! p)"
proof -
  obtain ks1 where "advance ks (WholePartition p) 1 = Some ks1"
    using assms(3) by (auto simp: complete_partition_eq bind_Some_iff case_prod_unfold)
  then obtain s' st where s': "advance_step (WholePartition p) ks = Some s'"
    "partition_at s' p = Some st" "resident_units st \<le> partition_capacity st"
    by (auto simp: advance_def scope_partition_def bind_Some_iff)
  then obtain st' where "advance_decodes (ks_partitions ks ! p) = Some st'" "s' = set_partition ks p st'"
    by (auto simp: advance_step_def partition_at_ok [OF assms(2)] bind_Some_iff)
  then show ?thesis using s'(2,3) assms(2) by (simp add: next_step_fits_def partition_at_ok num_partitions_def)
qed

lemma complete_partitions_fit:
  assumes "local_ok n la ks rs" and "distinct ps" and "\<forall>p \<in> set ps. p < n"
    and "fold_opt (complete_partition w now) ps (ks, rs, events) = Some x"
  shows "\<forall>p \<in> set ps. next_step_fits (ks_partitions ks ! p)"
  using assms
proof (induction ps arbitrary: ks rs events)
  case (Cons p ps)
  obtain y where y: "complete_partition w now p (ks, rs, events) = Some y" "fold_opt (complete_partition w now) ps y = Some x"
    using Cons.prems(4) by (auto simp: bind_Some_iff)
  have p: "p < n" using Cons.prems(3) by simp
  have fit: "next_step_fits (ks_partitions ks ! p)"
    using complete_partition_fits [OF _ _ y(1)] local_okD(1,2) [OF Cons.prems(1)] p by simp
  from complete_partition_ok [OF Cons.prems(1) p fit, of w now events] y obtain ks1 rs1 where
    one: "y = (ks1, rs1, events @ map (Pair (wc_id w)) (filter (finishes rs) (ran_at ks p)))" "local_ok n la ks1 rs1"
    "\<forall>q. q \<noteq> p \<longrightarrow> ks_partitions ks1 ! q = ks_partitions ks ! q" by auto
  from Cons.IH [OF one(2)] Cons.prems(2,3) y(2) one(1) have "\<forall>q \<in> set ps. next_step_fits (ks_partitions ks1 ! q)" by simp
  moreover have "p \<notin> set ps" using Cons.prems(2) by simp
  ultimately show ?case using fit one(3) by (metis set_ConsD)
qed simp

lemma tick_needs_room:
  assumes "worker_ok n iw rs" and "worker_tick cost now iw rs = Some x"
    and "worker_state (iw_fsm iw) = WActive" and "compute_end (iw_fsm iw) \<le> now"
  shows "steps_fit n iw"
proof -
  note l = local_okD [OF worker_okD [OF assms(1)]]
  let ?iw1 = "iw\<lparr>iw_fsm := (iw_fsm iw)\<lparr>cursor := CursorDone\<rparr>\<rparr>"
  have "tick_round cost now (iw, rs, []) = Some (Inr (?iw1, rs, []))"
    using assms(1,3,4) by (simp add: tick_round_def worker_ok_def Let_def)
  then have "tick_loop cost now (iw, rs, []) = tick_loop cost now (?iw1, rs, [])" by (rule tick_loop_round)
  moreover have "tick_loop cost now (iw, rs, []) \<noteq> None"
    using assms(2) by (cases "tick_loop cost now (iw, rs, [])") (simp_all add: worker_tick_def)
  ultimately have "tick_loop cost now (?iw1, rs, []) \<noteq> None" by simp
  then have "tick_round cost now (?iw1, rs, []) \<noteq> None" by (subst (asm) tick_loop.simps) (auto simp: bind_eq_None_conv bind_Some_iff)
  then obtain y where "local_complete_iteration (iw_context iw) (iw_kv iw) rs now = Some y"
    using assms(3) by (auto simp: tick_round_def Let_def bind_Some_iff)
  then have "fold_opt (complete_partition (iw_context iw) now) [0..<n] (iw_kv iw, rs, []) = Some y"
    using l(2,4) by (simp add: local_complete_iteration_def as_u16_def)
  from complete_partitions_fit [OF worker_okD [OF assms(1)] distinct_upt _ this] show ?thesis by (simp add: steps_fit_def)
qed

text \<open>So a tick that returns did what a tick does.\<close>

lemma tick_did:
  assumes "worker_ok n iw rs" and "worker_tick cost now iw rs = Some x"
  shows "ticked n now iw rs x"
proof -
  from tick_step [where now = now and cost = cost, OF assms(1) tick_needs_room [OF assms]] assms(2) show ?thesis
    by (auto split: if_splits)
qed

subsection \<open>Properties\<close>


text \<open>C4: Every tick of a consistent worker returns, when its counters have room: the next decode step fits the
  partitions at the moment an iteration ends, fewer than 2^32 - 1 iterations have run, every waiting request's prompt
  beside the number of residents and each partition's KV lengths after the next step fit 32 bits, and the cost of an
  iteration fits the 64-bit clock; the loop always leaves. The tick keeps the worker consistent, loses and duplicates
  no request, touches no record of a request it does not hold, reports only requests that are marked completed and
  have emitted exactly their output, and asks for a wake-up, never before now, exactly as long as the worker holds a request.\<close>

theorem tick_returns:
  assumes "worker_ok n iw rs"
    and "worker_state (iw_fsm iw) = WActive \<Longrightarrow> compute_end (iw_fsm iw) \<le> now \<Longrightarrow> steps_fit n iw"
    and "counts_fit n iw" and "cost_fits cost now"
  shows "\<exists>iw' rs' events wake. worker_tick cost now iw rs = Some (iw', rs', events, wake)
    \<and> worker_ok n iw' rs' \<and> mset (holds iw) = mset (holds iw') + mset (map snd events)
    \<and> (\<forall>r. r \<notin> set (holds iw) \<longrightarrow> get_record rs' r = get_record rs r)
    \<and> (\<forall>(k, r) \<in> set events. k = wc_id (iw_context iw)
        \<and> (\<exists>a. get_record rs' r = Some a \<and> emitted a = max 1 (target a) \<and> lc_completed (ar_lifecycle a) \<and> lc_admitted (ar_lifecycle a)))
    \<and> (wake = None \<longleftrightarrow> holds iw' = []) \<and> (\<forall>t. wake = Some t \<longrightarrow> now \<le> t)"
proof -
  from tick_ok [OF assms] obtain iw' rs' events wake where
    "worker_tick cost now iw rs = Some (iw', rs', events, wake)" "ticked n now iw rs (iw', rs', events, wake)"
    by (metis prod_cases4)
  then show ?thesis by (intro exI conjI) (auto simp: ticked_def)
qed

text \<open>A run: requests arrive and are enqueued, other workers update the records of their own requests, and
  the worker ticks at any times.\<close>

inductive worker_run :: "cost_model \<Rightarrow> nat \<Rightarrow> nat list \<Rightarrow> IterWorker \<Rightarrow> 'd RequestStore \<Rightarrow> (nat \<times> nat) list \<Rightarrow> bool"
  for cost n where
  created: "local_ok n la ks rs \<Longrightarrow> waiting la = [] \<Longrightarrow> residents ks = [] \<Longrightarrow>
    worker_run cost n [] (from_components w ks la) rs []"
| enqueued: "worker_run cost n accepted iw rs events \<Longrightarrow> r \<notin> set accepted \<Longrightarrow> get_record rs r = Some a \<Longrightarrow> newcomer a \<Longrightarrow>
    length accepted < u32_max \<Longrightarrow> worker_enqueue iw rs r = Some (iw', rs') \<Longrightarrow>
    worker_run cost n (accepted @ [r]) iw' rs' events"
| others: "worker_run cost n accepted iw rs events \<Longrightarrow> (\<And>r. r \<in> set accepted \<Longrightarrow> get_record rs' r = get_record rs r) \<Longrightarrow>
    worker_run cost n accepted iw rs' events"
| tick: "worker_run cost n accepted iw rs events \<Longrightarrow> worker_tick cost now iw rs = Some (iw', rs', done', wake) \<Longrightarrow>
    worker_run cost n accepted iw' rs' (events @ done')"
definition run_ok :: "nat \<Rightarrow> nat list \<Rightarrow> IterWorker \<Rightarrow> 'd RequestStore \<Rightarrow> (nat \<times> nat) list \<Rightarrow> bool" where
  "run_ok n accepted iw rs events \<longleftrightarrow> worker_ok n iw rs \<and> distinct accepted
     \<and> mset accepted = mset (holds iw) + mset (map snd events)
     \<and> (\<forall>(k, r) \<in> set events. k = wc_id (iw_context iw) \<and> (\<exists>a. get_record rs r = Some a \<and> emitted a = max 1 (target a) \<and> lc_completed (ar_lifecycle a) \<and> lc_admitted (ar_lifecycle a)))"

lemma run_ok_parts:
  assumes "run_ok n accepted iw rs events"
  shows "set (holds iw) \<subseteq> set accepted" and "(k, r) \<in> set events \<Longrightarrow> r \<in> set accepted \<and> r \<notin> set (holds iw)"
proof -
  have same: "mset accepted = mset (holds iw @ map snd events)" using assms by (simp add: run_ok_def)
  then have "distinct (holds iw @ map snd events)"
    using assms mset_eq_imp_distinct_iff by (fastforce simp: run_ok_def)
  then show "set (holds iw) \<subseteq> set accepted" "(k, r) \<in> set events \<Longrightarrow> r \<in> set accepted \<and> r \<notin> set (holds iw)"
    using arg_cong [OF same, of set_mset] by (auto simp: rev_image_eqI)
qed

lemma holds_cong:
  assumes "local_ok n la ks rs"
    and "\<And>r. r \<in> ac_request ` set (waiting la) \<union> set (residents ks) \<Longrightarrow> get_record rs' r = get_record rs r"
  shows "local_ok n la ks rs'"
proof -
  note l = local_okD [OF assms(1)]
  have res: "set (residents ks) = set (prefilling ks) \<union> set (decoding ks)"
    using arg_cong [OF mset_residents [of ks], of set_mset] by simp
  have "cand_ok rs' c" if "c \<in> set (waiting la)" for c
    using l(11) [OF that] assms(2) [of "ac_request c"] that by (simp add: cand_ok_def)
  moreover have "\<exists>a. get_record rs' r = Some a \<and> entered a" if "r \<in> set (prefilling ks)" for r
    using l(13) [OF that] assms(2) [of r] that res by simp
  moreover have "decode_tracks rs' x" if st: "st \<in> set (ks_partitions ks)" "x \<in> set (decodes st)" for st x
  proof -
    have "fst x \<in> set (decoding ks)" using st by (auto simp: decoding_def)
    then show ?thesis using l(14) [OF st] assms(2) [of "fst x"] res by (simp add: decode_tracks_def)
  qed
  ultimately show ?thesis using assms(1) by (simp add: local_ok_def)
qed

lemma worker_run_ok: "worker_run cost n accepted iw rs events \<Longrightarrow> run_ok n accepted iw rs events"
proof (induction rule: worker_run.induct)
  case (created la ks rs w)
  have "prefilling ks = []" using created(3) arg_cong [OF mset_residents [of ks], of size] by simp
  then show ?case using created
    by (simp add: run_ok_def worker_ok_def from_components_def new_fsm_def holds_def)
next
  case (enqueued accepted iw rs events r a iw' rs')
  note ok = enqueued.IH [unfolded run_ok_def]
  have len: "length (waiting (iw_admission iw)) < u32_max"
  proof -
    have "size (mset accepted) = length (holds iw) + length events" using ok by simp
    then show ?thesis using enqueued.hyps(5) by (simp add: holds_def)
  qed
  have free: "r \<notin> set (holds iw)" using run_ok_parts(1) [OF enqueued.IH] enqueued.hyps(2) by blast
  then have away: "r \<notin> set (map ac_request (waiting (iw_admission iw)) @ prefilling (iw_kv iw) @ decoding (iw_kv iw))"
    using arg_cong [OF mset_residents [of "iw_kv iw"], of set_mset] by (auto simp: holds_def)
  obtain la' where la': "local_accept_message (iw_context iw) (iw_admission iw) (iw_kv iw) rs r = Some (la', rs')"
    "iw' = iw\<lparr>iw_admission := la'\<rparr>" using enqueued.hyps(6) by (auto simp: worker_enqueue_def bind_Some_iff)
  have seq: "la_next_sequence (iw_admission iw) < u64_max"
    using la'(1) by (auto simp: local_accept_message_def freeze_candidate_def checked_add_u64_def bind_Some_iff Let_def split: if_splits)
  have ok': "worker_ok n iw rs" using ok by blast
  from local_accept_ok [OF worker_okD [OF ok'] enqueued.hyps(3,4) away seq len, where w = "iw_context iw"] la'(1) obtain k where
    f: "local_ok n la' (iw_kv iw) rs'"
    "mset (waiting la') = add_mset (candidate_of a r (la_next_sequence (iw_admission iw)) k) (mset (waiting (iw_admission iw)))"
    "\<forall>q. q \<noteq> r \<longrightarrow> get_record rs' q = get_record rs q" by auto
  have "mset (holds iw') = add_mset r (mset (holds iw))"
    using arg_cong [OF f(2), of "image_mset ac_request"] la'(2) by (simp add: holds_def candidate_of_def)
  moreover have "worker_ok n iw' rs'"
    using ok' f(1) unfolding worker_ok_def la'(2) by (cases "worker_state (iw_fsm iw)") simp_all
  moreover have "x \<noteq> r" if "(i, x) \<in> set events" for i x
    using run_ok_parts(2) [OF enqueued.IH that] enqueued.hyps(2) by auto
  ultimately show ?case using ok f(3) enqueued.hyps(2) la'(2) by (fastforce simp: run_ok_def)
next
  case (others accepted iw rs events rs')
  note ok = others.IH [unfolded run_ok_def]
  have "get_record rs' r = get_record rs r" if "r \<in> set (holds iw)" for r
    using others.hyps(2) run_ok_parts(1) [OF others.IH] that by blast
  then have "worker_ok n iw rs'"
    using ok holds_cong [of n "iw_admission iw" "iw_kv iw" rs rs'] by (simp add: worker_ok_def holds_def)
  moreover have "get_record rs' r = get_record rs r" if "(k, r) \<in> set events" for k r
    using others.hyps(2) run_ok_parts(2) [OF others.IH that] by blast
  ultimately show ?case using ok by (fastforce simp: run_ok_def)
next
  case (tick accepted iw rs events now iw' rs' done' wake)
  note ok = tick.IH [unfolded run_ok_def]
  have t: "ticked n now iw rs (iw', rs', done', wake)" by (rule tick_did [OF conjunct1 [OF ok] tick.hyps(2)])
  have "get_record rs' r = get_record rs r" if "(k, r) \<in> set events" for k r
    using t run_ok_parts(2) [OF tick.IH that] by (simp add: ticked_def)
  then show ?case using ok t by (fastforce simp: run_ok_def ticked_def)
qed

text \<open>C3: Over any run of a worker that starts empty, interleaved with other workers updating their own
  requests, the worker stays consistent, and every request ever enqueued is, exactly once, waiting, resident
  or reported complete; a request reported complete carries this worker's id, is marked completed and has emitted
  exactly its target output (one token at least).\<close>

theorem worker_conserves:
  assumes "worker_run cost n accepted iw rs events"
  shows "worker_ok n iw rs \<and> mset accepted = mset (holds iw) + mset (map snd events)
    \<and> distinct (holds iw @ map snd events)
    \<and> (\<forall>(k, r) \<in> set events. k = wc_id (iw_context iw) \<and> (\<exists>a. get_record rs r = Some a \<and> emitted a = max 1 (target a) \<and> lc_completed (ar_lifecycle a) \<and> lc_admitted (ar_lifecycle a)))"
proof -
  have ok: "run_ok n accepted iw rs events" by (rule worker_run_ok [OF assms])
  then have "distinct (holds iw @ map snd events)"
    using mset_eq_imp_distinct_iff [of accepted "holds iw @ map snd events"] by (simp add: run_ok_def)
  then show ?thesis using ok by (simp add: run_ok_def)
qed
subsection \<open>Concrete runs\<close>

text \<open>One resident decode that ticks from idle, and one whose iteration is over.\<close>

definition sample_worker :: "KvStore \<Rightarrow> IterWorker" where
  "sample_worker ks = from_components sample_context ks sample_admission"

definition sample_cost :: cost_model where
  "sample_cost inp i now = 5"

lemma sample_counts:
  assumes "kv_next ks 0 \<le> 9" and "\<forall>c \<in> set (waiting la). ac_fresh_prompt c = 8 \<and> ac_session c = Standalone" and "length (residents ks) \<le> 1"
  shows "counts_fit 1 ((sample_worker ks)\<lparr>iw_admission := la\<rparr>)" and "now \<le> 20 \<Longrightarrow> cost_fits sample_cost now"
  using assms
  by (auto simp: counts_fit_def queue_fits_def cost_fits_def sample_cost_def sample_worker_def from_components_def new_fsm_def
      declared_prefix_tokens_def u32_max_def u64_max_def)

lemma sample_idle:
  assumes "local_ok 1 sample_admission ks rs" and "prefilling ks = []"
  shows "worker_ok 1 (sample_worker ks) rs" and "worker_state (iw_fsm (sample_worker ks)) = WIdle"
    and "iw_kv (sample_worker ks) = ks"
  using assms by (simp_all add: sample_worker_def worker_ok_def from_components_def new_fsm_def)


theorem tick_returns_witness:
  "\<exists>iw (rs :: unit RequestStore). worker_state (iw_fsm iw) = WActive \<and> compute_end (iw_fsm iw) \<le> 20 \<and> holds iw \<noteq> []
     \<and> worker_tick sample_cost 20 iw rs \<noteq> None"
proof -
  obtain ks where ks: "local_ok 1 sample_admission ks sample_serving" "prefilling ks = []" "decoding ks = [0]"
    "next_step_fits (ks_partitions ks ! 0)" "kv_next ks 0 = 9" using sample_resident by blast
  let ?iw = "(sample_worker ks)\<lparr>iw_fsm := \<lparr>worker_state = WActive, cursor = Computing, compute_end = 12, iteration = 1\<rparr>\<rparr>"
  have res: "residents ks \<noteq> []" using mset_residents [of ks] ks(3) by auto
  then have ok: "worker_ok 1 ?iw sample_serving"
    using ks(1) by (simp add: worker_ok_def sample_worker_def from_components_def)
  have "steps_fit 1 ?iw" using ks(4) by (simp add: steps_fit_def sample_worker_def from_components_def)
  moreover have "length (residents ks) \<le> 1" using arg_cong [OF mset_residents [of ks], of size] ks(2,3) by simp
  then have "counts_fit 1 ?iw" using ks(5) sample_admission_facts(3)
    by (simp add: counts_fit_def queue_fits_def sample_worker_def from_components_def u32_max_def)
  moreover have "cost_fits sample_cost 20" by (simp add: cost_fits_def sample_cost_def u64_max_def)
  ultimately obtain iw' rs' events wake where "worker_tick sample_cost 20 ?iw sample_serving = Some (iw', rs', events, wake)"
    using tick_returns [OF ok, where now = 20 and cost = sample_cost] by blast
  then show ?thesis using res
    by (intro exI [of _ ?iw] exI [of _ sample_serving]) (auto simp: holds_def sample_worker_def from_components_def)
qed

theorem worker_conserves_witness:
  "\<exists>iw rs events. worker_run sample_cost 1 [0] iw (rs :: unit RequestStore) events
     \<and> {#0#} = mset (holds iw) + mset (map snd events)"
proof -
  have res: "residents sample_store = []" using mset_residents [of sample_store] sample_empty by simp
  have r0: "worker_run sample_cost 1 [] (sample_worker sample_store) sample_requests []"
    unfolding sample_worker_def using worker_run.created [OF sample_local_ok _ res] sample_admission_facts(3) by blast
  obtain la and rs :: "unit RequestStore" and k where
    acc: "local_accept_message sample_context sample_admission sample_store sample_requests 0 = Some (la, rs)"
    "mset (waiting la) = {# candidate_of (from_request (sample_request 0)) 0 0 k #}" using sample_accepted by blast
  then have e: "worker_enqueue (sample_worker sample_store) sample_requests 0
      = Some ((sample_worker sample_store)\<lparr>iw_admission := la\<rparr>, rs)"
    using acc(1) by (simp add: worker_enqueue_def sample_worker_def from_components_def)
  have "set (waiting la) = {candidate_of (from_request (sample_request 0)) 0 0 k}"
    using arg_cong [OF acc(2), of set_mset] by simp
  then have queue: "\<forall>c \<in> set (waiting la). ac_fresh_prompt c = 8 \<and> ac_session c = Standalone"
    by (simp add: candidate_of_def from_request_def sample_request_def)
  have "kv_next sample_store 0 \<le> 9"
    using sample_empty(1,2) sample_store(2) by (simp add: kv_next_def kv_at_def prefilling_def decoding_def num_partitions_def)
  note fits = sample_counts [OF this queue]
  have "worker_run sample_cost 1 ([] @ [0]) ((sample_worker sample_store)\<lparr>iw_admission := la\<rparr>) rs []"
    by (rule worker_run.enqueued [OF r0 _ sample_newcomer _ e]) (simp_all add: u32_max_def)
  then have r1: "worker_run sample_cost 1 [0] ((sample_worker sample_store)\<lparr>iw_admission := la\<rparr>) rs []" by simp
  have "worker_ok 1 ((sample_worker sample_store)\<lparr>iw_admission := la\<rparr>) rs" using worker_run_ok [OF r1] by (simp add: run_ok_def)
  from tick_ok [OF this, where now = 7 and cost = sample_cost] fits res obtain iw' rs' events wake where
    "worker_tick sample_cost 7 ((sample_worker sample_store)\<lparr>iw_admission := la\<rparr>) rs = Some (iw', rs', events, wake)"
    by (auto simp: sample_worker_def from_components_def new_fsm_def)
  from worker_run.tick [OF r1 this] have run: "worker_run sample_cost 1 [0] iw' rs' ([] @ events)" .
  from worker_conserves [OF run] run show ?thesis by fastforce
qed

end
