(* ===== verification/Dp_Pool.thy ===== *)
theory Dp_Pool
  imports Worker_Run
begin

section \<open>The data-parallel pool (\<open>orchestrator/impls/simple_dp.rs\<close>)\<close>

text \<open>
  A pool of workers behind one placement policy, with the time at which each worker wants to run next, and the
  flow that feeds it. The pool is written over any worker: the trait \<open>IterWorker\<close> is the record
  \<open>worker_ops\<close> of its operations on a worker and the shared state. What the pool relies on is the locale
  \<open>pool_worker\<close>, interpreted on the whole-iteration worker. The GPU registry is not modelled.
\<close>

subsection \<open>The worker trait\<close>

record ('w, 's, 'm, 'e) worker_ops =
  op_enqueue :: "'w \<Rightarrow> 's \<Rightarrow> 'm \<Rightarrow> ('w \<times> 's) option"
  op_tick :: "nat \<Rightarrow> 'w \<Rightarrow> 's \<Rightarrow> ('w \<times> 's \<times> 'e list \<times> nat option) option"
  op_status :: "'w \<Rightarrow> WorkerStatus option"

subsection \<open>The pool\<close>

definition no_wakeup_time :: nat where
  "no_wakeup_time = u64_max"

datatype DpPlacementPolicy = LeastQueued | RoundRobin

record 'w DpPool =
  dp_pool_id :: nat
  dp_workers :: "'w list"
  worker_wakeup_times :: "nat list"
  dp_placement :: DpPlacementPolicy
  rr_next :: nat

definition new_dp_pool :: "(nat \<Rightarrow> 'w) \<Rightarrow> nat \<Rightarrow> nat \<Rightarrow> DpPlacementPolicy \<Rightarrow> 'w DpPool option" where
  "new_dp_pool build pool num_workers policy = do {
     assert_that (0 < num_workers);
     Some \<lparr>dp_pool_id = pool, dp_workers = map build [0..<num_workers],
       worker_wakeup_times = replicate num_workers no_wakeup_time, dp_placement = policy, rr_next = 0\<rparr>
   }"

text \<open>The order of \<open>min_by_key\<close> on (queued, active, index).\<close>

definition queued_less :: "nat \<times> WorkerStatus \<Rightarrow> nat \<times> WorkerStatus \<Rightarrow> bool" where
  "queued_less x y \<longleftrightarrow> status_queued (snd x) < status_queued (snd y) \<or> status_queued (snd x) = status_queued (snd y)
     \<and> (status_active_requests (snd x) < status_active_requests (snd y)
        \<or> status_active_requests (snd x) = status_active_requests (snd y) \<and> fst x < fst y)"

fun min_queued :: "(nat \<times> WorkerStatus) list \<Rightarrow> (nat \<times> WorkerStatus) option" where
  "min_queued [] = None"
| "min_queued (x # xs) = Some (fold (\<lambda>y best. if queued_less y best then y else best) xs x)"

definition choose_least_queued_idx :: "('w, 's, 'm, 'e) worker_ops \<Rightarrow> 'w DpPool \<Rightarrow> nat option" where
  "choose_least_queued_idx ops pool = do {
     statuses \<leftarrow> those (map (op_status ops) (dp_workers pool));
     map_option fst (min_queued (List.enumerate 0 statuses))
   }"

definition choose_round_robin_idx :: "'w DpPool \<Rightarrow> ('w DpPool \<times> nat) option" where
  "choose_round_robin_idx pool = do {
     assert_that (dp_workers pool \<noteq> []);
     Some (pool\<lparr>rr_next := (rr_next pool + 1) mod length (dp_workers pool)\<rparr>, rr_next pool)
   }"

definition choose_worker_idx :: "('w, 's, 'm, 'e) worker_ops \<Rightarrow> 'w DpPool \<Rightarrow> ('w DpPool \<times> nat) option" where
  "choose_worker_idx ops pool = (case dp_placement pool of
     LeastQueued \<Rightarrow> map_option (Pair pool) (choose_least_queued_idx ops pool)
   | RoundRobin \<Rightarrow> choose_round_robin_idx pool)"

text \<open>\<open>route_msg_to\<close>; \<open>admit_msg\<close> does the same for the worker it chose.\<close>

definition route_msg_to :: "('w, 's, 'm, 'e) worker_ops \<Rightarrow> 'w DpPool \<Rightarrow> 's \<Rightarrow> nat \<Rightarrow> 'm \<Rightarrow> ('w DpPool \<times> 's) option" where
  "route_msg_to ops pool s idx msg = do {
     w \<leftarrow> nth_opt (dp_workers pool) idx;
     (w', s') \<leftarrow> op_enqueue ops w s msg;
     t \<leftarrow> nth_opt (worker_wakeup_times pool) idx;
     Some (pool\<lparr>dp_workers := (dp_workers pool)[idx := w'],
       worker_wakeup_times := (if t = no_wakeup_time then (worker_wakeup_times pool)[idx := 0] else worker_wakeup_times pool)\<rparr>, s')
   }"

definition admit_msg :: "('w, 's, 'm, 'e) worker_ops \<Rightarrow> 'w DpPool \<Rightarrow> 's \<Rightarrow> 'm \<Rightarrow> ('w DpPool \<times> 's) option" where
  "admit_msg ops pool s msg = do {
     (pool', idx) \<leftarrow> choose_worker_idx ops pool;
     route_msg_to ops pool' s idx msg
   }"

fun sweep :: "('w, 's, 'm, 'e) worker_ops \<Rightarrow> nat \<Rightarrow> (nat \<times> 'w) list \<Rightarrow> 's \<Rightarrow> ((nat \<times> 'w) list \<times> 's \<times> 'e list) option" where
  "sweep ops now [] s = Some ([], s, [])"
| "sweep ops now ((t, w) # rest) s = (if t \<le> now then do {
       (w', s', events, wake) \<leftarrow> op_tick ops now w s;
       (rest', s'', events') \<leftarrow> sweep ops now rest s';
       Some (((case wake of None \<Rightarrow> no_wakeup_time | Some t' \<Rightarrow> t'), w') # rest', s'', events @ events')
     } else do {
       (rest', s', events') \<leftarrow> sweep ops now rest s;
       Some ((t, w) # rest', s', events')
     })"

definition tick_collect :: "('w, 's, 'm, 'e) worker_ops \<Rightarrow> 'w DpPool \<Rightarrow> nat \<Rightarrow> 's \<Rightarrow> ('w DpPool \<times> 's \<times> 'e list) option" where
  "tick_collect ops pool now s = do {
     assert_that (length (worker_wakeup_times pool) = length (dp_workers pool));
     (swept, s', events) \<leftarrow> sweep ops now (zip (worker_wakeup_times pool) (dp_workers pool)) s;
     Some (pool\<lparr>dp_workers := map snd swept, worker_wakeup_times := map fst swept\<rparr>, s', events)
   }"

subsection \<open>The flow\<close>

text \<open>The completion event of a worker is the pair of its id and the request; the flow's actions are the requests.\<close>

definition flow_on_arrival :: "('w, 'd RequestStore, nat, nat \<times> nat) worker_ops \<Rightarrow> 'w DpPool \<Rightarrow> 'd RequestStore \<Rightarrow> 'd Request \<Rightarrow>
     ('w DpPool \<times> 'd RequestStore) option" where
  "flow_on_arrival ops pool rs q = do {
     rs' \<leftarrow> insert_request rs q;
     admit_msg ops pool rs' (rc_id (rq_core q))
   }"

definition flow_tick :: "('w, 'd RequestStore, nat, nat \<times> nat) worker_ops \<Rightarrow> 'w DpPool \<Rightarrow> nat \<Rightarrow> 'd RequestStore \<Rightarrow>
     ('w DpPool \<times> 'd RequestStore \<times> nat list) option" where
  "flow_tick ops pool now rs = do {
     (pool', rs', events) \<leftarrow> tick_collect ops pool now rs;
     Some (pool', rs', map snd events)
   }"

text \<open>The whole-iteration worker as the pool drives it.\<close>

definition iter_worker_ops :: "cost_model \<Rightarrow> (IterWorker, 'd RequestStore, nat, nat \<times> nat) worker_ops" where
  "iter_worker_ops cost = \<lparr>op_enqueue = worker_enqueue, op_tick = worker_tick cost, op_status = worker_status\<rparr>"

section \<open>What a pool needs of its workers, and what it gives\<close>

subsection \<open>Choosing a worker\<close>

lemma min_queued_fold:
  assumes "\<And>y. y \<in> set ys \<Longrightarrow> y \<in> A" and "x \<in> A"
  shows "fold (\<lambda>y best. if queued_less y best then y else best) ys x \<in> A"
  using assms by (induction ys arbitrary: x) auto

lemma queued_less_trans: "queued_less x y \<Longrightarrow> queued_less y z \<Longrightarrow> queued_less x z"
  unfolding queued_less_def by linarith

lemma queued_less_irrefl [simp]: "\<not> queued_less x x"
  by (simp add: queued_less_def)

lemma queued_not_less_trans: "\<not> queued_less x y \<Longrightarrow> \<not> queued_less y z \<Longrightarrow> \<not> queued_less x z"
  unfolding queued_less_def by linarith

lemma min_queued_least:
  assumes "min_queued xs = Some x"
  shows "x \<in> set xs" and "\<forall>y \<in> set xs. \<not> queued_less y x"
proof -
  have gen: "b \<in> insert z (set ys) \<and> (\<forall>y \<in> insert z (set ys). \<not> queued_less y b)"
    if "b = fold (\<lambda>y best. if queued_less y best then y else best) ys z" for ys z b
    using that
  proof (induction ys arbitrary: z)
    case (Cons y ys)
    show ?case
    proof (cases "queued_less y z")
      case True
      with Cons.IH [of y] Cons.prems have "b \<in> insert y (set ys)" "\<forall>u \<in> insert y (set ys). \<not> queued_less u b" by auto
      moreover have "\<not> queued_less z b" using calculation(2) True queued_less_trans [of y z b] by auto
      ultimately show ?thesis by auto
    next
      case False
      with Cons.IH [of z] Cons.prems have "b \<in> insert z (set ys)" "\<forall>u \<in> insert z (set ys). \<not> queued_less u b" by auto
      moreover have "\<not> queued_less y b" using calculation(2) False queued_not_less_trans [of y z b] by auto
      ultimately show ?thesis by auto
    qed
  qed simp
  from assms obtain z ys where "xs = z # ys" "x = fold (\<lambda>y best. if queued_less y best then y else best) ys z"
    by (cases xs) auto
  with gen [of x ys z] show "x \<in> set xs" and "\<forall>y \<in> set xs. \<not> queued_less y x" by simp_all
qed

lemma those_map_ex: "(\<And>x. x \<in> set xs \<Longrightarrow> f x \<noteq> None) \<Longrightarrow> \<exists>ys. those (map f xs) = Some ys \<and> length ys = length xs
    \<and> (\<forall>i < length xs. f (xs ! i) = Some (ys ! i))"
proof (induction xs)
  case (Cons x xs)
  then obtain ys y where "those (map f xs) = Some ys" "length ys = length xs" "\<forall>i < length xs. f (xs ! i) = Some (ys ! i)" "f x = Some y"
    by fastforce
  then show ?case by (intro exI [of _ "y # ys"]) (auto simp: nth_Cons split: nat.splits)
qed simp

lemma least_queued_ok:
  assumes "\<And>w. w \<in> set (dp_workers pool) \<Longrightarrow> op_status ops w \<noteq> None" and "dp_workers pool \<noteq> []"
  shows "\<exists>i st. choose_least_queued_idx ops pool = Some i \<and> i < length (dp_workers pool)
    \<and> op_status ops (dp_workers pool ! i) = Some st
    \<and> (\<forall>j < length (dp_workers pool). \<forall>st'. op_status ops (dp_workers pool ! j) = Some st' \<longrightarrow> \<not> queued_less (j, st') (i, st))"
proof -
  from those_map_ex [of "dp_workers pool" "op_status ops"] assms(1) obtain sts where
    s: "those (map (op_status ops) (dp_workers pool)) = Some sts" "length sts = length (dp_workers pool)"
    "\<forall>i < length (dp_workers pool). op_status ops (dp_workers pool ! i) = Some (sts ! i)" by blast
  have "List.enumerate 0 sts \<noteq> []" using assms(2) s(2) by (cases sts) auto
  then obtain x where x: "min_queued (List.enumerate 0 sts) = Some x" by (cases "List.enumerate 0 sts") auto
  obtain i st where p: "x = (i, st)" by (cases x)
  note m = min_queued_least [OF x, unfolded p]
  have "i < length sts" "st = sts ! i" using m(1) by (auto simp: in_set_enumerate_eq)
  moreover have "\<not> queued_less (j, sts ! j) (i, st)" if "j < length sts" for j
    using m(2) that by (auto simp: in_set_enumerate_eq)
  ultimately show ?thesis using s x p by (intro exI [of _ i] exI [of _ st]) (simp add: choose_least_queued_idx_def)
qed

subsection \<open>The contract\<close>

text \<open>
  \<open>held\<close> are the requests of a worker, \<open>due\<close> the time at which its current work ends, \<open>rec\<close> the record of a
  request in the shared state. A worker reads and writes only the records of requests it holds.
\<close>

locale pool_worker =
  fixes ops :: "('w, 's, 'm, 'e) worker_ops" and wok :: "'w \<Rightarrow> 's \<Rightarrow> bool" and held :: "'w \<Rightarrow> nat list" and due :: "'w \<Rightarrow> nat"
    and ready :: "nat \<Rightarrow> 'w \<Rightarrow> bool" and room :: "'w \<Rightarrow> bool" and msg_req :: "'m \<Rightarrow> nat" and done_req :: "'e \<Rightarrow> nat"
    and rec :: "'s \<Rightarrow> nat \<Rightarrow> 'r option" and fresh :: "'r \<Rightarrow> bool" and finished :: "'r \<Rightarrow> bool"
  assumes held_distinct: "wok w s \<Longrightarrow> distinct (held w)"
    and frame: "wok w s \<Longrightarrow> (\<And>r. r \<in> set (held w) \<Longrightarrow> rec s' r = rec s r) \<Longrightarrow> wok w s'"
    and status_returns: "wok w s \<Longrightarrow> op_status ops w \<noteq> None"
    and enqueue_returns: "wok w s \<Longrightarrow> msg_req m \<notin> set (held w) \<Longrightarrow> rec s (msg_req m) = Some a \<Longrightarrow> fresh a \<Longrightarrow>
      length (held w) < u32_max \<Longrightarrow> room w \<Longrightarrow> op_enqueue ops w s m \<noteq> None"
    and enqueue_law: "wok w s \<Longrightarrow> msg_req m \<notin> set (held w) \<Longrightarrow> rec s (msg_req m) = Some a \<Longrightarrow> fresh a \<Longrightarrow>
      length (held w) < u32_max \<Longrightarrow> op_enqueue ops w s m = Some (w', s') \<Longrightarrow>
      wok w' s' \<and> mset (held w') = add_mset (msg_req m) (mset (held w)) \<and> due w' = due w
      \<and> (\<forall>q. q \<noteq> msg_req m \<longrightarrow> rec s' q = rec s q)"
    and tick_returns: "wok w s \<Longrightarrow> ready now w \<Longrightarrow> op_tick ops now w s \<noteq> None"
    and tick_law: "wok w s \<Longrightarrow> op_tick ops now w s = Some (w', s', es, wake) \<Longrightarrow>
      wok w' s' \<and> mset (held w) = mset (held w') + mset (map done_req es) \<and> (\<forall>r. r \<notin> set (held w) \<longrightarrow> rec s' r = rec s r)
      \<and> (\<forall>e \<in> set es. \<exists>a. rec s' (done_req e) = Some a \<and> finished a)
      \<and> (wake = None \<longleftrightarrow> held w' = []) \<and> (\<forall>t. wake = Some t \<longrightarrow> t \<le> max now (due w'))"
begin

definition timely :: "nat \<Rightarrow> nat \<times> 'w \<Rightarrow> bool" where
  "timely prev = (\<lambda>(t, w). (held w = [] \<longrightarrow> t = no_wakeup_time) \<and> (held w \<noteq> [] \<longrightarrow> t \<le> max prev (due w)))"

definition pool_held :: "'w DpPool \<Rightarrow> nat list" where
  "pool_held pool = concat (map held (dp_workers pool))"

definition pool_ok :: "nat \<Rightarrow> 'w DpPool \<Rightarrow> 's \<Rightarrow> bool" where
  "pool_ok prev pool s \<longleftrightarrow> length (worker_wakeup_times pool) = length (dp_workers pool) \<and> rr_next pool < length (dp_workers pool)
     \<and> (\<forall>w \<in> set (dp_workers pool). wok w s) \<and> distinct (pool_held pool)
     \<and> (\<forall>x \<in> set (zip (worker_wakeup_times pool) (dp_workers pool)). timely prev x)"

lemma choose_ok:
  assumes "pool_ok prev pool s"
  shows "\<exists>k i. choose_worker_idx ops pool = Some (pool\<lparr>rr_next := k\<rparr>, i) \<and> i < length (dp_workers pool) \<and> k < length (dp_workers pool)"
proof (cases "dp_placement pool")
  case LeastQueued
  have "dp_workers pool \<noteq> []" using assms by (auto simp: pool_ok_def)
  moreover have "op_status ops w \<noteq> None" if "w \<in> set (dp_workers pool)" for w
    using assms that status_returns by (auto simp: pool_ok_def)
  ultimately obtain i where "choose_least_queued_idx ops pool = Some i" "i < length (dp_workers pool)"
    using least_queued_ok [of pool ops] by blast
  then show ?thesis using LeastQueued assms
    by (intro exI [of _ "rr_next pool"] exI [of _ i]) (simp add: choose_worker_idx_def pool_ok_def)
next
  case RoundRobin
  then show ?thesis using assms
    by (intro exI [of _ "(rr_next pool + 1) mod length (dp_workers pool)"] exI [of _ "rr_next pool"])
      (auto simp: choose_worker_idx_def choose_round_robin_idx_def pool_ok_def assert_that_def)
qed

lemma pool_ok_rr: "pool_ok prev pool s \<Longrightarrow> k < length (dp_workers pool) \<Longrightarrow> pool_ok prev (pool\<lparr>rr_next := k\<rparr>) s"
  by (simp add: pool_ok_def pool_held_def)

end

lemma mset_concat_update:
  "i < length xs \<Longrightarrow> mset (concat (map f (xs[i := x]))) + mset (f (xs ! i)) = mset (concat (map f xs)) + mset (f x)"
proof (induction xs arbitrary: i)
  case (Cons y ys)
  then show ?case by (cases i) (auto simp: add_ac)
qed simp

lemma held_in_concat: "i < length xs \<Longrightarrow> mset (f (xs ! i)) \<subseteq># mset (concat (map f xs))"
proof (induction xs arbitrary: i)
  case (Cons y ys)
  then show ?case by (cases i) (auto intro: subset_mset.add_increasing)
qed simp

context pool_worker
begin

text \<open>Enqueueing at a worker: the request is held there, and the worker is due at once when it was asleep.\<close>

lemma route_ok:
  assumes "pool_ok prev pool s" and "i < length (dp_workers pool)" and "msg_req m \<notin> set (pool_held pool)"
    and "rec s (msg_req m) = Some a" and "fresh a" and "length (pool_held pool) < u32_max"
  shows "room (dp_workers pool ! i) \<Longrightarrow> route_msg_to ops pool s i m \<noteq> None"
    and "route_msg_to ops pool s i m = Some (pool', s') \<Longrightarrow> pool_ok prev pool' s'
      \<and> mset (pool_held pool') = add_mset (msg_req m) (mset (pool_held pool)) \<and> (\<forall>q. q \<noteq> msg_req m \<longrightarrow> rec s' q = rec s q)"
proof -
  let ?w = "dp_workers pool ! i" and ?ts = "worker_wakeup_times pool" and ?ws = "dp_workers pool"
  have wok: "wok ?w s" and lens: "length ?ts = length ?ws" using assms(1,2) by (simp_all add: pool_ok_def)
  note sub = held_in_concat [OF assms(2), of held, folded pool_held_def]
  have free: "msg_req m \<notin> set (held ?w)" using assms(3) mset_subset_eqD [OF sub, of "msg_req m"] by auto
  have small: "length (held ?w) < u32_max" using size_mset_mono [OF sub] assms(6) by simp
  have at: "nth_opt ?ws i = Some ?w" "nth_opt ?ts i = Some (?ts ! i)" using assms(2) lens by (simp_all add: nth_opt_def)
  show "room ?w \<Longrightarrow> route_msg_to ops pool s i m \<noteq> None"
    using enqueue_returns [OF wok free assms(4,5) small] at by (auto simp: route_msg_to_def)
  assume "route_msg_to ops pool s i m = Some (pool', s')"
  then obtain w' where w': "op_enqueue ops ?w s m = Some (w', s')"
    "pool' = pool\<lparr>dp_workers := ?ws[i := w'], worker_wakeup_times := (if ?ts ! i = no_wakeup_time then ?ts[i := 0] else ?ts)\<rparr>"
    using at by (auto simp: route_msg_to_def bind_Some_iff split: prod.splits)
  note e = enqueue_law [OF wok free assms(4,5) small w'(1)]
  have held': "mset (held w') = add_mset (msg_req m) (mset (held ?w))" using e by blast
  have "mset (pool_held pool') + mset (held ?w) = mset (pool_held pool) + mset (held w')"
    using mset_concat_update [OF assms(2), of held w'] by (simp add: pool_held_def w'(2))
  then have all: "mset (pool_held pool') = add_mset (msg_req m) (mset (pool_held pool))" unfolding held' by simp
  then have "distinct (pool_held pool')"
    using assms(1,3) mset_eq_imp_distinct_iff [of "pool_held pool'" "msg_req m # pool_held pool"] by (simp add: pool_ok_def)
  moreover have "wok w s'" if "w \<in> set (?ws[i := w'])" for w
  proof -
    from that obtain j where j: "j < length ?ws" "w = ?ws[i := w'] ! j" by (auto simp: in_set_conv_nth)
    show ?thesis
    proof (cases "j = i")
      case True
      then show ?thesis using j e by simp
    next
      case False
      then have w: "w = ?ws ! j" using j by simp
      have "rec s' q = rec s q" if "q \<in> set (held w)" for q
      proof -
        have "q \<in> set (pool_held pool)" using that w j(1) by (auto simp: pool_held_def)
        then show ?thesis using e assms(3) by metis
      qed
      then show ?thesis using frame [of w s s'] assms(1) w j(1) by (simp add: pool_ok_def)
    qed
  qed
  moreover have "timely prev x" if "x \<in> set (zip (worker_wakeup_times pool') (dp_workers pool'))" for x
  proof -
    let ?t = "if ?ts ! i = no_wakeup_time then 0 else ?ts ! i"
    have "worker_wakeup_times pool' = ?ts[i := ?t]" by (simp add: w'(2))
    then have "zip (worker_wakeup_times pool') (dp_workers pool') = (zip ?ts ?ws)[i := (?t, w')]"
      by (simp add: w'(2) update_zip)
    then have "x \<in> insert (?t, w') (set (zip ?ts ?ws))" using that set_update_subset_insert by fastforce
    moreover have "timely prev (?ts ! i, ?w)" using assms(1,2) lens by (force simp: pool_ok_def set_zip)
    moreover have "held w' \<noteq> []" using held' by auto
    ultimately show ?thesis using assms(1) e
      by (cases "held ?w = []") (auto simp: pool_ok_def timely_def)
  qed
  ultimately show "pool_ok prev pool' s' \<and> mset (pool_held pool') = add_mset (msg_req m) (mset (pool_held pool))
      \<and> (\<forall>q. q \<noteq> msg_req m \<longrightarrow> rec s' q = rec s q)"
    using assms(1) all e by (simp add: pool_ok_def w'(2))
qed

lemma admit_ok:
  assumes "pool_ok prev pool s" and "msg_req m \<notin> set (pool_held pool)" and "rec s (msg_req m) = Some a" and "fresh a"
    and "length (pool_held pool) < u32_max"
  shows "(\<And>w. w \<in> set (dp_workers pool) \<Longrightarrow> room w) \<Longrightarrow> admit_msg ops pool s m \<noteq> None"
    and "admit_msg ops pool s m = Some (pool', s') \<Longrightarrow> pool_ok prev pool' s'
      \<and> mset (pool_held pool') = add_mset (msg_req m) (mset (pool_held pool)) \<and> (\<forall>q. q \<noteq> msg_req m \<longrightarrow> rec s' q = rec s q)"
proof -
  from choose_ok [OF assms(1)] obtain k i where c: "choose_worker_idx ops pool = Some (pool\<lparr>rr_next := k\<rparr>, i)"
    "i < length (dp_workers pool)" "k < length (dp_workers pool)" by blast
  have held: "pool_held (pool\<lparr>rr_next := k\<rparr>) = pool_held pool" by (simp add: pool_held_def)
  note r = route_ok [OF pool_ok_rr [OF assms(1) c(3)], unfolded held, simplified, OF c(2) assms(2-5)]
  have go: "admit_msg ops pool s m = route_msg_to ops (pool\<lparr>rr_next := k\<rparr>) s i m" by (simp add: admit_msg_def c(1))
  show "(\<And>w. w \<in> set (dp_workers pool) \<Longrightarrow> room w) \<Longrightarrow> admit_msg ops pool s m \<noteq> None"
    using r(1) c(2) unfolding go by simp
  show "admit_msg ops pool s m = Some (pool', s') \<Longrightarrow> pool_ok prev pool' s'
      \<and> mset (pool_held pool') = add_mset (msg_req m) (mset (pool_held pool)) \<and> (\<forall>q. q \<noteq> msg_req m \<longrightarrow> rec s' q = rec s q)"
    using r(2) unfolding go .
qed

end

context pool_worker
begin

text \<open>The sweep: a worker that is due runs its tick, every other one is left alone.\<close>

definition swept :: "nat \<Rightarrow> nat \<times> 'w \<Rightarrow> nat \<times> 'w \<Rightarrow> bool" where
  "swept now x y \<longleftrightarrow> (if fst x \<le> now then \<exists>s1 s2 es wake. wok (snd x) s1 \<and> op_tick ops now (snd x) s1 = Some (snd y, s2, es, wake)
     else y = x)"

definition listed :: "(nat \<times> 'w) list \<Rightarrow> nat list" where
  "listed zs = concat (map (\<lambda>x. held (snd x)) zs)"

lemma sweep_ok:
  assumes "\<And>x. x \<in> set zs \<Longrightarrow> wok (snd x) s \<and> timely prev x" and "distinct (listed zs)" and "prev \<le> now"
    and "sweep ops now zs s = Some (zs', s', es)"
  shows "(\<forall>x \<in> set zs'. wok (snd x) s' \<and> timely now x) \<and> list_all2 (swept now) zs zs'
    \<and> mset (listed zs) = mset (listed zs') + mset (map done_req es)
    \<and> (\<forall>r. r \<notin> set (listed zs) \<longrightarrow> rec s' r = rec s r) \<and> (\<forall>e \<in> set es. \<exists>a. rec s' (done_req e) = Some a \<and> finished a)"
  using assms
proof (induction zs arbitrary: s zs' s' es)
  case Nil
  then show ?case by (simp add: listed_def)
next
  case (Cons x zs)
  obtain t w where x: "x = (t, w)" by (cases x)
  have wok: "wok w s" and tm: "timely prev (t, w)" using Cons.prems(1) [of x] x by simp_all
  have dist: "distinct (listed zs)" "set (held w) \<inter> set (listed zs) = {}" using Cons.prems(2) by (simp_all add: listed_def x)
  show ?case
  proof (cases "t \<le> now")
    case False
    with Cons.prems(4) obtain zs1 es1 where r: "sweep ops now zs s = Some (zs1, s', es)" "zs' = (t, w) # zs1"
      by (auto simp: x bind_Some_iff split: prod.splits)
    note ih = Cons.IH [OF _ dist(1) Cons.prems(3) r(1)]
    have ih: "\<forall>x \<in> set zs1. wok (snd x) s' \<and> timely now x" "list_all2 (swept now) zs zs1"
      "mset (listed zs) = mset (listed zs1) + mset (map done_req es)"
      "\<forall>r. r \<notin> set (listed zs) \<longrightarrow> rec s' r = rec s r" "\<forall>e \<in> set es. \<exists>a. rec s' (done_req e) = Some a \<and> finished a"
      using ih Cons.prems(1) by (meson list.set_intros(2))+
    have "rec s' r = rec s r" if "r \<in> set (held w)" for r using ih(4) dist(2) that by blast
    then have "wok w s'" using frame [OF wok] by blast
    moreover have "timely now (t, w)" using tm Cons.prems(3) by (auto simp: timely_def)
    moreover have "swept now x (t, w)" using False by (simp add: swept_def x)
    ultimately show ?thesis using ih by (simp add: r(2) x listed_def)
  next
    case True
    with Cons.prems(4) obtain w' s1 es1 wake zs1 es2 where tick: "op_tick ops now w s = Some (w', s1, es1, wake)"
      and r: "sweep ops now zs s1 = Some (zs1, s', es2)"
      and res: "zs' = ((case wake of None \<Rightarrow> no_wakeup_time | Some t' \<Rightarrow> t'), w') # zs1" "es = es1 @ es2"
      by (auto simp: x bind_Some_iff split: prod.splits)
    from tick_law [OF wok tick] have law: "wok w' s1" "mset (held w) = mset (held w') + mset (map done_req es1)"
      "\<forall>r. r \<notin> set (held w) \<longrightarrow> rec s1 r = rec s r" "\<forall>e \<in> set es1. \<exists>a. rec s1 (done_req e) = Some a \<and> finished a"
      "wake = None \<longleftrightarrow> held w' = []" "\<forall>t. wake = Some t \<longrightarrow> t \<le> max now (due w')" by blast+
    have sub: "set (held w') \<subseteq> set (held w)" "done_req ` set es1 \<subseteq> set (held w)"
      using arg_cong [OF law(2), of set_mset] by auto
    have pre: "wok (snd y) s1 \<and> timely prev y" if "y \<in> set zs" for y
    proof -
      have "r \<notin> set (held w)" if "r \<in> set (held (snd y))" for r using dist(2) that \<open>y \<in> set zs\<close> by (force simp: listed_def)
      then have "rec s1 r = rec s r" if "r \<in> set (held (snd y))" for r using law(3) that by blast
      then show ?thesis using Cons.prems(1) [of y] frame [of "snd y" s s1] that by simp
    qed
    from Cons.IH [OF pre dist(1) Cons.prems(3) r] have ih: "\<forall>x \<in> set zs1. wok (snd x) s' \<and> timely now x"
      "list_all2 (swept now) zs zs1" "mset (listed zs) = mset (listed zs1) + mset (map done_req es2)"
      "\<forall>r. r \<notin> set (listed zs) \<longrightarrow> rec s' r = rec s1 r" "\<forall>e \<in> set es2. \<exists>a. rec s' (done_req e) = Some a \<and> finished a" by blast+
    have kept: "rec s' r = rec s1 r" if "r \<in> set (held w)" for r using ih(4) dist(2) that by blast
    then have "wok w' s'" using frame [OF law(1)] sub(1) by blast
    moreover have "timely now ((case wake of None \<Rightarrow> no_wakeup_time | Some t' \<Rightarrow> t'), w')"
      using law(5,6) by (auto simp: timely_def split: option.splits)
    moreover have "swept now x (hd zs')" using True tick wok unfolding swept_def x res(1) fst_conv snd_conv list.sel by auto
    moreover have "\<exists>a. rec s' (done_req e) = Some a \<and> finished a" if "e \<in> set es1" for e
      using law(4) kept sub(2) that by (metis image_subset_iff)
    moreover have "rec s' r = rec s r" if "r \<notin> set (held w)" "r \<notin> set (listed zs)" for r using law(3) ih(4) that by metis
    ultimately show ?thesis using ih law(2) by (auto simp: res x listed_def add_ac)
  qed
qed

lemma sweep_returns:
  assumes "\<And>x. x \<in> set zs \<Longrightarrow> wok (snd x) s" and "distinct (listed zs)"
    and "\<And>t w. (t, w) \<in> set zs \<Longrightarrow> t \<le> now \<Longrightarrow> ready now w"
  shows "sweep ops now zs s \<noteq> None"
  using assms
proof (induction zs arbitrary: s)
  case (Cons x zs)
  obtain t w where x: "x = (t, w)" by (cases x)
  have dist: "distinct (listed zs)" "set (held w) \<inter> set (listed zs) = {}" using Cons.prems(2) by (simp_all add: listed_def x)
  have ready: "(t, w) \<in> set zs \<Longrightarrow> t \<le> now \<Longrightarrow> ready now w" for t w
    using Cons.prems(3) [of t w] by simp
  show ?case
  proof (cases "t \<le> now")
    case False
    then show ?thesis using Cons.IH [OF _ dist(1) ready, of s] Cons.prems(1) by (fastforce simp: x)
  next
    case True
    have wok: "wok w s" using Cons.prems(1) [of x] x by simp
    from tick_returns [OF wok] Cons.prems(3) True x obtain w' s1 es1 wake where
      tick: "op_tick ops now w s = Some (w', s1, es1, wake)" by fastforce
    have pre: "wok (snd y) s1" if "y \<in> set zs" for y
    proof -
      have "r \<notin> set (held w)" if "r \<in> set (held (snd y))" for r using dist(2) that \<open>y \<in> set zs\<close> by (force simp: listed_def)
      then have "rec s1 r = rec s r" if "r \<in> set (held (snd y))" for r using tick_law [OF wok tick] that by blast
      then show ?thesis using Cons.prems(1) [of y] frame [of "snd y" s s1] that by simp
    qed
    from Cons.IH [OF pre dist(1) ready] obtain zs1 s2 es2 where "sweep ops now zs s1 = Some (zs1, s2, es2)" by fastforce
    then show ?thesis using tick True by (simp add: x)
  qed
qed simp

lemma listed_zip: "length ts = length ws \<Longrightarrow> listed (zip ts ws) = concat (map held ws)"
proof -
  assume "length ts = length ws"
  then have "map (\<lambda>x. held (snd x)) (zip ts ws) = map held ws" by (induction ts ws rule: list_induct2) simp_all
  then show ?thesis by (simp add: listed_def)
qed

lemma listed_snd: "listed zs = concat (map held (map snd zs))"
  by (simp add: listed_def comp_def)

lemma collect_ok:
  assumes "pool_ok prev pool s" and "prev \<le> now"
  shows "(\<And>i. i < length (dp_workers pool) \<Longrightarrow> worker_wakeup_times pool ! i \<le> now \<Longrightarrow> ready now (dp_workers pool ! i)) \<Longrightarrow>
      tick_collect ops pool now s \<noteq> None"
    and "tick_collect ops pool now s = Some (pool', s', es) \<Longrightarrow> pool_ok now pool' s'
      \<and> mset (pool_held pool) = mset (pool_held pool') + mset (map done_req es)
      \<and> (\<forall>r. r \<notin> set (pool_held pool) \<longrightarrow> rec s' r = rec s r) \<and> (\<forall>e \<in> set es. \<exists>a. rec s' (done_req e) = Some a \<and> finished a)
      \<and> list_all2 (swept now) (zip (worker_wakeup_times pool) (dp_workers pool)) (zip (worker_wakeup_times pool') (dp_workers pool'))"
proof -
  let ?zs = "zip (worker_wakeup_times pool) (dp_workers pool)"
  have lens: "length (worker_wakeup_times pool) = length (dp_workers pool)" using assms(1) by (simp add: pool_ok_def)
  have wok: "wok (snd x) s \<and> timely prev x" if "x \<in> set ?zs" for x
    using assms(1) that set_zip_rightD [of "fst x" "snd x"] by (auto simp: pool_ok_def)
  have dist: "distinct (listed ?zs)" using assms(1) by (simp add: listed_zip [OF lens] pool_ok_def pool_held_def)
  have wok1: "wok (snd x) s" if "x \<in> set ?zs" for x using wok [OF that] by simp
  have go: "tick_collect ops pool now s = do { (zs, s', events) \<leftarrow> sweep ops now ?zs s;
      Some (pool\<lparr>dp_workers := map snd zs, worker_wakeup_times := map fst zs\<rparr>, s', events) }"
    by (simp add: tick_collect_def lens assert_that_def)
  show "tick_collect ops pool now s \<noteq> None"
    if r: "\<And>i. i < length (dp_workers pool) \<Longrightarrow> worker_wakeup_times pool ! i \<le> now \<Longrightarrow> ready now (dp_workers pool ! i)"
  proof -
    have "ready now w" if "(t, w) \<in> set ?zs" "t \<le> now" for t w
      using that r by (auto simp: set_zip)
    then show ?thesis using sweep_returns [OF wok1 dist, of now] unfolding go by (auto split: prod.splits)
  qed
  assume "tick_collect ops pool now s = Some (pool', s', es)"
  then obtain zs where zs: "sweep ops now ?zs s = Some (zs, s', es)"
    "pool' = pool\<lparr>dp_workers := map snd zs, worker_wakeup_times := map fst zs\<rparr>"
    unfolding go by (auto simp: bind_Some_iff split: prod.splits)
  note k = sweep_ok [OF wok dist assms(2) zs(1)]
  have zip: "zip (worker_wakeup_times pool') (dp_workers pool') = zs" by (simp add: zs(2) zip_map_fst_snd)
  have held: "listed ?zs = pool_held pool" "listed zs = pool_held pool'"
    by (simp_all only: listed_zip [OF lens] pool_held_def) (simp add: listed_snd zs(2))
  have "length zs = length (dp_workers pool)" using k list_all2_lengthD lens by fastforce
  moreover have "distinct (pool_held pool')"
    using k dist mset_eq_imp_distinct_iff [of "listed ?zs" "listed zs @ map done_req es"] unfolding held by simp
  ultimately have "pool_ok now pool' s'" using k assms(1) zip by (auto simp: pool_ok_def zs(2))
  then show "pool_ok now pool' s' \<and> mset (pool_held pool) = mset (pool_held pool') + mset (map done_req es)
      \<and> (\<forall>r. r \<notin> set (pool_held pool) \<longrightarrow> rec s' r = rec s r) \<and> (\<forall>e \<in> set es. \<exists>a. rec s' (done_req e) = Some a \<and> finished a)
      \<and> list_all2 (swept now) (zip (worker_wakeup_times pool) (dp_workers pool)) (zip (worker_wakeup_times pool') (dp_workers pool'))"
    using k unfolding held zip by blast
qed

end

end
