(* ===== verification/Dp_Flow.thy ===== *)
theory Dp_Flow
  imports Dp_Pool
begin

section \<open>The pool of whole-iteration workers\<close>

text \<open>
  The whole-iteration worker satisfies the contract of \<open>pool_worker\<close>. Over any run of the flow, with arrivals and
  ticks in any order, every request is at exactly one worker until it completes there, and no worker that has
  work is ever forgotten.
\<close>

subsection \<open>The worker as a pool worker\<close>

definition worker_due :: "IterWorker \<Rightarrow> nat" where
  "worker_due iw = (case worker_state (iw_fsm iw) of WIdle \<Rightarrow> 0 | WActive \<Rightarrow> compute_end (iw_fsm iw))"

text \<open>When an iteration ends the next decode step fits every partition; the worker's counters and the clock have room.\<close>

definition worker_ready :: "cost_model \<Rightarrow> nat \<Rightarrow> nat \<Rightarrow> IterWorker \<Rightarrow> bool" where
  "worker_ready cost n now iw \<longleftrightarrow> (worker_state (iw_fsm iw) = WActive \<longrightarrow> compute_end (iw_fsm iw) \<le> now \<longrightarrow> steps_fit n iw)
     \<and> counts_fit n iw \<and> cost_fits cost now"

definition worker_room :: "IterWorker \<Rightarrow> bool" where
  "worker_room iw \<longleftrightarrow> la_next_sequence (iw_admission iw) < u64_max"

definition done_record :: "'d ActiveRequest \<Rightarrow> bool" where
  "done_record a \<longleftrightarrow> emitted a = max 1 (target a) \<and> lc_completed (ar_lifecycle a) \<and> lc_admitted (ar_lifecycle a)"

lemma worker_frame:
  assumes "worker_ok n iw rs" and "\<And>r. r \<in> set (holds iw) \<Longrightarrow> get_record rs' r = get_record rs r"
  shows "worker_ok n iw rs'"
  using assms holds_cong [of n "iw_admission iw" "iw_kv iw" rs rs'] by (simp add: worker_ok_def holds_def)

lemma worker_status_returns:
  assumes "worker_ok n iw rs"
  shows "worker_status iw \<noteq> None"
proof -
  note l = local_okD [OF worker_okD [OF assms]]
  have "status_active (iw_kv iw) p = Some (live_decode_count (ks_partitions (iw_kv iw) ! p)
      + as_u32 (length (prefill_admits (ks_partitions (iw_kv iw) ! p))))" if "p < n" for p
  proof -
    have p: "p < num_partitions (iw_kv iw)" using that l(2) by simp
    have "reserved_count (ks_ledger (iw_kv iw)) p = 0" using l(9,10) by (simp add: reserved_count_def alist_sum_def)
    then show ?thesis using l(9,10) by (simp add: status_active_def store_okD [OF l(1) p] has_chunked_prefill_def checked_sub_def as_u32_def)
  qed
  then have "those (map (status_active (iw_kv iw)) [0..<n]) = Some (map (\<lambda>p. live_decode_count (ks_partitions (iw_kv iw) ! p)
      + as_u32 (length (prefill_admits (ks_partitions (iw_kv iw) ! p)))) [0..<n])" by (intro those_map_Some) simp
  then show ?thesis using l(2,4) by (simp add: worker_status_def as_u16_def)
qed

lemma worker_enqueue_ok:
  assumes "worker_ok n iw rs" and "r \<notin> set (holds iw)" and "get_record rs r = Some a" and "newcomer a"
    and "length (holds iw) < u32_max"
  shows "worker_room iw \<Longrightarrow> worker_enqueue iw rs r \<noteq> None"
    and "worker_enqueue iw rs r = Some (iw', rs') \<Longrightarrow> worker_ok n iw' rs' \<and> mset (holds iw') = add_mset r (mset (holds iw))
      \<and> iw_fsm iw' = iw_fsm iw \<and> (\<forall>q. q \<noteq> r \<longrightarrow> get_record rs' q = get_record rs q)"
    and "worker_enqueue iw rs r = Some (iw', rs') \<Longrightarrow> iw_kv iw' = iw_kv iw \<and> (\<forall>c \<in> set (waiting (iw_admission iw')). c \<in> set (waiting (iw_admission iw))
      \<or> ac_fresh_prompt c = prompt_tokens (definition_of a) \<and> ac_session c = td_session (definition_of a))"
proof -
  have away: "r \<notin> set (map ac_request (waiting (iw_admission iw)) @ prefilling (iw_kv iw) @ decoding (iw_kv iw))"
    using assms(2) arg_cong [OF mset_residents [of "iw_kv iw"], of set_mset] by (auto simp: holds_def)
  have len: "length (waiting (iw_admission iw)) < u32_max" using assms(5) by (simp add: holds_def)
  note acc = local_accept_ok [OF worker_okD [OF assms(1)] assms(3,4) away _ len, where w = "iw_context iw"]
  show "worker_room iw \<Longrightarrow> worker_enqueue iw rs r \<noteq> None"
    using acc by (auto simp: worker_room_def worker_enqueue_def)
  assume "worker_enqueue iw rs r = Some (iw', rs')"
  then obtain la' where la': "local_accept_message (iw_context iw) (iw_admission iw) (iw_kv iw) rs r = Some (la', rs')"
    "iw' = iw\<lparr>iw_admission := la'\<rparr>" by (auto simp: worker_enqueue_def bind_Some_iff)
  have seq: "la_next_sequence (iw_admission iw) < u64_max"
    using la'(1) by (auto simp: local_accept_message_def freeze_candidate_def checked_add_u64_def bind_Some_iff Let_def split: if_splits)
  from acc [OF seq] la'(1) obtain k where f: "local_ok n la' (iw_kv iw) rs'"
    "mset (waiting la') = add_mset (candidate_of a r (la_next_sequence (iw_admission iw)) k) (mset (waiting (iw_admission iw)))"
    "\<forall>q. q \<noteq> r \<longrightarrow> get_record rs' q = get_record rs q" by auto
  have "mset (holds iw') = add_mset r (mset (holds iw))"
    using arg_cong [OF f(2), of "image_mset ac_request"] la'(2) by (simp add: holds_def candidate_of_def)
  moreover have "worker_ok n iw' rs'"
    using assms(1) f(1) unfolding worker_ok_def la'(2) by (cases "worker_state (iw_fsm iw)") simp_all
  ultimately show "worker_ok n iw' rs' \<and> mset (holds iw') = add_mset r (mset (holds iw))
      \<and> iw_fsm iw' = iw_fsm iw \<and> (\<forall>q. q \<noteq> r \<longrightarrow> get_record rs' q = get_record rs q)"
    using f(3) la'(2) by simp
  show "iw_kv iw' = iw_kv iw \<and> (\<forall>c \<in> set (waiting (iw_admission iw')). c \<in> set (waiting (iw_admission iw))
      \<or> ac_fresh_prompt c = prompt_tokens (definition_of a) \<and> ac_session c = td_session (definition_of a))"
    using arg_cong [OF f(2), of set_mset] la'(2) by (auto simp: candidate_of_def)
qed

lemma wakeup_due: "worker_ok n iw rs \<Longrightarrow> next_wakeup now iw = Some (Some t) \<Longrightarrow> t \<le> max now (worker_due iw)"
  by (auto simp: next_wakeup_def worker_ok_def worker_due_def bind_Some_iff split: WorkerFsmState.splits if_splits)

lemma worker_tick_law:
  assumes "worker_ok n iw rs" and "worker_tick cost now iw rs = Some (iw', rs', es, wake)"
  shows "worker_ok n iw' rs' \<and> mset (holds iw) = mset (holds iw') + mset (map snd es)
    \<and> (\<forall>r. r \<notin> set (holds iw) \<longrightarrow> get_record rs' r = get_record rs r)
    \<and> (\<forall>e \<in> set es. \<exists>a. get_record rs' (snd e) = Some a \<and> done_record a)
    \<and> (wake = None \<longleftrightarrow> holds iw' = []) \<and> (\<forall>t. wake = Some t \<longrightarrow> t \<le> max now (worker_due iw'))"
proof -
  have t: "ticked n now iw rs (iw', rs', es, wake)" by (rule tick_did [OF assms])
  have "next_wakeup now iw' = Some wake" using assms(2) by (auto simp: worker_tick_def bind_Some_iff split: prod.splits)
  moreover have "worker_ok n iw' rs'" using t by (simp add: ticked_def)
  ultimately have "\<forall>t. wake = Some t \<longrightarrow> t \<le> max now (worker_due iw')" using wakeup_due by blast
  then show ?thesis using t by (fastforce simp: ticked_def done_record_def)
qed

interpretation iter_pool: pool_worker "iter_worker_ops cost" "worker_ok n" holds worker_due "worker_ready cost n" worker_room id snd
    get_record newcomer done_record for cost n
proof unfold_locales
  fix w :: IterWorker and s :: "'d RequestStore"
  assume ok: "worker_ok n w s"
  show "distinct (holds w)" by (rule holds_distinct [OF ok])
  show "op_status (iter_worker_ops cost) w \<noteq> None" using worker_status_returns [OF ok] by (simp add: iter_worker_ops_def)
  show "worker_ok n w s'" if "\<And>r. r \<in> set (holds w) \<Longrightarrow> get_record s' r = get_record s r" for s' :: "'d RequestStore"
    by (rule worker_frame [OF ok that])
  show "op_tick (iter_worker_ops cost) now w s \<noteq> None" if "worker_ready cost n now w" for now
    using tick_ok [OF ok, where now = now and cost = cost] that by (auto simp: iter_worker_ops_def worker_ready_def)
  show "worker_ok n w' s' \<and> mset (holds w) = mset (holds w') + mset (map snd es)
      \<and> (\<forall>r. r \<notin> set (holds w) \<longrightarrow> get_record s' r = get_record s r)
      \<and> (\<forall>e \<in> set es. \<exists>a. get_record s' (snd e) = Some a \<and> done_record a)
      \<and> (wake = None \<longleftrightarrow> holds w' = []) \<and> (\<forall>t. wake = Some t \<longrightarrow> t \<le> max now (worker_due w'))"
    if "op_tick (iter_worker_ops cost) now w s = Some (w', s', es, wake)" for now w' s' es wake
    using worker_tick_law [OF ok] that by (simp add: iter_worker_ops_def)
  fix m :: nat and a :: "'d ActiveRequest"
  assume m: "id m \<notin> set (holds w)" "get_record s (id m) = Some a" "newcomer a" "length (holds w) < u32_max"
  show "op_enqueue (iter_worker_ops cost) w s m \<noteq> None" if "worker_room w"
    using worker_enqueue_ok(1) [OF ok, of m] m that by (simp add: iter_worker_ops_def)
  show "worker_ok n w' s' \<and> mset (holds w') = add_mset (id m) (mset (holds w)) \<and> worker_due w' = worker_due w
      \<and> (\<forall>q. q \<noteq> id m \<longrightarrow> get_record s' q = get_record s q)"
    if "op_enqueue (iter_worker_ops cost) w s m = Some (w', s')" for w' s'
  proof -
    have "worker_enqueue w s m = Some (w', s')" using that by (simp add: iter_worker_ops_def)
    from worker_enqueue_ok(2) [OF ok m(1) [unfolded id_apply] m(2) [unfolded id_apply] m(3,4) this]
    show ?thesis by (simp add: worker_due_def split: WorkerFsmState.split)
  qed
qed

lemma held_recorded:
  assumes "worker_ok n iw rs" and "r \<in> set (holds iw)"
  shows "get_record rs r \<noteq> None"
proof -
  note l = local_okD [OF worker_okD [OF assms(1)]]
  have "r \<in> ac_request ` set (waiting (iw_admission iw)) \<or> r \<in> set (prefilling (iw_kv iw)) \<or> r \<in> set (decoding (iw_kv iw))"
    using assms(2) arg_cong [OF mset_residents [of "iw_kv iw"], of set_mset] by (auto simp: holds_def)
  then show ?thesis
    using l(11) l(13) l(14) by (auto simp: cand_ok_def decode_tracks_def decoding_def) fastforce+
qed

lemma op_tick_iter: "op_tick (iter_worker_ops cost) = worker_tick cost"
  by (simp add: iter_worker_ops_def)

subsection \<open>Runs of the flow\<close>

text \<open>
  A run from a fresh pool: requests arrive in the shared store and are placed, and the pool ticks at times that never
  decrease. \<open>accepted\<close> and \<open>completed\<close> are the requests so far, \<open>prev\<close> the time of the last tick.
\<close>

inductive flow_run :: "cost_model \<Rightarrow> nat \<Rightarrow> nat list \<Rightarrow> IterWorker DpPool \<Rightarrow> 'd RequestStore \<Rightarrow> nat list \<Rightarrow> nat \<Rightarrow> bool"
  for cost n where
  started: "new_dp_pool build pid size_n policy = Some pool \<Longrightarrow> size_n \<le> u32_max \<Longrightarrow> requests_ok rs \<Longrightarrow> arrived_ids rs = [] \<Longrightarrow>
    (\<And>i. i < size_n \<Longrightarrow> worker_ok n (build i) rs \<and> holds (build i) = []) \<Longrightarrow> flow_run cost n [] pool rs [] 0"
| arrival: "flow_run cost n accepted pool rs completed prev \<Longrightarrow> newcomer (from_request q) \<Longrightarrow> length accepted < u32_max \<Longrightarrow>
    flow_on_arrival (iter_worker_ops cost) pool rs q = Some (pool', rs') \<Longrightarrow>
    flow_run cost n (accepted @ [rc_id (rq_core q)]) pool' rs' completed prev"
| tick: "flow_run cost n accepted pool rs completed prev \<Longrightarrow> prev \<le> now \<Longrightarrow>
    flow_tick (iter_worker_ops cost) pool now rs = Some (pool', rs', finished) \<Longrightarrow>
    flow_run cost n accepted pool' rs' (completed @ finished) now"

abbreviation held_by :: "IterWorker DpPool \<Rightarrow> nat list" where
  "held_by pool \<equiv> concat (map holds (dp_workers pool))"

definition flow_ok :: "nat \<Rightarrow> nat list \<Rightarrow> IterWorker DpPool \<Rightarrow> 'd RequestStore \<Rightarrow> nat list \<Rightarrow> nat \<Rightarrow> bool" where
  "flow_ok n accepted pool rs completed prev \<longleftrightarrow> iter_pool.pool_ok n prev pool rs \<and> distinct accepted
     \<and> mset accepted = mset (held_by pool) + mset completed \<and> (\<forall>r. get_record rs r \<noteq> None \<longleftrightarrow> r \<in> set accepted)
     \<and> (\<forall>r \<in> set completed. \<exists>a. get_record rs r = Some a \<and> done_record a)"

lemma insert_request_get:
  assumes "insert_request rs q = Some rs'"
  shows "get_record rs (rc_id (rq_core q)) = None"
    and "get_record rs' r = (if r = rc_id (rq_core q) then Some (from_request q) else get_record rs r)"
  using assms by (auto simp: insert_request_def get_record_def nth_opt_def Let_def bind_Some_iff nth_append split: if_splits)

lemma iter_pool_held: "iter_pool.pool_held pool = held_by pool"
  by (simp add: iter_pool.pool_held_def)

lemma flow_ok_parts:
  assumes "flow_ok n accepted pool rs completed prev"
  shows "set (held_by pool) \<subseteq> set accepted" and "set completed \<subseteq> set accepted" and "length (held_by pool) \<le> length accepted"
    and "set (held_by pool) \<inter> set completed = {}"
proof -
  have same: "mset accepted = mset (held_by pool @ completed)" using assms by (simp add: flow_ok_def)
  show "set (held_by pool) \<subseteq> set accepted" "set completed \<subseteq> set accepted" using mset_eq_setD [OF same] by auto
  show "length (held_by pool) \<le> length accepted" using mset_eq_length [OF same] by simp
  have "distinct (held_by pool @ completed)" using assms mset_eq_imp_distinct_iff [OF same] by (simp add: flow_ok_def)
  then show "set (held_by pool) \<inter> set completed = {}" by simp
qed

lemma pool_ok_inserted:
  assumes "iter_pool.pool_ok n prev pool rs" and "insert_request rs q = Some rs'" and "rc_id (rq_core q) \<notin> set (held_by pool)"
  shows "iter_pool.pool_ok n prev pool rs'"
proof -
  have "worker_ok n w rs'" if "w \<in> set (dp_workers pool)" for w
  proof -
    have "get_record rs' x = get_record rs x" if "x \<in> set (holds w)" for x
      using assms(3) that \<open>w \<in> set (dp_workers pool)\<close> by (auto simp: insert_request_get(2) [OF assms(2)])
    moreover have "worker_ok n w rs" using assms(1) that by (simp add: iter_pool.pool_ok_def)
    ultimately show ?thesis using worker_frame by blast
  qed
  then show ?thesis using assms(1) by (simp add: iter_pool.pool_ok_def)
qed

lemma flow_run_ok: "flow_run cost n accepted pool rs completed prev \<Longrightarrow> flow_ok n accepted pool rs completed prev"
proof (induction rule: flow_run.induct)
  case (started build pid size_n policy pool rs)
  have pool: "0 < size_n" "pool = \<lparr>dp_pool_id = pid, dp_workers = map build [0..<size_n],
      worker_wakeup_times = replicate size_n no_wakeup_time, dp_placement = policy, rr_next = 0\<rparr>"
    using started(1) by (auto simp: new_dp_pool_def assert_that_def split: if_splits)
  have idle: "holds (build i) = []" "worker_ok n (build i) rs" if "i < size_n" for i using started(5) [OF that] by simp_all
  then have none: "held_by pool = []" by (simp add: pool(2))
  have "iter_pool.timely 0 x" if "x \<in> set (zip (worker_wakeup_times pool) (dp_workers pool))" for x
    using that idle(1) by (auto simp: pool(2) set_zip iter_pool.timely_def)
  then have "iter_pool.pool_ok n 0 pool rs"
    using pool(1) idle(2) unfolding iter_pool.pool_ok_def iter_pool_held none by (auto simp: pool(2))
  moreover have "get_record rs r = None" for r using started(3,4) by (simp add: requests_ok_def)
  ultimately show ?case using none by (simp add: flow_ok_def)
next
  case (arrival accepted pool rs completed prev q pool' rs')
  let ?r = "rc_id (rq_core q)"
  note ok = arrival.IH [unfolded flow_ok_def]
  from arrival.hyps(4) obtain rs1 where ins: "insert_request rs q = Some rs1"
    and adm: "admit_msg (iter_worker_ops cost) pool rs1 ?r = Some (pool', rs')" by (auto simp: flow_on_arrival_def bind_Some_iff)
  note get = insert_request_get [OF ins]
  have new: "?r \<notin> set accepted" using ok get(1) by metis
  then have away: "?r \<notin> set (held_by pool)" using flow_ok_parts(1) [OF arrival.IH] by blast
  have small: "length (held_by pool) < u32_max" using flow_ok_parts(3) [OF arrival.IH] arrival.hyps(3) by simp
  have "iter_pool.pool_ok n prev pool rs1" using pool_ok_inserted [OF _ ins away] ok by blast
  from iter_pool.admit_ok(2) [OF this, of ?r "from_request q" cost pool' rs', unfolded iter_pool_held] away small arrival.hyps(2) adm
  have law: "iter_pool.pool_ok n prev pool' rs'" "mset (held_by pool') = add_mset ?r (mset (held_by pool))"
    "\<forall>x. x \<noteq> ?r \<longrightarrow> get_record rs' x = get_record rs1 x" by (simp_all add: get(2))
  have same: "get_record rs' x = get_record rs x" if "x \<noteq> ?r" for x using law(3) get(2) that by simp
  have "?r \<in> set (held_by pool')" using arg_cong [OF law(2), of set_mset] by auto
  then obtain w where w: "w \<in> set (dp_workers pool')" "?r \<in> set (holds w)" by auto
  have there: "get_record rs' ?r \<noteq> None"
  proof -
    have "worker_ok n w rs'" using law(1) w(1) by (simp add: iter_pool.pool_ok_def)
    then show ?thesis using w(2) by (rule held_recorded)
  qed
  have "?r \<notin> set completed" using new flow_ok_parts(2) [OF arrival.IH] by blast
  then have "\<exists>a. get_record rs' x = Some a \<and> done_record a" if "x \<in> set completed" for x
    using ok same [of x] that by metis
  moreover have "get_record rs' x \<noteq> None \<longleftrightarrow> x \<in> set (accepted @ [?r])" for x
    using ok same [of x] there by (cases "x = ?r") auto
  ultimately show ?case using ok law(1,2) new by (simp add: flow_ok_def)
next
  case (tick accepted pool rs completed prev now pool' rs' finished)
  note ok = tick.IH [unfolded flow_ok_def]
  from tick.hyps(3) obtain es where col: "tick_collect (iter_worker_ops cost) pool now rs = Some (pool', rs', es)" "finished = map snd es"
    by (auto simp: flow_tick_def bind_Some_iff)
  from iter_pool.collect_ok(2) [OF conjunct1 [OF ok] tick.hyps(2) col(1), unfolded iter_pool_held]
  have law: "iter_pool.pool_ok n now pool' rs'" "mset (held_by pool) = mset (held_by pool') + mset finished"
    "\<forall>r. r \<notin> set (held_by pool) \<longrightarrow> get_record rs' r = get_record rs r" "\<forall>r \<in> set finished. \<exists>a. get_record rs' r = Some a \<and> done_record a"
    by (auto simp: col(2))
  have "get_record rs' r \<noteq> None \<longleftrightarrow> r \<in> set accepted" for r
  proof (cases "r \<in> set (held_by pool)")
    case True
    then have "r \<in># mset (held_by pool') + mset finished" unfolding law(2) [symmetric] by simp
    then have "r \<in> set (held_by pool') \<or> r \<in> set finished" by auto
    then have "get_record rs' r \<noteq> None"
    proof
      assume "r \<in> set (held_by pool')"
      then obtain w where "w \<in> set (dp_workers pool')" "r \<in> set (holds w)" by auto
      then show ?thesis using held_recorded [of n w rs' r] law(1) by (simp add: iter_pool.pool_ok_def)
    next
      assume "r \<in> set finished"
      then show ?thesis using law(4) by auto
    qed
    then show ?thesis using True flow_ok_parts(1) [OF tick.IH] by blast
  next
    case False
    then show ?thesis using law(3) ok by simp
  qed
  moreover have "\<exists>a. get_record rs' r = Some a \<and> done_record a" if "r \<in> set (completed @ finished)" for r
  proof (cases "r \<in> set finished")
    case False
    then have "r \<in> set completed" using that by simp
    then show ?thesis using ok law(3) flow_ok_parts(4) [OF tick.IH] by (metis disjoint_iff)
  qed (use law(4) in blast)
  ultimately show ?case using ok law(1,2) by (simp add: flow_ok_def add_ac)
qed

lemma flow_tick_swept:
  fixes rs :: "'d RequestStore"
  assumes "flow_run cost n accepted pool rs completed prev" and "prev \<le> now"
    and "flow_tick (iter_worker_ops cost) pool now rs = Some (pool', rs', fin)" and "i < length (dp_workers pool)"
  shows "iter_pool.timely prev (worker_wakeup_times pool ! i, dp_workers pool ! i)"
    and "iter_pool.swept TYPE('d) cost n now (worker_wakeup_times pool ! i, dp_workers pool ! i)
      (worker_wakeup_times pool' ! i, dp_workers pool' ! i)"
proof -
  have ok: "iter_pool.pool_ok n prev pool rs" using flow_run_ok [OF assms(1)] by (simp add: flow_ok_def)
  from assms(3) obtain es where "tick_collect (iter_worker_ops cost) pool now rs = Some (pool', rs', es)"
    by (auto simp: flow_tick_def bind_Some_iff)
  from iter_pool.collect_ok(2) [OF ok assms(2) this] have ok': "iter_pool.pool_ok n now pool' rs'"
    and sw: "list_all2 (iter_pool.swept TYPE('d) cost n now) (zip (worker_wakeup_times pool) (dp_workers pool))
      (zip (worker_wakeup_times pool') (dp_workers pool'))" by blast+
  have lens: "length (worker_wakeup_times pool) = length (dp_workers pool)"
    "length (worker_wakeup_times pool') = length (dp_workers pool')" using ok ok' by (simp_all add: iter_pool.pool_ok_def)
  then have "(worker_wakeup_times pool ! i, dp_workers pool ! i) \<in> set (zip (worker_wakeup_times pool) (dp_workers pool))"
    using assms(4) by (auto simp: set_zip)
  then show "iter_pool.timely prev (worker_wakeup_times pool ! i, dp_workers pool ! i)"
    using ok by (simp add: iter_pool.pool_ok_def)
  have "length (dp_workers pool') = length (dp_workers pool)" using list_all2_lengthD [OF sw] lens by simp
  then show "iter_pool.swept TYPE('d) cost n now (worker_wakeup_times pool ! i, dp_workers pool ! i)
      (worker_wakeup_times pool' ! i, dp_workers pool' ! i)"
    using list_all2_nthD [OF sw, of i] assms(4) lens by simp
qed

subsection \<open>Properties\<close>

text \<open>C5: Over any run of a pool, requests arriving and the pool ticking in any order: every worker stays consistent, and
  every request accepted is at exactly one worker or completed, exactly once; a completed request is marked so and
  has emitted exactly its output, one token at least.\<close>

theorem flow_conserves:
  assumes "flow_run cost n accepted pool rs completed prev"
  shows "(\<forall>w \<in> set (dp_workers pool). worker_ok n w rs) \<and> mset accepted = mset (held_by pool) + mset completed
    \<and> distinct (held_by pool @ completed)
    \<and> (\<forall>r \<in> set completed. \<exists>a. get_record rs r = Some a \<and> emitted a = max 1 (target a) \<and> lc_completed (ar_lifecycle a) \<and> lc_admitted (ar_lifecycle a))"
proof -
  have ok: "flow_ok n accepted pool rs completed prev" by (rule flow_run_ok [OF assms])
  then have "distinct (held_by pool @ completed)"
    using mset_eq_imp_distinct_iff [of accepted "held_by pool @ completed"] by (simp add: flow_ok_def)
  then show ?thesis using ok by (simp add: flow_ok_def iter_pool.pool_ok_def done_record_def)
qed

text \<open>C6: No wake-up is lost: a tick of the pool runs the tick of every worker that holds a request and whose iteration
  is not still computing, and leaves a worker that holds nothing untouched.\<close>

theorem no_worker_forgotten:
  fixes rs :: "'d RequestStore"
  assumes "flow_run cost n accepted pool rs completed prev" and "prev \<le> now"
    and "flow_tick (iter_worker_ops cost) pool now rs = Some (pool', rs', fin)" and "i < length (dp_workers pool)"
  shows "if holds (dp_workers pool ! i) = [] then now < u64_max \<longrightarrow> dp_workers pool' ! i = dp_workers pool ! i
    else worker_due (dp_workers pool ! i) \<le> now \<longrightarrow> (\<exists>(rs1 :: 'd RequestStore) rs2 es wake. worker_ok n (dp_workers pool ! i) rs1
      \<and> worker_tick cost now (dp_workers pool ! i) rs1 = Some (dp_workers pool' ! i, rs2, es, wake))"
proof (cases "holds (dp_workers pool ! i) = []")
  case True
  then show ?thesis using flow_tick_swept [OF assms] by (auto simp: iter_pool.swept_def iter_pool.timely_def no_wakeup_time_def)
next
  case False
  have "worker_wakeup_times pool ! i \<le> now" if "worker_due (dp_workers pool ! i) \<le> now"
    using flow_tick_swept(1) [OF assms] False that assms(2) by (simp add: iter_pool.timely_def)
  then show ?thesis using flow_tick_swept(2) [OF assms] False by (auto simp: iter_pool.swept_def op_tick_iter)
qed

text \<open>The flow never panics: a tick of the pool returns whenever the next decode step fits at the workers whose
  iteration ends and the counters of every worker and the clock have room, and the arrival of a request with a new id is accepted as long as every worker has a sequence number left.\<close>

theorem flow_returns:
  assumes "flow_run cost n accepted pool rs completed prev"
  shows "(prev \<le> now \<longrightarrow> (\<forall>w \<in> set (dp_workers pool). worker_ready cost n now w) \<longrightarrow>
      flow_tick (iter_worker_ops cost) pool now rs \<noteq> None)
    \<and> (insert_request rs q \<noteq> None \<longrightarrow> newcomer (from_request q) \<longrightarrow> length accepted < u32_max \<longrightarrow>
      (\<forall>w \<in> set (dp_workers pool). worker_room w) \<longrightarrow> flow_on_arrival (iter_worker_ops cost) pool rs q \<noteq> None)"
proof (intro conjI impI)
  have fok: "flow_ok n accepted pool rs completed prev" by (rule flow_run_ok [OF assms])
  then have ok: "iter_pool.pool_ok n prev pool rs" by (simp add: flow_ok_def)
  show "flow_tick (iter_worker_ops cost) pool now rs \<noteq> None"
    if "prev \<le> now" and "\<forall>w \<in> set (dp_workers pool). worker_ready cost n now w"
    using iter_pool.collect_ok(1) [OF ok that(1), of cost] that(2) by (fastforce simp: flow_tick_def)
  assume new: "newcomer (from_request q)" "length accepted < u32_max" "\<forall>w \<in> set (dp_workers pool). worker_room w"
    and "insert_request rs q \<noteq> None"
  then obtain rs1 where ins: "insert_request rs q = Some rs1" by blast
  note get = insert_request_get [OF ins]
  have "rc_id (rq_core q) \<notin> set accepted" using fok get(1) unfolding flow_ok_def by metis
  then have away: "rc_id (rq_core q) \<notin> set (held_by pool)" using flow_ok_parts(1) [OF fok] by blast
  have small: "length (held_by pool) < u32_max" using flow_ok_parts(3) [OF fok] new(2) by simp
  have "iter_pool.pool_ok n prev pool rs1" by (rule pool_ok_inserted [OF ok ins away])
  from iter_pool.admit_ok(1) [OF this, of "rc_id (rq_core q)" "from_request q" cost, unfolded iter_pool_held] away small new(1,3)
  show "flow_on_arrival (iter_worker_ops cost) pool rs q \<noteq> None" by (simp add: flow_on_arrival_def ins get(2))
qed

subsection \<open>A pool of one worker\<close>

definition sample_pool :: "IterWorker DpPool" where
  "sample_pool = \<lparr>dp_pool_id = 0, dp_workers = [sample_worker sample_store], worker_wakeup_times = [no_wakeup_time],
     dp_placement = LeastQueued, rr_next = 0\<rparr>"

lemma empty_store_get: "get_record new_request_store r = None"
  by (simp add: get_record_def new_request_store_def nth_opt_def)

lemma sample_store_next: "kv_next sample_store 0 \<le> 9"
  using sample_empty(1,2) sample_store(2) by (simp add: kv_next_def kv_at_def prefilling_def decoding_def num_partitions_def)

lemma sample_worker_facts:
  "worker_ok 1 (sample_worker sample_store) (rs :: unit RequestStore)" "holds (sample_worker sample_store) = []"
  "worker_room (sample_worker sample_store)" "now \<le> 20 \<Longrightarrow> worker_ready sample_cost 1 now (sample_worker sample_store)"
proof -
  have none: "residents sample_store = []" using mset_residents [of sample_store] sample_empty by simp
  have "counts_fit 1 (sample_worker sample_store)"
    using sample_counts(1) [OF sample_store_next, of sample_admission] none sample_admission_facts(3)
    by (simp add: sample_worker_def from_components_def)
  then show "worker_ok 1 (sample_worker sample_store) rs" "holds (sample_worker sample_store) = []"
    "worker_room (sample_worker sample_store)" "now \<le> 20 \<Longrightarrow> worker_ready sample_cost 1 now (sample_worker sample_store)"
    using sample_idle(1,2) [OF sample_local_ok [of rs] sample_empty(1)] sample_admission_facts none sample_counts(2) [OF sample_store_next, of sample_admission now]
    by (simp_all add: holds_def sample_worker_def from_components_def worker_room_def worker_ready_def new_fsm_def u64_max_def)
qed

lemma sample_flow_started: "flow_run sample_cost 1 [] sample_pool (new_request_store :: unit RequestStore) [] 0"
proof (rule flow_run.started)
  show "new_dp_pool (\<lambda>_. sample_worker sample_store) 0 1 LeastQueued = Some sample_pool"
    by (simp add: new_dp_pool_def assert_that_def sample_pool_def)
  show "requests_ok (new_request_store :: unit RequestStore)" by (rule requests_reachable_ok [OF requests_reachable.created])
qed (simp_all add: u32_max_def new_request_store_def sample_worker_facts(1,2) [unfolded One_nat_def])

text \<open>One request arrives at the pool.\<close>

lemma sample_flow_arrival:
  obtains pool and rs :: "unit RequestStore" where
    "flow_on_arrival (iter_worker_ops sample_cost) sample_pool new_request_store (sample_request 0) = Some (pool, rs)"
    "flow_run sample_cost 1 [0] pool rs [] 0" "length (dp_workers pool) = 1" "holds (dp_workers pool ! 0) = [0]"
    "worker_due (dp_workers pool ! 0) = 0" "worker_ready sample_cost 1 7 (dp_workers pool ! 0)"
proof -
  have ok: "iter_pool.pool_ok 1 0 sample_pool (new_request_store :: unit RequestStore)"
    using flow_run_ok [OF sample_flow_started] by (simp add: flow_ok_def)
  have id: "rc_id (rq_core (sample_request 0)) = 0" by (simp add: sample_request_def)
  then obtain rs1 where ins: "insert_request new_request_store (sample_request 0) = Some rs1"
    by (simp add: insert_request_def new_request_store_def)
  have held: "held_by sample_pool = []" by (simp add: sample_pool_def sample_worker_facts(2))
  have ok1: "iter_pool.pool_ok 1 0 sample_pool rs1" by (rule pool_ok_inserted [OF ok ins]) (simp add: held)
  have room: "w \<in> set (dp_workers sample_pool) \<Longrightarrow> worker_room w" for w using sample_worker_facts(3) by (simp add: sample_pool_def)
  from iter_pool.admit_ok(1) [OF ok1, of 0 "from_request (sample_request 0)" sample_cost, unfolded iter_pool_held] held room
  have "admit_msg (iter_worker_ops sample_cost) sample_pool rs1 0 \<noteq> None"
    using insert_request_get(2) [OF ins] sample_newcomer(2) by (simp add: id u32_max_def)
  then obtain pool rs where adm: "admit_msg (iter_worker_ops sample_cost) sample_pool rs1 0 = Some (pool, rs)" by auto
  then have go: "flow_on_arrival (iter_worker_ops sample_cost) sample_pool new_request_store (sample_request 0) = Some (pool, rs)"
    by (simp add: flow_on_arrival_def ins id)
  have run: "flow_run sample_cost 1 [0] pool rs [] 0"
    using flow_run.arrival [OF sample_flow_started sample_newcomer(2) _ go] id by (simp add: u32_max_def)
  from adm obtain w where w: "dp_workers pool = [w]" "worker_enqueue (sample_worker sample_store) rs1 0 = Some (w, rs)"
    by (auto simp: admit_msg_def route_msg_to_def sample_pool_def choose_worker_idx_def choose_least_queued_idx_def
        bind_Some_iff nth_opt_def iter_worker_ops_def split: if_splits prod.splits)
  from worker_enqueue_ok(2,3) [OF sample_worker_facts(1) _ _ sample_newcomer(2) _ w(2)] have
    e: "mset (holds w) = add_mset 0 {#}" "iw_fsm w = iw_fsm (sample_worker sample_store)"
    and kv: "iw_kv w = sample_store" "\<forall>c \<in> set (waiting (iw_admission w)). ac_fresh_prompt c = 8 \<and> ac_session c = Standalone"
    using insert_request_get(2) [OF ins] sample_admission_facts(3) sample_worker_facts(2)
    by (simp_all add: id u32_max_def sample_worker_def from_components_def) (auto simp: from_request_def sample_request_def)
  have none: "residents sample_store = []" using mset_residents [of sample_store] sample_empty by simp
  have "counts_fit 1 w" using sample_counts(1) [OF sample_store_next kv(2)] none kv(1) e(2)
    by (simp add: counts_fit_def queue_fits_def sample_worker_def from_components_def)
  moreover have "holds w = [0]" using e(1) by (simp add: mset_single_iff)
  ultimately show ?thesis using that [OF go run] w(1) e(2) sample_counts(2) [OF sample_store_next kv(2), of 7] none
    by (simp add: worker_due_def worker_ready_def sample_worker_def from_components_def new_fsm_def)
qed

theorem flow_conserves_witness:
  "\<exists>pool (rs :: unit RequestStore). flow_run sample_cost 1 [0] pool rs [] 0 \<and> mset [0] = mset (held_by pool)"
proof -
  obtain pool and rs :: "unit RequestStore" where run: "flow_run sample_cost 1 [0] pool rs [] 0" using sample_flow_arrival by blast
  from flow_conserves [OF run] run show ?thesis by auto
qed

theorem flow_returns_witness:
  "\<exists>pool (rs :: unit RequestStore). holds (dp_workers pool ! 0) = [0] \<and> flow_tick (iter_worker_ops sample_cost) pool 7 rs \<noteq> None"
proof -
  obtain pool and rs :: "unit RequestStore" where run: "flow_run sample_cost 1 [0] pool rs [] 0"
    "length (dp_workers pool) = 1" "holds (dp_workers pool ! 0) = [0]" "worker_ready sample_cost 1 7 (dp_workers pool ! 0)"
    using sample_flow_arrival by blast
  have "\<forall>w \<in> set (dp_workers pool). worker_ready sample_cost 1 7 w" using run(2,4) by (cases "dp_workers pool") auto
  then show ?thesis using flow_returns [OF run(1)] run(3) by blast
qed

theorem no_worker_forgotten_witness:
  "\<exists>pool (rs :: unit RequestStore) pool' rs' fin. flow_tick (iter_worker_ops sample_cost) pool 7 rs = Some (pool', rs', fin)
    \<and> (\<exists>(rs1 :: unit RequestStore) rs2 es wake. worker_tick sample_cost 7 (dp_workers pool ! 0) rs1 = Some (dp_workers pool' ! 0, rs2, es, wake))"
proof -
  obtain pool and rs :: "unit RequestStore" where run: "flow_run sample_cost 1 [0] pool rs [] 0"
    "length (dp_workers pool) = 1" "holds (dp_workers pool ! 0) = [0]" "worker_due (dp_workers pool ! 0) = 0"
    "worker_ready sample_cost 1 7 (dp_workers pool ! 0)" using sample_flow_arrival by blast
  have "\<forall>w \<in> set (dp_workers pool). worker_ready sample_cost 1 7 w" using run(2,5) by (cases "dp_workers pool") auto
  then have ready: "w \<in> set (dp_workers pool) \<Longrightarrow> worker_ready sample_cost 1 7 w" for w by blast
  have "iter_pool.pool_ok 1 0 pool rs" using flow_run_ok [OF run(1)] by (simp add: flow_ok_def)
  from iter_pool.collect_ok(1) [OF this, of 7 sample_cost] ready obtain pool' rs' es where
    "tick_collect (iter_worker_ops sample_cost) pool 7 rs = Some (pool', rs', es)" by fastforce
  then have t: "flow_tick (iter_worker_ops sample_cost) pool 7 rs = Some (pool', rs', map snd es)" by (simp add: flow_tick_def)
  from no_worker_forgotten [OF run(1) _ t, of 0] run(2-4) t show ?thesis by fastforce
qed

end
