(* ===== verification/Index_Kept.thy ===== *)
theory Index_Kept
  imports Dp_Flow
begin

section \<open>What a worker leaves of the shared store\<close>

text \<open>
  A worker writes the records of its requests, but no request's definition, and it only marks requests as admitted:
  after any of its operations the same requests have arrived, under the same definitions, and the store's
  indexes are as consistent as before.
\<close>

text \<open>A request marked as completed has emitted its target, one token at least.\<close>

definition flag_ok :: "'d ActiveRequest \<Rightarrow> bool" where
  "flag_ok a \<longleftrightarrow> (lc_completed (ar_lifecycle a) \<longrightarrow> 0 < emitted a \<and> target a \<le> emitted a)"

definition flags_ok :: "'d RequestStore \<Rightarrow> bool" where
  "flags_ok rs \<longleftrightarrow> (\<forall>r a. get_record rs r = Some a \<longrightarrow> flag_ok a)"

definition index_kept :: "'d RequestStore \<Rightarrow> 'd RequestStore \<Rightarrow> bool" where
  "index_kept rs rs' \<longleftrightarrow> arrived_ids rs' = arrived_ids rs \<and> (requests_ok rs \<longrightarrow> requests_ok rs')
     \<and> (flags_ok rs \<longrightarrow> flags_ok rs') \<and> length (rs_records rs') = length (rs_records rs)
     \<and> (\<forall>r. map_option ar_request (get_record rs' r) = map_option ar_request (get_record rs r))"

lemma put_length [simp]: "length (rs_records (put_record rs r a)) = length (rs_records rs)"
  by (simp add: put_record_def)

lemma kept_refl [simp]: "index_kept rs rs"
  by (simp add: index_kept_def)

lemma kept_trans: "index_kept a b \<Longrightarrow> index_kept b c \<Longrightarrow> index_kept a c"
  by (simp add: index_kept_def)

lemma kept_put:
  assumes "get_record rs r = Some a" and "ar_request a' = ar_request a" and "lc_admitted (ar_lifecycle a') = lc_admitted (ar_lifecycle a)"
    and "flag_ok a \<Longrightarrow> flag_ok a'"
  shows "index_kept rs (put_record rs r a')"
  using assms put_keeps_ok [of rs r a a'] by (simp add: index_kept_def flags_ok_def)

lemma kept_mark:
  assumes "mark_admitted rs r = Some rs'"
  shows "index_kept rs rs'"
  using assms mark_admitted_keeps_ok [of rs r rs']
  by (auto simp: index_kept_def flags_ok_def flag_ok_def mark_admitted_def bind_Some_iff split: if_splits)

lemma stage_keeps:
  "ar_request (stamp_stage w a t c) = ar_request a" "lc_admitted (ar_lifecycle (stamp_stage w a t c)) = lc_admitted (ar_lifecycle a)"
  "flag_ok (stamp_stage w a t c) = flag_ok a"
  by (simp_all add: stamp_stage_def record_stage_def Let_def flag_ok_def)

lemma hit_keeps:
  assumes "record_prefix_cache_hit_tokens a n = Some a'"
  shows "ar_request a' = ar_request a" "lc_admitted (ar_lifecycle a') = lc_admitted (ar_lifecycle a)" "flag_ok a' = flag_ok a"
  using assms by (auto simp: record_prefix_cache_hit_tokens_def bind_Some_iff flag_ok_def)

lemma token_flags:
  "flag_ok (record_first_token a now log)" "flag_ok a \<Longrightarrow> flag_ok (record_token a now log)"
  by (auto simp: flag_ok_def record_first_token_def record_token_def is_complete_def Let_def)

lemma progress_flags [simp]: "flag_ok (a\<lparr>ar_progress := (ar_progress a)\<lparr>prefill_tokens_processed := k\<rparr>\<rparr>) = flag_ok a"
  by (simp add: flag_ok_def)

lemmas record_keeps = stage_keeps token_keeps token_flags

lemma accept_kept:
  assumes "local_accept_message w la ks rs r = Some (la', rs')"
  shows "index_kept rs rs'"
  using assms by (auto simp: local_accept_message_def bind_Some_iff Let_def intro!: kept_put simp: record_keeps)

lemma enqueue_kept: "worker_enqueue iw rs r = Some (iw', rs') \<Longrightarrow> index_kept rs rs'"
  by (auto simp: worker_enqueue_def bind_Some_iff dest: accept_kept)

lemma admit_kept:
  assumes "local_admit w ks rs r p ctx fp now = Some (ks', rs')"
  shows "index_kept rs rs'"
proof -
  from assms obtain rs1 a a' where s: "mark_admitted rs r = Some rs1" "get_record rs1 r = Some a"
    "record_prefix_cache_hit_tokens a (resident_prefix_tokens ctx) = Some a'"
    "rs' = put_record rs1 r (stamp_stage w a' now (unified_code StagePrefill))" by (auto simp: local_admit_def bind_Some_iff)
  have "index_kept rs1 rs'" unfolding s(4) by (rule kept_put [OF s(2)]) (simp_all add: record_keeps hit_keeps [OF s(3)])
  then show ?thesis using kept_mark [OF s(1)] kept_trans by blast
qed

abbreviation form_store :: "'d form_state \<Rightarrow> 'd RequestStore" where
  "form_store x \<equiv> fst (snd (snd x))"

lemma form_pass_kept:
  assumes "form_pass w now x = Some y"
  shows "index_kept (form_store x) (form_store (case y of Inl z \<Rightarrow> z | Inr z \<Rightarrow> z))"
proof -
  obtain la ks rs usage where x: "x = (la, ks, rs, usage)" by (cases x)
  show ?thesis using assms
    by (auto simp: x form_pass_def Let_def bind_Some_iff dest: admit_kept split: option.splits if_splits)
qed

lemma form_loop_kept:
  assumes "form_loop w now x = Some y"
  shows "index_kept (form_store x) (form_store y)"
proof (rule form_loop.raw_induct [where xa = "((w, now), x)" and P = "\<lambda>w now x y. index_kept (form_store x) (form_store y)", simplified])
  fix loop :: "WorkerContext \<Rightarrow> nat \<Rightarrow> 'a form_state \<Rightarrow> 'a form_state option" and w now x y
  assume ih: "\<And>w now x y. loop w now x = Some y \<Longrightarrow> index_kept (form_store x) (form_store y)"
    and "Option.bind (form_pass w now x) (\<lambda>y. case y of Inl z \<Rightarrow> Some z | Inr z \<Rightarrow> loop w now z) = Some y"
  then obtain z where z: "form_pass w now x = Some z" "(case z of Inl u \<Rightarrow> Some u | Inr u \<Rightarrow> loop w now u) = Some y"
    by (auto simp: bind_Some_iff)
  note k = form_pass_kept [OF z(1)]
  show "index_kept (form_store x) (form_store y)"
  proof (cases z)
    case (Inr u)
    then show ?thesis using k ih [of w now u y] z(2) kept_trans by fastforce
  qed (use k z(2) in simp)
qed (rule assms)

lemma local_form_batch_kept:
  assumes "local_form_batch w la ks rs now = Some (la', ks', rs', formed)"
  shows "index_kept rs rs'"
proof -
  from assms obtain usage ks1 usage' where "form_loop w now (la, ks, rs, usage) = Some (la', ks1, rs', usage')"
    by (simp add: local_form_batch_def bind_Some_iff Let_def split: prod.splits) blast
  then show ?thesis using form_loop_kept by fastforce
qed

lemma form_batch_kept: "worker_form_batch now iw rs = Some (iw', rs', formed) \<Longrightarrow> index_kept rs rs'"
  by (auto simp: worker_form_batch_def bind_Some_iff Let_def intro: local_form_batch_kept split: if_splits)

subsection \<open>Completing an iteration\<close>

lemma fold_kept:
  assumes "\<And>x s s'. g x s = Some s' \<Longrightarrow> index_kept (st s) (st s')" and "fold_opt g xs s = Some s'"
  shows "index_kept (st s) (st s')"
  using assms(2)
proof (induction xs arbitrary: s)
  case (Cons x xs)
  then obtain s1 where "g x s = Some s1" "fold_opt g xs s1 = Some s'" by (auto simp: bind_Some_iff)
  then show ?case using Cons.IH assms(1) kept_trans by blast
qed simp

lemma decode_member_kept: "complete_decode_member w now x s = Some s' \<Longrightarrow> index_kept (fst s) (fst s')"
  by (cases x; cases s) (auto simp: complete_decode_member_def bind_Some_iff Let_def record_keeps intro!: kept_put split: if_splits)

lemma prefill_admit_kept: "complete_prefill_admit w ks now r s = Some s' \<Longrightarrow> index_kept (fst s) (fst s')"
  by (cases s) (auto simp: complete_prefill_admit_def bind_Some_iff Let_def record_keeps intro!: kept_put split: if_splits)

lemma complete_partition_kept:
  assumes "complete_partition w now p s = Some s'"
  shows "index_kept (fst (snd s)) (fst (snd s'))"
proof -
  obtain ks rs events where s: "s = (ks, rs, events)" by (cases s)
  from assms obtain members rs1 done1 ks1 admits rs2 done2 fin where
    a: "fold_opt (complete_decode_member w now) members (rs, []) = Some (rs1, done1)"
    and b: "fold_opt (complete_prefill_admit w ks1 now) admits (rs1, done1, []) = Some (rs2, done2, fin)"
    and c: "fst (snd s') = rs2" by (auto simp: s complete_partition_def bind_Some_iff split: prod.splits)
  have "index_kept rs rs1" using fold_kept [where st = fst, OF decode_member_kept a] by simp
  moreover have "index_kept rs1 rs2" using fold_kept [where st = fst, OF prefill_admit_kept b] by simp
  ultimately show ?thesis using c kept_trans by (auto simp: s)
qed

lemma iteration_kept:
  assumes "local_complete_iteration w ks rs now = Some (ks', rs', events)"
  shows "index_kept rs rs'"
  using fold_kept [where st = "\<lambda>s. fst (snd s)", OF complete_partition_kept assms [unfolded local_complete_iteration_def]] by simp

subsection \<open>A tick\<close>

lemma tick_round_kept:
  assumes "tick_round cost now x = Some y"
  shows "index_kept (fst (snd x)) (fst (snd (case y of Inl z \<Rightarrow> z | Inr z \<Rightarrow> z)))"
proof -
  obtain iw rs events where x: "x = (iw, rs, events)" by (cases x)
  show ?thesis using assms
    by (auto simp: x tick_round_def Let_def bind_Some_iff dest: form_batch_kept iteration_kept
        split: WorkerFsmState.splits IterCursor.splits if_splits)
qed

lemma tick_loop_kept:
  assumes "tick_loop cost now x = Some y"
  shows "index_kept (fst (snd x)) (fst (snd y))"
proof (rule tick_loop.raw_induct [where xa = "((cost, now), x)" and P = "\<lambda>cost now x y. index_kept (fst (snd x)) (fst (snd y))", simplified])
  fix loop :: "cost_model \<Rightarrow> nat \<Rightarrow> 'a tick_state \<Rightarrow> 'a tick_state option" and cost now x y
  assume ih: "\<And>cost now x y. loop cost now x = Some y \<Longrightarrow> index_kept (fst (snd x)) (fst (snd y))"
    and "Option.bind (tick_round cost now x) (\<lambda>y. case y of Inl z \<Rightarrow> Some z | Inr z \<Rightarrow> loop cost now z) = Some y"
  then obtain z where z: "tick_round cost now x = Some z" "(case z of Inl u \<Rightarrow> Some u | Inr u \<Rightarrow> loop cost now u) = Some y"
    by (auto simp: bind_Some_iff)
  note k = tick_round_kept [OF z(1)]
  show "index_kept (fst (snd x)) (fst (snd y))"
  proof (cases z)
    case (Inr u)
    then show ?thesis using k ih [of cost now u y] z(2) kept_trans by fastforce
  qed (use k z(2) in simp)
qed (rule assms)

lemma tick_kept: "worker_tick cost now iw rs = Some (iw', rs', es, wake) \<Longrightarrow> index_kept rs rs'"
  using tick_loop_kept by (fastforce simp: worker_tick_def bind_Some_iff split: prod.splits)

subsection \<open>Through the pool\<close>

text \<open>What every worker keeps of the shared state is kept by the pool and its flow.\<close>

locale keeping_worker =
  fixes ops :: "('w, 's, 'm, 'e) worker_ops" and keeps :: "'s \<Rightarrow> 's \<Rightarrow> bool"
  assumes keeps_refl: "keeps s s"
    and keeps_trans: "keeps s1 s2 \<Longrightarrow> keeps s2 s3 \<Longrightarrow> keeps s1 s3"
    and enqueue_keeps: "op_enqueue ops w s m = Some (w', s') \<Longrightarrow> keeps s s'"
    and tick_keeps: "op_tick ops now w s = Some (w', s', es, wake) \<Longrightarrow> keeps s s'"
begin

lemma admit_keeps: "admit_msg ops pool s m = Some (pool', s') \<Longrightarrow> keeps s s'"
  by (auto simp: admit_msg_def route_msg_to_def bind_Some_iff intro: enqueue_keeps)

lemma sweep_keeps: "sweep ops now zs s = Some (zs', s', es) \<Longrightarrow> keeps s s'"
proof (induction zs arbitrary: s zs' s' es)
  case Nil
  then show ?case by (simp add: keeps_refl)
next
  case (Cons x zs)
  obtain t w where x: "x = (t, w)" by (cases x)
  show ?case
  proof (cases "t \<le> now")
    case True
    with Cons.prems obtain w' s1 es1 wake zs1 es2 where tick: "op_tick ops now w s = Some (w', s1, es1, wake)"
      and rest: "sweep ops now zs s1 = Some (zs1, s', es2)" by (auto simp: x bind_Some_iff split: prod.splits)
    then show ?thesis using Cons.IH [OF rest] tick_keeps [OF tick] keeps_trans by blast
  next
    case False
    with Cons.prems obtain zs1 where "sweep ops now zs s = Some (zs1, s', es)" by (auto simp: x bind_Some_iff split: prod.splits)
    then show ?thesis by (rule Cons.IH)
  qed
qed

lemma collect_keeps: "tick_collect ops pool now s = Some (pool', s', es) \<Longrightarrow> keeps s s'"
  by (auto simp: tick_collect_def bind_Some_iff intro: sweep_keeps)

end

interpretation iter_keeps: keeping_worker "iter_worker_ops cost" index_kept for cost
proof unfold_locales
  fix s1 s2 s3 :: "'d RequestStore"
  show "index_kept s1 s2 \<Longrightarrow> index_kept s2 s3 \<Longrightarrow> index_kept s1 s3" by (rule kept_trans)
qed (auto simp: iter_worker_ops_def dest: enqueue_kept tick_kept)

text \<open>Over a run of the flow the store's index of arrivals is exactly the requests accepted, in order.\<close>

lemma insert_arrived: "insert_request rs q = Some rs' \<Longrightarrow> arrived_ids rs' = arrived_ids rs @ [rc_id (rq_core q)]"
  by (auto simp: insert_request_def Let_def bind_Some_iff split: if_splits)

lemma arrival_kept:
  assumes "flow_on_arrival (iter_worker_ops cost) pool rs q = Some (pool', rs')"
  shows "\<exists>rs1. insert_request rs q = Some rs1 \<and> index_kept rs1 rs'"
  using assms iter_keeps.admit_keeps by (fastforce simp: flow_on_arrival_def bind_Some_iff)

lemma flow_tick_kept: "flow_tick (iter_worker_ops cost) pool now rs = Some (pool', rs', fin) \<Longrightarrow> index_kept rs rs'"
  using iter_keeps.collect_keeps by (fastforce simp: flow_tick_def bind_Some_iff)

lemma insert_flags: "insert_request rs q = Some rs' \<Longrightarrow> flags_ok rs \<Longrightarrow> flags_ok rs'"
  by (auto simp: flags_ok_def flag_ok_def from_request_def insert_request_get(2))

lemma flow_run_index: "flow_run cost n accepted pool rs completed prev \<Longrightarrow> requests_ok rs \<and> flags_ok rs \<and> arrived_ids rs = accepted"
proof (induction rule: flow_run.induct)
  case (arrival accepted pool rs completed prev q pool' rs')
  then show ?case using arrival_kept [OF arrival.hyps(4)] insert_keeps_ok insert_arrived insert_flags by (fastforce simp: index_kept_def)
next
  case (tick accepted pool rs completed prev now pool' rs' finished)
  then show ?case using flow_tick_kept [OF tick.hyps(3)] by (simp add: index_kept_def)
qed (auto simp: requests_ok_def flags_ok_def)

lemma insert_length: "insert_request rs q = Some rs' \<Longrightarrow> length (rs_records rs) \<le> length (rs_records rs')"
  by (auto simp: insert_request_def Let_def bind_Some_iff split: if_splits)

text \<open>A request still at a worker is not marked as completed.\<close>

lemma held_unfinished:
  assumes "worker_ok n iw rs" and "r \<in> set (holds iw)" and "flags_ok rs" and "get_record rs r = Some a"
  shows "\<not> lc_completed (ar_lifecycle a)"
proof -
  note l = local_okD [OF worker_okD [OF assms(1)]]
  have "r \<in> ac_request ` set (waiting (iw_admission iw)) \<or> r \<in> set (prefilling (iw_kv iw)) \<or> r \<in> set (decoding (iw_kv iw))"
    using assms(2) arg_cong [OF mset_residents [of "iw_kv iw"], of set_mset] by (auto simp: holds_def)
  moreover have "emitted a = 0" if "r \<in> ac_request ` set (waiting (iw_admission iw))"
    using that l(11) assms(4) by (fastforce simp: cand_ok_def)
  moreover have "emitted a = 0" if "r \<in> set (prefilling (iw_kv iw))" using that l(13) assms(4) by fastforce
  moreover have "emitted a < target a" if "r \<in> set (decoding (iw_kv iw))"
    using that l(14) assms(4) by (fastforce simp: decode_tracks_def decoding_def)
  ultimately have "emitted a = 0 \<or> emitted a < target a" by blast
  moreover have "flag_ok a" using assms(3,4) by (simp add: flags_ok_def)
  ultimately show ?thesis by (auto simp: flag_ok_def)
qed

text \<open>So the marked requests are exactly the completed ones.\<close>

lemma flow_run_marked:
  assumes "flow_run cost n accepted pool rs completed prev" and "r \<in> set accepted"
  shows "\<exists>a. get_record rs r = Some a \<and> (lc_completed (ar_lifecycle a) \<longleftrightarrow> r \<in> set completed)"
proof -
  have ok: "flow_ok n accepted pool rs completed prev" by (rule flow_run_ok [OF assms(1)])
  then obtain a where a: "get_record rs r = Some a" using assms(2) by (auto simp: flow_ok_def)
  show ?thesis
  proof (cases "r \<in> set completed")
    case True
    then show ?thesis using ok a by (auto simp: flow_ok_def done_record_def)
  next
    case False
    have "mset accepted = mset (held_by pool @ completed)" using ok by (simp add: flow_ok_def)
    from mset_eq_setD [OF this] have "r \<in> set (held_by pool)" using assms(2) False by auto
    then obtain w where "w \<in> set (dp_workers pool)" "r \<in> set (holds w)" by auto
    then have "\<not> lc_completed (ar_lifecycle a)"
      using held_unfinished [of n w rs r a] ok a flow_run_index [OF assms(1)] by (simp add: flow_ok_def iter_pool.pool_ok_def)
    then show ?thesis using a False by blast
  qed
qed

end
