(* ===== verification/Trace_Release.thy ===== *)
theory Trace_Release
  imports Requests
begin

section \<open>Trace replay (\<open>sim/frontend/arrival.rs\<close>, \<open>release.rs\<close>, \<open>mod.rs\<close>)\<close>

text \<open>
  When a row of the loaded trace may enter the system. Three axes: the arrival mode makes a unit eligible, the
  capacity limit bounds the units active at once, and the session dependency chains the rounds of a session. Times
  are nanoseconds; the trace's milliseconds are floating-point numbers (\<open>clock_ops\<close>, which adds the cast to
  \<open>u64\<close>). The binary heap of unlocked rounds is a list in the order of its keys (due time, then row index), the
  hash set of open sessions a list without duplicates. An index out of range is \<open>None\<close>.
\<close>

subsection \<open>Rows\<close>

record 'f clock_ops = "'f float_ops" +
  f_as_u64 :: "'f \<Rightarrow> nat"
  f_is_finite :: "'f \<Rightarrow> bool"

definition from_ms :: "('f, 'z) clock_ops_scheme \<Rightarrow> 'f \<Rightarrow> nat" where
  "from_ms f ms = f_as_u64 f (f_mul f ms (f_of_nat f 1000000))"

record SessionReleaseMetadata =
  sr_session_id :: nat
  tool_wait_after :: nat

record 'f ReleaseMetadata =
  rm_request_id :: nat
  trace_arrival_time_ms :: 'f
  rm_session :: "SessionReleaseMetadata option"

record ('f, 'd) ScheduledRequest =
  sq_release :: "'f ReleaseMetadata"
  sq_slo :: SloContract
  sq_priority :: int
  sq_definition :: "'d TextGenerationDefinition"

definition realize_at :: "('f, 'd) ScheduledRequest \<Rightarrow> nat \<Rightarrow> 'd Request" where
  "realize_at sq arrival_time = \<lparr>rq_core = \<lparr>rc_id = rm_request_id (sq_release sq), rc_arrival_time = arrival_time,
     rc_slo = sq_slo sq, rc_priority = sq_priority sq\<rparr>, rq_definition = sq_definition sq\<rparr>"

subsection \<open>Pacing\<close>

datatype ArrivalMode = TraceTimed | Saturated

record 'f ArrivalSchedule =
  as_mode :: ArrivalMode
  request_rate :: 'f

definition effective_arrival :: "('f, 'z) clock_ops_scheme \<Rightarrow> 'f \<Rightarrow> 'f \<Rightarrow> nat" where
  "effective_arrival f arrival_time rate = from_ms f (f_div f arrival_time rate)"

definition release_time :: "('f, 'z) clock_ops_scheme \<Rightarrow> 'f ArrivalSchedule \<Rightarrow> 'f ReleaseMetadata \<Rightarrow> nat \<Rightarrow> nat option" where
  "release_time f arrival release now = (case as_mode arrival of
     TraceTimed \<Rightarrow> let due = effective_arrival f (trace_arrival_time_ms release) (request_rate arrival) in
       if due \<le> now then Some due else None
   | Saturated \<Rightarrow> Some now)"

type_synonym capacity_limit = "nat option"

definition parse_capacity :: "nat option \<Rightarrow> capacity_limit option" where
  "parse_capacity max_active_units = (if max_active_units = Some 0 then None else Some max_active_units)"

definition capacity_admits :: "capacity_limit \<Rightarrow> nat \<Rightarrow> bool" where
  "capacity_admits limit active_units = (case limit of None \<Rightarrow> True | Some l \<Rightarrow> active_units < l)"

subsection \<open>Active units\<close>

datatype ActiveUnits = ByRequests | BySessions (open_sessions: "nat list") (standalone_in_flight: nat)

definition active_count :: "ActiveUnits \<Rightarrow> nat \<Rightarrow> nat" where
  "active_count u in_flight = (case u of ByRequests \<Rightarrow> in_flight | BySessions opn alone \<Rightarrow> length opn + alone)"

definition unit_on_release :: "ActiveUnits \<Rightarrow> 'f ReleaseMetadata \<Rightarrow> bool \<Rightarrow> ActiveUnits" where
  "unit_on_release u release has_pred = (case u of ByRequests \<Rightarrow> ByRequests
     | BySessions opn alone \<Rightarrow> (case rm_session release of
         Some session \<Rightarrow> BySessions (if \<not> has_pred then List.insert (sr_session_id session) opn else opn) alone
       | None \<Rightarrow> BySessions opn (alone + 1)))"

definition unit_on_completion :: "ActiveUnits \<Rightarrow> 'f ReleaseMetadata \<Rightarrow> bool \<Rightarrow> ActiveUnits" where
  "unit_on_completion u release has_succ = (case u of ByRequests \<Rightarrow> ByRequests
     | BySessions opn alone \<Rightarrow> (case rm_session release of
         Some session \<Rightarrow> BySessions (if \<not> has_succ then removeAll (sr_session_id session) opn else opn) alone
       | None \<Rightarrow> BySessions opn (alone - 1)))"

subsection \<open>Chains\<close>

type_synonym chain_state = "nat option list \<times> bool list \<times> (nat \<times> nat) list"

definition link_row :: "nat \<times> 'f ReleaseMetadata \<Rightarrow> chain_state \<Rightarrow> chain_state option" where
  "link_row = (\<lambda>(index, release) (succ, pred, latest). case rm_session release of
     None \<Rightarrow> Some (succ, pred, latest)
   | Some session \<Rightarrow>
       let sid = sr_session_id session; latest' = AList.update sid index latest in
       case map_of latest sid of
         None \<Rightarrow> Some (succ, pred, latest')
       | Some previous \<Rightarrow> do {
           assert_that (previous < length succ \<and> index < length pred);
           Some (succ[previous := Some (as_u32 index)], pred[index := True], latest')
         })"

definition build_chains :: "'f ReleaseMetadata list \<Rightarrow> (nat option list \<times> bool list) option" where
  "build_chains releases = do {
     (succ, pred, _) \<leftarrow> fold_opt link_row (List.enumerate 0 releases)
       (replicate (length releases) None, replicate (length releases) False, []);
     Some (succ, pred)
   }"

subsection \<open>The scheduler\<close>

datatype SessionDependency = Independent | Chained

datatype DependencyState =
  IndependentState nat
| ChainedState (chain_successor: "nat option list") (chain_predecessor: "bool list") (head_cursor: nat)
    (ready_rounds: "(nat \<times> nat) list")

record 'f ReplayScheduler =
  rp_arrival :: "'f ArrivalSchedule"
  rp_capacity :: capacity_limit
  rp_dependency :: DependencyState
  rp_active :: ActiveUnits
  capacity_backlogged :: bool

definition new_scheduler :: "'f ArrivalSchedule \<Rightarrow> capacity_limit \<Rightarrow> SessionDependency \<Rightarrow> 'f ReleaseMetadata list \<Rightarrow>
     'f ReplayScheduler option" where
  "new_scheduler arrival capacity dependency releases = do {
     (dep, active) \<leftarrow> (case dependency of
        Independent \<Rightarrow> Some (IndependentState 0, ByRequests)
      | Chained \<Rightarrow> do {
          (succ, pred) \<leftarrow> build_chains releases;
          Some (ChainedState succ pred 0 [], BySessions [] 0)
        });
     Some \<lparr>rp_arrival = arrival, rp_capacity = capacity, rp_dependency = dep, rp_active = active,
       capacity_backlogged = False\<rparr>
   }"

fun push_ready :: "nat \<times> nat \<Rightarrow> (nat \<times> nat) list \<Rightarrow> (nat \<times> nat) list" where
  "push_ready x [] = [x]"
| "push_ready x (y # ys) = (if fst x < fst y \<or> fst x = fst y \<and> snd x \<le> snd y then x # y # ys else y # push_ready x ys)"

text \<open>The scan over the rows that are later rounds: the cursor at which it stops.\<close>

function scan_heads :: "bool list \<Rightarrow> nat \<Rightarrow> nat \<Rightarrow> nat option" where
  "scan_heads pred rows c = (if c < rows then do {
     skip \<leftarrow> nth_opt pred c;
     if skip then scan_heads pred rows (c + 1) else Some c
   } else Some c)"
  by pat_completeness auto
termination by (relation "measure (\<lambda>(pred, rows, c). rows - c)") auto

declare scan_heads.simps [simp del]

text \<open>\<open>admit\<close>: the release is booked and handed back with its stamp.\<close>

definition admit_release :: "'f ReplayScheduler \<Rightarrow> 'f ReleaseMetadata list \<Rightarrow> nat \<Rightarrow> nat \<Rightarrow>
     ('f ReplayScheduler \<times> (nat \<times> nat) option) option" where
  "admit_release sch releases index stamp = do {
     has_pred \<leftarrow> (case rp_dependency sch of ChainedState _ pred _ _ \<Rightarrow> nth_opt pred index | IndependentState _ \<Rightarrow> Some False);
     release \<leftarrow> nth_opt releases index;
     Some (sch\<lparr>rp_active := unit_on_release (rp_active sch) release has_pred\<rparr>, Some (index, stamp))
   }"

text \<open>The head of the trace at the cursor \<open>c\<close>; \<open>dep c'\<close> is the dependency state with its cursor at \<open>c'\<close>.\<close>

definition release_head :: "('f, 'z) clock_ops_scheme \<Rightarrow> 'f ReplayScheduler \<Rightarrow> 'f ReleaseMetadata list \<Rightarrow> bool \<Rightarrow> nat \<Rightarrow>
     (nat \<Rightarrow> DependencyState) \<Rightarrow> nat \<Rightarrow> ('f ReplayScheduler \<times> (nat \<times> nat) option) option" where
  "release_head f sch releases admits_new c dep now = (case nth_opt releases c of
     None \<Rightarrow> Some (sch\<lparr>rp_dependency := dep c\<rparr>, None)
   | Some release \<Rightarrow> (case release_time f (rp_arrival sch) release now of
       None \<Rightarrow> Some (sch\<lparr>rp_dependency := dep c, capacity_backlogged := False\<rparr>, None)
     | Some t \<Rightarrow>
         if \<not> admits_new then Some (sch\<lparr>rp_dependency := dep c, capacity_backlogged := True\<rparr>, None)
         else admit_release (sch\<lparr>rp_dependency := dep (c + 1)\<rparr>) releases c
                (if capacity_backlogged sch then max t now else t)))"

definition next_ready :: "('f, 'z) clock_ops_scheme \<Rightarrow> 'f ReplayScheduler \<Rightarrow> 'f ReleaseMetadata list \<Rightarrow> nat \<Rightarrow> nat \<Rightarrow>
     ('f ReplayScheduler \<times> (nat \<times> nat) option) option" where
  "next_ready f sch releases in_flight now = (
     let admits_new = capacity_admits (rp_capacity sch) (active_count (rp_active sch) in_flight) in
     case rp_dependency sch of
       IndependentState c \<Rightarrow> release_head f sch releases admits_new c IndependentState now
     | ChainedState succ pred c ready \<Rightarrow>
         if ready \<noteq> [] \<and> fst (hd ready) \<le> now
         then admit_release (sch\<lparr>rp_dependency := ChainedState succ pred c (tl ready)\<rparr>) releases (snd (hd ready)) now
         else do {
           c' \<leftarrow> scan_heads pred (length releases) c;
           release_head f sch releases admits_new c' (\<lambda>c. ChainedState succ pred c ready) now
         })"

definition replay_on_completion :: "'f ReplayScheduler \<Rightarrow> 'f ReleaseMetadata list \<Rightarrow> nat \<Rightarrow> nat \<Rightarrow> 'f ReplayScheduler option" where
  "replay_on_completion sch releases r now = (case rp_dependency sch of
     IndependentState _ \<Rightarrow> Some sch
   | ChainedState succ pred c ready \<Rightarrow> do {
       let upcoming = Option.bind (nth_opt succ r) id;
       release \<leftarrow> nth_opt releases r;
       let sch' = sch\<lparr>rp_active := unit_on_completion (rp_active sch) release (upcoming \<noteq> None)\<rparr>;
       (case upcoming of
          None \<Rightarrow> Some sch'
        | Some j \<Rightarrow>
            let wait = (case rm_session release of None \<Rightarrow> 0 | Some session \<Rightarrow> tool_wait_after session) in
            Some (sch'\<lparr>rp_dependency := ChainedState succ pred c (push_ready (now + wait, j) ready)\<rparr>))
     })"

subsection \<open>The frontend\<close>

record ('f, 'd) TraceFrontend =
  scheduled_requests :: "('f, 'd) ScheduledRequest list"
  releases :: "'f ReleaseMetadata list"
  tf_emitted :: nat
  tf_completed :: nat
  replay_scheduler :: "'f ReplayScheduler"

definition exhausted :: "('f, 'd) TraceFrontend \<Rightarrow> bool" where
  "exhausted tf \<longleftrightarrow> tf_emitted tf \<ge> length (scheduled_requests tf)"

definition in_flight :: "('f, 'd) TraceFrontend \<Rightarrow> nat option" where
  "in_flight tf = checked_sub (tf_emitted tf) (tf_completed tf)"

text \<open>One pass of \<open>drain_due\<close>'s loop; the requests handed to \<open>emit\<close> are collected in order.\<close>

definition drain_round :: "('f, 'z) clock_ops_scheme \<Rightarrow> nat \<Rightarrow> ('f, 'd) TraceFrontend \<Rightarrow>
     (('f, 'd) TraceFrontend \<times> 'd Request option) option" where
  "drain_round f now tf = do {
     outstanding \<leftarrow> in_flight tf;
     (sch, found) \<leftarrow> next_ready f (replay_scheduler tf) (releases tf) outstanding now;
     let tf' = tf\<lparr>replay_scheduler := sch\<rparr>;
     (case found of
        None \<Rightarrow> Some (tf', None)
      | Some (index, stamp) \<Rightarrow> do {
          row \<leftarrow> nth_opt (scheduled_requests tf) index;
          Some (tf'\<lparr>tf_emitted := tf_emitted tf + 1\<rparr>, Some (realize_at row stamp))
        })
   }"

partial_function (option) drain_due :: "('f, 'z) clock_ops_scheme \<Rightarrow> nat \<Rightarrow> ('f, 'd) TraceFrontend \<Rightarrow> 'd Request list \<Rightarrow>
     (('f, 'd) TraceFrontend \<times> 'd Request list) option" where
  "drain_due f now tf out = do {
     (tf', found) \<leftarrow> drain_round f now tf;
     (case found of
        None \<Rightarrow> Some (tf', out)
      | Some q \<Rightarrow> drain_due f now tf' (out @ [q]))
   }"

definition record_completion :: "('f, 'd) TraceFrontend \<Rightarrow> nat \<Rightarrow> nat \<Rightarrow> ('f, 'd) TraceFrontend option" where
  "record_completion tf r now = do {
     sch \<leftarrow> replay_on_completion (replay_scheduler tf) (releases tf) r now;
     Some (tf\<lparr>tf_completed := tf_completed tf + 1, replay_scheduler := sch\<rparr>)
   }"

text \<open>The end of \<open>load_typed\<close>: the checks over all rows and the initial scheduler.\<close>

definition arrival_order_ok :: "('f, 'z) clock_ops_scheme \<Rightarrow> ('f, 'd) ScheduledRequest list \<Rightarrow> bool" where
  "arrival_order_ok f rows \<longleftrightarrow> list_all (\<lambda>i. \<not> f_lt f (trace_arrival_time_ms (sq_release (rows ! i)))
     (trace_arrival_time_ms (sq_release (rows ! (i - 1))))) [1..<length rows]"

definition new_frontend :: "('f, 'z) clock_ops_scheme \<Rightarrow> 'f ArrivalSchedule \<Rightarrow> capacity_limit \<Rightarrow> SessionDependency \<Rightarrow>
     ('f, 'd) ScheduledRequest list \<Rightarrow> ('f, 'd) TraceFrontend option" where
  "new_frontend f arrival capacity dependency rows = do {
     assert_that (rows \<noteq> []);
     assert_that (arrival_order_ok f rows);
     sch \<leftarrow> new_scheduler arrival capacity dependency (map sq_release rows);
     Some \<lparr>scheduled_requests = rows, releases = map sq_release rows, tf_emitted = 0, tf_completed = 0,
       replay_scheduler = sch\<rparr>
   }"

end
