(* ===== verification/Trace_Replay.thy ===== *)
theory Trace_Replay
  imports Trace_Release
begin

section \<open>What a replay releases, and when\<close>

text \<open>
  The chains of a trace, and the invariant of the scheduler over any interleaving of drains and completions: every
  row is released at most once, a later round only after its predecessor and its tool wait, never more units are
  active than the capacity allows, and the frontend never holds back everything for ever.
\<close>

subsection \<open>Chains\<close>

definition sid_of :: "'f ReleaseMetadata list \<Rightarrow> nat \<Rightarrow> nat option" where
  "sid_of rel i = map_option sr_session_id (rm_session (rel ! i))"

text \<open>\<open>j\<close> is the next row of the session of \<open>i\<close>.\<close>

definition next_round :: "'f ReleaseMetadata list \<Rightarrow> nat \<Rightarrow> nat \<Rightarrow> bool" where
  "next_round rel i j \<longleftrightarrow> i < j \<and> j < length rel \<and> sid_of rel i \<noteq> None \<and> sid_of rel j = sid_of rel i
     \<and> (\<forall>k. i < k \<longrightarrow> k < j \<longrightarrow> sid_of rel k \<noteq> sid_of rel i)"

lemma next_round_unique: "next_round rel i j \<Longrightarrow> next_round rel i k \<Longrightarrow> j = k"
  unfolding next_round_def by (metis linorder_neqE_nat)

lemma next_round_inj: "next_round rel i k \<Longrightarrow> next_round rel j k \<Longrightarrow> i = j"
  unfolding next_round_def by (metis linorder_neqE_nat)

definition chain_ok :: "'f ReleaseMetadata list \<Rightarrow> nat \<Rightarrow> chain_state \<Rightarrow> bool" where
  "chain_ok rel m = (\<lambda>(succ, pred, latest). length succ = length rel \<and> length pred = length rel
     \<and> (\<forall>s i. map_of latest s = Some i \<longleftrightarrow> i < m \<and> sid_of rel i = Some s \<and> (\<forall>k. i < k \<longrightarrow> k < m \<longrightarrow> sid_of rel k \<noteq> Some s))
     \<and> (\<forall>i < length rel. \<forall>j. succ ! i = Some j \<longleftrightarrow> next_round rel i j \<and> j < m)
     \<and> (\<forall>j < length rel. pred ! j \<longleftrightarrow> j < m \<and> (\<exists>i. next_round rel i j)))"

lemma link_row_ok:
  assumes "chain_ok rel m st" and "m < length rel" and "length rel \<le> u32_max"
  shows "\<exists>st'. link_row (m, rel ! m) st = Some st' \<and> chain_ok rel (Suc m) st'"
proof -
  obtain succ pred latest where st: "st = (succ, pred, latest)" by (cases st)
  note ok = assms(1) [unfolded chain_ok_def st, simplified]
  have len: "length succ = length rel" "length pred = length rel" using ok by simp_all
  have last: "map_of latest s = Some i \<longleftrightarrow> i < m \<and> sid_of rel i = Some s \<and> (\<forall>k. i < k \<longrightarrow> k < m \<longrightarrow> sid_of rel k \<noteq> Some s)" for s i
    using ok by blast
  have succ: "succ ! i = Some j \<longleftrightarrow> next_round rel i j \<and> j < m" if "i < length rel" for i j using ok that by blast
  have pred: "pred ! j \<longleftrightarrow> j < m \<and> (\<exists>i. next_round rel i j)" if "j < length rel" for j using ok that by blast
  show ?thesis
  proof (cases "rm_session (rel ! m)")
    case None
    then have none: "sid_of rel m = None" by (simp add: sid_of_def)
    have "\<not> next_round rel i m" for i using none by (auto simp: next_round_def)
    then have "chain_ok rel (Suc m) (succ, pred, latest)"
      using len last succ pred none by (auto simp: chain_ok_def less_Suc_eq)
    then show ?thesis using None st by (simp add: link_row_def)
  next
    case (Some session)
    let ?s = "sr_session_id session"
    have sid: "sid_of rel m = Some ?s" using Some by (simp add: sid_of_def)
    have latest': "map_of (AList.update ?s m latest) s = Some i \<longleftrightarrow>
        i < Suc m \<and> sid_of rel i = Some s \<and> (\<forall>k. i < k \<longrightarrow> k < Suc m \<longrightarrow> sid_of rel k \<noteq> Some s)" for s i
      using last [of s i] sid by (auto simp: update_conv' less_Suc_eq)
    show ?thesis
    proof (cases "map_of latest ?s")
      case None
      have "\<not> next_round rel i m" for i
      proof
        assume n: "next_round rel i m"
        then have "map_of latest ?s = Some i" using last [of ?s i] sid by (auto simp: next_round_def)
        then show False using None by simp
      qed
      then have "chain_ok rel (Suc m) (succ, pred, AList.update ?s m latest)"
        using len latest' succ pred by (auto simp: chain_ok_def less_Suc_eq)
      then show ?thesis using Some None st by (simp add: link_row_def Let_def)
    next
      case (Some p)
      have p: "p < m" "sid_of rel p = Some ?s" "\<And>k. p < k \<Longrightarrow> k < m \<Longrightarrow> sid_of rel k \<noteq> Some ?s"
        using last [of ?s p] Some by auto
      have nr: "next_round rel p m" using p sid assms(2) by (auto simp: next_round_def)
      have only: "next_round rel i m \<longleftrightarrow> i = p" for i using nr next_round_inj [of rel i m p] by auto
      have m: "as_u32 m = m" using assms(2,3) by simp
      have "succ[p := Some m] ! i = Some j \<longleftrightarrow> next_round rel i j \<and> j < Suc m" if "i < length rel" for i j
      proof (cases "i = p")
        case True
        then show ?thesis using nr next_round_unique [OF nr, of j] that len by auto
      next
        case False
        then have "\<not> next_round rel i m" using only by simp
        then show ?thesis using False succ [OF that, of j] that len by (auto simp: less_Suc_eq)
      qed
      moreover have "pred[m := True] ! j \<longleftrightarrow> j < Suc m \<and> (\<exists>i. next_round rel i j)" if "j < length rel" for j
        using nr pred [OF that] that len by (cases "j = m") (auto simp: less_Suc_eq)
      ultimately have "chain_ok rel (Suc m) (succ[p := Some m], pred[m := True], AList.update ?s m latest)"
        using latest' len by (simp add: chain_ok_def)
      then show ?thesis using Some \<open>rm_session (rel ! m) = Some session\<close> st len p(1) assms(2) m
        by (simp add: link_row_def Let_def)
    qed
  qed
qed

lemma link_rows_ok:
  assumes "m \<le> length rel" and "length rel \<le> u32_max"
  shows "\<exists>st. fold_opt link_row (List.enumerate 0 (take m rel)) (replicate (length rel) None, replicate (length rel) False, []) = Some st
    \<and> chain_ok rel m st"
  using assms(1)
proof (induction m)
  case 0
  show ?case by (simp add: chain_ok_def)
next
  case (Suc m)
  then obtain st where st: "fold_opt link_row (List.enumerate 0 (take m rel))
      (replicate (length rel) None, replicate (length rel) False, []) = Some st" "chain_ok rel m st" by auto
  have m: "m < length rel" using Suc.prems by simp
  have "List.enumerate 0 (take (Suc m) rel) = List.enumerate 0 (take m rel) @ [(m, rel ! m)]"
    using m by (simp add: take_Suc_conv_app_nth enumerate_append_eq)
  then show ?case using link_row_ok [OF st(2) m assms(2)] st(1) by (simp add: fold_opt_snoc)
qed

lemma build_chains_ok:
  assumes "length rel \<le> u32_max"
  shows "\<exists>succ pred. build_chains rel = Some (succ, pred) \<and> length succ = length rel \<and> length pred = length rel
    \<and> (\<forall>i < length rel. \<forall>j. succ ! i = Some j \<longleftrightarrow> next_round rel i j)
    \<and> (\<forall>j < length rel. pred ! j \<longleftrightarrow> (\<exists>i. next_round rel i j))"
proof -
  from link_rows_ok [OF le_refl assms] obtain succ pred latest where
    "fold_opt link_row (List.enumerate 0 rel) (replicate (length rel) None, replicate (length rel) False, []) = Some (succ, pred, latest)"
    "chain_ok rel (length rel) (succ, pred, latest)" by (metis prod_cases3 take_all_iff le_refl)
  then show ?thesis by (auto simp: build_chains_def chain_ok_def next_round_def)
qed

subsection \<open>The invariant\<close>

abbreviation rid :: "'d Request \<Rightarrow> nat" where
  "rid q \<equiv> rc_id (rq_core q)"

definition wait_of :: "'f ReleaseMetadata list \<Rightarrow> nat \<Rightarrow> nat" where
  "wait_of rel i = (case rm_session (rel ! i) of None \<Rightarrow> 0 | Some session \<Rightarrow> tool_wait_after session)"

definition chains_exact :: "'f ReleaseMetadata list \<Rightarrow> nat option list \<Rightarrow> bool list \<Rightarrow> bool" where
  "chains_exact rel succ pred \<longleftrightarrow> length succ = length rel \<and> length pred = length rel
     \<and> (\<forall>i < length rel. \<forall>j. succ ! i = Some j \<longleftrightarrow> next_round rel i j)
     \<and> (\<forall>j < length rel. pred ! j \<longleftrightarrow> (\<exists>i. next_round rel i j))"

text \<open>A session is open once a round of it has been released and until its last round has completed.\<close>

definition session_open :: "'f ReleaseMetadata list \<Rightarrow> nat set \<Rightarrow> nat set \<Rightarrow> nat \<Rightarrow> bool" where
  "session_open rel out done s \<longleftrightarrow> (\<exists>i \<in> out. sid_of rel i = Some s)
     \<and> \<not> (\<exists>i \<in> done. sid_of rel i = Some s \<and> (\<forall>j. \<not> next_round rel i j))"

definition alone_out :: "'f ReleaseMetadata list \<Rightarrow> nat set \<Rightarrow> nat set \<Rightarrow> nat set" where
  "alone_out rel out done = {i \<in> out - done. sid_of rel i = None}"

fun heap_ordered :: "(nat \<times> nat) list \<Rightarrow> bool" where
  "heap_ordered [] = True"
| "heap_ordered (x # xs) \<longleftrightarrow> (\<forall>y \<in> set xs. fst x < fst y \<or> fst x = fst y \<and> snd x \<le> snd y) \<and> heap_ordered xs"

definition rounds_ok :: "'f ReleaseMetadata list \<Rightarrow> nat set \<Rightarrow> (nat \<times> nat) set \<Rightarrow> bool list \<Rightarrow> nat \<Rightarrow> (nat \<times> nat) list \<Rightarrow> bool" where
  "rounds_ok rel out done pred c ready \<longleftrightarrow> c \<le> length rel
     \<and> (\<forall>i < length rel. \<not> pred ! i \<longrightarrow> (i \<in> out \<longleftrightarrow> i < c))
     \<and> (\<forall>j \<in> out. pred ! j \<longrightarrow> (\<exists>i \<in> fst ` done. next_round rel i j))
     \<and> distinct (map snd ready) \<and> heap_ordered ready
     \<and> (\<forall>j. j \<in> snd ` set ready \<longleftrightarrow> j \<notin> out \<and> (\<exists>i \<in> fst ` done. next_round rel i j))
     \<and> (\<forall>(t, j) \<in> set ready. \<exists>i t0. next_round rel i j \<and> (i, t0) \<in> done \<and> t = t0 + wait_of rel i)"

definition active_ok :: "'f ReleaseMetadata list \<Rightarrow> nat set \<Rightarrow> nat set \<Rightarrow> ActiveUnits \<Rightarrow> bool" where
  "active_ok rel out done u \<longleftrightarrow> (\<exists>opn alone. u = BySessions opn alone \<and> distinct opn
     \<and> set opn = {s. session_open rel out done s} \<and> alone = card (alone_out rel out done))"

definition sched_ok :: "'f ReleaseMetadata list \<Rightarrow> 'f ReplayScheduler \<Rightarrow> nat list \<Rightarrow> (nat \<times> nat) list \<Rightarrow> bool" where
  "sched_ok rel sch ids D \<longleftrightarrow> distinct ids \<and> set ids \<subseteq> {..<length rel} \<and> distinct (map fst D) \<and> fst ` set D \<subseteq> set ids
     \<and> (\<forall>l. rp_capacity sch = Some l \<longrightarrow> active_count (rp_active sch) (length ids - length D) \<le> l)
     \<and> (case rp_dependency sch of
          IndependentState c \<Rightarrow> ids = [0..<c] \<and> c \<le> length rel \<and> rp_active sch = ByRequests
        | ChainedState succ pred c ready \<Rightarrow> chains_exact rel succ pred
            \<and> rounds_ok rel (set ids) (set D) pred c ready \<and> active_ok rel (set ids) (fst ` set D) (rp_active sch))"

definition stamps_ok :: "'f ReleaseMetadata list \<Rightarrow> 'd Request list \<Rightarrow> (nat \<times> nat) list \<Rightarrow> bool" where
  "stamps_ok rel E D \<longleftrightarrow> (\<forall>q \<in> set E. \<forall>i. next_round rel i (rid q) \<longrightarrow>
     (\<exists>t0. (i, t0) \<in> set D \<and> t0 + wait_of rel i \<le> rc_arrival_time (rq_core q)))"

subsection \<open>Facts of a consistent scheduler\<close>

lemma push_ready_set: "set (push_ready x xs) = insert x (set xs)"
  by (induction x xs rule: push_ready.induct) auto

lemma push_ready_ordered: "heap_ordered xs \<Longrightarrow> heap_ordered (push_ready x xs)"
  by (induction x xs rule: push_ready.induct) (auto simp: push_ready_set)

lemma push_ready_distinct: "distinct (map snd xs) \<Longrightarrow> snd x \<notin> snd ` set xs \<Longrightarrow> distinct (map snd (push_ready x xs))"
  by (induction x xs rule: push_ready.induct) (auto simp: push_ready_set)

lemma scan_heads_ok:
  assumes "c \<le> n" and "length pred = n"
  shows "\<exists>c'. scan_heads pred n c = Some c' \<and> c \<le> c' \<and> c' \<le> n \<and> (\<forall>i. c \<le> i \<longrightarrow> i < c' \<longrightarrow> pred ! i) \<and> (c' < n \<longrightarrow> \<not> pred ! c')"
  using assms
proof (induction pred n c rule: scan_heads.induct)
  case (1 pred rows c)
  show ?case
  proof (cases "c < rows")
    case True
    then have at: "nth_opt pred c = Some (pred ! c)" using 1(3) by (simp add: nth_opt_def)
    show ?thesis
    proof (cases "pred ! c")
      case skip: True
      from 1(1) [OF True at skip] True 1(3) obtain c' where c': "scan_heads pred rows (c + 1) = Some c'" "c + 1 \<le> c'"
        "c' \<le> rows" "\<forall>i. c + 1 \<le> i \<longrightarrow> i < c' \<longrightarrow> pred ! i" "c' < rows \<longrightarrow> \<not> pred ! c'" by auto
      have "pred ! i" if "c \<le> i" "i < c'" for i using c'(4) skip that by (cases "i = c") auto
      moreover have "scan_heads pred rows c = Some c'" using c'(1) True at skip by (subst scan_heads.simps) simp
      ultimately show ?thesis using c' by auto
    next
      case False
      then have "scan_heads pred rows c = Some c" using True at by (subst scan_heads.simps) simp
      then show ?thesis using False True by simp
    qed
  next
    case False
    then have "scan_heads pred rows c = Some c" by (subst scan_heads.simps) simp
    then show ?thesis using False 1(2) by simp
  qed
qed

text \<open>A session whose rounds have begun to be released has had its first row released.\<close>

lemma heads_unique:
  assumes "chains_exact rel succ pred" and "i < length rel" and "j < length rel" and "\<not> pred ! i" and "\<not> pred ! j"
    and "sid_of rel i = Some s" and "sid_of rel j = Some s"
  shows "i = j"
proof -
  have no: False if "a < b" "b < length rel" "sid_of rel a = Some s" "sid_of rel b = Some s" "\<not> pred ! b" for a b
  proof -
    define m where "m = Max {k. k < b \<and> sid_of rel k = Some s}"
    have fin: "finite {k. k < b \<and> sid_of rel k = Some s}" by simp
    have ne: "{k. k < b \<and> sid_of rel k = Some s} \<noteq> {}" using that(1,3) by auto
    have m: "m < b" "sid_of rel m = Some s" using Max_in [OF fin ne] by (simp_all add: m_def)
    have "\<not> (m < k \<and> k < b \<and> sid_of rel k = Some s)" for k
      using Max_ge [OF fin, of k] by (fastforce simp: m_def)
    then have "next_round rel m b" using m that(2,4) by (auto simp: next_round_def)
    then show False using assms(1) that(2,5) by (auto simp: chains_exact_def)
  qed
  show ?thesis using no [of i j] no [of j i] assms(2-7) by (cases i j rule: linorder_cases) auto
qed

lemma first_released:
  assumes "chains_exact rel succ pred" and "\<forall>j \<in> out. pred ! j \<longrightarrow> (\<exists>i \<in> C. next_round rel i j)" and "C \<subseteq> out"
    and "out \<subseteq> {..<length rel}" and "k \<in> out" and "sid_of rel k = Some s"
  shows "\<exists>h \<in> out. \<not> pred ! h \<and> sid_of rel h = Some s"
  using assms(5,6)
proof (induction k rule: less_induct)
  case (less k)
  show ?case
  proof (cases "pred ! k")
    case True
    then obtain i where i: "i \<in> C" "next_round rel i k" using assms(2) less.prems(1) by blast
    then have "i < k" "sid_of rel i = Some s" using less.prems(2) by (auto simp: next_round_def)
    then show ?thesis using less.IH [of i] i(1) assms(3) by blast
  qed (use less.prems in blast)
qed

subsection \<open>One release, one completion\<close>

lemma rounds_skip:
  assumes "rounds_ok rel out done pred c ready" and "c \<le> c'" and "c' \<le> length rel" and "\<forall>i. c \<le> i \<longrightarrow> i < c' \<longrightarrow> pred ! i"
  shows "rounds_ok rel out done pred c' ready"
proof -
  have "i \<in> out \<longleftrightarrow> i < c'" if "i < length rel" "\<not> pred ! i" for i
  proof -
    have "i \<in> out \<longleftrightarrow> i < c" using assms(1) that by (auto simp: rounds_ok_def)
    moreover have "i < c \<or> c' \<le> i" using assms(4) that(2) by (meson not_le)
    ultimately show ?thesis using assms(2) by auto
  qed
  then show ?thesis using assms(1,3) by (simp add: rounds_ok_def)
qed

lemma rounds_release_ready:
  assumes "chains_exact rel succ pred" and "rounds_ok rel out done pred c ((t, j) # ready)"
  shows "rounds_ok rel (insert j out) done pred c ready" and "j \<notin> out" and "j < length rel" and "pred ! j"
    and "\<exists>i t0. next_round rel i j \<and> (i, t0) \<in> done \<and> t = t0 + wait_of rel i"
proof -
  have mem: "k \<in> snd ` set ((t, j) # ready) \<longleftrightarrow> k \<notin> out \<and> (\<exists>i \<in> fst ` done. next_round rel i k)" for k
    using assms(2) unfolding rounds_ok_def by blast
  have j: "j \<notin> out" "\<exists>i \<in> fst ` done. next_round rel i j" using mem [of j] by auto
  show "j \<notin> out" by (rule j(1))
  obtain i where i: "next_round rel i j" using j(2) by blast
  then show "j < length rel" by (simp add: next_round_def)
  with i show "pred ! j" using assms(1) by (auto simp: chains_exact_def)
  show "\<exists>i t0. next_round rel i j \<and> (i, t0) \<in> done \<and> t = t0 + wait_of rel i" using assms(2) by (auto simp: rounds_ok_def)
  have notin: "j \<notin> snd ` set ready" using assms(2) by (auto simp: rounds_ok_def)
  have "k \<in> snd ` set ready \<longleftrightarrow> k \<notin> insert j out \<and> (\<exists>i \<in> fst ` done. next_round rel i k)" for k
    using mem [of k] notin by auto
  then show "rounds_ok rel (insert j out) done pred c ready"
    using assms(2) j \<open>pred ! j\<close> unfolding rounds_ok_def by auto
qed

lemma rounds_release_head:
  assumes "chains_exact rel succ pred" and "rounds_ok rel out done pred c ready" and "c < length rel" and "\<not> pred ! c"
  shows "rounds_ok rel (insert c out) done pred (c + 1) ready" and "c \<notin> out"
proof -
  show out: "c \<notin> out" using assms(2-4) by (auto simp: rounds_ok_def)
  have none: "\<not> next_round rel i c" for i using assms(1,3,4) by (auto simp: chains_exact_def)
  have "i \<in> insert c out \<longleftrightarrow> i < c + 1" if "i < length rel" "\<not> pred ! i" for i
    using assms(2) that by (cases "i = c") (auto simp: rounds_ok_def)
  moreover have "k \<in> snd ` set ready \<longleftrightarrow> k \<notin> insert c out \<and> (\<exists>i \<in> fst ` done. next_round rel i k)" for k
    using assms(2) none unfolding rounds_ok_def by blast
  ultimately show "rounds_ok rel (insert c out) done pred (c + 1) ready"
    using assms(2-4) unfolding rounds_ok_def by auto
qed

lemma rounds_complete:
  assumes "chains_exact rel succ pred" and "rounds_ok rel out done pred c ready" and "r \<in> out" and "r \<notin> fst ` done"
    and "upcoming = None \<longrightarrow> (\<forall>j. \<not> next_round rel r j)" and "\<And>j. upcoming = Some j \<Longrightarrow> next_round rel r j"
  shows "rounds_ok rel out (insert (r, now) done) pred c
    (case upcoming of None \<Rightarrow> ready | Some j \<Rightarrow> push_ready (now + wait_of rel r, j) ready)"
proof (cases upcoming)
  case None
  then have none: "\<not> next_round rel r j" for j using assms(5) by simp
  have "(\<exists>i \<in> fst ` insert (r, now) done. next_round rel i k) \<longleftrightarrow> (\<exists>i \<in> fst ` done. next_round rel i k)" for k
    using none by auto
  moreover have "\<forall>(t, k) \<in> set ready. \<exists>i t0. next_round rel i k \<and> (i, t0) \<in> insert (r, now) done \<and> t = t0 + wait_of rel i"
    using assms(2) by (simp add: rounds_ok_def) blast
  ultimately have "rounds_ok rel out (insert (r, now) done) pred c ready" using assms(2) by (simp add: rounds_ok_def)
  then show ?thesis using None by simp
next
  case (Some j)
  have nr: "next_round rel r j" using assms(6) [OF Some] .
  have only: "next_round rel i j \<longleftrightarrow> i = r" for i using nr next_round_inj [of rel i j r] by blast
  have nx: "next_round rel r k \<longleftrightarrow> k = j" for k using nr next_round_unique [OF nr, of k] by blast
  have pj: "pred ! j" "j < length rel" using assms(1) nr by (auto simp: chains_exact_def next_round_def)
  have "j \<in> out \<longrightarrow> (\<exists>i \<in> fst ` done. next_round rel i j)" using assms(2) pj(1) by (simp add: rounds_ok_def)
  then have out: "j \<notin> out" using assms(4) by (auto simp: only)
  have mem: "k \<in> snd ` set ready \<longleftrightarrow> k \<notin> out \<and> (\<exists>i \<in> fst ` done. next_round rel i k)" for k
    using assms(2) unfolding rounds_ok_def by blast
  have notin: "j \<notin> snd ` set ready" using mem [of j] assms(4) by (auto simp: only)
  have "k \<in> snd ` set (push_ready (now + wait_of rel r, j) ready) \<longleftrightarrow>
      k \<notin> out \<and> (\<exists>i \<in> fst ` insert (r, now) done. next_round rel i k)" for k
    using mem [of k] out nx [of k] by (auto simp: push_ready_set)
  moreover have "distinct (map snd (push_ready (now + wait_of rel r, j) ready))"
    using assms(2) notin by (intro push_ready_distinct) (auto simp: rounds_ok_def)
  moreover have "heap_ordered (push_ready (now + wait_of rel r, j) ready)"
    using assms(2) by (intro push_ready_ordered) (simp add: rounds_ok_def)
  moreover have "\<forall>(t, k) \<in> set (push_ready (now + wait_of rel r, j) ready).
      \<exists>i t0. next_round rel i k \<and> (i, t0) \<in> insert (r, now) done \<and> t = t0 + wait_of rel i"
  proof -
    have "\<forall>(t, k) \<in> set ready. \<exists>i t0. next_round rel i k \<and> (i, t0) \<in> done \<and> t = t0 + wait_of rel i"
      using assms(2) by (simp add: rounds_ok_def)
    then show ?thesis unfolding push_ready_set using nr by (simp only: ball_simps split) blast
  qed
  moreover have "\<forall>k \<in> out. pred ! k \<longrightarrow> (\<exists>i \<in> fst ` insert (r, now) done. next_round rel i k)"
    using assms(2) unfolding rounds_ok_def by fastforce
  moreover have "c \<le> length rel" "\<forall>i < length rel. \<not> pred ! i \<longrightarrow> (i \<in> out \<longleftrightarrow> i < c)"
    using assms(2) unfolding rounds_ok_def by blast+
  ultimately have "rounds_ok rel out (insert (r, now) done) pred c (push_ready (now + wait_of rel r, j) ready)"
    unfolding rounds_ok_def by blast
  then show ?thesis using Some by simp
qed

lemma active_release:
  assumes "active_ok rel out C u" and "finite out" and "C \<subseteq> out" and "i \<notin> out"
    and "has_pred \<Longrightarrow> \<exists>k \<in> out. sid_of rel k = sid_of rel i \<and> sid_of rel i \<noteq> None"
    and "\<not> has_pred \<Longrightarrow> sid_of rel i \<noteq> None \<Longrightarrow> \<forall>k \<in> out. sid_of rel k \<noteq> sid_of rel i"
  shows "active_ok rel (insert i out) C (unit_on_release u (rel ! i) has_pred)"
    and "active_count (unit_on_release u (rel ! i) has_pred) n \<le> active_count u n + (if has_pred then 0 else 1)"
proof -
  obtain opn alone where u: "u = BySessions opn alone" "distinct opn" "set opn = {s. session_open rel out C s}"
    "alone = card (alone_out rel out C)" using assms(1) by (auto simp: active_ok_def)
  show "active_count (unit_on_release u (rel ! i) has_pred) n \<le> active_count u n + (if has_pred then 0 else 1)"
    using assms(5) u(1)
    by (auto simp: unit_on_release_def active_count_def sid_of_def List.insert_def split: option.splits)
  show "active_ok rel (insert i out) C (unit_on_release u (rel ! i) has_pred)"
  proof (cases "rm_session (rel ! i)")
    case None
    then have sid: "sid_of rel i = None" by (simp add: sid_of_def)
    then have "\<not> has_pred" using assms(5) by auto
    have "alone_out rel (insert i out) C = insert i (alone_out rel out C)"
      using sid assms(3,4) by (auto simp: alone_out_def)
    moreover have "i \<notin> alone_out rel out C" "finite (alone_out rel out C)" using assms(2,4) by (auto simp: alone_out_def)
    ultimately have "card (alone_out rel (insert i out) C) = alone + 1" using u(4) by simp
    moreover have "session_open rel (insert i out) C s = session_open rel out C s" for s
      using sid by (auto simp: session_open_def)
    ultimately show ?thesis using None u by (simp add: active_ok_def unit_on_release_def)
  next
    case (Some session)
    then have sid: "sid_of rel i = Some (sr_session_id session)" by (simp add: sid_of_def)
    have alone: "alone_out rel (insert i out) C = alone_out rel out C" using sid by (auto simp: alone_out_def)
    have others: "session_open rel (insert i out) C s = session_open rel out C s" if "s \<noteq> sr_session_id session" for s
      using sid that by (auto simp: session_open_def)
    show ?thesis
    proof (cases has_pred)
      case True
      then have "session_open rel (insert i out) C s = session_open rel out C s" for s
        using assms(5) sid others by (cases "s = sr_session_id session") (auto simp: session_open_def)
      then show ?thesis using Some True u alone by (simp add: active_ok_def unit_on_release_def)
    next
      case False
      have "session_open rel (insert i out) C (sr_session_id session)"
        using assms(3) assms(6) [OF False] sid by (auto simp: session_open_def)
      then have "session_open rel (insert i out) C s \<longleftrightarrow> s = sr_session_id session \<or> session_open rel out C s" for s
        using others [of s] by auto
      then have "{s. session_open rel (insert i out) C s} = insert (sr_session_id session) (set opn)"
        using u(3) by auto
      then show ?thesis using Some False u alone by (simp add: active_ok_def unit_on_release_def)
    qed
  qed
qed

lemma active_complete:
  assumes "active_ok rel out C u" and "finite out" and "r \<in> out" and "r \<notin> C"
    and "has_succ \<longleftrightarrow> (\<exists>j. next_round rel r j)"
  shows "active_ok rel out (insert r C) (unit_on_completion u (rel ! r) has_succ)"
    and "active_count (unit_on_completion u (rel ! r) has_succ) n \<le> active_count u n"
proof -
  obtain opn alone where u: "u = BySessions opn alone" "distinct opn" "set opn = {s. session_open rel out C s}"
    "alone = card (alone_out rel out C)" using assms(1) by (auto simp: active_ok_def)
  show "active_count (unit_on_completion u (rel ! r) has_succ) n \<le> active_count u n"
    using u(1) by (auto simp: unit_on_completion_def active_count_def length_removeAll_less_eq split: option.splits)
  show "active_ok rel out (insert r C) (unit_on_completion u (rel ! r) has_succ)"
  proof (cases "rm_session (rel ! r)")
    case None
    then have sid: "sid_of rel r = None" by (simp add: sid_of_def)
    have "alone_out rel out (insert r C) = alone_out rel out C - {r}" by (auto simp: alone_out_def)
    moreover have "r \<in> alone_out rel out C" using sid assms(3,4) by (auto simp: alone_out_def)
    ultimately have "card (alone_out rel out (insert r C)) = alone - 1" using u(4) by simp
    moreover have "session_open rel out (insert r C) s = session_open rel out C s" for s
      using sid by (auto simp: session_open_def)
    ultimately show ?thesis using None u by (simp add: active_ok_def unit_on_completion_def)
  next
    case (Some session)
    then have sid: "sid_of rel r = Some (sr_session_id session)" by (simp add: sid_of_def)
    have alone: "alone_out rel out (insert r C) = alone_out rel out C" using sid by (auto simp: alone_out_def)
    have "session_open rel out (insert r C) s \<longleftrightarrow> session_open rel out C s \<and> (s = sr_session_id session \<longrightarrow> has_succ)" for s
      using sid assms(5) by (auto simp: session_open_def)
    then show ?thesis using Some u alone by (cases has_succ) (auto simp: active_ok_def unit_on_completion_def distinct_removeAll)
  qed
qed

subsection \<open>The scheduler's operations\<close>

text \<open>Nothing more is released at \<open>now\<close>: no unlocked round is due, and the next head is not there, has not arrived, or
  finds no free slot.\<close>

definition held_back :: "('f, 'z) clock_ops_scheme \<Rightarrow> 'f ReleaseMetadata list \<Rightarrow> 'f ReplayScheduler \<Rightarrow> nat \<Rightarrow> nat \<Rightarrow> bool" where
  "held_back f rel sch outstanding now \<longleftrightarrow> (
     let blocked = (\<lambda>c. c \<ge> length rel \<or> release_time f (rp_arrival sch) (rel ! c) now = None
       \<or> \<not> capacity_admits (rp_capacity sch) (active_count (rp_active sch) outstanding)) in
     case rp_dependency sch of
       IndependentState c \<Rightarrow> blocked c
     | ChainedState succ pred c ready \<Rightarrow> (\<forall>x \<in> set ready. now < fst x) \<and> (c < length rel \<longrightarrow> \<not> pred ! c) \<and> blocked c)"

lemma release_head_cases:
  assumes "c \<le> length rel"
  shows "release_head f sch rel admits_new c dep now = (
     if c \<ge> length rel then Some (sch\<lparr>rp_dependency := dep c\<rparr>, None)
     else case release_time f (rp_arrival sch) (rel ! c) now of
       None \<Rightarrow> Some (sch\<lparr>rp_dependency := dep c, capacity_backlogged := False\<rparr>, None)
     | Some t \<Rightarrow> if \<not> admits_new then Some (sch\<lparr>rp_dependency := dep c, capacity_backlogged := True\<rparr>, None)
         else admit_release (sch\<lparr>rp_dependency := dep (c + 1)\<rparr>) rel c (if capacity_backlogged sch then max t now else t))"
  by (auto simp: release_head_def nth_opt_def split: option.splits)

lemma release_head_none:
  assumes "c \<le> length rel" and "\<not> (c < length rel \<and> release_time f (rp_arrival sch) (rel ! c) now \<noteq> None \<and> admits_new)"
  shows "\<exists>b. release_head f sch rel admits_new c dep now = Some (sch\<lparr>rp_dependency := dep c, capacity_backlogged := b\<rparr>, None)"
proof (cases "c < length rel")
  case False
  have "sch\<lparr>rp_dependency := dep c, capacity_backlogged := capacity_backlogged sch\<rparr> = sch\<lparr>rp_dependency := dep c\<rparr>" by simp
  then show ?thesis using False by (intro exI [of _ "capacity_backlogged sch"]) (simp add: release_head_cases [OF assms(1)])
next
  case True
  then show ?thesis using assms(2)
    by (cases "release_time f (rp_arrival sch) (rel ! c) now") (auto simp: release_head_cases [OF assms(1)])
qed

lemma admits_below: "capacity_admits l n \<Longrightarrow> l = Some m \<Longrightarrow> n < m"
  by (simp add: capacity_admits_def)

lemma done_le:
  assumes "distinct (map fst D)" and "fst ` set D \<subseteq> set ids"
  shows "length D \<le> length ids"
proof -
  have "length D = card (fst ` set D)" using distinct_card [OF assms(1)] by simp
  also have "\<dots> \<le> card (set ids)" by (intro card_mono assms(2)) simp
  also have "\<dots> \<le> length ids" by (rule card_length)
  finally show ?thesis .
qed

text \<open>Independent rows.\<close>

lemma next_independent_ok:
  assumes "sched_ok rel sch ids D" and "rp_dependency sch = IndependentState c"
  shows "\<exists>sch' found. next_ready f sch rel (length ids - length D) now = Some (sch', found)
    \<and> rp_arrival sch' = rp_arrival sch \<and> rp_capacity sch' = rp_capacity sch
    \<and> (\<exists>c. rp_dependency sch' = IndependentState c) \<and> (case found of
       None \<Rightarrow> sched_ok rel sch' ids D \<and> held_back f rel sch' (length ids - length D) now
     | Some (i, t) \<Rightarrow> i < length rel \<and> i \<notin> set ids \<and> sched_ok rel sch' (ids @ [i]) D)"
proof -
  note ok = assms(1) [unfolded sched_ok_def assms(2), simplified]
  have c: "ids = [0..<c]" "c \<le> length rel" "rp_active sch = ByRequests" using ok by simp_all
  let ?adm = "capacity_admits (rp_capacity sch) (length ids - length D)"
  have run: "next_ready f sch rel (length ids - length D) now = release_head f sch rel ?adm c IndependentState now"
    by (simp add: next_ready_def assms(2) active_count_def c(3))
  show ?thesis
  proof (cases "c < length rel \<and> release_time f (rp_arrival sch) (rel ! c) now \<noteq> None \<and> ?adm")
    case True
    then obtain t where t: "release_time f (rp_arrival sch) (rel ! c) now = Some t" by blast
    let ?sch = "sch\<lparr>rp_dependency := IndependentState (c + 1)\<rparr>"
    let ?stamp = "if capacity_backlogged sch then max t now else t"
    have "next_ready f sch rel (length ids - length D) now = Some (?sch, Some (c, ?stamp))"
      using True t c(2,3) by (simp add: run release_head_cases admit_release_def nth_opt_def unit_on_release_def)
    moreover have "length D \<le> length ids"
      using done_le [of D ids] ok by blast
    then have "active_count ByRequests (length (ids @ [c]) - length D) \<le> m" if "rp_capacity sch = Some m" for m
      using True that by (simp add: active_count_def Suc_diff_le capacity_admits_def)
    then have "sched_ok rel ?sch (ids @ [c]) D" using ok True c by (auto simp: sched_ok_def)
    ultimately show ?thesis using True c(1) by auto
  next
    case False
    then obtain b where run': "next_ready f sch rel (length ids - length D) now
        = Some (sch\<lparr>rp_dependency := IndependentState c, capacity_backlogged := b\<rparr>, None)"
      unfolding run using release_head_none [OF c(2) False] by blast
    have "sched_ok rel (sch\<lparr>rp_dependency := IndependentState c, capacity_backlogged := b\<rparr>) ids D"
      using ok c by (simp add: sched_ok_def)
    moreover have "held_back f rel (sch\<lparr>rp_dependency := IndependentState c, capacity_backlogged := b\<rparr>) (length ids - length D) now"
      using False c(3) by (auto simp: held_back_def active_count_def)
    ultimately show ?thesis using run' by simp
  qed
qed

text \<open>Chained rounds.\<close>

definition stamp_ok :: "'f ReleaseMetadata list \<Rightarrow> (nat \<times> nat) list \<Rightarrow> nat \<Rightarrow> nat \<Rightarrow> bool" where
  "stamp_ok rel D j t \<longleftrightarrow> (\<forall>i. next_round rel i j \<longrightarrow> (\<exists>t0. (i, t0) \<in> set D \<and> t0 + wait_of rel i \<le> t))"

lemma admit_chained_ok:
  assumes "chains_exact rel succ pred" and "rounds_ok rel (set ids) (set D) pred c0 ready0" and "active_ok rel (set ids) (fst ` set D) (rp_active sch)"
    and "fst ` set D \<subseteq> set ids" and "set ids \<subseteq> {..<length rel}" and "i < length rel" and "i \<notin> set ids"
    and "pred ! i \<longrightarrow> (\<exists>k \<in> fst ` set D. next_round rel k i)"
    and "rp_dependency sch = ChainedState succ pred c ready"
  shows "\<exists>sch'. admit_release sch rel i t = Some (sch', Some (i, t)) \<and> rp_dependency sch' = rp_dependency sch
    \<and> rp_arrival sch' = rp_arrival sch \<and> rp_capacity sch' = rp_capacity sch
    \<and> active_ok rel (insert i (set ids)) (fst ` set D) (rp_active sch')
    \<and> (\<forall>n. active_count (rp_active sch') n \<le> active_count (rp_active sch) n + (if pred ! i then 0 else 1))"
proof -
  have later: "\<exists>k \<in> set ids. sid_of rel k = sid_of rel i \<and> sid_of rel i \<noteq> None" if "pred ! i"
    using assms(4,8) that unfolding next_round_def by (metis in_mono)
  have head: "\<forall>k \<in> set ids. sid_of rel k \<noteq> sid_of rel i" if h: "\<not> pred ! i" "sid_of rel i \<noteq> None"
  proof (intro ballI notI)
    fix k
    assume k: "k \<in> set ids" "sid_of rel k = sid_of rel i"
    obtain s where s: "sid_of rel i = Some s" using h(2) by blast
    have "\<forall>j \<in> set ids. pred ! j \<longrightarrow> (\<exists>i \<in> fst ` set D. next_round rel i j)" using assms(2) by (simp add: rounds_ok_def)
    from first_released [OF assms(1) this assms(4,5) k(1), of s] k(2) s obtain k0 where
      "k0 \<in> set ids" "\<not> pred ! k0" "sid_of rel k0 = Some s" by auto
    then show False using heads_unique [OF assms(1), of k0 i s] assms(5-7) h(1) s by auto
  qed
  let ?u = "unit_on_release (rp_active sch) (rel ! i) (pred ! i)"
  have "length pred = length rel" using assms(1) by (simp add: chains_exact_def)
  then have "admit_release sch rel i t = Some (sch\<lparr>rp_active := ?u\<rparr>, Some (i, t))"
    using assms(6,9) by (simp add: admit_release_def nth_opt_def)
  moreover have "active_ok rel (insert i (set ids)) (fst ` set D) ?u"
    using active_release(1) [OF assms(3) _ assms(4,7), of "pred ! i"] later head by simp
  moreover have "active_count ?u n \<le> active_count (rp_active sch) n + (if pred ! i then 0 else 1)" for n
    using active_release(2) [OF assms(3) _ assms(4,7), of "pred ! i" n] later head by simp
  ultimately show ?thesis by simp
qed

lemma next_chained_ok:
  assumes "sched_ok rel sch ids D" and "rp_dependency sch = ChainedState succ pred c ready"
  shows "\<exists>sch' found. next_ready f sch rel (length ids - length D) now = Some (sch', found)
    \<and> rp_arrival sch' = rp_arrival sch \<and> rp_capacity sch' = rp_capacity sch
    \<and> (\<exists>c ready. rp_dependency sch' = ChainedState succ pred c ready) \<and> (case found of
       None \<Rightarrow> sched_ok rel sch' ids D \<and> held_back f rel sch' (length ids - length D) now
     | Some (i, t) \<Rightarrow> i < length rel \<and> i \<notin> set ids \<and> sched_ok rel sch' (ids @ [i]) D \<and> stamp_ok rel D i t)"
proof -
  note ok = assms(1) [unfolded sched_ok_def assms(2), simplified]
  have ch: "chains_exact rel succ pred" and ro: "rounds_ok rel (set ids) (set D) pred c ready"
    and ac: "active_ok rel (set ids) (fst ` set D) (rp_active sch)" and base: "distinct ids" "set ids \<subseteq> {..<length rel}"
      "distinct (map fst D)" "fst ` set D \<subseteq> set ids" "\<And>l. rp_capacity sch = Some l \<Longrightarrow> active_count (rp_active sch) (length ids - length D) \<le> l"
    using ok by auto
  obtain opn alone where u: "rp_active sch = BySessions opn alone" using ac by (auto simp: active_ok_def)
  have count: "active_count (rp_active sch) n = length opn + alone" for n by (simp add: u active_count_def)
  show ?thesis
  proof (cases "ready \<noteq> [] \<and> fst (hd ready) \<le> now")
    case True
    then obtain t j rest where r: "ready = (t, j) # rest" "t \<le> now" by (cases ready) auto
    note rr = rounds_release_ready [OF ch ro [unfolded r(1)]]
    let ?sch = "sch\<lparr>rp_dependency := ChainedState succ pred c rest\<rparr>"
    have pred: "pred ! j \<longrightarrow> (\<exists>k \<in> fst ` set D. next_round rel k j)" using rr(5) by force
    from admit_chained_ok [OF ch ro _ base(4,2) rr(3,2) pred, of ?sch c rest now] ac obtain sch' where
      adm: "admit_release ?sch rel j now = Some (sch', Some (j, now))" "rp_dependency sch' = ChainedState succ pred c rest"
      "rp_arrival sch' = rp_arrival sch" "rp_capacity sch' = rp_capacity sch" "active_ok rel (insert j (set ids)) (fst ` set D) (rp_active sch')"
      "\<And>n. active_count (rp_active sch') n \<le> active_count (rp_active sch) n" using rr(4) by auto
    have "next_ready f sch rel (length ids - length D) now = Some (sch', Some (j, now))"
      using adm(1) r by (simp add: next_ready_def assms(2))
    moreover have "active_count (rp_active sch') n \<le> m" if "rp_capacity sch = Some m" for n m
      using adm(6) [of n] base(5) [OF that] count by (metis order_trans)
    then have "sched_ok rel sch' (ids @ [j]) D"
      unfolding sched_ok_def adm(2) using base rr(1-3) adm(4,5) ch by auto
    moreover have "stamp_ok rel D j now"
      using rr(5) r(2) next_round_inj unfolding stamp_ok_def by (metis order_trans)
    ultimately show ?thesis using rr(2,3) adm(2-4) by auto
  next
    case False
    have late: "\<forall>x \<in> set ready. now < fst x"
      using False ro by (cases ready) (auto simp: rounds_ok_def)
    have cl: "c \<le> length rel" "length pred = length rel" using ro ch by (simp_all add: rounds_ok_def chains_exact_def)
    from scan_heads_ok [OF cl] obtain c' where c': "scan_heads pred (length rel) c = Some c'" "c \<le> c'" "c' \<le> length rel"
      "\<forall>i. c \<le> i \<longrightarrow> i < c' \<longrightarrow> pred ! i" "c' < length rel \<longrightarrow> \<not> pred ! c'" by blast
    note ro' = rounds_skip [OF ro c'(2-4)]
    let ?adm = "capacity_admits (rp_capacity sch) (length opn + alone)" and ?dep = "\<lambda>c. ChainedState succ pred c ready"
    have run: "next_ready f sch rel (length ids - length D) now = release_head f sch rel ?adm c' ?dep now"
      using False c'(1) by (auto simp: next_ready_def assms(2) count)
    show ?thesis
    proof (cases "c' < length rel \<and> release_time f (rp_arrival sch) (rel ! c') now \<noteq> None \<and> ?adm")
      case True
      then obtain t where t: "release_time f (rp_arrival sch) (rel ! c') now = Some t" by blast
      have np: "\<not> pred ! c'" using True c'(5) by simp
      note rh = rounds_release_head [OF ch ro' _ np]
      let ?sch = "sch\<lparr>rp_dependency := ?dep (c' + 1)\<rparr>" and ?stamp = "if capacity_backlogged sch then max t now else t"
      from admit_chained_ok [OF ch ro _ base(4,2), of ?sch c' "c' + 1" ready ?stamp] ac np True rh obtain sch' where
        adm: "admit_release ?sch rel c' ?stamp = Some (sch', Some (c', ?stamp))" "rp_dependency sch' = ?dep (c' + 1)"
        "rp_arrival sch' = rp_arrival sch" "rp_capacity sch' = rp_capacity sch" "active_ok rel (insert c' (set ids)) (fst ` set D) (rp_active sch')"
        "\<And>n. active_count (rp_active sch') n \<le> active_count (rp_active sch) n + 1" by auto
      have "active_count (rp_active sch') n \<le> m" if "rp_capacity sch = Some m" for n m
        using adm(6) [of n] count [of n] admits_below [of "rp_capacity sch" _ m] True that by fastforce
      then have "sched_ok rel sch' (ids @ [c']) D"
        unfolding sched_ok_def adm(2) using base rh True adm(4,5) ch by auto
      moreover have "next_ready f sch rel (length ids - length D) now = Some (sch', Some (c', ?stamp))"
        using True t adm(1) c'(3) by (simp add: run release_head_cases)
      moreover have "stamp_ok rel D c' ?stamp"
        using np ch True by (auto simp: stamp_ok_def chains_exact_def)
      ultimately show ?thesis using True rh adm(2-4) by auto
    next
      case blocked: False
      then obtain b where run': "next_ready f sch rel (length ids - length D) now
          = Some (sch\<lparr>rp_dependency := ?dep c', capacity_backlogged := b\<rparr>, None)"
        unfolding run using release_head_none [OF c'(3) blocked] by blast
      have "sched_ok rel (sch\<lparr>rp_dependency := ?dep c', capacity_backlogged := b\<rparr>) ids D"
        using ch ro' ac base by (simp add: sched_ok_def)
      moreover have "held_back f rel (sch\<lparr>rp_dependency := ?dep c', capacity_backlogged := b\<rparr>) (length ids - length D) now"
        using blocked late c'(5) count by (auto simp: held_back_def)
      ultimately show ?thesis using run' by simp
    qed
  qed
qed

subsection \<open>The frontend's operations\<close>

definition trace_ok :: "('f, 'd) TraceFrontend \<Rightarrow> bool" where
  "trace_ok tf \<longleftrightarrow> releases tf = map sq_release (scheduled_requests tf)
     \<and> (\<forall>i < length (releases tf). rm_request_id (releases tf ! i) = i)"

definition chained :: "'f ReplayScheduler \<Rightarrow> bool" where
  "chained sch \<longleftrightarrow> (case rp_dependency sch of IndependentState _ \<Rightarrow> False | ChainedState _ _ _ _ \<Rightarrow> True)"

definition front_ok :: "('f, 'd) TraceFrontend \<Rightarrow> 'd Request list \<Rightarrow> (nat \<times> nat) list \<Rightarrow> bool" where
  "front_ok tf E D \<longleftrightarrow> trace_ok tf \<and> tf_emitted tf = length E \<and> tf_completed tf = length D
     \<and> sched_ok (releases tf) (replay_scheduler tf) (map rid E) D
     \<and> (\<forall>q \<in> set E. rq_definition q = sq_definition (scheduled_requests tf ! rid q))
     \<and> (chained (replay_scheduler tf) \<longrightarrow> stamps_ok (releases tf) E D)"

lemma trace_okD:
  assumes "trace_ok tf" and "i < length (releases tf)"
  shows "i < length (scheduled_requests tf)" and "rm_request_id (sq_release (scheduled_requests tf ! i)) = i"
  using assms by (auto simp: trace_ok_def)

lemma trace_ok_updates [simp]:
  "trace_ok (tf\<lparr>replay_scheduler := sch\<rparr>) = trace_ok tf" "trace_ok (tf\<lparr>tf_emitted := n\<rparr>) = trace_ok tf"
  "trace_ok (tf\<lparr>tf_completed := n\<rparr>) = trace_ok tf"
  by (simp_all add: trace_ok_def)

lemma front_okD: "front_ok tf E D \<Longrightarrow> sched_ok (releases tf) (replay_scheduler tf) (map rid E) D"
  unfolding front_ok_def by blast

definition same_trace :: "('f, 'd) TraceFrontend \<Rightarrow> ('f, 'd) TraceFrontend \<Rightarrow> bool" where
  "same_trace tf tf' \<longleftrightarrow> scheduled_requests tf' = scheduled_requests tf \<and> releases tf' = releases tf
     \<and> rp_arrival (replay_scheduler tf') = rp_arrival (replay_scheduler tf)
     \<and> rp_capacity (replay_scheduler tf') = rp_capacity (replay_scheduler tf)
     \<and> chained (replay_scheduler tf') = chained (replay_scheduler tf)"

lemma same_trace_trans: "same_trace a b \<Longrightarrow> same_trace b c \<Longrightarrow> same_trace a c"
  by (simp add: same_trace_def)

lemma sched_ok_done: "sched_ok rel sch ids D \<Longrightarrow> length D \<le> length ids"
  using done_le [of D ids] by (auto simp: sched_ok_def)

lemma sched_ok_bound: "sched_ok rel sch ids D \<Longrightarrow> length ids \<le> length rel"
proof -
  assume ok: "sched_ok rel sch ids D"
  then have "card (set ids) \<le> card {..<length rel}" by (intro card_mono) (auto simp: sched_ok_def)
  then show ?thesis using ok distinct_card [of ids] by (simp add: sched_ok_def)
qed

lemma next_ready_ok:
  assumes "sched_ok rel sch ids D"
  shows "\<exists>sch' found. next_ready f sch rel (length ids - length D) now = Some (sch', found)
    \<and> rp_arrival sch' = rp_arrival sch \<and> rp_capacity sch' = rp_capacity sch \<and> chained sch' = chained sch \<and> (case found of
       None \<Rightarrow> sched_ok rel sch' ids D \<and> held_back f rel sch' (length ids - length D) now
     | Some (i, t) \<Rightarrow> i < length rel \<and> i \<notin> set ids \<and> sched_ok rel sch' (ids @ [i]) D \<and> (chained sch \<longrightarrow> stamp_ok rel D i t))"
proof (cases "rp_dependency sch")
  case (IndependentState c)
  from next_independent_ok [OF assms this, of f now] obtain sch' found c' where
    n: "next_ready f sch rel (length ids - length D) now = Some (sch', found)" "rp_arrival sch' = rp_arrival sch"
      "rp_capacity sch' = rp_capacity sch" "rp_dependency sch' = IndependentState c'"
    and found: "case found of None \<Rightarrow> sched_ok rel sch' ids D \<and> held_back f rel sch' (length ids - length D) now
     | Some (i, t) \<Rightarrow> i < length rel \<and> i \<notin> set ids \<and> sched_ok rel sch' (ids @ [i]) D"
    by (elim exE conjE) (rule that; assumption)
  have ch: "chained sch = False" "chained sch' = False" using n(4) IndependentState by (simp_all add: chained_def)
  show ?thesis using n(1-3) found by (intro exI [of _ sch'] exI [of _ found]) (auto simp: ch split: option.splits)
next
  case (ChainedState succ pred c ready)
  from next_chained_ok [OF assms this, of f now] obtain sch' found c' ready' where
    n: "next_ready f sch rel (length ids - length D) now = Some (sch', found)" "rp_arrival sch' = rp_arrival sch"
      "rp_capacity sch' = rp_capacity sch" "rp_dependency sch' = ChainedState succ pred c' ready'"
    and found: "case found of None \<Rightarrow> sched_ok rel sch' ids D \<and> held_back f rel sch' (length ids - length D) now
     | Some (i, t) \<Rightarrow> i < length rel \<and> i \<notin> set ids \<and> sched_ok rel sch' (ids @ [i]) D \<and> stamp_ok rel D i t"
    by (elim exE conjE) (rule that; assumption)
  have ch: "chained sch = True" "chained sch' = True" using n(4) ChainedState by (simp_all add: chained_def)
  show ?thesis using n(1-3) found by (intro exI [of _ sch'] exI [of _ found]) (auto simp: ch split: option.splits)
qed

lemma drain_round_ok:
  assumes "front_ok tf E D"
  shows "\<exists>tf' found. drain_round f now tf = Some (tf', found) \<and> same_trace tf tf' \<and> (case found of
       None \<Rightarrow> front_ok tf' E D \<and> held_back f (releases tf') (replay_scheduler tf') (length E - length D) now
     | Some q \<Rightarrow> front_ok tf' (E @ [q]) D)"
proof -
  let ?rel = "releases tf" and ?sch = "replay_scheduler tf" and ?ids = "map rid E"
  note ok = assms [unfolded front_ok_def]
  have sok: "sched_ok ?rel ?sch ?ids D" by (rule front_okD [OF assms])
  from next_ready_ok [OF sok, of f now, unfolded length_map] obtain sch' found where
    n: "next_ready f ?sch ?rel (length E - length D) now = Some (sch', found)"
    "rp_arrival sch' = rp_arrival ?sch" "rp_capacity sch' = rp_capacity ?sch" "chained sch' = chained ?sch"
    "case found of None \<Rightarrow> sched_ok ?rel sch' ?ids D \<and> held_back f ?rel sch' (length E - length D) now
     | Some (i, t) \<Rightarrow> i < length ?rel \<and> i \<notin> set ?ids \<and> sched_ok ?rel sch' (?ids @ [i]) D \<and> (chained ?sch \<longrightarrow> stamp_ok ?rel D i t)"
    by (elim exE conjE) (rule that; assumption)
  have fly: "in_flight tf = Some (length E - length D)"
    using ok sched_ok_done [OF sok] by (simp add: in_flight_def checked_sub_def)
  show ?thesis
  proof (cases found)
    case None
    have "drain_round f now tf = Some (tf\<lparr>replay_scheduler := sch'\<rparr>, None)" using fly n(1) None by (simp add: drain_round_def)
    moreover have "front_ok (tf\<lparr>replay_scheduler := sch'\<rparr>) E D" using ok n(4,5) None by (simp add: front_ok_def)
    ultimately show ?thesis using n(2-5) None by (simp add: same_trace_def)
  next
    case (Some x)
    obtain i t where x: "x = (i, t)" by (cases x)
    let ?q = "realize_at (scheduled_requests tf ! i) t" and ?tf = "tf\<lparr>replay_scheduler := sch', tf_emitted := tf_emitted tf + 1\<rparr>"
    have i: "i < length ?rel" "sched_ok ?rel sch' (?ids @ [i]) D" "chained ?sch \<longrightarrow> stamp_ok ?rel D i t"
      using n(5) Some x by simp_all
    have row: "i < length (scheduled_requests tf)" "rm_request_id (sq_release (scheduled_requests tf ! i)) = i"
      using trace_okD [of tf i] ok i(1) by blast+
    have q: "rid ?q = i" "rq_definition ?q = sq_definition (scheduled_requests tf ! i)" "rc_arrival_time (rq_core ?q) = t"
      using row(2) by (simp_all add: realize_at_def)
    have "drain_round f now tf = Some (?tf, Some ?q)"
      using fly n(1) Some x row(1) by (simp add: drain_round_def nth_opt_def)
    moreover have "chained sch' \<longrightarrow> stamps_ok ?rel (E @ [?q]) D"
      using ok n(4) i(3) q by (auto simp: stamps_ok_def stamp_ok_def)
    then have "front_ok ?tf (E @ [?q]) D" using ok i(2) q by (simp add: front_ok_def)
    ultimately show ?thesis using n(2-4) by (simp add: same_trace_def)
  qed
qed

lemma drain_due_ok:
  assumes "front_ok tf E D"
  shows "\<exists>tf' qs. drain_due f now tf out = Some (tf', out @ qs) \<and> same_trace tf tf' \<and> front_ok tf' (E @ qs) D
    \<and> held_back f (releases tf') (replay_scheduler tf') (length (E @ qs) - length D) now"
  using assms
proof (induction "length (releases tf) - length E" arbitrary: tf E out rule: less_induct)
  case less
  from drain_round_ok [OF less.prems, of f now] obtain tf1 found where
    r: "drain_round f now tf = Some (tf1, found)" "same_trace tf tf1" "case found of
       None \<Rightarrow> front_ok tf1 E D \<and> held_back f (releases tf1) (replay_scheduler tf1) (length E - length D) now
     | Some q \<Rightarrow> front_ok tf1 (E @ [q]) D" by blast
  show ?case
  proof (cases found)
    case None
    then show ?thesis using r by (subst drain_due.simps) auto
  next
    case (Some q)
    then have ok: "front_ok tf1 (E @ [q]) D" using r(3) by simp
    from sched_ok_bound [OF front_okD [OF this]] have "length (E @ [q]) \<le> length (releases tf1)" by simp
    moreover have "releases tf1 = releases tf" using r(2) by (simp add: same_trace_def)
    ultimately have "length (releases tf1) - length (E @ [q]) < length (releases tf) - length E" by simp
    from less.hyps [OF this ok, of "out @ [q]"] obtain tf' qs where
      "drain_due f now tf1 (out @ [q]) = Some (tf', out @ q # qs)" "same_trace tf1 tf'" "front_ok tf' (E @ q # qs) D"
      "held_back f (releases tf') (replay_scheduler tf') (length (E @ q # qs) - length D) now" by auto
    then show ?thesis using r(1,2) Some same_trace_trans
      by (subst drain_due.simps) (auto intro!: exI [of _ tf'] exI [of _ "q # qs"])
  qed
qed

lemma completion_ok:
  assumes "front_ok tf E D" and "r \<in> rid ` set E" and "r \<notin> fst ` set D"
  shows "\<exists>tf'. record_completion tf r now = Some tf' \<and> same_trace tf tf' \<and> front_ok tf' E (D @ [(r, now)])"
proof -
  let ?rel = "releases tf" and ?sch = "replay_scheduler tf" and ?ids = "map rid E"
  note ok = assms(1) [unfolded front_ok_def] and sok = front_okD [OF assms(1), unfolded sched_ok_def]
  have r: "r \<in> set ?ids" "r < length ?rel" using assms(2) sok by auto
  have base: "distinct ?ids" "set ?ids \<subseteq> {..<length ?rel}" "distinct (map fst (D @ [(r, now)]))" "fst ` set (D @ [(r, now)]) \<subseteq> set ?ids"
    using sok assms(3) r by auto
  have stamps: "stamps_ok ?rel E (D @ [(r, now)])" if "chained ?sch"
    using ok that unfolding stamps_ok_def by fastforce
  show ?thesis
  proof (cases "rp_dependency ?sch")
    case (IndependentState c)
    have run: "record_completion tf r now = Some (tf\<lparr>tf_completed := tf_completed tf + 1\<rparr>)"
      using IndependentState by (simp add: record_completion_def replay_on_completion_def)
    have "active_count (rp_active ?sch) (length ?ids - length (D @ [(r, now)])) \<le> l"
      if "rp_capacity ?sch = Some l" for l
    proof -
      have "active_count (rp_active ?sch) (length ?ids - length D) \<le> l" using sok that by blast
      moreover have "rp_active ?sch = ByRequests" using sok IndependentState by simp
      ultimately show ?thesis by (simp add: active_count_def)
    qed
    moreover have "?ids = [0..<c] \<and> c \<le> length ?rel \<and> rp_active ?sch = ByRequests" using sok IndependentState by simp
    ultimately have "sched_ok ?rel ?sch ?ids (D @ [(r, now)])"
      unfolding sched_ok_def IndependentState DependencyState.case using base by blast
    then have "front_ok (tf\<lparr>tf_completed := tf_completed tf + 1\<rparr>) E (D @ [(r, now)])"
      using ok stamps by (simp add: front_ok_def)
    then show ?thesis using run by (auto simp: same_trace_def)
  next
    case (ChainedState succ pred c ready)
    have ch: "chains_exact ?rel succ pred" and ro: "rounds_ok ?rel (set ?ids) (set D) pred c ready"
      and ac: "active_ok ?rel (set ?ids) (fst ` set D) (rp_active ?sch)"
      and cap: "\<And>l. rp_capacity ?sch = Some l \<Longrightarrow> active_count (rp_active ?sch) (length ?ids - length D) \<le> l"
      using sok ChainedState by simp_all
    let ?next = "succ ! r"
    have nx: "?next = None \<longrightarrow> (\<forall>j. \<not> next_round ?rel r j)" "\<And>j. ?next = Some j \<Longrightarrow> next_round ?rel r j"
      using ch r(2) by (auto simp: chains_exact_def)
    let ?ready = "case ?next of None \<Rightarrow> ready | Some j \<Rightarrow> push_ready (now + wait_of ?rel r, j) ready"
    let ?u = "unit_on_completion (rp_active ?sch) (?rel ! r) (?next \<noteq> None)"
    let ?sch' = "?sch\<lparr>rp_active := ?u, rp_dependency := ChainedState succ pred c ?ready\<rparr>"
    have same: "?sch\<lparr>rp_active := ?u, rp_dependency := ChainedState succ pred c ready\<rparr> = ?sch\<lparr>rp_active := ?u\<rparr>"
      using ChainedState by simp
    have lens: "length succ = length ?rel" using ch by (simp add: chains_exact_def)
    have run: "replay_on_completion ?sch ?rel r now = Some ?sch'"
      using ChainedState r(2) lens same
      by (cases "?next") (simp_all add: replay_on_completion_def nth_opt_def wait_of_def Let_def)
    have rounds: "rounds_ok ?rel (set ?ids) (insert (r, now) (set D)) pred c ?ready"
      using rounds_complete [OF ch ro r(1) assms(3) nx] .
    have has: "?next \<noteq> None \<longleftrightarrow> (\<exists>j. next_round ?rel r j)"
    proof (cases ?next)
      case None
      then show ?thesis using nx(1) by simp
    next
      case (Some j)
      then show ?thesis using nx(2) [OF Some] by blast
    qed
    have "active_ok ?rel (set ?ids) (insert r (fst ` set D)) ?u"
      using active_complete(1) [OF ac finite_set r(1) assms(3) has] .
    moreover have "active_count ?u n \<le> l" if "rp_capacity ?sch = Some l" for n l
    proof -
      have "active_count ?u n \<le> active_count (rp_active ?sch) n" using active_complete(2) [OF ac finite_set r(1) assms(3) has] .
      moreover have "active_count (rp_active ?sch) n = active_count (rp_active ?sch) (length ?ids - length D)"
        using ac by (auto simp: active_ok_def active_count_def)
      ultimately show ?thesis using cap [OF that] by simp
    qed
    ultimately have "sched_ok ?rel ?sch' ?ids (D @ [(r, now)])"
      unfolding sched_ok_def using base ch rounds by simp
    then have "front_ok (tf\<lparr>tf_completed := tf_completed tf + 1, replay_scheduler := ?sch'\<rparr>) E (D @ [(r, now)])"
      using ok stamps ChainedState by (simp add: front_ok_def chained_def)
    then show ?thesis using run ChainedState by (auto simp: record_completion_def same_trace_def chained_def)
  qed
qed

lemma new_frontend_ok:
  assumes "new_frontend f arrival capacity dependency rows = Some tf" and "length rows \<le> u32_max"
    and "\<And>i. i < length rows \<Longrightarrow> rm_request_id (sq_release (rows ! i)) = i"
  shows "front_ok tf [] [] \<and> scheduled_requests tf = rows \<and> rp_arrival (replay_scheduler tf) = arrival
    \<and> rp_capacity (replay_scheduler tf) = capacity \<and> (chained (replay_scheduler tf) \<longleftrightarrow> dependency = Chained)"
proof -
  let ?rel = "map sq_release rows"
  from build_chains_ok [of ?rel] assms(2) obtain succ pred where
    ch: "build_chains ?rel = Some (succ, pred)" "chains_exact ?rel succ pred"
    by (auto simp: chains_exact_def)
  have start: "i < length ?rel \<Longrightarrow> \<not> pred ! i \<Longrightarrow> i \<notin> {}" for i by simp
  have "rounds_ok ?rel {} {} pred 0 []" by (simp add: rounds_ok_def)
  moreover have "active_ok ?rel {} {} (BySessions [] 0)" by (simp add: active_ok_def session_open_def alone_out_def)
  ultimately show ?thesis
    using assms(1,3) ch
    by (cases dependency) (auto simp: new_frontend_def new_scheduler_def bind_Some_iff front_ok_def trace_ok_def sched_ok_def
      active_count_def stamps_ok_def chained_def)
qed

subsection \<open>Every run of the frontend\<close>

text \<open>\<open>E\<close>: the requests released, in order; \<open>D\<close>: the completions reported back, with their times. A completion is of
  a request that was released and has not completed.\<close>

inductive replay_run :: "('f, 'z) clock_ops_scheme \<Rightarrow> ('f, 'd) TraceFrontend \<Rightarrow> ('f, 'd) TraceFrontend \<Rightarrow>
    'd Request list \<Rightarrow> (nat \<times> nat) list \<Rightarrow> bool" for f tf0 where
  rr_start: "replay_run f tf0 tf0 [] []"
| rr_drain: "replay_run f tf0 tf E D \<Longrightarrow> drain_due f now tf [] = Some (tf', qs) \<Longrightarrow> replay_run f tf0 tf' (E @ qs) D"
| rr_done: "replay_run f tf0 tf E D \<Longrightarrow> r \<in> rid ` set E \<Longrightarrow> r \<notin> fst ` set D \<Longrightarrow> record_completion tf r now = Some tf' \<Longrightarrow>
    replay_run f tf0 tf' E (D @ [(r, now)])"

lemma replay_run_front:
  assumes "replay_run f tf0 tf E D" and "front_ok tf0 [] []"
  shows "front_ok tf E D \<and> same_trace tf0 tf"
  using assms(1)
proof induction
  case rr_start
  then show ?case using assms(2) by (simp add: same_trace_def)
next
  case (rr_drain tf E D now tf' qs)
  then show ?case using drain_due_ok [of tf E D f now "[]"] same_trace_trans by fastforce
next
  case (rr_done tf E D r now tf')
  then show ?case using completion_ok [of tf E D r now] same_trace_trans by fastforce
qed

text \<open>What is held back now is not released by another look at the same time.\<close>

lemma held_back_none:
  assumes "held_back f rel sch n now" and "sched_ok rel sch ids D"
  shows "\<exists>sch'. next_ready f sch rel n now = Some (sch', None)"
proof (cases "rp_dependency sch")
  case (IndependentState c)
  have "c \<le> length rel" using assms(2) IndependentState by (simp add: sched_ok_def)
  moreover have "\<not> (c < length rel \<and> release_time f (rp_arrival sch) (rel ! c) now \<noteq> None
      \<and> capacity_admits (rp_capacity sch) (active_count (rp_active sch) n))"
    using assms(1) IndependentState by (auto simp: held_back_def Let_def)
  ultimately show ?thesis using release_head_none by (simp add: next_ready_def IndependentState Let_def) blast
next
  case (ChainedState succ pred c ready)
  have c: "c \<le> length rel" "length pred = length rel"
    using assms(2) ChainedState by (simp_all add: sched_ok_def rounds_ok_def chains_exact_def)
  have h: "\<forall>x \<in> set ready. now < fst x" "c < length rel \<longrightarrow> \<not> pred ! c"
    "\<not> (c < length rel \<and> release_time f (rp_arrival sch) (rel ! c) now \<noteq> None
        \<and> capacity_admits (rp_capacity sch) (active_count (rp_active sch) n))"
    using assms(1) ChainedState by (auto simp: held_back_def Let_def)
  have "scan_heads pred (length rel) c = Some c" using h(2) c by (subst scan_heads.simps) (simp add: nth_opt_def)
  moreover have "\<not> (ready \<noteq> [] \<and> fst (hd ready) \<le> now)" using h(1) by (cases ready) auto
  ultimately show ?thesis using release_head_none [OF c(1) h(3)] by (simp add: next_ready_def ChainedState Let_def) blast
qed

lemma stalled_all_out:
  assumes "chains_exact rel succ pred" and "rounds_ok rel out done pred (length rel) []" and "out = fst ` done" and "j < length rel"
  shows "j \<in> out"
  using assms(4)
proof (induction j rule: less_induct)
  case (less j)
  show ?case
  proof (cases "pred ! j")
    case True
    then obtain i where i: "next_round rel i j" using assms(1) less.prems by (auto simp: chains_exact_def)
    then have "i \<in> out" using less by (auto simp: next_round_def)
    then have "j \<notin> out \<longrightarrow> j \<in> snd ` set ([] :: (nat \<times> nat) list)"
      using assms(2,3) i unfolding rounds_ok_def by blast
    then show ?thesis by auto
  qed (use assms(2) less.prems in \<open>simp add: rounds_ok_def\<close>)
qed

lemma stalled_none_active:
  assumes "chains_exact rel succ pred" and "rounds_ok rel out done pred c []" and "out = fst ` done" and "out \<subseteq> {..<length rel}"
  shows "\<not> session_open rel out out s" and "alone_out rel out out = {}"
proof -
  show "alone_out rel out out = {}" by (simp add: alone_out_def)
  show "\<not> session_open rel out out s"
  proof
    assume opn: "session_open rel out out s"
    let ?S = "{i \<in> out. sid_of rel i = Some s}"
    have fin: "finite ?S" using assms(4) by (rule_tac finite_subset [of _ "{..<length rel}"]) auto
    have ne: "?S \<noteq> {}" using opn by (auto simp: session_open_def)
    define m where "m = Max ?S"
    have m: "m \<in> out" "sid_of rel m = Some s" using Max_in [OF fin ne] by (simp_all add: m_def)
    then obtain j where j: "next_round rel m j" using opn by (auto simp: session_open_def)
    have "j \<in> snd ` set ([] :: (nat \<times> nat) list) \<longleftrightarrow> j \<notin> out \<and> (\<exists>i \<in> fst ` done. next_round rel i j)"
      using assms(2) unfolding rounds_ok_def by blast
    then have "j \<in> ?S" using j m assms(3) by (auto simp: next_round_def)
    then have "j \<le> m" unfolding m_def by (rule Max_ge [OF fin])
    then show False using j by (simp add: next_round_def)
  qed
qed

lemma due_round_released:
  assumes "rp_dependency sch = ChainedState succ pred c ready" and "ready \<noteq> []" and "fst (hd ready) \<le> now"
    and "next_ready f sch rel n now = Some (sch', found)"
  shows "found \<noteq> None"
  using assms by (auto simp: next_ready_def admit_release_def bind_Some_iff)

lemma due_head_released:
  assumes "release_head f sch rel True c dep now = Some (sch', found)" and "c < length rel"
    and "release_time f (rp_arrival sch) (rel ! c) now \<noteq> None"
  shows "found \<noteq> None"
  using assms by (auto simp: release_head_def admit_release_def nth_opt_def bind_Some_iff)

text \<open>With everything completed and rows left, one of them is due later.\<close>

lemma stall_is_wait:
  assumes "sched_ok rel sch ids D" and "held_back f rel sch (length ids - length D) now" and "length D = length ids"
    and "length ids < length rel" and "rp_capacity sch \<noteq> Some 0"
  shows "\<exists>t > now. \<forall>now' \<ge> t. \<forall>sch' found. next_ready f sch rel 0 now' = Some (sch', found) \<longrightarrow> found \<noteq> None"
proof -
  have free: "capacity_admits (rp_capacity sch) 0" using assms(5) by (auto simp: capacity_admits_def split: option.splits)
  have timed: "\<exists>t > now. \<forall>now' \<ge> t. release_time f (rp_arrival sch) row now' \<noteq> None"
    if "release_time f (rp_arrival sch) row now = None" for row
    using that by (auto simp: release_time_def Let_def split: ArrivalMode.splits if_splits
      intro!: exI [of _ "effective_arrival f (trace_arrival_time_ms row) (request_rate (rp_arrival sch))"])
  show ?thesis
  proof (cases "rp_dependency sch")
    case (IndependentState c)
    then have c: "ids = [0..<c]" "rp_active sch = ByRequests" using assms(1) by (simp_all add: sched_ok_def)
    then have "c < length rel" using assms(4) by simp
    moreover have "release_time f (rp_arrival sch) (rel ! c) now = None"
      using assms(2,3) IndependentState c \<open>c < length rel\<close> free by (simp add: held_back_def Let_def active_count_def)
    then obtain t where "now < t" "\<forall>now' \<ge> t. release_time f (rp_arrival sch) (rel ! c) now' \<noteq> None" using timed by blast
    ultimately show ?thesis using IndependentState c free
      by (intro exI [of _ t]) (auto simp: next_ready_def active_count_def dest!: due_head_released)
  next
    case (ChainedState succ pred c ready)
    have ch: "chains_exact rel succ pred" and ro: "rounds_ok rel (set ids) (set D) pred c ready"
      and ac: "active_ok rel (set ids) (fst ` set D) (rp_active sch)" and sub: "set ids \<subseteq> {..<length rel}" and dist: "distinct ids"
      and D: "distinct (map fst D)" "fst ` set D \<subseteq> set ids"
      using assms(1) ChainedState by (simp_all add: sched_ok_def)
    have all: "set ids = fst ` set D"
      using card_subset_eq [OF _ D(2)] distinct_card [OF D(1)] distinct_card [OF dist] assms(3) by simp
    note held = assms(2) [unfolded held_back_def ChainedState, simplified]
    show ?thesis
    proof (cases "ready = []")
      case False
      then have "now < fst (hd ready)" using held by (simp add: Let_def)
      then show ?thesis using due_round_released [OF ChainedState False] by blast
    next
      case True
      obtain opn alone where u: "rp_active sch = BySessions opn alone" "set opn = {s. session_open rel (set ids) (fst ` set D) s}"
        "alone = card (alone_out rel (set ids) (fst ` set D))" using ac by (auto simp: active_ok_def)
      have "set opn = {}" "alone = 0"
        using stalled_none_active [OF ch ro [unfolded True] all sub] u(2,3) all by simp_all
      then have count: "active_count (rp_active sch) k = 0" for k using u(1) by (simp add: active_count_def)
      have "c < length rel"
      proof (rule ccontr)
        assume "\<not> c < length rel"
        then have "c = length rel" using ro by (simp add: rounds_ok_def)
        then have "rounds_ok rel (set ids) (set D) pred (length rel) []" using ro True by simp
        from stalled_all_out [OF ch this all] have "{..<length rel} \<subseteq> set ids" by auto
        then have "length rel \<le> card (set ids)" using card_mono [of "set ids" "{..<length rel}"] by simp
        then show False using distinct_card [OF dist] assms(4) by simp
      qed
      moreover have np: "\<not> pred ! c" using held \<open>c < length rel\<close> by (simp add: Let_def)
      moreover have "release_time f (rp_arrival sch) (rel ! c) now = None"
        using held \<open>c < length rel\<close> free by (simp add: Let_def count)
      then obtain t where t: "now < t" "\<forall>now' \<ge> t. release_time f (rp_arrival sch) (rel ! c) now' \<noteq> None" using timed by blast
      moreover have "scan_heads pred (length rel) c = Some c"
        using np \<open>c < length rel\<close> ch by (subst scan_heads.simps) (simp add: nth_opt_def chains_exact_def)
      ultimately show ?thesis using free
        by (intro exI [of _ t]) (auto simp: next_ready_def ChainedState True count dest!: due_head_released)
    qed
  qed
qed

text \<open>The chains a trace is replayed by: \<open>successor[i]\<close> is the next row of the same session after \<open>i\<close>, if there
  is one, and \<open>has_predecessor[j]\<close> says that \<open>j\<close> is such a row; rows without a session stand alone.\<close>

theorem build_chains_exact:
  assumes "length rel \<le> u32_max"
  shows "\<exists>succ pred. build_chains rel = Some (succ, pred) \<and> length succ = length rel \<and> length pred = length rel
    \<and> (\<forall>i < length rel. \<forall>j. succ ! i = Some j \<longleftrightarrow> next_round rel i j)
    \<and> (\<forall>j < length rel. pred ! j \<longleftrightarrow> (\<exists>i. next_round rel i j))"
  using build_chains_ok [OF assms] .

text \<open>C13: Whatever drains and completions a run interleaves: no row is released twice, every released request carries
  its row's id and definition, the frontend is exhausted exactly when every row has been released, and with
  chained sessions a later round is released only once its predecessor has completed, stamped no earlier than
  that completion and the predecessor's tool wait.\<close>

theorem replay_order:
  assumes "new_frontend f arrival capacity dependency rows = Some tf0" and "length rows \<le> u32_max"
    and "\<And>i. i < length rows \<Longrightarrow> rm_request_id (sq_release (rows ! i)) = i" and "replay_run f tf0 tf E D"
  shows "distinct (map rid E) \<and> (\<forall>q \<in> set E. rid q < length rows \<and> rq_definition q = sq_definition (rows ! rid q))
    \<and> (exhausted tf \<longleftrightarrow> set (map rid E) = {..<length rows}) \<and> in_flight tf = Some (length E - length D)
    \<and> (dependency = Chained \<longrightarrow> (\<forall>q \<in> set E. \<forall>i. next_round (map sq_release rows) i (rid q) \<longrightarrow>
         (\<exists>t. (i, t) \<in> set D \<and> t + wait_of (map sq_release rows) i \<le> rc_arrival_time (rq_core q))))"
proof -
  note new = new_frontend_ok [OF assms(1-3)]
  from replay_run_front [OF assms(4)] new have ok: "front_ok tf E D" and same: "same_trace tf0 tf" by blast+
  note f = ok [unfolded front_ok_def] and s = front_okD [OF ok]
  have rows: "scheduled_requests tf = rows" using same new by (simp add: same_trace_def)
  have "releases tf = map sq_release (scheduled_requests tf)" using f by (simp add: trace_ok_def)
  then have rel: "releases tf = map sq_release rows" unfolding rows .
  have dist: "distinct (map rid E)" and sub: "set (map rid E) \<subseteq> {..<length rows}"
    using s by (simp_all add: sched_ok_def rel)
  have "length E \<ge> length rows \<longleftrightarrow> set (map rid E) = {..<length rows}"
  proof
    assume "length rows \<le> length E"
    then have "card {..<length rows} \<le> card (set (map rid E))" using distinct_card [OF dist] by simp
    then show "set (map rid E) = {..<length rows}" using card_seteq [OF _ sub] by simp
  next
    assume "set (map rid E) = {..<length rows}"
    then have "card (set (map rid E)) = length rows" by simp
    then show "length rows \<le> length E" using distinct_card [OF dist] by simp
  qed
  moreover have "stamps_ok (map sq_release rows) E D" if "dependency = Chained"
    using f new same that by (simp add: same_trace_def rel)
  moreover have "in_flight tf = Some (length E - length D)"
    using f sched_ok_done [OF s] by (simp add: in_flight_def checked_sub_def)
  ultimately show ?thesis using f dist sub rows by (auto simp: exhausted_def stamps_ok_def)
qed

text \<open>C17: The capacity limit holds at every moment of every run: with independent rows no more requests are in flight
  than it allows; with chained sessions no more units are active, counting every session whose first round was
  released and whose last has not completed (tool waits included) and every row without a session in flight.\<close>

theorem capacity_respected:
  assumes "new_frontend f arrival (Some limit) dependency rows = Some tf0" and "length rows \<le> u32_max"
    and "\<And>i. i < length rows \<Longrightarrow> rm_request_id (sq_release (rows ! i)) = i" and "replay_run f tf0 tf E D"
  shows "case dependency of Independent \<Rightarrow> length E - length D \<le> limit
    | Chained \<Rightarrow> card {s. session_open (map sq_release rows) (set (map rid E)) (fst ` set D) s}
        + card (alone_out (map sq_release rows) (set (map rid E)) (fst ` set D)) \<le> limit"
proof -
  note new = new_frontend_ok [OF assms(1-3)]
  from replay_run_front [OF assms(4)] new have ok: "front_ok tf E D" and same: "same_trace tf0 tf" by blast+
  note f = ok [unfolded front_ok_def] and s = front_okD [OF ok]
  have rows: "scheduled_requests tf = rows" using same new by (simp add: same_trace_def)
  have "releases tf = map sq_release (scheduled_requests tf)" using f by (simp add: trace_ok_def)
  then have rel: "releases tf = map sq_release rows" unfolding rows .
  have cap: "rp_capacity (replay_scheduler tf) = Some limit" "chained (replay_scheduler tf) \<longleftrightarrow> dependency = Chained"
    using new same by (simp_all add: same_trace_def)
  have le: "active_count (rp_active (replay_scheduler tf)) (length (map rid E) - length D) \<le> limit"
    using s cap(1) unfolding sched_ok_def by blast
  show ?thesis
  proof (cases "rp_dependency (replay_scheduler tf)")
    case (IndependentState c)
    then have "rp_active (replay_scheduler tf) = ByRequests" using s by (simp add: sched_ok_def)
    then show ?thesis using le cap(2) IndependentState by (cases dependency) (simp_all add: active_count_def chained_def)
  next
    case (ChainedState succ pred c ready)
    then have "active_ok (map sq_release rows) (set (map rid E)) (fst ` set D) (rp_active (replay_scheduler tf))"
      using s by (simp add: sched_ok_def rel)
    then obtain opn where u: "rp_active (replay_scheduler tf) = BySessions opn
        (card (alone_out (map sq_release rows) (set (map rid E)) (fst ` set D)))" "distinct opn"
      "set opn = {s. session_open (map sq_release rows) (set (map rid E)) (fst ` set D) s}" by (auto simp: active_ok_def)
    have "card {s. session_open (map sq_release rows) (set (map rid E)) (fst ` set D) s} = length opn"
      using distinct_card [OF u(2)] unfolding u(3) .
    then show ?thesis using le cap(2) ChainedState by (cases dependency) (simp_all add: u(1) active_count_def chained_def)
  qed
qed

text \<open>C18: Draining ends and nothing panics: in every run \<open>drain_due\<close> returns, another drain at the same time finds
  nothing more, and the completion of any request in flight is accepted.\<close>

theorem drain_terminates:
  assumes "new_frontend f arrival capacity dependency rows = Some tf0" and "length rows \<le> u32_max"
    and "\<And>i. i < length rows \<Longrightarrow> rm_request_id (sq_release (rows ! i)) = i" and "replay_run f tf0 tf E D"
  shows "(\<exists>tf' qs. drain_due f now tf [] = Some (tf', qs) \<and> (\<exists>tf''. drain_due f now tf' [] = Some (tf'', [])))
    \<and> (\<forall>r \<in> rid ` set E - fst ` set D. record_completion tf r now \<noteq> None)"
proof -
  from replay_run_front [OF assms(4)] new_frontend_ok [OF assms(1-3)] have ok: "front_ok tf E D" by blast
  from drain_due_ok [OF ok, of f now "[]"] obtain tf' qs where d: "drain_due f now tf [] = Some (tf', qs)" "front_ok tf' (E @ qs) D"
    "held_back f (releases tf') (replay_scheduler tf') (length (E @ qs) - length D) now" by auto
  note s = front_okD [OF d(2)]
  from held_back_none [OF d(3) s] obtain sch where
    "next_ready f (replay_scheduler tf') (releases tf') (length (E @ qs) - length D) now = Some (sch, None)" by blast
  moreover have "in_flight tf' = Some (length (E @ qs) - length D)"
    using d(2) sched_ok_done [OF s] by (simp add: front_ok_def in_flight_def checked_sub_def)
  ultimately have "drain_due f now tf' [] = Some (tf'\<lparr>replay_scheduler := sch\<rparr>, [])"
    by (subst drain_due.simps) (simp add: drain_round_def)
  then show ?thesis using d(1) completion_ok [OF ok, of _ now] by auto
qed

text \<open>C19: The frontend never holds everything back for ever: when all released requests have completed, rows are left and
  a drain finds nothing to release, then from some later time on every drain does release a request.\<close>

theorem replay_never_stalls:
  assumes "new_frontend f arrival capacity dependency rows = Some tf0" and "length rows \<le> u32_max"
    and "\<And>i. i < length rows \<Longrightarrow> rm_request_id (sq_release (rows ! i)) = i" and "capacity \<noteq> Some 0"
    and "replay_run f tf0 tf E D" and "length D = length E" and "\<not> exhausted tf" and "drain_due f now tf [] = Some (tf', [])"
  shows "\<exists>t > now. \<forall>now' \<ge> t. \<exists>tf'' qs. drain_due f now' tf' [] = Some (tf'', qs) \<and> qs \<noteq> []"
proof -
  note new = new_frontend_ok [OF assms(1-3)]
  from replay_run_front [OF assms(5)] new have ok: "front_ok tf E D" and same: "same_trace tf0 tf" by blast+
  from drain_due_ok [OF ok, of f now "[]"] assms(8) have ok': "front_ok tf' E D" and same': "same_trace tf tf'"
    and held: "held_back f (releases tf') (replay_scheduler tf') (length (map rid E) - length D) now" by auto
  have sch: "sched_ok (releases tf') (replay_scheduler tf') (map rid E) D" by (rule front_okD [OF ok'])
  have left: "length (map rid E) < length (releases tf')"
    using assms(7) ok same' by (simp add: exhausted_def same_trace_def front_ok_def trace_ok_def)
  have cap: "rp_capacity (replay_scheduler tf') \<noteq> Some 0" using assms(4) new same same' by (simp add: same_trace_def)
  from stall_is_wait [OF sch held _ left cap] assms(6) obtain t where t: "now < t"
    "\<forall>now' \<ge> t. \<forall>sch' found. next_ready f (replay_scheduler tf') (releases tf') 0 now' = Some (sch', found) \<longrightarrow> found \<noteq> None" by auto
  have "\<exists>tf'' qs. drain_due f now' tf' [] = Some (tf'', qs) \<and> qs \<noteq> []" if "t \<le> now'" for now'
  proof -
    from drain_round_ok [OF ok', of f now'] obtain tf1 found where r: "drain_round f now' tf' = Some (tf1, found)"
      "case found of None \<Rightarrow> front_ok tf1 E D \<and> held_back f (releases tf1) (replay_scheduler tf1) (length E - length D) now'
       | Some q \<Rightarrow> front_ok tf1 (E @ [q]) D" by blast
    have "in_flight tf' = Some 0" using ok' assms(6) by (simp add: front_ok_def in_flight_def checked_sub_def)
    then have "found \<noteq> None" using r(1) t(2) that
      by (fastforce simp: drain_round_def bind_Some_iff Let_def split: option.splits)
    then obtain q where q: "found = Some q" by blast
    from drain_due_ok [of tf1 "E @ [q]" D f now' "[q]"] r(2) q obtain tf'' qs where
      "drain_due f now' tf1 [q] = Some (tf'', q # qs)" by auto
    then have "drain_due f now' tf' [] = Some (tf'', q # qs)" using r(1) q by (subst drain_due.simps) simp
    then show ?thesis by blast
  qed
  then show ?thesis using t(1) by blast
qed

subsection \<open>A concrete trace\<close>

text \<open>Two rounds of one session and a lone row, on natural numbers as milliseconds.\<close>

definition sample_clock :: "nat clock_ops" where
  "sample_clock = \<lparr>f_of_nat = id, f_add = (+), f_sub = (-), f_mul = (*), f_div = (div), f_max = max, f_min = min,
     f_lt = (<), f_as_u64 = id, f_is_finite = (\<lambda>_. True)\<rparr>"

definition sample_row :: "nat \<Rightarrow> nat \<Rightarrow> SessionReleaseMetadata option \<Rightarrow> (nat, unit) ScheduledRequest" where
  "sample_row r t session = \<lparr>sq_release = \<lparr>rm_request_id = r, trace_arrival_time_ms = t, rm_session = session\<rparr>,
     sq_slo = \<lparr>ttft_slo = None, tpot_slo = None, e2e_slo = None\<rparr>, sq_priority = 0,
     sq_definition = \<lparr>prompt_tokens = 8, target_output_tokens = 2, td_session = Standalone, td_decoding = ()\<rparr>\<rparr>"

definition sample_rows :: "(nat, unit) ScheduledRequest list" where
  "sample_rows = [sample_row 0 0 (Some \<lparr>sr_session_id = 4, tool_wait_after = 100\<rparr>),
     sample_row 1 0 (Some \<lparr>sr_session_id = 4, tool_wait_after = 0\<rparr>), sample_row 2 7 None]"

lemma sample_rows_facts:
  "length sample_rows \<le> u32_max" "i < length sample_rows \<Longrightarrow> rm_request_id (sq_release (sample_rows ! i)) = i"
  by (auto simp: sample_rows_def sample_row_def u32_max_def less_Suc_eq numeral_3_eq_3)

definition sample_arrival :: "nat ArrivalSchedule" where
  "sample_arrival = \<lparr>as_mode = TraceTimed, request_rate = 1\<rparr>"

definition sample_front :: "nat \<Rightarrow> nat \<Rightarrow> nat \<Rightarrow> (nat \<times> nat) list \<Rightarrow> nat list \<Rightarrow> (nat, unit) TraceFrontend" where
  "sample_front out fin c ready opn = \<lparr>scheduled_requests = sample_rows, releases = map sq_release sample_rows,
     tf_emitted = out, tf_completed = fin, replay_scheduler = \<lparr>rp_arrival = sample_arrival, rp_capacity = Some 1,
       rp_dependency = ChainedState [Some 1, None, None] [False, True, False] c ready,
       rp_active = BySessions opn 0, capacity_backlogged = False\<rparr>\<rparr>"

lemma sample_new: "new_frontend sample_clock sample_arrival (Some 1) Chained sample_rows = Some (sample_front 0 0 0 [] [])"
  by (simp add: new_frontend_def new_scheduler_def arrival_order_ok_def build_chains_def link_row_def sample_rows_def
      sample_row_def sample_front_def sample_clock_def upt_rec numeral_2_eq_2 enumerate_Suc_eq as_u32_def AList.update.simps)

lemmas sample_step_defs = drain_round_def in_flight_def checked_sub_def next_ready_def release_head_def admit_release_def
  release_time_def effective_arrival_def from_ms_def capacity_admits_def active_count_def unit_on_release_def
  unit_on_completion_def record_completion_def replay_on_completion_def nth_opt_def scan_heads.simps sample_front_def sample_rows_def
  sample_row_def sample_clock_def sample_arrival_def realize_at_def

lemma sample_rounds:
  "drain_round sample_clock 0 (sample_front 0 0 0 [] []) = Some (sample_front 1 0 1 [] [4], Some (realize_at (sample_rows ! 0) 0))"
  "drain_round sample_clock 0 (sample_front 1 0 1 [] [4]) = Some (sample_front 1 0 2 [] [4], None)"
  "record_completion (sample_front 1 0 2 [] [4]) 0 50 = Some (sample_front 1 1 2 [(150, 1)] [4])"
  "drain_round sample_clock 60 (sample_front 1 1 2 [(150, 1)] [4]) = Some (sample_front 1 1 2 [(150, 1)] [4], None)"
  by (simp_all add: sample_step_defs Let_def)

lemma sample_drains:
  "drain_due sample_clock 0 (sample_front 0 0 0 [] []) [] = Some (sample_front 1 0 2 [] [4], [realize_at (sample_rows ! 0) 0])"
  "drain_due sample_clock 60 (sample_front 1 1 2 [(150, 1)] [4]) [] = Some (sample_front 1 1 2 [(150, 1)] [4], [])"
proof -
  have "drain_due sample_clock 0 (sample_front 1 0 1 [] [4]) [realize_at (sample_rows ! 0) 0]
      = Some (sample_front 1 0 2 [] [4], [realize_at (sample_rows ! 0) 0])"
    by (subst drain_due.simps) (simp add: sample_rounds [unfolded One_nat_def])
  then show "drain_due sample_clock 0 (sample_front 0 0 0 [] []) [] = Some (sample_front 1 0 2 [] [4], [realize_at (sample_rows ! 0) 0])"
    by (subst drain_due.simps) (simp add: sample_rounds [unfolded One_nat_def])
  show "drain_due sample_clock 60 (sample_front 1 1 2 [(150, 1)] [4]) [] = Some (sample_front 1 1 2 [(150, 1)] [4], [])"
    by (subst drain_due.simps) (simp add: sample_rounds [unfolded One_nat_def])
qed

lemma sample_first: "rid (realize_at (sample_rows ! 0) 0) = 0"
  by (simp add: sample_rows_def sample_row_def realize_at_def)

lemma sample_runs:
  "replay_run sample_clock (sample_front 0 0 0 [] []) (sample_front 1 0 2 [] [4]) [realize_at (sample_rows ! 0) 0] []"
  "replay_run sample_clock (sample_front 0 0 0 [] []) (sample_front 1 1 2 [(150, 1)] [4]) [realize_at (sample_rows ! 0) 0] [(0, 50)]"
proof -
  show run: "replay_run sample_clock (sample_front 0 0 0 [] []) (sample_front 1 0 2 [] [4]) [realize_at (sample_rows ! 0) 0] []"
    using rr_drain [OF rr_start sample_drains(1)] by simp
  show "replay_run sample_clock (sample_front 0 0 0 [] []) (sample_front 1 1 2 [(150, 1)] [4]) [realize_at (sample_rows ! 0) 0] [(0, 50)]"
    using rr_done [OF run, of 0 50] sample_rounds(3) sample_first by simp
qed

theorem build_chains_exact_witness:
  "\<exists>succ pred. build_chains (map sq_release sample_rows) = Some (succ, pred) \<and> (pred ! 1 \<longleftrightarrow> (\<exists>i. next_round (map sq_release sample_rows) i 1))"
  using build_chains_exact [of "map sq_release sample_rows"] sample_rows_facts(1) by (auto simp: sample_rows_def)

theorem replay_order_witness:
  "\<not> exhausted (sample_front 1 1 2 [(150, 1)] [4]) \<and> in_flight (sample_front 1 1 2 [(150, 1)] [4]) = Some 0"
proof -
  from replay_order [OF sample_new sample_rows_facts sample_runs(2)] sample_first have
    "exhausted (sample_front 1 1 2 [(150, 1)] [4]) \<longleftrightarrow> {0} = {..<length sample_rows}"
    "in_flight (sample_front 1 1 2 [(150, 1)] [4]) = Some 0" by simp_all
  moreover have "1 \<in> {..<length sample_rows}" by (simp add: sample_rows_def)
  ultimately show ?thesis by auto
qed

theorem capacity_respected_witness:
  "card {s. session_open (map sq_release sample_rows) {0} {} s} + card (alone_out (map sq_release sample_rows) {0} {}) \<le> 1"
  using capacity_respected [OF sample_new sample_rows_facts sample_runs(1)] sample_first by simp

theorem drain_terminates_witness:
  "\<exists>tf' qs. drain_due sample_clock 200 (sample_front 1 1 2 [(150, 1)] [4]) [] = Some (tf', qs)"
  using drain_terminates [OF sample_new sample_rows_facts sample_runs(2)] by blast

theorem replay_never_stalls_witness:
  "\<exists>t > 60. \<exists>tf'' qs. drain_due sample_clock t (sample_front 1 1 2 [(150, 1)] [4]) [] = Some (tf'', qs) \<and> qs \<noteq> []"
proof -
  have "\<not> exhausted (sample_front 1 1 2 [(150, 1)] [4])" by (simp add: exhausted_def sample_front_def sample_rows_def)
  from replay_never_stalls [OF sample_new sample_rows_facts _ sample_runs(2) _ this sample_drains(2)] show ?thesis by auto
qed

end
