(* ===== verification/Trace_Load.thy ===== *)
theory Trace_Load
  imports Trace_Replay
begin

section \<open>Loading a trace (\<open>sim/frontend/schema.rs\<close>, \<open>load_typed\<close> of \<open>mod.rs\<close>)\<close>

text \<open>
  The rows of the input files become requests with dense ids. Parsing the CSV files is the external crate
  \<open>req-frontend\<close>: what it returns, rows with the fields the loader uses or a rejected file, is the
  input here, for the two text formats. It also validates every file without a \<open>prefix_len\<close> column; the rows of a file
  with that column are checked by \<open>pinned_prefix.rs\<close>, modelled here. Source ids are strings; the loader's \<open>bail!\<close> and \<open>?\<close> are \<open>Inl\<close>.
\<close>

subsection \<open>Source identities\<close>

record SourceIdentities =
  si_sessions :: "(string \<times> nat) list"
  session_order :: "string list"
  si_requests :: "string list"

definition no_identities :: SourceIdentities where
  "no_identities = \<lparr>si_sessions = [], session_order = [], si_requests = []\<rparr>"

definition intern_session :: "SourceIdentities \<Rightarrow> string \<Rightarrow> SourceIdentities \<times> nat" where
  "intern_session si source = (case map_of (si_sessions si) source of
     Some dense \<Rightarrow> (si, dense)
   | None \<Rightarrow> let dense = as_u32 (length (session_order si)) in
       (si\<lparr>si_sessions := AList.update source dense (si_sessions si), session_order := session_order si @ [source]\<rparr>, dense))"

definition intern_request :: "SourceIdentities \<Rightarrow> string \<Rightarrow> SourceIdentities \<times> nat" where
  "intern_request si source = (si\<lparr>si_requests := si_requests si @ [source]\<rparr>, as_u32 (length (si_requests si)))"

datatype load_error =
  NoFiles | UnreadableFile | WrongFormat | NoRows | DuplicateRequest string | ArrivalOrder | RowRejected | PriorityRange | LengthRange | PrefixOnSession | LoadPanic

text \<open>The first id seen twice.\<close>

fun find_duplicate :: "string list \<Rightarrow> string list \<Rightarrow> string option" where
  "find_duplicate seen [] = None"
| "find_duplicate seen (x # xs) = (if x \<in> set seen then Some x else find_duplicate (x # seen) xs)"

definition finish_loading :: "SourceIdentities \<Rightarrow> load_error + SourceIdentities" where
  "finish_loading si = (case find_duplicate [] (si_requests si) of
     Some duplicate \<Rightarrow> Inl (DuplicateRequest duplicate)
   | None \<Rightarrow> Inr (si\<lparr>si_sessions := []\<rparr>))"

fun decimal :: "nat \<Rightarrow> string" where
  "decimal n = (if n < 10 then [char_of (48 + n)] else decimal (n div 10) @ [char_of (48 + n mod 10)])"

declare decimal.simps [simp del]

definition source_or_ordinal :: "string list \<Rightarrow> nat \<Rightarrow> string" where
  "source_or_ordinal source_ids dense = (case nth_opt source_ids dense of Some s \<Rightarrow> s | None \<Rightarrow> decimal dense)"

definition request_source_id :: "SourceIdentities \<Rightarrow> nat \<Rightarrow> string" where
  "request_source_id si r = source_or_ordinal (si_requests si) r"

definition session_source_id :: "SourceIdentities \<Rightarrow> nat \<Rightarrow> string" where
  "session_source_id si s = source_or_ordinal (session_order si) s"

subsection \<open>Rows\<close>

record 'f RequestSlo =
  ttft_slo_ms :: "'f option"
  tpot_slo_ms :: "'f option"
  e2e_slo_ms :: "'f option"

record ('f, 'd) IndependentRow =
  ir_id :: string
  ir_arrival_time :: 'f
  ir_input_len :: nat
  ir_output_len :: nat
  ir_pinned_prefix :: nat
  ir_session_id :: "string option"
  ir_prefix_kv :: "nat option"
  ir_tool_wait_ms :: "'f option"
  ir_slo :: "'f RequestSlo"
  ir_priority :: int
  ir_decoding :: 'd

record ('f, 'd) SessionRound =
  sn_request_id :: string
  sn_arrival_time :: 'f
  sn_prefix_len :: nat
  sn_input_len :: nat
  sn_output_len :: nat
  sn_tool_wait_ms :: 'f
  sn_slo :: "'f RequestSlo"
  sn_priority :: int
  sn_decoding :: 'd

text \<open>
  What the readers return for a file. \<open>PrefixColumnFile\<close> is an independent file with a \<open>prefix_len\<close> column whose header
  and whose every line decode, tags validated by \<open>req-frontend\<close>; a line that does not is part of \<open>UnreadableInput\<close>.
\<close>

datatype ('f, 'd) parsed_file =
  UnreadableInput
| OtherFormat
| IndependentFile "('f, 'd) IndependentRow list"
| PrefixColumnFile "('f, 'd) IndependentRow list"
| SessionFile "(string \<times> ('f, 'd) SessionRound list) list"

definition slo_contract :: "('f, 'z) clock_ops_scheme \<Rightarrow> 'f RequestSlo \<Rightarrow> SloContract" where
  "slo_contract f slo = \<lparr>ttft_slo = map_option (from_ms f) (ttft_slo_ms slo),
     tpot_slo = map_option (from_ms f) (tpot_slo_ms slo), e2e_slo = map_option (from_ms f) (e2e_slo_ms slo)\<rparr>"

definition usize_to_u32 :: "nat \<Rightarrow> load_error + nat" where
  "usize_to_u32 n = (if n \<le> u32_max then Inr n else Inl LengthRange)"

definition priority_i32 :: "int \<Rightarrow> load_error + int" where
  "priority_i32 p = (if - 2147483648 \<le> p \<and> p \<le> 2147483647 then Inr p else Inl PriorityRange)"

definition pin_prefix :: "SessionInput \<Rightarrow> nat \<Rightarrow> load_error + SessionInput" where
  "pin_prefix session pinned = (if pinned = 0 then Inr session else case session of
     Standalone \<Rightarrow> Inr (PinnedPrefix pinned)
   | Session _ _ _ \<Rightarrow> Inl PrefixOnSession
   | PinnedPrefix _ \<Rightarrow> Inl PrefixOnSession)"

definition bind_res :: "'e + 'a \<Rightarrow> ('a \<Rightarrow> 'e + 'b) \<Rightarrow> 'e + 'b" where
  "bind_res r g = (case r of Inl e \<Rightarrow> Inl e | Inr x \<Rightarrow> g x)"

fun fold_res :: "('x \<Rightarrow> 's \<Rightarrow> 'e + 's) \<Rightarrow> 'x list \<Rightarrow> 's \<Rightarrow> 'e + 's" where
  "fold_res g [] s = Inr s"
| "fold_res g (x # xs) s = bind_res (g x s) (fold_res g xs)"

text \<open>\<open>session_start_times\<close>, the identities, and the rows loaded so far.\<close>

type_synonym ('f, 'd) load_state = "(nat \<times> nat) list \<times> SourceIdentities \<times> ('f, 'd) ScheduledRequest list"

definition start_time_entry :: "(nat \<times> nat) list \<Rightarrow> nat \<Rightarrow> nat \<Rightarrow> (nat \<times> nat) list \<times> nat" where
  "start_time_entry starts sid t = (case map_of starts sid of
     Some t0 \<Rightarrow> (starts, t0) | None \<Rightarrow> (AList.update sid t starts, t))"

definition row_session :: "('f, 'z) clock_ops_scheme \<Rightarrow> ('f, 'd) IndependentRow \<Rightarrow> (nat \<times> nat) list \<Rightarrow> SourceIdentities \<Rightarrow>
     (nat \<times> nat) list \<times> SourceIdentities \<times> SessionReleaseMetadata option \<times> SessionInput" where
  "row_session f row starts si = (case ir_session_id row of
     None \<Rightarrow> (starts, si, None, Standalone)
   | Some source \<Rightarrow>
       if source = [] then (starts, si, None, Standalone)
       else let (si', sid) = intern_session si source;
                (starts', t0) = start_time_entry starts sid (from_ms f (ir_arrival_time row));
                waits = (case ir_tool_wait_ms row of None \<Rightarrow> from_ms f (f_of_nat f 0) | Some w \<Rightarrow> from_ms f w);
                prefixed = (case ir_prefix_kv row of None \<Rightarrow> 0 | Some n \<Rightarrow> n)
            in (starts', si', Some \<lparr>sr_session_id = sid, tool_wait_after = waits\<rparr>, Session sid t0 prefixed))"

definition load_row :: "('f, 'z) clock_ops_scheme \<Rightarrow> ('f, 'd) IndependentRow \<Rightarrow> ('f, 'd) load_state \<Rightarrow> load_error + ('f, 'd) load_state" where
  "load_row f row = (\<lambda>(starts, si, out).
     let (si1, r) = intern_request si (ir_id row);
         (starts', si2, session, session_input) = row_session f row starts si1
     in bind_res (priority_i32 (ir_priority row)) (\<lambda>priority.
        bind_res (usize_to_u32 (ir_input_len row)) (\<lambda>prompt.
        bind_res (usize_to_u32 (ir_output_len row)) (\<lambda>outputs.
        bind_res (pin_prefix session_input (ir_pinned_prefix row)) (\<lambda>session_input'.
        Inr (starts', si2, out @ [\<lparr>sq_release = \<lparr>rm_request_id = r, trace_arrival_time_ms = ir_arrival_time row, rm_session = session\<rparr>,
          sq_slo = slo_contract f (ir_slo row), sq_priority = priority,
          sq_definition = \<lparr>prompt_tokens = prompt, target_output_tokens = outputs, td_session = session_input',
            td_decoding = ir_decoding row\<rparr>\<rparr>]))))))"

definition load_round :: "('f, 'z) clock_ops_scheme \<Rightarrow> nat \<Rightarrow> nat \<Rightarrow> ('f, 'd) SessionRound \<Rightarrow> ('f, 'd) load_state \<Rightarrow>
     load_error + ('f, 'd) load_state" where
  "load_round f sid t0 row = (\<lambda>(starts, si, out).
     let (si', r) = intern_request si (sn_request_id row)
     in bind_res (usize_to_u32 (sn_prefix_len row)) (\<lambda>prefixed.
        bind_res (priority_i32 (sn_priority row)) (\<lambda>priority.
        bind_res (usize_to_u32 (sn_input_len row)) (\<lambda>prompt.
        bind_res (usize_to_u32 (sn_output_len row)) (\<lambda>outputs.
        Inr (starts, si', out @ [\<lparr>sq_release = \<lparr>rm_request_id = r, trace_arrival_time_ms = sn_arrival_time row,
            rm_session = Some \<lparr>sr_session_id = sid, tool_wait_after = from_ms f (sn_tool_wait_ms row)\<rparr>\<rparr>,
          sq_slo = slo_contract f (sn_slo row), sq_priority = priority,
          sq_definition = \<lparr>prompt_tokens = prompt, target_output_tokens = outputs, td_session = Session sid t0 prefixed,
            td_decoding = sn_decoding row\<rparr>\<rparr>]))))))"

definition load_session :: "('f, 'z) clock_ops_scheme \<Rightarrow> string \<times> ('f, 'd) SessionRound list \<Rightarrow> ('f, 'd) load_state \<Rightarrow>
     load_error + ('f, 'd) load_state" where
  "load_session f = (\<lambda>(source, rounds) (starts, si, out).
     let (si', sid) = intern_session si source in
     case rounds of
       [] \<Rightarrow> Inl LoadPanic
     | opener # _ \<Rightarrow>
         let (starts', t0) = start_time_entry starts sid (from_ms f (sn_arrival_time opener))
         in fold_res (load_round f sid t0) rounds (starts', si', out))"

text \<open>A file with a \<open>prefix_len\<close> column: every row is checked before any is loaded (\<open>pinned_prefix.rs\<close>).\<close>

definition validate_row :: "('f, 'z) clock_ops_scheme \<Rightarrow> ('f, 'd) IndependentRow \<Rightarrow> load_error + unit" where
  "validate_row f row = (
     if ir_id row = [] then Inl RowRejected
     else if \<not> f_is_finite f (ir_arrival_time row) \<or> f_lt f (ir_arrival_time row) (f_of_nat f 0) then Inl RowRejected
     else if ir_input_len row = 0 then Inl RowRejected
     else if ir_output_len row = 0 then Inl RowRejected
     else Inr ())"

definition parse_prefix_tokens :: "('f, 'd) IndependentRow \<Rightarrow> load_error + nat" where
  "parse_prefix_tokens row = (if u32_max < ir_pinned_prefix row then Inl RowRejected
     else if u32_max < ir_pinned_prefix row + ir_input_len row then Inl RowRejected
     else Inr (ir_pinned_prefix row))"

definition check_prefix_row :: "('f, 'z) clock_ops_scheme \<Rightarrow> ('f, 'd) IndependentRow \<Rightarrow> unit \<Rightarrow> load_error + unit" where
  "check_prefix_row f row _ =
     bind_res (validate_row f row) (\<lambda>_.
     bind_res (parse_prefix_tokens row) (\<lambda>pinned.
     if pinned \<noteq> 0 \<and> (case ir_session_id row of None \<Rightarrow> False | Some source \<Rightarrow> source \<noteq> []) then Inl RowRejected
     else Inr ()))"

text \<open>A file without the column pins nothing.\<close>

definition with_row :: "('f, 'd) IndependentRow \<Rightarrow> ('f, 'd) IndependentRow" where
  "with_row row = row\<lparr>ir_pinned_prefix := 0\<rparr>"

definition load_file :: "('f, 'z) clock_ops_scheme \<Rightarrow> ('f, 'd) parsed_file \<Rightarrow> ('f, 'd) load_state \<Rightarrow> load_error + ('f, 'd) load_state" where
  "load_file f file st = (case file of
     UnreadableInput \<Rightarrow> Inl UnreadableFile
   | OtherFormat \<Rightarrow> Inl WrongFormat
   | IndependentFile rows \<Rightarrow> fold_res (load_row f) (map with_row rows) st
   | PrefixColumnFile rows \<Rightarrow> bind_res (fold_res (check_prefix_row f) rows ()) (\<lambda>_. fold_res (load_row f) rows st)
   | SessionFile sessions \<Rightarrow> fold_res (load_session f) sessions st)"

text \<open>What the schema declares decides whether rounds are chained: the answers of the external schema type.\<close>

definition dependency_of :: "bool \<Rightarrow> bool \<Rightarrow> SessionDependency" where
  "dependency_of carries_session session_topology = (if carries_session \<or> session_topology then Chained else Independent)"

definition load_typed :: "('f, 'z) clock_ops_scheme \<Rightarrow> ('f, 'd) parsed_file list \<Rightarrow> bool \<Rightarrow> bool \<Rightarrow> 'f ArrivalSchedule \<Rightarrow>
     capacity_limit \<Rightarrow> load_error + (('f, 'd) TraceFrontend \<times> SourceIdentities)" where
  "load_typed f files carries_session session_topology arrival capacity = (
     if files = [] then Inl NoFiles
     else bind_res (fold_res (load_file f) files ([], no_identities, [])) (\<lambda>(starts, si, rows).
       if rows = [] then Inl NoRows
       else bind_res (finish_loading si) (\<lambda>si'.
         if \<not> arrival_order_ok f rows then Inl ArrivalOrder
         else case new_frontend f arrival capacity (dependency_of carries_session session_topology) rows of
           None \<Rightarrow> Inl LoadPanic | Some tf \<Rightarrow> Inr (tf, si'))))"

section \<open>What a loaded trace contains\<close>

subsection \<open>The rows as the files list them\<close>

text \<open>A row's own id, its session and its arrival, in file order.\<close>

type_synonym 'f source = "string \<times> string option \<times> 'f"

definition row_source :: "('f, 'd) IndependentRow \<Rightarrow> 'f source" where
  "row_source row = (ir_id row, (case ir_session_id row of None \<Rightarrow> None | Some s \<Rightarrow> if s = [] then None else Some s),
     ir_arrival_time row)"

definition session_sources :: "string \<times> ('f, 'd) SessionRound list \<Rightarrow> 'f source list" where
  "session_sources = (\<lambda>(source, rounds). map (\<lambda>r. (sn_request_id r, Some source, sn_arrival_time r)) rounds)"

fun file_sources :: "('f, 'd) parsed_file \<Rightarrow> 'f source list" where
  "file_sources UnreadableInput = []"
| "file_sources OtherFormat = []"
| "file_sources (IndependentFile rows) = map row_source rows"
| "file_sources (PrefixColumnFile rows) = map row_source rows"
| "file_sources (SessionFile sessions) = concat (map session_sources sessions)"

lemma with_row_source [simp]: "row_source (with_row row) = row_source row"
  by (simp add: with_row_def row_source_def)

definition trace_sources :: "('f, 'd) parsed_file list \<Rightarrow> 'f source list" where
  "trace_sources files = concat (map file_sources files)"

text \<open>What the loader accepts.\<close>

definition fits_i32 :: "int \<Rightarrow> bool" where
  "fits_i32 p \<longleftrightarrow> - 2147483648 \<le> p \<and> p \<le> 2147483647"

definition row_valid :: "('f, 'd) IndependentRow \<Rightarrow> bool" where
  "row_valid row \<longleftrightarrow> fits_i32 (ir_priority row) \<and> ir_input_len row \<le> u32_max \<and> ir_output_len row \<le> u32_max
     \<and> (ir_pinned_prefix row = 0 \<or> fst (snd (row_source row)) = None)"

definition prefix_row_valid :: "('f, 'z) clock_ops_scheme \<Rightarrow> ('f, 'd) IndependentRow \<Rightarrow> bool" where
  "prefix_row_valid f row \<longleftrightarrow> ir_id row \<noteq> [] \<and> f_is_finite f (ir_arrival_time row) \<and> \<not> f_lt f (ir_arrival_time row) (f_of_nat f 0)
     \<and> 0 < ir_input_len row \<and> 0 < ir_output_len row \<and> ir_pinned_prefix row + ir_input_len row \<le> u32_max
     \<and> ir_output_len row \<le> u32_max \<and> fits_i32 (ir_priority row) \<and> (ir_pinned_prefix row = 0 \<or> fst (snd (row_source row)) = None)"

definition round_valid :: "('f, 'd) SessionRound \<Rightarrow> bool" where
  "round_valid row \<longleftrightarrow> fits_i32 (sn_priority row) \<and> sn_input_len row \<le> u32_max \<and> sn_output_len row \<le> u32_max
     \<and> sn_prefix_len row \<le> u32_max"

definition session_valid :: "string \<times> ('f, 'd) SessionRound list \<Rightarrow> bool" where
  "session_valid = (\<lambda>(_, rounds). rounds \<noteq> [] \<and> list_all round_valid rounds)"

fun file_valid :: "('f, 'z) clock_ops_scheme \<Rightarrow> ('f, 'd) parsed_file \<Rightarrow> bool" where
  "file_valid f UnreadableInput = False"
| "file_valid f OtherFormat = False"
| "file_valid f (IndependentFile rows) = list_all (\<lambda>row. row_valid (with_row row)) rows"
| "file_valid f (PrefixColumnFile rows) = list_all (prefix_row_valid f) rows"
| "file_valid f (SessionFile sessions) = list_all session_valid sessions"

subsection \<open>Folding with errors\<close>

lemma bind_res_simps [simp]: "bind_res (Inl e) g = Inl e" "bind_res (Inr x) g = g x"
  by (simp_all add: bind_res_def)

lemma bind_res_Inr: "bind_res r g = Inr y \<longleftrightarrow> (\<exists>x. r = Inr x \<and> g x = Inr y)"
  by (cases r) simp_all

lemma fold_res_accepts:
  assumes "\<And>x s. x \<in> set xs \<Longrightarrow> (\<exists>s'. g x s = Inr s') \<longleftrightarrow> V x"
  shows "(\<exists>s'. fold_res g xs s = Inr s') \<longleftrightarrow> list_all V xs"
  using assms
proof (induction xs arbitrary: s)
  case (Cons x xs)
  show ?case
  proof (cases "g x s")
    case (Inl e)
    then show ?thesis using Cons.prems [of x s] by simp
  next
    case (Inr s1)
    have "V x" using Cons.prems [of x s] Inr by auto
    moreover have "(\<exists>s'. fold_res g xs s1 = Inr s') \<longleftrightarrow> list_all V xs" by (rule Cons.IH) (rule Cons.prems, simp)
    ultimately show ?thesis using Inr by simp
  qed
qed simp

lemma fold_res_keeps:
  assumes "\<And>x ps s s'. x \<in> set xs \<Longrightarrow> I ps s \<Longrightarrow> g x s = Inr s' \<Longrightarrow> I (ps @ src x) s'"
    and "I ps s" and "fold_res g xs s = Inr s'"
  shows "I (ps @ concat (map src xs)) s'"
  using assms
proof (induction xs arbitrary: ps s)
  case (Cons x xs)
  from Cons.prems(3) obtain s1 where s1: "g x s = Inr s1" "fold_res g xs s1 = Inr s'" by (auto simp: bind_res_Inr)
  have "I (ps @ src x) s1" using Cons.prems(1) [of x ps s s1] Cons.prems(2) s1(1) by simp
  from Cons.IH [OF _ this s1(2)] Cons.prems(1) show ?case by simp
qed simp

subsection \<open>Which rows are accepted\<close>

lemma res_accepts [simp]:
  "(\<exists>x. usize_to_u32 n = Inr x) \<longleftrightarrow> n \<le> u32_max" "(\<exists>x. priority_i32 p = Inr x) \<longleftrightarrow> fits_i32 p"
  by (simp_all add: usize_to_u32_def priority_i32_def fits_i32_def)

lemma usize_res [simp]: "usize_to_u32 n = Inr m \<longleftrightarrow> n \<le> u32_max \<and> m = n"
  by (auto simp: usize_to_u32_def)

lemma priority_res [simp]: "priority_i32 p = Inr q \<longleftrightarrow> fits_i32 p \<and> q = p"
  by (auto simp: priority_i32_def fits_i32_def)

lemma load_row_accepts: "(\<exists>st'. load_row f row st = Inr st') \<longleftrightarrow> row_valid row"
proof -
  obtain starts si out where st: "st = (starts, si, out)" by (cases st)
  obtain starts' si' m session where rs: "row_session f row starts (fst (intern_request si (ir_id row))) = (starts', si', m, session)"
    by (cases "row_session f row starts (fst (intern_request si (ir_id row)))")
  have "(\<exists>x. pin_prefix session (ir_pinned_prefix row) = Inr x) \<longleftrightarrow> ir_pinned_prefix row = 0 \<or> fst (snd (row_source row)) = None"
    using rs by (auto simp: row_session_def pin_prefix_def row_source_def Let_def split: option.splits if_splits prod.splits SessionInput.splits)
  then show ?thesis using rs by (auto simp: st load_row_def row_valid_def bind_res_Inr Let_def split: prod.splits)
qed

lemma load_round_accepts: "(\<exists>st'. load_round f sid t0 row st = Inr st') \<longleftrightarrow> round_valid row"
  by (cases st) (auto simp: load_round_def round_valid_def bind_res_Inr Let_def split: prod.splits)

lemma load_session_accepts: "(\<exists>st'. load_session f s st = Inr st') \<longleftrightarrow> session_valid s"
proof -
  obtain source rounds where s: "s = (source, rounds)" by (cases s)
  obtain starts si out where st: "st = (starts, si, out)" by (cases st)
  obtain si' sid where i: "intern_session si source = (si', sid)" by fastforce
  show ?thesis
  proof (cases rounds)
    case Nil
    then show ?thesis by (simp add: s st i load_session_def session_valid_def)
  next
    case (Cons opener rest)
    obtain starts' t0 where t: "start_time_entry starts sid (from_ms f (sn_arrival_time opener)) = (starts', t0)" by fastforce
    have "load_session f s st = fold_res (load_round f sid t0) rounds (starts', si', out)"
      by (simp add: s st i t Cons load_session_def)
    moreover have "(\<exists>st'. fold_res (load_round f sid t0) rounds (starts', si', out) = Inr st') \<longleftrightarrow> list_all round_valid rounds"
      by (rule fold_res_accepts) (rule load_round_accepts)
    ultimately show ?thesis using Cons by (simp add: s session_valid_def)
  qed
qed

definition prefix_row_checked :: "('f, 'z) clock_ops_scheme \<Rightarrow> ('f, 'd) IndependentRow \<Rightarrow> bool" where
  "prefix_row_checked f row \<longleftrightarrow> ir_id row \<noteq> [] \<and> f_is_finite f (ir_arrival_time row) \<and> \<not> f_lt f (ir_arrival_time row) (f_of_nat f 0)
     \<and> 0 < ir_input_len row \<and> 0 < ir_output_len row \<and> ir_pinned_prefix row + ir_input_len row \<le> u32_max
     \<and> (ir_pinned_prefix row = 0 \<or> fst (snd (row_source row)) = None)"

lemma check_prefix_row_accepts: "(\<exists>x. check_prefix_row f row u = Inr x) \<longleftrightarrow> prefix_row_checked f row"
  by (auto simp: check_prefix_row_def validate_row_def parse_prefix_tokens_def prefix_row_checked_def row_source_def bind_res_Inr
      split: option.splits)

lemma load_file_accepts: "(\<exists>st'. load_file f pf st = Inr st') \<longleftrightarrow> file_valid f pf"
proof (cases pf)
  case (IndependentFile rows)
  have "(\<exists>st'. fold_res (load_row f) (map with_row rows) st = Inr st') \<longleftrightarrow> list_all row_valid (map with_row rows)"
    by (rule fold_res_accepts) (rule load_row_accepts)
  then show ?thesis by (simp add: load_file_def IndependentFile list_all_iff)
next
  case (PrefixColumnFile rows)
  have "(\<exists>st'. fold_res (check_prefix_row f) rows () = Inr st') \<longleftrightarrow> list_all (prefix_row_checked f) rows"
    by (rule fold_res_accepts) (rule check_prefix_row_accepts)
  moreover have "(\<exists>st'. fold_res (load_row f) rows st = Inr st') \<longleftrightarrow> list_all row_valid rows"
    by (rule fold_res_accepts) (rule load_row_accepts)
  moreover have "prefix_row_valid f row \<longleftrightarrow> prefix_row_checked f row \<and> row_valid row" if "row \<in> set rows" for row
    using that by (auto simp: prefix_row_valid_def prefix_row_checked_def row_valid_def)
  ultimately show ?thesis by (auto simp: load_file_def PrefixColumnFile bind_res_Inr list_all_iff)
next
  case (SessionFile sessions)
  have "(\<exists>st'. fold_res (load_session f) sessions st = Inr st') \<longleftrightarrow> list_all session_valid sessions"
    by (rule fold_res_accepts) (rule load_session_accepts)
  then show ?thesis by (simp add: load_file_def SessionFile)
qed (simp_all add: load_file_def)

lemma load_files_accept: "(\<exists>st'. fold_res (load_file f) files st = Inr st') \<longleftrightarrow> list_all (file_valid f) files"
  by (rule fold_res_accepts) (rule load_file_accepts)

subsection \<open>The invariant of loading\<close>

definition first_of :: "'f ReleaseMetadata list \<Rightarrow> nat \<Rightarrow> nat \<Rightarrow> bool" where
  "first_of rel d k \<longleftrightarrow> k < length rel \<and> sid_of rel k = Some d \<and> (\<forall>j < k. sid_of rel j \<noteq> Some d)"

lemma first_of_exists:
  assumes "i < length rel" and "sid_of rel i = Some d"
  shows "\<exists>k \<le> i. first_of rel d k"
proof -
  from ex_least_nat_le [of "\<lambda>k. sid_of rel k = Some d", OF assms(2)] obtain k where
    "k \<le> i" "\<forall>j < k. sid_of rel j \<noteq> Some d" "sid_of rel k = Some d" by blast
  then show ?thesis using assms(1) by (auto simp: first_of_def)
qed

definition sessions_ok :: "SourceIdentities \<Rightarrow> bool" where
  "sessions_ok si \<longleftrightarrow> distinct (session_order si)
     \<and> (\<forall>s d. map_of (si_sessions si) s = Some d \<longleftrightarrow> d < length (session_order si) \<and> session_order si ! d = s)"

text \<open>A row's session in dense form, against its source session.\<close>

definition denotes :: "string list \<Rightarrow> string option \<Rightarrow> nat option \<Rightarrow> bool" where
  "denotes names s x \<longleftrightarrow> (case s of None \<Rightarrow> x = None | Some s \<Rightarrow> \<exists>d. x = Some d \<and> d < length names \<and> names ! d = s)"

lemma denotes_mono: "denotes names s x \<Longrightarrow> denotes (names @ ext) s x"
  by (auto simp: denotes_def nth_append split: option.splits)

definition linked :: "string list \<Rightarrow> 'f source list \<Rightarrow> 'f ReleaseMetadata list \<Rightarrow> bool" where
  "linked names ps rel \<longleftrightarrow> length rel = length ps \<and> (\<forall>i < length ps. rm_request_id (rel ! i) = i
     \<and> trace_arrival_time_ms (rel ! i) = snd (snd (ps ! i))
     \<and> denotes names (fst (snd (ps ! i))) (sid_of rel i))"

definition times_ok :: "('f, 'z) clock_ops_scheme \<Rightarrow> (nat \<times> nat) list \<Rightarrow> ('f, 'd) ScheduledRequest list \<Rightarrow> bool" where
  "times_ok f starts out \<longleftrightarrow>
     (\<forall>d t k. map_of starts d = Some t \<longrightarrow> first_of (map sq_release out) d k \<longrightarrow> t = from_ms f (trace_arrival_time_ms (sq_release (out ! k))))
     \<and> (\<forall>i < length out. \<forall>d. sid_of (map sq_release out) i = Some d \<longleftrightarrow> (\<exists>t p. td_session (sq_definition (out ! i)) = Session d t p))
     \<and> (\<forall>i < length out. \<forall>d t p. td_session (sq_definition (out ! i)) = Session d t p \<longrightarrow> map_of starts d = Some t)"

lemma times_okD:
  assumes "times_ok f starts out"
  shows "i < length out \<Longrightarrow> sid_of (map sq_release out) i = Some d \<longleftrightarrow> (\<exists>t p. td_session (sq_definition (out ! i)) = Session d t p)"
    and "i < length out \<Longrightarrow> td_session (sq_definition (out ! i)) = Session d t p \<Longrightarrow> map_of starts d = Some t"
    and "map_of starts d = Some t \<Longrightarrow> first_of (map sq_release out) d k \<Longrightarrow> t = from_ms f (trace_arrival_time_ms (sq_release (out ! k)))"
  using assms unfolding times_ok_def by blast+

definition started :: "nat set \<Rightarrow> (nat \<times> nat) list \<Rightarrow> 'f ReleaseMetadata list \<Rightarrow> bool" where
  "started D starts rel \<longleftrightarrow> (\<forall>d. map_of starts d \<noteq> None \<longrightarrow> d \<in> D \<or> (\<exists>i < length rel. sid_of rel i = Some d))"

definition load_ok :: "('f, 'z) clock_ops_scheme \<Rightarrow> nat set \<Rightarrow> 'f source list \<Rightarrow> ('f, 'd) load_state \<Rightarrow> bool" where
  "load_ok f D ps = (\<lambda>(starts, si, out). si_requests si = map fst ps \<and> sessions_ok si
     \<and> linked (session_order si) ps (map sq_release out) \<and> times_ok f starts out \<and> started D starts (map sq_release out))"

lemma sid_of_snoc:
  "i < length rel \<Longrightarrow> sid_of (rel @ [r]) i = sid_of rel i"
  "sid_of (rel @ [r]) (length rel) = map_option sr_session_id (rm_session r)"
  by (simp_all add: sid_of_def nth_append)

lemma first_of_snoc:
  "first_of (rel @ [r]) d k \<longleftrightarrow> first_of rel d k
     \<or> k = length rel \<and> map_option sr_session_id (rm_session r) = Some d \<and> (\<forall>j < length rel. sid_of rel j \<noteq> Some d)"
proof (cases "k < length rel")
  case True
  then show ?thesis by (auto simp: first_of_def sid_of_snoc)
next
  case False
  then show ?thesis by (cases "k = length rel") (auto simp: first_of_def sid_of_snoc)
qed

lemma intern_session_ok:
  assumes "sessions_ok si" and "intern_session si s = (si', d)" and "length (session_order si) \<le> u32_max"
  shows "sessions_ok si' \<and> (\<exists>ext. session_order si' = session_order si @ ext) \<and> d < length (session_order si')
      \<and> session_order si' ! d = s \<and> si_requests si' = si_requests si
      \<and> length (session_order si') \<le> Suc (length (session_order si))"
proof (cases "map_of (si_sessions si) s")
    case (Some e)
    then have "si' = si" "d = e" using assms(2) by (simp_all add: intern_session_def)
    moreover have "e < length (session_order si)" "session_order si ! e = s" using assms(1) Some by (auto simp: sessions_ok_def)
    ultimately show ?thesis using assms(1) by simp
  next
    case None
    have new: "s \<notin> set (session_order si)"
      using assms(1) None by (metis in_set_conv_nth option.distinct(1) sessions_ok_def)
    have d: "d = length (session_order si)" and si': "session_order si' = session_order si @ [s]"
      "si_sessions si' = AList.update s d (si_sessions si)" "si_requests si' = si_requests si"
      using assms(2,3) None by (auto simp: intern_session_def Let_def)
    have "map_of (si_sessions si') x = Some e \<longleftrightarrow> e < length (session_order si') \<and> session_order si' ! e = x" for x e
      using assms(1) new by (auto simp: si' d sessions_ok_def update_conv' nth_append less_Suc_eq)
    then show ?thesis
      using assms(1) new by (simp add: sessions_ok_def si' d)
qed

lemma linked_snoc:
  assumes "linked names ps rel" and "rm_request_id r = length ps" and "trace_arrival_time_ms r = snd (snd p)"
    and "denotes (names @ ext) (fst (snd p)) (map_option sr_session_id (rm_session r))"
  shows "linked (names @ ext) (ps @ [p]) (rel @ [r])"
proof -
  have len: "length rel = length ps" using assms(1) by (simp add: linked_def)
  have "rm_request_id ((rel @ [r]) ! i) = i \<and> trace_arrival_time_ms ((rel @ [r]) ! i) = snd (snd ((ps @ [p]) ! i))
      \<and> denotes (names @ ext) (fst (snd ((ps @ [p]) ! i))) (sid_of (rel @ [r]) i)" if "i < length (ps @ [p])" for i
  proof (cases "i = length ps")
    case True
    have "sid_of (rel @ [r]) (length ps) = map_option sr_session_id (rm_session r)" using sid_of_snoc(2) [of rel r] by (simp add: len)
    then show ?thesis using True assms(2-4) by (simp add: nth_append len)
  next
    case False
    then have i: "i < length ps" using that by simp
    then have "sid_of (rel @ [r]) i = sid_of rel i" by (simp add: sid_of_snoc len)
    then show ?thesis using i assms(1) by (simp add: nth_append len linked_def denotes_mono)
  qed
  then show ?thesis by (simp add: linked_def len)
qed

lemma started_snoc:
  assumes "started D starts rel"
  shows "started (D - {d. map_option sr_session_id (rm_session r) = Some d}) starts (rel @ [r])"
proof -
  have "d \<in> D \<and> map_option sr_session_id (rm_session r) \<noteq> Some d \<or> (\<exists>i < length (rel @ [r]). sid_of (rel @ [r]) i = Some d)"
    if d: "map_of starts d \<noteq> None" for d
  proof (cases "\<exists>i < length rel. sid_of rel i = Some d")
    case True
    then obtain i where "i < length rel" "sid_of rel i = Some d" by blast
    then have "i < length (rel @ [r])" "sid_of (rel @ [r]) i = Some d" by (simp_all add: sid_of_snoc)
    then show ?thesis by blast
  next
    case False
    then have "d \<in> D" using assms d by (auto simp: started_def)
    moreover have "\<exists>i < length (rel @ [r]). sid_of (rel @ [r]) i = Some d" if "map_option sr_session_id (rm_session r) = Some d"
      using that by (intro exI [of _ "length rel"]) (simp add: sid_of_snoc)
    ultimately show ?thesis by blast
  qed
  then show ?thesis unfolding started_def by blast
qed

lemma times_snoc:
  assumes "times_ok f starts out" and "started D starts (map sq_release out)" and "rm_session (sq_release q) = Some m"
    and "td_session (sq_definition q) = Session (sr_session_id m) t0 p" and "map_of starts (sr_session_id m) = Some t0"
    and "(\<forall>j < length out. sid_of (map sq_release out) j \<noteq> Some (sr_session_id m)) \<longrightarrow>
      t0 = from_ms f (trace_arrival_time_ms (sq_release q))"
  shows "times_ok f starts (out @ [q])" and "started (D - {sr_session_id m}) starts (map sq_release (out @ [q]))"
proof -
  let ?rel = "map sq_release out" and ?d = "sr_session_id m"
  have old: "sid_of (?rel @ [sq_release q]) i = sid_of ?rel i" if "i < length out" for i using that by (simp add: sid_of_snoc)
  have new: "sid_of (?rel @ [sq_release q]) (length out) = Some ?d" using sid_of_snoc(2) [of ?rel] assms(3) by simp
  have firsts: "first_of (?rel @ [sq_release q]) d k \<longleftrightarrow> first_of ?rel d k
      \<or> k = length out \<and> d = ?d \<and> (\<forall>j < length out. sid_of ?rel j \<noteq> Some d)" for d k
    using first_of_snoc [of ?rel "sq_release q" d k] assms(3) by auto
  have "t = from_ms f (trace_arrival_time_ms (sq_release ((out @ [q]) ! k)))"
    if "map_of starts d = Some t" "first_of (?rel @ [sq_release q]) d k" for d t k
  proof (cases "first_of ?rel d k")
    case True
    then have "k < length out" by (simp add: first_of_def)
    then show ?thesis using True that(1) assms(1) by (simp add: times_ok_def nth_append)
  next
    case False
    then have "k = length out" "d = ?d" "\<forall>j < length out. sid_of ?rel j \<noteq> Some d" using that(2) firsts by blast+
    then show ?thesis using that(1) assms(5,6) by simp
  qed
  moreover have "(\<forall>d. sid_of (?rel @ [sq_release q]) i = Some d \<longleftrightarrow> (\<exists>t p. td_session (sq_definition ((out @ [q]) ! i)) = Session d t p))
      \<and> (\<forall>d t p. td_session (sq_definition ((out @ [q]) ! i)) = Session d t p \<longrightarrow> map_of starts d = Some t)"
    if "i < Suc (length out)" for i
  proof (cases "i = length out")
    case True
    then show ?thesis using new assms(4,5) by auto
  next
    case False
    then have i: "i < length out" using that by simp
    then have "(\<forall>d. sid_of ?rel i = Some d \<longleftrightarrow> (\<exists>t p. td_session (sq_definition (out ! i)) = Session d t p))"
      "\<forall>d t p. td_session (sq_definition (out ! i)) = Session d t p \<longrightarrow> map_of starts d = Some t"
      using assms(1) by (simp_all add: times_ok_def)
    then show ?thesis using i old by (simp add: nth_append)
  qed
  ultimately show "times_ok f starts (out @ [q])" by (simp add: times_ok_def)
  show "started (D - {?d}) starts (map sq_release (out @ [q]))"
    using started_snoc [OF assms(2), of "sq_release q"] assms(3) by (simp add: eq_commute [of ?d])
qed

lemma times_snoc_alone:
  assumes "times_ok f starts out" and "started D starts (map sq_release out)" and "rm_session (sq_release q) = None"
    and "\<And>d t p. td_session (sq_definition q) \<noteq> Session d t p"
  shows "times_ok f starts (out @ [q])" and "started D starts (map sq_release (out @ [q]))"
proof -
  let ?rel = "map sq_release out"
  have old: "sid_of (?rel @ [sq_release q]) i = sid_of ?rel i" if "i < length out" for i using that by (simp add: sid_of_snoc)
  have new: "sid_of (?rel @ [sq_release q]) (length out) = None" using sid_of_snoc(2) [of ?rel] assms(3) by simp
  have firsts: "first_of (?rel @ [sq_release q]) d k \<longleftrightarrow> first_of ?rel d k" for d k
    using first_of_snoc [of ?rel "sq_release q" d k] assms(3) by auto
  have lt: "first_of ?rel d k \<Longrightarrow> k < length out" for d k by (simp add: first_of_def)
  have "(\<forall>d. sid_of (?rel @ [sq_release q]) i = Some d \<longleftrightarrow> (\<exists>t p. td_session (sq_definition ((out @ [q]) ! i)) = Session d t p))
      \<and> (\<forall>d t p. td_session (sq_definition ((out @ [q]) ! i)) = Session d t p \<longrightarrow> map_of starts d = Some t)"
    if "i < Suc (length out)" for i
  proof (cases "i = length out")
    case True
    then show ?thesis using new assms(4) by auto
  next
    case False
    then have i: "i < length out" using that by simp
    then have "(\<forall>d. sid_of ?rel i = Some d \<longleftrightarrow> (\<exists>t p. td_session (sq_definition (out ! i)) = Session d t p))"
      "\<forall>d t p. td_session (sq_definition (out ! i)) = Session d t p \<longrightarrow> map_of starts d = Some t"
      using assms(1) by (simp_all add: times_ok_def)
    then show ?thesis using i old by (simp add: nth_append)
  qed
  moreover have "t = from_ms f (trace_arrival_time_ms (sq_release ((out @ [q]) ! k)))"
    if "map_of starts d = Some t" "first_of (?rel @ [sq_release q]) d k" for d t k
    using that assms(1) lt [of d k] by (simp add: times_ok_def nth_append firsts)
  ultimately show "times_ok f starts (out @ [q])" by (simp add: times_ok_def)
  show "started D starts (map sq_release (out @ [q]))" 
    using started_snoc [OF assms(2), of "sq_release q"] assms(3) by simp
qed

lemma start_time_ok:
  assumes "times_ok f starts out" and "started {} starts (map sq_release out)" and "start_time_entry starts d t = (starts', t0)"
  shows "times_ok f starts' out" and "started {d} starts' (map sq_release out)" and "map_of starts' d = Some t0"
    and "(\<forall>j < length out. sid_of (map sq_release out) j \<noteq> Some d) \<longrightarrow> t0 = t"
proof -
  have "times_ok f starts' out \<and> started {d} starts' (map sq_release out) \<and> map_of starts' d = Some t0
      \<and> ((\<forall>j < length out. sid_of (map sq_release out) j \<noteq> Some d) \<longrightarrow> t0 = t)"
  proof (cases "map_of starts d")
    case (Some s)
    then have "starts' = starts" "t0 = s" using assms(3) by (simp_all add: start_time_entry_def)
    moreover have "\<exists>j < length out. sid_of (map sq_release out) j = Some d" using assms(2) Some by (simp add: started_def)
    ultimately show ?thesis using assms(1,2) Some by (auto simp: started_def)
  next
    case None
    then have st: "starts' = AList.update d t starts" "t0 = t" using assms(3) by (auto simp: start_time_entry_def)
    have unseen: "td_session (sq_definition (out ! i)) \<noteq> Session d t p" if "i < length out" for i t p
      using assms(1) that None by (auto simp: times_ok_def)
    have none: "sid_of (map sq_release out) j \<noteq> Some d" if "j < length out" for j
      using assms(1) that unseen unfolding times_ok_def by blast
    have "times_ok f starts' out"
      using assms(1) none unseen unfolding times_ok_def st(1) update_conv' by (auto simp: first_of_def)
    moreover have "started {d} starts' (map sq_release out)" using assms(2) by (auto simp: started_def st(1) update_conv')
    ultimately show ?thesis using st by (simp add: update_conv')
  qed
  then show "times_ok f starts' out" and "started {d} starts' (map sq_release out)" and "map_of starts' d = Some t0"
    and "(\<forall>j < length out. sid_of (map sq_release out) j \<noteq> Some d) \<longrightarrow> t0 = t" by blast+
qed

lemma started_mono: "started D starts rel \<Longrightarrow> D \<subseteq> D' \<Longrightarrow> started D' starts rel"
  by (auto simp: started_def)

lemma linked_names: "linked names ps rel \<Longrightarrow> linked (names @ ext) ps rel"
  by (simp add: linked_def denotes_mono)

lemma intern_request_eq:
  "si_requests si = map fst ps \<Longrightarrow> length ps \<le> u32_max \<Longrightarrow>
     intern_request si s = (si\<lparr>si_requests := map fst ps @ [s]\<rparr>, length ps)"
  by (simp add: intern_request_def)

lemma sessions_ok_requests [simp]: "sessions_ok (si\<lparr>si_requests := xs\<rparr>) = sessions_ok si"
  by (simp add: sessions_ok_def)

text \<open>Appending a row of a session whose name and start time are known.\<close>

lemma load_ok_session_row:
  assumes "load_ok f D ps (starts, si, out)" and "sr_session_id m < length (session_order si)"
    and "map_of starts (sr_session_id m) = Some t0" and "p = (name, Some (session_order si ! sr_session_id m), arrival)"
    and "(\<forall>j < length out. sid_of (map sq_release out) j \<noteq> Some (sr_session_id m)) \<longrightarrow> t0 = from_ms f arrival"
    and "sq_release q = \<lparr>rm_request_id = length ps, trace_arrival_time_ms = arrival, rm_session = Some m\<rparr>"
    and "td_session (sq_definition q) = Session (sr_session_id m) t0 n"
  shows "load_ok f (D - {sr_session_id m}) (ps @ [p]) (starts, si\<lparr>si_requests := map fst ps @ [name]\<rparr>, out @ [q])"
proof -
  have l: "linked (session_order si) ps (map sq_release out)" and t: "times_ok f starts out" "started D starts (map sq_release out)"
    and s: "sessions_ok si" using assms(1) by (simp_all add: load_ok_def)
  have "linked (session_order si @ []) (ps @ [p]) (map sq_release out @ [sq_release q])"
    by (rule linked_snoc [OF l]) (simp_all add: assms(2,4,6) denotes_def)
  moreover note times_snoc [OF t, of q m t0 n]
  ultimately show ?thesis using s assms(3,5,6,7) by (simp add: load_ok_def assms(4))
qed

lemma load_row_keeps:
  assumes "length (ps @ [row_source row]) \<le> u32_max" and "length (session_order (fst (snd st))) \<le> length ps"
    and "load_ok f {} ps st" and "load_row f row st = Inr st'"
  shows "load_ok f {} (ps @ [row_source row]) st' \<and> length (session_order (fst (snd st'))) \<le> length (ps @ [row_source row])"
proof -
  obtain starts si out where st: "st = (starts, si, out)" by (cases st)
  note ok = assms(3) [unfolded st load_ok_def, simplified]
  have len: "length ps \<le> u32_max" "length (session_order si) \<le> u32_max" using assms(1,2) by (simp_all add: st)
  let ?si = "si\<lparr>si_requests := map fst ps @ [ir_id row]\<rparr>"
  have req: "intern_request si (ir_id row) = (?si, length ps)" using ok len(1) by (intro intern_request_eq) simp_all
  show ?thesis
  proof (cases "fst (snd (row_source row))")
    case None
    then have rs: "row_session f row starts ?si = (starts, ?si, None, Standalone)"
      by (auto simp: row_session_def row_source_def split: option.splits if_splits)
    from assms(4) obtain q si3 where st': "st' = (starts, ?si, out @ [q])"
      "pin_prefix Standalone (ir_pinned_prefix row) = Inr si3"
      "sq_release q = \<lparr>rm_request_id = length ps, trace_arrival_time_ms = ir_arrival_time row, rm_session = None\<rparr>"
      "td_session (sq_definition q) = si3"
      by (auto simp: st load_row_def req rs bind_res_Inr)
    have alone: "td_session (sq_definition q) \<noteq> Session d t p" for d t p
      using st'(2,4) by (auto simp: pin_prefix_def split: if_splits)
    have "linked (session_order si @ []) (ps @ [row_source row]) (map sq_release out @ [sq_release q])"
      by (rule linked_snoc) (use ok None in \<open>simp_all add: st'(3) denotes_def row_source_def\<close>)
    moreover note times_snoc_alone [of f starts out "{}" q, OF _ _ _ alone]
    ultimately show ?thesis using ok st'(1,3) assms(2) by (simp add: load_ok_def st row_source_def)
  next
    case (Some s)
    then have s: "ir_session_id row = Some s" "s \<noteq> []" by (auto simp: row_source_def split: option.splits if_splits)
    obtain si' d where i: "intern_session ?si s = (si', d)" by fastforce
    obtain starts' t0 where t: "start_time_entry starts d (from_ms f (ir_arrival_time row)) = (starts', t0)" by fastforce
    from intern_session_ok [OF _ i] ok len(2) obtain ext where si': "sessions_ok si'" "session_order si' = session_order si @ ext"
      "d < length (session_order si')" "session_order si' ! d = s" "si_requests si' = map fst ps @ [ir_id row]"
      "length (session_order si') \<le> Suc (length (session_order si))" by auto
    have si'_eq: "si'\<lparr>si_requests := map fst ps @ [ir_id row]\<rparr> = si'" by (simp add: si'(5) [symmetric])
    from start_time_ok [OF _ _ t] ok have t': "times_ok f starts' out" "started {d} starts' (map sq_release out)"
      "map_of starts' d = Some t0"
      "(\<forall>j < length out. sid_of (map sq_release out) j \<noteq> Some d) \<longrightarrow> t0 = from_ms f (ir_arrival_time row)" by blast+
    from assms(4) s obtain q w n where st': "st' = (starts', si', out @ [q])"
      "sq_release q = \<lparr>rm_request_id = length ps, trace_arrival_time_ms = ir_arrival_time row,
         rm_session = Some \<lparr>sr_session_id = d, tool_wait_after = w\<rparr>\<rparr>"
      "td_session (sq_definition q) = Session d t0 n"
      by (auto simp: st load_row_def req row_session_def i t bind_res_Inr pin_prefix_def split: if_splits)
    have ok': "load_ok f {d} ps (starts', si'\<lparr>si_requests := map fst ps\<rparr>, out)"
      using ok si'(1,2) t'(1,2) by (simp add: load_ok_def linked_names)
    have "load_ok f ({d} - {d}) (ps @ [row_source row])
        (starts', si'\<lparr>si_requests := map fst ps, si_requests := map fst ps @ [ir_id row]\<rparr>, out @ [q])"
      using load_ok_session_row [OF ok', of "\<lparr>sr_session_id = d, tool_wait_after = w\<rparr>" t0 "row_source row" "ir_id row"
          "ir_arrival_time row" q n] si'(3,4) t'(3,4) st'(2,3) Some by (simp add: row_source_def)
    then show ?thesis using si'(6) assms(2) by (simp add: st'(1) st si'_eq)
  qed
qed

definition loaded :: "('f, 'z) clock_ops_scheme \<Rightarrow> 'f source list \<Rightarrow> ('f, 'd) load_state \<Rightarrow> bool" where
  "loaded f ps st \<longleftrightarrow> (length ps \<le> u32_max \<longrightarrow> load_ok f {} ps st \<and> length (session_order (fst (snd st))) \<le> length ps)"

lemma load_row_loaded: "loaded f ps st \<Longrightarrow> load_row f row st = Inr st' \<Longrightarrow> loaded f (ps @ [row_source row]) st'"
  using load_row_keeps [of ps row st f st'] by (simp add: loaded_def)

definition in_session :: "('f, 'z) clock_ops_scheme \<Rightarrow> string \<Rightarrow> nat \<Rightarrow> nat \<Rightarrow> nat \<Rightarrow> 'f source list \<Rightarrow> ('f, 'd) load_state \<Rightarrow> bool" where
  "in_session f source sid t0 k ps = (\<lambda>(starts, si, out). length ps \<le> u32_max \<longrightarrow> load_ok f {} ps (starts, si, out)
     \<and> length (session_order si) = k \<and> sid < k \<and> session_order si ! sid = source \<and> map_of starts sid = Some t0
     \<and> (\<exists>j < length out. sid_of (map sq_release out) j = Some sid))"

lemma load_round_keeps:
  assumes "length (ps @ [(sn_request_id row, Some source, sn_arrival_time row)]) \<le> u32_max"
    and "load_ok f D ps (starts, si, out)" and "D \<subseteq> {sid}" and "sid < length (session_order si)"
    and "session_order si ! sid = source" and "map_of starts sid = Some t0"
    and "(\<forall>j < length out. sid_of (map sq_release out) j \<noteq> Some sid) \<longrightarrow> t0 = from_ms f (sn_arrival_time row)"
    and "load_round f sid t0 row (starts, si, out) = Inr st'"
  shows "in_session f source sid t0 (length (session_order si)) (ps @ [(sn_request_id row, Some source, sn_arrival_time row)]) st'"
proof -
  let ?p = "(sn_request_id row, Some source, sn_arrival_time row)"
  have req: "intern_request si (sn_request_id row) = (si\<lparr>si_requests := map fst ps @ [sn_request_id row]\<rparr>, length ps)"
    using assms(1,2) by (intro intern_request_eq) (simp_all add: load_ok_def)
  from assms(8) obtain q w n where st': "st' = (starts, si\<lparr>si_requests := map fst ps @ [sn_request_id row]\<rparr>, out @ [q])"
    "sq_release q = \<lparr>rm_request_id = length ps, trace_arrival_time_ms = sn_arrival_time row,
       rm_session = Some \<lparr>sr_session_id = sid, tool_wait_after = w\<rparr>\<rparr>"
    "td_session (sq_definition q) = Session sid t0 n"
    by (auto simp: load_round_def req bind_res_Inr)
  have "load_ok f (D - {sid}) (ps @ [?p]) st'"
    using load_ok_session_row [OF assms(2), of "\<lparr>sr_session_id = sid, tool_wait_after = w\<rparr>" t0 ?p "sn_request_id row"
        "sn_arrival_time row" q n] assms(4-7) st' by simp
  moreover have "D - {sid} = {}" using assms(3) by blast
  moreover have "sid_of (map sq_release (out @ [q])) (length out) = Some sid"
    using sid_of_snoc(2) [of "map sq_release out" "sq_release q"] by (simp add: st'(2))
  ultimately show ?thesis using assms(4-6) by (auto simp: in_session_def st'(1))
qed

lemma load_rounds_keep:
  assumes "in_session f source sid t0 k ps st" and "fold_res (load_round f sid t0) rounds st = Inr st'"
  shows "in_session f source sid t0 k (ps @ map (\<lambda>r. (sn_request_id r, Some source, sn_arrival_time r)) rounds) st'"
proof -
  have "in_session f source sid t0 k (ps @ concat (map (\<lambda>r. [(sn_request_id r, Some source, sn_arrival_time r)]) rounds)) st'"
  proof (rule fold_res_keeps [where I = "in_session f source sid t0 k", OF _ assms])
    fix row ps st st'
    assume i: "in_session f source sid t0 k ps st" and r: "load_round f sid t0 row st = Inr (st' :: ('a, 'c) load_state)"
    obtain starts si out where st: "st = (starts, si, out)" by (cases st)
    show "in_session f source sid t0 k (ps @ [(sn_request_id row, Some source, sn_arrival_time row)]) st'"
    proof (cases "length (ps @ [(sn_request_id row, Some source, sn_arrival_time row)]) \<le> u32_max")
      case True
      then have i': "load_ok f {} ps (starts, si, out)" "length (session_order si) = k" "sid < k" "session_order si ! sid = source"
        "map_of starts sid = Some t0" "\<exists>j < length out. sid_of (map sq_release out) j = Some sid"
        using i by (simp_all add: in_session_def st)
      from load_round_keeps [OF True i'(1) _ _ i'(4,5) _ r [unfolded st]] i'(2,3,6) show ?thesis by auto
    next
      case False
      then show ?thesis by (simp add: in_session_def split: prod.split)
    qed
  qed
  then show ?thesis by (simp add: concat_map_singleton)
qed

lemma load_session_loaded:
  assumes "loaded f ps st" and "load_session f s st = Inr st'"
  shows "loaded f (ps @ session_sources s) st'"
proof (cases "length (ps @ session_sources s) \<le> u32_max")
  case False
  then show ?thesis unfolding loaded_def by blast
next
  case True
  obtain source rounds where s: "s = (source, rounds)" by (cases s)
  obtain starts si out where st: "st = (starts, si, out)" by (cases st)
  obtain si' sid where i: "intern_session si source = (si', sid)" by fastforce
  from assms(2) obtain row rest where rounds: "rounds = row # rest"
    by (cases rounds) (auto simp: s st i load_session_def)
  let ?p = "(sn_request_id row, Some source, sn_arrival_time row)"
  obtain starts' t0 where t: "start_time_entry starts sid (from_ms f (sn_arrival_time row)) = (starts', t0)" by fastforce
  from assms(2) obtain st1 where run: "load_round f sid t0 row (starts', si', out) = Inr st1"
    "fold_res (load_round f sid t0) rest st1 = Inr st'"
    by (auto simp: s st i rounds t load_session_def bind_res_Inr)
  have len: "length (ps @ [?p]) \<le> u32_max" "length ps \<le> u32_max" using True by (simp_all add: s rounds session_sources_def)
  have ok: "load_ok f {} ps (starts, si, out)" "length (session_order si) \<le> length ps"
    using assms(1) len(2) by (simp_all add: loaded_def st)
  note ok' = ok(1) [unfolded load_ok_def, simplified]
  have "length (session_order si) \<le> u32_max" using ok(2) len(2) by simp
  from intern_session_ok [OF _ i this] ok' obtain ext where si': "sessions_ok si'" "session_order si' = session_order si @ ext"
    "sid < length (session_order si')" "session_order si' ! sid = source" "si_requests si' = map fst ps"
    "length (session_order si') \<le> Suc (length (session_order si))" by auto
  from start_time_ok [OF _ _ t] ok' have t': "times_ok f starts' out" "started {sid} starts' (map sq_release out)"
    "map_of starts' sid = Some t0"
    "(\<forall>j < length out. sid_of (map sq_release out) j \<noteq> Some sid) \<longrightarrow> t0 = from_ms f (sn_arrival_time row)" by blast+
  have "load_ok f {sid} ps (starts', si', out)" using ok' si'(1,2,5) t'(1,2) by (simp add: load_ok_def linked_names)
  from load_round_keeps [OF len(1) this _ si'(3,4) t'(3,4) run(1)]
  have "in_session f source sid t0 (length (session_order si')) (ps @ [?p]) st1" by simp
  from load_rounds_keep [OF this run(2)]
  have "in_session f source sid t0 (length (session_order si')) (ps @ session_sources s) st'"
    by (simp add: s rounds session_sources_def)
  moreover have "length (session_order si') \<le> length (ps @ session_sources s)"
    using si'(6) ok(2) by (simp add: s rounds session_sources_def)
  ultimately show ?thesis by (auto simp: in_session_def loaded_def split: prod.splits)
qed

lemma load_rows_loaded:
  assumes "loaded f ps st" and "fold_res (load_row f) rows st = Inr st'"
  shows "loaded f (ps @ map row_source rows) st'"
proof -
  have "loaded f (ps @ concat (map (\<lambda>r. [row_source r]) rows)) st'"
    by (rule fold_res_keeps [where I = "loaded f", OF _ assms(1)]) (use load_row_loaded assms(2) in auto)
  then show ?thesis by (simp add: concat_map_singleton)
qed

lemma load_file_loaded:
  assumes "loaded f ps st" and "load_file f pf st = Inr st'"
  shows "loaded f (ps @ file_sources pf) st'"
proof (cases pf)
  case (IndependentFile rows)
  then show ?thesis using load_rows_loaded [OF assms(1), of "map with_row rows"] assms(2) by (simp add: load_file_def comp_def)
next
  case (PrefixColumnFile rows)
  then show ?thesis using load_rows_loaded [OF assms(1), of rows] assms(2) by (simp add: load_file_def bind_res_Inr)
next
  case (SessionFile sessions)
  have "loaded f (ps @ concat (map session_sources sessions)) st'"
    by (rule fold_res_keeps [where I = "loaded f", OF _ assms(1)])
      (use load_session_loaded assms(2) in \<open>auto simp: load_file_def SessionFile\<close>)
  then show ?thesis by (simp add: SessionFile)
qed (use assms(2) in \<open>simp_all add: load_file_def\<close>)

lemma load_files_loaded:
  assumes "fold_res (load_file f) files ([], no_identities, []) = Inr st"
  shows "loaded f (trace_sources files) st"
proof -
  have "load_ok f {} [] ([], no_identities, [])"
    by (simp add: load_ok_def no_identities_def sessions_ok_def linked_def times_ok_def started_def first_of_def)
  then have "loaded f [] ([], no_identities, [])" by (simp add: loaded_def no_identities_def)
  from fold_res_keeps [where I = "loaded f", OF load_file_loaded this assms] show ?thesis by (simp add: trace_sources_def)
qed

subsection \<open>What loading returns\<close>

lemma find_duplicate_none: "find_duplicate seen xs = None \<longleftrightarrow> distinct xs \<and> set xs \<inter> set seen = {}"
  by (induction xs arbitrary: seen) auto

definition arrivals_ordered :: "('f, 'z) clock_ops_scheme \<Rightarrow> 'f list \<Rightarrow> bool" where
  "arrivals_ordered f ts \<longleftrightarrow> (\<forall>i. 0 < i \<longrightarrow> i < length ts \<longrightarrow> \<not> f_lt f (ts ! i) (ts ! (i - 1)))"

lemma arrival_order_sources:
  assumes "linked names ps (map sq_release rows)"
  shows "arrival_order_ok f rows \<longleftrightarrow> arrivals_ordered f (map (\<lambda>p. snd (snd p)) ps)"
proof -
  have len: "length rows = length ps" and t: "\<And>i. i < length ps \<Longrightarrow> trace_arrival_time_ms (sq_release (rows ! i)) = snd (snd (ps ! i))"
    using assms by (auto simp: linked_def)
  have "f_lt f (trace_arrival_time_ms (sq_release (rows ! i))) (trace_arrival_time_ms (sq_release (rows ! (i - 1))))
      \<longleftrightarrow> f_lt f (snd (snd (ps ! i))) (snd (snd (ps ! (i - 1))))" if "i < length ps" for i
    using that t by simp
  then show ?thesis by (auto simp: arrival_order_ok_def arrivals_ordered_def len list_all_iff)
qed

lemma new_frontend_returns:
  assumes "length rows \<le> u32_max"
  shows "(\<exists>tf. new_frontend f arrival capacity dependency rows = Some tf) \<longleftrightarrow> rows \<noteq> [] \<and> arrival_order_ok f rows"
proof -
  obtain succ pred where "build_chains (map sq_release rows) = Some (succ, pred)"
    using build_chains_ok [of "map sq_release rows"] assms by auto
  then have "new_scheduler arrival capacity dependency (map sq_release rows) \<noteq> None"
    by (cases dependency) (simp_all add: new_scheduler_def)
  then show ?thesis by (auto simp: new_frontend_def assert_that_def split: if_splits)
qed

definition load_rows :: "('f, 'z) clock_ops_scheme \<Rightarrow> ('f, 'd) parsed_file list \<Rightarrow> load_error + ('f, 'd) load_state" where
  "load_rows f files = fold_res (load_file f) files ([], no_identities, [])"

lemma load_rows_accept: "(\<exists>st. load_rows f files = Inr st) \<longleftrightarrow> list_all (file_valid f) files"
  unfolding load_rows_def by (rule load_files_accept)

lemma load_rows_linked:
  assumes "load_rows f files = Inr (starts, si, rows)" and "length (trace_sources files) \<le> u32_max"
  shows "si_requests si = map fst (trace_sources files)" and "sessions_ok si"
    and "linked (session_order si) (trace_sources files) (map sq_release rows)" and "times_ok f starts rows"
    and "length rows = length (trace_sources files)"
  using load_files_loaded [OF assms(1) [unfolded load_rows_def]] assms(2) by (auto simp: loaded_def load_ok_def linked_def)

lemma load_typed_returns:
  assumes "length (trace_sources files) \<le> u32_max"
  shows "load_typed f files carries topology arrival capacity = Inr (tf, si) \<longleftrightarrow> trace_sources files \<noteq> []
    \<and> distinct (map fst (trace_sources files)) \<and> (\<exists>starts si0 rows. load_rows f files = Inr (starts, si0, rows)
      \<and> si = si0\<lparr>si_sessions := []\<rparr> \<and> new_frontend f arrival capacity (dependency_of carries topology) rows = Some tf)"
proof (cases "load_rows f files")
  case (Inl e)
  then show ?thesis by (simp add: load_typed_def load_rows_def)
next
  case (Inr st)
  obtain starts si0 rows where st: "st = (starts, si0, rows)" by (cases st)
  note l = load_rows_linked [OF Inr [unfolded st] assms]
  have dup: "finish_loading si0 = (if distinct (map fst (trace_sources files)) then Inr (si0\<lparr>si_sessions := []\<rparr>)
      else Inl (DuplicateRequest (the (find_duplicate [] (si_requests si0)))))"
    using find_duplicate_none [of "[]" "si_requests si0"] by (auto simp: finish_loading_def l(1) split: option.splits)
  have files: "trace_sources files \<noteq> [] \<Longrightarrow> files \<noteq> []" by (auto simp: trace_sources_def)
  have empty: "rows = [] \<longleftrightarrow> trace_sources files = []" using l(5) by (metis length_0_conv)
  have new: "new_frontend f arrival capacity (dependency_of carries topology) rows = Some tf \<Longrightarrow> arrival_order_ok f rows"
    by (simp add: new_frontend_def assert_that_def split: if_splits)
  show ?thesis
    using Inr [unfolded st] dup files empty new
    by (cases "new_frontend f arrival capacity (dependency_of carries topology) rows")
      (auto simp: load_typed_def load_rows_def)
qed

text \<open>C16: A trace is accepted exactly when it has a row, every file reads and every row is in range (priorities in 32 bits,
  lengths in \<open>u32\<close>, no empty session; in a file with a \<open>prefix_len\<close> column also a non-empty id, a finite arrival that is not
  negative, a prompt, an output, prefix and prompt together in \<open>u32\<close> and no pinned prefix on a session row), no request id
  occurs twice over all files, and the arrivals of all rows never decrease.\<close>

theorem load_accepts_exactly:
  assumes "length (trace_sources files) \<le> u32_max"
  shows "(\<exists>tf si. load_typed f files carries topology arrival capacity = Inr (tf, si)) \<longleftrightarrow>
    trace_sources files \<noteq> [] \<and> list_all (file_valid f) files \<and> distinct (map fst (trace_sources files))
    \<and> arrivals_ordered f (map (\<lambda>p. snd (snd p)) (trace_sources files))"
proof (cases "load_rows f files")
  case (Inl e)
  then have "\<not> list_all (file_valid f) files" "load_typed f files carries topology arrival capacity \<noteq> Inr (tf, si)" for tf si
    using load_typed_returns [OF assms, of f carries topology arrival capacity tf si] load_rows_accept [of f files] by auto
  then show ?thesis by blast
next
  case (Inr st)
  obtain starts si0 rows where st: "st = (starts, si0, rows)" by (cases st)
  note l = load_rows_linked [OF Inr [unfolded st] assms]
  have "(\<exists>tf. new_frontend f arrival capacity (dependency_of carries topology) rows = Some tf) \<longleftrightarrow>
      rows \<noteq> [] \<and> arrivals_ordered f (map (\<lambda>p. snd (snd p)) (trace_sources files))"
    using new_frontend_returns [of rows f arrival capacity "dependency_of carries topology"] l(5) assms
      arrival_order_sources [OF l(3), of f] by simp
  moreover have "rows = [] \<longleftrightarrow> trace_sources files = []" using l(5) by (metis length_0_conv)
  moreover have "list_all (file_valid f) files" using load_rows_accept [of f files] Inr by blast
  ultimately show ?thesis using load_typed_returns [OF assms, of f carries topology arrival capacity] Inr st by auto
qed

lemma load_typed_rows:
  assumes "load_typed f files carries topology arrival capacity = Inr (tf, si)" and "length (trace_sources files) \<le> u32_max"
  obtains starts where "si_requests si = map fst (trace_sources files)" "distinct (session_order si)"
    "linked (session_order si) (trace_sources files) (releases tf)" "times_ok f starts (scheduled_requests tf)"
    "releases tf = map sq_release (scheduled_requests tf)" "length (scheduled_requests tf) = length (trace_sources files)"
    "new_frontend f arrival capacity (dependency_of carries topology) (scheduled_requests tf) = Some tf"
    "distinct (map fst (trace_sources files))"
proof -
  from assms load_typed_returns obtain starts si0 rows where s: "load_rows f files = Inr (starts, si0, rows)"
    "si = si0\<lparr>si_sessions := []\<rparr>" "new_frontend f arrival capacity (dependency_of carries topology) rows = Some tf"
    "distinct (map fst (trace_sources files))" by blast
  have tf: "scheduled_requests tf = rows" "releases tf = map sq_release rows"
    using s(3) by (auto simp: new_frontend_def assert_that_def bind_eq_Some_conv split: if_splits)
  show ?thesis using that load_rows_linked [OF s(1) assms(2)] s(2-4) tf by (simp add: sessions_ok_def)
qed

lemma source_ordinal: "d < length names \<Longrightarrow> source_or_ordinal names d = names ! d"
  by (simp add: source_or_ordinal_def nth_opt_def)

lemma denotes_name: "denotes names s x \<Longrightarrow> map_option (source_or_ordinal names) x = s"
  by (auto simp: denotes_def source_ordinal split: option.splits)

lemma denotes_eq:
  assumes "distinct names" and "denotes names s x" and "denotes names s' x'"
  shows "x = x' \<longleftrightarrow> s = s'"
  using assms by (auto simp: denotes_def nth_eq_iff_index_eq split: option.splits)

text \<open>C14: Dense ids go back to the names of the input: the loaded requests are the rows of the files in order, the
  id of a row is its position and names the row's own request id, the id of its session names the row's own
  session, and two rows share a session id exactly when the files gave them the same session.\<close>

theorem load_round_trip:
  assumes "load_typed f files carries topology arrival capacity = Inr (tf, si)" and "length (trace_sources files) \<le> u32_max"
  shows "length (releases tf) = length (trace_sources files)
    \<and> (\<forall>i < length (trace_sources files). rm_request_id (releases tf ! i) = i
       \<and> request_source_id si (rm_request_id (releases tf ! i)) = fst (trace_sources files ! i)
       \<and> map_option (session_source_id si) (sid_of (releases tf) i) = fst (snd (trace_sources files ! i))
       \<and> trace_arrival_time_ms (releases tf ! i) = snd (snd (trace_sources files ! i)))
    \<and> (\<forall>i < length (trace_sources files). \<forall>j < length (trace_sources files).
         sid_of (releases tf) i = sid_of (releases tf) j \<longleftrightarrow> fst (snd (trace_sources files ! i)) = fst (snd (trace_sources files ! j)))"
proof -
  from load_typed_rows [OF assms] have req: "si_requests si = map fst (trace_sources files)"
    and dist: "distinct (session_order si)" and link: "linked (session_order si) (trace_sources files) (releases tf)" by blast+
  note l = link [unfolded linked_def]
  have "request_source_id si (rm_request_id (releases tf ! i)) = fst (trace_sources files ! i)" if "i < length (trace_sources files)" for i
    using l that req by (simp add: request_source_id_def source_ordinal)
  moreover have "map_option (session_source_id si) (sid_of (releases tf) i) = fst (snd (trace_sources files ! i))"
    if "i < length (trace_sources files)" for i
  proof -
    have "denotes (session_order si) (fst (snd (trace_sources files ! i))) (sid_of (releases tf) i)" using l that by blast
    moreover have "session_source_id si = source_or_ordinal (session_order si)" by (rule ext) (simp add: session_source_id_def)
    ultimately show ?thesis using denotes_name by metis
  qed
  moreover have "sid_of (releases tf) i = sid_of (releases tf) j \<longleftrightarrow> fst (snd (trace_sources files ! i)) = fst (snd (trace_sources files ! j))"
    if "i < length (trace_sources files)" "j < length (trace_sources files)" for i j
    by (rule denotes_eq [OF dist]) (use l that in blast)+
  ultimately show ?thesis using l by blast
qed

text \<open>All rows of a session carry the arrival of the session's first row as the session's start, over all files.\<close>

theorem session_start_of_first:
  assumes "load_typed f files carries topology arrival capacity = Inr (tf, si)" and "length (trace_sources files) \<le> u32_max"
    and "i < length (scheduled_requests tf)"
  shows "case sid_of (releases tf) i of
      None \<Rightarrow> (\<forall>d t p. td_session (sq_definition (scheduled_requests tf ! i)) \<noteq> Session d t p)
    | Some d \<Rightarrow> \<exists>k \<le> i. first_of (releases tf) d k \<and> (\<exists>p. td_session (sq_definition (scheduled_requests tf ! i))
        = Session d (from_ms f (trace_arrival_time_ms (releases tf ! k))) p)"
proof -
  from load_typed_rows [OF assms(1,2)] obtain starts where t: "times_ok f starts (scheduled_requests tf)"
    and rel: "releases tf = map sq_release (scheduled_requests tf)" by blast
  show ?thesis
  proof (cases "sid_of (releases tf) i")
    case None
    then have none: "sid_of (map sq_release (scheduled_requests tf)) i = None" by (simp add: rel)
    have "td_session (sq_definition (scheduled_requests tf ! i)) \<noteq> Session d u p" for d u p
      using times_okD(1) [OF t assms(3), of d] none by simp
    then show ?thesis using None by simp
  next
    case (Some d)
    then have "sid_of (map sq_release (scheduled_requests tf)) i = Some d" by (simp add: rel)
    then obtain u p where s: "td_session (sq_definition (scheduled_requests tf ! i)) = Session d u p" "map_of starts d = Some u"
      using times_okD(1,2) [OF t assms(3)] by blast
    from first_of_exists [of i "releases tf" d] Some assms(3) rel obtain k where k: "k \<le> i" "first_of (releases tf) d k" by auto
    have "u = from_ms f (trace_arrival_time_ms (sq_release (scheduled_requests tf ! k)))"
      using times_okD(3) [OF t s(2)] k(2) unfolding rel .
    moreover have "k < length (scheduled_requests tf)" using k(1) assms(3) by simp
    ultimately show ?thesis using Some s(1) k by (auto simp: rel)
  qed
qed

text \<open>C15: From the files to the requests that enter: over any drains and completions no request of the input is
  released twice, only requests of the input are, and the trace is exhausted exactly when all of them have been.\<close>

theorem loaded_trace_released:
  assumes "load_typed f files carries topology arrival capacity = Inr (tf0, si)" and "length (trace_sources files) \<le> u32_max"
    and "replay_run f tf0 tf E D"
  shows "distinct (map (\<lambda>q. request_source_id si (rid q)) E)
    \<and> set (map (\<lambda>q. request_source_id si (rid q)) E) \<subseteq> fst ` set (trace_sources files)
    \<and> (exhausted tf \<longleftrightarrow> set (map (\<lambda>q. request_source_id si (rid q)) E) = fst ` set (trace_sources files))"
proof -
  let ?n = "length (trace_sources files)"
  from load_typed_rows [OF assms(1,2)] have req: "si_requests si = map fst (trace_sources files)"
    and link: "linked (session_order si) (trace_sources files) (releases tf0)" and rel: "releases tf0 = map sq_release (scheduled_requests tf0)"
    and len: "length (scheduled_requests tf0) = ?n" and dist: "distinct (map fst (trace_sources files))"
    and new: "new_frontend f arrival capacity (dependency_of carries topology) (scheduled_requests tf0) = Some tf0" by blast+
  have bound: "length (scheduled_requests tf0) \<le> u32_max" using len assms(2) by simp
  have dense: "rm_request_id (sq_release (scheduled_requests tf0 ! i)) = i" if "i < length (scheduled_requests tf0)" for i
    using link that len by (simp add: linked_def rel)
  note new' = new_frontend_ok [OF new bound dense]
  from replay_run_front [OF assms(3)] new' have ok: "front_ok tf E D" and same: "same_trace tf0 tf" by blast+
  have rows: "releases tf = releases tf0" "scheduled_requests tf = scheduled_requests tf0" using same by (simp_all add: same_trace_def)
  note s = front_okD [OF ok]
  have d: "distinct (map rid E)" and sub: "set (map rid E) \<subseteq> {..<?n}" using s len by (simp_all add: sched_ok_def rows rel)
  define name where "name = (\<lambda>r. fst (trace_sources files ! r))"
  have named: "map (\<lambda>q. request_source_id si (rid q)) E = map name (map rid E)"
    using sub by (auto simp: name_def request_source_id_def req source_ordinal)
  have inj: "inj_on name {..<?n}" using dist by (auto simp: inj_on_def name_def distinct_conv_nth)
  have all: "name ` {..<?n} = fst ` set (trace_sources files)"
    by (force simp: name_def set_conv_nth)
  have "exhausted tf \<longleftrightarrow> ?n \<le> length (map rid E)" using ok len by (simp add: exhausted_def rows front_ok_def)
  also have "\<dots> \<longleftrightarrow> set (map rid E) = {..<?n}"
  proof
    assume "?n \<le> length (map rid E)"
    then have "card {..<?n} \<le> card (set (map rid E))" using distinct_card [OF d] by simp
    then show "set (map rid E) = {..<?n}" using card_seteq [OF _ sub] by simp
  next
    assume "set (map rid E) = {..<?n}"
    then have "card (set (map rid E)) = ?n" by simp
    then show "?n \<le> length (map rid E)" using distinct_card [OF d] by simp
  qed
  also have "\<dots> \<longleftrightarrow> name ` set (map rid E) = name ` {..<?n}" using inj_on_image_eq_iff [OF inj sub] by simp
  finally have "exhausted tf \<longleftrightarrow> name ` set (map rid E) = fst ` set (trace_sources files)" unfolding all .
  moreover have "distinct (map name (map rid E))" 
    using d inj_on_subset [OF inj sub] by (simp only: distinct_map [of name] simp_thms)
  moreover have "name ` set (map rid E) \<subseteq> fst ` set (trace_sources files)" using sub all by blast
  ultimately show ?thesis unfolding named set_map by blast
qed

subsection \<open>Two small files\<close>

definition no_slo :: "nat RequestSlo" where
  "no_slo = \<lparr>ttft_slo_ms = None, tpot_slo_ms = None, e2e_slo_ms = None\<rparr>"

definition sample_ir :: "string \<Rightarrow> nat \<Rightarrow> string option \<Rightarrow> (nat, unit) IndependentRow" where
  "sample_ir name t session = \<lparr>ir_id = name, ir_arrival_time = t, ir_input_len = 8, ir_output_len = 2, ir_pinned_prefix = 0,
     ir_session_id = session, ir_prefix_kv = None, ir_tool_wait_ms = None, ir_slo = no_slo, ir_priority = 0, ir_decoding = ()\<rparr>"

definition sample_files :: "(nat, unit) parsed_file list" where
  "sample_files = [IndependentFile [sample_ir ''a'' 0 (Some ''chat''), sample_ir ''b'' 3 (Some [])],
     SessionFile [(''chat'', [\<lparr>sn_request_id = ''c'', sn_arrival_time = 5, sn_prefix_len = 8, sn_input_len = 2, sn_output_len = 1,
       sn_tool_wait_ms = 9, sn_slo = no_slo, sn_priority = 0, sn_decoding = ()\<rparr>])]]"

lemma sample_sources: "trace_sources sample_files = [(''a'', Some ''chat'', 0), (''b'', None, 3), (''c'', Some ''chat'', 5)]"
  by (simp add: trace_sources_def sample_files_def sample_ir_def row_source_def session_sources_def)

lemma sample_small: "length (trace_sources sample_files) \<le> u32_max"
  by (simp add: sample_sources u32_max_def)

lemma sample_loads:
  obtains tf si where "load_typed sample_clock sample_files True True sample_arrival None = Inr (tf, si)"
    "length (scheduled_requests tf) = 3"
proof -
  have "list_all (file_valid sample_clock) sample_files"
    by (simp add: sample_files_def sample_ir_def with_row_def row_valid_def session_valid_def round_valid_def fits_i32_def u32_max_def)
  then obtain st where "load_rows sample_clock sample_files = Inr st" using load_rows_accept by blast
  then obtain starts si rows where rows: "load_rows sample_clock sample_files = Inr (starts, si, rows)" by (cases st) auto
  note l = load_rows_linked [OF this sample_small]
  have len: "length rows = 3" using l(5) by (simp add: sample_sources)
  have ordered: "arrivals_ordered sample_clock [0, 3, 5]" by (auto simp: arrivals_ordered_def sample_clock_def less_Suc_eq)
  have "arrival_order_ok sample_clock rows" using arrival_order_sources [OF l(3), of sample_clock] ordered by (simp add: sample_sources)
  then obtain tf where tf: "new_frontend sample_clock sample_arrival None (dependency_of True True) rows = Some tf"
    using new_frontend_returns [of rows sample_clock sample_arrival None "dependency_of True True"] len by (auto simp: u32_max_def)
  then have "length (scheduled_requests tf) = 3" using len by (auto simp: new_frontend_def assert_that_def bind_eq_Some_conv split: if_splits)
  moreover have "load_typed sample_clock sample_files True True sample_arrival None = Inr (tf, si\<lparr>si_sessions := []\<rparr>)"
    unfolding load_typed_returns [OF sample_small] using rows tf by (simp add: sample_sources)
  ultimately show ?thesis using that by blast
qed

theorem load_accepts_exactly_witness:
  "\<exists>tf si. load_typed sample_clock sample_files True True sample_arrival (Some 1) = Inr (tf, si)"
proof -
  have "list_all (file_valid sample_clock) sample_files"
    by (simp add: sample_files_def sample_ir_def with_row_def row_valid_def session_valid_def round_valid_def fits_i32_def u32_max_def)
  moreover have "arrivals_ordered sample_clock [0, 3, 5]" by (auto simp: arrivals_ordered_def sample_clock_def less_Suc_eq)
  ultimately show ?thesis unfolding load_accepts_exactly [OF sample_small] by (simp add: sample_sources)
qed

theorem load_round_trip_witness:
  "\<exists>tf si. load_typed sample_clock sample_files True True sample_arrival None = Inr (tf, si) \<and> request_source_id si 1 = ''b''
    \<and> sid_of (releases tf) 0 = sid_of (releases tf) 2"
proof -
  obtain tf si where l: "load_typed sample_clock sample_files True True sample_arrival None = Inr (tf, si)" by (rule sample_loads)
  note r = load_round_trip [OF l sample_small, unfolded sample_sources]
  have "request_source_id si 1 = ''b''" using r by (auto simp: numeral_3_eq_3 dest!: spec [of _ 1])
  moreover have "sid_of (releases tf) 0 = sid_of (releases tf) 2" using r by (auto simp: numeral_3_eq_3 dest!: spec [of _ 2])
  ultimately show ?thesis using l by blast
qed

theorem session_start_of_first_witness:
  "\<exists>tf si. load_typed sample_clock sample_files True True sample_arrival None = Inr (tf, si)
    \<and> (case sid_of (releases tf) 1 of None \<Rightarrow> True | Some d \<Rightarrow> \<exists>k \<le> 1. first_of (releases tf) d k)"
proof -
  obtain tf si where l: "load_typed sample_clock sample_files True True sample_arrival None = Inr (tf, si)"
    "length (scheduled_requests tf) = 3" by (rule sample_loads)
  from session_start_of_first [OF l(1) sample_small, of 1] l show ?thesis by (auto split: option.splits)
qed

theorem loaded_trace_released_witness:
  "\<exists>tf si. load_typed sample_clock sample_files True True sample_arrival None = Inr (tf, si) \<and> \<not> exhausted tf"
proof -
  obtain tf si where l: "load_typed sample_clock sample_files True True sample_arrival None = Inr (tf, si)" by (rule sample_loads)
  from loaded_trace_released [OF l sample_small rr_start] l show ?thesis by (auto simp: sample_sources)
qed

end
