(* ===== verification/Run_Loop.thy ===== *)
theory Run_Loop
  imports Index_Kept Trace_Load Complex_Main
begin

section \<open>The simulation run loop (\<open>sim/run.rs\<close>)\<close>

text \<open>
  The single loop that drives a run: it drains the arrivals that are due into the flow, ticks the flow, reports its
  completions to the frontend and to the request log, takes the periodic samples, and decides when the run ends. The
  trait \<open>Flow\<close> is the record \<open>flow_ops\<close> of its two operations; the logger is the rows it was handed. Milliseconds
  in \<open>f64\<close> and \<open>f32\<close> are real numbers; the wall-clock time and the number of GPUs are arguments.
\<close>

subsection \<open>Periodic gates\<close>

record EveryN =
  en_period :: nat
  en_countdown :: nat

definition every_n :: "nat \<Rightarrow> EveryN option" where
  "every_n period = do { assert_that (0 < period); Some \<lparr>en_period = period, en_countdown = 0\<rparr> }"

definition fire :: "EveryN \<Rightarrow> (EveryN \<times> bool) option" where
  "fire e = (if en_countdown e = 0
     then do { c \<leftarrow> checked_sub (en_period e) 1; Some (e\<lparr>en_countdown := c\<rparr>, True) }
     else Some (e\<lparr>en_countdown := en_countdown e - 1\<rparr>, False))"

subsection \<open>Rows\<close>

definition as_ms :: "nat \<Rightarrow> real" where
  "as_ms t = real t / 1000000"

record RequestStateEntry =
  rs_logging_time_ms :: real
  prefill_tokens_cum :: nat
  decode_tokens_cum :: nat
  n_admitted :: nat
  n_completed :: nat

record RequestSloEntry =
  slo_request_id :: nat
  slo_logging_time_ms :: real
  slo_completed :: bool
  slo_arrival_time_ms :: real
  declared_ttft_slo_ms :: "real option"
  declared_tpot_slo_ms :: "real option"
  declared_e2e_slo_ms :: "real option"
  output_token_times_ms :: "real list"
  ttft_ms :: "real option"
  num_output_tokens :: nat
  tpot_mean_ms :: "real option"
  finish_decode_time_ms :: "real option"
  prefill_processed :: nat
  stage_times_ms :: "real list"
  stage_codes :: "nat list"
  stage_pool_ids :: "nat list"
  stage_worker_ids :: "nat list"
  slo_declared_prefix_tokens :: nat
  slo_prefix_cache_hit_tokens :: "nat option"
  fresh_prompt_tokens :: nat
  slo_target_output_tokens :: nat
  slo_retraction_count :: nat
  reprocessed_output_tokens_before :: "nat list"
  reprocessed_prefix_hit_tokens :: "nat list"
  reprocessed_processed_tokens :: "nat list"
  reprocessed_completed :: "bool list"
  speculative_progress :: "SpeculativeProgress option"

record LoggerSession =
  request_slo :: "RequestSloEntry list"
  request_state :: "RequestStateEntry list"

definition tpot_mean :: "nat option \<Rightarrow> nat option \<Rightarrow> nat \<Rightarrow> real option" where
  "tpot_mean first_time last_time tokens = (case (first_time, last_time) of
     (Some a, Some b) \<Rightarrow> if tokens > 1 then Some ((as_ms b - as_ms a) / real (tokens - 1)) else None
   | _ \<Rightarrow> None)"

definition slo_entry :: "nat \<Rightarrow> nat \<Rightarrow> 'd ActiveRequest \<Rightarrow> RequestSloEntry" where
  "slo_entry r now a = (
     let tl = ar_telemetry a; q = ar_request a; slo = rc_slo (rq_core q);
         stages = stage_log (ar_lifecycle a); episodes = reprocessed_prefills tl
     in \<lparr>slo_request_id = r, slo_logging_time_ms = as_ms now, slo_completed = lc_completed (ar_lifecycle a),
       slo_arrival_time_ms = as_ms (rc_arrival_time (rq_core q)),
       declared_ttft_slo_ms = map_option as_ms (ttft_slo slo), declared_tpot_slo_ms = map_option as_ms (tpot_slo slo),
       declared_e2e_slo_ms = map_option as_ms (e2e_slo slo),
       output_token_times_ms = map as_ms (output_times tl),
       ttft_ms = map_option (\<lambda>t. as_ms t - as_ms (rc_arrival_time (rq_core q))) (first_output_time tl),
       num_output_tokens = emitted a,
       tpot_mean_ms = tpot_mean (first_output_time tl) (last_output_time tl) (emitted a),
       finish_decode_time_ms = map_option as_ms (last_output_time tl),
       prefill_processed = prefill_tokens_processed (ar_progress a),
       stage_times_ms = map (as_ms \<circ> se_time) stages, stage_codes = map se_code stages,
       stage_pool_ids = map se_pool stages, stage_worker_ids = map se_worker stages,
       slo_declared_prefix_tokens = declared_prefix_tokens (td_session (rq_definition q)),
       slo_prefix_cache_hit_tokens = tl_prefix_cache_hit_tokens tl,
       fresh_prompt_tokens = prompt_tokens (rq_definition q),
       slo_target_output_tokens = target_output_tokens (rq_definition q),
       slo_retraction_count = retraction_count tl,
       reprocessed_output_tokens_before = map ep_output_tokens_before episodes,
       reprocessed_prefix_hit_tokens = map ep_prefix_cache_hit_tokens episodes,
       reprocessed_processed_tokens = map ep_prefill_tokens_processed episodes,
       reprocessed_completed = map ep_completed episodes, speculative_progress = speculative tl\<rparr>)"

definition state_agg :: "'d RequestStore \<Rightarrow> nat \<Rightarrow> RequestStateEntry option" where
  "state_agg rs now = do {
     admitted \<leftarrow> iter_admitted rs;
     Some \<lparr>rs_logging_time_ms = as_ms now,
       prefill_tokens_cum = (\<Sum>(_, a)\<leftarrow>admitted. prefill_tokens_processed (ar_progress a)),
       decode_tokens_cum = (\<Sum>(_, a)\<leftarrow>admitted. emitted a),
       n_admitted = length admitted,
       n_completed = length (filter (\<lambda>(_, a). lc_completed (ar_lifecycle a)) admitted)\<rparr>
   }"

definition record_request_slo :: "LoggerSession \<Rightarrow> RequestSloEntry \<Rightarrow> LoggerSession" where
  "record_request_slo lg row = lg\<lparr>request_slo := request_slo lg @ [row]\<rparr>"

definition record_request_state :: "LoggerSession \<Rightarrow> RequestStateEntry \<Rightarrow> LoggerSession" where
  "record_request_state lg row = lg\<lparr>request_state := request_state lg @ [row]\<rparr>"

subsection \<open>What the watchdog compares\<close>

record Liveness =
  lv_completed :: nat
  lv_admitted :: nat
  lv_tokens :: nat

definition no_liveness :: Liveness where
  "no_liveness = \<lparr>lv_completed = 0, lv_admitted = 0, lv_tokens = 0\<rparr>"

definition liveness :: "nat \<Rightarrow> 'd RequestStore \<Rightarrow> Liveness option" where
  "liveness completed rs = do {
     admitted \<leftarrow> iter_admitted rs;
     Some \<lparr>lv_completed = completed, lv_admitted = num_admitted rs,
       lv_tokens = (\<Sum>(_, a)\<leftarrow>admitted. prefill_tokens_processed (ar_progress a) + emitted a)\<rparr>
   }"

subsection \<open>Configuration and state of a run\<close>

datatype TerminationCause = DrainComplete | DurationReached | Stuck

record TickCfg =
  tick_dt :: nat
  tc_duration :: nat
  run_to_end :: bool
  snapshot_dt :: nat
  stuck_threshold :: nat

text \<open>The intervals in nanoseconds: 10 s, 60 s, 1 s and 100 s.\<close>

definition snapshot_interval :: nat where "snapshot_interval = 10000000000"
definition stuck_budget :: nat where "stuck_budget = 60000000000"
definition heartbeat_interval :: nat where "heartbeat_interval = 1000000000"
definition watchdog_sample :: nat where "watchdog_sample = 100000000000"

definition tick_cfg :: "('f, 'z) clock_ops_scheme \<Rightarrow> 'f \<Rightarrow> bool \<Rightarrow> nat \<Rightarrow> TickCfg option" where
  "tick_cfg f duration_ms to_end tick_dt_us = do {
     assert_that (max tick_dt_us 1 * 1000 \<le> u64_max);
     Some \<lparr>tick_dt = max tick_dt_us 1 * 1000, tc_duration = from_ms f duration_ms, run_to_end = to_end,
       snapshot_dt = snapshot_interval, stuck_threshold = stuck_budget\<rparr>
   }"

record ('g, 'd) flow_ops =
  fl_on_arrival :: "'g \<Rightarrow> 'd RequestStore \<Rightarrow> 'd Request \<Rightarrow> ('g \<times> 'd RequestStore) option"
  fl_tick :: "'g \<Rightarrow> nat \<Rightarrow> 'd RequestStore \<Rightarrow> ('g \<times> 'd RequestStore \<times> nat list) option"

record ('g, 'd, 'f) RunState =
  rn_flow :: 'g
  rn_store :: "'d RequestStore"
  rn_frontend :: "('f, 'd) TraceFrontend"
  rn_logger :: LoggerSession
  rn_clock :: nat
  prev_progress :: Liveness
  idle_for :: nat
  last_state_clock :: "nat option"
  rn_snapshot :: EveryN
  rn_heartbeat :: EveryN
  rn_watchdog :: EveryN

definition ticks :: "TickCfg \<Rightarrow> nat \<Rightarrow> nat option" where
  "ticks cfg dt = do { assert_that (tick_dt cfg \<noteq> 0); Some (max (dt div tick_dt cfg) 1) }"

definition start_run :: "TickCfg \<Rightarrow> 'g \<Rightarrow> 'd RequestStore \<Rightarrow> ('f, 'd) TraceFrontend \<Rightarrow> LoggerSession \<Rightarrow>
     ('g, 'd, 'f) RunState option" where
  "start_run cfg g rs tf lg = do {
     snapshot \<leftarrow> Option.bind (ticks cfg (snapshot_dt cfg)) every_n;
     heartbeat \<leftarrow> Option.bind (ticks cfg heartbeat_interval) every_n;
     watchdog \<leftarrow> Option.bind (ticks cfg watchdog_sample) every_n;
     Some \<lparr>rn_flow = g, rn_store = rs, rn_frontend = tf, rn_logger = lg, rn_clock = 0, prev_progress = no_liveness,
       idle_for = 0, last_state_clock = None, rn_snapshot = snapshot, rn_heartbeat = heartbeat, rn_watchdog = watchdog\<rparr>
   }"

subsection \<open>One pass of the loop\<close>

text \<open>1. The requests that are due enter the flow, in the order in which the frontend hands them out.\<close>

definition drain_arrivals :: "('g, 'd) flow_ops \<Rightarrow> ('f, 'z) clock_ops_scheme \<Rightarrow> ('g, 'd, 'f) RunState \<Rightarrow>
     ('g, 'd, 'f) RunState option" where
  "drain_arrivals ops f run = do {
     (tf, arrivals) \<leftarrow> drain_due f (rn_clock run) (rn_frontend run) [];
     (g, rs) \<leftarrow> fold_opt (\<lambda>q (g, rs). fl_on_arrival ops g rs q) arrivals (rn_flow run, rn_store run);
     Some (run\<lparr>rn_flow := g, rn_store := rs, rn_frontend := tf\<rparr>)
   }"

text \<open>2. The flow ticks; every completion goes to the frontend's ledger and writes its row.\<close>

definition log_completion :: "nat \<Rightarrow> 'd RequestStore \<Rightarrow> nat \<Rightarrow> ('f, 'd) TraceFrontend \<times> LoggerSession \<Rightarrow>
     (('f, 'd) TraceFrontend \<times> LoggerSession) option" where
  "log_completion clock rs r = (\<lambda>(tf, lg). do {
     tf' \<leftarrow> record_completion tf r clock;
     a \<leftarrow> get_record rs r;
     Some (tf', record_request_slo lg (slo_entry r clock a))
   })"

definition advance_flow :: "('g, 'd) flow_ops \<Rightarrow> ('g, 'd, 'f) RunState \<Rightarrow> ('g, 'd, 'f) RunState option" where
  "advance_flow ops run = do {
     (g, rs, actions) \<leftarrow> fl_tick ops (rn_flow run) (rn_clock run) (rn_store run);
     (tf, lg) \<leftarrow> fold_opt (log_completion (rn_clock run) rs) actions (rn_frontend run, rn_logger run);
     Some (run\<lparr>rn_flow := g, rn_store := rs, rn_frontend := tf, rn_logger := lg\<rparr>)
   }"

text \<open>2b and 2c. The census of the admitted requests, and the heartbeat, whose counters are read only when it is shown.\<close>

definition take_snapshot :: "('g, 'd, 'f) RunState \<Rightarrow> ('g, 'd, 'f) RunState option" where
  "take_snapshot run = do {
     (e, due) \<leftarrow> fire (rn_snapshot run);
     if due then do {
       row \<leftarrow> state_agg (rn_store run) (rn_clock run);
       Some (run\<lparr>rn_snapshot := e, rn_logger := record_request_state (rn_logger run) row,
         last_state_clock := Some (rn_clock run)\<rparr>)
     } else Some (run\<lparr>rn_snapshot := e\<rparr>)
   }"

definition heartbeat :: "bool \<Rightarrow> ('g, 'd, 'f) RunState \<Rightarrow> ('g, 'd, 'f) RunState option" where
  "heartbeat info run = do {
     (e, due) \<leftarrow> fire (rn_heartbeat run);
     if due \<and> info then do {
       _ \<leftarrow> checked_sub (num_admitted (rn_store run)) (tf_completed (rn_frontend run));
       Some (run\<lparr>rn_heartbeat := e\<rparr>)
     } else Some (run\<lparr>rn_heartbeat := e\<rparr>)
   }"

text \<open>3b. The watchdog: \<open>True\<close> when the run is stuck.\<close>

definition watch :: "TickCfg \<Rightarrow> ('g, 'd, 'f) RunState \<Rightarrow> (bool \<times> ('g, 'd, 'f) RunState) option" where
  "watch cfg run = do {
     (e, due) \<leftarrow> fire (rn_watchdog run);
     let run' = run\<lparr>rn_watchdog := e\<rparr>;
     if due then do {
       progress \<leftarrow> liveness (tf_completed (rn_frontend run)) (rn_store run);
       if progress \<noteq> prev_progress run
       then Some (False, run'\<lparr>prev_progress := progress, idle_for := 0\<rparr>)
       else let idle = idle_for run + watchdog_sample in
         Some (stuck_threshold cfg \<le> idle, run'\<lparr>idle_for := idle\<rparr>)
     } else Some (False, run')
   }"

text \<open>3 and 4. The end of a pass: why the run is over, or the clock of the next pass.\<close>

definition advance_clock :: "TickCfg \<Rightarrow> ('g, 'd, 'f) RunState \<Rightarrow> ('g, 'd, 'f) RunState option" where
  "advance_clock cfg run = do {
     clock \<leftarrow> checked_add_u64 (rn_clock run) (tick_dt cfg);
     Some (run\<lparr>rn_clock := clock\<rparr>)
   }"

definition conclude :: "TickCfg \<Rightarrow> ('g, 'd, 'f) RunState \<Rightarrow>
     (TerminationCause \<times> ('g, 'd, 'f) RunState + ('g, 'd, 'f) RunState) option" where
  "conclude cfg run = do {
     outstanding \<leftarrow> in_flight (rn_frontend run);
     let finished = exhausted (rn_frontend run);
     if finished \<and> outstanding = 0 then Some (Inl (DrainComplete, run))
     else if \<not> run_to_end cfg \<and> tc_duration cfg \<le> rn_clock run then Some (Inl (DurationReached, run))
     else do {
       (stuck, run') \<leftarrow> (if finished \<and> outstanding > 0 then watch cfg run else Some (False, run));
       if stuck then Some (Inl (Stuck, run')) else map_option Inr (advance_clock cfg run')
     }
   }"

definition run_pass :: "('g, 'd) flow_ops \<Rightarrow> ('f, 'z) clock_ops_scheme \<Rightarrow> TickCfg \<Rightarrow> bool \<Rightarrow> ('g, 'd, 'f) RunState \<Rightarrow>
     (TerminationCause \<times> ('g, 'd, 'f) RunState + ('g, 'd, 'f) RunState) option" where
  "run_pass ops f cfg info run = do {
     run1 \<leftarrow> drain_arrivals ops f run;
     run2 \<leftarrow> advance_flow ops run1;
     run3 \<leftarrow> take_snapshot run2;
     run4 \<leftarrow> heartbeat info run3;
     conclude cfg run4
   }"

partial_function (option) run_loop :: "('g, 'd) flow_ops \<Rightarrow> ('f, 'z) clock_ops_scheme \<Rightarrow> TickCfg \<Rightarrow> bool \<Rightarrow>
     ('g, 'd, 'f) RunState \<Rightarrow> (TerminationCause \<times> ('g, 'd, 'f) RunState) option" where
  "run_loop ops f cfg info run = Option.bind (run_pass ops f cfg info run)
     (\<lambda>y. case y of Inl z \<Rightarrow> Some z | Inr z \<Rightarrow> run_loop ops f cfg info z)"

subsection \<open>The end of a run\<close>

definition finalize :: "('g, 'd, 'f) RunState \<Rightarrow> LoggerSession option" where
  "finalize run = do {
     lg \<leftarrow> (if last_state_clock run = Some (rn_clock run) then Some (rn_logger run)
       else map_option (record_request_state (rn_logger run)) (state_agg (rn_store run) (rn_clock run)));
     arrived \<leftarrow> iter_arrived (rn_store run);
     Some (fold (\<lambda>(r, a) lg. if lc_completed (ar_lifecycle a) then lg
       else record_request_slo lg (slo_entry r (rn_clock run) a)) arrived lg)
   }"

record RunSummary =
  sm_cause :: TerminationCause
  requests_total :: nat
  requests_finished :: nat
  sm_prefill_tokens :: nat
  sm_decode_tokens :: nat
  sm_total_tokens :: nat
  prefill_tok_s :: real
  decode_tok_s :: real
  total_tok_s :: real
  num_gpus :: nat
  total_tok_s_per_gpu :: real
  completed_req_s :: real
  sim_ms :: real
  sm_wall_s :: real
  realtime_x :: real

definition summarize :: "TerminationCause \<Rightarrow> ('g, 'd, 'f) RunState \<Rightarrow> nat \<Rightarrow> real \<Rightarrow> RunSummary option" where
  "summarize cause run gpus wall = do {
     arrived \<leftarrow> iter_arrived (rn_store run);
     let completed = length (filter (\<lambda>(_, a). lc_completed (ar_lifecycle a)) arrived);
     let prefill_tok = (\<Sum>(_, a)\<leftarrow>arrived. prefill_tokens_processed (ar_progress a));
     let decode_tok = (\<Sum>(_, a)\<leftarrow>arrived. emitted a);
     let all_tok = prefill_tok + decode_tok;
     let sim_s = max (as_ms (rn_clock run) / 1000) (1 / 10 ^ 9);
     Some \<lparr>sm_cause = cause, requests_total = arrived_count (rn_store run), requests_finished = completed,
       sm_prefill_tokens = prefill_tok, sm_decode_tokens = decode_tok, sm_total_tokens = all_tok,
       prefill_tok_s = real prefill_tok / sim_s, decode_tok_s = real decode_tok / sim_s,
       total_tok_s = real all_tok / sim_s, num_gpus = gpus,
       total_tok_s_per_gpu = real all_tok / sim_s / real (max gpus 1),
       completed_req_s = real completed / sim_s, sim_ms = as_ms (rn_clock run), sm_wall_s = wall,
       realtime_x = sim_s / max wall (1 / 10 ^ 9)\<rparr>
   }"

definition run_sim :: "('g, 'd) flow_ops \<Rightarrow> ('f, 'z) clock_ops_scheme \<Rightarrow> TickCfg \<Rightarrow> bool \<Rightarrow> nat \<Rightarrow> real \<Rightarrow> 'g \<Rightarrow>
     'd RequestStore \<Rightarrow> ('f, 'd) TraceFrontend \<Rightarrow> LoggerSession \<Rightarrow> (RunSummary \<times> LoggerSession) option" where
  "run_sim ops f cfg info gpus wall g rs tf lg = do {
     run \<leftarrow> start_run cfg g rs tf lg;
     (cause, run') \<leftarrow> run_loop ops f cfg info run;
     lg' \<leftarrow> finalize run';
     summary \<leftarrow> summarize cause run' gpus wall;
     Some (summary, lg')
   }"

text \<open>The data-parallel flow as the loop drives it.\<close>

definition simple_dp_flow :: "cost_model \<Rightarrow> (IterWorker DpPool, 'd) flow_ops" where
  "simple_dp_flow cost = \<lparr>fl_on_arrival = flow_on_arrival (iter_worker_ops cost), fl_tick = flow_tick (iter_worker_ops cost)\<rparr>"

text \<open>\<open>main\<close>: the store has an empty slot per row of the trace before the run starts.\<close>

definition simulate :: "('g, 'd) flow_ops \<Rightarrow> ('f, 'z) clock_ops_scheme \<Rightarrow> TickCfg \<Rightarrow> bool \<Rightarrow> nat \<Rightarrow> real \<Rightarrow> 'g \<Rightarrow>
     ('f, 'd) TraceFrontend \<Rightarrow> (RunSummary \<times> LoggerSession) option" where
  "simulate ops f cfg info gpus wall g tf = do {
     rs \<leftarrow> reserve_slots new_request_store (length (scheduled_requests tf));
     run_sim ops f cfg info gpus wall g rs tf \<lparr>request_slo = [], request_state = []\<rparr>
   }"

end
