(* ===== verification/Run_Guarantees.thy ===== *)
theory Run_Guarantees
  imports Run_Loop
begin

section \<open>What a run reports\<close>

text \<open>
  Runs of the data-parallel flow under the loop: every pass keeps the frontend's ledger, the pool, the shared store and
  the log in step, so that a run which drains its trace has completed every row exactly once, and the log has
  one terminal row per request that arrived, however the run ends.
\<close>

subsection \<open>Periodic gates\<close>

fun fire_many :: "nat \<Rightarrow> EveryN \<Rightarrow> (bool list \<times> EveryN) option" where
  "fire_many 0 e = Some ([], e)"
| "fire_many (Suc k) e = do { (bs, e') \<leftarrow> fire_many k e; (e'', b) \<leftarrow> fire e'; Some (bs @ [b], e'') }"

lemma fire_phase:
  assumes "0 < p"
  shows "fire \<lparr>en_period = p, en_countdown = (p - k mod p) mod p\<rparr>
    = Some (\<lparr>en_period = p, en_countdown = (p - Suc k mod p) mod p\<rparr>, k mod p = 0)"
proof (cases "k mod p = 0")
  case True
  then have "Suc k mod p = Suc 0 mod p" by (simp add: mod_Suc)
  then have "(p - Suc k mod p) mod p = p - 1" using assms by (cases "p = 1") auto
  then show ?thesis using True assms by (simp add: fire_def)
next
  case False
  have m: "k mod p < p" using assms by simp
  then have "(p - k mod p) mod p = p - k mod p" using False by simp
  moreover have "(p - Suc k mod p) mod p = p - k mod p - 1" using m False by (simp add: mod_Suc)
  ultimately show ?thesis using m False by (simp add: fire_def)
qed

lemma every_n_fires:
  assumes "every_n p = Some e"
  shows "fire_many k e = Some (map (\<lambda>i. i mod p = 0) [0..<k], \<lparr>en_period = p, en_countdown = (p - k mod p) mod p\<rparr>)"
proof -
  have p: "0 < p" "e = \<lparr>en_period = p, en_countdown = 0\<rparr>" using assms by (auto simp: every_n_def assert_that_def split: if_splits)
  show ?thesis
  proof (induction k)
    case (Suc k)
    then show ?case using fire_phase [OF p(1), of k] by simp
  qed (use p in simp)
qed

definition gate_ok :: "EveryN \<Rightarrow> bool" where
  "gate_ok e \<longleftrightarrow> 0 < en_period e"

lemma fire_ok: "gate_ok e \<Longrightarrow> \<exists>e' due. fire e = Some (e', due) \<and> gate_ok e'"
  by (auto simp: gate_ok_def fire_def)

lemma fire_keeps: "fire e = Some (e', due) \<Longrightarrow> gate_ok e \<Longrightarrow> gate_ok e'"
  by (auto simp: gate_ok_def fire_def bind_Some_iff checked_sub_Some_iff split: if_splits)

subsection \<open>Passes\<close>

inductive run_passes :: "('g, 'd) flow_ops \<Rightarrow> ('f, 'z) clock_ops_scheme \<Rightarrow> TickCfg \<Rightarrow> bool \<Rightarrow> ('g, 'd, 'f) RunState \<Rightarrow> nat \<Rightarrow>
    ('g, 'd, 'f) RunState \<Rightarrow> bool" for ops f cfg info run0 where
  no_pass: "run_passes ops f cfg info run0 0 run0"
| one_pass: "run_passes ops f cfg info run0 k run \<Longrightarrow> run_pass ops f cfg info run = Some (Inr run') \<Longrightarrow>
    run_passes ops f cfg info run0 (Suc k) run'"

lemma passes_first:
  assumes "run_pass ops f cfg info run0 = Some (Inr run1)" and "run_passes ops f cfg info run1 k run"
  shows "run_passes ops f cfg info run0 (Suc k) run"
  using assms(2)
proof induction
  case no_pass
  show ?case using run_passes.one_pass [OF run_passes.no_pass assms(1)] by simp
qed (rule run_passes.one_pass)

lemma run_loop_ends:
  fixes ops :: "('g, 'd) flow_ops" and f :: "('f, 'z) clock_ops_scheme"
  assumes "run_loop ops f cfg info run0 = Some out"
  shows "\<exists>k run. run_passes ops f cfg info run0 k run \<and> run_pass ops f cfg info run = Some (Inl out)"
proof (rule run_loop.raw_induct [where P = "\<lambda>ops f cfg info run0 out.
    \<exists>k run. run_passes ops f cfg info run0 k run \<and> run_pass ops f cfg info run = Some (Inl out)", OF _ assms])
  fix loop and ops :: "('g, 'd) flow_ops" and f :: "('f, 'z) clock_ops_scheme" and cfg info run0 out
  assume ih: "\<And>ops f cfg info run0 out. loop ops f cfg info run0 = Some out \<Longrightarrow>
      \<exists>k run. run_passes ops f cfg info run0 k run \<and> run_pass ops f cfg info run = Some (Inl out)"
    and "Option.bind (run_pass ops f cfg info run0) (\<lambda>y. case y of Inl z \<Rightarrow> Some z | Inr z \<Rightarrow> loop ops f cfg info z) = Some out"
  then obtain z where z: "run_pass ops f cfg info run0 = Some z"
    "(case z of Inl u \<Rightarrow> Some u | Inr u \<Rightarrow> loop ops f cfg info u) = Some out" by (auto simp: bind_Some_iff)
  show "\<exists>k run. run_passes ops f cfg info run0 k run \<and> run_pass ops f cfg info run = Some (Inl out)"
  proof (cases z)
    case (Inl u)
    then have "run_pass ops f cfg info run0 = Some (Inl out)" using z by simp
    then show ?thesis using run_passes.no_pass by blast
  next
    case (Inr run1)
    then have "loop ops f cfg info run1 = Some out" using z(2) by simp
    from ih [OF this] obtain k run where "run_passes ops f cfg info run1 k run" "run_pass ops f cfg info run = Some (Inl out)"
      by blast
    then show ?thesis using passes_first z(1) Inr by blast
  qed
qed

subsection \<open>A consistent run\<close>

text \<open>The stored definition of every released request is the released one; the log has one row per completion.\<close>

definition recorded :: "'d Request list \<Rightarrow> 'd RequestStore \<Rightarrow> bool" where
  "recorded E rs \<longleftrightarrow> (\<forall>q \<in> set E. map_option ar_request (get_record rs (rid q)) = Some q)"

definition rows_fit :: "('f, 'd) ScheduledRequest list \<Rightarrow> bool" where
  "rows_fit rows \<longleftrightarrow> length rows \<le> u32_max \<and> (\<forall>row \<in> set rows.
     prompt_tokens (sq_definition row) + declared_prefix_tokens (td_session (sq_definition row)) \<le> u32_max)"

definition row_done :: "'d Request list \<Rightarrow> nat \<times> nat \<Rightarrow> RequestSloEntry \<Rightarrow> bool" where
  "row_done E = (\<lambda>(r, t) row. \<exists>a :: 'd ActiveRequest. row = slo_entry r t a \<and> done_record a \<and> ar_request a \<in> set E \<and> rid (ar_request a) = r)"

definition run_core :: "('g, 'd, 'f) RunState \<Rightarrow> 'g \<times> 'd RequestStore \<times> ('f, 'd) TraceFrontend \<times> nat \<times> RequestSloEntry list" where
  "run_core run = (rn_flow run, rn_store run, rn_frontend run, rn_clock run, request_slo (rn_logger run))"

definition sim_ok :: "cost_model \<Rightarrow> nat \<Rightarrow> ('f, 'd) ScheduledRequest list \<Rightarrow> (IterWorker DpPool, 'd, 'f) RunState \<Rightarrow> 'd Request list \<Rightarrow>
    (nat \<times> nat) list \<Rightarrow> bool" where
  "sim_ok cost n rows run E D \<longleftrightarrow> (case run_core run of (g, rs, tf, clock, slo) \<Rightarrow>
     front_ok tf E D \<and> scheduled_requests tf = rows \<and> recorded E rs \<and> length rows \<le> length (rs_records rs) \<and> list_all2 (row_done E) D slo
     \<and> (\<exists>prev \<le> clock. flow_run cost n (map rid E) g rs (map fst D) prev))"

lemma sim_ok_core: "run_core run' = run_core run \<Longrightarrow> sim_ok cost n rows run' E D = sim_ok cost n rows run E D"
  by (simp add: sim_ok_def)

lemma sim_okD:
  assumes "sim_ok cost n rows run E D"
  shows "front_ok (rn_frontend run) E D" and "scheduled_requests (rn_frontend run) = rows" and "recorded E (rn_store run)"
    and "length rows \<le> length (rs_records (rn_store run))"
    and "list_all2 (row_done E) D (request_slo (rn_logger run))"
    and "\<exists>prev \<le> rn_clock run. flow_run cost n (map rid E) (rn_flow run) (rn_store run) (map fst D) prev"
  using assms by (simp_all add: sim_ok_def run_core_def)

lemma recorded_kept: "index_kept rs rs' \<Longrightarrow> recorded E rs \<Longrightarrow> recorded E rs'"
  by (simp add: recorded_def index_kept_def)

lemma row_done_more: "set E \<subseteq> set E' \<Longrightarrow> row_done E x row \<Longrightarrow> row_done E' x row"
  by (cases x) (auto simp: row_done_def)

text \<open>A released request fits a worker when its row does.\<close>

lemma released_newcomer:
  assumes "front_ok tf E D" and "rows_fit (scheduled_requests tf)" and "q \<in> set E"
  shows "newcomer (from_request q)"
proof -
  note s = front_okD [OF assms(1)]
  have "rid q < length (scheduled_requests tf)"
    using assms(1,3) s by (auto simp: front_ok_def trace_ok_def sched_ok_def)
  moreover have "rq_definition q = sq_definition (scheduled_requests tf ! rid q)" using assms(1,3) by (simp add: front_ok_def)
  ultimately show ?thesis using assms(2)
    by (simp add: rows_fit_def newcomer_def from_request_def initial_telemetry_def)
qed

lemma released_bound:
  assumes "front_ok tf E D"
  shows "length E \<le> length (scheduled_requests tf)"
  using sched_ok_bound [OF front_okD [OF assms]] assms by (simp add: front_ok_def trace_ok_def)

lemma arrivals_fold:
  assumes "flow_run cost n (map rid E) g rs completed prev" and "recorded E rs"
    and "\<And>q. q \<in> set qs \<Longrightarrow> newcomer (from_request q)" and "length E + length qs \<le> u32_max"
    and "fold_opt (\<lambda>q (g, rs). fl_on_arrival (simple_dp_flow cost) g rs q) qs (g, rs) = Some (g', rs')"
  shows "flow_run cost n (map rid (E @ qs)) g' rs' completed prev \<and> recorded (E @ qs) rs'
    \<and> length (rs_records rs) \<le> length (rs_records rs')"
  using assms
proof (induction qs arbitrary: E g rs)
  case (Cons q qs)
  from Cons.prems(5) obtain g1 rs1 where go: "flow_on_arrival (iter_worker_ops cost) g rs q = Some (g1, rs1)"
    and rest: "fold_opt (\<lambda>q (g, rs). fl_on_arrival (simple_dp_flow cost) g rs q) qs (g1, rs1) = Some (g', rs')"
    by (auto simp: simple_dp_flow_def bind_Some_iff)
  have run: "flow_run cost n (map rid (E @ [q])) g1 rs1 completed prev"
    using flow_run.arrival [OF Cons.prems(1) _ _ go] Cons.prems(3,4) by simp
  from arrival_kept [OF go] obtain rs2 where ins: "insert_request rs q = Some rs2" and kept: "index_kept rs2 rs1" by blast
  note get = insert_request_get [OF ins]
  have "get_record rs (rid x) \<noteq> None" if "x \<in> set E" for x using Cons.prems(2) that by (auto simp: recorded_def)
  then have "rid x \<noteq> rid q" if "x \<in> set E" for x using get(1) that by metis
  then have "recorded (E @ [q]) rs2" using Cons.prems(2) by (auto simp: recorded_def get(2) from_request_def)
  then have "recorded (E @ [q]) rs1" by (rule recorded_kept [OF kept])
  from Cons.IH [OF run this _ _ rest] Cons.prems(3,4) insert_length [OF ins] kept show ?case by (simp add: index_kept_def)
qed simp

lemma completions_fold:
  assumes "front_ok tf E D" and "\<And>r. r \<in> set actions \<Longrightarrow> r \<in> rid ` set E \<and> get_record rs r \<noteq> None"
    and "distinct (map fst D @ actions)"
  shows "\<exists>tf' lg'. fold_opt (log_completion clock rs) actions (tf, lg) = Some (tf', lg')
    \<and> front_ok tf' E (D @ map (\<lambda>r. (r, clock)) actions) \<and> same_trace tf tf' \<and> request_state lg' = request_state lg
    \<and> request_slo lg' = request_slo lg @ map (\<lambda>r. slo_entry r clock (record_of rs r)) actions"
  using assms
proof (induction actions arbitrary: tf D lg)
  case Nil
  then show ?case by (simp add: same_trace_def)
next
  case (Cons r actions)
  have new: "r \<notin> fst ` set D" using Cons.prems(3) by auto
  from completion_ok [OF Cons.prems(1) _ this, of clock] Cons.prems(2) [of r] obtain tf1 where
    tf1: "record_completion tf r clock = Some tf1" "same_trace tf tf1" "front_ok tf1 E (D @ [(r, clock)])" by auto
  obtain a where a: "get_record rs r = Some a" using Cons.prems(2) [of r] by auto
  let ?lg = "record_request_slo lg (slo_entry r clock a)"
  have "distinct (map fst (D @ [(r, clock)]) @ actions)" using Cons.prems(3) by simp
  from Cons.IH [OF tf1(3) _ this, of ?lg] Cons.prems(2) obtain tf' lg' where
    "fold_opt (log_completion clock rs) actions (tf1, ?lg) = Some (tf', lg')"
    "front_ok tf' E ((D @ [(r, clock)]) @ map (\<lambda>r. (r, clock)) actions)" "same_trace tf1 tf'"
    "request_state lg' = request_state ?lg"
    "request_slo lg' = request_slo ?lg @ map (\<lambda>r. slo_entry r clock (record_of rs r)) actions" by auto
  moreover have "log_completion clock rs r (tf, lg) = Some (tf1, ?lg)" by (simp add: log_completion_def tf1(1) a)
  moreover have "record_of rs r = a" by (simp add: record_of_def a)
  ultimately show ?case using same_trace_trans [OF tf1(2), of tf'] by (simp add: record_request_slo_def)
qed

subsection \<open>The steps of a pass\<close>

lemma drain_arrivals_ok:
  assumes "sim_ok cost n rows run E D" and "rows_fit rows" and "drain_arrivals (simple_dp_flow cost) f run = Some run'"
  shows "\<exists>qs. sim_ok cost n rows run' (E @ qs) D"
    and "rn_clock run' = rn_clock run" and "rn_logger run' = rn_logger run" and "last_state_clock run' = last_state_clock run"
proof -
  note ok = sim_okD [OF assms(1)]
  from ok(6) obtain prev where prev: "prev \<le> rn_clock run"
    "flow_run cost n (map rid E) (rn_flow run) (rn_store run) (map fst D) prev" by blast
  from drain_due_ok [OF ok(1), of f "rn_clock run" "[]"] obtain tf' qs where
    d: "drain_due f (rn_clock run) (rn_frontend run) [] = Some (tf', qs)" "same_trace (rn_frontend run) tf'"
    "front_ok tf' (E @ qs) D" by auto
  with assms(3) obtain g' rs' where go: "fold_opt (\<lambda>q (g, rs). fl_on_arrival (simple_dp_flow cost) g rs q) qs
      (rn_flow run, rn_store run) = Some (g', rs')" and run': "run' = run\<lparr>rn_flow := g', rn_store := rs', rn_frontend := tf'\<rparr>"
    by (auto simp: drain_arrivals_def bind_Some_iff)
  have rows: "scheduled_requests tf' = rows" using d(2) ok(2) by (simp add: same_trace_def)
  have fit: "rows_fit (scheduled_requests tf')" using assms(2) rows by simp
  have "newcomer (from_request q)" if "q \<in> set qs" for q using released_newcomer [OF d(3) fit, of q] that by simp
  moreover have "length E + length qs \<le> u32_max" using released_bound [OF d(3)] fit by (simp add: rows_fit_def)
  ultimately have a: "flow_run cost n (map rid (E @ qs)) g' rs' (map fst D) prev" "recorded (E @ qs) rs'"
    "length (rs_records (rn_store run)) \<le> length (rs_records rs')" using arrivals_fold [OF prev(2) ok(3) _ _ go] by blast+
  have "list_all2 (row_done (E @ qs)) D (request_slo (rn_logger run))"
    using ok(5) by (rule list_all2_mono) (auto intro: row_done_more)
  then have "sim_ok cost n rows run' (E @ qs) D" using a d(3) rows prev(1) ok(4) by (auto simp: sim_ok_def run_core_def run')
  then show "\<exists>qs. sim_ok cost n rows run' (E @ qs) D" ..
qed (use assms(3) in \<open>auto simp: drain_arrivals_def bind_Some_iff\<close>)

lemma flow_run_finished:
  assumes "flow_run cost n accepted g rs (completed @ fin) prev"
  shows "set fin \<subseteq> set accepted" and "distinct (completed @ fin)" and "r \<in> set fin \<Longrightarrow> \<exists>a. get_record rs r = Some a \<and> done_record a"
proof -
  have ok: "flow_ok n accepted g rs (completed @ fin) prev" by (rule flow_run_ok [OF assms])
  then have same: "mset accepted = mset (held_by g @ completed @ fin)" by (simp add: flow_ok_def)
  show "set fin \<subseteq> set accepted" using mset_eq_setD [OF same] by auto
  have "distinct (held_by g @ completed @ fin)" using ok mset_eq_imp_distinct_iff [OF same] by (simp add: flow_ok_def)
  then show "distinct (completed @ fin)" by simp
  show "r \<in> set fin \<Longrightarrow> \<exists>a. get_record rs r = Some a \<and> done_record a" using ok by (simp add: flow_ok_def)
qed

lemma advance_flow_ok:
  assumes "sim_ok cost n rows run E D" and "advance_flow (simple_dp_flow cost) run = Some run'"
  shows "\<exists>D'. sim_ok cost n rows run' E (D @ D')" and "request_state (rn_logger run') = request_state (rn_logger run)"
    and "rn_clock run' = rn_clock run" and "last_state_clock run' = last_state_clock run"
proof -
  note ok = sim_okD [OF assms(1)]
  from ok(6) obtain prev where prev: "prev \<le> rn_clock run"
    "flow_run cost n (map rid E) (rn_flow run) (rn_store run) (map fst D) prev" by blast
  from assms(2) obtain g' rs' fin tf' lg' where
    t: "flow_tick (iter_worker_ops cost) (rn_flow run) (rn_clock run) (rn_store run) = Some (g', rs', fin)"
    and c: "fold_opt (log_completion (rn_clock run) rs') fin (rn_frontend run, rn_logger run) = Some (tf', lg')"
    and run': "run' = run\<lparr>rn_flow := g', rn_store := rs', rn_frontend := tf', rn_logger := lg'\<rparr>"
    by (auto simp: advance_flow_def simple_dp_flow_def bind_Some_iff)
  have flow: "flow_run cost n (map rid E) g' rs' (map fst D @ fin) (rn_clock run)" by (rule flow_run.tick [OF prev(2,1) t])
  note fin = flow_run_finished [OF flow]
  have rec: "recorded E rs'" by (rule recorded_kept [OF flow_tick_kept [OF t] ok(3)])
  have size: "length rows \<le> length (rs_records rs')" using flow_tick_kept [OF t] ok(4) by (simp add: index_kept_def)
  have there: "r \<in> rid ` set E \<and> get_record rs' r \<noteq> None" if "r \<in> set fin" for r using fin(1) fin(3) [OF that] that by auto
  from completions_fold [OF ok(1) there fin(2), of "rn_clock run" "rn_logger run"] c have
    front: "front_ok tf' E (D @ map (\<lambda>r. (r, rn_clock run)) fin)" "same_trace (rn_frontend run) tf'" and
    log: "request_state lg' = request_state (rn_logger run)" "request_slo lg' = request_slo (rn_logger run)
      @ map (\<lambda>r. slo_entry r (rn_clock run) (record_of rs' r)) fin" by auto
  have "row_done E (r, rn_clock run) (slo_entry r (rn_clock run) (record_of rs' r))" if "r \<in> set fin" for r
  proof -
    from fin(3) [OF that] there [OF that] obtain a q where a: "get_record rs' r = Some a" "done_record a"
      and q: "q \<in> set E" "rid q = r" by blast
    then have "ar_request a = q" using rec a(1) by (force simp: recorded_def)
    then show ?thesis using a q by (auto simp: row_done_def record_of_def)
  qed
  then have "list_all2 (row_done E) (map (\<lambda>r. (r, rn_clock run)) fin) (map (\<lambda>r. slo_entry r (rn_clock run) (record_of rs' r)) fin)"
    by (simp add: list_all2_map1 list_all2_map2 list_all2_same)
  with ok(5) have "list_all2 (row_done E) (D @ map (\<lambda>r. (r, rn_clock run)) fin) (request_slo lg')"
    unfolding log(2) by (rule list_all2_appendI)
  moreover have "map fst (D @ map (\<lambda>r. (r, rn_clock run)) fin) = map fst D @ fin" by (simp add: comp_def)
  ultimately have "sim_ok cost n rows run' E (D @ map (\<lambda>r. (r, rn_clock run)) fin)"
    using front rec flow ok(2) size by (auto simp: sim_ok_def run_core_def run' same_trace_def comp_def)
  then show "\<exists>D'. sim_ok cost n rows run' E (D @ D')" ..
  show "request_state (rn_logger run') = request_state (rn_logger run)" "rn_clock run' = rn_clock run"
    "last_state_clock run' = last_state_clock run" using log(1) by (simp_all add: run')
qed

text \<open>The census rows: at which clocks they were taken.\<close>

definition census_ok :: "('g, 'd, 'f) RunState \<Rightarrow> nat list \<Rightarrow> bool" where
  "census_ok run C \<longleftrightarrow> map rs_logging_time_ms (request_state (rn_logger run)) = map as_ms C \<and> sorted_wrt (<) C
     \<and> last_state_clock run = (if C = [] then None else Some (last C))"

lemma sorted_snoc: "sorted_wrt (<) (C :: nat list) \<Longrightarrow> (\<And>c. c \<in> set C \<Longrightarrow> c < t) \<Longrightarrow> sorted_wrt (<) (C @ [t])"
  by (simp add: sorted_wrt_append)

lemma state_agg_time: "state_agg rs t = Some row \<Longrightarrow> rs_logging_time_ms row = as_ms t"
  by (auto simp: state_agg_def bind_Some_iff)

lemma take_snapshot_ok:
  assumes "take_snapshot run = Some run'" and "census_ok run C" and "\<And>c. c \<in> set C \<Longrightarrow> c < rn_clock run"
  shows "run_core run' = run_core run" and "\<exists>C'. census_ok run' C' \<and> (\<forall>c \<in> set C'. c \<le> rn_clock run')"
proof -
  from assms(1) obtain e due where e: "fire (rn_snapshot run) = Some (e, due)" and go: "if due
      then \<exists>row. state_agg (rn_store run) (rn_clock run) = Some row \<and> run' = run\<lparr>rn_snapshot := e,
        rn_logger := record_request_state (rn_logger run) row, last_state_clock := Some (rn_clock run)\<rparr>
      else run' = run\<lparr>rn_snapshot := e\<rparr>"
    by (auto simp: take_snapshot_def bind_Some_iff split: if_splits)
  show "run_core run' = run_core run"
    using go by (auto simp: run_core_def record_request_state_def split: if_splits)
  show "\<exists>C'. census_ok run' C' \<and> (\<forall>c \<in> set C'. c \<le> rn_clock run')"
  proof (cases due)
    case True
    have "census_ok run' (C @ [rn_clock run])" using go True assms(2) sorted_snoc [OF _ assms(3)]
      by (auto simp: census_ok_def record_request_state_def state_agg_time)
    moreover have "\<forall>c \<in> set (C @ [rn_clock run]). c \<le> rn_clock run'" using go True assms(3) by (auto intro: less_imp_le)
    ultimately show ?thesis by blast
  next
    case False
    then have "census_ok run' C" "\<forall>c \<in> set C. c \<le> rn_clock run'" using go assms(2,3) by (auto simp: census_ok_def intro: less_imp_le)
    then show ?thesis by blast
  qed
qed

definition aside :: "('g, 'd, 'f) RunState \<Rightarrow> 'g \<times> 'd RequestStore \<times> ('f, 'd) TraceFrontend \<times> nat \<times> LoggerSession \<times> nat option" where
  "aside run = (rn_flow run, rn_store run, rn_frontend run, rn_clock run, rn_logger run, last_state_clock run)"

lemma heartbeat_aside: "heartbeat info run = Some run' \<Longrightarrow> aside run' = aside run"
  by (auto simp: heartbeat_def aside_def bind_Some_iff split: if_splits)

text \<open>What a sample of the watchdog does.\<close>

lemma watch_cases:
  assumes "watch cfg run = Some (stuck, run')"
  obtains e where "fire (rn_watchdog run) = Some (e, False)" "\<not> stuck" "run' = run\<lparr>rn_watchdog := e\<rparr>"
  | e progress where "fire (rn_watchdog run) = Some (e, True)" "liveness (tf_completed (rn_frontend run)) (rn_store run) = Some progress"
      "progress \<noteq> prev_progress run" "\<not> stuck" "run' = run\<lparr>rn_watchdog := e, prev_progress := progress, idle_for := 0\<rparr>"
  | e where "fire (rn_watchdog run) = Some (e, True)"
      "liveness (tf_completed (rn_frontend run)) (rn_store run) = Some (prev_progress run)"
      "stuck \<longleftrightarrow> stuck_threshold cfg \<le> idle_for run + watchdog_sample"
      "run' = run\<lparr>rn_watchdog := e, idle_for := idle_for run + watchdog_sample\<rparr>"
proof -
  from assms obtain e due where e: "fire (rn_watchdog run) = Some (e, due)" by (auto simp: watch_def bind_Some_iff)
  show thesis
  proof (cases due)
    case True
    have e: "fire (rn_watchdog run) = Some (e, True)" using e True by simp
    from assms this obtain progress where p: "liveness (tf_completed (rn_frontend run)) (rn_store run) = Some progress"
      by (auto simp: watch_def bind_Some_iff Let_def)
    note go = assms [unfolded watch_def e p, simplified, unfolded Let_def]
    show thesis
    proof (cases "progress = prev_progress run")
      case same: True
      then have "(stuck_threshold cfg \<le> idle_for run + watchdog_sample, run\<lparr>rn_watchdog := e, idle_for := idle_for run + watchdog_sample\<rparr>)
        = (stuck, run')" using go by (simp only: if_False simp_thms option.inject)
      then show thesis using that(3) [OF e] p same by blast
    next
      case False
      then have "(False, run\<lparr>rn_watchdog := e, prev_progress := progress, idle_for := 0\<rparr>) = (stuck, run')"
        using go by (simp only: if_True simp_thms option.inject)
      then show thesis using that(2) [OF e p False] by blast
    qed
  next
    case False
    then have "(False, run\<lparr>rn_watchdog := e\<rparr>) = (stuck, run')" using assms e by (simp add: watch_def Let_def)
    moreover have "fire (rn_watchdog run) = Some (e, False)" using e False by simp
    ultimately show thesis using that(1) by blast
  qed
qed

lemma watch_aside: "watch cfg run = Some (stuck, run') \<Longrightarrow> aside run' = aside run"
  by (erule watch_cases) (simp_all add: aside_def)

lemma aside_core: "aside run' = aside run \<Longrightarrow> run_core run' = run_core run"
  and aside_census: "aside run' = aside run \<Longrightarrow> census_ok run' C = census_ok run C"
  by (simp_all add: aside_def run_core_def census_ok_def)

subsection \<open>A pass, and a run\<close>

definition verdict :: "TickCfg \<Rightarrow> TerminationCause \<Rightarrow> ('g, 'd, 'f) RunState \<Rightarrow> bool" where
  "verdict cfg cause run \<longleftrightarrow> (case cause of
     DrainComplete \<Rightarrow> exhausted (rn_frontend run) \<and> in_flight (rn_frontend run) = Some 0
   | DurationReached \<Rightarrow> \<not> run_to_end cfg \<and> tc_duration cfg \<le> rn_clock run
       \<and> \<not> (exhausted (rn_frontend run) \<and> in_flight (rn_frontend run) = Some 0)
   | Stuck \<Rightarrow> exhausted (rn_frontend run) \<and> (\<exists>k > 0. in_flight (rn_frontend run) = Some k) \<and> stuck_threshold cfg \<le> idle_for run
       \<and> liveness (tf_completed (rn_frontend run)) (rn_store run) = Some (prev_progress run))"

lemma watch_stuck: "watch cfg run = Some (True, run') \<Longrightarrow> stuck_threshold cfg \<le> idle_for run'
    \<and> liveness (tf_completed (rn_frontend run')) (rn_store run') = Some (prev_progress run')"
  by (erule watch_cases) simp_all

definition concluded :: "TickCfg \<Rightarrow> ('g, 'd, 'f) RunState \<Rightarrow> TerminationCause \<times> ('g, 'd, 'f) RunState + ('g, 'd, 'f) RunState \<Rightarrow> bool" where
  "concluded cfg run y \<longleftrightarrow> (case y of Inl (cause, run') \<Rightarrow> aside run' = aside run \<and> verdict cfg cause run'
     | Inr run' \<Rightarrow> (\<exists>run5. aside run5 = aside run \<and> run' = run5\<lparr>rn_clock := rn_clock run5 + tick_dt cfg\<rparr>)
         \<and> (run_to_end cfg \<or> rn_clock run < tc_duration cfg))"

lemma conclude_ok:
  assumes "conclude cfg run = Some y"
  shows "concluded cfg run y"
proof -
  from assms obtain k where k: "in_flight (rn_frontend run) = Some k" by (auto simp: conclude_def bind_Some_iff)
  let ?x = "exhausted (rn_frontend run)" and ?late = "\<not> run_to_end cfg \<and> tc_duration cfg \<le> rn_clock run"
  note go = assms [unfolded conclude_def k bind.bind_lunit Let_def]
  consider "?x \<and> k = 0" | "\<not> (?x \<and> k = 0)" ?late | "\<not> (?x \<and> k = 0)" "\<not> ?late" by blast
  then show ?thesis
  proof cases
    case 1
    then have "y = Inl (DrainComplete, run)" using go by simp
    then show ?thesis using 1 k by (simp add: concluded_def verdict_def)
  next
    case 2
    then have "Some (Inl (DurationReached, run)) = Some y" using go by (simp only: if_True if_False simp_thms)
    then show ?thesis using 2 k by (auto simp: concluded_def verdict_def)
  next
    case 3
    then obtain stuck run5 where w: "(if ?x \<and> k > 0 then watch cfg run else Some (False, run)) = Some (stuck, run5)"
      and y: "(if stuck then Some (Inl (Stuck, run5)) else map_option Inr (advance_clock cfg run5)) = Some y"
      using go by (simp only: if_False bind_Some_iff) (auto split: prod.splits)
    have a5: "aside run5 = aside run" using w watch_aside by (cases "?x \<and> k > 0") auto
    have fr: "rn_frontend run5 = rn_frontend run" using a5 by (simp add: aside_def)
    show ?thesis
    proof (cases stuck)
      case True
      with w have "watch cfg run = Some (True, run5)" "?x" "k > 0" by (simp_all split: if_splits)
      then have "verdict cfg Stuck run5" using watch_stuck [of cfg run run5] fr k by (simp add: verdict_def)
      then show ?thesis using a5 y True by (auto simp: concluded_def)
    next
      case False
      then have "y = Inr (run5\<lparr>rn_clock := rn_clock run5 + tick_dt cfg\<rparr>)"
        using y by (auto simp: advance_clock_def bind_Some_iff checked_add_u64_def split: if_splits)
      moreover have "run_to_end cfg \<or> rn_clock run < tc_duration cfg" using 3 by auto
      ultimately show ?thesis using a5 by (auto simp: concluded_def)
    qed
  qed
qed

definition settled :: "cost_model \<Rightarrow> nat \<Rightarrow> ('f, 'd) ScheduledRequest list \<Rightarrow> (IterWorker DpPool, 'd, 'f) RunState \<Rightarrow> bool" where
  "settled cost n rows run \<longleftrightarrow> (\<exists>E D. sim_ok cost n rows run E D) \<and> (\<exists>C. census_ok run C \<and> (\<forall>c \<in> set C. c \<le> rn_clock run))"

definition between :: "cost_model \<Rightarrow> nat \<Rightarrow> ('f, 'd) ScheduledRequest list \<Rightarrow> (IterWorker DpPool, 'd, 'f) RunState \<Rightarrow> bool" where
  "between cost n rows run \<longleftrightarrow> (\<exists>E D. sim_ok cost n rows run E D) \<and> (\<exists>C. census_ok run C \<and> (\<forall>c \<in> set C. c < rn_clock run))"

lemma pass_ok:
  assumes "between cost n rows run" and "rows_fit rows" and "0 < tick_dt cfg"
    and "run_pass (simple_dp_flow cost) f cfg info run = Some y"
  shows "case y of Inl (cause, run') \<Rightarrow> settled cost n rows run' \<and> verdict cfg cause run'
    | Inr run' \<Rightarrow> between cost n rows run' \<and> rn_clock run' = rn_clock run + tick_dt cfg \<and> (run_to_end cfg \<or> rn_clock run < tc_duration cfg)"
proof -
  from assms(4) obtain run1 run2 run3 run4 where s: "drain_arrivals (simple_dp_flow cost) f run = Some run1"
    "advance_flow (simple_dp_flow cost) run1 = Some run2" "take_snapshot run2 = Some run3"
    and s4: "heartbeat info run3 = Some run4" and y: "conclude cfg run4 = Some y" by (auto simp: run_pass_def bind_Some_iff)
  note a4 = heartbeat_aside [OF s4] and y = conclude_ok [OF y]
  from assms(1) obtain E D C where b: "sim_ok cost n rows run E D" "census_ok run C" "\<And>c. c \<in> set C \<Longrightarrow> c < rn_clock run"
    by (auto simp: between_def)
  note d = drain_arrivals_ok [OF b(1) assms(2) s(1)]
  obtain E1 where e1: "sim_ok cost n rows run1 E1 D" using d(1) by blast
  note a = advance_flow_ok [OF e1 s(2)]
  obtain D2 where d2: "sim_ok cost n rows run2 E1 D2" using a(1) by blast
  have clock: "rn_clock run2 = rn_clock run" using d(2) a(3) by simp
  have "census_ok run2 C" using b(2) d(3,4) a(2,4) by (simp add: census_ok_def)
  from take_snapshot_ok [OF s(3) this] b(3) clock obtain C' where core: "run_core run3 = run_core run2"
    and C': "census_ok run3 C'" "\<forall>c \<in> set C'. c \<le> rn_clock run3" by auto
  have at: "rn_clock run' = rn_clock run" "settled cost n rows run'" "sim_ok cost n rows run' E1 D2" "census_ok run' C'"
    if "aside run' = aside run3" for run'
  proof -
    show c: "rn_clock run' = rn_clock run" using that core clock by (simp add: aside_def run_core_def)
    have "run_core run' = run_core run2" using aside_core [OF that] core by simp
    from sim_ok_core [OF this] d2 show ok: "sim_ok cost n rows run' E1 D2" by blast
    show cen: "census_ok run' C'" using aside_census [OF that] C'(1) by blast
    have "rn_clock run' = rn_clock run3" using that by (simp add: aside_def)
    then show "settled cost n rows run'" using ok cen C'(2) by (auto simp: settled_def)
  qed
  show ?thesis
  proof (cases y)
    case (Inl z)
    then show ?thesis using y at(2) a4 by (auto simp: concluded_def)
  next
    case (Inr run')
    then obtain run5 where a5: "aside run5 = aside run4" "run' = run5\<lparr>rn_clock := rn_clock run5 + tick_dt cfg\<rparr>"
      and more: "run_to_end cfg \<or> rn_clock run4 < tc_duration cfg" using y by (auto simp: concluded_def)
    note at5 = at [OF trans [OF a5(1) a4]]
    obtain prev where "prev \<le> rn_clock run5" "flow_run cost n (map rid E1) (rn_flow run5) (rn_store run5) (map fst D2) prev"
      using sim_okD(6) [OF at5(3)] by blast
    then have "sim_ok cost n rows run' E1 D2"
      using at5(3) by (auto simp: sim_ok_def run_core_def a5(2) intro: exI [of _ prev])
    moreover have "census_ok run' C'" using at5(4) by (simp add: census_ok_def a5(2))
    moreover have "c < rn_clock run'" if "c \<in> set C'" for c
      using C'(2) that a4 a5 assms(3) by (fastforce simp: aside_def)
    ultimately show ?thesis using Inr a5 at5(1) at(1) [OF a4] more by (auto simp: between_def)
  qed
qed

subsection \<open>The start of a run\<close>

text \<open>The trace's rows are loaded in the order of their ids, and the pool's workers are idle.\<close>

definition run_setup :: "('f, 'z) clock_ops_scheme \<Rightarrow> nat \<Rightarrow> ('f, 'd) ScheduledRequest list \<Rightarrow> IterWorker DpPool \<Rightarrow>
    ('f, 'd) TraceFrontend \<Rightarrow> bool" where
  "run_setup f n rows g tf \<longleftrightarrow> rows_fit rows \<and> (\<forall>i < length rows. rm_request_id (sq_release (rows ! i)) = i)
     \<and> (\<exists>arrival capacity dependency. new_frontend f arrival capacity dependency rows = Some tf)
     \<and> (\<exists>build pid k policy. new_dp_pool build pid k policy = Some g \<and> k \<le> u32_max
          \<and> (\<forall>i < k. worker_ok n (build i) (new_request_store :: 'd RequestStore) \<and> holds (build i) = []))"

lemma setup_frontend:
  assumes "run_setup f n rows g tf"
  shows "front_ok tf [] []" and "scheduled_requests tf = rows"
proof -
  from assms obtain arrival capacity dependency where "new_frontend f arrival capacity dependency rows = Some tf"
    by (auto simp: run_setup_def)
  moreover have "length rows \<le> u32_max" "\<And>i. i < length rows \<Longrightarrow> rm_request_id (sq_release (rows ! i)) = i"
    using assms by (simp_all add: run_setup_def rows_fit_def)
  ultimately show "front_ok tf [] []" and "scheduled_requests tf = rows" using new_frontend_ok by blast+
qed

lemma start_ok:
  fixes rows :: "('f, 'd) ScheduledRequest list"
  assumes "run_setup f n rows g tf" and "reserve_slots new_request_store (length rows) = Some rs"
    and "start_run cfg g rs tf \<lparr>request_slo = [], request_state = []\<rparr> = Some run"
  shows "between cost n rows run"
proof -
  note front = setup_frontend [OF assms(1)]
  from assms(1) obtain build pid k policy where pool: "new_dp_pool build pid k policy = Some g" "k \<le> u32_max"
    "\<And>i. i < k \<Longrightarrow> worker_ok n (build i) (new_request_store :: 'd RequestStore) \<and> holds (build i) = []"
    by (auto simp: run_setup_def)
  have rs: "requests_ok rs" "arrived_ids rs = []" "length (rs_records rs) = length rows"
    using requests_reachable_ok [OF requests_reachable.reserved [OF assms(2)]] assms(2)
    by (auto simp: reserve_slots_def new_request_store_def bind_Some_iff)
  have "worker_ok n (build i) rs \<and> holds (build i) = []" if "i < k" for i
    using pool(3) [OF that] worker_frame [of n "build i" "new_request_store" rs] by simp
  from flow_run.started [OF pool(1,2) rs(1,2) this] have "flow_run cost n [] g rs [] 0" .
  moreover have "rn_flow run = g" "rn_store run = rs" "rn_frontend run = tf" "rn_clock run = 0"
    "rn_logger run = \<lparr>request_slo = [], request_state = []\<rparr>" "last_state_clock run = None"
    using assms(3) by (auto simp: start_run_def bind_Some_iff)
  ultimately have "sim_ok cost n rows run [] []" "census_ok run []"
    using front rs(3) by (simp_all add: sim_ok_def run_core_def recorded_def census_ok_def)
  then show ?thesis by (auto simp: between_def)
qed

lemma passes_ok:
  assumes "run_passes (simple_dp_flow cost) f cfg info run0 k run" and "between cost n rows run0" and "rows_fit rows" and "0 < tick_dt cfg"
  shows "between cost n rows run \<and> rn_clock run = rn_clock run0 + k * tick_dt cfg
    \<and> (0 < k \<longrightarrow> run_to_end cfg \<or> rn_clock run < tc_duration cfg + tick_dt cfg)"
  using assms(1)
proof induction
  case (one_pass k run run')
  from pass_ok [OF _ assms(3,4) one_pass.hyps(2)] one_pass.IH show ?case by (auto simp: algebra_simps)
qed (use assms(2) in simp)

lemma simulate_ends:
  assumes "run_setup f n rows g tf" and "0 < tick_dt cfg"
    and "simulate (simple_dp_flow cost) f cfg info gpus wall g tf = Some (summary, lg)"
  obtains run E D C where "sim_ok cost n rows run E D" "census_ok run C" "\<forall>c \<in> set C. c \<le> rn_clock run"
    "verdict cfg (sm_cause summary) run" "finalize run = Some lg" "summarize (sm_cause summary) run gpus wall = Some summary"
proof -
  have fit: "rows_fit rows" using assms(1) by (simp add: run_setup_def)
  from assms(3) obtain rs run0 cause run where s: "reserve_slots new_request_store (length rows) = Some rs"
    "start_run cfg g rs tf \<lparr>request_slo = [], request_state = []\<rparr> = Some run0"
    "run_loop (simple_dp_flow cost) f cfg info run0 = Some (cause, run)" "finalize run = Some lg"
    "summarize cause run gpus wall = Some summary"
    by (auto simp: simulate_def run_sim_def setup_frontend(2) [OF assms(1)] bind_Some_iff)
  from run_loop_ends [OF s(3)] obtain k run1 where p: "run_passes (simple_dp_flow cost) f cfg info run0 k run1"
    "run_pass (simple_dp_flow cost) f cfg info run1 = Some (Inl (cause, run))" by blast
  have "between cost n rows run1" using passes_ok [OF p(1) start_ok [OF assms(1) s(1,2)] fit assms(2)] by blast
  from pass_ok [OF this fit assms(2) p(2)] have "settled cost n rows run" "verdict cfg cause run" by simp_all
  moreover have "sm_cause summary = cause" using s(5) by (auto simp: summarize_def bind_Some_iff Let_def)
  ultimately show thesis using that s(4,5) by (auto simp: settled_def)
qed

subsection \<open>The final log\<close>

lemma sim_ok_records:
  assumes "sim_ok cost n rows run E D"
  shows "arrived_ids (rn_store run) = map rid E" and "requests_ok (rn_store run)" and "distinct (map rid E)"
    and "fst ` set D \<subseteq> rid ` set E" and "distinct (map fst D)"
    and "q \<in> set E \<Longrightarrow> \<exists>a. get_record (rn_store run) (rid q) = Some a \<and> ar_request a = q
      \<and> (lc_completed (ar_lifecycle a) \<longleftrightarrow> rid q \<in> fst ` set D) \<and> (rid q \<in> fst ` set D \<longrightarrow> done_record a)"
    and "q \<in> set E \<Longrightarrow> rid q < length rows \<and> rq_definition q = sq_definition (rows ! rid q)"
proof -
  note ok = sim_okD [OF assms]
  from ok(6) obtain prev where flow: "flow_run cost n (map rid E) (rn_flow run) (rn_store run) (map fst D) prev" by blast
  show ids: "arrived_ids (rn_store run) = map rid E" "requests_ok (rn_store run)" using flow_run_index [OF flow] by simp_all
  then show "distinct (map rid E)" by (metis requests_ok_def)
  note s = front_okD [OF ok(1), unfolded sched_ok_def]
  show "fst ` set D \<subseteq> rid ` set E" "distinct (map fst D)" using s by auto
  show "q \<in> set E \<Longrightarrow> rid q < length rows \<and> rq_definition q = sq_definition (rows ! rid q)"
    using s ok(1,2) by (auto simp: front_ok_def trace_ok_def)
  assume q: "q \<in> set E"
  then have "rid q \<in> set (map rid E)" by simp
  from flow_run_marked [OF flow this] obtain a where a: "get_record (rn_store run) (rid q) = Some a"
    "lc_completed (ar_lifecycle a) \<longleftrightarrow> rid q \<in> fst ` set D" by auto
  moreover have "ar_request a = q" using ok(3) q a(1) by (auto simp: recorded_def)
  moreover have "done_record a" if "rid q \<in> fst ` set D" using flow_run_ok [OF flow] that a(1) by (fastforce simp: flow_ok_def)
  ultimately show "\<exists>a. get_record (rn_store run) (rid q) = Some a \<and> ar_request a = q
      \<and> (lc_completed (ar_lifecycle a) \<longleftrightarrow> rid q \<in> fst ` set D) \<and> (rid q \<in> fst ` set D \<longrightarrow> done_record a)" by blast
qed

lemma sim_ok_arrived:
  assumes "sim_ok cost n rows run E D"
  shows "iter_arrived (rn_store run) = Some (map (\<lambda>q. (rid q, record_of (rn_store run) (rid q))) E)"
  using iter_arrived_ok [OF sim_ok_records(2) [OF assms]] sim_ok_records(1) [OF assms] by (simp add: comp_def)

lemma fold_rows:
  "request_slo (fold (\<lambda>(r, a) lg. if lc_completed (ar_lifecycle a) then lg else record_request_slo lg (slo_entry r t a)) xs lg)
    = request_slo lg @ map (\<lambda>(r, a). slo_entry r t a) (filter (\<lambda>(r, a). \<not> lc_completed (ar_lifecycle a)) xs)"
  "request_state (fold (\<lambda>(r, a) lg. if lc_completed (ar_lifecycle a) then lg else record_request_slo lg (slo_entry r t a)) xs lg)
    = request_state lg"
  by (induction xs arbitrary: lg) (auto simp: record_request_slo_def)

lemma finalize_rows:
  assumes "sim_ok cost n rows run E D" and "finalize run = Some lg"
  shows "request_slo lg = request_slo (rn_logger run) @ map (\<lambda>q. slo_entry (rid q) (rn_clock run) (record_of (rn_store run) (rid q)))
      (filter (\<lambda>q. rid q \<notin> fst ` set D) E)"
proof -
  have "lc_completed (ar_lifecycle (record_of (rn_store run) (rid q))) \<longleftrightarrow> rid q \<in> fst ` set D" if "q \<in> set E" for q
    using sim_ok_records(6) [OF assms(1) that] by (auto simp: record_of_def)
  then have "filter (\<lambda>q. \<not> lc_completed (ar_lifecycle (record_of (rn_store run) (rid q)))) E = filter (\<lambda>q. rid q \<notin> fst ` set D) E"
    by (intro filter_cong) auto
  then show ?thesis using assms(2)
    by (auto simp: finalize_def sim_ok_arrived [OF assms(1)] bind_Some_iff fold_rows filter_map comp_def record_request_state_def
        split: if_splits)
qed

lemma finalize_census:
  assumes "finalize run = Some lg" and "census_ok run C" and "\<And>c. c \<in> set C \<Longrightarrow> c \<le> rn_clock run"
  shows "\<exists>C'. map rs_logging_time_ms (request_state lg) = map as_ms C' \<and> sorted_wrt (<) C' \<and> C' \<noteq> [] \<and> last C' = rn_clock run"
proof (cases "last_state_clock run = Some (rn_clock run)")
  case True
  then have "request_state lg = request_state (rn_logger run)" using assms(1) by (auto simp: finalize_def bind_Some_iff fold_rows)
  then show ?thesis using True assms(2) by (auto simp: census_ok_def split: if_splits intro!: exI [of _ C])
next
  case False
  then obtain row where row: "state_agg (rn_store run) (rn_clock run) = Some row"
    "request_state lg = request_state (rn_logger run) @ [row]"
    using assms(1) by (auto simp: finalize_def bind_Some_iff fold_rows record_request_state_def)
  have "c < rn_clock run" if "c \<in> set C" for c
  proof -
    have "C \<noteq> []" using that by auto
    then have "last C \<noteq> rn_clock run" "last C \<in> set C" using False assms(2) by (auto simp: census_ok_def)
    then have "last C < rn_clock run" using assms(3) by (simp add: le_neq_implies_less)
    moreover have "c \<le> last C" using assms(2) that unfolding census_ok_def
      by (metis append_butlast_last_id \<open>C \<noteq> []\<close> in_set_conv_decomp le_refl less_imp_le set_ConsD sorted_wrt_append
          list.set_intros(1) Un_iff set_append empty_iff list.set(1))
    ultimately show ?thesis by simp
  qed
  then have "sorted_wrt (<) (C @ [rn_clock run])" using sorted_snoc assms(2) by (auto simp: census_ok_def)
  then show ?thesis using row assms(2) state_agg_time [OF row(1)]
    by (intro exI [of _ "C @ [rn_clock run]"]) (simp add: census_ok_def)
qed

subsection \<open>A pass returns\<close>

text \<open>Every worker can run its iteration to its end, has sequence numbers for \<open>m\<close> more requests and room in its
  counters for the prompt of any row beside its residents.\<close>

definition able :: "cost_model \<Rightarrow> nat \<Rightarrow> nat \<Rightarrow> ('f, 'd) ScheduledRequest list \<Rightarrow> nat \<Rightarrow> IterWorker DpPool \<Rightarrow> bool" where
  "able cost n now rows m g \<longleftrightarrow> (\<forall>w \<in> set (dp_workers g). worker_ready cost n now w \<and> la_next_sequence (iw_admission w) + m \<le> u64_max
     \<and> (\<forall>row \<in> set rows. prompt_tokens (sq_definition row) + declared_prefix_tokens (td_session (sq_definition row))
         + length (residents (iw_kv w)) \<le> u32_max))"

lemma enqueue_changes:
  assumes "worker_enqueue iw rs r = Some (iw', rs')"
  shows "iw_fsm iw' = iw_fsm iw \<and> iw_kv iw' = iw_kv iw \<and> la_next_sequence (iw_admission iw') = la_next_sequence (iw_admission iw) + 1"
  using assms by (auto simp: worker_enqueue_def local_accept_message_def freeze_candidate_def checked_add_u64_def bind_Some_iff Let_def
      split: if_splits)

lemma choose_workers: "choose_worker_idx ops pool = Some (pool', i) \<Longrightarrow> dp_workers pool' = dp_workers pool"
  by (auto simp: choose_worker_idx_def choose_round_robin_idx_def bind_Some_iff split: DpPlacementPolicy.splits)

lemma arrival_able:
  fixes rs :: "'d RequestStore"
  assumes "flow_on_arrival (iter_worker_ops cost) g rs q = Some (g', rs')" and "able cost n now rows (Suc m) g"
    and "flow_run cost n accepted g rs completed prev" and "newcomer (from_request q)" and "length accepted < u32_max"
    and "rid q \<notin> set accepted" and "row \<in> set rows" and "rq_definition q = sq_definition row"
  shows "able cost n now rows m g'"
proof -
  let ?ops = "iter_worker_ops cost :: (IterWorker, 'd RequestStore, nat, nat \<times> nat) worker_ops"
  from assms(1) obtain rs1 :: "'d RequestStore" and g1 i w w' where c: "choose_worker_idx ?ops g = Some (g1, i)"
    "nth_opt (dp_workers g1) i = Some w" "worker_enqueue w rs1 (rid q) = Some (w', rs')" "dp_workers g' = (dp_workers g1)[i := w']"
    and ins: "insert_request rs q = Some rs1"
  proof -
    from assms(1) obtain rs1 :: "'d RequestStore" and g1 i where c: "choose_worker_idx ?ops g = Some (g1, i)"
      "route_msg_to (iter_worker_ops cost) g1 rs1 i (rid q) = Some (g', rs')" "insert_request rs q = Some rs1"
      by (auto simp: flow_on_arrival_def admit_msg_def bind_Some_iff)
    then obtain w w' where "nth_opt (dp_workers g1) i = Some w" "op_enqueue (iter_worker_ops cost) w rs1 (rid q) = Some (w', rs')"
      "dp_workers g' = (dp_workers g1)[i := w']"
      by (auto simp: route_msg_to_def bind_Some_iff)
    then show thesis using that c(1,3) by (simp add: iter_worker_ops_def)
  qed
  note e = enqueue_changes [OF c(3)]
  have w: "w \<in> set (dp_workers g)" using c(2) choose_workers [OF c(1)] by (auto simp: nth_opt_def split: if_splits)
  have fok: "flow_ok n accepted g rs completed prev" by (rule flow_run_ok [OF assms(3)])
  have away: "rid q \<notin> set (held_by g)" using flow_ok_parts(1) [OF fok] assms(6) by blast
  then have free: "rid q \<notin> set (holds w)" using w by auto
  have "length (holds w) \<le> length (held_by g)" using w by (simp add: length_concat comp_def member_le_sum_list)
  then have small: "length (holds w) < u32_max" using flow_ok_parts(3) [OF fok] assms(5) by simp
  have "iter_pool.pool_ok n prev g rs1" using pool_ok_inserted [OF _ ins away] fok by (simp add: flow_ok_def)
  then have wok: "worker_ok n w rs1" using w by (simp add: iter_pool.pool_ok_def)
  have got: "get_record rs1 (rid q) = Some (from_request q)" using insert_request_get(2) [OF ins] by simp
  have new: "iw_kv w' = iw_kv w" "\<forall>c \<in> set (waiting (iw_admission w')). c \<in> set (waiting (iw_admission w))
      \<or> ac_fresh_prompt c = prompt_tokens (sq_definition row) \<and> ac_session c = td_session (sq_definition row)"
    using worker_enqueue_ok(3) [OF wok free got assms(4) small c(3)] assms(8) by (simp_all add: from_request_def)
  have old: "queue_fits w" "\<forall>row \<in> set rows. prompt_tokens (sq_definition row) + declared_prefix_tokens (td_session (sq_definition row))
      + length (residents (iw_kv w)) \<le> u32_max"
    using assms(2) w by (auto simp: able_def worker_ready_def counts_fit_def)
  have "queue_fits w'" unfolding queue_fits_def
  proof
    fix c assume "c \<in> set (waiting (iw_admission w'))"
    then show "ac_fresh_prompt c + declared_prefix_tokens (ac_session c) + length (residents (iw_kv w')) \<le> u32_max"
      using new old assms(7) by (auto simp: queue_fits_def)
  qed
  then have "worker_ready cost n now w' \<and> la_next_sequence (iw_admission w') + m \<le> u64_max
      \<and> (\<forall>row \<in> set rows. prompt_tokens (sq_definition row) + declared_prefix_tokens (td_session (sq_definition row))
         + length (residents (iw_kv w')) \<le> u32_max)"
    using assms(2) w e by (simp add: able_def worker_ready_def steps_fit_def counts_fit_def)
  moreover have "x \<in> set (dp_workers g) \<or> x = w'" if "x \<in> set (dp_workers g')" for x
    using that set_update_subset_insert [of "dp_workers g1" i w'] unfolding c(4) choose_workers [OF c(1)] by blast
  ultimately show ?thesis using assms(2) by (fastforce simp: able_def)
qed

lemma arrival_returns:
  assumes "flow_run cost n accepted g rs completed prev" and "newcomer (from_request q)" and "length accepted < u32_max"
    and "rid q \<notin> set accepted" and "rid q < length (rs_records rs)" and "able cost n now rows (Suc m) g"
  shows "\<exists>g' rs'. flow_on_arrival (iter_worker_ops cost) g rs q = Some (g', rs')"
proof -
  have fok: "flow_ok n accepted g rs completed prev" by (rule flow_run_ok [OF assms(1)])
  then have ok: "iter_pool.pool_ok n prev g rs" by (simp add: flow_ok_def)
  have "get_record rs (rid q) = None" using fok assms(4) unfolding flow_ok_def by blast
  then obtain rs1 where ins: "insert_request rs q = Some rs1"
    using assms(5) by (auto simp: insert_request_def get_record_def nth_opt_def Let_def assert_that_def)
  note get = insert_request_get [OF ins]
  have away: "rid q \<notin> set (held_by g)" using flow_ok_parts(1) [OF fok] assms(4) by blast
  have small: "length (held_by g) < u32_max" using flow_ok_parts(3) [OF fok] assms(3) by simp
  have "worker_room w" if "w \<in> set (dp_workers g)" for w using assms(6) that by (auto simp: able_def worker_room_def)
  with iter_pool.admit_ok(1) [OF pool_ok_inserted [OF ok ins away], of "rid q" "from_request q" cost, unfolded iter_pool_held] away small assms(2)
  have "admit_msg (iter_worker_ops cost) g rs1 (rid q) \<noteq> None" by (simp add: get(2))
  then show ?thesis by (auto simp: flow_on_arrival_def ins)
qed

lemma arrivals_return:
  assumes "flow_run cost n (map rid E) g rs completed prev" and "distinct (map rid (E @ qs))"
    and "\<And>q. q \<in> set qs \<Longrightarrow> newcomer (from_request q) \<and> rid q < length (rs_records rs)
      \<and> (\<exists>row \<in> set rows. rq_definition q = sq_definition row)" and "length E + length qs \<le> u32_max"
    and "able cost n now rows (length qs) g"
  shows "\<exists>g' rs'. fold_opt (\<lambda>q (g, rs). fl_on_arrival (simple_dp_flow cost) g rs q) qs (g, rs) = Some (g', rs') \<and> able cost n now rows 0 g'"
  using assms
proof (induction qs arbitrary: E g rs)
  case (Cons q qs)
  have new: "newcomer (from_request q)" "rid q < length (rs_records rs)" "rid q \<notin> set (map rid E)" "length (map rid E) < u32_max"
    "able cost n now rows (Suc (length qs)) g" using Cons.prems(2-5) by auto
  obtain row where row: "row \<in> set rows" "rq_definition q = sq_definition row" using Cons.prems(3) [of q] by auto
  from arrival_returns [OF Cons.prems(1) new(1,4,3,2,5)] obtain g1 rs1 where
    go: "flow_on_arrival (iter_worker_ops cost) g rs q = Some (g1, rs1)" by blast
  have run: "flow_run cost n (map rid (E @ [q])) g1 rs1 completed prev"
    using flow_run.arrival [OF Cons.prems(1) new(1,4) go] by simp
  from arrival_kept [OF go] obtain rs2 where "insert_request rs q = Some rs2" "index_kept rs2 rs1" by blast
  then have "length (rs_records rs) \<le> length (rs_records rs1)" using insert_length by (fastforce simp: index_kept_def)
  then have "newcomer (from_request x) \<and> rid x < length (rs_records rs1) \<and> (\<exists>row \<in> set rows. rq_definition x = sq_definition row)" if "x \<in> set qs" for x
    using Cons.prems(3) [of x] that by auto
  from Cons.IH [OF run _ this _ arrival_able [OF go new(5) Cons.prems(1) new(1,4,3) row]] Cons.prems(2,4) obtain g' rs' where
    "fold_opt (\<lambda>q (g, rs). fl_on_arrival (simple_dp_flow cost) g rs q) qs (g1, rs1) = Some (g', rs')" "able cost n now rows 0 g'" by auto
  then show ?case using go by (simp add: simple_dp_flow_def)
qed simp

lemma drain_arrivals_returns:
  assumes "sim_ok cost n rows run E D" and "rows_fit rows" and "able cost n (rn_clock run) rows (length rows) (rn_flow run)"
  shows "\<exists>run'. drain_arrivals (simple_dp_flow cost) f run = Some run' \<and> able cost n (rn_clock run) rows 0 (rn_flow run')"
proof -
  note ok = sim_okD [OF assms(1)]
  from ok(6) obtain prev where flow: "flow_run cost n (map rid E) (rn_flow run) (rn_store run) (map fst D) prev" by blast
  from drain_due_ok [OF ok(1), of f "rn_clock run" "[]"] obtain tf' qs where
    d: "drain_due f (rn_clock run) (rn_frontend run) [] = Some (tf', qs)" "same_trace (rn_frontend run) tf'"
    "front_ok tf' (E @ qs) D" by auto
  have rows: "scheduled_requests tf' = rows" using d(2) ok(2) by (simp add: same_trace_def)
  have fit: "rows_fit (scheduled_requests tf')" using assms(2) rows by simp
  have len: "length E + length qs \<le> length rows" using released_bound [OF d(3)] rows by simp
  note s = front_okD [OF d(3), unfolded sched_ok_def]
  have "newcomer (from_request q) \<and> rid q < length (rs_records (rn_store run)) \<and> (\<exists>row \<in> set rows. rq_definition q = sq_definition row)"
    if "q \<in> set qs" for q
  proof -
    have small: "rid q < length rows" using s d(3) rows that by (auto simp: front_ok_def trace_ok_def)
    have "rq_definition q = sq_definition (rows ! rid q)" using d(3) rows that by (simp add: front_ok_def)
    then show ?thesis using released_newcomer [OF d(3) fit, of q] that ok(4) small nth_mem [OF small] by auto
  qed
  moreover have "able cost n (rn_clock run) rows (length qs) (rn_flow run)" using assms(3) len by (fastforce simp: able_def)
  ultimately obtain g' rs' where "fold_opt (\<lambda>q (g, rs). fl_on_arrival (simple_dp_flow cost) g rs q) qs (rn_flow run, rn_store run)
      = Some (g', rs')" "able cost n (rn_clock run) rows 0 g'"
    using arrivals_return [OF flow, of qs rows "rn_clock run"] s len assms(2) by (auto simp: rows_fit_def)
  then show ?thesis using d(1) by (simp add: drain_arrivals_def)
qed

lemma advance_flow_returns:
  assumes "sim_ok cost n rows run E D" and "able cost n (rn_clock run) rows 0 (rn_flow run)"
  shows "\<exists>run'. advance_flow (simple_dp_flow cost) run = Some run'"
proof -
  note ok = sim_okD [OF assms(1)]
  from ok(6) obtain prev where prev: "prev \<le> rn_clock run"
    "flow_run cost n (map rid E) (rn_flow run) (rn_store run) (map fst D) prev" by blast
  have "iter_pool.pool_ok n prev (rn_flow run) (rn_store run)" using flow_run_ok [OF prev(2)] by (simp add: flow_ok_def)
  from iter_pool.collect_ok(1) [OF this prev(1), of cost] assms(2) obtain g' rs' es where
    "tick_collect (iter_worker_ops cost) (rn_flow run) (rn_clock run) (rn_store run) = Some (g', rs', es)" by (fastforce simp: able_def)
  then have t: "flow_tick (iter_worker_ops cost) (rn_flow run) (rn_clock run) (rn_store run) = Some (g', rs', map snd es)"
    by (simp add: flow_tick_def)
  note fin = flow_run_finished [OF flow_run.tick [OF prev(2,1) t]]
  have there: "r \<in> rid ` set E \<and> get_record rs' r \<noteq> None" if "r \<in> set (map snd es)" for r using fin(1) fin(3) [OF that] that by auto
  from completions_fold [OF ok(1) there fin(2), of "rn_clock run" "rn_logger run"] show ?thesis
    using t by (auto simp: advance_flow_def simple_dp_flow_def)
qed

definition gates_ok :: "('g, 'd, 'f) RunState \<Rightarrow> bool" where
  "gates_ok run \<longleftrightarrow> gate_ok (rn_snapshot run) \<and> gate_ok (rn_heartbeat run) \<and> gate_ok (rn_watchdog run)"

lemma sim_ok_progress:
  assumes "sim_ok cost n rows run E D"
  shows "\<exists>row. state_agg (rn_store run) t = Some row" and "\<exists>l. liveness k (rn_store run) = Some l"
    and "\<exists>m. in_flight (rn_frontend run) = Some m"
proof -
  from sim_okD(6) [OF assms] obtain prev where "flow_run cost n (map rid E) (rn_flow run) (rn_store run) (map fst D) prev" by blast
  from flow_run_index [OF this] have "requests_ok (rn_store run)" by blast
  then show "\<exists>row. state_agg (rn_store run) t = Some row" "\<exists>l. liveness k (rn_store run) = Some l"
    by (simp_all add: state_agg_def liveness_def iter_admitted_ok)
  note f = sim_okD(1) [OF assms]
  have "length D \<le> length E" using sched_ok_done [OF front_okD [OF f]] by simp
  then show "\<exists>m. in_flight (rn_frontend run) = Some m" using f by (simp add: in_flight_def front_ok_def)
qed

lemma conclude_returns:
  assumes "sim_ok cost n rows run E D" and "gates_ok run" and "rn_clock run + tick_dt cfg \<le> u64_max"
  shows "\<exists>y. conclude cfg run = Some y"
proof -
  from sim_ok_progress(3) [OF assms(1)] obtain k where k: "in_flight (rn_frontend run) = Some k" by blast
  obtain e due where e: "fire (rn_watchdog run) = Some (e, due)" using fire_ok assms(2) by (fastforce simp: gates_ok_def)
  obtain l where "liveness (tf_completed (rn_frontend run)) (rn_store run) = Some l" using sim_ok_progress(2) [OF assms(1)] by blast
  with e have "watch cfg run \<noteq> None" by (auto simp: watch_def Let_def)
  then obtain stuck run5 where w: "watch cfg run = Some (stuck, run5)" by auto
  have "rn_clock run5 = rn_clock run" using watch_aside [OF w] by (simp add: aside_def)
  then have "advance_clock cfg run5 \<noteq> None" "advance_clock cfg run \<noteq> None" using assms(3) by (simp_all add: advance_clock_def checked_add_u64_def)
  then show ?thesis using w by (auto simp: conclude_def k Let_def)
qed

text \<open>Only admitted requests complete, so the heartbeat's subtraction has a value.\<close>

lemma completed_le_admitted:
  assumes "sim_ok cost n rows run E D"
  shows "tf_completed (rn_frontend run) = length D" and "length D \<le> num_admitted (rn_store run)"
proof -
  note rec = sim_ok_records [OF assms]
  show "tf_completed (rn_frontend run) = length D" using sim_okD(1) [OF assms] by (simp add: front_ok_def)
  have "fst ` set D \<subseteq> set (admitted_ids (rn_store run))"
  proof
    fix r assume r: "r \<in> fst ` set D"
    then obtain q where "q \<in> set E" "rid q = r" using rec(4) by auto
    then obtain a where "get_record (rn_store run) r = Some a" "done_record a" using rec(6) r by blast
    then show "r \<in> set (admitted_ids (rn_store run))" using rec(2) by (auto simp: done_record_def requests_ok_def)
  qed
  then have "card (fst ` set D) \<le> length (admitted_ids (rn_store run))"
    by (meson List.finite_set card_length card_mono order_trans)
  moreover have "card (fst ` set D) = length D" using distinct_card [OF rec(5)] by simp
  ultimately show "length D \<le> num_admitted (rn_store run)" by (simp add: num_admitted_def)
qed

lemma heartbeat_returns:
  assumes "sim_ok cost n rows run E D" and "gate_ok (rn_heartbeat run)"
  obtains run' where "heartbeat info run = Some run'" "gate_ok (rn_heartbeat run')" "rn_watchdog run' = rn_watchdog run"
    "rn_snapshot run' = rn_snapshot run"
proof -
  obtain e due where e: "fire (rn_heartbeat run) = Some (e, due)" "gate_ok e" using fire_ok [OF assms(2)] by fastforce
  have "checked_sub (num_admitted (rn_store run)) (tf_completed (rn_frontend run)) \<noteq> None"
    using completed_le_admitted [OF assms(1)] by (simp add: checked_sub_def)
  then have "heartbeat info run = Some (run\<lparr>rn_heartbeat := e\<rparr>)" using e by (auto simp: heartbeat_def)
  then show thesis using that e by simp
qed

lemma pass_returns:
  assumes "between cost n rows run" and "rows_fit rows" and "gates_ok run" and "able cost n (rn_clock run) rows (length rows) (rn_flow run)"
    and "rn_clock run + tick_dt cfg \<le> u64_max"
  shows "\<exists>y. run_pass (simple_dp_flow cost) f cfg info run = Some y"
proof -
  from assms(1) obtain E D where ok: "sim_ok cost n rows run E D" by (auto simp: between_def)
  from drain_arrivals_returns [OF ok assms(2,4)] obtain run1 where run1: "drain_arrivals (simple_dp_flow cost) f run = Some run1"
    "able cost n (rn_clock run) rows 0 (rn_flow run1)" by blast
  note d = drain_arrivals_ok [OF ok assms(2) run1(1)]
  obtain E1 where ok1: "sim_ok cost n rows run1 E1 D" using d(1) by blast
  from advance_flow_returns [OF ok1] run1(2) d(2) obtain run2 where run2: "advance_flow (simple_dp_flow cost) run1 = Some run2" by auto
  note a = advance_flow_ok [OF ok1 run2]
  obtain D2 where ok2: "sim_ok cost n rows run2 E1 D2" using a(1) by blast
  have same: "rn_snapshot run2 = rn_snapshot run" "rn_heartbeat run2 = rn_heartbeat run" "rn_watchdog run2 = rn_watchdog run"
    using run1(1) run2 by (auto simp: drain_arrivals_def advance_flow_def bind_Some_iff)
  obtain e due where "fire (rn_snapshot run2) = Some (e, due)" using fire_ok assms(3) same by (fastforce simp: gates_ok_def)
  moreover obtain row where "state_agg (rn_store run2) (rn_clock run2) = Some row" using sim_ok_progress(1) [OF ok2] by blast
  ultimately have "take_snapshot run2 \<noteq> None" by (auto simp: take_snapshot_def)
  then obtain run3 where run3: "take_snapshot run2 = Some run3" by blast
  then have core3: "run_core run3 = run_core run2" "rn_heartbeat run3 = rn_heartbeat run2" "rn_watchdog run3 = rn_watchdog run2" "gate_ok (rn_snapshot run3)"
    using assms(3) same fire_keeps [of "rn_snapshot run2"]
    by (auto simp: take_snapshot_def run_core_def record_request_state_def gates_ok_def bind_Some_iff split: if_splits)
  have ok3: "sim_ok cost n rows run3 E1 D2" using sim_ok_core [OF core3(1)] ok2 by blast
  have "gate_ok (rn_heartbeat run3)" using assms(3) same core3(2) by (simp add: gates_ok_def)
  then obtain run4 where run4: "heartbeat info run3 = Some run4" "gate_ok (rn_heartbeat run4)" "rn_watchdog run4 = rn_watchdog run3"
    "rn_snapshot run4 = rn_snapshot run3" by (rule heartbeat_returns [OF ok3])
  have core: "run_core run4 = run_core run2" using aside_core [OF heartbeat_aside [OF run4(1)]] core3(1) by simp
  have ok4: "sim_ok cost n rows run4 E1 D2" using sim_ok_core [OF core] ok2 by blast
  have "rn_clock run4 = rn_clock run" using core d(2) a(3) by (simp add: run_core_def)
  moreover have "gates_ok run4" using run4 core3 same assms(3) by (simp add: gates_ok_def)
  ultimately obtain y where "conclude cfg run4 = Some y" using conclude_returns [OF ok4, of cfg] assms(5) by auto
  then show ?thesis using run1(1) run2 run3 run4(1) by (simp add: run_pass_def)
qed

text \<open>The gates a run starts with stay armed.\<close>

lemma start_gates: "start_run cfg g rs tf lg = Some run \<Longrightarrow> gates_ok run"
  by (auto simp: start_run_def ticks_def every_n_def assert_that_def bind_Some_iff gates_ok_def gate_ok_def split: if_splits)

lemma pass_gates:
  assumes "run_pass ops f cfg info run = Some (Inr run')" and "gates_ok run"
  shows "gates_ok run'"
proof -
  from assms(1) obtain run1 run2 run3 run4 where s: "drain_arrivals ops f run = Some run1" "advance_flow ops run1 = Some run2"
    "take_snapshot run2 = Some run3" "heartbeat info run3 = Some run4" "conclude cfg run4 = Some (Inr run')"
    by (auto simp: run_pass_def bind_Some_iff)
  have "gates_ok run2" using s(1,2) assms(2) by (auto simp: drain_arrivals_def advance_flow_def gates_ok_def bind_Some_iff)
  then have "gates_ok run3" using s(3)
    by (auto simp: take_snapshot_def gates_ok_def bind_Some_iff split: if_splits dest: fire_keeps)
  then have "gates_ok run4" using s(4) by (auto simp: heartbeat_def gates_ok_def bind_Some_iff split: if_splits dest: fire_keeps)
  moreover have "gates_ok run5" if "watch cfg run4 = Some (stuck, run5)" for stuck run5
    using that \<open>gates_ok run4\<close> by (cases rule: watch_cases) (auto simp: gates_ok_def dest: fire_keeps)
  ultimately show ?thesis using s(5)
    by (auto simp: conclude_def advance_clock_def gates_ok_def bind_Some_iff Let_def split: if_splits)
qed

lemma passes_gates: "run_passes ops f cfg info run0 k run \<Longrightarrow> gates_ok run0 \<Longrightarrow> gates_ok run"
  by (induction rule: run_passes.induct) (auto intro: pass_gates)

end
