(* ===== verification/Run_Properties.thy ===== *)
theory Run_Properties
  imports Run_Guarantees
begin

section \<open>Properties of whole runs\<close>

text \<open>
  What \<open>simulate\<close> returns: its summary and its log against the trace it replayed, the census rows, and when and why
  the loop stops.
\<close>

subsection \<open>The log and the summary\<close>

lemma slo_entry_sel [simp]:
  "slo_request_id (slo_entry r t a) = r" "slo_completed (slo_entry r t a) = lc_completed (ar_lifecycle a)"
  "slo_logging_time_ms (slo_entry r t a) = as_ms t" "num_output_tokens (slo_entry r t a) = emitted a"
  "fresh_prompt_tokens (slo_entry r t a) = prompt_tokens (definition_of a)"
  "slo_target_output_tokens (slo_entry r t a) = target a"
  by (simp_all add: slo_entry_def Let_def)

definition row_exact :: "('f, 'd) ScheduledRequest list \<Rightarrow> real \<Rightarrow> RequestSloEntry \<Rightarrow> bool" where
  "row_exact rows end row \<longleftrightarrow> slo_request_id row < length rows \<and> (let d = sq_definition (rows ! slo_request_id row) in
     fresh_prompt_tokens row = prompt_tokens d \<and> slo_target_output_tokens row = target_output_tokens d
     \<and> (if slo_completed row then num_output_tokens row = max 1 (target_output_tokens d)
        else slo_logging_time_ms row = end))"

lemma summarize_counts:
  assumes "sim_ok cost n rows run E D" and "summarize cause run gpus wall = Some summary"
  shows "requests_total summary = length E" and "requests_finished summary = length D"
    and "sim_ms summary = as_ms (rn_clock run)"
    and "sm_decode_tokens summary = (\<Sum>q\<leftarrow>E. emitted (record_of (rn_store run) (rid q)))"
proof -
  note rec = sim_ok_records [OF assms(1)]
  have "lc_completed (ar_lifecycle (record_of (rn_store run) (rid q))) \<longleftrightarrow> rid q \<in> fst ` set D" if "q \<in> set E" for q
    using rec(6) [OF that] by (auto simp: record_of_def)
  then have "filter (\<lambda>q. lc_completed (ar_lifecycle (record_of (rn_store run) (rid q)))) E = filter (\<lambda>q. rid q \<in> fst ` set D) E"
    by (intro filter_cong) auto
  moreover have "length (filter (\<lambda>q. rid q \<in> fst ` set D) E) = length D"
  proof -
    have "set (filter (\<lambda>r. r \<in> fst ` set D) (map rid E)) = fst ` set D" using rec(4) by auto
    then have "card (fst ` set D) = length (filter (\<lambda>r. r \<in> fst ` set D) (map rid E))"
      using distinct_card [OF distinct_filter [OF rec(3)]] by metis
    moreover have "card (fst ` set D) = length D" using distinct_card [OF rec(5)] by simp
    ultimately show ?thesis by (simp add: filter_map comp_def)
  qed
  moreover have "summarize cause run gpus wall = Some summary \<Longrightarrow> requests_finished summary =
      length (filter (\<lambda>q. lc_completed (ar_lifecycle (record_of (rn_store run) (rid q)))) E)"
    by (auto simp: summarize_def sim_ok_arrived [OF assms(1)] Let_def filter_map comp_def)
  ultimately show "requests_finished summary = length D" using assms(2) by simp
  show "requests_total summary = length E" "sim_ms summary = as_ms (rn_clock run)"
    "sm_decode_tokens summary = (\<Sum>q\<leftarrow>E. emitted (record_of (rn_store run) (rid q)))"
    using assms(2) rec(1) by (auto simp: summarize_def sim_ok_arrived [OF assms(1)] Let_def arrived_count_def comp_def)
qed

lemma final_rows:
  assumes "sim_ok cost n rows run E D" and "finalize run = Some lg"
  shows "mset (map slo_request_id (request_slo lg)) = mset (map rid E)" and "length (filter slo_completed (request_slo lg)) = length D"
    and "row \<in> set (request_slo lg) \<Longrightarrow> row_exact rows (as_ms (rn_clock run)) row"
proof -
  note rec = sim_ok_records [OF assms(1)] and logged = sim_okD(5) [OF assms(1)]
  let ?rest = "filter (\<lambda>q. rid q \<notin> fst ` set D) E"
  let ?late = "map (\<lambda>q. slo_entry (rid q) (rn_clock run) (record_of (rn_store run) (rid q))) ?rest"
  have all: "request_slo lg = request_slo (rn_logger run) @ ?late" by (rule finalize_rows [OF assms])
  have finished: "\<exists>a. row = slo_entry (rid (ar_request a)) (snd x) a \<and> done_record a \<and> ar_request a \<in> set E \<and> fst x = rid (ar_request a)"
    if "row_done E x row" for x row using that by (cases x) (auto simp: row_done_def)
  have sel: "slo_request_id row = fst x \<and> slo_completed row" if "row_done E x row" for x row
    using finished [OF that] by (auto simp: done_record_def)
  have "map slo_request_id (request_slo (rn_logger run)) = map fst D"
    using logged by (induction rule: list_all2_induct) (simp_all add: sel)
  moreover have fin: "filter slo_completed (request_slo (rn_logger run)) = request_slo (rn_logger run)"
    using logged by (induction rule: list_all2_induct) (simp_all add: sel)
  moreover have "filter slo_completed ?late = []"
    using rec(6) by (fastforce simp: filter_empty_conv record_of_def)
  ultimately show "length (filter slo_completed (request_slo lg)) = length D" using list_all2_lengthD [OF logged] by (simp add: all)
  have "mset (map fst D) = mset (filter (\<lambda>r. r \<in> fst ` set D) (map rid E))"
    using rec(3-5) by (intro iffD1 [OF set_eq_iff_mset_eq_distinct]) auto
  moreover have "map rid ?rest = filter (\<lambda>r. r \<notin> fst ` set D) (map rid E)" by (simp add: filter_map comp_def)
  moreover have "mset (map rid E) = mset (filter (\<lambda>r. r \<in> fst ` set D) (map rid E)) + mset (filter (\<lambda>r. r \<notin> fst ` set D) (map rid E))"
    by (metis mset_filter multiset_partition)
  ultimately show "mset (map slo_request_id (request_slo lg)) = mset (map rid E)"
    using \<open>map slo_request_id (request_slo (rn_logger run)) = map fst D\<close> by (simp add: all comp_def)
  assume "row \<in> set (request_slo lg)"
  then consider "row \<in> set (request_slo (rn_logger run))" | q where "q \<in> set ?rest"
    "row = slo_entry (rid q) (rn_clock run) (record_of (rn_store run) (rid q))" unfolding all by auto
  then show "row_exact rows (as_ms (rn_clock run)) row"
  proof cases
    case 1
    then obtain x where "row_done E x row" using logged by (metis in_set_conv_nth list_all2_conv_all_nth)
    from finished [OF this] obtain a where a: "row = slo_entry (rid (ar_request a)) (snd x) a" "done_record a" "ar_request a \<in> set E" by blast
    then show ?thesis using rec(7) [OF a(3)] by (simp add: row_exact_def Let_def done_record_def)
  next
    case (2 q)
    then have q: "q \<in> set E" "rid q \<notin> fst ` set D" by auto
    then show ?thesis using rec(6) [OF q(1)] rec(7) [OF q(1)] 2(2) by (auto simp: row_exact_def Let_def record_of_def)
  qed
qed

lemma sum_list_mset:
  fixes h :: "nat \<Rightarrow> nat"
  assumes "mset xs = mset ys"
  shows "sum_list (map h xs) = sum_list (map h ys)"
proof -
  have "mset (map h xs) = mset (map h ys)" using assms by simp
  then show ?thesis by (metis sum_mset_sum_list)
qed

subsection \<open>Properties\<close>

text \<open>C2: However a run ends, its log has exactly one terminal row for every request that arrived, and the summary counts
  them: the completed rows are the finished requests, each with exactly the output its row of the trace asks for (one token
  at least), and every other row is stamped with the end of the run.\<close>

theorem run_reports_every_request:
  assumes "run_setup f n rows g tf" and "0 < tick_dt cfg"
    and "simulate (simple_dp_flow cost) f cfg info gpus wall g tf = Some (summary, lg)"
  shows "distinct (map slo_request_id (request_slo lg)) \<and> length (request_slo lg) = requests_total summary
    \<and> length (filter slo_completed (request_slo lg)) = requests_finished summary
    \<and> (\<forall>row \<in> set (request_slo lg). row_exact rows (sim_ms summary) row)"
proof -
  obtain run E D C where ok: "sim_ok cost n rows run E D" and "census_ok run C" "\<forall>c \<in> set C. c \<le> rn_clock run"
    and "verdict cfg (sm_cause summary) run" and fin: "finalize run = Some lg"
    and sum: "summarize (sm_cause summary) run gpus wall = Some summary" by (rule simulate_ends [OF assms])
  note rows = final_rows [OF ok fin] and counts = summarize_counts [OF ok sum]
  have "distinct (map slo_request_id (request_slo lg))"
    using mset_eq_imp_distinct_iff [OF rows(1)] sim_ok_records(3) [OF ok] by simp
  moreover have "length (request_slo lg) = length E" using mset_eq_length [OF rows(1)] by simp
  ultimately show ?thesis using rows(2,3) counts by simp
qed

text \<open>C1: A run ends because everything drained exactly when it has served its whole trace: every row of the trace has
  arrived, has its terminal row in the log and has finished, and the output tokens counted are those the trace asks for.\<close>

theorem drained_iff_trace_served:
  assumes "run_setup f n rows g tf" and "0 < tick_dt cfg"
    and "simulate (simple_dp_flow cost) f cfg info gpus wall g tf = Some (summary, lg)"
  shows "sm_cause summary = DrainComplete \<longleftrightarrow> requests_finished summary = length rows \<and> requests_total summary = length rows
    \<and> mset (map slo_request_id (request_slo lg)) = mset [0..<length rows]
    \<and> sm_decode_tokens summary = (\<Sum>row\<leftarrow>rows. max 1 (target_output_tokens (sq_definition row)))"
proof -
  obtain run E D C where ok: "sim_ok cost n rows run E D" and "census_ok run C" "\<forall>c \<in> set C. c \<le> rn_clock run"
    and v: "verdict cfg (sm_cause summary) run" and fin: "finalize run = Some lg"
    and sum: "summarize (sm_cause summary) run gpus wall = Some summary" by (rule simulate_ends [OF assms])
  note rec = sim_ok_records [OF ok] and front = sim_okD(1,2) [OF ok] and rows = final_rows [OF ok fin] and counts = summarize_counts [OF ok sum]
  have bounds: "length D \<le> length E" "length E \<le> length rows"
    using sched_ok_done [OF front_okD [OF front(1)]] released_bound [OF front(1)] front(2) by simp_all
  have drained: "exhausted (rn_frontend run) \<and> in_flight (rn_frontend run) = Some 0 \<longleftrightarrow> length D = length rows"
    using front bounds by (auto simp: exhausted_def in_flight_def front_ok_def checked_sub_def)
  have cause: "sm_cause summary = DrainComplete \<longleftrightarrow> length D = length rows"
    using v unfolding drained [symmetric] by (auto simp: verdict_def split: TerminationCause.splits)
  have "mset (map slo_request_id (request_slo lg)) = mset [0..<length rows]
    \<and> sm_decode_tokens summary = (\<Sum>row\<leftarrow>rows. max 1 (target_output_tokens (sq_definition row)))" if "length D = length rows"
  proof -
    have len: "length E = length rows" using bounds that by simp
    have "card (set [0..<length rows]) \<le> card (set (map rid E))" using len distinct_card [OF rec(3)] by simp
    moreover have "set (map rid E) \<subseteq> set [0..<length rows]" using rec(7) by auto
    ultimately have "set (map rid E) = set [0..<length rows]" by (intro card_seteq) auto
    then have perm: "mset (map rid E) = mset [0..<length rows]"
      using rec(3) by (intro iffD1 [OF set_eq_iff_mset_eq_distinct]) auto
    have "card (rid ` set E) \<le> card (fst ` set D)"
      using distinct_card [OF rec(3)] distinct_card [OF rec(5)] len that by simp
    then have "fst ` set D = rid ` set E" using rec(4) by (intro card_seteq) auto
    then have "emitted (record_of (rn_store run) (rid q)) = max 1 (target_output_tokens (sq_definition (rows ! rid q)))" if "q \<in> set E" for q
      using rec(6,7) [OF that] that by (auto simp: record_of_def done_record_def)
    then have "sm_decode_tokens summary = (\<Sum>r\<leftarrow>map rid E. max 1 (target_output_tokens (sq_definition (rows ! r))))"
      unfolding counts(4) by (simp add: comp_def cong: map_cong)
    also have "\<dots> = (\<Sum>r\<leftarrow>[0..<length rows]. max 1 (target_output_tokens (sq_definition (rows ! r))))"
      by (rule sum_list_mset [OF perm])
    also have "\<dots> = (\<Sum>row\<leftarrow>map (\<lambda>r. rows ! r) [0..<length rows]. max 1 (target_output_tokens (sq_definition row)))"
      by (simp add: comp_def)
    also have "map (\<lambda>r. rows ! r) [0..<length rows] = rows" by (rule map_nth)
    finally show ?thesis using perm rows(1) by simp
  qed
  then show ?thesis using cause counts(1,2) bounds by auto
qed

lemma as_ms_less: "as_ms a < as_ms b \<longleftrightarrow> a < b"
  by (simp add: as_ms_def)

text \<open>C12: The census is taken at strictly increasing times, never twice at the same, and its last row is at the end of
  the run, so that consecutive rows can be subtracted to give the throughput of every segment of the run.\<close>

theorem census_times_increase:
  assumes "run_setup f n rows g tf" and "0 < tick_dt cfg"
    and "simulate (simple_dp_flow cost) f cfg info gpus wall g tf = Some (summary, lg)"
  shows "sorted_wrt (<) (map rs_logging_time_ms (request_state lg)) \<and> request_state lg \<noteq> []
    \<and> rs_logging_time_ms (last (request_state lg)) = sim_ms summary"
proof -
  obtain run E D C where ok: "sim_ok cost n rows run E D" and C: "census_ok run C" "\<forall>c \<in> set C. c \<le> rn_clock run"
    and "verdict cfg (sm_cause summary) run" and fin: "finalize run = Some lg"
    and sum: "summarize (sm_cause summary) run gpus wall = Some summary" by (rule simulate_ends [OF assms])
  from finalize_census [OF fin C(1)] C(2) obtain C' where C': "map rs_logging_time_ms (request_state lg) = map as_ms C'"
    "sorted_wrt (<) C'" "C' \<noteq> []" "last C' = rn_clock run" by blast
  have "sorted_wrt (<) (map as_ms C')" using C'(2) by (simp add: sorted_wrt_map as_ms_less)
  moreover have "request_state lg \<noteq> []" using C'(1,3) by auto
  moreover have "rs_logging_time_ms (last (request_state lg)) = as_ms (last C')"
    using C'(1,3) calculation(2) by (metis last_map)
  ultimately show ?thesis using C'(1,4) summarize_counts(3) [OF ok sum] by simp
qed

text \<open>A gate of period \<open>p\<close> fires on its first call and on every \<open>p\<close>-th call after it, and on no other.\<close>

theorem gate_period_exact:
  assumes "every_n p = Some e"
  shows "\<exists>e'. fire_many k e = Some (map (\<lambda>i. i mod p = 0) [0..<k], e')"
  using every_n_fires [OF assms] by blast

text \<open>\<open>TickCfg::new\<close> never gives a step of zero, so that every gate of a run gets a period.\<close>

lemma tick_cfg_step: "tick_cfg f ms to_end us = Some cfg \<Longrightarrow> 1000 \<le> tick_dt cfg \<and> run_to_end cfg = to_end \<and> tc_duration cfg = from_ms f ms"
  by (auto simp: tick_cfg_def assert_that_def split: if_splits)

subsection \<open>The end of the loop\<close>

text \<open>Every pass that goes on advances the clock by one step, whatever the flow does.\<close>

lemma pass_clock:
  assumes "run_pass ops f cfg info run = Some (Inr run')"
  shows "rn_clock run' = rn_clock run + tick_dt cfg \<and> (run_to_end cfg \<or> rn_clock run < tc_duration cfg)"
proof -
  from assms obtain run1 run2 run3 run4 where s: "drain_arrivals ops f run = Some run1" "advance_flow ops run1 = Some run2"
    "take_snapshot run2 = Some run3" "heartbeat info run3 = Some run4" "conclude cfg run4 = Some (Inr run')"
    by (auto simp: run_pass_def bind_Some_iff)
  have "rn_clock run1 = rn_clock run" "rn_clock run2 = rn_clock run1" "rn_clock run3 = rn_clock run2"
    using s(1-3) by (auto simp: drain_arrivals_def advance_flow_def take_snapshot_def bind_Some_iff split: if_splits)
  moreover have "rn_clock run4 = rn_clock run3" using heartbeat_aside [OF s(4)] by (simp add: aside_def)
  ultimately show ?thesis using conclude_ok [OF s(5)] by (auto simp: concluded_def aside_def)
qed

lemma loop_step: "run_pass ops f cfg info run = Some (Inl out) \<Longrightarrow> run_loop ops f cfg info run = Some out"
  "run_pass ops f cfg info run = Some (Inr run') \<Longrightarrow> run_loop ops f cfg info run = run_loop ops f cfg info run'"
  by (subst run_loop.simps, simp)+

lemma bounded_run:
  assumes "\<not> run_to_end cfg" and "0 < tick_dt cfg" and "rn_clock run < tc_duration cfg + tick_dt cfg"
  shows "\<exists>k final. run_passes ops f cfg info run k final \<and> k * tick_dt cfg < tc_duration cfg + tick_dt cfg - rn_clock run
    \<and> (run_pass ops f cfg info final = None \<or> (\<exists>out. run_pass ops f cfg info final = Some (Inl out) \<and> run_loop ops f cfg info run = Some out))"
  using assms(3)
proof (induction "tc_duration cfg + tick_dt cfg - rn_clock run" arbitrary: run rule: less_induct)
  case less
  show ?case
  proof (cases "run_pass ops f cfg info run")
    case None
    then show ?thesis using run_passes.no_pass [of ops f cfg info run] less.prems by (intro exI [of _ 0] exI [of _ run]) simp
  next
    case (Some y)
    show ?thesis
    proof (cases y)
      case (Inl out)
      with Some have p: "run_pass ops f cfg info run = Some (Inl out)" by simp
      from loop_step(1) [OF this] show ?thesis using p run_passes.no_pass [of ops f cfg info run] less.prems
        by (intro exI [of _ 0] exI [of _ run]) simp
    next
      case (Inr run1)
      with Some have p: "run_pass ops f cfg info run = Some (Inr run1)" by simp
      note c = pass_clock [OF p]
      then have "tc_duration cfg + tick_dt cfg - rn_clock run1 < tc_duration cfg + tick_dt cfg - rn_clock run" using assms by auto
      from less.hyps [OF this] c assms(1) obtain k final where k: "run_passes ops f cfg info run1 k final"
        "k * tick_dt cfg < tc_duration cfg + tick_dt cfg - rn_clock run1" "run_pass ops f cfg info final = None
          \<or> (\<exists>out. run_pass ops f cfg info final = Some (Inl out) \<and> run_loop ops f cfg info run1 = Some out)" by auto
      have "Suc k * tick_dt cfg < tc_duration cfg + tick_dt cfg - rn_clock run" using k(2) c assms(1) by auto
      then show ?thesis using passes_first [OF p k(1)] k(3) loop_step(2) [OF p] by (intro exI [of _ "Suc k"] exI [of _ final]) simp
    qed
  qed
qed

text \<open>C10: Without \<open>run_to_end\<close> the loop ends, whatever the flow does: after fewer than \<open>duration / tick_dt + 1\<close> passes
  either a pass decides how the run ends, and the loop returns that, or a pass panics.\<close>

theorem run_ends_by_duration:
  assumes "start_run cfg g rs tf lg = Some run0" and "\<not> run_to_end cfg"
  shows "\<exists>k final. run_passes ops f cfg info run0 k final \<and> k * tick_dt cfg < tc_duration cfg + tick_dt cfg
    \<and> (run_pass ops f cfg info final = None \<or> (\<exists>out. run_pass ops f cfg info final = Some (Inl out) \<and> run_loop ops f cfg info run0 = Some out))"
proof -
  have "0 < tick_dt cfg" "rn_clock run0 = 0" using assms(1) by (auto simp: start_run_def ticks_def assert_that_def bind_Some_iff split: if_splits)
  then show ?thesis using bounded_run [OF assms(2), of run0 ops f info] by simp
qed

subsection \<open>The watchdog\<close>

lemma conclude_watch:
  assumes "conclude cfg run = Some y"
  shows "y = Inl (Stuck, run') \<Longrightarrow> watch cfg run = Some (True, run')"
    and "y = Inr run' \<Longrightarrow> \<exists>run5. (run5 = run \<or> watch cfg run = Some (False, run5)) \<and> run' = run5\<lparr>rn_clock := rn_clock run5 + tick_dt cfg\<rparr>"
proof -
  from assms obtain k where k: "in_flight (rn_frontend run) = Some k" by (auto simp: conclude_def bind_Some_iff)
  let ?x = "exhausted (rn_frontend run)" and ?late = "\<not> run_to_end cfg \<and> tc_duration cfg \<le> rn_clock run"
  note go = assms [unfolded conclude_def k bind.bind_lunit Let_def]
  consider "?x \<and> k = 0" | "\<not> (?x \<and> k = 0)" ?late | "\<not> (?x \<and> k = 0)" "\<not> ?late" by blast
  then have "(y = Inl (Stuck, run') \<longrightarrow> watch cfg run = Some (True, run'))
    \<and> (y = Inr run' \<longrightarrow> (\<exists>run5. (run5 = run \<or> watch cfg run = Some (False, run5)) \<and> run' = run5\<lparr>rn_clock := rn_clock run5 + tick_dt cfg\<rparr>))"
  proof cases
    case 1
    then show ?thesis using go by auto
  next
    case 2
    then have "Some (Inl (DurationReached, run)) = Some y" using go by (simp only: if_True if_False simp_thms)
    then show ?thesis by auto
  next
    case 3
    then obtain stuck run5 where w: "(if ?x \<and> k > 0 then watch cfg run else Some (False, run)) = Some (stuck, run5)"
      and y: "(if stuck then Some (Inl (Stuck, run5)) else map_option Inr (advance_clock cfg run5)) = Some y"
      using go by (simp only: if_False bind_Some_iff) (auto split: prod.splits)
    show ?thesis
    proof (cases stuck)
      case True
      then show ?thesis using w y by (auto split: if_splits)
    next
      case False
      then have "y = Inr (run5\<lparr>rn_clock := rn_clock run5 + tick_dt cfg\<rparr>)"
        using y by (auto simp: advance_clock_def bind_Some_iff checked_add_u64_def split: if_splits)
      moreover have "run5 = run \<or> watch cfg run = Some (False, run5)" using w False by (auto split: if_splits)
      ultimately show ?thesis by auto
    qed
  qed
  then show "y = Inl (Stuck, run') \<Longrightarrow> watch cfg run = Some (True, run')"
    and "y = Inr run' \<Longrightarrow> \<exists>run5. (run5 = run \<or> watch cfg run = Some (False, run5)) \<and> run' = run5\<lparr>rn_clock := rn_clock run5 + tick_dt cfg\<rparr>"
    by blast+
qed

abbreviation progress_of :: "('g, 'd, 'f) RunState \<Rightarrow> Liveness option" where
  "progress_of run \<equiv> liveness (tf_completed (rn_frontend run)) (rn_store run)"

text \<open>What the watchdog remembers is the progress at its last sample, at least the calls since then ago.\<close>

definition remembers :: "('g, 'd) flow_ops \<Rightarrow> ('f, 'z) clock_ops_scheme \<Rightarrow> TickCfg \<Rightarrow> bool \<Rightarrow> ('g, 'd, 'f) RunState \<Rightarrow> nat \<Rightarrow> nat \<Rightarrow>
    ('g, 'd, 'f) RunState \<Rightarrow> bool" where
  "remembers ops f cfg info run0 p k run \<longleftrightarrow> en_period (rn_watchdog run) = p \<and> en_countdown (rn_watchdog run) < p
     \<and> (prev_progress run = no_liveness \<or> (\<exists>j s. run_passes ops f cfg info run0 j s \<and> j + (p - 1) \<le> k + en_countdown (rn_watchdog run)
          \<and> progress_of s = Some (prev_progress run)))"

lemma pass_watch:
  assumes "run_pass ops f cfg info run = Some y"
  obtains run4 where "conclude cfg run4 = Some y" "rn_watchdog run4 = rn_watchdog run" "prev_progress run4 = prev_progress run"
proof -
  from assms obtain run1 run2 run3 run4 where s: "drain_arrivals ops f run = Some run1" "advance_flow ops run1 = Some run2"
    "take_snapshot run2 = Some run3" "heartbeat info run3 = Some run4" "conclude cfg run4 = Some y"
    by (auto simp: run_pass_def bind_Some_iff)
  have "rn_watchdog run1 = rn_watchdog run \<and> prev_progress run1 = prev_progress run"
    "rn_watchdog run2 = rn_watchdog run1 \<and> prev_progress run2 = prev_progress run1"
    "rn_watchdog run3 = rn_watchdog run2 \<and> prev_progress run3 = prev_progress run2"
    "rn_watchdog run4 = rn_watchdog run3 \<and> prev_progress run4 = prev_progress run3"
    using s(1-4) by (auto simp: drain_arrivals_def advance_flow_def take_snapshot_def heartbeat_def bind_Some_iff split: if_splits)
  then show thesis using that [OF s(5)] by simp
qed

lemma fire_iff:
  "fire e = Some (e', due) \<longleftrightarrow> (if en_countdown e = 0 then 0 < en_period e \<and> due \<and> e' = e\<lparr>en_countdown := en_period e - 1\<rparr>
     else \<not> due \<and> e' = e\<lparr>en_countdown := en_countdown e - 1\<rparr>)"
  by (auto simp: fire_def bind_Some_iff checked_sub_Some_iff)

lemma remembers_passes:
  assumes "run_passes ops f cfg info run0 k run" and "remembers ops f cfg info run0 p 0 run0"
  shows "remembers ops f cfg info run0 p k run"
  using assms(1)
proof induction
  case (one_pass k run run')
  have here: "run_passes ops f cfg info run0 (Suc k) run'" using one_pass.hyps by (rule run_passes.one_pass)
  from one_pass.hyps(2) obtain run4 where run4: "conclude cfg run4 = Some (Inr run')" "rn_watchdog run4 = rn_watchdog run"
    "prev_progress run4 = prev_progress run" by (rule pass_watch)
  from conclude_watch(2) [OF run4(1) refl] obtain run5 where run5: "run5 = run4 \<or> watch cfg run4 = Some (False, run5)"
    "run' = run5\<lparr>rn_clock := rn_clock run5 + tick_dt cfg\<rparr>" by blast
  have same: "rn_watchdog run' = rn_watchdog run5" "prev_progress run' = prev_progress run5" "progress_of run' = progress_of run5"
    by (simp_all add: run5(2))
  show ?case
  proof (cases "run5 = run4")
    case True
    then show ?thesis using one_pass.IH same run4 by (force simp: remembers_def)
  next
    case False
    then have w: "watch cfg run4 = Some (False, run5)" using run5(1) by simp
    have sampled: "remembers ops f cfg info run0 p (Suc k) run'"
      if "en_period (rn_watchdog run') = p" "en_countdown (rn_watchdog run') = p - 1" "0 < p" "progress_of run' = Some (prev_progress run')"
      using that here unfolding remembers_def by (intro conjI disjI2 exI [of _ "Suc k"] exI [of _ run']) auto
    from w show ?thesis
    proof (cases rule: watch_cases)
      case (1 e)
      then show ?thesis using one_pass.IH same run4 by (force simp: remembers_def fire_iff split: if_splits)
    next
      case (2 e progress)
      then show ?thesis using sampled one_pass.IH same run4 by (auto simp: remembers_def fire_iff split: if_splits)
    next
      case (3 e)
      then show ?thesis using sampled one_pass.IH same run4 by (auto simp: remembers_def fire_iff split: if_splits)
    qed
  qed
qed (rule assms(2))

text \<open>C11: A run is declared stuck only when its trace is exhausted with requests in flight, and nothing has happened for a
  whole sampling period: a full period of passes earlier just as many requests had completed and been admitted and just as
  many tokens been processed, or nothing has ever been admitted at all.\<close>

theorem stuck_means_idle:
  assumes "start_run cfg g rs tf lg = Some run0" and "run_passes ops f cfg info run0 k run"
    and "run_pass ops f cfg info run = Some (Inl (Stuck, run'))"
  shows "exhausted (rn_frontend run') \<and> (\<exists>m > 0. in_flight (rn_frontend run') = Some m)
    \<and> (\<exists>now. progress_of run' = Some now \<and> (now = no_liveness \<or> (\<exists>j s. run_passes ops f cfg info run0 j s
          \<and> j + max (watchdog_sample div tick_dt cfg) 1 \<le> Suc k \<and> progress_of s = Some now)))"
proof -
  let ?p = "max (watchdog_sample div tick_dt cfg) 1"
  have "remembers ops f cfg info run0 ?p 0 run0"
    using assms(1) by (auto simp: start_run_def ticks_def every_n_def assert_that_def bind_Some_iff remembers_def split: if_splits)
  from remembers_passes [OF assms(2) this] have rem: "remembers ops f cfg info run0 ?p k run" .
  from assms(3) obtain run4 where run4: "conclude cfg run4 = Some (Inl (Stuck, run'))" "rn_watchdog run4 = rn_watchdog run"
    "prev_progress run4 = prev_progress run" by (rule pass_watch)
  from conclude_watch(1) [OF run4(1) refl] have w: "watch cfg run4 = Some (True, run')" .
  have "verdict cfg Stuck run'" using conclude_ok [OF run4(1)] by (simp add: concluded_def)
  then have v: "exhausted (rn_frontend run')" "\<exists>m > 0. in_flight (rn_frontend run') = Some m"
    "progress_of run' = Some (prev_progress run')" by (simp_all add: verdict_def)
  from w have "prev_progress run' = prev_progress run \<and> en_countdown (rn_watchdog run) = 0"
    by (cases rule: watch_cases) (use run4 in \<open>auto simp: fire_iff split: if_splits\<close>)
  then show ?thesis using v rem by (fastforce simp: remembers_def)
qed

subsection \<open>A pass returns\<close>


subsection \<open>Concrete runs\<close>

text \<open>A run of the small trace that is over after its first pass.\<close>

definition sample_cfg :: TickCfg where
  "sample_cfg = \<lparr>tick_dt = 1000, tc_duration = 0, run_to_end = False, snapshot_dt = snapshot_interval, stuck_threshold = stuck_budget\<rparr>"

lemma sample_setup: "run_setup sample_clock 1 sample_rows sample_pool (sample_front 0 0 0 [] [])"
proof -
  have "new_dp_pool (\<lambda>_. sample_worker sample_store) 0 1 LeastQueued = Some sample_pool"
    by (simp add: new_dp_pool_def assert_that_def sample_pool_def)
  moreover have "rows_fit sample_rows"
    using sample_rows_facts(1) by (auto simp: rows_fit_def sample_rows_def sample_row_def declared_prefix_tokens_def u32_max_def)
  moreover have "(1 :: nat) \<le> u32_max" by (simp add: u32_max_def)
  ultimately show ?thesis using sample_new sample_rows_facts(2) sample_worker_facts(1,2) unfolding run_setup_def by blast
qed

lemma sample_start:
  obtains rs and run :: "(IterWorker DpPool, unit, nat) RunState" where
    "reserve_slots new_request_store (length sample_rows) = Some rs"
    "start_run sample_cfg sample_pool rs (sample_front 0 0 0 [] []) \<lparr>request_slo = [], request_state = []\<rparr> = Some run"
    "gates_ok run" "rn_clock run = 0" "rn_flow run = sample_pool"
proof -
  obtain rs :: "unit RequestStore" where rs: "reserve_slots new_request_store (length sample_rows) = Some rs"
    by (simp add: reserve_slots_def new_request_store_def assert_that_def)
  obtain run :: "(IterWorker DpPool, unit, nat) RunState" where
    "start_run sample_cfg sample_pool rs (sample_front 0 0 0 [] []) \<lparr>request_slo = [], request_state = []\<rparr> = Some run"
    by (simp add: start_run_def ticks_def sample_cfg_def every_n_def assert_that_def less_max_iff_disj)
  moreover from this have "gates_ok run" "rn_clock run = 0" "rn_flow run = sample_pool"
    by (auto simp: start_run_def ticks_def every_n_def assert_that_def bind_Some_iff gates_ok_def gate_ok_def split: if_splits)
  ultimately show thesis using that rs by blast
qed

lemma sample_able:
  fixes run :: "(IterWorker DpPool, unit, nat) RunState"
  assumes "rn_clock run = 0" and "rn_flow run = sample_pool"
  shows "able sample_cost 1 (rn_clock run) sample_rows (length sample_rows) (rn_flow run)"
proof -
  have "residents sample_store = []" using mset_residents [of sample_store] sample_empty by simp
  moreover have "iw_kv (sample_worker sample_store) = sample_store" "iw_admission (sample_worker sample_store) = sample_admission"
    by (simp_all add: sample_worker_def from_components_def)
  moreover have "rows_fit sample_rows" using sample_setup by (simp add: run_setup_def)
  ultimately show ?thesis using sample_worker_facts(4) [of 0] sample_admission_facts(5)
    by (simp add: able_def assms sample_pool_def rows_fit_def sample_rows_def u64_max_def)
qed

lemma sample_simulation:
  obtains summary lg where "simulate (simple_dp_flow sample_cost) sample_clock sample_cfg False 1 1 sample_pool (sample_front 0 0 0 [] [])
    = Some (summary, lg)"
proof -
  obtain rs and run :: "(IterWorker DpPool, unit, nat) RunState" where s: "reserve_slots new_request_store (length sample_rows) = Some rs"
    "start_run sample_cfg sample_pool rs (sample_front 0 0 0 [] []) \<lparr>request_slo = [], request_state = []\<rparr> = Some run"
    "gates_ok run" "rn_clock run = 0" "rn_flow run = sample_pool" by (rule sample_start)
  have fit: "rows_fit sample_rows" using sample_setup by (simp add: run_setup_def)
  have b: "between sample_cost 1 sample_rows run" by (rule start_ok [OF sample_setup s(1,2)])
  from pass_returns [OF b fit s(3) sample_able [OF s(4,5)], of sample_cfg sample_clock] obtain y where
    y: "run_pass (simple_dp_flow sample_cost) sample_clock sample_cfg False run = Some y"
    by (auto simp: s(4) sample_cfg_def u64_max_def)
  have step: "0 < tick_dt sample_cfg" by (simp add: sample_cfg_def)
  from pass_ok [OF b fit step y] obtain cause run' where out: "y = Inl (cause, run')" "settled sample_cost 1 sample_rows run'"
    by (auto simp: sample_cfg_def split: sum.splits)
  then obtain E D where ok: "sim_ok sample_cost 1 sample_rows run' E D" by (auto simp: settled_def)
  have "finalize run' \<noteq> None"
    using sim_ok_progress(1) [OF ok, of "rn_clock run'"] sim_ok_arrived [OF ok] by (auto simp: finalize_def)
  then obtain lg where "finalize run' = Some lg" by blast
  moreover obtain summary where "summarize cause run' 1 1 = Some summary" by (simp add: summarize_def sim_ok_arrived [OF ok] Let_def)
  moreover have "run_loop (simple_dp_flow sample_cost) sample_clock sample_cfg False run = Some (cause, run')"
    using loop_step(1) y out(1) by blast
  moreover have "scheduled_requests (sample_front 0 0 0 [] []) = sample_rows" by (simp add: sample_front_def)
  ultimately have "simulate (simple_dp_flow sample_cost) sample_clock sample_cfg False 1 1 sample_pool (sample_front 0 0 0 [] []) = Some (summary, lg)"
    using s(1,2) by (simp add: simulate_def run_sim_def)
  then show thesis by (rule that)
qed


theorem run_reports_every_request_witness:
  "\<exists>summary lg. simulate (simple_dp_flow sample_cost) sample_clock sample_cfg False 1 1 sample_pool (sample_front 0 0 0 [] []) = Some (summary, lg)
    \<and> length (request_slo lg) = requests_total summary"
proof -
  obtain summary lg where s: "simulate (simple_dp_flow sample_cost) sample_clock sample_cfg False 1 1 sample_pool (sample_front 0 0 0 [] [])
    = Some (summary, lg)" by (rule sample_simulation)
  from run_reports_every_request [OF sample_setup _ s] show ?thesis using s by (auto simp: sample_cfg_def)
qed

theorem drained_iff_trace_served_witness:
  "\<exists>summary lg. simulate (simple_dp_flow sample_cost) sample_clock sample_cfg False 1 1 sample_pool (sample_front 0 0 0 [] []) = Some (summary, lg)
    \<and> (sm_cause summary = DrainComplete \<longrightarrow> requests_finished summary = 3)"
proof -
  obtain summary lg where s: "simulate (simple_dp_flow sample_cost) sample_clock sample_cfg False 1 1 sample_pool (sample_front 0 0 0 [] [])
    = Some (summary, lg)" by (rule sample_simulation)
  from drained_iff_trace_served [OF sample_setup _ s] show ?thesis using s by (auto simp: sample_cfg_def sample_rows_def)
qed

theorem census_times_increase_witness:
  "\<exists>summary lg. simulate (simple_dp_flow sample_cost) sample_clock sample_cfg False 1 1 sample_pool (sample_front 0 0 0 [] []) = Some (summary, lg)
    \<and> request_state lg \<noteq> []"
proof -
  obtain summary lg where s: "simulate (simple_dp_flow sample_cost) sample_clock sample_cfg False 1 1 sample_pool (sample_front 0 0 0 [] [])
    = Some (summary, lg)" by (rule sample_simulation)
  from census_times_increase [OF sample_setup _ s] show ?thesis using s by (auto simp: sample_cfg_def)
qed

theorem gate_period_exact_witness:
  "\<exists>e e'. every_n 3 = Some e \<and> fire_many 5 e = Some ([True, False, False, True, False], e')"
proof -
  have e: "every_n 3 = Some \<lparr>en_period = 3, en_countdown = 0\<rparr>" by (simp add: every_n_def assert_that_def)
  have "map (\<lambda>i :: nat. i mod 3 = 0) [0..<5] = [True, False, False, True, False]" by (simp add: upt_conv_Cons)
  with gate_period_exact [OF e, of 5] show ?thesis using e by auto
qed

theorem run_ends_by_duration_witness:
  "\<exists>(run :: (IterWorker DpPool, unit, nat) RunState) k final. run_passes (simple_dp_flow sample_cost) sample_clock sample_cfg True run k final
    \<and> k * 1000 < 1000"
proof -
  obtain rs and run :: "(IterWorker DpPool, unit, nat) RunState" where
    "start_run sample_cfg sample_pool rs (sample_front 0 0 0 [] []) \<lparr>request_slo = [], request_state = []\<rparr> = Some run"
    by (rule sample_start)
  from run_ends_by_duration [OF this, of "simple_dp_flow sample_cost" sample_clock True] show ?thesis
    by (auto simp: sample_cfg_def)
qed

text \<open>A flow that takes requests in and never does anything with them.\<close>

definition idle_flow :: "(unit, unit) flow_ops" where
  "idle_flow = \<lparr>fl_on_arrival = (\<lambda>g rs q. map_option (Pair g) (insert_request rs q)), fl_tick = (\<lambda>g now rs. Some (g, rs, []))\<rparr>"

definition sample_single :: "nat \<Rightarrow> nat \<Rightarrow> (nat, unit) TraceFrontend" where
  "sample_single out c = \<lparr>scheduled_requests = [sample_row 0 0 None], releases = [sq_release (sample_row 0 0 None)],
     tf_emitted = out, tf_completed = 0, replay_scheduler = \<lparr>rp_arrival = sample_arrival, rp_capacity = None,
       rp_dependency = IndependentState c, rp_active = ByRequests, capacity_backlogged = False\<rparr>\<rparr>"

lemma sample_single_drain: "drain_due sample_clock 0 (sample_single 0 0) [] = Some (sample_single 1 1, [realize_at (sample_row 0 0 None) 0])"
proof -
  have "drain_round sample_clock 0 (sample_single 0 0) = Some (sample_single 1 1, Some (realize_at (sample_row 0 0 None) 0))"
    "drain_round sample_clock 0 (sample_single 1 1) = Some (sample_single 1 1, None)"
    by (simp_all add: sample_step_defs sample_single_def Let_def)
  then show ?thesis by (subst drain_due.simps, simp) (subst drain_due.simps, simp)
qed

definition patient_cfg :: TickCfg where
  "patient_cfg = sample_cfg\<lparr>run_to_end := True\<rparr>"

definition idle_start :: "(unit, unit, nat) RunState" where
  "idle_start = \<lparr>rn_flow = (), rn_store = new_request_store, rn_frontend = sample_single 0 0,
     rn_logger = \<lparr>request_slo = [], request_state = []\<rparr>, rn_clock = 0, prev_progress = no_liveness, idle_for = 0,
     last_state_clock = None, rn_snapshot = \<lparr>en_period = 10000000, en_countdown = 0\<rparr>,
     rn_heartbeat = \<lparr>en_period = 1000000, en_countdown = 0\<rparr>, rn_watchdog = \<lparr>en_period = 100000000, en_countdown = 0\<rparr>\<rparr>"

lemma idle_starts: "start_run patient_cfg () new_request_store (sample_single 0 0) \<lparr>request_slo = [], request_state = []\<rparr> = Some (idle_start)"
  by (simp add: start_run_def ticks_def patient_cfg_def sample_cfg_def every_n_def assert_that_def idle_start_def
      snapshot_interval_def heartbeat_interval_def watchdog_sample_def)

lemma idle_stuck: "\<exists>run'. run_pass idle_flow sample_clock patient_cfg False (idle_start) = Some (Inl (Stuck, run'))"
proof -
  let ?q = "realize_at (sample_row 0 0 None) 0"
  obtain rs :: "unit RequestStore" where rs: "insert_request new_request_store ?q = Some rs" "admitted_ids rs = []" "iter_admitted rs = Some []"
    by (auto simp: insert_request_def new_request_store_def realize_at_def sample_row_def iter_admitted_def)
  let ?run = "(idle_start)\<lparr>rn_store := rs, rn_frontend := sample_single 1 1\<rparr>"
  have 1: "drain_arrivals idle_flow sample_clock (idle_start) = Some ?run"
    by (simp add: drain_arrivals_def idle_start_def sample_single_drain idle_flow_def rs(1))
  have 2: "advance_flow idle_flow ?run = Some ?run" by (simp add: advance_flow_def idle_flow_def idle_start_def)
  obtain run3 where 3: "take_snapshot ?run = Some run3" "rn_watchdog run3 = rn_watchdog (idle_start)" "rn_frontend run3 = sample_single 1 1"
    "rn_store run3 = rs" "prev_progress run3 = no_liveness" "idle_for run3 = 0" "rn_heartbeat run3 = rn_heartbeat (idle_start)"
    by (simp add: take_snapshot_def idle_start_def fire_def state_agg_def rs(3))
  obtain run4 where 4: "heartbeat False run3 = Some run4" "rn_watchdog run4 = rn_watchdog (idle_start)" "rn_frontend run4 = sample_single 1 1"
    "rn_store run4 = rs" "prev_progress run4 = no_liveness" "idle_for run4 = 0"
    using 3 by (simp add: heartbeat_def idle_start_def fire_def)
  have "liveness 0 rs = Some no_liveness" by (simp add: liveness_def rs(2,3) num_admitted_def no_liveness_def)
  then obtain run5 where "watch patient_cfg run4 = Some (True, run5)"
    using 4 by (auto simp: watch_def idle_start_def fire_def Let_def patient_cfg_def sample_cfg_def stuck_budget_def watchdog_sample_def sample_single_def)
  then have "conclude patient_cfg run4 = Some (Inl (Stuck, run5))"
    using 4(3) by (simp add: conclude_def in_flight_def exhausted_def sample_single_def patient_cfg_def)
  then show ?thesis using 1 2 3(1) 4(1) by (simp add: run_pass_def)
qed

theorem stuck_means_idle_witness:
  "\<exists>run'. run_pass idle_flow sample_clock patient_cfg False (idle_start) = Some (Inl (Stuck, run'))
    \<and> exhausted (rn_frontend run') \<and> progress_of run' \<noteq> None"
proof -
  obtain run' where run': "run_pass idle_flow sample_clock patient_cfg False (idle_start) = Some (Inl (Stuck, run'))"
    using idle_stuck by blast
  from stuck_means_idle [OF idle_starts run_passes.no_pass run'] show ?thesis using run' by auto
qed

end
