(* ===== verification/Gpu_Cluster.thy ===== *)
theory Gpu_Cluster
  imports Run_Loop
begin

section \<open>The GPU cluster (\<open>worker/gpu_cluster.rs\<close>)\<close>

text \<open>
  The registry of GPUs and communication groups and the oracle of transfer times between workers. Its \<open>f64\<close>
  arithmetic is the parameter \<open>f\<close>, so that every rounding of a link's share, of a kernel's milliseconds and of a
  latency-stripped slice stays where the code has it; times themselves are \<open>u64\<close> nanoseconds and their sums are checked. A kernel
  behind the cost is a function from the bytes of one link to its milliseconds; the log is \<open>None\<close> or the rows handed to
  it, whose \<open>_ms\<close> columns are kept as the times they are computed from by \<open>as_ms\<close>. The static KV facts of a worker are of any type.
\<close>

subsection \<open>Times and costs\<close>

text \<open>What the cluster uses of \<open>f64\<close> beyond the clocks' arithmetic and casts: \<open>round\<close> and \<open>MIN_POSITIVE\<close>.\<close>

record 'f gpu_ops = "'f clock_ops" +
  f_round :: "'f \<Rightarrow> 'f"
  f_min_positive :: 'f

text \<open>\<open>Time::as_ms\<close>; \<open>Time::from_ms\<close> is \<open>from_ms\<close>.\<close>

definition ms_of_time :: "'f gpu_ops \<Rightarrow> nat \<Rightarrow> 'f" where
  "ms_of_time f t = f_div f (f_of_nat f t) (f_of_nat f 1000000)"

datatype 'f CostSource = Kernel "nat \<Rightarrow> 'f" | IntraKernel "nat \<Rightarrow> 'f" | Analytic 'f

definition analytic :: "'f gpu_ops \<Rightarrow> 'f \<Rightarrow> 'f CostSource" where
  "analytic f gbps = Analytic (f_max f (f_mul f gbps (f_of_nat f 1000000)) (f_min_positive f))"

definition link_time :: "'f gpu_ops \<Rightarrow> 'f CostSource \<Rightarrow> nat \<Rightarrow> nat" where
  "link_time f cost message_size_bytes = (case cost of
     Kernel k \<Rightarrow> from_ms f (f_max f (k message_size_bytes) (f_of_nat f 0))
   | IntraKernel k \<Rightarrow> from_ms f (f_max f (k message_size_bytes) (f_of_nat f 0))
   | Analytic bytes_per_ms \<Rightarrow> from_ms f (f_div f (f_of_nat f message_size_bytes) bytes_per_ms))"

definition latency :: "'f gpu_ops \<Rightarrow> 'f CostSource \<Rightarrow> nat" where
  "latency f cost = (case cost of Analytic _ \<Rightarrow> 0
   | _ \<Rightarrow> let b0 = 1024; t0 = ms_of_time f (link_time f cost b0); t1 = ms_of_time f (link_time f cost (2 * b0))
     in from_ms f (f_max f (f_sub f (f_mul f (f_of_nat f 2) t0) t1) (f_of_nat f 0)))"

text \<open>\<open>(bytes as f64 / count as f64).round() as u64\<close>.\<close>

definition per_link :: "'f gpu_ops \<Rightarrow> nat \<Rightarrow> nat \<Rightarrow> nat" where
  "per_link f bytes links = f_as_u64 f (f_round f (f_div f (f_of_nat f bytes) (f_of_nat f links)))"

subsection \<open>State\<close>

record GpuInfo =
  gi_id :: nat
  gi_name :: string
  gi_pool :: nat
  gi_worker_id :: nat
  gi_pool_tag :: string

record CommGroup =
  cg_base :: nat
  cg_count :: nat
  send_free :: nat
  recv_free :: nat
  owner_pool_tag :: string
  owner_worker_id :: nat

record GpuClusterEntry =
  net_start :: nat
  net_end :: nat
  src_pool_tag :: string
  src_worker_id :: nat
  dst_pool_tag :: string
  dst_worker_id :: nat
  ge_send_gid :: nat
  ge_recv_gid :: nat
  send_count :: nat
  recv_count :: nat
  ge_bytes :: nat
  ge_kind :: string
  ge_tag :: string
  send_end :: nat

record ('f, 'k) GpuCluster =
  gpus :: "GpuInfo list"
  gc_groups :: "CommGroup list"
  gc_cost :: "'f CostSource"
  gc_logger :: "GpuClusterEntry list option"
  kv_caps :: "(string \<times> nat \<times> nat \<times> nat \<times> 'k) list"

definition new_cluster :: "'f CostSource \<Rightarrow> ('f, 'k) GpuCluster" where
  "new_cluster cost = \<lparr>gpus = [], gc_groups = [], gc_cost = cost, gc_logger = None, kv_caps = []\<rparr>"

subsection \<open>Registration\<close>

definition allocate :: "('f, 'k) GpuCluster \<Rightarrow> nat \<Rightarrow> nat \<Rightarrow> nat \<Rightarrow> string \<Rightarrow> string \<Rightarrow> (('f, 'k) GpuCluster \<times> nat) option" where
  "allocate c pool worker n name tag = do {
     let base = as_u16 (length (gpus c));
     ids \<leftarrow> those (map (\<lambda>offset. try_u16 (base + offset)) [0..<n]);
     Some (c\<lparr>gpus := gpus c @ map (\<lambda>i. \<lparr>gi_id = i, gi_name = name, gi_pool = pool, gi_worker_id = worker, gi_pool_tag = tag\<rparr>) ids\<rparr>, base)
   }"

definition register_kv_pool :: "('f, 'k) GpuCluster \<Rightarrow> string \<Rightarrow> nat \<Rightarrow> nat \<Rightarrow> nat \<Rightarrow> 'k \<Rightarrow> ('f, 'k) GpuCluster" where
  "register_kv_pool c tag pool worker gid facts = c\<lparr>kv_caps := kv_caps c @ [(tag, pool, worker, gid, facts)]\<rparr>"

definition register_comm_group :: "('f, 'k) GpuCluster \<Rightarrow> nat \<Rightarrow> nat \<Rightarrow> string \<Rightarrow> nat \<Rightarrow> ('f, 'k) GpuCluster \<times> nat" where
  "register_comm_group c base links tag worker =
     (c\<lparr>gc_groups := gc_groups c @ [\<lparr>cg_base = base, cg_count = links, send_free = 0, recv_free = 0, owner_pool_tag = tag,
        owner_worker_id = worker\<rparr>]\<rparr>, as_u16 (length (gc_groups c)))"

definition num_gpus :: "('f, 'k) GpuCluster \<Rightarrow> nat" where
  "num_gpus c = length (gpus c)"

definition num_groups :: "('f, 'k) GpuCluster \<Rightarrow> nat" where
  "num_groups c = length (gc_groups c)"

definition comm_groups :: "('f, 'k) GpuCluster \<Rightarrow> (nat \<times> nat \<times> nat \<times> string \<times> nat) list" where
  "comm_groups c = map (\<lambda>(gid, g). (as_u16 gid, cg_base g, cg_count g, owner_pool_tag g, owner_worker_id g))
     (zip [0..<length (gc_groups c)] (gc_groups c))"

subsection \<open>Transfers\<close>

definition record_row :: "('f, 'k) GpuCluster \<Rightarrow> GpuClusterEntry \<Rightarrow> ('f, 'k) GpuCluster" where
  "record_row c row = c\<lparr>gc_logger := map_option (\<lambda>rows. rows @ [row]) (gc_logger c)\<rparr>"

definition transfer_row :: "CommGroup \<Rightarrow> CommGroup \<Rightarrow> nat \<Rightarrow> nat \<Rightarrow> nat \<Rightarrow> nat \<Rightarrow> nat \<Rightarrow> nat \<Rightarrow> string \<Rightarrow> string \<Rightarrow> GpuClusterEntry" where
  "transfer_row s r start stop freed_at sg rg bytes kind tag =
     \<lparr>net_start = start, net_end = stop, src_pool_tag = owner_pool_tag s, src_worker_id = owner_worker_id s,
      dst_pool_tag = owner_pool_tag r, dst_worker_id = owner_worker_id r, ge_send_gid = sg, ge_recv_gid = rg,
      send_count = cg_count s, recv_count = cg_count r, ge_bytes = bytes, ge_kind = kind, ge_tag = tag, send_end = freed_at\<rparr>"

definition set_send_free :: "('f, 'k) GpuCluster \<Rightarrow> nat \<Rightarrow> nat \<Rightarrow> ('f, 'k) GpuCluster" where
  "set_send_free c g t = c\<lparr>gc_groups := (gc_groups c)[g := (gc_groups c ! g)\<lparr>send_free := t\<rparr>]\<rparr>"

definition set_recv_free :: "('f, 'k) GpuCluster \<Rightarrow> nat \<Rightarrow> nat \<Rightarrow> ('f, 'k) GpuCluster" where
  "set_recv_free c g t = c\<lparr>gc_groups := (gc_groups c)[g := (gc_groups c ! g)\<lparr>recv_free := t\<rparr>]\<rparr>"

definition submit_transfer :: "'f gpu_ops \<Rightarrow> ('f, 'k) GpuCluster \<Rightarrow> nat \<Rightarrow> nat \<Rightarrow> nat \<Rightarrow> nat \<Rightarrow> string \<Rightarrow> string \<Rightarrow>
    (('f, 'k) GpuCluster \<times> nat) option" where
  "submit_transfer f c now sg rg bytes kind tag = do {
     s \<leftarrow> nth_opt (gc_groups c) sg;
     r \<leftarrow> nth_opt (gc_groups c) rg;
     if cg_count s = 0 \<or> cg_count r = 0 then Some (c, now)
     else do {
       let send_dur = link_time f (gc_cost c) (per_link f bytes (cg_count s));
       let recv_dur = link_time f (gc_cost c) (per_link f bytes (cg_count r));
       let start = max (max now (send_free s)) (recv_free r);
       stop \<leftarrow> checked_add_u64 start (max send_dur recv_dur);
       let c1 = set_recv_free (set_send_free c sg stop) rg stop;
       Some (record_row c1 (transfer_row s r start stop stop sg rg bytes kind tag), stop)
     }
   }"

text \<open>The live sources of a gather, the byte total and the common start; a live source carries its group id, its bytes,
  its links and its transmission slice.\<close>

type_synonym live_source = "nat \<times> nat \<times> nat \<times> nat"

definition gather_slice :: "'f gpu_ops \<Rightarrow> 'f CostSource \<Rightarrow> nat \<Rightarrow> nat \<Rightarrow> nat" where
  "gather_slice f cost alpha bytes =
     from_ms f (f_max f (f_sub f (ms_of_time f (link_time f cost bytes)) (ms_of_time f alpha)) (f_of_nat f 0))"

definition gather_source :: "'f gpu_ops \<Rightarrow> ('f, 'k) GpuCluster \<Rightarrow> nat \<Rightarrow> nat \<times> nat \<Rightarrow> live_source list \<times> nat \<times> nat \<Rightarrow>
    (live_source list \<times> nat \<times> nat) option" where
  "gather_source f c alpha src st = (case (src, st) of ((sg, bytes), (live, volume, start)) \<Rightarrow> do {
     s \<leftarrow> nth_opt (gc_groups c) sg;
     if bytes = 0 \<or> cg_count s = 0 then Some st
     else do {
       volume' \<leftarrow> checked_add_u64 volume bytes;
       let xfer = gather_slice f (gc_cost c) alpha (per_link f bytes (cg_count s));
       Some (live @ [(sg, bytes, cg_count s, xfer)], volume', max start (send_free s))
     }
   })"

text \<open>A sender frees after its own slice.\<close>

definition free_sender :: "nat \<Rightarrow> live_source \<Rightarrow> ('f, 'k) GpuCluster \<Rightarrow> ('f, 'k) GpuCluster option" where
  "free_sender start x c = (case x of (sg, _, _, xfer) \<Rightarrow> do {
     t \<leftarrow> checked_add_u64 start xfer;
     Some (set_send_free c sg t)
   })"

definition gather_row :: "nat \<Rightarrow> nat \<Rightarrow> nat \<Rightarrow> string \<Rightarrow> string \<Rightarrow> CommGroup \<Rightarrow> live_source \<Rightarrow> ('f, 'k) GpuCluster \<Rightarrow> ('f, 'k) GpuCluster" where
  "gather_row start arrival rg kind tag r x c = (case x of (sg, bytes, links, xfer) \<Rightarrow>
     record_row c ((transfer_row (gc_groups c ! sg) r start arrival (start + xfer) sg rg bytes kind tag)\<lparr>send_count := links\<rparr>))"

definition submit_gather :: "'f gpu_ops \<Rightarrow> ('f, 'k) GpuCluster \<Rightarrow> nat \<Rightarrow> (nat \<times> nat) list \<Rightarrow> nat \<Rightarrow> string \<Rightarrow> string \<Rightarrow>
    (('f, 'k) GpuCluster \<times> nat) option" where
  "submit_gather f c now sources rg kind tag = do {
     r \<leftarrow> nth_opt (gc_groups c) rg;
     if cg_count r = 0 then Some (c, now)
     else do {
       let alpha = latency f (gc_cost c);
       (live, volume, start) \<leftarrow> fold_opt (gather_source f c alpha) sources ([], 0, max now (recv_free r));
       if live = [] then Some (c, now)
       else do {
         let send_xfer_max = fold max (map (\<lambda>(_, _, _, xfer). xfer) live) 0;
         let recv_xfer = gather_slice f (gc_cost c) alpha (per_link f volume (cg_count r));
         first_byte \<leftarrow> checked_add_u64 start alpha;
         arrival \<leftarrow> checked_add_u64 first_byte (max send_xfer_max recv_xfer);
         c1 \<leftarrow> fold_opt (free_sender start) live c;
         let c2 = set_recv_free c1 rg arrival;
         Some (fold (gather_row start arrival rg kind tag r) live c2, arrival)
       }
     }
   }"

subsection \<open>What a submission changes\<close>

lemma set_free_sel [simp]:
  "gc_cost (set_send_free c g t) = gc_cost c" "gc_cost (set_recv_free c g t) = gc_cost c"
  "gc_logger (set_send_free c g t) = gc_logger c" "gc_logger (set_recv_free c g t) = gc_logger c"
  "length (gc_groups (set_send_free c g t)) = length (gc_groups c)" "length (gc_groups (set_recv_free c g t)) = length (gc_groups c)"
  by (simp_all add: set_send_free_def set_recv_free_def)

lemma set_send_nth [simp]:
  assumes "h < length (gc_groups c)"
  shows "gc_groups (set_send_free c g t) ! h = (if h = g then (gc_groups c ! g)\<lparr>send_free := t\<rparr> else gc_groups c ! h)"
    and "gc_groups (set_recv_free c g t) ! h = (if h = g then (gc_groups c ! g)\<lparr>recv_free := t\<rparr> else gc_groups c ! h)"
  using assms by (auto simp: set_send_free_def set_recv_free_def nth_list_update)

lemma record_row_sel [simp]:
  "gc_groups (record_row c row) = gc_groups c" "gc_logger (record_row c row) = map_option (\<lambda>rows. rows @ [row]) (gc_logger c)"
  "gc_cost (record_row c row) = gc_cost c"
  by (simp_all add: record_row_def)

lemma gather_rows:
  "gc_groups (fold (gather_row start arrival rg kind tag r) live c) = gc_groups c"
  "gc_logger (fold (gather_row start arrival rg kind tag r) live c) = map_option (\<lambda>rows. rows @ map (\<lambda>(sg, bytes, links, xfer).
     (transfer_row (gc_groups c ! sg) r start arrival (start + xfer) sg rg bytes kind tag)\<lparr>send_count := links\<rparr>) live) (gc_logger c)"
  by (induction live arbitrary: c) (auto simp: gather_row_def case_prod_unfold option.map_comp comp_def option.map_ident)

definition sends :: "live_source \<Rightarrow> nat" where
  "sends x = fst x"

definition slice :: "live_source \<Rightarrow> nat" where
  "slice x = snd (snd (snd x))"

text \<open>The live sources in order, the byte total and the start, after \<open>now\<close> and after every stream involved.\<close>

definition alive :: "('f, 'k) GpuCluster \<Rightarrow> nat \<times> nat \<Rightarrow> bool" where
  "alive c x \<longleftrightarrow> 0 < snd x \<and> 0 < cg_count (gc_groups c ! fst x)"

definition slice_of :: "'f gpu_ops \<Rightarrow> ('f, 'k) GpuCluster \<Rightarrow> nat \<Rightarrow> nat \<Rightarrow> nat" where
  "slice_of f c g bytes = gather_slice f (gc_cost c) (latency f (gc_cost c)) (per_link f bytes (cg_count (gc_groups c ! g)))"

definition live_of :: "'f gpu_ops \<Rightarrow> ('f, 'k) GpuCluster \<Rightarrow> nat \<times> nat \<Rightarrow> live_source" where
  "live_of f c x = (fst x, snd x, cg_count (gc_groups c ! fst x), slice_of f c (fst x) (snd x))"

lemma gather_sources:
  assumes "fold_opt (gather_source f c (latency f (gc_cost c))) sources (live0, v0, t0) = Some (live, volume, start)"
  shows "live = live0 @ map (live_of f c) (filter (alive c) sources) \<and> volume = v0 + sum_list (map snd (filter (alive c) sources))
    \<and> start = fold max (map (\<lambda>x. send_free (gc_groups c ! fst x)) (filter (alive c) sources)) t0
    \<and> (\<forall>x \<in> set sources. fst x < length (gc_groups c))"
  using assms
proof (induction sources arbitrary: live0 v0 t0)
  case (Cons x sources)
  obtain sg bytes where x: "x = (sg, bytes)" by (cases x)
  obtain st1 where st1: "gather_source f c (latency f (gc_cost c)) x (live0, v0, t0) = Some st1"
    "fold_opt (gather_source f c (latency f (gc_cost c))) sources st1 = Some (live, volume, start)" using Cons.prems by (auto simp: bind_Some_iff)
  then have sg: "sg < length (gc_groups c)" by (auto simp: x gather_source_def nth_opt_def bind_Some_iff split: if_splits)
  show ?case
  proof (cases "alive c x")
    case True
    then have "st1 = (live0 @ [live_of f c x], v0 + bytes, max t0 (send_free (gc_groups c ! sg)))"
      using st1(1) sg by (auto simp: x gather_source_def alive_def live_of_def slice_of_def bind_Some_iff checked_add_u64_def Let_def split: if_splits)
    from Cons.IH [OF st1(2) [unfolded this]] True sg show ?thesis by (simp add: x max.commute)
  next
    case False
    then have "st1 = (live0, v0, t0)"
      using st1(1) sg by (auto simp: x gather_source_def alive_def split: if_splits)
    from Cons.IH [OF st1(2) [unfolded this]] False sg show ?thesis by (simp add: x)
  qed
qed simp

lemma free_senders: "fold_opt (free_sender start) live c = Some c1 \<Longrightarrow>
    c1 = fold (\<lambda>(sg, _, _, xfer) c. set_send_free c sg (start + xfer)) live c"
  by (induction live arbitrary: c) (auto simp: free_sender_def bind_Some_iff checked_add_u64_def split: if_splits)

lemma fold_send_same [simp]:
  "length (gc_groups (fold (\<lambda>(sg, _, _, xfer) c. set_send_free c sg (start + xfer)) live c)) = length (gc_groups c)"
  "gc_logger (fold (\<lambda>(sg, _, _, xfer) c. set_send_free c sg (start + xfer)) live c) = gc_logger c"
  "gc_cost (fold (\<lambda>(sg, _, _, xfer) c. set_send_free c sg (start + xfer)) live c) = gc_cost c"
  by (induction live arbitrary: c) (auto simp: case_prod_unfold)

lemma fold_send_free:
  assumes "distinct (map fst live)" and "h < length (gc_groups c)"
  shows "gc_groups (fold (\<lambda>(sg, _, _, xfer) c. set_send_free c sg (start + xfer)) live c) ! h
    = (case map_of (map (\<lambda>x. (fst x, slice x)) live) h of None \<Rightarrow> gc_groups c ! h | Some xfer \<Rightarrow> (gc_groups c ! h)\<lparr>send_free := start + xfer\<rparr>)"
  using assms
proof (induction live arbitrary: c)
  case (Cons x live)
  obtain sg b l xfer where x: "x = (sg, b, l, xfer)" by (metis prod.exhaust)
  have "map_of (map (\<lambda>x. (fst x, slice x)) live) sg = None" using Cons.prems(1) x by (force simp: map_of_eq_None_iff)
  then show ?case using Cons.IH [of "set_send_free c sg (start + xfer)"] Cons.prems x
    by (auto simp: slice_def split: option.splits)
qed simp

lemma gather_row_cost [simp]: "gc_cost (fold (gather_row start arrival rg kind tag r) live c) = gc_cost c"
  by (induction live arbitrary: c) (auto simp: gather_row_def case_prod_unfold)

subsection \<open>No stream carries two transfers\<close>

text \<open>The rows one submission logs all share the window of the receiver.\<close>

definition batch_ok :: "GpuClusterEntry list \<Rightarrow> bool" where
  "batch_ok b \<longleftrightarrow> (\<forall>x \<in> set b. \<forall>y \<in> set b. ge_recv_gid x = ge_recv_gid y \<and> net_start x = net_start y \<and> net_end x = net_end y)
     \<and> (\<forall>x \<in> set b. net_start x \<le> send_end x \<and> send_end x \<le> net_end x \<and> 0 < send_count x \<and> 0 < recv_count x)"

definition clear_of :: "GpuClusterEntry \<Rightarrow> GpuClusterEntry \<Rightarrow> bool" where
  "clear_of x y \<longleftrightarrow> (ge_send_gid x = ge_send_gid y \<longrightarrow> send_end x \<le> net_start y)
     \<and> (ge_recv_gid x = ge_recv_gid y \<longrightarrow> net_end x \<le> net_start y)"

definition submitted :: "('f, 'k) GpuCluster \<Rightarrow> nat \<Rightarrow> GpuClusterEntry list \<Rightarrow> ('f, 'k) GpuCluster \<Rightarrow> bool" where
  "submitted c now b c' \<longleftrightarrow> gc_logger c' = map_option (\<lambda>rows. rows @ b) (gc_logger c) \<and> gc_cost c' = gc_cost c
     \<and> length (gc_groups c') = length (gc_groups c)
     \<and> (\<forall>h < length (gc_groups c). cg_count (gc_groups c' ! h) = cg_count (gc_groups c ! h)
         \<and> send_free (gc_groups c ! h) \<le> send_free (gc_groups c' ! h) \<and> recv_free (gc_groups c ! h) \<le> recv_free (gc_groups c' ! h))
     \<and> batch_ok b
     \<and> (\<forall>x \<in> set b. ge_send_gid x < length (gc_groups c) \<and> ge_recv_gid x < length (gc_groups c) \<and> now \<le> net_start x
         \<and> send_free (gc_groups c ! ge_send_gid x) \<le> net_start x \<and> recv_free (gc_groups c ! ge_recv_gid x) \<le> net_start x
         \<and> send_end x \<le> send_free (gc_groups c' ! ge_send_gid x) \<and> net_end x \<le> recv_free (gc_groups c' ! ge_recv_gid x))"

lemma submitted_nothing: "submitted c now [] c"
  by (simp add: submitted_def batch_ok_def option.map_ident)

lemma transfer_row_sel [simp]:
  "net_start (transfer_row s r start stop freed_at sg rg bytes kind tag) = start"
  "net_end (transfer_row s r start stop freed_at sg rg bytes kind tag) = stop"
  "send_end (transfer_row s r start stop freed_at sg rg bytes kind tag) = freed_at"
  "ge_send_gid (transfer_row s r start stop freed_at sg rg bytes kind tag) = sg"
  "ge_recv_gid (transfer_row s r start stop freed_at sg rg bytes kind tag) = rg"
  "send_count (transfer_row s r start stop freed_at sg rg bytes kind tag) = cg_count s"
  "recv_count (transfer_row s r start stop freed_at sg rg bytes kind tag) = cg_count r"
  by (simp_all add: transfer_row_def)

lemma checked_add_le: "checked_add_u64 a b = Some c \<Longrightarrow> a \<le> c"
  by (auto simp: checked_add_u64_def split: if_splits)

lemma transfer_submitted:
  assumes "submit_transfer f c now sg rg bytes kind tag = Some (c', t)"
  shows "\<exists>b. submitted c now b c'" and "now \<le> t"
proof -
  from assms obtain s r where g: "sg < length (gc_groups c)" "rg < length (gc_groups c)" "s = gc_groups c ! sg" "r = gc_groups c ! rg"
    by (auto simp: submit_transfer_def nth_opt_def bind_Some_iff split: if_splits)
  show "\<exists>b. submitted c now b c'" "now \<le> t"
  proof (atomize(full), cases "cg_count s = 0 \<or> cg_count r = 0")
    case True
    then have "c' = c \<and> t = now" using assms g by (auto simp: submit_transfer_def)
    then show "(\<exists>b. submitted c now b c') \<and> now \<le> t" using submitted_nothing by auto
  next
    case False
    let ?start = "max (max now (send_free s)) (recv_free r)"
    obtain dur where c': "c' = record_row (set_recv_free (set_send_free c sg t) rg t)
        (transfer_row s r ?start t t sg rg bytes kind tag)" "checked_add_u64 ?start dur = Some t"
      using assms False g by (auto simp: submit_transfer_def Let_def bind_Some_iff)
    note late = checked_add_le [OF c'(2)]
    have "submitted c now [transfer_row s r ?start t t sg rg bytes kind tag] c'"
      unfolding submitted_def c'(1) using g False late by (auto simp: batch_ok_def)
    moreover have "now \<le> t" using late by simp
    ultimately show "(\<exists>b. submitted c now b c') \<and> now \<le> t" by blast
  qed
qed

lemma fold_max_ge: "x \<in> set xs \<or> x \<le> m \<Longrightarrow> x \<le> fold max xs (m :: nat)"
  by (induction xs arbitrary: m) (auto simp: max_def split: if_splits intro: order_trans)

lemma gather_submitted:
  assumes "submit_gather f c now sources rg kind tag = Some (c', t)" and "distinct (map fst sources)"
  shows "\<exists>b. submitted c now b c'" and "now \<le> t"
proof -
  from assms(1) obtain r where r: "rg < length (gc_groups c)" "r = gc_groups c ! rg"
    by (auto simp: submit_gather_def nth_opt_def bind_Some_iff split: if_splits)
  show "\<exists>b. submitted c now b c'" "now \<le> t"
  proof (atomize(full), cases "cg_count r = 0")
    case True
    then have "c' = c \<and> t = now" using assms(1) r by (auto simp: submit_gather_def)
    then show "(\<exists>b. submitted c now b c') \<and> now \<le> t" using submitted_nothing by auto
  next
    case False
    let ?alpha = "latency f (gc_cost c)" and ?alive = "filter (alive c) sources"
    from assms(1) False r obtain live volume start where
      l: "fold_opt (gather_source f c ?alpha) sources ([], 0, max now (recv_free r)) = Some (live, volume, start)"
      by (auto simp: submit_gather_def bind_Some_iff Let_def)
    note g = gather_sources [OF l]
    have fsts: "map fst live = map fst ?alive" using g by (simp add: live_of_def comp_def)
    have "distinct (map fst ?alive)" using assms(2) by (rule distinct_map_filter)
    then have d: "distinct (map fst live)" by (simp only: fsts)
    have free: "send_free (gc_groups c ! fst x) \<le> start" if "x \<in> set ?alive" for x
      using g that by (auto intro!: fold_max_ge)
    have "max now (recv_free r) \<le> start" using g by (auto intro!: fold_max_ge)
    moreover have "\<forall>(sg, bytes, links, xfer) \<in> set live. sg < length (gc_groups c) \<and> 0 < links \<and> links = cg_count (gc_groups c ! sg) \<and> send_free (gc_groups c ! sg) \<le> start"
      using g free by (auto simp: live_of_def alive_def)
    ultimately have ok: "distinct (map fst live)" "max now (recv_free r) \<le> start"
      "\<forall>(sg, bytes, links, xfer) \<in> set live. sg < length (gc_groups c) \<and> 0 < links \<and> links = cg_count (gc_groups c ! sg) \<and> send_free (gc_groups c ! sg) \<le> start"
      using d by blast+
    show "(\<exists>b. submitted c now b c') \<and> now \<le> t"
    proof (cases "live = []")
      case True
      then have "c' = c \<and> t = now" using assms(1) False r l by (auto simp: submit_gather_def)
      then show ?thesis using submitted_nothing by auto
    next
      case nonempty: False
      define most where "most = fold max (map (\<lambda>(_, _, _, xfer). xfer) live) 0"
      let ?c1 = "fold (\<lambda>(sg, _, _, xfer) c. set_send_free c sg (start + xfer)) live c"
      obtain arrival where c': "c' = fold (gather_row start arrival rg kind tag r) live (set_recv_free ?c1 rg arrival)" "t = arrival"
        and arrival: "arrival = start + ?alpha + max most (gather_slice f (gc_cost c) ?alpha (per_link f volume (cg_count r)))"
        using assms(1) False r l nonempty
        by (auto simp: submit_gather_def Let_def most_def bind_Some_iff checked_add_u64_def dest!: free_senders split: if_splits)
      let ?row = "\<lambda>(sg, bytes, links, xfer). (transfer_row (gc_groups (set_recv_free ?c1 rg arrival) ! sg) r start arrival (start + xfer) sg rg bytes kind tag)
        \<lparr>send_count := links\<rparr>"
      note sent = fold_send_free [OF ok(1), where c = c and start = start]
      have late: "xfer \<le> most" if "(sg, bytes, links, xfer) \<in> set live" for sg bytes links xfer
        unfolding most_def using that by (intro fold_max_ge) force
      have soon: "recv_free r \<le> arrival" "start \<le> arrival" "now \<le> arrival" using ok(2) by (simp_all add: arrival)
      have slow: "start + xfer \<le> arrival" if "xfer \<le> most" for xfer using that by (simp add: arrival max_def)
      have freed: "send_free (gc_groups ?c1 ! h) = (case map_of (map (\<lambda>x. (fst x, slice x)) live) h of None \<Rightarrow> send_free (gc_groups c ! h)
          | Some xfer \<Rightarrow> start + xfer)" "recv_free (gc_groups ?c1 ! h) = recv_free (gc_groups c ! h)"
        "cg_count (gc_groups ?c1 ! h) = cg_count (gc_groups c ! h)" if "h < length (gc_groups c)" for h
        using sent [OF that] by (simp_all split: option.splits)
      have at: "map_of (map (\<lambda>x. (fst x, slice x)) live) sg = Some xfer" if "(sg, bytes, links, xfer) \<in> set live" for sg bytes links xfer
        using that ok(1) by (force intro: map_of_is_SomeI simp: slice_def comp_def)
      have grow: "send_free (gc_groups c ! h) \<le> send_free (gc_groups ?c1 ! h)" if "h < length (gc_groups c)" for h
      proof (cases "map_of (map (\<lambda>x. (fst x, slice x)) live) h")
        case (Some xfer)
        then have "h \<in> fst ` set live" using map_of_SomeD by fastforce
        then have "send_free (gc_groups c ! h) \<le> start" using ok(3) by auto
        then show ?thesis using freed(1) [OF that] Some by simp
      qed (use freed(1) [OF that] in simp)
      have rows: "gc_logger c' = map_option (\<lambda>rows. rows @ map ?row live) (gc_logger c)"
        unfolding c'(1) gather_rows(2) by simp
      have groups: "gc_groups c' = gc_groups (set_recv_free ?c1 rg arrival)" unfolding c'(1) by (rule gather_rows(1))
      have "batch_ok (map ?row live)"
        using ok(1,3) False late slow by (fastforce simp: batch_ok_def comp_def case_prod_unfold)
      moreover have "gc_cost c' = gc_cost c" by (simp add: c'(1))
      moreover have "\<forall>h < length (gc_groups c). cg_count (gc_groups c' ! h) = cg_count (gc_groups c ! h)
         \<and> send_free (gc_groups c ! h) \<le> send_free (gc_groups c' ! h) \<and> recv_free (gc_groups c ! h) \<le> recv_free (gc_groups c' ! h)"
        using freed grow soon(1) r by (auto simp: groups)
      moreover have "\<forall>x \<in> set (map ?row live). ge_send_gid x < length (gc_groups c) \<and> ge_recv_gid x < length (gc_groups c) \<and> now \<le> net_start x
         \<and> send_free (gc_groups c ! ge_send_gid x) \<le> net_start x \<and> recv_free (gc_groups c ! ge_recv_gid x) \<le> net_start x
         \<and> send_end x \<le> send_free (gc_groups c' ! ge_send_gid x) \<and> net_end x \<le> recv_free (gc_groups c' ! ge_recv_gid x)"
      proof
        fix x assume "x \<in> set (map ?row live)"
        then obtain sg bytes links xfer where x: "(sg, bytes, links, xfer) \<in> set live" "x = ?row (sg, bytes, links, xfer)" by auto
        have "sg < length (gc_groups c)" "send_free (gc_groups c ! sg) \<le> start" using ok(3) x(1) by auto
        then show "ge_send_gid x < length (gc_groups c) \<and> ge_recv_gid x < length (gc_groups c) \<and> now \<le> net_start x
         \<and> send_free (gc_groups c ! ge_send_gid x) \<le> net_start x \<and> recv_free (gc_groups c ! ge_recv_gid x) \<le> net_start x
         \<and> send_end x \<le> send_free (gc_groups c' ! ge_send_gid x) \<and> net_end x \<le> recv_free (gc_groups c' ! ge_recv_gid x)"
          using freed at [OF x(1)] ok(2) r by (cases "sg = rg") (simp_all add: x(2) groups)
      qed
      moreover have "length (gc_groups c') = length (gc_groups c)" by (simp add: groups)
      ultimately have "submitted c now (map ?row live) c'" using rows unfolding submitted_def by blast
      then show ?thesis using soon(3) c'(2) by blast
    qed
  qed
qed


subsection \<open>A run of the cluster\<close>

text \<open>Groups are registered, transfers and gathers submitted, in any order and at any times; the rows each submission
  logs are one element of the history. No gather names a sender twice: \<open>submit_gather\<close> does not check it, and would free such
  a sender after the slice it lists last.\<close>

inductive cluster_run :: "'f gpu_ops \<Rightarrow> 'f CostSource \<Rightarrow> ('f, 'k) GpuCluster \<Rightarrow> GpuClusterEntry list list \<Rightarrow> bool" for f cost where
  created: "cluster_run f cost ((new_cluster cost)\<lparr>gc_logger := Some []\<rparr>) []"
| gpus_allocated: "cluster_run f cost c bs \<Longrightarrow> allocate c pool worker n name tag = Some (c', base) \<Longrightarrow> cluster_run f cost c' bs"
| kv_registered: "cluster_run f cost c bs \<Longrightarrow> cluster_run f cost (register_kv_pool c tag pool worker gid facts) bs"
| registered: "cluster_run f cost c bs \<Longrightarrow> cluster_run f cost (fst (register_comm_group c base links tag worker)) bs"
| transferred: "cluster_run f cost c bs \<Longrightarrow> submit_transfer f c now sg rg bytes kind tag = Some (c', t) \<Longrightarrow>
    gc_logger c' = Some (concat bs @ b) \<Longrightarrow> cluster_run f cost c' (bs @ [b])"
| gathered: "cluster_run f cost c bs \<Longrightarrow> distinct (map fst sources) \<Longrightarrow> submit_gather f c now sources rg kind tag = Some (c', t) \<Longrightarrow>
    gc_logger c' = Some (concat bs @ b) \<Longrightarrow> cluster_run f cost c' (bs @ [b])"

definition history_ok :: "('f, 'k) GpuCluster \<Rightarrow> GpuClusterEntry list list \<Rightarrow> bool" where
  "history_ok c bs \<longleftrightarrow> gc_logger c = Some (concat bs) \<and> (\<forall>b \<in> set bs. batch_ok b)
     \<and> sorted_wrt (\<lambda>b b'. \<forall>x \<in> set b. \<forall>y \<in> set b'. clear_of x y) bs
     \<and> (\<forall>x \<in> set (concat bs). ge_send_gid x < length (gc_groups c) \<and> ge_recv_gid x < length (gc_groups c)
         \<and> send_end x \<le> send_free (gc_groups c ! ge_send_gid x) \<and> net_end x \<le> recv_free (gc_groups c ! ge_recv_gid x))"

lemma history_submitted:
  assumes "history_ok c bs" and "submitted c now b c'"
  shows "history_ok c' (bs @ [b])"
proof -
  note h = assms(1) [unfolded history_ok_def] and s = assms(2) [unfolded submitted_def]
  have old: "ge_send_gid x < length (gc_groups c) \<and> ge_recv_gid x < length (gc_groups c)
      \<and> send_end x \<le> send_free (gc_groups c ! ge_send_gid x) \<and> net_end x \<le> recv_free (gc_groups c ! ge_recv_gid x)"
    if "x \<in> set (concat bs)" for x using h that by blast
  have grow: "send_free (gc_groups c ! g) \<le> send_free (gc_groups c' ! g) \<and> recv_free (gc_groups c ! g) \<le> recv_free (gc_groups c' ! g)"
    if "g < length (gc_groups c)" for g using s that by simp
  have "clear_of x y" if "x \<in> set (concat bs)" "y \<in> set b" for x y
  proof -
    have "send_free (gc_groups c ! ge_send_gid y) \<le> net_start y" "recv_free (gc_groups c ! ge_recv_gid y) \<le> net_start y"
      using s that(2) by blast+
    then show ?thesis using old [OF that(1)] by (auto simp: clear_of_def intro: order_trans)
  qed
  then have "sorted_wrt (\<lambda>b b'. \<forall>x \<in> set b. \<forall>y \<in> set b'. clear_of x y) (bs @ [b])"
    using h by (auto simp: sorted_wrt_append)
  moreover have "ge_send_gid x < length (gc_groups c') \<and> ge_recv_gid x < length (gc_groups c')
      \<and> send_end x \<le> send_free (gc_groups c' ! ge_send_gid x) \<and> net_end x \<le> recv_free (gc_groups c' ! ge_recv_gid x)"
    if "x \<in> set (concat (bs @ [b]))" for x
  proof (cases "x \<in> set b")
    case True
    then show ?thesis using s by simp
  next
    case False
    then have "x \<in> set (concat bs)" using that by simp
    from old [OF this] grow s show ?thesis by (metis order_trans)
  qed
  ultimately show ?thesis using h s by (auto simp: history_ok_def)
qed

lemma submitted_batch:
  assumes "history_ok c bs" and "submitted c now b c'" and "gc_logger c' = Some (concat bs @ b')"
  shows "b' = b"
  using assms by (simp add: history_ok_def submitted_def)

lemma cluster_run_ok: "cluster_run f cost c bs \<Longrightarrow> history_ok c bs"
proof (induction rule: cluster_run.induct)
  case created
  show ?case by (simp add: history_ok_def new_cluster_def)
next
  case (gpus_allocated c bs pool worker n name tag c' base)
  then have "gc_groups c' = gc_groups c \<and> gc_logger c' = gc_logger c" by (auto simp: allocate_def bind_Some_iff Let_def)
  then show ?case using gpus_allocated.IH by (simp add: history_ok_def)
next
  case (kv_registered c bs tag pool worker gid facts)
  then show ?case by (simp add: history_ok_def register_kv_pool_def)
next
  case (registered c bs base links tag worker)
  then show ?case by (auto simp: history_ok_def register_comm_group_def nth_append intro: less_SucI)
next
  case (transferred c bs now sg rg bytes kind tag c' t b)
  from transfer_submitted(1) [OF transferred.hyps(2)] obtain b' where b': "submitted c now b' c'" by blast
  from submitted_batch [OF transferred.IH b' transferred.hyps(3)] history_submitted [OF transferred.IH b'] show ?case by simp
next
  case (gathered c bs sources now rg kind tag c' t b)
  from gather_submitted(1) [OF gathered.hyps(3,2)] obtain b' where b': "submitted c now b' c'" by blast
  from submitted_batch [OF gathered.IH b' gathered.hyps(4)] history_submitted [OF gathered.IH b'] show ?case by simp
qed

text \<open>C35: No communication stream carries two submissions at a time. Whatever transfers and gathers are submitted, at whatever
  times and under whatever float arithmetic, as long as no gather names a sender twice (which \<open>submit_gather\<close> does not check): of two submissions, the
  later one uses a sender only after the earlier one has released it, and a receiver only after the earlier one has landed;
  the rows of one submission share one receiver and one window, each sender is released inside the window, and no logged
  group is without links.\<close>

theorem streams_exclusive:
  assumes "cluster_run f cost c bs"
  shows "gc_logger c = Some (concat bs)
    \<and> (\<forall>i j. i < j \<longrightarrow> j < length bs \<longrightarrow> (\<forall>x \<in> set (bs ! i). \<forall>y \<in> set (bs ! j).
        (ge_send_gid x = ge_send_gid y \<longrightarrow> send_end x \<le> net_start y)
        \<and> (ge_recv_gid x = ge_recv_gid y \<longrightarrow> net_end x \<le> net_start y)))
    \<and> (\<forall>b \<in> set bs. (\<forall>x \<in> set b. \<forall>y \<in> set b. ge_recv_gid x = ge_recv_gid y \<and> net_start x = net_start y \<and> net_end x = net_end y)
        \<and> (\<forall>x \<in> set b. net_start x \<le> send_end x \<and> send_end x \<le> net_end x \<and> 0 < send_count x \<and> 0 < recv_count x))"
proof -
  note h = cluster_run_ok [OF assms, unfolded history_ok_def]
  have "clear_of x y" if "i < j" "j < length bs" "x \<in> set (bs ! i)" "y \<in> set (bs ! j)" for i j x y
    using h that by (auto simp: sorted_wrt_iff_nth_less)
  then show ?thesis using h unfolding clear_of_def batch_ok_def by blast
qed

subsection \<open>One gather\<close>

text \<open>C37: A gather pays the latency once and runs its senders in parallel. Of the sources with bytes and links, each sender used
  at most once: it starts at the latest of now, their free times and the receiver's; it arrives after the
  latency and the slowest sender's slice or the receiver's drain of all their bytes, whichever is longer; every sender is freed after its own
  slice and the receiver at the arrival, and no other stream is touched. With no such source it changes nothing and
  returns at once.\<close>

theorem gather_window:
  assumes "submit_gather f c now sources rg kind tag = Some (c', t)" and "0 < cg_count (gc_groups c ! rg)"
    and "distinct (map fst sources)"
  defines "live \<equiv> filter (\<lambda>x. 0 < snd x \<and> 0 < cg_count (gc_groups c ! fst x)) sources"
    and "alpha \<equiv> latency f (gc_cost c)"
    and "pushing \<equiv> \<lambda>g bytes. gather_slice f (gc_cost c) (latency f (gc_cost c)) (per_link f bytes (cg_count (gc_groups c ! g)))"
  shows "if live = [] then c' = c \<and> t = now
    else \<exists>start. start = Max ({now, recv_free (gc_groups c ! rg)} \<union> {send_free (gc_groups c ! g) | g bytes. (g, bytes) \<in> set live})
      \<and> t = start + alpha + max (Max {pushing g bytes | g bytes. (g, bytes) \<in> set live}) (pushing rg (sum_list (map snd live)))
      \<and> (\<forall>(g, bytes) \<in> set live. send_free (gc_groups c' ! g) = start + pushing g bytes)
      \<and> recv_free (gc_groups c' ! rg) = t
      \<and> (\<forall>h < length (gc_groups c). (h \<notin> fst ` set live \<longrightarrow> send_free (gc_groups c' ! h) = send_free (gc_groups c ! h))
          \<and> (h \<noteq> rg \<longrightarrow> recv_free (gc_groups c' ! h) = recv_free (gc_groups c ! h)))"
proof -
  let ?alpha = "latency f (gc_cost c)"
  have live: "live = filter (alive c) sources" by (simp add: live_def alive_def [abs_def])
  have push: "pushing = slice_of f c" by (simp add: pushing_def slice_of_def fun_eq_iff)
  from assms(1) have rg: "rg < length (gc_groups c)" by (auto simp: submit_gather_def nth_opt_def bind_Some_iff split: if_splits)
  obtain found volume start where
    l: "fold_opt (gather_source f c ?alpha) sources ([], 0, max now (recv_free (gc_groups c ! rg))) = Some (found, volume, start)"
    using assms(1,2) rg by (auto simp: submit_gather_def bind_Some_iff Let_def)
  note g = gather_sources [OF l, folded live]
  show ?thesis
  proof (cases "live = []")
    case True
    then have "found = []" using g by simp
    then have "c' = c \<and> t = now" using assms(1,2) rg l by (auto simp: submit_gather_def)
    then show ?thesis using True by simp
  next
    case False
    then have "found \<noteq> []" using g by simp
    let ?c1 = "fold (\<lambda>(sg, _, _, xfer) c. set_send_free c sg (start + xfer)) found c"
    obtain arrival where c': "c' = fold (gather_row start arrival rg kind tag (gc_groups c ! rg)) found (set_recv_free ?c1 rg arrival)" "t = arrival"
      and arrival: "arrival = start + ?alpha + max (fold max (map (\<lambda>(_, _, _, xfer). xfer) found) 0)
        (gather_slice f (gc_cost c) ?alpha (per_link f volume (cg_count (gc_groups c ! rg))))"
      using assms(1,2) rg l \<open>found \<noteq> []\<close>
      by (auto simp: submit_gather_def Let_def bind_Some_iff checked_add_u64_def dest!: free_senders split: if_splits)
    have d: "distinct (map fst found)" using g distinct_map_filter [OF assms(3), of "alive c"] by (simp add: live live_of_def comp_def)
    note sent = fold_send_free [OF d, where c = c and start = start]
    have slices: "map_of (map (\<lambda>x. (fst x, slice x)) found) h = map_of (map (\<lambda>x. (fst x, slice_of f c (fst x) (snd x))) live) h" for h
      using g by (simp add: comp_def live_of_def slice_def)
    have groups: "gc_groups c' = gc_groups (set_recv_free ?c1 rg arrival)" unfolding c'(1) by (rule gather_rows(1))
    have "fold max (map (\<lambda>(_, _, _, xfer). xfer) found) 0 = fold max (map (\<lambda>x. slice_of f c (fst x) (snd x)) live) 0"
      using g by (simp add: comp_def live_of_def case_prod_unfold)
    also have "\<dots> = Max (insert 0 ((\<lambda>x. slice_of f c (fst x) (snd x)) ` set live))" by (simp add: fold_max_Max)
    also have "\<dots> = Max ((\<lambda>x. slice_of f c (fst x) (snd x)) ` set live)" using False by (simp add: max_def)
    also have "(\<lambda>x. slice_of f c (fst x) (snd x)) ` set live = {pushing g bytes | g bytes. (g, bytes) \<in> set live}"
      by (force simp: push image_iff)
    finally have most: "fold max (map (\<lambda>(_, _, _, xfer). xfer) found) 0 = Max {pushing g bytes | g bytes. (g, bytes) \<in> set live}" .
    have "start = Max (insert (max now (recv_free (gc_groups c ! rg))) ((\<lambda>x. send_free (gc_groups c ! fst x)) ` set live))"
      using g by (simp add: fold_max_Max)
    also have "\<dots> = Max ({now, recv_free (gc_groups c ! rg)} \<union> (\<lambda>x. send_free (gc_groups c ! fst x)) ` set live)"
      using False by (simp add: max.assoc)
    also have "(\<lambda>x. send_free (gc_groups c ! fst x)) ` set live = {send_free (gc_groups c ! g) | g bytes. (g, bytes) \<in> set live}"
      by (force simp: image_iff)
    finally have start: "start = Max ({now, recv_free (gc_groups c ! rg)} \<union> {send_free (gc_groups c ! g) | g bytes. (g, bytes) \<in> set live})" .
    have inside: "h < length (gc_groups c)" if "h \<in> fst ` set live" for h using g that by (auto simp: live)
    have here: "(g, bytes, cg_count (gc_groups c ! g), pushing g bytes) \<in> set found" if "(g, bytes) \<in> set live" for g bytes
      using that g by (force simp: live_of_def push image_iff)
    have at: "map_of (map (\<lambda>x. (fst x, slice x)) found) g = Some (pushing g bytes)" if "(g, bytes) \<in> set live" for g bytes
      using here [OF that] d by (force intro: map_of_is_SomeI simp: slice_def comp_def)
    have "send_free (gc_groups c' ! g) = start + pushing g bytes" if "(g, bytes) \<in> set live" for g bytes
      using sent [OF inside, of g] at [OF that] inside [of g] that rg by (force simp: groups)
    moreover have "send_free (gc_groups c' ! h) = send_free (gc_groups c ! h)" if "h < length (gc_groups c)" "h \<notin> fst ` set live" for h
    proof -
      have "h \<notin> fst ` set found" using g that(2) by (force simp: live_of_def)
      then have "map_of (map (\<lambda>x. (fst x, slice x)) found) h = None" by (force simp: map_of_eq_None_iff)
      then show ?thesis using sent [OF that(1)] that(1) rg by (cases "h = rg") (simp_all add: groups)
    qed
    moreover have "recv_free (gc_groups c' ! h) = (if h = rg then t else recv_free (gc_groups c ! h))" if "h < length (gc_groups c)" for h
      using sent [OF that] that rg by (auto simp: groups c'(2) split: option.splits)
    moreover have "t = start + alpha + max (Max {pushing g bytes | g bytes. (g, bytes) \<in> set live}) (pushing rg (sum_list (map snd live)))"
      using arrival g unfolding c'(2) most by (simp add: alpha_def push slice_of_def)
    ultimately show ?thesis using False start rg by (auto simp: if_splits)
  qed
qed

subsection \<open>Concrete clusters\<close>

text \<open>Times over the real numbers, and a sender with two links and a receiver with one, at a thousand bytes per millisecond.\<close>

definition sample_gpu_ops :: "real gpu_ops" where
  "sample_gpu_ops = \<lparr>f_of_nat = real, f_add = (+), f_sub = (-), f_mul = (*), f_div = (/), f_max = max, f_min = min,
     f_lt = (<), f_as_u64 = (\<lambda>x. min (nat \<lfloor>x\<rfloor>) u64_max), f_is_finite = (\<lambda>_. True),
     f_round = (\<lambda>x. of_int (round x)), f_min_positive = 1 / 2 ^ 1022\<rparr>"

definition sample_cluster :: "(real, unit) GpuCluster" where
  "sample_cluster = fst (register_comm_group (fst (register_comm_group ((new_cluster (Analytic 1000))\<lparr>gc_logger := Some []\<rparr>)
     0 2 ''prefill'' 0)) 2 1 ''decode'' 0)"

lemma sample_cluster_eq: "sample_cluster = \<lparr>gpus = [], gc_groups =
   [\<lparr>cg_base = 0, cg_count = 2, send_free = 0, recv_free = 0, owner_pool_tag = ''prefill'', owner_worker_id = 0\<rparr>,
    \<lparr>cg_base = 2, cg_count = 1, send_free = 0, recv_free = 0, owner_pool_tag = ''decode'', owner_worker_id = 0\<rparr>],
   gc_cost = Analytic 1000, gc_logger = Some [], kv_caps = []\<rparr>"
  by (simp add: sample_cluster_def register_comm_group_def new_cluster_def)

lemma sample_times:
  "per_link sample_gpu_ops 4000 (Suc 0) = 4000" "per_link sample_gpu_ops 4000 2 = 2000"
  "link_time sample_gpu_ops (Analytic 1000) 4000 = 4000000" "link_time sample_gpu_ops (Analytic 1000) 2000 = 2000000"
  by (simp_all add: per_link_def link_time_def from_ms_def u64_max_def sample_gpu_ops_def)

theorem streams_exclusive_witness:
  "\<exists>c1 c2 b b'. cluster_run sample_gpu_ops (Analytic 1000) (c2 :: (real, unit) GpuCluster) [b, b'] \<and> gc_logger c2 = Some (concat [b, b'])
    \<and> submit_transfer sample_gpu_ops sample_cluster 5 0 1 4000 ''pd_kv_pull'' [] = Some (c1, 4000005)
    \<and> submit_transfer sample_gpu_ops c1 7 0 1 4000 ''pd_kv_pull'' [] = Some (c2, 8000005) \<and> b \<noteq> [] \<and> b' \<noteq> []"
proof -
  have c0: "cluster_run sample_gpu_ops (Analytic 1000) sample_cluster []"
    unfolding sample_cluster_def by (rule cluster_run.registered [OF cluster_run.registered [OF cluster_run.created]])
  obtain c1 b where c1: "submit_transfer sample_gpu_ops sample_cluster 5 0 1 4000 ''pd_kv_pull'' [] = Some (c1, 4000005)"
    "gc_logger c1 = Some [b]" "gc_cost c1 = Analytic 1000" "gc_groups c1 = map (\<lambda>g. g\<lparr>send_free := if cg_count g = 2 then 4000005 else 0,
      recv_free := if cg_count g = 1 then 4000005 else 0\<rparr>) (gc_groups sample_cluster)"
    using sample_times by (simp add: submit_transfer_def sample_cluster_eq Let_def set_send_free_def set_recv_free_def record_row_def
      checked_add_u64_def u64_max_def)
  obtain c2 b' where c2: "submit_transfer sample_gpu_ops c1 7 0 1 4000 ''pd_kv_pull'' [] = Some (c2, 8000005)" "gc_logger c2 = Some [b, b']"
    using sample_times by (simp add: submit_transfer_def c1(2-4) sample_cluster_eq Let_def checked_add_u64_def u64_max_def)
  have "cluster_run sample_gpu_ops (Analytic 1000) c1 ([] @ [[b]])" by (rule cluster_run.transferred [OF c0 c1(1)]) (simp add: c1(2))
  then have "cluster_run sample_gpu_ops (Analytic 1000) c2 (([] @ [[b]]) @ [[b']])" by (rule cluster_run.transferred [OF _ c2(1)]) (simp add: c2(2))
  then have run: "cluster_run sample_gpu_ops (Analytic 1000) c2 [[b], [b']]" by simp
  have log: "gc_logger c2 = Some (concat [[b], [b']])" by (rule conjunct1 [OF streams_exclusive [OF run]])
  show ?thesis
    by (rule exI [of _ c1], rule exI [of _ c2], rule exI [of _ "[b]"], rule exI [of _ "[b']"], intro conjI run log c1(1) c2(1)) simp_all
qed

theorem gather_window_witness:
  "\<exists>c2. submit_gather sample_gpu_ops sample_cluster 5 [(0, 4000)] 1 ''pd_kv_pull'' [] = Some (c2, 4000005)
    \<and> send_free (gc_groups c2 ! 0) = 2000005 \<and> recv_free (gc_groups c2 ! 1) = 4000005"
proof -
  have slices: "gather_slice sample_gpu_ops (Analytic 1000) 0 4000 = 4000000" "gather_slice sample_gpu_ops (Analytic 1000) 0 2000 = 2000000"
    using sample_times by (simp_all add: gather_slice_def ms_of_time_def from_ms_def sample_gpu_ops_def u64_max_def)
  obtain c2 where c2: "submit_gather sample_gpu_ops sample_cluster 5 [(0, 4000)] 1 ''pd_kv_pull'' [] = Some (c2, 4000005)"
    using sample_times slices
    by (simp add: submit_gather_def sample_cluster_eq gather_source_def latency_def free_sender_def checked_add_u64_def u64_max_def Let_def)
  show ?thesis
    using gather_window [OF c2] c2 sample_times slices by (simp add: sample_cluster_eq latency_def)
qed

end
