(* ===== verification/Spec2Isabelle.thy ===== *)
theory Spec2Isabelle
  imports Speculative_Rounds Run_Properties Gpu_Cluster
begin

text \<open>
  \<^bold>\<open>ServingStudioSim: trace replay, the run loop, worker pools, the KV-cache store, admission and the whole-iteration worker.\<close>

  The simulator (\<open>src/simulator/src\<close>) replays request traces against a model of an LLM serving
  deployment. A worker holds requests that wait, requests whose prompt is being prefilled and requests
  that decode one token per iteration; its KV cache is the resource that decides who may run. This
  library models that core: what a KV-cache layout costs, the store that accounts for every resident
  unit, the prefix cache in its slack, the order and the gates of admission, and the worker that forms
  batches, submits them to the model and completes them.

  \<^bold>\<open>Theories.\<close>
  \<^item> \<open>Sim_Prelude\<close>: machine arithmetic, panics as \<open>None\<close>, indexed lists, hash maps as association lists.
  \<^item> \<open>Kv_Layout\<close> (\<open>arch/kv_layout.rs\<close>): the parts of a KV layout, their builders and validation.
  \<^item> \<open>Resume_Points\<close>, \<open>Kv_Accounting\<close> (\<open>worker/kv/shared/kv_accounting.rs\<close>): resolution of a layout into
    units; the charge of a running request, of an admission, of a retained entry; the positions a cached
    prefix can be resumed at.
  \<^item> \<open>Prefix_Cache\<close> (\<open>prefix_cache.rs\<close>): lookup, take, insert and eviction under four policies.
  \<^item> \<open>Prefill_Context\<close> (\<open>worker/kv/mod.rs\<close>): how a prompt splits into resident and computed tokens and
    chunks.
  \<^item> \<open>Resident_Partition\<close> (\<open>resident_partition.rs\<close>): the decodes of one attention partition and their
    projected peak.
  \<^item> \<open>Request_Ledger\<close> (\<open>request_ledger.rs\<close>): promises, chunked reservations, held KV, placements.
  \<^item> \<open>Kv_Store\<close>, \<open>Store_Lifecycle\<close>, \<open>Store_Guarantees\<close> (\<open>kv_cache_store.rs\<close>, the journal and the sampler):
    the store's operations, the lemma of each one, and what holds over all runs.
  \<^item> \<open>Requests\<close> (\<open>common/request.rs\<close>, \<open>worker/shared/context.rs\<close>): request records and the shared store.
  \<^item> \<open>Pending_Order\<close> (\<open>worker/admission/policy\<close>): the four queue disciplines, against the locale
    \<open>pending_policy\<close>, interpreted on their runtime selector as \<open>po\<close>.
  \<^item> \<open>Admission_Gates\<close> (\<open>token_budget.rs\<close>, \<open>placement.rs\<close>, the chunk sizes of
    \<open>chunked_prefill_admission.rs\<close>): token budget, placement of a prefill, chunk alignment.
  \<^item> \<open>Local_Admission\<close>, \<open>Local_Lifecycle\<close>, \<open>Local_Completion\<close>
    (\<open>local_prefill_decode_admission.rs\<close>): accepting, forming a batch, completing an iteration.
  \<^item> \<open>Iter_Worker\<close>, \<open>Worker_Run\<close> (\<open>workers/iter/iter_batch_worker.rs\<close>, \<open>worker/types.rs\<close>,
    \<open>execution/unified_iter_execution.rs\<close>): the worker's state machine over these parts.
  \<^item> \<open>Decode_Completion\<close>, \<open>Acceptance_Draws\<close>, \<open>Speculative_Rounds\<close> (\<open>decode_completion.rs\<close>, the verify row
    of \<open>arch/contract.rs\<close>): how many tokens a decode retires per iteration, with and without speculation.
  \<^item> \<open>Dp_Pool\<close>, \<open>Dp_Flow\<close> (\<open>orchestrator/impls/simple_dp.rs\<close>): the pool controller over any worker (the trait
    \<open>IterWorker\<close> as a record of operations, its contract the locale \<open>pool_worker\<close>, interpreted on the
    whole-iteration worker as \<open>iter_pool\<close>) and the flow that feeds it.
  \<^item> \<open>Index_Kept\<close>: what workers, pool and flow leave of the shared store's indexes and definitions, through the
    locale \<open>keeping_worker\<close>, interpreted as \<open>iter_keeps\<close>.
  \<^item> \<open>Run_Loop\<close>, \<open>Run_Guarantees\<close>, \<open>Run_Properties\<close> (\<open>sim/run.rs\<close>): the loop that drives a run over any flow,
    its samples, watchdog, log rows and summary; what its passes keep; what a whole run reports.
  \<^item> \<open>Gpu_Cluster\<close> (\<open>worker/gpu_cluster.rs\<close>): the registry of GPUs and communication groups, and the times of the
    transfers and gathers between them.
  \<^item> \<open>Trace_Release\<close>, \<open>Trace_Replay\<close> (\<open>sim/frontend\<close>): when a row of the trace becomes a request, under an
    arrival mode, a capacity limit and the chaining of session rounds.
  \<^item> \<open>Trace_Load\<close> (\<open>sim/frontend/schema.rs\<close>, \<open>load_typed\<close>): the rows of the text-generation files become
    requests with dense ids, and the ids go back to their source names; with the row checks of \<open>pinned_prefix.rs\<close>.

  \<^bold>\<open>Correspondence.\<close> A Rust struct is a record, an enum a datatype, an operation on \<open>&mut self\<close> a function
  that returns the new state. State shared through \<open>Rc<RefCell<..>>\<close> (the request store) is passed and
  returned. A panic (\<open>expect\<close>, \<open>assert!\<close>, \<open>debug_assert!\<close>, an index out of range, an unsigned subtraction
  below zero) and a loop that does not end are both \<open>None\<close>; that an operation returns is always a theorem
  of its own. Unsigned integers are natural numbers; the checked, saturating and casting operations the
  code uses are written out. The counters and clocks that grow with a run (sequence numbers, iterations, the token
  sums of a batch's input, the end of an iteration, the clock, transfer times) and the counts over resume positions
  are checked: an overflow or a subtraction below zero is \<open>None\<close>. Other sums, of units and tokens, are exact. A \<open>HashMap\<close> is an association list, a \<open>BinaryHeap\<close> or
  \<open>BTreeSet\<close> a list kept in the order of its comparison. Floating-point operations are the record
  \<open>float_ops\<close>, with its extensions \<open>clock_ops\<close> for the trace's milliseconds and \<open>gpu_ops\<close> for the cluster, passed to
  the few definitions that use them, so that no rounding or truncation is assumed away. The request's decoding strategy, a type of the
  external trace crate, is the type variable \<open>'d\<close>.

  \<^bold>\<open>What the lemmas show.\<close> Accounting: a layout is valid exactly when its accounting is well formed; the closed forms the code uses (per-window sums, gap unions, resume
  positions, search for the longest fitting context) equal their set-theoretic meaning. Cache: the policy's
  victim is the least entry, eviction stops as soon as the limit holds, a lookup is the largest resumable
  position. Partition and ledger: totals always equal the sum over the entries; the sampled projected peak is
  exact for fewer than eight decodes, and is never below the current residency. Store: every operation
  returns and keeps the invariant; what passes \<open>fits\<close> and grows no faster than it promised stays within
  capacity over any interleaving of reserve, commit, advance and release, for fewer than seven decodes at a commit and
  checkpoints that do not shrink, the two cases in which the code's own bookkeeping is exact. Admission: queues lose nobody and
  hand out the preferred head, also after a lazy refresh; a batch is the run of admissions that
  the code's gates allow: each head passes the token budget and the KV gate on the tokens counted so far, and the run
  stops exactly at a head that a gate refuses. Speculation: the hash behind the
  acceptance draws is a permutation, so a rate accepts exactly its share of keys; a round moves every decode's
  KV by exactly the tokens it emitted. Loading: a trace is accepted exactly when its rows are valid, its ids unique and its
  arrivals ordered, and dense ids lead back to the source names. Replay: over any interleaving of drains and completions every row is
  released at most once, rounds of a session one after the other with their waits, never more units than the
  capacity, and a drain ends; once nothing is in flight some later drain releases the next row. Worker: every tick returns while its
  counters have room, the submitted input is
  what is resident, a request enqueued is waiting, resident or completed exactly once, completed with
  exactly its output, and the worker asks for a wake-up exactly as long as it holds a request. Pool: every
  request is at exactly one worker or completed, whatever the placement policy, and no worker with work is
  ever left out of a tick that is due. Run: the frontend's ledger, the pool, the store and the log stay in step, so
  a run drains exactly when it has served its trace, every arrived request has one terminal row, the census times
  increase, a run without \<open>run_to_end\<close> ends by its duration, stuck means a sampling period without progress, and no pass
  panics while the clock, the counters and the next decode step fit. Cluster: no communication stream carries two
  transfers at a time, and a gather pays the latency once and overlaps its senders.

  \<^bold>\<open>Bounds.\<close> Partial functions (the eviction loop, the loops of \<open>form_batch\<close>, \<open>tick\<close> and \<open>drain_due\<close>, the run loop) are
  \<open>partial_function (option)\<close>, with no fuel; their termination is proved by the size of the cache, the
  length of the queue, the rows of the trace, the state of the machine and, for a run with a duration, its clock. The peak is proved exact up to seven decodes, the
  number the code samples without skipping. \<open>local_ok\<close> bounds the number of partitions by 65535 and the
  queue by \<open>u32::MAX\<close>, the widths of the ids and counters.

  \<^bold>\<open>Not modelled.\<close> The time of an iteration (kernel predictors, cost trees, cost buffers: floating point
  over profiled data) is the argument \<open>cost\<close> of the worker. The chunked-prefill lifecycle beyond its chunk
  sizes, the handoff, slot and pipelined lifecycles, the pull-decode,
  attention-FFN-disaggregated and pipeline workers, model architectures and worklets,
  the other pools and flows, deployment presets, log writers and the separate analyzer are not modelled:
  the first of these are planned, the rest is configuration arithmetic, glue or output.
\<close>

end
